(* ===== verification/Prelude.thy ===== *)
theory Prelude
  imports Main "HOL-Library.Word"
begin

text \<open>
  Shared vocabulary of the development: C bytes as 8-bit words, C strings as byte
  lists, the collections of simplification rules used by the components, and the
  generic facts on masks, shifts and list segments that several components need.
\<close>

unbundle bit_operations_syntax

type_synonym byte = "8 word"
type_synonym size_t = "64 word"
type_synonym bytes = "byte list"

named_theorems mask_simps \<open>masks and shifts of int values as div and mod\<close>
named_theorems byte_simps \<open>facts on single bytes\<close>

subsection \<open>Characters and C strings\<close>

text \<open>The bytes of an ASCII literal of the source.\<close>

definition asc :: "string \<Rightarrow> bytes" where
  "asc s = map of_char s"

lemma asc_Nil [simp]: "asc [] = []"
  by (simp add: asc_def)

lemma asc_Cons [simp]: "asc (c # cs) = of_char c # asc cs"
  by (simp add: asc_def)

lemma length_asc [simp]: "length (asc s) = length s"
  by (simp add: asc_def)

lemma of_char_byte: "(of_char x :: byte) = of_char y \<longleftrightarrow> x = y"
proof
  have w: "(of_char c :: byte) = word_of_nat (of_char c)" for c by (simp add: of_char_def horner_sum_simps)
  have "(of_char c :: nat) < 256" for c using nat_of_char_less_256 [of c] by simp
  then have u: "unat (of_char c :: byte) = of_char c" for c unfolding w by (simp add: unat_of_nat)
  assume "(of_char x :: byte) = of_char y"
  then have "(of_char x :: nat) = of_char y" by (metis u)
  then show "x = y" by simp
qed simp

text \<open>The value of a C \<open>char\<close> read as \<open>int\<close>: the platforms of the library have a
  signed \<open>char\<close>.\<close>

definition schar :: "byte \<Rightarrow> int" where
  "schar b = sint b"

text \<open>\<open>strlen\<close>-style view of a byte array: everything before the first NUL.\<close>

definition cstr :: "bytes \<Rightarrow> bytes" where
  "cstr s = takeWhile (\<lambda>b. b \<noteq> 0) s"

lemma cstr_no_nul: "0 \<notin> set (cstr s)"
  by (auto simp: cstr_def dest: set_takeWhileD)

lemma cstr_id: "0 \<notin> set s \<Longrightarrow> cstr s = s"
  by (auto simp: cstr_def takeWhile_eq_all_conv)

lemma drop_eq_ConsD: "drop n xs = y # ys \<Longrightarrow> n < length xs \<and> xs ! n = y \<and> drop (Suc n) xs = ys"
  by (metis Cons_nth_drop_Suc drop_eq_Nil leI list.discI list.inject)

subsection \<open>Masks and shifts\<close>

lemma and_mask_int [mask_simps]:
  "(x::int) AND 0x3F = x mod 64" "(x::int) AND 0x1F = x mod 32"
  "(x::int) AND 0xF = x mod 16" "(x::int) AND 0x7 = x mod 8"
  "(x::int) AND 0x3FF = x mod 1024"
  using take_bit_eq_mask [of 6 x] take_bit_eq_mask [of 5 x]
    take_bit_eq_mask [of 4 x] take_bit_eq_mask [of 3 x] take_bit_eq_mask [of 10 x]
  by (simp_all add: take_bit_eq_mod mask_eq_exp_minus_1)

lemma drop_bit_and_int [mask_simps]:
  "drop_bit n ((x::int) AND m) = (x div 2 ^ n) AND drop_bit n m"
  by (simp add: drop_bit_and drop_bit_eq_div [of _ x])

lemma push_bit_int [mask_simps]: "push_bit n (x::int) = x * 2 ^ n"
  by (simp add: push_bit_eq_mult)

lemma uint_and_mask [mask_simps]:
  "uint ((u::byte) AND 0x3F) = uint u mod 64" "uint ((u::byte) AND 0x1F) = uint u mod 32"
  "uint ((u::byte) AND 0xF) = uint u mod 16" "uint ((u::byte) AND 0x7) = uint u mod 8"
  by (simp_all add: uint_and mask_simps)

lemma byte_range [byte_simps]: "0 \<le> uint (u::byte)" "uint (u::byte) < 256"
  using uint_bounded [of u] by simp_all

lemma uint_byte_nonneg [simp]: "uint (u::byte) \<noteq> -1" "\<not> uint (u::byte) < 0"
  using byte_range [of u] by linarith+

lemma byte_less_iff [byte_simps]:
  "((u::byte) < v) = (uint u < uint v)" "((u::byte) \<le> v) = (uint u \<le> uint v)"
  "((u::byte) = v) = (uint u = uint v)"
  by (simp_all add: word_less_def word_le_def word_uint_eq_iff)

text \<open>C's conversion of an \<open>int\<close> to (unsigned) \<open>char\<close>: reduction modulo 256.\<close>

definition to_byte :: "int \<Rightarrow> byte" where
  "to_byte x = of_int x"

lemma uint_to_byte [byte_simps]: "uint (to_byte x) = x mod 256"
  by (simp add: to_byte_def uint_word_of_int)

lemma to_byte_uint [simp]: "to_byte (uint u) = u"
  by (simp add: to_byte_def)

lemma to_byte_eq [byte_simps]: "to_byte x = to_byte y \<longleftrightarrow> x mod 256 = y mod 256"
  by (simp add: byte_simps)

subsection \<open>Numbers as text\<close>

text \<open>Digits as \<open>printf\<close> writes them: \<open>%lld\<close>, \<open>%x\<close> and \<open>%X\<close>.\<close>

fun dec_nat :: "nat \<Rightarrow> bytes" where
  "dec_nat n = (if n < 10 then [of_nat (48 + n)] else dec_nat (n div 10) @ [of_nat (48 + n mod 10)])"

declare dec_nat.simps [simp del]

definition dec_int :: "int \<Rightarrow> bytes" where
  "dec_int i = (if i < 0 then 45 # dec_nat (nat (- i)) else dec_nat (nat i))"

definition hex_digit :: "nat \<Rightarrow> nat \<Rightarrow> byte" where
  "hex_digit ten d = of_nat (if d < 10 then 48 + d else ten + (d - 10))"

fun hex_nat :: "nat \<Rightarrow> nat \<Rightarrow> bytes" where
  "hex_nat ten n = (if n < 16 then [hex_digit ten n] else hex_nat ten (n div 16) @ [hex_digit ten (n mod 16)])"

declare hex_nat.simps [simp del]

definition hex_lower :: "nat \<Rightarrow> bytes" where "hex_lower = hex_nat 97"
definition hex_upper :: "nat \<Rightarrow> bytes" where "hex_upper = hex_nat 65"

text \<open>\<open>%04X\<close>: at least four digits.\<close>

definition hex4 :: "nat \<Rightarrow> bytes" where
  "hex4 n = replicate (4 - length (hex_upper n)) 48 @ hex_upper n"

end
