(* ===== verification/Utf.thy ===== *)
theory Utf
  imports Prelude
begin

text \<open>
  The UTF-8 codec of \<^verbatim>\<open>src/jansson/src/utf.c\<close>. A \<open>const char *\<close> with its
  size is a byte list; an \<open>int32_t\<close> code point is an \<open>int\<close> (no operation of the
  file leaves the 32-bit range). Out-parameters are part of the result: \<open>None\<close> stands
  for the return values \<open>-1\<close>, \<open>0\<close> and \<open>NULL\<close> of the four routines.
  The specification side is the set of Unicode scalar values and their canonical
  encoding; the codec accepts exactly the concatenations of such encodings.
\<close>

subsection \<open>The routines\<close>

definition utf8_encode :: "int \<Rightarrow> bytes option" where
  "utf8_encode codepoint =
     (if codepoint < 0 then None
      else if codepoint < 0x80 then Some [to_byte codepoint]
      else if codepoint < 0x800 then
        Some [to_byte (0xC0 + drop_bit 6 (codepoint AND 0x7C0)),
              to_byte (0x80 + (codepoint AND 0x03F))]
      else if codepoint < 0x10000 then
        Some [to_byte (0xE0 + drop_bit 12 (codepoint AND 0xF000)),
              to_byte (0x80 + drop_bit 6 (codepoint AND 0x0FC0)),
              to_byte (0x80 + (codepoint AND 0x003F))]
      else if codepoint \<le> 0x10FFFF then
        Some [to_byte (0xF0 + drop_bit 18 (codepoint AND 0x1C0000)),
              to_byte (0x80 + drop_bit 12 (codepoint AND 0x03F000)),
              to_byte (0x80 + drop_bit 6 (codepoint AND 0x000FC0)),
              to_byte (0x80 + (codepoint AND 0x00003F))]
      else None)"

definition utf8_check_first :: "byte \<Rightarrow> nat" where
  "utf8_check_first u =
     (if u < 0x80 then 1
      else if 0x80 \<le> u \<and> u \<le> 0xBF then 0
      else if u = 0xC0 \<or> u = 0xC1 then 0
      else if 0xC2 \<le> u \<and> u \<le> 0xDF then 2
      else if 0xE0 \<le> u \<and> u \<le> 0xEF then 3
      else if 0xF0 \<le> u \<and> u \<le> 0xF4 then 4
      else 0)"

text \<open>The loop over the continuation bytes: \<open>i\<close> and \<open>value\<close> are its variables.\<close>

function utf8_check_full_loop :: "bytes \<Rightarrow> nat \<Rightarrow> nat \<Rightarrow> int \<Rightarrow> int option" where
  "utf8_check_full_loop buffer sz i value =
     (if i < sz then
        (let u = buffer ! i in
         if u < 0x80 \<or> u > 0xBF then None
         else utf8_check_full_loop buffer sz (Suc i) (push_bit 6 value + uint (u AND 0x3F)))
      else Some value)"
  by pat_completeness auto
termination
  by (relation "measure (\<lambda>(buffer, sz, i, value). sz - i)") auto

declare utf8_check_full_loop.simps [simp del]

definition utf8_check_full :: "bytes \<Rightarrow> nat \<Rightarrow> int option" where
  "utf8_check_full buffer sz =
     (let u = buffer ! 0;
          start = (if sz = 2 then Some (uint (u AND 0x1F))
                   else if sz = 3 then Some (uint (u AND 0xF))
                   else if sz = 4 then Some (uint (u AND 0x7))
                   else None)
      in case start of
           None \<Rightarrow> None
         | Some value0 \<Rightarrow>
             (case utf8_check_full_loop buffer sz 1 value0 of
                None \<Rightarrow> None
              | Some value \<Rightarrow>
                  if value > 0x10FFFF then None
                  else if 0xD800 \<le> value \<and> value \<le> 0xDFFF then None
                  else if sz = 2 \<and> value < 0x80 \<or> sz = 3 \<and> value < 0x800 \<or>
                          sz = 4 \<and> value < 0x10000 then None
                  else Some value))"

text \<open>\<open>utf8_iterate\<close> returns how far the pointer moved and what it stored through
  \<open>codepoint\<close> (nothing when \<open>bufsize\<close> is zero).\<close>

definition utf8_iterate :: "bytes \<Rightarrow> nat \<Rightarrow> (nat \<times> int option) option" where
  "utf8_iterate buffer bufsize =
     (if bufsize = 0 then Some (0, None)
      else let count = utf8_check_first (buffer ! 0) in
        if count \<le> 0 then None
        else if count = 1 then Some (1, Some (uint (buffer ! 0)))
        else if count > bufsize then None
        else (case utf8_check_full buffer count of
                None \<Rightarrow> None
              | Some value \<Rightarrow> Some (count, Some value)))"

function utf8_check_string_loop :: "bytes \<Rightarrow> nat \<Rightarrow> nat \<Rightarrow> bool" where
  "utf8_check_string_loop string len i =
     (if i < len then
        (let count = utf8_check_first (string ! i) in
         if count = 0 then False
         else if count > 1 then
           if count > len - i then False
           else if utf8_check_full (drop i string) count = None then False
           else utf8_check_string_loop string len (i + (count - 1) + 1)
         else utf8_check_string_loop string len (i + 1))
      else True)"
  by pat_completeness auto
termination
  by (relation "measure (\<lambda>(string, len, i). len - i)") auto

declare utf8_check_string_loop.simps [simp del]

definition utf8_check_string :: "bytes \<Rightarrow> nat \<Rightarrow> bool" where
  "utf8_check_string string len = utf8_check_string_loop string len 0"

subsection \<open>Specification: scalar values and their encoding\<close>

definition scalar :: "int \<Rightarrow> bool" where
  "scalar c \<longleftrightarrow> 0 \<le> c \<and> c \<le> 0x10FFFF \<and> \<not> (0xD800 \<le> c \<and> c \<le> 0xDFFF)"

definition enc :: "int \<Rightarrow> bytes" where
  "enc c =
     (if c < 0x80 then map to_byte [c]
      else if c < 0x800 then map to_byte [0xC0 + c div 64, 0x80 + c mod 64]
      else if c < 0x10000 then
        map to_byte [0xE0 + c div 4096, 0x80 + c div 64 mod 64, 0x80 + c mod 64]
      else map to_byte [0xF0 + c div 262144, 0x80 + c div 4096 mod 64,
                       0x80 + c div 64 mod 64, 0x80 + c mod 64])"

definition enc_all :: "int list \<Rightarrow> bytes" where
  "enc_all cs = concat (map enc cs)"

lemma enc_all_simps [simp]:
  "enc_all [] = []" "enc_all (c # cs) = enc c @ enc_all cs"
  "enc_all (cs @ ds) = enc_all cs @ enc_all ds"
  by (simp_all add: enc_all_def)

lemma encode_fields:
  "drop_bit 6 ((c::int) AND 0x7C0) = c div 64 mod 32"
  "drop_bit 12 (c AND 0xF000) = c div 4096 mod 16" "drop_bit 6 (c AND 0xFC0) = c div 64 mod 64"
  "drop_bit 18 (c AND 0x1C0000) = c div 262144 mod 8"
  "drop_bit 12 (c AND 0x3F000) = c div 4096 mod 64"
  by (simp_all add: mask_simps drop_bit_eq_div [of _ c])

lemma utf8_encode_enc: "0 \<le> c \<Longrightarrow> c \<le> 0x10FFFF \<Longrightarrow> utf8_encode c = Some (enc c)"
proof -
  assume c: "0 \<le> c" "c \<le> 0x10FFFF"
  have "c < 0x800 \<Longrightarrow> c div 64 mod 32 = c div 64" "c < 0x10000 \<Longrightarrow> c div 4096 mod 16 = c div 4096"
    "c div 262144 mod 8 = c div 262144"
    using c by auto
  with c show ?thesis
    by (simp only: utf8_encode_def enc_def encode_fields list.map) (simp add: mask_simps)
qed

lemma utf8_encode_range: "utf8_encode c = None \<longleftrightarrow> c < 0 \<or> 0x10FFFF < c"
  by (simp add: utf8_encode_def)

lemma enc_nonempty [simp]: "enc c \<noteq> []"
  by (simp add: enc_def)

lemma length_enc: "length (enc c) = (if c < 0x80 then 1 else if c < 0x800 then 2
    else if c < 0x10000 then 3 else 4)"
  by (simp add: enc_def)


subsection \<open>The routines implement the specification\<close>

lemma check_full_loop_done [simp]: "sz \<le> i \<Longrightarrow> utf8_check_full_loop b sz i v = Some v"
  by (simp add: utf8_check_full_loop.simps)

lemma check_full_loop_step:
  "i < sz \<Longrightarrow> utf8_check_full_loop b sz i v =
     (if uint (b ! i) < 0x80 \<or> 0xBF < uint (b ! i) then None
      else utf8_check_full_loop b sz (Suc i) (v * 64 + uint (b ! i) mod 64))"
  by (subst utf8_check_full_loop.simps) (simp add: Let_def byte_simps mask_simps)

lemma check_full_2: "utf8_check_full (a # b # bs) 2 =
    (if uint b < 0x80 \<or> 0xBF < uint b then None
     else let v = uint a mod 32 * 64 + uint b mod 64 in if v < 0x80 then None else Some v)"
proof -
  have "uint a mod 32 < 32" "uint b mod 64 < 64" by simp_all
  then have "uint a mod 32 * 64 + uint b mod 64 < 0x800" by linarith
  then show ?thesis
    by (simp add: utf8_check_full_def check_full_loop_step mask_simps Let_def)
qed

lemma check_full_3: "utf8_check_full (a # b # c # bs) 3 =
    (if uint b < 0x80 \<or> 0xBF < uint b \<or> uint c < 0x80 \<or> 0xBF < uint c then None
     else let v = (uint a mod 16 * 64 + uint b mod 64) * 64 + uint c mod 64 in
       if v > 0x10FFFF \<or> 0xD800 \<le> v \<and> v \<le> 0xDFFF \<or> v < 0x800 then None else Some v)"
  by (simp add: utf8_check_full_def check_full_loop_step mask_simps Let_def)

lemma check_full_4: "utf8_check_full (a # b # c # d # bs) 4 =
    (if uint b < 0x80 \<or> 0xBF < uint b \<or> uint c < 0x80 \<or> 0xBF < uint c \<or>
        uint d < 0x80 \<or> 0xBF < uint d then None
     else let v = ((uint a mod 8 * 64 + uint b mod 64) * 64 + uint c mod 64) * 64 + uint d mod 64
       in if v > 0x10FFFF \<or> v < 0x10000 then None else Some v)"
  by (simp add: utf8_check_full_def check_full_loop_step mask_simps Let_def)

text \<open>An encoded scalar value is accepted and decoded to itself.\<close>

lemma check_first_simps:
  "utf8_check_first u = (if uint u < 0x80 then 1 else if uint u < 0xC2 then 0
     else if uint u < 0xE0 then 2 else if uint u < 0xF0 then 3 else if uint u < 0xF5 then 4 else 0)"
  by (simp add: utf8_check_first_def byte_simps)

lemma check_first_enc: "scalar c \<Longrightarrow> utf8_check_first (hd (enc c)) = length (enc c)"
  by (auto simp: scalar_def enc_def check_first_simps byte_simps)

lemma enc_2: "0x80 \<le> c \<Longrightarrow> c < 0x800 \<Longrightarrow>
    enc c = [to_byte (0xC0 + c div 64), to_byte (0x80 + c mod 64)]"
  by (simp add: enc_def)

lemma enc_3: "0x800 \<le> c \<Longrightarrow> c < 0x10000 \<Longrightarrow> enc c =
    [to_byte (0xE0 + c div 4096), to_byte (0x80 + c div 64 mod 64), to_byte (0x80 + c mod 64)]"
  by (simp add: enc_def)

lemma enc_4: "0x10000 \<le> c \<Longrightarrow> enc c =
    [to_byte (0xF0 + c div 262144), to_byte (0x80 + c div 4096 mod 64),
     to_byte (0x80 + c div 64 mod 64), to_byte (0x80 + c mod 64)]"
  by (simp add: enc_def)

lemma uint_lead [simp]:
  "0x80 \<le> c \<Longrightarrow> c < 0x800 \<Longrightarrow> uint (to_byte (0xC0 + c div 64)) = 0xC0 + c div 64"
  "0x800 \<le> c \<Longrightarrow> c < 0x10000 \<Longrightarrow> uint (to_byte (0xE0 + c div 4096)) = 0xE0 + c div 4096"
  "0x10000 \<le> c \<Longrightarrow> c \<le> 0x10FFFF \<Longrightarrow> uint (to_byte (0xF0 + c div 262144)) = 0xF0 + c div 262144"
  by (auto simp: uint_to_byte)

lemma uint_cont [simp]: "uint (to_byte (0x80 + x mod 64)) = 0x80 + x mod 64"
proof -
  have "0 \<le> x mod 64" "x mod 64 < 64" by simp_all
  then have "(0x80 + x mod 64) mod 256 = 0x80 + x mod 64" by simp
  then show ?thesis by (simp add: uint_to_byte)
qed

lemma split_64: "(x::int) div 4096 = x div 64 div 64" "x div 262144 = x div 64 div 64 div 64"
  by (simp_all add: zdiv_zmult2_eq [symmetric])

lemma join_64: "(x::int) div 64 * 64 + x mod 64 = x"
  by simp

lemma lead_mod:
  "0 \<le> x \<Longrightarrow> x < 32 \<Longrightarrow> (0xC0 + x) mod 32 = (x::int)"
  "0 \<le> x \<Longrightarrow> x < 16 \<Longrightarrow> (0xE0 + x) mod 16 = x"
  "0 \<le> x \<Longrightarrow> x < 8 \<Longrightarrow> (0xF0 + x) mod 8 = x"
  using mod_mult_self1 [of x 6 32] mod_mult_self1 [of x 14 16] mod_mult_self1 [of x 30 8]
  by (simp_all add: add.commute)

lemma cont_mod: "0 \<le> y \<Longrightarrow> y < 64 \<Longrightarrow> (0x80 + y) mod 64 = (y::int)"
  using mod_mult_self1 [of y 2 64] by (simp add: add.commute)

text \<open>A byte is a lead byte with payload \<open>x\<close>, a continuation byte with payload \<open>y\<close>.\<close>

definition lead :: "int \<Rightarrow> int \<Rightarrow> byte \<Rightarrow> int \<Rightarrow> bool" where
  "lead k n u x \<longleftrightarrow> uint u = k + x \<and> 0 \<le> x \<and> x < n"

definition cont :: "byte \<Rightarrow> int \<Rightarrow> bool" where
  "cont u y \<longleftrightarrow> uint u = 0x80 + y \<and> 0 \<le> y \<and> y < 64"

lemma cont_iff: "cont u y \<Longrightarrow> uint u mod 64 = y \<and> \<not> uint u < 0x80 \<and> \<not> 0xBF < uint u"
  by (auto simp: cont_def cont_mod)

lemma check_full_2I: "uint a mod 32 = x \<Longrightarrow> cont b y \<Longrightarrow> v = x * 64 + y \<Longrightarrow>
    utf8_check_full (a # b # bs) 2 = (if v < 0x80 then None else Some v)"
  by (simp add: check_full_2 Let_def cont_iff)

lemma check_full_3I: "uint a mod 16 = x \<Longrightarrow> cont b y \<Longrightarrow> cont c z \<Longrightarrow> v = (x * 64 + y) * 64 + z \<Longrightarrow>
    utf8_check_full (a # b # c # bs) 3 =
      (if v > 0x10FFFF \<or> 0xD800 \<le> v \<and> v \<le> 0xDFFF \<or> v < 0x800 then None else Some v)"
  by (simp only: check_full_3 Let_def cont_iff) simp

lemma check_full_4I: "uint a mod 8 = x \<Longrightarrow> cont b y \<Longrightarrow> cont c z \<Longrightarrow> cont d w \<Longrightarrow>
    v = ((x * 64 + y) * 64 + z) * 64 + w \<Longrightarrow>
    utf8_check_full (a # b # c # d # bs) 4 =
      (if v > 0x10FFFF \<or> v < 0x10000 then None else Some v)"
  by (simp only: check_full_4 Let_def cont_iff) simp

lemma lead_iff:
  "lead 0xC0 32 u x \<Longrightarrow> uint u mod 32 = x" "lead 0xE0 16 u x \<Longrightarrow> uint u mod 16 = x"
  "lead 0xF0 8 u x \<Longrightarrow> uint u mod 8 = x"
  by (auto simp: lead_def lead_mod)

lemma cont_to_byte: "cont (to_byte (0x80 + x mod 64)) (x mod 64)"
  by (simp add: cont_def cont_mod)

lemma lead_to_byte:
  "0x80 \<le> c \<Longrightarrow> c < 0x800 \<Longrightarrow> lead 0xC0 32 (to_byte (0xC0 + c div 64)) (c div 64)"
  "0x800 \<le> c \<Longrightarrow> c < 0x10000 \<Longrightarrow> lead 0xE0 16 (to_byte (0xE0 + c div 4096)) (c div 4096)"
  "0x10000 \<le> c \<Longrightarrow> c \<le> 0x10FFFF \<Longrightarrow>
     lead 0xF0 8 (to_byte (0xF0 + c div 262144)) (c div 262144)"
  by (auto simp: lead_def)

lemma join_3: "(c div 4096 * 64 + c div 64 mod 64) * 64 + c mod 64 = (c::int)"
  by (simp only: split_64 join_64)

lemma join_4:
  "((c div 262144 * 64 + c div 4096 mod 64) * 64 + c div 64 mod 64) * 64 + c mod 64 = (c::int)"
  by (simp only: split_64 join_64)

lemma check_full_enc_2:
  assumes "0x80 \<le> c" "c < 0x800"
  shows "utf8_check_full (enc c @ rest) 2 = Some c"
  using assms check_full_2I [OF lead_iff(1) [OF lead_to_byte(1)] cont_to_byte join_64 [symmetric]]
  by (simp add: enc_2)

lemma check_full_enc_3:
  assumes "0x800 \<le> c" "c < 0x10000" "\<not> (0xD800 \<le> c \<and> c \<le> 0xDFFF)"
  shows "utf8_check_full (enc c @ rest) 3 = Some c"
  using assms check_full_3I [OF lead_iff(2) [OF lead_to_byte(2)] cont_to_byte cont_to_byte
      join_3 [symmetric]]
  by (simp add: enc_3)

lemma check_full_enc_4:
  assumes "0x10000 \<le> c" "c \<le> 0x10FFFF"
  shows "utf8_check_full (enc c @ rest) 4 = Some c"
  using assms check_full_4I [OF lead_iff(3) [OF lead_to_byte(3)] cont_to_byte cont_to_byte
      cont_to_byte join_4 [symmetric]]
  by (simp add: enc_4)

lemma check_full_enc:
  "scalar c \<Longrightarrow> 0x80 \<le> c \<Longrightarrow> utf8_check_full (enc c @ rest) (length (enc c)) = Some c"
  using check_full_enc_2 check_full_enc_3 check_full_enc_4
  by (auto simp: scalar_def length_enc)

lemma field_div:
  "0 \<le> y \<Longrightarrow> y < 64 \<Longrightarrow> (x * 64 + y) div 64 = (x::int)"
  "0 \<le> y \<Longrightarrow> y < 64 \<Longrightarrow> (x * 64 + y) mod 64 = (y::int)"
  by auto

text \<open>Conversely, whatever is accepted is the encoding of the scalar value it decodes to.\<close>

lemma to_byteI: "uint u = x \<Longrightarrow> to_byte x = u"
  by auto

lemma cont_byteE:
  assumes "\<not> uint (b::byte) < 0x80" "\<not> 0xBF < uint b"
  obtains y where "cont b y"
  using assms that [of "uint b - 0x80"] cont_mod [of "uint b - 0x80"] by (auto simp: cont_def)

lemma enc_dec_2:
  assumes f: "utf8_check_first a = 2" and d: "utf8_check_full (a # b # bs) 2 = Some v"
  shows "scalar v \<and> 0x80 \<le> v \<and> enc v = [a, b]"
proof -
  from f obtain x where x: "lead 0xC0 32 a x"
    using that [of "uint a - 0xC0"] lead_mod(1) [of "uint a - 0xC0"]
    by (auto simp: check_first_simps lead_def lead_mod split: if_splits)
  from d obtain y where y: "cont b y"
    by (auto simp: check_full_2 split: if_splits elim: cont_byteE)
  from d check_full_2I [OF lead_iff(1) [OF x] y refl, of bs] have v: "v = x * 64 + y" "0x80 \<le> v"
    by (auto split: if_splits)
  with x y have "v < 0x800" "v div 64 = x" "v mod 64 = y"
    by (auto simp: lead_def cont_def)
  with v x y show ?thesis
    by (simp add: enc_2 scalar_def to_byteI lead_def cont_def)
qed

lemma enc_dec_3:
  assumes f: "utf8_check_first a = 3" and d: "utf8_check_full (a # b # c # bs) 3 = Some v"
  shows "scalar v \<and> 0x80 \<le> v \<and> enc v = [a, b, c]"
proof -
  from f obtain x where x: "lead 0xE0 16 a x"
    using that [of "uint a - 0xE0"] by (auto simp: check_first_simps lead_def split: if_splits)
  from d obtain y z where y: "cont b y" and z: "cont c z"
    by (auto simp: check_full_3 split: if_splits elim!: cont_byteE)
  from d check_full_3I [OF lead_iff(2) [OF x] y z refl, of bs]
  have v: "v = (x * 64 + y) * 64 + z" "0x800 \<le> v" "\<not> (0xD800 \<le> v \<and> v \<le> 0xDFFF)"
    by (auto split: if_splits)
  from y z have "v div 4096 = x" "v div 64 mod 64 = y" "v mod 64 = z"
    by (simp_all only: v split_64 field_div cont_def)
  moreover from v x y z have "v < 0x10000" by (auto simp: lead_def cont_def)
  ultimately show ?thesis
    using v(2,3) x y z by (simp add: enc_3 scalar_def to_byteI lead_def cont_def)
qed

lemma enc_dec_4:
  assumes f: "utf8_check_first a = 4" and d: "utf8_check_full (a # b # c # e # bs) 4 = Some v"
  shows "scalar v \<and> 0x80 \<le> v \<and> enc v = [a, b, c, e]"
proof -
  from f obtain x where x: "lead 0xF0 8 a x"
    using that [of "uint a - 0xF0"] by (auto simp: check_first_simps lead_def split: if_splits)
  from d obtain y z w where y: "cont b y" and z: "cont c z" and w: "cont e w"
    by (auto simp: check_full_4 split: if_splits elim!: cont_byteE)
  from d check_full_4I [OF lead_iff(3) [OF x] y z w refl, of bs]
  have v: "v = ((x * 64 + y) * 64 + z) * 64 + w" "0x10000 \<le> v" "v \<le> 0x10FFFF"
    by (auto split: if_splits)
  from y z w have "v div 262144 = x" "v div 4096 mod 64 = y" "v div 64 mod 64 = z" "v mod 64 = w"
    by (simp_all only: v(1) split_64 field_div cont_def)
  then have "enc v = [to_byte (0xF0 + x), to_byte (0x80 + y), to_byte (0x80 + z), to_byte (0x80 + w)]"
    by (simp only: enc_4 [OF v(2)])
  moreover have "to_byte (0xF0 + x) = a" "to_byte (0x80 + y) = b" "to_byte (0x80 + z) = c"
      "to_byte (0x80 + w) = e"
    using x y z w by (auto intro!: to_byteI simp: lead_def cont_def)
  moreover have "scalar v" using v(2,3) by (simp add: scalar_def)
  ultimately show ?thesis using v(2) by simp
qed

lemma enc_dec:
  assumes "utf8_check_first (bs ! 0) = n" "1 < n" "n \<le> length bs" "utf8_check_full bs n = Some v"
  shows "scalar v \<and> 0x80 \<le> v \<and> take n bs = enc v"
proof -
  have "n = 2 \<or> n = 3 \<or> n = 4"
    using assms(1,2) by (auto simp: check_first_simps split: if_splits)
  then show ?thesis
  proof (elim disjE)
    assume "n = 2"
    then obtain a b cs where "bs = a # b # cs"
      using assms(3) by (cases bs rule: list.exhaust [case_product list.exhaust])
        (auto simp: neq_Nil_conv Suc_le_length_iff numeral_2_eq_2)
    with assms \<open>n = 2\<close> enc_dec_2 [of a b cs v] show ?thesis by simp
  next
    assume "n = 3"
    then obtain a b c cs where "bs = a # b # c # cs"
      using assms(3) by (auto simp: Suc_le_length_iff numeral_3_eq_3)
    with assms \<open>n = 3\<close> enc_dec_3 [of a b c cs v] show ?thesis by simp
  next
    assume "n = 4"
    then obtain a b c e cs where "bs = a # b # c # e # cs"
      using assms(3) by (auto simp: Suc_le_length_iff eval_nat_numeral)
    with assms \<open>n = 4\<close> enc_dec_4 [of a b c e cs v] show ?thesis by simp
  qed
qed

lemma enc_ascii: "uint u < 0x80 \<Longrightarrow> enc (uint u) = [u]"
  by (simp add: enc_def)

lemma hd_enc: "(enc c @ rest) ! 0 = hd (enc c)"
  by (cases "enc c") simp_all

lemma utf8_iterate_enc:
  assumes "scalar c" "length (enc c) \<le> n"
  shows "utf8_iterate (enc c @ rest) n = Some (length (enc c), Some c)"
proof (cases "c < 0x80")
  case True
  with assms show ?thesis
    by (simp add: utf8_iterate_def scalar_def enc_def check_first_simps byte_simps)
next
  case False
  moreover from this have "1 < length (enc c)" by (simp add: length_enc)
  ultimately show ?thesis
    using assms by (simp add: utf8_iterate_def hd_enc check_first_enc check_full_enc Let_def)
qed

lemma utf8_iterate_Some:
  assumes "bs \<noteq> []" "utf8_iterate bs (length bs) = Some (n, cp)"
  shows "\<exists>c. cp = Some c \<and> scalar c \<and> n = length (enc c) \<and> take n bs = enc c"
proof (cases "utf8_check_first (bs ! 0) = 1")
  case True
  with assms have "uint (bs ! 0) < 0x80" "n = 1" "cp = Some (uint (bs ! 0))"
    by (auto simp: utf8_iterate_def check_first_simps split: if_splits)
  moreover from assms have "take 1 bs = [bs ! 0]" by (cases bs) auto
  ultimately show ?thesis by (auto simp: scalar_def enc_ascii)
next
  case False
  with assms obtain v where v: "cp = Some v" "utf8_check_first (bs ! 0) = n" "1 < n"
      "n \<le> length bs" "utf8_check_full bs n = Some v"
    by (auto simp: utf8_iterate_def Let_def split: if_splits option.splits dest: sym)
  with enc_dec [OF v(2-5)] show ?thesis by (metis length_take min.absorb2)
qed

text \<open>Valid UTF-8 in the sense of RFC 3629.\<close>

definition valid_utf8 :: "bytes \<Rightarrow> bool" where
  "valid_utf8 bs \<longleftrightarrow> (\<exists>cs. list_all scalar cs \<and> bs = enc_all cs)"

lemma valid_utf8_Nil [simp]: "valid_utf8 []"
  unfolding valid_utf8_def by (rule exI [of _ "[]"]) simp

lemma valid_utf8_enc: "scalar c \<Longrightarrow> valid_utf8 (enc c @ bs) \<longleftrightarrow> valid_utf8 bs"
proof
  assume c: "scalar c" "valid_utf8 (enc c @ bs)"
  then obtain cs where cs: "list_all scalar cs" "enc c @ bs = enc_all cs"
    by (auto simp: valid_utf8_def)
  then obtain d ds where d: "cs = d # ds" by (cases cs) auto
  have "utf8_iterate (enc c @ bs) (length (enc c @ bs)) = Some (length (enc c), Some c)"
    using c by (intro utf8_iterate_enc) auto
  moreover have "utf8_iterate (enc d @ enc_all ds) (length (enc d @ enc_all ds)) =
      Some (length (enc d), Some d)"
    using cs d by (intro utf8_iterate_enc) auto
  ultimately have "c = d" using cs d by simp
  with cs d show "valid_utf8 bs" by (auto simp: valid_utf8_def)
next
  assume "scalar c" "valid_utf8 bs"
  then obtain cs where "list_all scalar (c # cs)" "enc c @ bs = enc_all (c # cs)"
    by (auto simp: valid_utf8_def)
  then show "valid_utf8 (enc c @ bs)" unfolding valid_utf8_def by blast
qed

lemma check_full_drop: "i \<le> length bs \<Longrightarrow> utf8_iterate (drop i bs) (length bs - i) =
    (if i = length bs then Some (0, None)
     else let count = utf8_check_first (bs ! i) in
        if count = 0 then None else if count = 1 then Some (1, Some (uint (bs ! i)))
        else if count > length bs - i then None
        else map_option (\<lambda>v. (count, Some v)) (utf8_check_full (drop i bs) count))"
  by (auto simp: utf8_iterate_def Let_def split: option.splits)

lemma check_string_loop_iterate:
  assumes "i < length bs"
  shows "utf8_check_string_loop bs (length bs) i =
    (case utf8_iterate (drop i bs) (length bs - i) of None \<Rightarrow> False
     | Some (n, cp) \<Rightarrow> utf8_check_string_loop bs (length bs) (i + n))"
  using assms
  by (subst utf8_check_string_loop.simps) (auto simp: check_full_drop Let_def split: option.splits)

lemma check_string_loop_valid:
  "i \<le> length bs \<Longrightarrow> utf8_check_string_loop bs (length bs) i \<longleftrightarrow> valid_utf8 (drop i bs)"
proof (induction "length bs - i" arbitrary: i rule: less_induct)
  case less
  show ?case
  proof (cases "i = length bs")
    case True
    then show ?thesis by (simp add: utf8_check_string_loop.simps)
  next
    case False
    with less.prems have i: "i < length bs" "drop i bs \<noteq> []" by auto
    show ?thesis
    proof (cases "utf8_iterate (drop i bs) (length bs - i)")
      case None
      have "\<not> valid_utf8 (drop i bs)"
      proof
        assume "valid_utf8 (drop i bs)"
        then obtain cs where cs: "list_all scalar cs" "drop i bs = enc_all cs"
          by (auto simp: valid_utf8_def)
        with i obtain c ds where "cs = c # ds" by (cases cs) auto
        with cs utf8_iterate_enc [of c "length (drop i bs)" "enc_all ds"] None show False
          by (simp flip: length_drop)
      qed
      with None i show ?thesis by (simp add: check_string_loop_iterate)
    next
      case (Some p)
      then obtain n cp where p: "utf8_iterate (drop i bs) (length (drop i bs)) = Some (n, cp)"
        by (cases p) auto
      from utf8_iterate_Some [OF i(2) p] obtain c where c: "scalar c" "n = length (enc c)"
          "take n (drop i bs) = enc c" by auto
      then have n: "0 < n" "i + n \<le> length bs"
        using i by (auto simp: length_enc dest: arg_cong [of _ _ length] split: if_splits)
      have "drop i bs = enc c @ drop (i + n) bs"
        using c by (metis append_take_drop_id drop_drop add.commute)
      moreover have "utf8_check_string_loop bs (length bs) (i + n) = valid_utf8 (drop (i + n) bs)"
        using less.hyps [of "i + n"] n i by simp
      moreover have "utf8_check_string_loop bs (length bs) i =
          utf8_check_string_loop bs (length bs) (i + n)"
        using i p by (simp add: check_string_loop_iterate)
      ultimately show ?thesis
        using c by (metis valid_utf8_enc)
    qed
  qed
qed

lemma utf8_check_string_valid: "utf8_check_string bs (length bs) \<longleftrightarrow> valid_utf8 bs"
  by (simp add: utf8_check_string_def check_string_loop_valid)

end
