(* ===== verification/JsonData.thy ===== *)
theory JsonData
  imports Utf
begin

text \<open>
  The data the loader and the dumper share: JSON values as trees, decoding and encoding
  flags of \<^verbatim>\<open>src/jansson/src/jansson.h\<close>, and the error record with the routines of
  \<^verbatim>\<open>src/jansson/src/error.c\<close>. A real number is a value of the type parameter
  \<open>'r\<close>; what the code asks of the C library's \<open>double\<close> is the record \<open>libc\<close>.
\<close>

subsection \<open>Values\<close>

datatype 'r json =
    JObject "(bytes \<times> 'r json) list"
  | JArray "'r json list"
  | JString bytes
  | JInteger int
  | JReal 'r
  | JTrue
  | JFalse
  | JNull

text \<open>An object is its key-value pairs in iteration order; storing under a present key
  replaces the value in place, a new key goes to the end.\<close>

fun obj_set :: "bytes \<Rightarrow> 'v \<Rightarrow> (bytes \<times> 'v) list \<Rightarrow> (bytes \<times> 'v) list" where
  "obj_set k v [] = [(k, v)]"
| "obj_set k v ((k', v') # kvs) = (if k' = k then (k', v) # kvs else (k', v') # obj_set k v kvs)"

lemma obj_set_map_of: "map_of (obj_set k v kvs) = (map_of kvs)(k \<mapsto> v)"
  by (induction k v kvs rule: obj_set.induct) auto

lemma obj_set_keys: "map fst (obj_set k v kvs) =
    (if k \<in> fst ` set kvs then map fst kvs else map fst kvs @ [k])"
  by (induction k v kvs rule: obj_set.induct) auto

lemma obj_set_distinct: "distinct (map fst kvs) \<Longrightarrow> distinct (map fst (obj_set k v kvs))"
  by (auto simp: obj_set_keys)

lemma obj_set_new: "k \<notin> fst ` set kvs \<Longrightarrow> obj_set k v kvs = kvs @ [(k, v)]"
  by (induction k v kvs rule: obj_set.induct) auto

lemma set_obj_set: "set (obj_set k v kvs) \<subseteq> insert (k, v) (set kvs)"
  by (induction k v kvs rule: obj_set.induct) auto

subsection \<open>The C library's floating point\<close>

record 'r libc =
  c_strtod :: "bytes \<Rightarrow> 'r"          \<comment> \<open>value of the converted text\<close>
  c_erange :: "bytes \<Rightarrow> bool"        \<comment> \<open>\<open>\<plusminus>HUGE_VAL\<close> with \<open>errno == ERANGE\<close>\<close>
  c_snprintf_g :: "nat \<Rightarrow> 'r \<Rightarrow> bytes" \<comment> \<open>\<open>"%.*g"\<close> with the precision\<close>
  c_decimal_point :: byte             \<comment> \<open>\<open>*localeconv()->decimal_point\<close>\<close>
  c_isnan :: "'r \<Rightarrow> bool"
  c_isinf :: "'r \<Rightarrow> bool"

subsection \<open>Flags\<close>

definition flag :: "size_t \<Rightarrow> size_t \<Rightarrow> bool" where
  "flag flags m = (flags AND m \<noteq> 0)"

definition JSON_REJECT_DUPLICATES :: size_t where "JSON_REJECT_DUPLICATES = 0x1"
definition JSON_DISABLE_EOF_CHECK :: size_t where "JSON_DISABLE_EOF_CHECK = 0x2"
definition JSON_DECODE_ANY :: size_t where "JSON_DECODE_ANY = 0x4"
definition JSON_DECODE_INT_AS_REAL :: size_t where "JSON_DECODE_INT_AS_REAL = 0x8"
definition JSON_ALLOW_NUL :: size_t where "JSON_ALLOW_NUL = 0x10"

lemmas decode_flags = JSON_REJECT_DUPLICATES_def JSON_DISABLE_EOF_CHECK_def JSON_DECODE_ANY_def
  JSON_DECODE_INT_AS_REAL_def JSON_ALLOW_NUL_def

subsection \<open>Errors\<close>

datatype json_error_code =
    json_error_unknown
  | json_error_out_of_memory
  | json_error_stack_overflow
  | json_error_cannot_open_file
  | json_error_invalid_argument
  | json_error_invalid_utf8
  | json_error_premature_end_of_input
  | json_error_end_of_input_expected
  | json_error_invalid_syntax
  | json_error_invalid_format
  | json_error_wrong_type
  | json_error_null_character
  | json_error_null_value
  | json_error_null_byte_in_key
  | json_error_duplicate_key
  | json_error_numeric_overflow
  | json_error_item_not_found
  | json_error_index_out_of_range

text \<open>\<open>json_error_t\<close>: \<open>err_text\<close> is the C string in \<open>text\<close>; its last array byte, which
  carries the error code, is the field \<open>err_code\<close> (kept by \<open>jsonp_error_init\<close>).\<close>

record json_error =
  err_line :: int
  err_column :: int
  err_position :: int
  err_source :: bytes
  err_text :: bytes
  err_code :: json_error_code

definition JSON_ERROR_TEXT_LENGTH :: nat where "JSON_ERROR_TEXT_LENGTH = 160"
definition JSON_ERROR_SOURCE_LENGTH :: nat where "JSON_ERROR_SOURCE_LENGTH = 80"

definition jsonp_error_set_source :: "json_error \<Rightarrow> bytes \<Rightarrow> json_error" where
  "jsonp_error_set_source error source =
     (let len = length (cstr source) in
      if len < JSON_ERROR_SOURCE_LENGTH then error\<lparr>err_source := cstr source\<rparr>
      else let extra = len - JSON_ERROR_SOURCE_LENGTH + 4
        in error\<lparr>err_source := asc ''...'' @ drop extra (cstr source)\<rparr>)"

definition jsonp_error_init :: "json_error option \<Rightarrow> bytes option \<Rightarrow> json_error option" where
  "jsonp_error_init error source =
     map_option (\<lambda>e.
       let e' = e\<lparr>err_text := [], err_line := -1, err_column := -1, err_position := 0\<rparr>
       in case source of Some s \<Rightarrow> jsonp_error_set_source e' s | None \<Rightarrow> e'\<lparr>err_source := []\<rparr>) error"

definition jsonp_error_vset ::
    "json_error option \<Rightarrow> int \<Rightarrow> int \<Rightarrow> int \<Rightarrow> json_error_code \<Rightarrow> bytes \<Rightarrow> json_error option" where
  "jsonp_error_vset error line column position code msg =
     map_option (\<lambda>e.
       if err_text e \<noteq> [] then e
       else e\<lparr>err_line := line, err_column := column, err_position := position,
              err_text := take (JSON_ERROR_TEXT_LENGTH - 2) (cstr msg), err_code := code\<rparr>) error"

text \<open>\<open>source\<close> always fits its 80-byte array, terminator included; so does \<open>text\<close>.\<close>

lemma jsonp_error_set_source_length:
  "length (err_source (jsonp_error_set_source e s)) < JSON_ERROR_SOURCE_LENGTH"
  by (auto simp: jsonp_error_set_source_def Let_def JSON_ERROR_SOURCE_LENGTH_def)

lemma jsonp_error_vset_first_wins:
  "err_text e \<noteq> [] \<Longrightarrow> jsonp_error_vset (Some e) l c p code msg = Some e"
  by (simp add: jsonp_error_vset_def)

end
