(* ===== verification/Strconv.thy ===== *)
theory Strconv
  imports JsonData
begin

text \<open>
  Locale-independent conversions between text and floating point,
  \<^verbatim>\<open>src/jansson/src/strconv.c\<close>, over the C library parameter \<open>libc\<close>. Buffers are
  C strings: the byte list holds what stands before the terminator.
\<close>

text \<open>\<open>pos = strchr(buffer, a); if (pos) *pos = b\<close>.\<close>

fun replace_first :: "byte \<Rightarrow> byte \<Rightarrow> bytes \<Rightarrow> bytes" where
  "replace_first a b [] = []"
| "replace_first a b (x # xs) = (if x = a then b # xs else x # replace_first a b xs)"

definition to_locale :: "('r, 'z) libc_scheme \<Rightarrow> bytes \<Rightarrow> bytes" where
  "to_locale libc buffer =
     (let point = c_decimal_point libc in
      if point = 46 then buffer else replace_first 46 point buffer)"

definition from_locale :: "('r, 'z) libc_scheme \<Rightarrow> bytes \<Rightarrow> bytes" where
  "from_locale libc buffer =
     (let point = c_decimal_point libc in
      if point = 46 then buffer else replace_first point 46 buffer)"

text \<open>Result: the value unless the conversion overflowed, and the buffer, which
  \<open>to_locale\<close> has changed in place.\<close>

definition jsonp_strtod :: "('r, 'z) libc_scheme \<Rightarrow> bytes \<Rightarrow> 'r option \<times> bytes" where
  "jsonp_strtod libc buffer =
     (let b = to_locale libc buffer
      in (if c_erange libc b then None else Some (c_strtod libc b), b))"

text \<open>The last step of \<open>jsonp_dtostr\<close>: after an \<open>'e'\<close>, drop a \<open>'+'\<close> and leading zeros
  of the exponent (\<open>start\<close> is the text after the \<open>'e'\<close>).\<close>

definition trim_exponent :: "bytes \<Rightarrow> bytes" where
  "trim_exponent start =
     (let rest = dropWhile (\<lambda>b. b = 48) (drop 1 start)
      in if start \<noteq> [] \<and> hd start = 45 then 45 # rest else rest)"

definition jsonp_dtostr :: "('r, 'z) libc_scheme \<Rightarrow> nat \<Rightarrow> 'r \<Rightarrow> nat \<Rightarrow> bytes option" where
  "jsonp_dtostr libc sz value precision =
     (let precision = (if precision = 0 then 17 else precision);
          text = c_snprintf_g libc precision value
      in if length text \<ge> sz then None
         else
           let buffer = from_locale libc text in
           if 46 \<notin> set buffer \<and> 101 \<notin> set buffer \<and> length buffer + 3 \<ge> sz then None
           else
             let buffer1 = (if 46 \<notin> set buffer \<and> 101 \<notin> set buffer then buffer @ [46, 48] else buffer)
             in Some (if 101 \<in> set buffer1
                      then takeWhile (\<lambda>b. b \<noteq> 101) buffer1 @
                           101 # trim_exponent (drop 1 (dropWhile (\<lambda>b. b \<noteq> 101) buffer1))
                      else buffer1))"

lemma length_replace_first [simp]: "length (replace_first a b xs) = length xs"
  by (induction xs) auto

end
