(* ===== verification/Lexer.thy ===== *)
theory Lexer
  imports Strconv
begin

text \<open>
  The input stream and the lexical analyser of \<^verbatim>\<open>src/jansson/src/load.c\<close>. The
  stream's \<open>get\<close> function is represented by the bytes it has still to deliver
  (\<open>st_data\<close>; the \<open>get\<close> functions themselves are in theory Loader); everything
  else of \<open>stream_t\<close> and \<open>lex_t\<close> is a field of the same meaning. \<open>saved_text\<close> is the
  contents of the string buffer. The caller's \<open>json_error_t\<close> travels with the lexer in
  the field \<open>lx_error\<close>. Characters returned by the stream are C \<open>int\<close>s made from signed
  \<open>char\<close>s, with the two negative sentinels of the source.
\<close>

subsection \<open>State\<close>

definition STREAM_STATE_EOF :: int where "STREAM_STATE_EOF = -1"
definition STREAM_STATE_ERROR :: int where "STREAM_STATE_ERROR = -2"

lemmas stream_states [simp] = STREAM_STATE_EOF_def STREAM_STATE_ERROR_def

text \<open>The field \<open>state\<close> takes the values \<open>STREAM_STATE_OK\<close> (0), \<open>STREAM_STATE_EOF\<close> and
  \<open>STREAM_STATE_ERROR\<close> only; the latter two are also what \<open>stream_get\<close> returns then.\<close>

datatype stream_state = StateOk | StateEof | StateError

fun state_int :: "stream_state \<Rightarrow> int" where
  "state_int StateOk = 0"
| "state_int StateEof = STREAM_STATE_EOF"
| "state_int StateError = STREAM_STATE_ERROR"

record stream =
  st_data :: bytes
  st_buffer :: bytes
  st_buffer_pos :: nat
  st_state :: stream_state
  st_line :: int
  st_column :: int
  st_last_column :: int
  st_position :: int

datatype token =
    TOKEN_INVALID
  | TOKEN_EOF
  | TOKEN_CHAR byte
  | TOKEN_STRING
  | TOKEN_INTEGER
  | TOKEN_REAL
  | TOKEN_TRUE
  | TOKEN_FALSE
  | TOKEN_NULL

text \<open>The union \<open>lex->value\<close>: the string pointer is \<open>None\<close> when it is NULL.\<close>

datatype 'r lexval = VString "bytes option" | VInteger int | VReal 'r

record 'r lex =
  lx_stream :: stream
  lx_saved_text :: bytes
  lx_flags :: size_t
  lx_depth :: nat
  lx_token :: token
  lx_value :: "'r lexval"
  lx_error :: "json_error option"

subsection \<open>Character classes\<close>

definition l_isupper :: "int \<Rightarrow> bool" where "l_isupper c \<longleftrightarrow> 65 \<le> c \<and> c \<le> 90"
definition l_islower :: "int \<Rightarrow> bool" where "l_islower c \<longleftrightarrow> 97 \<le> c \<and> c \<le> 122"
definition l_isalpha :: "int \<Rightarrow> bool" where "l_isalpha c \<longleftrightarrow> l_isupper c \<or> l_islower c"
definition l_isdigit :: "int \<Rightarrow> bool" where "l_isdigit c \<longleftrightarrow> 48 \<le> c \<and> c \<le> 57"
definition l_isxdigit :: "int \<Rightarrow> bool" where
  "l_isxdigit c \<longleftrightarrow> l_isdigit c \<or> 65 \<le> c \<and> c \<le> 70 \<or> 97 \<le> c \<and> c \<le> 102"

lemmas char_classes = l_isupper_def l_islower_def l_isalpha_def l_isdigit_def l_isxdigit_def

subsection \<open>Error reporting\<close>

definition error_set :: "'r lex \<Rightarrow> json_error_code \<Rightarrow> bytes \<Rightarrow> 'r lex" where
  "error_set lx code msg =
     (let clip = take (JSON_ERROR_TEXT_LENGTH - 1);
          msg_text = clip (cstr msg);
          saved = cstr (lx_saved_text lx);
          s = lx_stream lx;
          (code', result) =
            (if saved \<noteq> [] then
               (code, if length (lx_saved_text lx) \<le> 20
                      then clip (msg_text @ asc '' near '' @ [39] @ saved @ [39])
                      else msg_text)
             else
               (if code = json_error_invalid_syntax then json_error_premature_end_of_input else code,
                if st_state s = StateError then msg_text
                else clip (msg_text @ asc '' near end of file'')))
      in lx\<lparr>lx_error := jsonp_error_vset (lx_error lx) (st_line s) (st_column s)
               (st_position s) code' result\<rparr>)"

subsection \<open>Stream\<close>

definition stream_init :: "bytes \<Rightarrow> stream" where
  "stream_init data = \<lparr>st_data = data, st_buffer = [0, 0, 0, 0, 0], st_buffer_pos = 0,
     st_state = StateOk, st_line = 1, st_column = 0, st_last_column = 0, st_position = 0\<rparr>"

text \<open>One call of \<open>stream->get\<close>.\<close>

fun get_byte :: "bytes \<Rightarrow> int \<times> bytes" where
  "get_byte [] = (-1, [])"
| "get_byte (b # bs) = (uint b, bs)"

text \<open>\<open>for (i = 1; i < count; i++) stream->buffer[i] = stream->get(stream->data)\<close>: an EOF
  is stored as the byte it is truncated to.\<close>

function fill_buffer :: "nat \<Rightarrow> nat \<Rightarrow> bytes \<Rightarrow> bytes \<Rightarrow> bytes \<times> bytes" where
  "fill_buffer i count buffer data =
     (if i < count then
        (let (c, data') = get_byte data in fill_buffer (Suc i) count (buffer[i := to_byte c]) data')
      else (buffer, data))"
  by pat_completeness auto
termination
  by (relation "measure (\<lambda>(i, count, buffer, data). count - i)") auto

declare fill_buffer.simps [simp del]

definition buffer_at :: "stream \<Rightarrow> byte" where
  "buffer_at s = (if st_buffer_pos s < length (st_buffer s) then st_buffer s ! st_buffer_pos s else 0)"

datatype refill = RefillOk stream | RefillEof stream | RefillBad int stream

text \<open>The refill branch of \<open>stream_get\<close>, entered when the cached sequence is used up.\<close>

definition stream_refill :: "stream \<Rightarrow> refill" where
  "stream_refill s =
     (let (c, data) = get_byte (st_data s) in
      if c = -1 then RefillEof (s\<lparr>st_data := data, st_state := StateEof\<rparr>)
      else
        let s1 = s\<lparr>st_data := data, st_buffer := (st_buffer s)[0 := to_byte c], st_buffer_pos := 0\<rparr> in
        if 0x80 \<le> c \<and> c \<le> 0xFF then
          let count = utf8_check_first (to_byte c) in
          if count = 0 then RefillBad c (s1\<lparr>st_state := StateError\<rparr>)
          else
            let (buffer, data') = fill_buffer 1 count (st_buffer s1) data;
                s2 = s1\<lparr>st_data := data', st_buffer := buffer\<rparr> in
            if utf8_check_full buffer count = None
            then RefillBad c (s2\<lparr>st_state := StateError\<rparr>)
            else RefillOk (s2\<lparr>st_buffer := buffer[count := 0]\<rparr>)
        else RefillOk (s1\<lparr>st_buffer := (st_buffer s1)[1 := 0]\<rparr>))"

text \<open>Delivering the next cached byte, with the line and column bookkeeping.\<close>

definition stream_next :: "stream \<Rightarrow> int \<times> stream" where
  "stream_next s =
     (let b = buffer_at s;
          s1 = s\<lparr>st_buffer_pos := st_buffer_pos s + 1, st_position := st_position s + 1\<rparr>
      in (schar b,
          if b = 10 then s1\<lparr>st_line := st_line s + 1, st_last_column := st_column s, st_column := 0\<rparr>
          else if utf8_check_first b \<noteq> 0 then s1\<lparr>st_column := st_column s + 1\<rparr>
          else s1))"

definition stream_get :: "'r lex \<Rightarrow> int \<times> 'r lex" where
  "stream_get lx =
     (let s = lx_stream lx in
      if st_state s \<noteq> StateOk then (state_int (st_state s), lx)
      else if buffer_at s = 0 then
        (case stream_refill s of
           RefillEof s' \<Rightarrow> (STREAM_STATE_EOF, lx\<lparr>lx_stream := s'\<rparr>)
         | RefillBad c s' \<Rightarrow>
             (STREAM_STATE_ERROR,
              error_set (lx\<lparr>lx_stream := s'\<rparr>) json_error_invalid_utf8
                (asc ''unable to decode byte 0x'' @ hex_lower (nat c)))
         | RefillOk s' \<Rightarrow> (let (c, s'') = stream_next s' in (c, lx\<lparr>lx_stream := s''\<rparr>)))
      else (let (c, s') = stream_next s in (c, lx\<lparr>lx_stream := s'\<rparr>)))"

definition stream_unget :: "stream \<Rightarrow> int \<Rightarrow> stream" where
  "stream_unget s c =
     (if c = STREAM_STATE_EOF \<or> c = STREAM_STATE_ERROR then s
      else
        let s1 = s\<lparr>st_position := st_position s - 1\<rparr>;
            s2 = (if c = 10 then s1\<lparr>st_line := st_line s - 1, st_column := st_last_column s\<rparr>
                  else if utf8_check_first (to_byte c) \<noteq> 0 then s1\<lparr>st_column := st_column s - 1\<rparr>
                  else s1)
        in s2\<lparr>st_buffer_pos := st_buffer_pos s - 1\<rparr>)"

subsection \<open>Lexer primitives\<close>

definition lex_get :: "'r lex \<Rightarrow> int \<times> 'r lex" where
  "lex_get lx = stream_get lx"

definition lex_save :: "'r lex \<Rightarrow> int \<Rightarrow> 'r lex" where
  "lex_save lx c = lx\<lparr>lx_saved_text := lx_saved_text lx @ [to_byte c]\<rparr>"

definition lex_get_save :: "'r lex \<Rightarrow> int \<times> 'r lex" where
  "lex_get_save lx =
     (let (c, lx') = stream_get lx in
      (c, if c \<noteq> STREAM_STATE_EOF \<and> c \<noteq> STREAM_STATE_ERROR then lex_save lx' c else lx'))"

definition lex_unget :: "'r lex \<Rightarrow> int \<Rightarrow> 'r lex" where
  "lex_unget lx c = lx\<lparr>lx_stream := stream_unget (lx_stream lx) c\<rparr>"

definition lex_unget_unsave :: "'r lex \<Rightarrow> int \<Rightarrow> 'r lex" where
  "lex_unget_unsave lx c =
     (if c \<noteq> STREAM_STATE_EOF \<and> c \<noteq> STREAM_STATE_ERROR
      then lx\<lparr>lx_stream := stream_unget (lx_stream lx) c,
               lx_saved_text := butlast (lx_saved_text lx)\<rparr>
      else lx)"

definition lex_free_string :: "'r lex \<Rightarrow> 'r lex" where
  "lex_free_string lx = lx\<lparr>lx_value := VString None\<rparr>"

subsection \<open>Consumption: every delivered character shrinks the stream\<close>

definition stream_size :: "stream \<Rightarrow> nat" where
  "stream_size s = length (st_data s) * Suc (length (st_buffer s)) + (length (st_buffer s) - st_buffer_pos s)"

abbreviation lex_size :: "'r lex \<Rightarrow> nat" where
  "lex_size lx \<equiv> stream_size (lx_stream lx)"

lemma get_byte_length: "length (snd (get_byte d)) \<le> length d"
  by (cases d) auto

lemma fill_buffer_sizes:
  "fill_buffer i count b d = (b', d') \<Longrightarrow> length b' = length b \<and> length d' \<le> length d"
proof (induction i count b d arbitrary: b' d' rule: fill_buffer.induct)
  case (1 i count b d)
  show ?case
  proof (cases "i < count")
    case True
    with "1.prems" have "fill_buffer (Suc i) count (b[i := to_byte (fst (get_byte d))])
        (snd (get_byte d)) = (b', d')"
      by (simp add: fill_buffer.simps [of i count b d] case_prod_beta Let_def)
    with "1.IH" [OF True refl prod.collapse] get_byte_length [of d] show ?thesis
      by fastforce
  next
    case False
    with "1.prems" show ?thesis by (simp add: fill_buffer.simps [of i count b d])
  qed
qed

lemma stream_refill_Ok:
  "stream_refill s = RefillOk s' \<Longrightarrow> length (st_buffer s') = length (st_buffer s) \<and>
     length (st_data s') < length (st_data s) \<and> st_buffer_pos s' = 0 \<and> st_state s' = st_state s"
  by (cases "st_data s")
    (auto simp: stream_refill_def Let_def split: prod.splits if_splits dest: fill_buffer_sizes)

lemma stream_next_size:
  "buffer_at s \<noteq> 0 \<Longrightarrow> stream_next s = (c, s') \<Longrightarrow> stream_size s' < stream_size s"
  by (auto simp: stream_next_def stream_size_def buffer_at_def Let_def split: if_splits)

lemma stream_next_sizes: "stream_next s = (c, s') \<Longrightarrow> st_data s' = st_data s \<and>
    st_buffer s' = st_buffer s \<and> st_buffer_pos s' = Suc (st_buffer_pos s) \<and> st_state s' = st_state s"
  by (auto simp: stream_next_def Let_def split: if_splits)

lemma refill_size:
  assumes "stream_refill s = RefillOk s'" "stream_next s' = (c, s'')"
  shows "stream_size s'' < stream_size s"
proof -
  from stream_refill_Ok [OF assms(1)] stream_next_sizes [OF assms(2)]
  have *: "length (st_buffer s'') = length (st_buffer s)" "length (st_data s'') < length (st_data s)"
      "st_buffer_pos s'' = 1"
    by auto
  then have "Suc (length (st_data s'')) * Suc (length (st_buffer s)) \<le>
      length (st_data s) * Suc (length (st_buffer s))"
    by (intro mult_le_mono1) simp
  with * show ?thesis by (simp add: stream_size_def)
qed

lemma error_set_stream [simp]: "lx_stream (error_set lx code msg) = lx_stream lx"
  by (simp add: error_set_def Let_def)

lemma stream_get_size:
  "stream_get lx = (c, lx') \<Longrightarrow> c \<noteq> -1 \<Longrightarrow> c \<noteq> -2 \<Longrightarrow> lex_size lx' < lex_size lx"
  by (cases "st_state (lx_stream lx)")
    (auto simp: stream_get_def Let_def split: if_splits refill.splits prod.splits
      dest: stream_next_size refill_size)

lemma lex_get_size: "lex_get lx = (c, lx') \<Longrightarrow> 0 \<le> c \<Longrightarrow> lex_size lx' < lex_size lx"
  by (auto simp: lex_get_def dest: stream_get_size)

lemma lex_save_stream [simp]: "lx_stream (lex_save lx c) = lx_stream lx"
  by (simp add: lex_save_def)

lemma lex_get_save_size: "lex_get_save lx = (c, lx') \<Longrightarrow> 0 \<le> c \<Longrightarrow> lex_size lx' < lex_size lx"
  by (auto simp: lex_get_save_def split: prod.splits dest: stream_get_size)

subsection \<open>The scanning loops\<close>

text \<open>\<open>do c = lex_get(lx, error); while (c == ' ' || c == '\t' || c == '\n' || c == '\r')\<close>.\<close>

definition is_ws :: "int \<Rightarrow> bool" where
  "is_ws c \<longleftrightarrow> c = 32 \<or> c = 9 \<or> c = 10 \<or> c = 13"

function lex_skip_ws :: "'r lex \<Rightarrow> int \<times> 'r lex" where
  "lex_skip_ws lx = (let (c, lx') = lex_get lx in if is_ws c then lex_skip_ws lx' else (c, lx'))"
  by pat_completeness auto
termination
  by (relation "measure lex_size") (auto simp: is_ws_def dest!: lex_get_size [OF sym])

text \<open>\<open>do c = lex_get_save(lx, error); while (l_isdigit(c))\<close>, and the same with
  \<open>l_isalpha\<close>.\<close>

function lex_digits :: "'r lex \<Rightarrow> int \<times> 'r lex" where
  "lex_digits lx =
     (let (c, lx') = lex_get_save lx in if l_isdigit c then lex_digits lx' else (c, lx'))"
  by pat_completeness auto
termination
  by (relation "measure lex_size") (auto simp: char_classes dest!: lex_get_save_size [OF sym])

function lex_alphas :: "'r lex \<Rightarrow> int \<times> 'r lex" where
  "lex_alphas lx =
     (let (c, lx') = lex_get_save lx in if l_isalpha c then lex_alphas lx' else (c, lx'))"
  by pat_completeness auto
termination
  by (relation "measure lex_size") (auto simp: char_classes dest!: lex_get_save_size [OF sym])

declare lex_skip_ws.simps [simp del] lex_digits.simps [simp del] lex_alphas.simps [simp del]

text \<open>\<open>lex_save_cached\<close> moves the rest of the buffered sequence into \<open>saved_text\<close>.\<close>

function lex_save_cached :: "'r lex \<Rightarrow> 'r lex" where
  "lex_save_cached lx =
     (let s = lx_stream lx in
      if buffer_at s \<noteq> 0 then
        lex_save_cached ((lex_save lx (schar (buffer_at s)))
          \<lparr>lx_stream := s\<lparr>st_buffer_pos := st_buffer_pos s + 1, st_position := st_position s + 1\<rparr>\<rparr>)
      else lx)"
  by pat_completeness auto
termination
  by (relation "measure lex_size") (auto simp: buffer_at_def stream_size_def split: if_splits)

declare lex_save_cached.simps [simp del]

lemma refill_Bad_size: "stream_refill s = RefillBad c s' \<Longrightarrow> stream_size s' \<le> stream_size s"
proof -
  assume r: "stream_refill s = RefillBad c s'"
  then have *: "length (st_buffer s') = length (st_buffer s)" "length (st_data s') < length (st_data s)"
    by (cases "st_data s"; auto simp: stream_refill_def Let_def split: prod.splits if_splits
        dest: fill_buffer_sizes)+
  then have "Suc (length (st_data s')) * Suc (length (st_buffer s)) \<le>
      length (st_data s) * Suc (length (st_buffer s))"
    by (intro mult_le_mono1) simp
  with * show ?thesis by (simp add: stream_size_def)
qed

lemma refill_Eof_size: "stream_refill s = RefillEof s' \<Longrightarrow> stream_size s' = stream_size s"
  by (cases "st_data s") (auto simp: stream_refill_def stream_size_def Let_def split: prod.splits if_splits)

lemma stream_get_size_le: "stream_get lx = (c, lx') \<Longrightarrow> lex_size lx' \<le> lex_size lx"
  by (cases "st_state (lx_stream lx)")
    (auto simp: stream_get_def Let_def split: if_splits refill.splits prod.splits
      dest: stream_next_size refill_size refill_Bad_size refill_Eof_size)

text \<open>The measure of the string scanner: input left, plus one while a character is in hand.\<close>

definition scan_size :: "'r lex \<Rightarrow> int \<Rightarrow> nat" where
  "scan_size lx c = lex_size lx + (if c = -1 \<or> c = -2 then 0 else 1)"

lemma lex_get_save_scan_size:
  "lex_get_save lx = (c', lx') \<Longrightarrow> c \<noteq> -1 \<Longrightarrow> c \<noteq> -2 \<Longrightarrow> scan_size lx' c' < scan_size lx c"
  by (auto simp: lex_get_save_def scan_size_def split: prod.splits
      dest: stream_get_size stream_get_size_le)

subsection \<open>Strings\<close>

text \<open>The hexadecimal digits of a \<open>\u\<close> escape: \<open>n\<close> of them still to come, \<open>c\<close> in hand.\<close>

fun lex_hex_digits :: "nat \<Rightarrow> 'r lex \<Rightarrow> int \<Rightarrow> 'r lex + int \<times> 'r lex" where
  "lex_hex_digits 0 lx c = Inr (c, lx)"
| "lex_hex_digits (Suc n) lx c =
     (if \<not> l_isxdigit c then Inl (error_set lx json_error_invalid_syntax (asc ''invalid escape''))
      else let (c', lx') = lex_get_save lx in lex_hex_digits n lx' c')"

lemma lex_hex_digits_size:
  "lex_hex_digits n lx c = Inr (c', lx') \<Longrightarrow> scan_size lx' c' \<le> scan_size lx c"
proof (induction n arbitrary: lx c)
  case (Suc n)
  then show ?case
    by (fastforce simp: char_classes split: if_splits prod.splits dest: lex_get_save_scan_size [of lx _ _ c])
qed simp

text \<open>The first loop of \<open>lex_scan_string\<close>: \<open>Inl\<close> is \<open>goto out\<close>, \<open>Inr\<close> the closing quote.\<close>

function lex_string_scan :: "'r lex \<Rightarrow> int \<Rightarrow> 'r lex + 'r lex" where
  "lex_string_scan lx c =
     (if c = 34 then Inr lx
      else if c = STREAM_STATE_ERROR then Inl lx
      else if c = STREAM_STATE_EOF then
        Inl (error_set lx json_error_premature_end_of_input (asc ''premature end of input''))
      else if 0 \<le> c \<and> c \<le> 0x1F then
        let lx1 = lex_unget_unsave lx c in
        if c = 10 then Inl (error_set lx1 json_error_invalid_syntax (asc ''unexpected newline''))
        else Inl (error_set lx1 json_error_invalid_syntax
                    (asc ''control character 0x'' @ hex_lower (nat c)))
      else if c = 92 then
        let (c1, lx1) = lex_get_save lx in
        if c1 = 117 then
          let (c2, lx2) = lex_get_save lx1 in
          (case lex_hex_digits 4 lx2 c2 of
             Inl l \<Rightarrow> Inl l
           | Inr (c3, lx3) \<Rightarrow> lex_string_scan lx3 c3)
        else if c1 = 34 \<or> c1 = 92 \<or> c1 = 47 \<or> c1 = 98 \<or> c1 = 102 \<or> c1 = 110 \<or> c1 = 114 \<or> c1 = 116
        then let (c2, lx2) = lex_get_save lx1 in lex_string_scan lx2 c2
        else Inl (error_set lx1 json_error_invalid_syntax (asc ''invalid escape''))
      else let (c1, lx1) = lex_get_save lx in lex_string_scan lx1 c1)"
  by pat_completeness auto
termination
proof (relation "measure (\<lambda>(lx, c). scan_size lx c)", goal_cases)
  case 1
  show ?case by simp
next
  case (2 lx c x c1 lx1 y c2 lx2 z c3 lx3)
  then have "scan_size lx1 c1 < scan_size lx c" "scan_size lx2 c2 < scan_size lx1 c1"
      "scan_size lx3 c3 \<le> scan_size lx2 c2"
    by (auto intro: lex_get_save_scan_size [OF sym] lex_hex_digits_size)
  then show ?case by simp
next
  case (3 lx c x c1 lx1 y c2 lx2)
  then have "scan_size lx1 c1 < scan_size lx c" "scan_size lx2 c2 < scan_size lx1 c1"
    by (auto intro: lex_get_save_scan_size [OF sym])
  then show ?case by simp
next
  case (4 lx c x c1 lx1)
  then show ?case by (auto intro: lex_get_save_scan_size [OF sym])
qed

declare lex_string_scan.simps [simp del]

text \<open>\<open>decode_unicode_escape\<close>: \<open>str\<close> points at the \<open>'u'\<close>.\<close>

definition byte_at :: "bytes \<Rightarrow> nat \<Rightarrow> byte" where
  "byte_at p i = (if i < length p then p ! i else 0)"

fun decode_hex :: "bytes \<Rightarrow> nat \<Rightarrow> int \<Rightarrow> int" where
  "decode_hex str 0 v = v"
| "decode_hex str (Suc n) v =
     (let c = schar (byte_at str (4 - n)); v1 = push_bit 4 v in
      if l_isdigit c then decode_hex str n (v1 + (c - 48))
      else if l_islower c then decode_hex str n (v1 + (c - 97 + 10))
      else if l_isupper c then decode_hex str n (v1 + (c - 65 + 10))
      else -1)"

definition decode_unicode_escape :: "bytes \<Rightarrow> int" where
  "decode_unicode_escape str = decode_hex str 4 0"

definition unicode_escape_error :: "'r lex \<Rightarrow> bytes \<Rightarrow> 'r lex" where
  "unicode_escape_error lx p =
     error_set lx json_error_invalid_syntax
       (asc ''invalid Unicode escape '' @ [39] @ take 6 (cstr p) @ [39])"

definition unicode_error :: "'r lex \<Rightarrow> int list \<Rightarrow> 'r lex" where
  "unicode_error lx vs =
     error_set lx json_error_invalid_syntax
       (asc ''invalid Unicode '' @ [39] @ concat (map (\<lambda>v. [92, 117] @ hex4 (nat v)) vs) @ [39])"

text \<open>One \<open>\u\<close> escape of the second loop. \<open>p\<close> starts at the backslash; the result is the
  decoded value and the text after the escape (after both halves of a surrogate pair).\<close>

definition lex_unicode_escape :: "'r lex \<Rightarrow> bytes \<Rightarrow> 'r lex + int \<times> bytes" where
  "lex_unicode_escape lx p =
     (let value = decode_unicode_escape (drop 1 p) in
      if value < 0 then Inl (unicode_escape_error lx p)
      else
        let p1 = drop 6 p in
        if 0xD800 \<le> value \<and> value \<le> 0xDBFF then
          if byte_at p1 0 = 92 \<and> byte_at p1 1 = 117 then
            let value2 = decode_unicode_escape (drop 1 p1) in
            if value2 < 0 then Inl (unicode_escape_error lx p1)
            else if 0xDC00 \<le> value2 \<and> value2 \<le> 0xDFFF
            then Inr (push_bit 10 (value - 0xD800) + (value2 - 0xDC00) + 0x10000, drop 6 p1)
            else Inl (unicode_error lx [value, value2])
          else Inl (unicode_error lx [value])
        else if 0xDC00 \<le> value \<and> value \<le> 0xDFFF then Inl (unicode_error lx [value])
        else Inr (value, p1))"

text \<open>The shortcut escapes; \<open>None\<close> is the \<open>assert(0)\<close> of the default branch.\<close>

definition shortcut_escape :: "byte \<Rightarrow> byte option" where
  "shortcut_escape e =
     (if e = 34 \<or> e = 92 \<or> e = 47 then Some e
      else if e = 98 then Some 8 else if e = 102 then Some 12 else if e = 110 then Some 10
      else if e = 114 then Some 13 else if e = 116 then Some 9 else None)"

lemma lex_unicode_escape_length:
  "lex_unicode_escape lx p = Inr (v, q) \<Longrightarrow> p \<noteq> [] \<Longrightarrow> length q < length p"
  by (cases p) (auto simp: lex_unicode_escape_def Let_def split: if_splits)

text \<open>The second loop of \<open>lex_scan_string\<close>: \<open>p\<close> walks over the saved text, \<open>t\<close> is what
  has been written. Running off the text (\<open>[]\<close>) is unreachable: a closing quote was seen.\<close>

function lex_unescape :: "'r lex \<Rightarrow> bytes \<Rightarrow> bytes \<Rightarrow> 'r lex + bytes" where
  "lex_unescape lx [] t = Inl lx"
| "lex_unescape lx (b # p) t =
     (if b = 34 then Inr t
      else if b = 92 then
        if byte_at p 0 = 117 then
          (case lex_unicode_escape lx (b # p) of
             Inl l \<Rightarrow> Inl l
           | Inr (value, q) \<Rightarrow>
               (case utf8_encode value of
                  None \<Rightarrow> Inl lx
                | Some bs \<Rightarrow> lex_unescape lx q (t @ bs)))
        else (case shortcut_escape (byte_at p 0) of
                None \<Rightarrow> Inl lx
              | Some x \<Rightarrow> lex_unescape lx (drop 1 p) (t @ [x]))
      else lex_unescape lx p (t @ [b]))"
  by pat_completeness auto
termination
  by (relation "measure (\<lambda>(lx, p, t). length p)") (auto dest: lex_unicode_escape_length)

definition lex_scan_string :: "'r lex \<Rightarrow> 'r lex" where
  "lex_scan_string lx =
     (let (c, lx1) = lex_get_save (lx\<lparr>lx_value := VString None, lx_token := TOKEN_INVALID\<rparr>) in
      case lex_string_scan lx1 c of
        Inl l \<Rightarrow> lex_free_string l
      | Inr l \<Rightarrow>
          (case lex_unescape l (drop 1 (lx_saved_text l)) [] of
             Inl l' \<Rightarrow> lex_free_string l'
           | Inr t \<Rightarrow> l\<lparr>lx_value := VString (Some t), lx_token := TOKEN_STRING\<rparr>))"

subsection \<open>Numbers\<close>

text \<open>\<open>strtoll(saved_text, &end, 10)\<close> on an optional minus sign and digits: the value, clamped
  to the 64-bit range when \<open>errno\<close> becomes \<open>ERANGE\<close>.\<close>

fun digits_value :: "bytes \<Rightarrow> int \<Rightarrow> int" where
  "digits_value [] v = v"
| "digits_value (b # bs) v =
     (if 48 \<le> uint b \<and> uint b \<le> 57 then digits_value bs (10 * v + (uint b - 48)) else v)"

definition json_strtoint :: "bytes \<Rightarrow> int \<times> bool" where
  "json_strtoint text =
     (let v = (if text \<noteq> [] \<and> hd text = 45 then - digits_value (tl text) 0 else digits_value text 0)
      in if v < - (2 ^ 63) then (- (2 ^ 63), True)
         else if v > 2 ^ 63 - 1 then (2 ^ 63 - 1, True)
         else (v, False))"

text \<open>The part of \<open>lex_scan_number\<close> after the integer digits, for a real.\<close>

definition lex_scan_fraction :: "'r lex \<Rightarrow> int \<Rightarrow> 'r lex + int \<times> 'r lex" where
  "lex_scan_fraction lx c =
     (if c = 46 then
        let (c1, lx1) = lex_get lx in
        if \<not> l_isdigit c1 then Inl (lex_unget lx1 c1)
        else Inr (lex_digits (lex_save lx1 c1))
      else Inr (c, lx))"

definition lex_scan_exponent :: "'r lex \<Rightarrow> int \<Rightarrow> 'r lex + int \<times> 'r lex" where
  "lex_scan_exponent lx c =
     (if c = 69 \<or> c = 101 then
        let (c1, lx1) = lex_get_save lx;
            (c2, lx2) = (if c1 = 43 \<or> c1 = 45 then lex_get_save lx1 else (c1, lx1)) in
        if \<not> l_isdigit c2 then Inl (lex_unget_unsave lx2 c2)
        else Inr (lex_digits lx2)
      else Inr (c, lx))"

text \<open>The integer part: \<open>Inl\<close> is \<open>goto out\<close>.\<close>

definition lex_scan_intpart :: "'r lex \<Rightarrow> int \<Rightarrow> 'r lex + int \<times> 'r lex" where
  "lex_scan_intpart lx c0 =
     (let (c, lx1) = (if c0 = 45 then lex_get_save lx else (c0, lx)) in
      if c = 48 then
        let (c1, lx2) = lex_get_save lx1 in
        if l_isdigit c1 then Inl (lex_unget_unsave lx2 c1) else Inr (c1, lx2)
      else if l_isdigit c then Inr (lex_digits lx1)
      else Inl (lex_unget_unsave lx1 c))"

definition lex_integer :: "'r lex \<Rightarrow> int \<times> 'r lex" where
  "lex_integer lx =
     (let (intval, erange) = json_strtoint (lx_saved_text lx) in
      if erange then
        (-1, error_set lx json_error_numeric_overflow
               (if intval < 0 then asc ''too big negative integer'' else asc ''too big integer''))
      else (0, lx\<lparr>lx_token := TOKEN_INTEGER, lx_value := VInteger intval\<rparr>))"

definition lex_real :: "('r, 'z) libc_scheme \<Rightarrow> 'r lex \<Rightarrow> int \<times> 'r lex" where
  "lex_real libc lx =
     (let (v, text) = jsonp_strtod libc (lx_saved_text lx); lx1 = lx\<lparr>lx_saved_text := text\<rparr> in
      case v of
        None \<Rightarrow> (-1, error_set lx1 json_error_numeric_overflow (asc ''real number overflow''))
      | Some d \<Rightarrow> (0, lx1\<lparr>lx_token := TOKEN_REAL, lx_value := VReal d\<rparr>))"

definition lex_scan_number :: "('r, 'z) libc_scheme \<Rightarrow> 'r lex \<Rightarrow> int \<Rightarrow> int \<times> 'r lex" where
  "lex_scan_number libc lx c0 =
     (case lex_scan_intpart (lx\<lparr>lx_token := TOKEN_INVALID\<rparr>) c0 of
        Inl l \<Rightarrow> (-1, l)
      | Inr (c, lx1) \<Rightarrow>
          if \<not> flag (lx_flags lx) JSON_DECODE_INT_AS_REAL \<and> c \<noteq> 46 \<and> c \<noteq> 69 \<and> c \<noteq> 101
          then lex_integer (lex_unget_unsave lx1 c)
          else
            (case lex_scan_fraction lx1 c of
               Inl l \<Rightarrow> (-1, l)
             | Inr (c2, lx2) \<Rightarrow>
                 (case lex_scan_exponent lx2 c2 of
                    Inl l \<Rightarrow> (-1, l)
                  | Inr (c3, lx3) \<Rightarrow> lex_real libc (lex_unget_unsave lx3 c3))))"

subsection \<open>Tokens\<close>

definition lex_identifier :: "'r lex \<Rightarrow> 'r lex" where
  "lex_identifier lx =
     (let (c, lx1) = lex_alphas lx; lx2 = lex_unget_unsave lx1 c; saved = cstr (lx_saved_text lx2) in
      lx2\<lparr>lx_token := (if saved = asc ''true'' then TOKEN_TRUE
                       else if saved = asc ''false'' then TOKEN_FALSE
                       else if saved = asc ''null'' then TOKEN_NULL
                       else TOKEN_INVALID)\<rparr>)"

definition lex_scan :: "('r, 'z) libc_scheme \<Rightarrow> 'r lex \<Rightarrow> 'r lex" where
  "lex_scan libc lx0 =
     (let lx1 = lx0\<lparr>lx_saved_text := []\<rparr>;
          lx2 = (if lx_token lx1 = TOKEN_STRING then lex_free_string lx1 else lx1);
          (c, lx) = lex_skip_ws lx2 in
      if c = STREAM_STATE_EOF then lx\<lparr>lx_token := TOKEN_EOF\<rparr>
      else if c = STREAM_STATE_ERROR then lx\<lparr>lx_token := TOKEN_INVALID\<rparr>
      else
        let lx3 = lex_save lx c in
        if c = 123 \<or> c = 125 \<or> c = 91 \<or> c = 93 \<or> c = 58 \<or> c = 44
        then lx3\<lparr>lx_token := TOKEN_CHAR (to_byte c)\<rparr>
        else if c = 34 then lex_scan_string lx3
        else if l_isdigit c \<or> c = 45 then snd (lex_scan_number libc lx3 c)
        else if l_isalpha c then lex_identifier lx3
        else (lex_save_cached lx3)\<lparr>lx_token := TOKEN_INVALID\<rparr>)"

definition lex_steal_string :: "'r lex \<Rightarrow> bytes option \<times> 'r lex" where
  "lex_steal_string lx =
     (if lx_token lx = TOKEN_STRING
      then ((case lx_value lx of VString v \<Rightarrow> v | _ \<Rightarrow> None), lx\<lparr>lx_value := VString None\<rparr>)
      else (None, lx))"

definition lex_init :: "bytes \<Rightarrow> size_t \<Rightarrow> json_error option \<Rightarrow> 'r lex" where
  "lex_init data flags error =
     \<lparr>lx_stream = stream_init data, lx_saved_text = [], lx_flags = flags, lx_depth = 0,
      lx_token = TOKEN_INVALID, lx_value = VString None, lx_error = error\<rparr>"

end
