(* ===== verification/Loader.thy ===== *)
theory Loader
  imports Lexer
begin

text \<open>
  The parser and the entry points of \<^verbatim>\<open>src/jansson/src/load.c\<close>. The three mutually
  recursive parsing routines carry a fuel argument (\<open>None\<close>: fuel used up); theorem
  \<open>parse_json_returns\<close> shows that the fuel the entry points pass is enough for
  every input, so \<open>None\<close> never reaches a caller. A C \<open>NULL\<close> result is \<open>None\<close> in the
  first component. Objects grow by \<open>obj_set\<close>, the abstract form of
  \<open>json_object_setn_new_nocheck\<close>; memory allocation is taken to succeed at this level.
\<close>

definition JSON_PARSER_MAX_DEPTH :: nat where "JSON_PARSER_MAX_DEPTH = 2048"

type_synonym 'r parse_result = "('r json option \<times> 'r lex) option"

subsection \<open>The parser\<close>

fun parse_value :: "('r, 'z) libc_scheme \<Rightarrow> size_t \<Rightarrow> nat \<Rightarrow> 'r lex \<Rightarrow> 'r parse_result"
  and parse_array_loop :: "('r, 'z) libc_scheme \<Rightarrow> size_t \<Rightarrow> nat \<Rightarrow> 'r json list \<Rightarrow> 'r lex \<Rightarrow> 'r parse_result"
  and parse_object_loop ::
    "('r, 'z) libc_scheme \<Rightarrow> size_t \<Rightarrow> nat \<Rightarrow> (bytes \<times> 'r json) list \<Rightarrow> 'r lex \<Rightarrow> 'r parse_result"
where
  "parse_value libc flags 0 lx = None"
| "parse_value libc flags (Suc fuel) lx0 =
     (let lx = lx0\<lparr>lx_depth := lx_depth lx0 + 1\<rparr>;
          ret = (\<lambda>j l. Some (Some j, l\<lparr>lx_depth := lx_depth l - 1\<rparr>)) in
      if lx_depth lx > JSON_PARSER_MAX_DEPTH then
        Some (None, error_set lx json_error_stack_overflow (asc ''maximum parsing depth reached''))
      else
        (case lx_token lx of
           TOKEN_STRING \<Rightarrow>
             (case lx_value lx of
                VString (Some value) \<Rightarrow>
                  if \<not> flag flags JSON_ALLOW_NUL \<and> 0 \<in> set value then
                    Some (None, error_set lx json_error_null_character
                      ([92] @ asc ''u0000 is not allowed without JSON_ALLOW_NUL''))
                  else ret (JString value) (lx\<lparr>lx_value := VString None\<rparr>)
              | _ \<Rightarrow> Some (None, lx))
         | TOKEN_INTEGER \<Rightarrow>
             (case lx_value lx of VInteger i \<Rightarrow> ret (JInteger i) lx | _ \<Rightarrow> Some (None, lx))
         | TOKEN_REAL \<Rightarrow>
             (case lx_value lx of
                VReal d \<Rightarrow> if c_isnan libc d \<or> c_isinf libc d then Some (None, lx) else ret (JReal d) lx
              | _ \<Rightarrow> Some (None, lx))
         | TOKEN_TRUE \<Rightarrow> ret JTrue lx
         | TOKEN_FALSE \<Rightarrow> ret JFalse lx
         | TOKEN_NULL \<Rightarrow> ret JNull lx
         | TOKEN_INVALID \<Rightarrow>
             Some (None, error_set lx json_error_invalid_syntax (asc ''invalid token''))
         | TOKEN_EOF \<Rightarrow>
             Some (None, error_set lx json_error_invalid_syntax (asc ''unexpected token''))
         | TOKEN_CHAR b \<Rightarrow>
             if b = 123 then
               let lx1 = lex_scan libc lx in
               if lx_token lx1 = TOKEN_CHAR 125 then ret (JObject []) lx1
               else (case parse_object_loop libc flags fuel [] lx1 of
                       None \<Rightarrow> None
                     | Some (None, lx2) \<Rightarrow> Some (None, lx2)
                     | Some (Some j, lx2) \<Rightarrow> ret j lx2)
             else if b = 91 then
               let lx1 = lex_scan libc lx in
               if lx_token lx1 = TOKEN_CHAR 93 then ret (JArray []) lx1
               else (case parse_array_loop libc flags fuel [] lx1 of
                       None \<Rightarrow> None
                     | Some (None, lx2) \<Rightarrow> Some (None, lx2)
                     | Some (Some j, lx2) \<Rightarrow> ret j lx2)
             else Some (None, error_set lx json_error_invalid_syntax (asc ''unexpected token''))))"
| "parse_array_loop libc flags 0 acc lx = None"
| "parse_array_loop libc flags (Suc fuel) acc lx =
     (if lx_token lx = TOKEN_EOF then
        Some (None, error_set lx json_error_invalid_syntax ([39, 93, 39] @ asc '' expected''))
      else
        (case parse_value libc flags fuel lx of
           None \<Rightarrow> None
         | Some (None, lx1) \<Rightarrow> Some (None, lx1)
         | Some (Some elem, lx1) \<Rightarrow>
             let lx2 = lex_scan libc lx1 in
             if lx_token lx2 = TOKEN_CHAR 44
             then parse_array_loop libc flags fuel (acc @ [elem]) (lex_scan libc lx2)
             else if lx_token lx2 \<noteq> TOKEN_CHAR 93 then
               Some (None, error_set lx2 json_error_invalid_syntax ([39, 93, 39] @ asc '' expected''))
             else Some (Some (JArray (acc @ [elem])), lx2)))"
| "parse_object_loop libc flags 0 acc lx = None"
| "parse_object_loop libc flags (Suc fuel) acc lx =
     (if lx_token lx \<noteq> TOKEN_STRING then
        Some (None, error_set lx json_error_invalid_syntax
          (asc ''string or '' @ [39, 125, 39] @ asc '' expected''))
      else
        (case lex_steal_string lx of
           (None, lx1) \<Rightarrow> Some (None, lx1)
         | (Some key, lx1) \<Rightarrow>
             if 0 \<in> set key then
               Some (None, error_set lx1 json_error_null_byte_in_key
                 (asc ''NUL byte in object key not supported''))
             else if flag flags JSON_REJECT_DUPLICATES \<and> map_of acc key \<noteq> None then
               Some (None, error_set lx1 json_error_duplicate_key (asc ''duplicate object key''))
             else
               let lx2 = lex_scan libc lx1 in
               if lx_token lx2 \<noteq> TOKEN_CHAR 58 then
                 Some (None, error_set lx2 json_error_invalid_syntax ([39, 58, 39] @ asc '' expected''))
               else
                 (case parse_value libc flags fuel (lex_scan libc lx2) of
                    None \<Rightarrow> None
                  | Some (None, lx3) \<Rightarrow> Some (None, lx3)
                  | Some (Some value, lx3) \<Rightarrow>
                      let acc' = obj_set key value acc; lx4 = lex_scan libc lx3 in
                      if lx_token lx4 = TOKEN_CHAR 44
                      then parse_object_loop libc flags fuel acc' (lex_scan libc lx4)
                      else if lx_token lx4 \<noteq> TOKEN_CHAR 125 then
                        Some (None, error_set lx4 json_error_invalid_syntax
                          ([39, 125, 39] @ asc '' expected''))
                      else Some (Some (JObject acc'), lx4))))"

definition parse_json :: "('r, 'z) libc_scheme \<Rightarrow> size_t \<Rightarrow> nat \<Rightarrow> 'r lex \<Rightarrow> 'r parse_result" where
  "parse_json libc flags fuel lx0 =
     (let lx = lex_scan libc (lx0\<lparr>lx_depth := 0\<rparr>) in
      if \<not> flag flags JSON_DECODE_ANY \<and> lx_token lx \<noteq> TOKEN_CHAR 91 \<and> lx_token lx \<noteq> TOKEN_CHAR 123
      then Some (None, error_set lx json_error_invalid_syntax
             ([39, 91, 39] @ asc '' or '' @ [39, 123, 39] @ asc '' expected''))
      else
        (case parse_value libc flags fuel lx of
           None \<Rightarrow> None
         | Some (None, lx1) \<Rightarrow> Some (None, lx1)
         | Some (Some result, lx1) \<Rightarrow>
             let lx2 = (if flag flags JSON_DISABLE_EOF_CHECK then lx1 else lex_scan libc lx1);
                 ok = (\<lambda>l. Some (Some result, l\<lparr>lx_error :=
                        map_option (\<lambda>e. e\<lparr>err_position := st_position (lx_stream l)\<rparr>) (lx_error l)\<rparr>)) in
             if flag flags JSON_DISABLE_EOF_CHECK then ok lx1
             else if lx_token lx2 \<noteq> TOKEN_EOF then
               Some (None, error_set lx2 json_error_end_of_input_expected (asc ''end of file expected''))
             else ok lx2))"

subsection \<open>Byte sources\<close>

record string_data =
  sd_data :: bytes
  sd_pos :: nat

definition string_get :: "string_data \<Rightarrow> int \<times> string_data" where
  "string_get s =
     (let c = (if sd_pos s < length (sd_data s) then sd_data s ! sd_pos s else 0) in
      if c = 0 then (-1, s) else (uint c, s\<lparr>sd_pos := sd_pos s + 1\<rparr>))"

record buffer_data =
  bd_data :: bytes
  bd_len :: nat
  bd_pos :: nat

definition buffer_get :: "buffer_data \<Rightarrow> int \<times> buffer_data" where
  "buffer_get s =
     (if bd_pos s \<ge> bd_len s then (-1, s)
      else (uint (bd_data s ! bd_pos s), s\<lparr>bd_pos := bd_pos s + 1\<rparr>))"

text \<open>The bytes a source delivers before it reports EOF, at most \<open>n\<close>.\<close>

fun drain :: "('d \<Rightarrow> int \<times> 'd) \<Rightarrow> nat \<Rightarrow> 'd \<Rightarrow> bytes" where
  "drain get 0 d = []"
| "drain get (Suc n) d = (let (c, d') = get d in if c = -1 then [] else to_byte c # drain get n d')"

locale byte_source =
  fixes get :: "'d \<Rightarrow> int \<times> 'd" and remaining :: "'d \<Rightarrow> bytes" and inv :: "'d \<Rightarrow> bool"
  assumes get_eof: "inv d \<Longrightarrow> remaining d = [] \<Longrightarrow> fst (get d) = -1 \<and> remaining (snd (get d)) = []"
    and get_next: "inv d \<Longrightarrow> remaining d = b # bs \<Longrightarrow> fst (get d) = uint b \<and> remaining (snd (get d)) = bs"
    and get_inv: "inv d \<Longrightarrow> inv (snd (get d))"
begin

lemma drain_remaining: "inv d \<Longrightarrow> length (remaining d) \<le> n \<Longrightarrow> drain get n d = remaining d"
proof (induction n arbitrary: d)
  case 0
  then show ?case by simp
next
  case (Suc n)
  show ?case
  proof (cases "remaining d")
    case Nil
    with get_eof [of d] Suc.prems show ?thesis by (cases "get d") simp
  next
    case (Cons b bs)
    with get_next [of d b bs] get_inv [of d] Suc show ?thesis by (cases "get d") simp
  qed
qed

text \<open>The stream's view of the source, \<open>get_byte\<close>, is a faithful picture of it.\<close>

lemma get_byte_remaining:
  "inv d \<Longrightarrow> get_byte (remaining d) = (fst (get d), remaining (snd (get d)))"
  using get_eof [of d] get_next [of d] by (cases "remaining d") auto

end

definition string_remaining :: "string_data \<Rightarrow> bytes" where
  "string_remaining s = cstr (drop (sd_pos s) (sd_data s))"

definition buffer_remaining :: "buffer_data \<Rightarrow> bytes" where
  "buffer_remaining s = drop (bd_pos s) (take (bd_len s) (bd_data s))"

definition buffer_inv :: "buffer_data \<Rightarrow> bool" where
  "buffer_inv s \<longleftrightarrow> bd_len s \<le> length (bd_data s)"

lemma string_get_cases:
  "(case drop (sd_pos d) (sd_data d) of [] \<Rightarrow> string_get d = (-1, d)
    | b # bs \<Rightarrow> string_get d = (if b = 0 then (-1, d) else (uint b, d\<lparr>sd_pos := Suc (sd_pos d)\<rparr>)) \<and>
        drop (Suc (sd_pos d)) (sd_data d) = bs)"
  by (auto simp: string_get_def Let_def split: list.splits dest: drop_eq_ConsD)

interpretation str: byte_source string_get string_remaining "\<lambda>_. True"
proof
  fix d b bs
  show "string_remaining d = [] \<Longrightarrow>
      fst (string_get d) = -1 \<and> string_remaining (snd (string_get d)) = []"
    using string_get_cases [of d]
    by (auto simp: string_remaining_def cstr_def split: list.splits if_splits)
  show "string_remaining d = b # bs \<Longrightarrow>
      fst (string_get d) = uint b \<and> string_remaining (snd (string_get d)) = bs"
    using string_get_cases [of d]
    by (auto simp: string_remaining_def cstr_def split: list.splits if_splits)
qed simp

interpretation buf: byte_source buffer_get buffer_remaining buffer_inv
proof
  fix d b bs
  assume inv: "buffer_inv d"
  then show "buffer_inv (snd (buffer_get d))"
    by (auto simp: buffer_inv_def buffer_get_def)
  show "buffer_remaining d = [] \<Longrightarrow>
      fst (buffer_get d) = -1 \<and> buffer_remaining (snd (buffer_get d)) = []"
    using inv by (auto simp: buffer_remaining_def buffer_get_def buffer_inv_def)
  show "buffer_remaining d = b # bs \<Longrightarrow>
      fst (buffer_get d) = uint b \<and> buffer_remaining (snd (buffer_get d)) = bs"
    using inv by (auto simp: buffer_remaining_def buffer_get_def buffer_inv_def dest!: drop_eq_ConsD)
qed

subsection \<open>Entry points\<close>

text \<open>The fuel that suffices for \<open>n\<close> bytes of input.\<close>

definition load_fuel :: "nat \<Rightarrow> nat" where
  "load_fuel n = 12 * n + 20"

text \<open>Result of an entry point: the value (\<open>None\<close> for NULL) and the caller's error record.\<close>

type_synonym 'r load_result = "('r json option \<times> json_error option) option"

definition load_bytes :: "('r, 'z) libc_scheme \<Rightarrow> bytes \<Rightarrow> size_t \<Rightarrow> json_error option \<Rightarrow> 'r load_result" where
  "load_bytes libc data flags error =
     map_option (\<lambda>(res, lx). (res, lx_error lx))
       (parse_json libc flags (load_fuel (length data)) (lex_init data flags error))"

definition json_loads ::
    "('r, 'z) libc_scheme \<Rightarrow> bytes option \<Rightarrow> size_t \<Rightarrow> json_error option \<Rightarrow> 'r load_result" where
  "json_loads libc string flags error0 =
     (let error = jsonp_error_init error0 (Some (asc ''<string>'')) in
      case string of
        None \<Rightarrow> Some (None, jsonp_error_vset error (-1) (-1) 0 json_error_invalid_argument
                        (asc ''wrong arguments''))
      | Some s \<Rightarrow>
          load_bytes libc (drain string_get (length s) \<lparr>sd_data = s, sd_pos = 0\<rparr>) flags error)"

definition json_loadb ::
    "('r, 'z) libc_scheme \<Rightarrow> bytes option \<Rightarrow> nat \<Rightarrow> size_t \<Rightarrow> json_error option \<Rightarrow> 'r load_result" where
  "json_loadb libc buffer buflen flags error0 =
     (let error = jsonp_error_init error0 (Some (asc ''<buffer>'')) in
      case buffer of
        None \<Rightarrow> Some (None, jsonp_error_vset error (-1) (-1) 0 json_error_invalid_argument
                        (asc ''wrong arguments''))
      | Some b \<Rightarrow>
          load_bytes libc (drain buffer_get buflen \<lparr>bd_data = b, bd_len = buflen, bd_pos = 0\<rparr>)
            flags error)"

lemma drain_string: "drain string_get (length s) \<lparr>sd_data = s, sd_pos = 0\<rparr> = cstr s"
  using str.drain_remaining [of "\<lparr>sd_data = s, sd_pos = 0\<rparr>" "length s"]
  by (simp add: string_remaining_def cstr_def length_takeWhile_le)

lemma drain_buffer:
  "n \<le> length b \<Longrightarrow> drain buffer_get n \<lparr>bd_data = b, bd_len = n, bd_pos = 0\<rparr> = take n b"
  using buf.drain_remaining [of "\<lparr>bd_data = b, bd_len = n, bd_pos = 0\<rparr>" n]
  by (simp add: buffer_remaining_def buffer_inv_def)

end
