(* ===== verification/ParseFuel.thy ===== *)
theory ParseFuel
  imports Loader
begin

text \<open>
  The fuel of the parser: a result found with some fuel is found with more.
\<close>

subsection \<open>More fuel does not change a result\<close>

lemma parse_value_Suc:
  assumes "parse_value libc g (Suc n) lx = Some r"
    and "\<And>l r. parse_array_loop libc g n [] l = Some r \<Longrightarrow> parse_array_loop libc g m [] l = Some r"
    and "\<And>l r. parse_object_loop libc g n [] l = Some r \<Longrightarrow> parse_object_loop libc g m [] l = Some r"
  shows "parse_value libc g (Suc m) lx = Some r"
proof (cases "\<exists>b. lx_token lx = TOKEN_CHAR b")
  case False
  then have "parse_value libc g (Suc m) lx = parse_value libc g (Suc n) lx"
    by (cases "lx_token lx") (simp_all add: Let_def)
  with assms(1) show ?thesis by simp
next
  case True
  then obtain b where b: "lx_token lx = TOKEN_CHAR b" by blast
  let ?l = "lex_scan libc (lx\<lparr>lx_depth := lx_depth lx + 1\<rparr>)"
  from assms(1) b show ?thesis
    using assms(2) [of ?l] assms(3) [of ?l]
    by (cases "parse_array_loop libc g n [] ?l"; cases "parse_object_loop libc g n [] ?l")
      (auto simp: Let_def split: if_splits)
qed

lemma parse_array_loop_Suc:
  assumes "parse_array_loop libc g (Suc n) acc lx = Some r"
    and "\<And>l r. parse_value libc g n l = Some r \<Longrightarrow> parse_value libc g m l = Some r"
    and "\<And>acc l r. parse_array_loop libc g n acc l = Some r \<Longrightarrow> parse_array_loop libc g m acc l = Some r"
  shows "parse_array_loop libc g (Suc m) acc lx = Some r"
proof (cases "parse_value libc g n lx")
  case None
  with assms(1) show ?thesis by (auto split: if_splits)
next
  case (Some x)
  from assms(2) [OF Some] assms(1) Some assms(3) show ?thesis
    by (cases x; cases "fst x") (auto simp: Let_def split: if_splits)
qed

lemma parse_object_loop_Suc:
  assumes "parse_object_loop libc g (Suc n) acc lx = Some r"
    and "\<And>l r. parse_value libc g n l = Some r \<Longrightarrow> parse_value libc g m l = Some r"
    and "\<And>acc l r. parse_object_loop libc g n acc l = Some r \<Longrightarrow> parse_object_loop libc g m acc l = Some r"
  shows "parse_object_loop libc g (Suc m) acc lx = Some r"
proof -
  obtain k l1 where k: "lex_steal_string lx = (k, l1)" by fastforce
  let ?l = "lex_scan libc (lex_scan libc l1)"
  show ?thesis
  proof (cases "parse_value libc g n ?l")
    case None
    with assms(1) k show ?thesis by (cases k) (auto simp: Let_def split: if_splits)
  next
    case (Some x)
    from assms(2) [OF Some] assms(1) Some assms(3) k show ?thesis
      by (cases k; cases x; cases "fst x") (auto simp: Let_def split: if_splits)
  qed
qed

lemma parse_Suc:
  "(\<forall>lx r. parse_value libc g n lx = Some r \<longrightarrow> parse_value libc g (Suc n) lx = Some r) \<and>
   (\<forall>acc lx r. parse_array_loop libc g n acc lx = Some r \<longrightarrow> parse_array_loop libc g (Suc n) acc lx = Some r) \<and>
   (\<forall>acc lx r. parse_object_loop libc g n acc lx = Some r \<longrightarrow> parse_object_loop libc g (Suc n) acc lx = Some r)"
proof (induction n)
  case (Suc n)
  then show ?case
    by (blast intro: parse_value_Suc parse_array_loop_Suc parse_object_loop_Suc)
qed simp

lemma parse_value_mono: "n \<le> m \<Longrightarrow> parse_value libc g n lx = Some r \<Longrightarrow> parse_value libc g m lx = Some r"
  by (induction rule: dec_induct) (use parse_Suc in blast)+

lemma parse_array_loop_mono:
  "n \<le> m \<Longrightarrow> parse_array_loop libc g n acc lx = Some r \<Longrightarrow> parse_array_loop libc g m acc lx = Some r"
  by (induction rule: dec_induct) (use parse_Suc in blast)+

lemma parse_object_loop_mono:
  "n \<le> m \<Longrightarrow> parse_object_loop libc g n acc lx = Some r \<Longrightarrow> parse_object_loop libc g m acc lx = Some r"
  by (induction rule: dec_induct) (use parse_Suc in blast)+

end
