(* ===== verification/LexView.thy ===== *)
theory LexView
  imports Loader
begin

text \<open>
  What the lexer sees. \<open>sview s p\<close>: the stream \<open>s\<close> is about to deliver the bytes \<open>p\<close>, a NUL-free
  tail of a valid UTF-8 text, and then end of file. The lemmas follow the reading of one
  byte, of white space, of digits and letters, of a string body and of a number through
  this view; the one-byte push-back of \<open>stream_unget\<close> restores it.
\<close>

subsection \<open>The stream\<close>

definition good_byte :: "byte \<Rightarrow> bool" where
  "good_byte b \<longleftrightarrow> b \<noteq> 0 \<and> schar b \<noteq> -1 \<and> schar b \<noteq> -2"

definition cached :: "stream \<Rightarrow> bytes" where
  "cached s = takeWhile (\<lambda>b. b \<noteq> 0) (drop (st_buffer_pos s) (st_buffer s))"

definition sview :: "stream \<Rightarrow> bytes \<Rightarrow> bool" where
  "sview s p \<longleftrightarrow>
     st_state s = StateEof \<and> p = [] \<or>
     st_state s = StateOk \<and> length (st_buffer s) = 5 \<and> p = cached s @ st_data s \<and>
     valid_utf8 (st_data s) \<and> (\<forall>b\<in>set p. good_byte b)"

definition nxt :: "bytes \<Rightarrow> int" where
  "nxt p = (case p of [] \<Rightarrow> -1 | b # _ \<Rightarrow> schar b)"

lemma nxt_simps [simp]: "nxt [] = -1" "nxt (b # p) = schar b"
  by (simp_all add: nxt_def)

lemma schar_range: "-128 \<le> schar b" "schar b < 128"
  using sint_ge [of b] sint_lt [of b] by (simp_all add: schar_def)

lemma to_byte_schar [simp]: "to_byte (schar b) = b"
  by (simp add: to_byte_def schar_def)

lemma schar_uint: "schar b = (if uint b < 128 then uint b else uint b - 256)"
proof -
  have "uint b = schar b mod 256" by (metis to_byte_schar uint_to_byte)
  with schar_range [of b] show ?thesis by (smt (verit) mod_pos_pos_trivial mod_add_self2)
qed

lemma schar_inj [simp]: "schar a = schar b \<longleftrightarrow> a = b"
  by (metis to_byte_schar)

lemma enc_bytes: "scalar c \<Longrightarrow> b \<in> set (enc c) \<Longrightarrow> uint b < 0xF5 \<and> (uint b < 0x80 \<longrightarrow> uint b = c \<and> c < 0x80)"
  by (cases "c < 0x80"; cases "c < 0x800"; cases "c < 0x10000")
    (auto simp: scalar_def enc_def uint_to_byte [of c] not_less)

lemma enc_good: "scalar c \<Longrightarrow> c \<noteq> 0 \<Longrightarrow> b \<in> set (enc c) \<Longrightarrow> good_byte b"
  using enc_bytes [of c b] by (auto simp: good_byte_def schar_uint scalar_def)

lemma cached_step:
  assumes "buffer_at s \<noteq> 0"
  shows "cached s = buffer_at s # cached (s\<lparr>st_buffer_pos := Suc (st_buffer_pos s)\<rparr>)"
proof -
  have "st_buffer_pos s < length (st_buffer s)" using assms by (auto simp: buffer_at_def split: if_splits)
  with assms show ?thesis by (simp add: cached_def buffer_at_def flip: Cons_nth_drop_Suc)
qed

lemma buffer_at_cached: "buffer_at s = 0 \<longleftrightarrow> cached s = []"
  by (cases "st_buffer_pos s < length (st_buffer s)")
    (simp_all add: cached_def buffer_at_def flip: Cons_nth_drop_Suc)

lemma fill_buffer_bytes:
  "i + length bs \<le> length buffer \<Longrightarrow>
   fill_buffer i (i + length bs) buffer (bs @ rest) = (take i buffer @ bs @ drop (i + length bs) buffer, rest)"
proof (induction bs arbitrary: i buffer)
  case Nil
  then show ?case by (simp add: fill_buffer.simps)
next
  case (Cons b bs)
  then show ?case
    using Cons.IH [of "Suc i" "buffer[i := b]"]
    by (simp add: fill_buffer.simps [of i] take_Suc_conv_app_nth)
qed

lemma stream_refill_view:
  assumes "st_state s = StateOk" "length (st_buffer s) = 5" "scalar c" "c \<noteq> 0" "st_data s = enc c @ rest"
  shows "\<exists>s'. stream_refill s = RefillOk s' \<and> cached s' = enc c \<and> st_data s' = rest \<and>
    length (st_buffer s') = 5 \<and> st_buffer_pos s' = 0 \<and> st_state s' = StateOk"
proof -
  obtain b bs where e: "enc c = b # bs" by (cases "enc c") simp_all
  have g: "\<forall>b\<in>set (enc c). b \<noteq> 0" using enc_good [OF assms(3,4)] by (auto simp: good_byte_def)
  let ?b1 = "(st_buffer s)[0 := b]"
  obtain x0 x1 x2 x3 x4 where buf: "st_buffer s = [x0, x1, x2, x3, x4]"
    using assms(2) by (auto simp: numeral_eq_Suc length_Suc_conv)
  show ?thesis
  proof (cases "c < 0x80")
    case True
    then have "bs = []" "uint b < 0x80" using e assms(3) by (auto simp: enc_def scalar_def uint_to_byte)
    with e g assms buf show ?thesis by (auto simp: stream_refill_def Let_def cached_def)
  next
    case False
    have l: "utf8_check_first b = length (enc c)" using check_first_enc [OF assms(3)] e by simp
    have len: "2 \<le> length (enc c)" "length (enc c) \<le> 4" using False by (auto simp: length_enc)
    then have ub: "0x80 \<le> uint b" using l by (auto simp: check_first_simps split: if_splits)
    have u2: "uint b \<le> 0xFF" using byte_range [of b] by simp
    let ?buf = "enc c @ drop (length (enc c)) (st_buffer s)"
    have f: "fill_buffer 1 (length (enc c)) ?b1 (bs @ rest) = (?buf, rest)"
      using fill_buffer_bytes [of 1 bs ?b1 rest] e len buf by simp
    have full: "utf8_check_full ?buf (length (enc c)) \<noteq> None"
      using check_full_enc [OF assms(3)] False by simp
    have c: "takeWhile (\<lambda>b. b \<noteq> 0) (?buf[length (enc c) := 0]) = enc c"
    proof -
      obtain y ys where "drop (length (enc c)) (st_buffer s) = y # ys"
        using len(2) assms(2) by (cases "drop (length (enc c)) (st_buffer s)") auto
      with g show ?thesis by (simp add: takeWhile_append)
    qed
    show ?thesis
      using e l len ub u2 f full c assms(1,2,5)
      by (auto simp: stream_refill_def Let_def cached_def)
  qed
qed

lemma valid_utf8_step:
  "valid_utf8 (b # bs) \<Longrightarrow> \<exists>c rest. scalar c \<and> b # bs = enc c @ rest \<and> valid_utf8 rest"
proof -
  assume "valid_utf8 (b # bs)"
  then obtain cs where cs: "list_all scalar cs" "b # bs = enc_all cs" by (auto simp: valid_utf8_def)
  then obtain d ds where "cs = d # ds" by (cases cs) auto
  with cs show ?thesis by (auto simp: valid_utf8_def)
qed

text \<open>Reading one byte, and pushing it back.\<close>

lemma stream_next_view:
  assumes "st_state s = StateOk" "length (st_buffer s) = 5" "cached s = b # q"
    "valid_utf8 (st_data s)" "\<forall>b\<in>set (cached s @ st_data s). good_byte b"
  shows "\<exists>s'. stream_next s = (schar b, s') \<and> sview s' (q @ st_data s) \<and>
    sview (stream_unget s' (schar b)) (b # q @ st_data s)"
proof -
  have nz: "buffer_at s \<noteq> 0" using assms(3) buffer_at_cached [of s] by simp
  from cached_step [OF this] assms(3)
  have b: "buffer_at s = b" "cached (s\<lparr>st_buffer_pos := Suc (st_buffer_pos s)\<rparr>) = q" by auto
  obtain s' where s': "stream_next s = (schar b, s')" by (simp add: stream_next_def b Let_def)
  then have f: "st_data s' = st_data s" "st_buffer s' = st_buffer s"
      "st_buffer_pos s' = Suc (st_buffer_pos s)" "st_state s' = st_state s"
    using stream_next_sizes [OF s'] by auto
  then have "cached s' = q" using b(2) by (simp add: cached_def)
  with f assms have v: "sview s' (q @ st_data s)" by (auto simp: sview_def)
  let ?u = "stream_unget s' (schar b)"
  have "good_byte b" using assms(3,5) by simp
  then have u: "st_data ?u = st_data s" "st_buffer ?u = st_buffer s" "st_buffer_pos ?u = st_buffer_pos s"
      "st_state ?u = st_state s"
    using f by (auto simp: stream_unget_def good_byte_def Let_def)
  then have "cached ?u = b # q" using assms(3) by (simp add: cached_def)
  with u assms have "sview ?u (b # q @ st_data s)" by (auto simp: sview_def)
  with s' v show ?thesis by blast
qed

lemma stream_get_view:
  assumes "sview (lx_stream lx) p"
  shows "\<exists>s'. stream_get lx = (nxt p, lx\<lparr>lx_stream := s'\<rparr>) \<and> sview s' (tl p) \<and>
    sview (stream_unget s' (nxt p)) p"
proof (cases "st_state (lx_stream lx) = StateOk")
  case False
  with assms have "st_state (lx_stream lx) = StateEof" "p = []" by (auto simp: sview_def)
  then show ?thesis by (auto simp: stream_get_def sview_def stream_unget_def intro!: exI [of _ "lx_stream lx"])
next
  case ok: True
  let ?s = "lx_stream lx"
  have v: "length (st_buffer ?s) = 5" "p = cached ?s @ st_data ?s" "valid_utf8 (st_data ?s)"
      "\<forall>b\<in>set p. good_byte b"
    using assms ok by (auto simp: sview_def)
  show ?thesis
  proof (cases "cached ?s")
    case (Cons b q)
    with stream_next_view [OF ok v(1) Cons v(3)] v show ?thesis
      using buffer_at_cached [of ?s] by (auto simp: stream_get_def ok Let_def)
  next
    case Nil
    then have ba: "buffer_at ?s = 0" by (simp add: buffer_at_cached)
    show ?thesis
    proof (cases p)
      case p: Nil
      with v Nil have "st_data ?s = []" by simp
      with ok ba p show ?thesis
        by (auto simp: stream_get_def stream_refill_def sview_def stream_unget_def Let_def)
    next
      case (Cons b q)
      with v Nil obtain c rest where c: "scalar c" "b # q = enc c @ rest" "valid_utf8 rest"
        using valid_utf8_step [of b q] by auto
      have nz: "c \<noteq> 0" using v(4) c(2) Cons by (auto simp: good_byte_def enc_def to_byte_def)
      have d: "st_data ?s = enc c @ rest" using v(2) Nil Cons c(2) by simp
      from stream_refill_view [OF ok v(1) c(1) nz d] obtain s1 where
        s1: "stream_refill ?s = RefillOk s1" "cached s1 = enc c" "st_data s1 = rest"
          "length (st_buffer s1) = 5" "st_state s1 = StateOk" by auto
      obtain e where e: "enc c = b # e" using c(2) by (cases "enc c") auto
      from stream_next_view [OF s1(5,4), of b e] s1 e v(4) c Cons
      show ?thesis using ok ba by (auto simp: stream_get_def Let_def)
    qed
  qed
qed

subsection \<open>Runs of characters\<close>

abbreviation lex_at :: "'r lex \<Rightarrow> stream \<Rightarrow> bytes \<Rightarrow> 'r lex" where
  "lex_at lx s t \<equiv> lx\<lparr>lx_stream := s, lx_saved_text := t\<rparr>"

lemma sview_good: "sview s (b # p) \<Longrightarrow> good_byte b"
  by (auto simp: sview_def)

lemma nxt_sentinel: "sview s p \<Longrightarrow> nxt p \<noteq> -2 \<and> (nxt p = -1 \<longleftrightarrow> p = [])"
  by (cases p) (auto simp: good_byte_def dest: sview_good)

lemma lex_get_save_view:
  assumes "sview (lx_stream lx) p"
  shows "\<exists>s'. lex_get_save lx = (nxt p, lex_at lx s' (lx_saved_text lx @ take 1 p)) \<and> sview s' (tl p) \<and>
    sview (stream_unget s' (nxt p)) p"
  using stream_get_view [OF assms] nxt_sentinel [OF assms]
  by (cases p) (auto simp: lex_get_save_def lex_save_def)

lemma lex_unget_unsave_view:
  assumes "sview s' (tl p)" "sview (stream_unget s' (nxt p)) p"
  shows "\<exists>s. lex_unget_unsave (lex_at lx s' (t @ take 1 p)) (nxt p) = lex_at lx s t \<and> sview s p"
  using assms nxt_sentinel [OF assms(2)]
  by (cases p) (auto simp: lex_unget_unsave_def stream_unget_def)

lemma lex_skip_ws_view:
  assumes "sview (lx_stream lx) (w @ p)" "\<forall>b\<in>set w. is_ws (schar b)" "\<not> is_ws (nxt p)"
  shows "\<exists>s'. lex_skip_ws lx = (nxt p, lx\<lparr>lx_stream := s'\<rparr>) \<and> sview s' (tl p) \<and>
    sview (stream_unget s' (nxt p)) p"
  using assms
proof (induction w arbitrary: lx)
  case Nil
  with stream_get_view [of lx p] show ?case
    by (subst lex_skip_ws.simps) (auto simp: lex_get_def)
next
  case (Cons b w)
  from stream_get_view [OF Cons.prems(1)] obtain s where
    s: "stream_get lx = (schar b, lx\<lparr>lx_stream := s\<rparr>)" "sview s (w @ p)" by auto
  from Cons.IH [of "lx\<lparr>lx_stream := s\<rparr>"] s Cons.prems show ?case
    by (subst lex_skip_ws.simps) (auto simp: lex_get_def)
qed

lemma lex_digits_view:
  assumes "sview (lx_stream lx) (w @ p)" "\<forall>b\<in>set w. l_isdigit (schar b)" "\<not> l_isdigit (nxt p)"
  shows "\<exists>s'. lex_digits lx = (nxt p, lex_at lx s' (lx_saved_text lx @ w @ take 1 p)) \<and> sview s' (tl p) \<and>
    sview (stream_unget s' (nxt p)) p"
  using assms
proof (induction w arbitrary: lx)
  case Nil
  with lex_get_save_view [of lx p] show ?case by (subst lex_digits.simps) auto
next
  case (Cons b w)
  from lex_get_save_view [OF Cons.prems(1)] obtain s where
    s: "lex_get_save lx = (schar b, lex_at lx s (lx_saved_text lx @ [b]))" "sview s (w @ p)" by auto
  from Cons.IH [of "lex_at lx s (lx_saved_text lx @ [b])"] s Cons.prems show ?case
    by (subst lex_digits.simps) auto
qed

lemma lex_alphas_view:
  assumes "sview (lx_stream lx) (w @ p)" "\<forall>b\<in>set w. l_isalpha (schar b)" "\<not> l_isalpha (nxt p)"
  shows "\<exists>s'. lex_alphas lx = (nxt p, lex_at lx s' (lx_saved_text lx @ w @ take 1 p)) \<and> sview s' (tl p) \<and>
    sview (stream_unget s' (nxt p)) p"
  using assms
proof (induction w arbitrary: lx)
  case Nil
  with lex_get_save_view [of lx p] show ?case by (subst lex_alphas.simps) auto
next
  case (Cons b w)
  from lex_get_save_view [OF Cons.prems(1)] obtain s where
    s: "lex_get_save lx = (schar b, lex_at lx s (lx_saved_text lx @ [b]))" "sview s (w @ p)" by auto
  from Cons.IH [of "lex_at lx s (lx_saved_text lx @ [b])"] s Cons.prems show ?case
    by (subst lex_alphas.simps) auto
qed

subsection \<open>String bodies\<close>

text \<open>What may stand between the quotes.\<close>

definition plain_byte :: "byte \<Rightarrow> bool" where
  "plain_byte b \<longleftrightarrow> good_byte b \<and> b \<noteq> 34 \<and> b \<noteq> 92 \<and> (0 \<le> schar b \<longrightarrow> 0x1F < schar b)"

inductive str_body :: "bytes \<Rightarrow> bool" where
  body_Nil: "str_body []"
| body_plain: "plain_byte b \<Longrightarrow> str_body t \<Longrightarrow> str_body (b # t)"
| body_escape: "shortcut_escape b \<noteq> None \<Longrightarrow> str_body t \<Longrightarrow> str_body (92 # b # t)"
| body_unicode: "length hs = 4 \<Longrightarrow> \<forall>h\<in>set hs. l_isxdigit (schar h) \<Longrightarrow> str_body t \<Longrightarrow>
     str_body (92 # 117 # hs @ t)"

lemma str_body_append: "str_body s \<Longrightarrow> str_body t \<Longrightarrow> str_body (s @ t)"
  by (induction rule: str_body.induct) (auto intro: str_body.intros)

lemma str_body_plains: "\<forall>b\<in>set s. plain_byte b \<Longrightarrow> str_body s"
  by (induction s) (auto intro: str_body.intros)

lemma lex_hex_digits_view:
  assumes "\<forall>h\<in>set hs. l_isxdigit (schar h)" "sview s (tl (hs @ p))"
  shows "\<exists>s'. lex_hex_digits (length hs) (lex_at lx s (t @ take 1 (hs @ p))) (nxt (hs @ p)) =
      Inr (nxt p, lex_at lx s' (t @ hs @ take 1 p)) \<and> sview s' (tl p)"
  using assms
proof (induction hs arbitrary: s t)
  case (Cons h hs)
  let ?l = "lex_at lx s (t @ [h])"
  from Cons.prems lex_get_save_view [of ?l "hs @ p"] obtain s1 where
    s1: "lex_get_save ?l = (nxt (hs @ p), lex_at lx s1 ((t @ [h]) @ take 1 (hs @ p)))" "sview s1 (tl (hs @ p))"
    by auto
  from Cons.IH [OF _ s1(2), of "t @ [h]"] s1 Cons.prems show ?case by auto
qed auto

lemma schar_eq_iff:
  "schar b = 34 \<longleftrightarrow> b = 34" "schar b = 92 \<longleftrightarrow> b = 92" "schar b = 117 \<longleftrightarrow> b = 117" "schar b = 47 \<longleftrightarrow> b = 47"
  "schar b = 98 \<longleftrightarrow> b = 98" "schar b = 102 \<longleftrightarrow> b = 102" "schar b = 110 \<longleftrightarrow> b = 110" "schar b = 114 \<longleftrightarrow> b = 114"
  "schar b = 116 \<longleftrightarrow> b = 116"
  using schar_inj [of b 34] schar_inj [of b 92] schar_inj [of b 117] schar_inj [of b 47] schar_inj [of b 98]
    schar_inj [of b 102] schar_inj [of b 110] schar_inj [of b 114] schar_inj [of b 116]
  by (simp_all add: schar_def del: schar_inj)

text \<open>The scanner with the first character of \<open>t @ 34 # p\<close> in hand.\<close>

lemma lex_string_scan_body:
  assumes "str_body t" "sview s (tl (t @ 34 # p))"
  shows "\<exists>s'. lex_string_scan (lex_at lx s (u @ take 1 (t @ 34 # p))) (nxt (t @ 34 # p)) =
      Inr (lex_at lx s' (u @ t @ [34])) \<and> sview s' p"
  using assms
proof (induction arbitrary: s u rule: str_body.induct)
  case body_Nil
  then show ?case by (auto simp: lex_string_scan.simps schar_eq_iff)
next
  case (body_plain b t)
  let ?l = "lex_at lx s (u @ [b])"
  from lex_get_save_view [of ?l "t @ 34 # p"] body_plain.prems obtain s1 where
    s1: "lex_get_save ?l = (nxt (t @ 34 # p), lex_at lx s1 ((u @ [b]) @ take 1 (t @ 34 # p)))"
      "sview s1 (tl (t @ 34 # p))" by auto
  have "lex_string_scan ?l (schar b) =
      lex_string_scan (lex_at lx s1 ((u @ [b]) @ take 1 (t @ 34 # p))) (nxt (t @ 34 # p))"
    using s1(1) body_plain.hyps(1)
    by (auto simp: lex_string_scan.simps [of _ "schar b"] plain_byte_def schar_eq_iff good_byte_def)
  with body_plain.IH [OF s1(2), of "u @ [b]"] show ?case by auto
next
  case (body_escape b t)
  let ?l = "lex_at lx s (u @ [92])"
  from lex_get_save_view [of ?l "b # t @ 34 # p"] body_escape.prems obtain s1 where
    s1: "lex_get_save ?l = (schar b, lex_at lx s1 (u @ [92, b]))" "sview s1 (t @ 34 # p)" by auto
  from lex_get_save_view [of "lex_at lx s1 (u @ [92, b])" "t @ 34 # p"] s1(2) obtain s2 where
    s2: "lex_get_save (lex_at lx s1 (u @ [92, b])) =
        (nxt (t @ 34 # p), lex_at lx s2 ((u @ [92, b]) @ take 1 (t @ 34 # p)))" "sview s2 (tl (t @ 34 # p))"
    by auto
  have "lex_string_scan ?l 92 =
      lex_string_scan (lex_at lx s2 ((u @ [92, b]) @ take 1 (t @ 34 # p))) (nxt (t @ 34 # p))"
    using s1(1) s2(1) body_escape.hyps(1)
    by (auto simp: lex_string_scan.simps [of _ 92] schar_eq_iff shortcut_escape_def split: if_splits)
  with body_escape.IH [OF s2(2), of "u @ [92, b]"] show ?case by (auto simp: schar_def)
next
  case (body_unicode hs t)
  let ?l = "lex_at lx s (u @ [92])" and ?q = "hs @ t @ 34 # p"
  from lex_get_save_view [of ?l "117 # ?q"] body_unicode.prems obtain s1 where
    s1: "lex_get_save ?l = (117, lex_at lx s1 (u @ [92, 117]))" "sview s1 ?q"
    by (auto simp: schar_eq_iff)
  let ?u = "u @ [92, 117]"
  from lex_get_save_view [of "lex_at lx s1 ?u" ?q] s1 obtain s2 where
    s2: "lex_get_save (lex_at lx s1 ?u) = (nxt ?q, lex_at lx s2 (?u @ take 1 ?q))" "sview s2 (tl ?q)" by auto
  from lex_hex_digits_view [OF body_unicode.hyps(2) s2(2), where lx = lx and t = ?u] obtain s3 where
    s3: "lex_hex_digits 4 (lex_at lx s2 (?u @ take 1 ?q)) (nxt ?q) =
        Inr (nxt (t @ 34 # p), lex_at lx s3 ((?u @ hs) @ take 1 (t @ 34 # p)))" "sview s3 (tl (t @ 34 # p))"
    by (auto simp: body_unicode.hyps(1))
  have "lex_string_scan ?l 92 =
      lex_string_scan (lex_at lx s3 ((?u @ hs) @ take 1 (t @ 34 # p))) (nxt (t @ 34 # p))"
    using s1(1) s2(1) s3(1)
    by (simp add: lex_string_scan.simps [of _ 92] del: append.simps append_assoc take_append One_nat_def)
  with body_unicode.IH [OF s3(2), of "?u @ hs"] show ?case by (auto simp: schar_def)
qed

end
