(* ===== verification/Strbuffer.thy ===== *)
theory Strbuffer
  imports Prelude
begin

text \<open>
  The growing byte buffer of \<^verbatim>\<open>src/jansson/src/strbuffer.c\<close> on top of the
  allocation wrapper of \<^verbatim>\<open>src/jansson/src/memory.c\<close>. \<open>size_t\<close> is a 64-bit
  word, so the overflow guards of the code mean what they mean in C. The user's
  allocator (\<open>json_set_alloc_funcs\<close>) is the parameter \<open>do_malloc\<close>: for a requested size
  it returns either \<open>None\<close> (a NULL pointer) or the initial, arbitrary contents of the
  new block. An operation returns its C status together with the new buffer.
\<close>

subsection \<open>Allocation\<close>

definition jsonp_malloc :: "(size_t \<Rightarrow> bytes option) \<Rightarrow> size_t \<Rightarrow> bytes option" where
  "jsonp_malloc do_malloc n = (if n = 0 then None else do_malloc n)"

definition jsonp_strndup :: "(size_t \<Rightarrow> bytes option) \<Rightarrow> bytes \<Rightarrow> size_t \<Rightarrow> bytes option" where
  "jsonp_strndup do_malloc str len =
     (case jsonp_malloc do_malloc (len + 1) of
        None \<Rightarrow> None
      | Some new_str \<Rightarrow>
          Some ((take (unat len) str @ drop (unat len) new_str)[unat len := 0]))"

definition jsonp_strdup :: "(size_t \<Rightarrow> bytes option) \<Rightarrow> bytes \<Rightarrow> bytes option" where
  "jsonp_strdup do_malloc str = jsonp_strndup do_malloc str (of_nat (length (cstr str)))"

text \<open>What the C standard says of an allocator: a block has the requested size.\<close>

definition malloc_ok :: "(size_t \<Rightarrow> bytes option) \<Rightarrow> bool" where
  "malloc_ok do_malloc \<longleftrightarrow> (\<forall>n b. do_malloc n = Some b \<longrightarrow> length b = unat n)"

subsection \<open>The buffer\<close>

record strbuffer =
  sb_value :: "bytes option"
  sb_length :: size_t
  sb_size :: size_t

definition STRBUFFER_MIN_SIZE :: size_t where "STRBUFFER_MIN_SIZE = 16"
definition STRBUFFER_FACTOR :: size_t where "STRBUFFER_FACTOR = 2"
definition STRBUFFER_SIZE_MAX :: size_t where "STRBUFFER_SIZE_MAX = - 1"

definition strbuffer_init :: "(size_t \<Rightarrow> bytes option) \<Rightarrow> int \<times> strbuffer" where
  "strbuffer_init do_malloc =
     (case jsonp_malloc do_malloc STRBUFFER_MIN_SIZE of
        None \<Rightarrow> (-1, \<lparr>sb_value = None, sb_length = 0, sb_size = STRBUFFER_MIN_SIZE\<rparr>)
      | Some v \<Rightarrow> (0, \<lparr>sb_value = Some (v[0 := 0]), sb_length = 0, sb_size = STRBUFFER_MIN_SIZE\<rparr>))"

definition strbuffer_close :: "strbuffer \<Rightarrow> strbuffer" where
  "strbuffer_close strbuff = strbuff\<lparr>sb_size := 0, sb_length := 0, sb_value := None\<rparr>"

definition strbuffer_clear :: "strbuffer \<Rightarrow> strbuffer" where
  "strbuffer_clear strbuff =
     strbuff\<lparr>sb_length := 0, sb_value := map_option (\<lambda>v. v[0 := 0]) (sb_value strbuff)\<rparr>"

definition strbuffer_value :: "strbuffer \<Rightarrow> bytes option" where
  "strbuffer_value strbuff = sb_value strbuff"

definition strbuffer_steal_value :: "strbuffer \<Rightarrow> bytes option \<times> strbuffer" where
  "strbuffer_steal_value strbuff = (sb_value strbuff, strbuff\<lparr>sb_value := None\<rparr>)"

text \<open>\<open>memcpy (dst + off, src, length src)\<close> inside a block.\<close>

definition memcpy_at :: "bytes \<Rightarrow> nat \<Rightarrow> bytes \<Rightarrow> bytes" where
  "memcpy_at dst off src = take off dst @ src @ drop (off + length src) dst"

text \<open>The reallocation step of \<open>strbuffer_append_bytes\<close>.\<close>

definition strbuffer_grow ::
    "(size_t \<Rightarrow> bytes option) \<Rightarrow> strbuffer \<Rightarrow> size_t \<Rightarrow> strbuffer option" where
  "strbuffer_grow do_malloc strbuff sz =
     (if sz \<ge> sb_size strbuff - sb_length strbuff then
        if sb_size strbuff > STRBUFFER_SIZE_MAX div STRBUFFER_FACTOR \<or>
           sz > STRBUFFER_SIZE_MAX - 1 \<or>
           sb_length strbuff > STRBUFFER_SIZE_MAX - 1 - sz then None
        else
          let new_size = max (sb_size strbuff * STRBUFFER_FACTOR) (sb_length strbuff + sz + 1) in
          (case jsonp_malloc do_malloc new_size of
             None \<Rightarrow> None
           | Some new_value \<Rightarrow>
               Some (strbuff\<lparr>sb_value := Some (memcpy_at new_value 0
                       (take (unat (sb_length strbuff)) (the (sb_value strbuff)))),
                     sb_size := new_size\<rparr>))
      else Some strbuff)"

definition strbuffer_append_bytes ::
    "(size_t \<Rightarrow> bytes option) \<Rightarrow> strbuffer \<Rightarrow> bytes \<Rightarrow> size_t \<Rightarrow> int \<times> strbuffer" where
  "strbuffer_append_bytes do_malloc strbuff data sz =
     (case strbuffer_grow do_malloc strbuff sz of
        None \<Rightarrow> (-1, strbuff)
      | Some sb \<Rightarrow>
          let len = sb_length sb + sz;
              v = memcpy_at (the (sb_value sb)) (unat (sb_length sb)) (take (unat sz) data)
          in (0, sb\<lparr>sb_value := Some (v[unat len := 0]), sb_length := len\<rparr>))"

definition strbuffer_append_byte ::
    "(size_t \<Rightarrow> bytes option) \<Rightarrow> strbuffer \<Rightarrow> byte \<Rightarrow> int \<times> strbuffer" where
  "strbuffer_append_byte do_malloc strbuff b = strbuffer_append_bytes do_malloc strbuff [b] 1"

definition strbuffer_pop :: "strbuffer \<Rightarrow> byte \<times> strbuffer" where
  "strbuffer_pop strbuff =
     (if sb_length strbuff > 0 then
        let len = sb_length strbuff - 1; v = the (sb_value strbuff)
        in (v ! unat len, strbuff\<lparr>sb_length := len, sb_value := Some (v[unat len := 0])\<rparr>)
      else (0, strbuff))"

subsection \<open>Invariant and abstraction\<close>

definition sb_inv :: "strbuffer \<Rightarrow> bool" where
  "sb_inv sb \<longleftrightarrow>
     (\<exists>v. sb_value sb = Some v \<and> length v = unat (sb_size sb) \<and>
          unat (sb_length sb) < unat (sb_size sb) \<and> v ! unat (sb_length sb) = 0)"

definition sb_contents :: "strbuffer \<Rightarrow> bytes" where
  "sb_contents sb = take (unat (sb_length sb)) (the (sb_value sb))"

lemma length_memcpy_at [simp]:
  "off + length src \<le> length dst \<Longrightarrow> length (memcpy_at dst off src) = length dst"
  by (simp add: memcpy_at_def)

lemma strbuffer_init_inv:
  assumes "malloc_ok do_malloc" "strbuffer_init do_malloc = (0, sb)"
  shows "sb_inv sb \<and> sb_contents sb = []"
  using assms
  by (auto simp: strbuffer_init_def jsonp_malloc_def malloc_ok_def sb_inv_def sb_contents_def
      STRBUFFER_MIN_SIZE_def split: option.splits if_splits)

lemma strbuffer_clear_inv: "sb_inv sb \<Longrightarrow> sb_inv (strbuffer_clear sb) \<and> sb_contents (strbuffer_clear sb) = []"
  by (auto simp: strbuffer_clear_def sb_inv_def sb_contents_def)

text \<open>Read on natural numbers, the guard keeps the new size from wrapping around.\<close>

lemma size_max: "STRBUFFER_SIZE_MAX = 0xFFFFFFFFFFFFFFFF"
  by (simp add: STRBUFFER_SIZE_MAX_def)

lemma grow_guard_unat:
  assumes "\<not> (sz > STRBUFFER_SIZE_MAX - 1 \<or> len > STRBUFFER_SIZE_MAX - 1 - sz)"
  shows "unat (len + sz + 1) = unat len + unat sz + 1"
proof -
  have le: "sz \<le> STRBUFFER_SIZE_MAX - 1" "len \<le> STRBUFFER_SIZE_MAX - 1 - sz"
    using assms by auto
  from le(1) have "unat (STRBUFFER_SIZE_MAX - 1 - sz) = 2 ^ 64 - 2 - unat sz"
    by (simp add: unat_sub size_max)
  with le have "unat len + unat sz + 1 < 2 ^ 64"
    by (simp add: word_le_nat_alt size_max)
  then show ?thesis
    by (simp add: unat_word_ariths)
qed

lemma strbuffer_grow_inv:
  assumes m: "malloc_ok do_malloc" and inv: "sb_inv sb"
    and g: "strbuffer_grow do_malloc sb sz = Some sb'"
  shows "\<exists>v'. sb_value sb' = Some v' \<and> length v' = unat (sb_size sb') \<and>
    sb_length sb' = sb_length sb \<and> sb_contents sb' = sb_contents sb \<and>
    unat (sb_length sb) + unat sz < unat (sb_size sb')"
proof (cases "sz \<ge> sb_size sb - sb_length sb")
  case False
  with inv g show ?thesis
    by (auto simp: strbuffer_grow_def sb_inv_def word_le_nat_alt unat_sub_if')
next
  case True
  let ?n = "max (sb_size sb * STRBUFFER_FACTOR) (sb_length sb + sz + 1)"
  from inv obtain v where v: "sb_value sb = Some v" "length v = unat (sb_size sb)"
      "unat (sb_length sb) < unat (sb_size sb)"
    by (auto simp: sb_inv_def)
  from True g obtain b where
    guard: "\<not> (sz > STRBUFFER_SIZE_MAX - 1 \<or> sb_length sb > STRBUFFER_SIZE_MAX - 1 - sz)"
    and b: "do_malloc ?n = Some b"
    and sb': "sb' = sb\<lparr>sb_value := Some (memcpy_at b 0 (take (unat (sb_length sb)) v)), sb_size := ?n\<rparr>"
    using v by (auto simp: strbuffer_grow_def jsonp_malloc_def Let_def split: if_splits option.splits)
  have "sb_length sb + sz + 1 \<le> ?n" by simp
  then have n: "unat (sb_length sb) + unat sz + 1 \<le> unat ?n"
    using grow_guard_unat [OF guard] by (simp only: word_le_nat_alt)
  moreover have lb: "length b = unat ?n" using m b by (auto simp: malloc_ok_def)
  ultimately show ?thesis
    using v by (simp add: sb' memcpy_at_def sb_contents_def)
qed

lemma strbuffer_append_bytes_ok:
  assumes m: "malloc_ok do_malloc" and inv: "sb_inv sb" and sz: "unat sz \<le> length data"
    and a: "strbuffer_append_bytes do_malloc sb data sz = (0, sb')"
  shows "sb_inv sb' \<and> sb_contents sb' = sb_contents sb @ take (unat sz) data"
proof -
  from a obtain s where g: "strbuffer_grow do_malloc sb sz = Some s"
    by (auto simp: strbuffer_append_bytes_def split: option.splits)
  from strbuffer_grow_inv [OF m inv g] obtain v where v: "sb_value s = Some v"
      "length v = unat (sb_size s)" "sb_length s = sb_length sb" "sb_contents s = sb_contents sb"
      "unat (sb_length sb) + unat sz < unat (sb_size s)"
    by blast
  have len: "unat (sb_length sb + sz) = unat (sb_length sb) + unat sz"
  proof -
    have "unat (sb_size s) < 2 ^ LENGTH(64)" by (rule unsigned_less)
    with v(5) show ?thesis by (simp add: unat_word_ariths)
  qed
  have "sb_inv sb' \<and> sb_contents sb' = sb_contents s @ take (unat sz) data"
    using a g v(1-3,5) len sz
    by (auto simp: strbuffer_append_bytes_def sb_inv_def sb_contents_def memcpy_at_def Let_def)
  with v(4) show ?thesis by simp
qed

lemma strbuffer_append_bytes_fail:
  "strbuffer_append_bytes do_malloc sb data sz = (r, sb') \<Longrightarrow> r \<noteq> 0 \<Longrightarrow> r = -1 \<and> sb' = sb"
  by (auto simp: strbuffer_append_bytes_def Let_def split: option.splits)

lemma strbuffer_pop_ok:
  assumes "sb_inv sb"
  shows "strbuffer_pop sb = (if sb_contents sb = [] then (0, sb)
      else (last (sb_contents sb), snd (strbuffer_pop sb))) \<and>
    sb_inv (snd (strbuffer_pop sb)) \<and> sb_contents (snd (strbuffer_pop sb)) = butlast (sb_contents sb)"
proof -
  obtain v where v: "sb_value sb = Some v" "length v = unat (sb_size sb)"
      "unat (sb_length sb) < unat (sb_size sb)" "v ! unat (sb_length sb) = 0"
    using assms by (auto simp: sb_inv_def)
  show ?thesis
  proof (cases "sb_length sb = 0")
    case True
    with v show ?thesis
      by (simp add: strbuffer_pop_def sb_contents_def sb_inv_def)
  next
    case False
    then have l: "unat (sb_length sb - 1) = unat (sb_length sb) - 1" "0 < unat (sb_length sb)"
      "0 < sb_length sb"
      by (auto simp: unat_minus_one unat_gt_0 word_gt_0)
    with v show ?thesis
      by (auto simp: strbuffer_pop_def sb_contents_def sb_inv_def Let_def last_conv_nth
          butlast_take take_update_cancel)
  qed
qed

subsection \<open>A total allocator\<close>

text \<open>With an allocator that never fails, appending succeeds up to 2^62 bytes.\<close>

definition malloc_total :: "(size_t \<Rightarrow> bytes option) \<Rightarrow> bool" where
  "malloc_total do_malloc \<longleftrightarrow> malloc_ok do_malloc \<and> (\<forall>n. n \<noteq> 0 \<longrightarrow> do_malloc n \<noteq> None)"

lemma sb_contents_length: "sb_inv sb \<Longrightarrow> length (sb_contents sb) = unat (sb_length sb)"
  by (auto simp: sb_inv_def sb_contents_def)

lemma strbuffer_append_bytes_succeeds:
  assumes m: "malloc_total do_malloc" and ok: "sb_inv sb"
    and sz: "length (sb_contents sb) + length data \<le> 2 ^ 62"
  shows "\<exists>sb'. strbuffer_append_bytes do_malloc sb data (of_nat (length data)) = (0, sb')"
proof -
  let ?sz = "of_nat (length data) :: size_t"
  have n: "unat ?sz = length data" using sz by (simp add: unat_of_nat)
  have l: "unat (sb_length sb) + unat ?sz \<le> 2 ^ 62" using sz by (simp add: sb_contents_length ok n)
  have "strbuffer_grow do_malloc sb ?sz \<noteq> None"
  proof (cases "?sz \<ge> sb_size sb - sb_length sb")
    case True
    have le: "sb_length sb \<le> sb_size sb" using ok by (auto simp: sb_inv_def word_le_nat_alt)
    have "unat (sb_size sb) \<le> 2 ^ 62"
      using True l unfolding word_le_nat_alt by (simp add: unat_sub [OF le])
    moreover have "unat (STRBUFFER_SIZE_MAX div STRBUFFER_FACTOR) = 2 ^ 63 - 1"
      by (simp add: size_max STRBUFFER_FACTOR_def unat_div)
    ultimately have a: "\<not> sb_size sb > STRBUFFER_SIZE_MAX div STRBUFFER_FACTOR"
      by (simp add: word_less_nat_alt)
    have b: "\<not> ?sz > STRBUFFER_SIZE_MAX - 1" using l by (simp add: word_less_nat_alt size_max)
    then have "unat (STRBUFFER_SIZE_MAX - 1 - ?sz) = 2 ^ 64 - 2 - unat ?sz"
      by (simp add: unat_sub size_max not_less)
    then have c: "\<not> sb_length sb > STRBUFFER_SIZE_MAX - 1 - ?sz"
      using l by (simp add: word_less_nat_alt)
    let ?n = "max (sb_size sb * STRBUFFER_FACTOR) (sb_length sb + ?sz + 1)"
    have "unat (sb_length sb + ?sz + 1) = unat (sb_length sb) + unat ?sz + 1"
      by (rule grow_guard_unat) (simp add: b c)
    then have "sb_length sb + ?sz + 1 > 0" by (simp add: word_gt_0 flip: unat_gt_0)
    then have "?n \<noteq> 0" by (metis less_max_iff_disj word_gt_0)
    with m have "jsonp_malloc do_malloc ?n \<noteq> None" by (simp add: malloc_total_def jsonp_malloc_def)
    with a b c True show ?thesis by (auto simp: strbuffer_grow_def Let_def)
  qed (simp add: strbuffer_grow_def)
  then show ?thesis by (auto simp: strbuffer_append_bytes_def Let_def)
qed

lemma cstr_append_nul: "cstr (s @ 0 # r) = cstr s"
  by (induction s) (simp_all add: cstr_def)

lemma jsonp_strdup_total:
  assumes m: "malloc_total do_malloc" and l: "length (cstr v) < 2 ^ 63"
  shows "\<exists>blk. jsonp_strdup do_malloc v = Some blk \<and> cstr blk = cstr v"
proof -
  let ?len = "of_nat (length (cstr v)) :: size_t"
  have n: "unat ?len = length (cstr v)" using l by (simp add: unat_of_nat)
  then have n1: "unat (?len + 1) = length (cstr v) + 1" using l by (simp add: unat_word_ariths)
  then have "?len + 1 \<noteq> 0" by (metis add_is_0 one_neq_zero unat_0)
  with m obtain b where b: "do_malloc (?len + 1) = Some b" "length b = length (cstr v) + 1"
    using n1 unfolding malloc_total_def malloc_ok_def by (metis not_None_eq)
  have t: "take (length (cstr v)) v = cstr v"
    unfolding cstr_def by (rule takeWhile_eq_take [symmetric])
  obtain x where "drop (length (cstr v)) b = [x]"
    using b(2) by (cases "drop (length (cstr v)) b") (auto dest: arg_cong [of _ _ length])
  then have "(take (length (cstr v)) v @ drop (length (cstr v)) b)[length (cstr v) := 0] = cstr v @ 0 # []"
    by (simp add: t)
  moreover have "cstr (cstr v @ 0 # []) = cstr v" by (simp add: cstr_append_nul cstr_id cstr_no_nul)
  ultimately show ?thesis
    using b(1) \<open>?len + 1 \<noteq> 0\<close> by (simp add: jsonp_strdup_def jsonp_strndup_def jsonp_malloc_def n)
qed

end
