(* ===== verification/Hashtable.thy ===== *)
theory Hashtable
  imports JsonData Strbuffer
begin

text \<open>
  The hash table of \<^verbatim>\<open>src/jansson/src/hashtable.c\<close>. A pair is named by its index in
  \<open>ht_pairs\<close> (\<open>None\<close> there: freed). The two rings of pairs, \<open>list\<close> and \<open>ordered_list\<close>, are the
  sequences of pairs met from the header on; as a position, \<open>None\<close> is the header itself. A
  bucket is the pair of its \<open>first\<close> and \<open>last\<close> positions in \<open>list\<close>: the pairs of a bucket are
  neighbours there. The hash function and the allocator (does an allocation of that size
  succeed?) are arguments. Values that the code passes to \<open>json_decref\<close> are returned to the
  caller.
\<close>

subsection \<open>State\<close>

record 'v hpair =
  hp_hash :: size_t
  hp_key :: bytes
  hp_value :: 'v

record 'v hashtable =
  ht_size :: nat
  ht_buckets :: "(nat option \<times> nat option) list"
  ht_order :: nat
  ht_list :: "nat list"
  ht_ordered :: "nat list"
  ht_pairs :: "'v hpair option list"

definition INITIAL_HASHTABLE_ORDER :: nat where "INITIAL_HASHTABLE_ORDER = 3"

definition hashsize :: "nat \<Rightarrow> size_t" where "hashsize n = push_bit n 1"
definition hashmask :: "nat \<Rightarrow> size_t" where "hashmask n = hashsize n - 1"

definition alloc_ok :: "(size_t \<Rightarrow> bool) \<Rightarrow> size_t \<Rightarrow> bool" where
  "alloc_ok mem n \<longleftrightarrow> n \<noteq> 0 \<and> mem n"

subsection \<open>Rings\<close>

definition list_insert :: "nat list \<Rightarrow> nat option \<Rightarrow> nat \<Rightarrow> nat list" where
  "list_insert ring pos n = takeWhile (\<lambda>x. Some x \<noteq> pos) ring @ n # dropWhile (\<lambda>x. Some x \<noteq> pos) ring"

definition list_remove :: "nat list \<Rightarrow> nat \<Rightarrow> nat list" where
  "list_remove ring n = remove1 n ring"

definition list_next :: "nat list \<Rightarrow> nat \<Rightarrow> nat option" where
  "list_next ring n = (case drop 1 (dropWhile (\<lambda>x. x \<noteq> n) ring) of [] \<Rightarrow> None | x # _ \<Rightarrow> Some x)"

definition list_prev :: "nat list \<Rightarrow> nat \<Rightarrow> nat option" where
  "list_prev ring n = (case rev (takeWhile (\<lambda>x. x \<noteq> n) ring) of [] \<Rightarrow> None | x # _ \<Rightarrow> Some x)"

subsection \<open>Buckets\<close>

definition bucket_is_empty :: "nat option \<times> nat option \<Rightarrow> bool" where
  "bucket_is_empty bucket \<longleftrightarrow> fst bucket = None \<and> fst bucket = snd bucket"

definition insert_to_bucket :: "'v hashtable \<Rightarrow> nat \<Rightarrow> nat \<Rightarrow> 'v hashtable" where
  "insert_to_bucket ht index n =
     (let bucket = ht_buckets ht ! index in
      if bucket_is_empty bucket
      then ht\<lparr>ht_list := list_insert (ht_list ht) None n,
              ht_buckets := (ht_buckets ht)[index := (Some n, Some n)]\<rparr>
      else ht\<lparr>ht_list := list_insert (ht_list ht) (fst bucket) n,
              ht_buckets := (ht_buckets ht)[index := (Some n, snd bucket)]\<rparr>)"

definition pair_of :: "'v hashtable \<Rightarrow> nat \<Rightarrow> 'v hpair" where
  "pair_of ht n = the (ht_pairs ht ! n)"

text \<open>The loop of \<open>hashtable_find_pair\<close> along the ring, from \<open>bucket->first\<close> to \<open>bucket->last\<close>.\<close>

fun find_loop :: "(nat \<Rightarrow> 'v hpair) \<Rightarrow> nat list \<Rightarrow> nat option \<Rightarrow> bytes \<Rightarrow> size_t \<Rightarrow> nat option" where
  "find_loop pair [] lst key hash = None"
| "find_loop pair (n # rest) lst key hash =
     (if hp_hash (pair n) = hash \<and> hp_key (pair n) = key then Some n
      else if Some n = lst then None
      else find_loop pair rest lst key hash)"

definition hashtable_find_pair ::
    "'v hashtable \<Rightarrow> nat option \<times> nat option \<Rightarrow> bytes \<Rightarrow> size_t \<Rightarrow> nat option" where
  "hashtable_find_pair ht bucket key hash =
     (if bucket_is_empty bucket then None
      else find_loop (pair_of ht) (dropWhile (\<lambda>x. Some x \<noteq> fst bucket) (ht_list ht)) (snd bucket) key hash)"

subsection \<open>Operations\<close>

definition hashtable_init :: "(size_t \<Rightarrow> bool) \<Rightarrow> 'v hashtable option" where
  "hashtable_init mem =
     (if alloc_ok mem (hashsize INITIAL_HASHTABLE_ORDER * 16)
      then Some \<lparr>ht_size = 0, ht_buckets = replicate (2 ^ INITIAL_HASHTABLE_ORDER) (None, None),
                 ht_order = INITIAL_HASHTABLE_ORDER, ht_list = [], ht_ordered = [], ht_pairs = []\<rparr>
      else None)"

definition hashtable_do_rehash :: "(size_t \<Rightarrow> bool) \<Rightarrow> 'v hashtable \<Rightarrow> int \<times> 'v hashtable" where
  "hashtable_do_rehash mem ht =
     (let new_order = ht_order ht + 1; new_size = hashsize new_order in
      if \<not> alloc_ok mem (new_size * 16) then (-1, ht)
      else (0, foldl (\<lambda>t n. insert_to_bucket t (unat (hp_hash (pair_of t n) mod new_size)) n)
                 (ht\<lparr>ht_buckets := replicate (unat new_size) (None, None), ht_order := new_order, ht_list := []\<rparr>)
                 (ht_list ht)))"

definition OFFSETOF_KEY :: size_t where "OFFSETOF_KEY = 56"

definition init_pair :: "(size_t \<Rightarrow> bool) \<Rightarrow> 'v \<Rightarrow> bytes \<Rightarrow> size_t \<Rightarrow> 'v hpair option" where
  "init_pair mem v key hash =
     (let key_len = of_nat (length key) in
      if key_len \<ge> - 1 - OFFSETOF_KEY then None
      else if \<not> alloc_ok mem (OFFSETOF_KEY + key_len + 1) then None
      else Some \<lparr>hp_hash = hash, hp_key = key, hp_value = v\<rparr>)"

definition ht_index :: "'v hashtable \<Rightarrow> size_t \<Rightarrow> nat" where
  "ht_index ht hash = unat (hash AND hashmask (ht_order ht))"

text \<open>Status, new table and the value to be released (the one replaced).\<close>

definition hashtable_set ::
    "(bytes \<Rightarrow> size_t) \<Rightarrow> (size_t \<Rightarrow> bool) \<Rightarrow> 'v hashtable \<Rightarrow> bytes \<Rightarrow> 'v \<Rightarrow> int \<times> 'v hashtable \<times> 'v option" where
  "hashtable_set hash_str mem ht0 key v =
     (let (r, ht) = (if ht_size ht0 \<ge> unat (hashsize (ht_order ht0)) then hashtable_do_rehash mem ht0 else (0, ht0)) in
      if r \<noteq> 0 then (-1, ht, None)
      else
        let hash = hash_str key; index = ht_index ht hash in
        case hashtable_find_pair ht (ht_buckets ht ! index) key hash of
          Some n \<Rightarrow>
            (0, ht\<lparr>ht_pairs := (ht_pairs ht)[n := Some ((pair_of ht n)\<lparr>hp_value := v\<rparr>)]\<rparr>, Some (hp_value (pair_of ht n)))
        | None \<Rightarrow>
            (case init_pair mem v key hash of
               None \<Rightarrow> (-1, ht, None)
             | Some p \<Rightarrow>
                 let n = length (ht_pairs ht);
                     t = insert_to_bucket (ht\<lparr>ht_pairs := ht_pairs ht @ [Some p]\<rparr>) index n
                 in (0, t\<lparr>ht_ordered := list_insert (ht_ordered t) None n, ht_size := ht_size t + 1\<rparr>, None)))"

definition hashtable_get :: "(bytes \<Rightarrow> size_t) \<Rightarrow> 'v hashtable \<Rightarrow> bytes \<Rightarrow> 'v option" where
  "hashtable_get hash_str ht key =
     (let hash = hash_str key in
      map_option (\<lambda>n. hp_value (pair_of ht n))
        (hashtable_find_pair ht (ht_buckets ht ! ht_index ht hash) key hash))"

definition hashtable_do_del :: "'v hashtable \<Rightarrow> bytes \<Rightarrow> size_t \<Rightarrow> int \<times> 'v hashtable \<times> 'v option" where
  "hashtable_do_del ht key hash =
     (let index = ht_index ht hash; bucket = ht_buckets ht ! index in
      case hashtable_find_pair ht bucket key hash of
        None \<Rightarrow> (-1, ht, None)
      | Some n \<Rightarrow>
          let bucket' =
                (if Some n = fst bucket \<and> Some n = snd bucket then (None, None)
                 else if Some n = fst bucket then (list_next (ht_list ht) n, snd bucket)
                 else if Some n = snd bucket then (fst bucket, list_prev (ht_list ht) n)
                 else bucket)
          in (0, ht\<lparr>ht_buckets := (ht_buckets ht)[index := bucket'],
                    ht_list := list_remove (ht_list ht) n,
                    ht_ordered := list_remove (ht_ordered ht) n,
                    ht_pairs := (ht_pairs ht)[n := None],
                    ht_size := ht_size ht - 1\<rparr>,
              Some (hp_value (pair_of ht n))))"

definition hashtable_del :: "(bytes \<Rightarrow> size_t) \<Rightarrow> 'v hashtable \<Rightarrow> bytes \<Rightarrow> int \<times> 'v hashtable \<times> 'v option" where
  "hashtable_del hash_str ht key = hashtable_do_del ht key (hash_str key)"

text \<open>The values released, in the order of the ring.\<close>

definition hashtable_do_clear :: "'v hashtable \<Rightarrow> 'v list" where
  "hashtable_do_clear ht = map (\<lambda>n. hp_value (pair_of ht n)) (ht_list ht)"

definition hashtable_close :: "'v hashtable \<Rightarrow> 'v list" where
  "hashtable_close ht = hashtable_do_clear ht"

definition hashtable_clear :: "'v hashtable \<Rightarrow> 'v hashtable \<times> 'v list" where
  "hashtable_clear ht =
     (ht\<lparr>ht_buckets := replicate (unat (hashsize (ht_order ht))) (None, None), ht_list := [], ht_ordered := [],
         ht_pairs := map (\<lambda>_. None) (ht_pairs ht), ht_size := 0\<rparr>,
      hashtable_do_clear ht)"

subsection \<open>Iteration\<close>

text \<open>An iterator is a position in \<open>ordered_list\<close>; \<open>None\<close> as a result is NULL.\<close>

definition hashtable_iter_next :: "'v hashtable \<Rightarrow> nat option \<Rightarrow> nat option" where
  "hashtable_iter_next ht iter =
     (case iter of None \<Rightarrow> (case ht_ordered ht of [] \<Rightarrow> None | n # _ \<Rightarrow> Some n)
      | Some n \<Rightarrow> list_next (ht_ordered ht) n)"

definition hashtable_iter :: "'v hashtable \<Rightarrow> nat option" where
  "hashtable_iter ht = hashtable_iter_next ht None"

definition hashtable_iter_at :: "(bytes \<Rightarrow> size_t) \<Rightarrow> 'v hashtable \<Rightarrow> bytes \<Rightarrow> nat option" where
  "hashtable_iter_at hash_str ht key =
     (let hash = hash_str key in hashtable_find_pair ht (ht_buckets ht ! ht_index ht hash) key hash)"

definition hashtable_iter_key :: "'v hashtable \<Rightarrow> nat \<Rightarrow> bytes" where
  "hashtable_iter_key ht iter = hp_key (pair_of ht iter)"

definition hashtable_iter_key_len :: "'v hashtable \<Rightarrow> nat \<Rightarrow> nat" where
  "hashtable_iter_key_len ht iter = length (hp_key (pair_of ht iter))"

definition hashtable_iter_value :: "'v hashtable \<Rightarrow> nat \<Rightarrow> 'v" where
  "hashtable_iter_value ht iter = hp_value (pair_of ht iter)"

definition hashtable_iter_set :: "'v hashtable \<Rightarrow> nat \<Rightarrow> 'v \<Rightarrow> 'v hashtable \<times> 'v" where
  "hashtable_iter_set ht iter v =
     (ht\<lparr>ht_pairs := (ht_pairs ht)[iter := Some ((pair_of ht iter)\<lparr>hp_value := v\<rparr>)]\<rparr>, hp_value (pair_of ht iter))"

end
