(* ===== verification/Ring.thy ===== *)
theory Ring
  imports Hashtable
begin

text \<open>
  Sequences in which the elements of a class are neighbours, as the pairs of a bucket are in
  the ring \<open>list\<close> of the hash table.
\<close>

definition group :: "('a \<Rightarrow> 'b) \<Rightarrow> 'b \<Rightarrow> 'a list \<Rightarrow> bool" where
  "group k i g \<longleftrightarrow> g \<noteq> [] \<and> (\<forall>x\<in>set g. k x = i)"

definition grouped :: "('a \<Rightarrow> 'b) \<Rightarrow> 'a list \<Rightarrow> bool" where
  "grouped k xs \<longleftrightarrow> (\<exists>gs. xs = concat (map snd gs) \<and> (\<forall>g\<in>set gs. group k (fst g) (snd g)) \<and> distinct (map fst gs))"

lemma grouped_Nil [simp]: "grouped k []"
  unfolding grouped_def by (rule exI [of _ "[]"]) simp

lemma groupedE:
  assumes "grouped k xs"
  obtains gs where "xs = concat (map snd gs)" "\<forall>g\<in>set gs. group k (fst g) (snd g)" "distinct (map fst gs)"
  using assms unfolding grouped_def by blast

lemma grouped_snoc:
  assumes "grouped k xs" "\<forall>x\<in>set xs. k x \<noteq> k n"
  shows "grouped k (xs @ [n])"
proof -
  from assms(1) obtain gs where gs: "xs = concat (map snd gs)" "\<forall>g\<in>set gs. group k (fst g) (snd g)"
      "distinct (map fst gs)" by (rule groupedE)
  have "k n \<notin> fst ` set gs"
  proof
    assume "k n \<in> fst ` set gs"
    then obtain g where g: "g \<in> set gs" "k n = fst g" by auto
    with gs(2) obtain x where "x \<in> set (snd g)" "k x = k n" by (force simp: group_def neq_Nil_conv)
    with g gs(1) assms(2) show False by auto
  qed
  with gs show ?thesis
    unfolding grouped_def by (intro exI [of _ "gs @ [(k n, [n])]"]) (auto simp: group_def)
qed

text \<open>Around the class of an element: what stands before and after it, and any replacement.\<close>

lemma grouped_split:
  assumes "grouped k xs" "x \<in> set xs"
  obtains pre post where "xs = pre @ filter (\<lambda>y. k y = k x) xs @ post"
    "\<forall>y\<in>set pre \<union> set post. k y \<noteq> k x"
    "\<And>g. \<forall>y\<in>set g. k y = k x \<Longrightarrow> grouped k (pre @ g @ post)"
proof -
  from assms(1) obtain gs where gs: "xs = concat (map snd gs)" "\<forall>g\<in>set gs. group k (fst g) (snd g)"
      "distinct (map fst gs)" by (rule groupedE)
  from assms(2) gs(1) obtain i g where g: "(i, g) \<in> set gs" "x \<in> set g" by auto
  then obtain a b where ab: "gs = a @ (i, g) # b" by (meson split_list)
  have i: "i = k x" "group k i g" using gs(2) g by (auto simp: group_def)
  let ?pre = "concat (map snd a)" and ?post = "concat (map snd b)"
  have "k x \<notin> fst ` (set a \<union> set b)" using gs(3) i(1) ab by auto
  moreover have "k y \<in> fst ` (set a \<union> set b)" if "y \<in> set ?pre \<union> set ?post" for y
  proof -
    from that obtain h where h: "h \<in> set a \<union> set b" "y \<in> set (snd h)" by auto
    then have "k y = fst h" using gs(2) ab by (auto simp: group_def)
    with h(1) show ?thesis by (metis image_eqI)
  qed
  ultimately have no: "\<forall>y\<in>set ?pre \<union> set ?post. k y \<noteq> k x" by metis
  have "filter (\<lambda>y. k y = k x) ?pre = []" "filter (\<lambda>y. k y = k x) ?post = []" "filter (\<lambda>y. k y = k x) g = g"
    using no i by (auto simp: filter_empty_conv group_def intro!: filter_True)
  then have fl: "filter (\<lambda>y. k y = k x) xs = g" by (simp add: gs(1) ab)
  have "grouped k (?pre @ g' @ ?post)" if g': "\<forall>y\<in>set g'. k y = k x" for g'
  proof (cases "g' = []")
    case True
    with gs(2,3) ab show ?thesis unfolding grouped_def by (intro exI [of _ "a @ b"]) simp
  next
    case False
    with g' i(1) have "group k i g'" by (simp add: group_def)
    with gs(2,3) ab show ?thesis unfolding grouped_def by (intro exI [of _ "a @ (i, g') # b"]) simp
  qed
  with that [of ?pre ?post] fl no gs(1) ab show ?thesis by simp
qed

lemma grouped_cong: "grouped k xs \<Longrightarrow> \<forall>x\<in>set xs. k' x = k x \<Longrightarrow> grouped k' xs"
proof -
  assume g: "grouped k xs" and c: "\<forall>x\<in>set xs. k' x = k x"
  from g obtain gs where gs: "xs = concat (map snd gs)" "\<forall>g\<in>set gs. group k (fst g) (snd g)"
      "distinct (map fst gs)" by (rule groupedE)
  have "\<forall>g\<in>set gs. group k' (fst g) (snd g)" using gs(1,2) c by (auto simp: group_def)
  with gs show ?thesis unfolding grouped_def by blast
qed

lemma takeWhile_before: "x \<notin> set pre \<Longrightarrow> takeWhile (\<lambda>y. y \<noteq> x) (pre @ x # post) = pre"
  by (induction pre) auto

lemma dropWhile_before: "x \<notin> set pre \<Longrightarrow> dropWhile (\<lambda>y. y \<noteq> x) (pre @ x # post) = x # post"
  by (induction pre) auto

lemma list_insert_end [simp]: "list_insert xs None n = xs @ [n]"
  by (simp add: list_insert_def)

lemma list_insert_before: "x \<notin> set pre \<Longrightarrow> list_insert (pre @ x # post) (Some x) n = pre @ n # x # post"
  by (simp add: list_insert_def takeWhile_before dropWhile_before)

lemma list_next_mid: "x \<notin> set pre \<Longrightarrow> list_next (pre @ x # y # post) x = Some y"
  by (simp add: list_next_def dropWhile_before)

lemma list_prev_mid: "x \<notin> set pre \<Longrightarrow> list_prev (pre @ x # post) x = (if pre = [] then None else Some (last pre))"
  by (simp add: list_prev_def takeWhile_before, cases pre rule: rev_cases) simp_all

end
