(* ===== verification/HashtableInv.thy ===== *)
theory HashtableInv
  imports Ring
begin

text \<open>
  The hash table implements an ordered association list: its invariant, that every operation
  keeps it, and what each operation does to the list of entries.
\<close>

subsection \<open>Invariant\<close>

definition node_index :: "'v hashtable \<Rightarrow> nat \<Rightarrow> nat" where
  "node_index ht n = ht_index ht (hp_hash (pair_of ht n))"

definition seg :: "'v hashtable \<Rightarrow> nat \<Rightarrow> nat list" where
  "seg ht i = filter (\<lambda>n. node_index ht n = i) (ht_list ht)"

definition ends :: "nat list \<Rightarrow> nat option \<times> nat option" where
  "ends xs = (if xs = [] then (None, None) else (Some (hd xs), Some (last xs)))"

definition bucket_inv :: "'v hashtable \<Rightarrow> bool" where
  "bucket_inv ht \<longleftrightarrow> ht_order ht < 60 \<and> length (ht_buckets ht) = 2 ^ ht_order ht \<and> distinct (ht_list ht) \<and>
     grouped (node_index ht) (ht_list ht) \<and> (\<forall>i<2 ^ ht_order ht. ht_buckets ht ! i = ends (seg ht i))"

definition pairs_inv :: "(bytes \<Rightarrow> size_t) \<Rightarrow> 'v hashtable \<Rightarrow> bool" where
  "pairs_inv hash_str ht \<longleftrightarrow> distinct (ht_ordered ht) \<and> set (ht_ordered ht) = set (ht_list ht) \<and>
     ht_size ht = length (ht_ordered ht) \<and>
     (\<forall>n\<in>set (ht_list ht). n < length (ht_pairs ht) \<and> ht_pairs ht ! n \<noteq> None \<and>
        hp_hash (pair_of ht n) = hash_str (hp_key (pair_of ht n))) \<and>
     inj_on (\<lambda>n. hp_key (pair_of ht n)) (set (ht_list ht))"

definition ht_inv :: "(bytes \<Rightarrow> size_t) \<Rightarrow> 'v hashtable \<Rightarrow> bool" where
  "ht_inv hash_str ht \<longleftrightarrow> bucket_inv ht \<and> pairs_inv hash_str ht"

definition entries :: "'v hashtable \<Rightarrow> (bytes \<times> 'v) list" where
  "entries ht = map (\<lambda>n. (hp_key (pair_of ht n), hp_value (pair_of ht n))) (ht_ordered ht)"

subsection \<open>Sizes\<close>

lemma unat_hashsize: "n < 64 \<Longrightarrow> unat (hashsize n) = 2 ^ n"
proof -
  assume n: "n < 64"
  have "(2::nat) ^ n < 2 ^ 64" using power_strict_increasing [OF n, of "2::nat"] by simp
  then have "unat (of_nat (2 ^ n) :: size_t) = 2 ^ n" by (simp only: unat_of_nat) simp
  then show ?thesis by (simp add: hashsize_def push_bit_eq_mult)
qed

lemma ht_index_mod: "ht_order ht < 64 \<Longrightarrow> ht_index ht h = unat h mod 2 ^ ht_order ht"
proof -
  assume o: "ht_order ht < 64"
  have "h AND hashmask (ht_order ht) = take_bit (ht_order ht) h"
    by (simp add: hashmask_def hashsize_def take_bit_eq_mask mask_eq_exp_minus_1 push_bit_eq_mult)
  then show ?thesis by (simp add: ht_index_def unsigned_take_bit_eq flip: take_bit_eq_mod)
qed

lemma ht_index_less: "ht_order ht < 64 \<Longrightarrow> ht_index ht h < 2 ^ ht_order ht"
  by (simp add: ht_index_mod)

lemma rehash_index: "n < 64 \<Longrightarrow> unat (h mod hashsize n) = unat h mod 2 ^ n"
  by (simp add: unat_mod unat_hashsize)

lemma order_fits: "alloc_ok mem (hashsize n * 16) \<Longrightarrow> n < 60"
proof (rule ccontr)
  assume a: "alloc_ok mem (hashsize n * 16)" "\<not> n < 60"
  have "hashsize n * 16 = push_bit (n + 4) 1" by (simp add: hashsize_def push_bit_eq_mult power_add)
  also have "\<dots> = (0 :: size_t)" using a(2) by (simp add: push_bit_eq_mult exp_eq_zero_iff)
  finally show False using a(1) by (simp add: alloc_ok_def)
qed

subsection \<open>Finding a pair\<close>

lemma find_loop_seg:
  "s \<noteq> [] \<Longrightarrow> distinct s \<Longrightarrow> find_loop pair (s @ post) (Some (last s)) key hash =
     find (\<lambda>n. hp_hash (pair n) = hash \<and> hp_key (pair n) = key) s"
  by (induction s) auto

lemma seg_split:
  assumes "bucket_inv ht" "seg ht i \<noteq> []"
  obtains pre post where "ht_list ht = pre @ seg ht i @ post" "\<forall>y\<in>set pre \<union> set post. node_index ht y \<noteq> i"
    "\<And>g. \<forall>y\<in>set g. node_index ht y = i \<Longrightarrow> grouped (node_index ht) (pre @ g @ post)"
proof -
  from assms(2) obtain x where "x \<in> set (ht_list ht)" "node_index ht x = i"
    by (auto simp: seg_def filter_empty_conv)
  with grouped_split [of "node_index ht" "ht_list ht" x] assms(1) that show ?thesis
    by (auto simp: bucket_inv_def seg_def)
qed

lemma seg_distinct: "bucket_inv ht \<Longrightarrow> distinct (seg ht i)"
  by (simp add: bucket_inv_def seg_def)

lemma find_pair_seg:
  assumes "bucket_inv ht" "i < 2 ^ ht_order ht"
  shows "hashtable_find_pair ht (ht_buckets ht ! i) key hash =
    find (\<lambda>n. hp_hash (pair_of ht n) = hash \<and> hp_key (pair_of ht n) = key) (seg ht i)"
proof (cases "seg ht i = []")
  case True
  with assms show ?thesis by (simp add: bucket_inv_def ends_def hashtable_find_pair_def bucket_is_empty_def)
next
  case False
  obtain pre post where sp: "ht_list ht = pre @ seg ht i @ post" "\<forall>y\<in>set pre \<union> set post. node_index ht y \<noteq> i"
    using seg_split [OF assms(1) False] by metis
  obtain f fs where f: "seg ht i = f # fs" using False by (cases "seg ht i") auto
  then have "node_index ht f = i" by (metis (mono_tags) filter_eq_ConsD seg_def)
  with sp(2) have "f \<notin> set pre" by auto
  then have "dropWhile (\<lambda>x. x \<noteq> f) (ht_list ht) = seg ht i @ post" by (simp add: sp(1) f dropWhile_before)
  moreover have "ht_buckets ht ! i = (Some f, Some (last (seg ht i)))"
    using assms f by (simp add: bucket_inv_def ends_def)
  ultimately show ?thesis
    using find_loop_seg [OF False seg_distinct [OF assms(1)]]
    by (simp add: hashtable_find_pair_def bucket_is_empty_def)
qed


lemma node_index_less: "bucket_inv ht \<Longrightarrow> node_index ht n < 2 ^ ht_order ht"
  using ht_index_less [of ht] by (simp add: bucket_inv_def node_index_def)

lemma find_pair_correct:
  assumes "ht_inv hash_str ht"
  shows "hashtable_find_pair ht (ht_buckets ht ! ht_index ht (hash_str key)) key (hash_str key) = Some n \<longleftrightarrow>
    n \<in> set (ht_list ht) \<and> hp_key (pair_of ht n) = key" (is "?f = _ \<longleftrightarrow> _")
proof -
  let ?i = "ht_index ht (hash_str key)"
  let ?P = "\<lambda>n. hp_hash (pair_of ht n) = hash_str key \<and> hp_key (pair_of ht n) = key"
  have b: "bucket_inv ht" and p: "\<And>n. n \<in> set (ht_list ht) \<Longrightarrow> hp_hash (pair_of ht n) = hash_str (hp_key (pair_of ht n))"
    and inj: "inj_on (\<lambda>n. hp_key (pair_of ht n)) (set (ht_list ht))"
    using assms by (auto simp: ht_inv_def pairs_inv_def)
  have f: "?f = find ?P (seg ht ?i)"
    using find_pair_seg [OF b ht_index_less] b by (simp add: bucket_inv_def)
  have s: "m \<in> set (seg ht ?i) \<longleftrightarrow> m \<in> set (ht_list ht) \<and> node_index ht m = ?i" for m
    by (auto simp: seg_def)
  have k: "m \<in> set (ht_list ht) \<Longrightarrow> hp_key (pair_of ht m) = key \<Longrightarrow> m \<in> set (seg ht ?i) \<and> ?P m" for m
    using p by (simp add: s node_index_def)
  show ?thesis
  proof
    assume "?f = Some n"
    then have "n \<in> set (seg ht ?i) \<and> ?P n" by (auto simp: f find_Some_iff)
    then show "n \<in> set (ht_list ht) \<and> hp_key (pair_of ht n) = key" by (simp add: s)
  next
    assume n: "n \<in> set (ht_list ht) \<and> hp_key (pair_of ht n) = key"
    then obtain m where m: "find ?P (seg ht ?i) = Some m"
      using k [of n] by (cases "find ?P (seg ht ?i)") (auto simp: find_None_iff)
    then have "m \<in> set (seg ht ?i) \<and> ?P m" by (auto simp: find_Some_iff)
    with n inj have "m = n" by (auto simp: s inj_on_def)
    with m f show "?f = Some n" by simp
  qed
qed

lemma find_pair_None:
  assumes "ht_inv hash_str ht"
  shows "hashtable_find_pair ht (ht_buckets ht ! ht_index ht (hash_str key)) key (hash_str key) = None \<longleftrightarrow>
    (\<forall>n\<in>set (ht_list ht). hp_key (pair_of ht n) \<noteq> key)"
  using find_pair_correct [OF assms, of key] by (metis not_None_eq)

lemma entries_keys: "map fst (entries ht) = map (\<lambda>n. hp_key (pair_of ht n)) (ht_ordered ht)"
  by (simp add: entries_def comp_def)

lemma entries_distinct: "ht_inv hash_str ht \<Longrightarrow> distinct (map fst (entries ht))"
  by (auto simp: entries_keys distinct_map ht_inv_def pairs_inv_def)

lemma entries_map_of:
  assumes "ht_inv hash_str ht" "n \<in> set (ht_list ht)"
  shows "map_of (entries ht) (hp_key (pair_of ht n)) = Some (hp_value (pair_of ht n))"
  using assms entries_distinct [OF assms(1)]
  by (intro map_of_is_SomeI) (auto simp: entries_def ht_inv_def pairs_inv_def)

lemma hashtable_get_entries:
  assumes "ht_inv hash_str ht"
  shows "hashtable_get hash_str ht key = map_of (entries ht) key"
proof (cases "\<exists>n\<in>set (ht_list ht). hp_key (pair_of ht n) = key")
  case True
  then obtain n where n: "n \<in> set (ht_list ht)" "hp_key (pair_of ht n) = key" by blast
  with find_pair_correct [OF assms, of key n] entries_map_of [OF assms n(1)] show ?thesis
    by (simp add: hashtable_get_def Let_def)
next
  case False
  then have "hashtable_find_pair ht (ht_buckets ht ! ht_index ht (hash_str key)) key (hash_str key) = None"
    by (simp add: find_pair_None [OF assms])
  moreover have "key \<notin> fst ` set (entries ht)"
    using False assms by (auto simp: entries_def ht_inv_def pairs_inv_def)
  then have "map_of (entries ht) key = None" by (simp add: map_of_eq_None_iff)
  ultimately show ?thesis by (simp add: hashtable_get_def Let_def)
qed

subsection \<open>Inserting into a bucket\<close>

lemma insert_to_bucket_simps [simp]:
  "ht_order (insert_to_bucket ht i n) = ht_order ht" "ht_pairs (insert_to_bucket ht i n) = ht_pairs ht"
  "ht_ordered (insert_to_bucket ht i n) = ht_ordered ht" "ht_size (insert_to_bucket ht i n) = ht_size ht"
  by (simp_all add: insert_to_bucket_def Let_def)

lemma node_index_cong:
  "ht_order t = ht_order ht \<Longrightarrow> ht_pairs t = ht_pairs ht \<Longrightarrow> node_index t = node_index ht"
  by (rule ext) (simp add: node_index_def ht_index_def pair_of_def)

lemma insert_to_bucket_inv:
  assumes b: "bucket_inv ht" and n: "n \<notin> set (ht_list ht)"
  shows "bucket_inv (insert_to_bucket ht (node_index ht n) n) \<and>
    set (ht_list (insert_to_bucket ht (node_index ht n) n)) = insert n (set (ht_list ht))"
proof -
  let ?i = "node_index ht n" and ?t = "insert_to_bucket ht (node_index ht n) n"
  have ni: "node_index ?t = node_index ht" by (rule node_index_cong) simp_all
  have i: "?i < 2 ^ ht_order ht" "?i < length (ht_buckets ht)"
    using node_index_less [OF b] b by (simp_all add: bucket_inv_def)
  have bk: "ht_buckets ht ! ?i = ends (seg ht ?i)" using b i by (simp add: bucket_inv_def)
  show ?thesis
  proof (cases "seg ht ?i = []")
    case True
    then have l: "ht_list ?t = ht_list ht @ [n]" and bs: "ht_buckets ?t = (ht_buckets ht)[?i := (Some n, Some n)]"
      using bk by (simp_all add: insert_to_bucket_def ends_def bucket_is_empty_def)
    have "\<forall>x\<in>set (ht_list ht). node_index ht x \<noteq> ?i" using True by (auto simp: seg_def filter_empty_conv)
    then have "grouped (node_index ht) (ht_list ht @ [n])"
      using b by (intro grouped_snoc) (simp_all add: bucket_inv_def)
    moreover have "seg ?t j = (if j = ?i then [n] else seg ht j)" for j
      using True by (simp add: seg_def l ni)
    ultimately show ?thesis
      using b n i by (auto simp: bucket_inv_def l bs ni ends_def nth_list_update)
  next
    case False
    obtain pre post where sp: "ht_list ht = pre @ seg ht ?i @ post" "\<forall>y\<in>set pre \<union> set post. node_index ht y \<noteq> ?i"
      "\<And>g. \<forall>y\<in>set g. node_index ht y = ?i \<Longrightarrow> grouped (node_index ht) (pre @ g @ post)"
      using seg_split [OF b False] by metis
    obtain f fs where f: "seg ht ?i = f # fs" using False by (cases "seg ht ?i") auto
    have l0: "ht_list ht = pre @ f # fs @ post" using sp(1) unfolding f by simp
    have sf: "\<forall>y\<in>set (f # fs). node_index ht y = ?i" unfolding f [symmetric] by (auto simp: seg_def)
    then have fp: "f \<notin> set pre" using sp(2) by auto
    have e: "ht_buckets ht ! ?i = (Some f, Some (last (f # fs)))" using bk f by (simp add: ends_def)
    have l: "ht_list ?t = pre @ n # f # fs @ post"
      using e fp by (simp add: insert_to_bucket_def bucket_is_empty_def l0 list_insert_before)
    have bs: "ht_buckets ?t = (ht_buckets ht)[?i := (Some n, Some (last (f # fs)))]"
      using e by (simp add: insert_to_bucket_def bucket_is_empty_def)
    have "grouped (node_index ht) (ht_list ?t)" using sp(3) [of "n # f # fs"] sf by (simp add: l)
    moreover have sg: "seg ?t j = (if j = ?i then n # f # fs else seg ht j)" for j
    proof (cases "j = ?i")
      case True
      then show ?thesis using sp(2) sf by (auto simp: seg_def l ni filter_empty_conv intro!: filter_True)
    next
      case False
      then show ?thesis by (simp add: seg_def l ni l0)
    qed
    moreover have "distinct (ht_list ?t)" using b n by (auto simp: bucket_inv_def l l0)
    moreover have "set (ht_list ?t) = insert n (set (ht_list ht))" by (auto simp: l l0)
    ultimately show ?thesis
      using b i by (simp add: bucket_inv_def bs ni ends_def nth_list_update)
  qed
qed


lemma bucket_inv_cong:
  assumes "bucket_inv ht" "ht_order t = ht_order ht" "ht_list t = ht_list ht" "ht_buckets t = ht_buckets ht"
    "\<forall>n\<in>set (ht_list ht). node_index t n = node_index ht n"
  shows "bucket_inv t"
proof -
  have "seg t i = seg ht i" for i using assms(3,5) by (auto simp: seg_def intro!: filter_cong)
  with assms grouped_cong [of "node_index ht" "ht_list ht" "node_index t"] show ?thesis
    by (simp add: bucket_inv_def)
qed

subsection \<open>Rehashing\<close>

lemma rehash_fold:
  assumes "bucket_inv t" "distinct ns" "set ns \<inter> set (ht_list t) = {}"
  shows "let u = foldl (\<lambda>t n. insert_to_bucket t (unat (hp_hash (pair_of t n) mod hashsize (ht_order t))) n) t ns in
    bucket_inv u \<and> set (ht_list u) = set (ht_list t) \<union> set ns \<and> ht_order u = ht_order t \<and>
    ht_pairs u = ht_pairs t \<and> ht_ordered u = ht_ordered t \<and> ht_size u = ht_size t"
  using assms
proof (induction ns arbitrary: t)
  case (Cons n ns)
  let ?t = "insert_to_bucket t (node_index t n) n"
  have o: "ht_order t < 64" using Cons.prems(1) by (simp add: bucket_inv_def)
  have i: "unat (hp_hash (pair_of t n) mod hashsize (ht_order t)) = node_index t n"
    by (simp add: rehash_index [OF o] node_index_def ht_index_mod [OF o])
  from insert_to_bucket_inv [OF Cons.prems(1), of n] Cons.prems(3)
  have "bucket_inv ?t" "set (ht_list ?t) = insert n (set (ht_list t))" by auto
  with Cons.IH [of ?t] Cons.prems i show ?case by (auto simp: Let_def)
qed (simp add: Let_def)

lemma foldl_order_cong:
  "ht_order t = o' \<Longrightarrow> foldl (\<lambda>t n. insert_to_bucket t (unat (hp_hash (pair_of t n) mod hashsize o')) n) t ns =
   foldl (\<lambda>t n. insert_to_bucket t (unat (hp_hash (pair_of t n) mod hashsize (ht_order t))) n) t ns"
  by (induction ns arbitrary: t) simp_all

lemma hashtable_do_rehash_ok:
  assumes "ht_inv hash_str ht" "hashtable_do_rehash mem ht = (0, u)"
  shows "ht_inv hash_str u \<and> entries u = entries ht \<and> ht_order u = ht_order ht + 1"
proof -
  let ?o = "ht_order ht + 1"
  let ?t = "ht\<lparr>ht_buckets := replicate (unat (hashsize ?o)) (None, None), ht_order := ?o, ht_list := []\<rparr>"
  from assms(2) have a: "alloc_ok mem (hashsize ?o * 16)"
    and u: "u = foldl (\<lambda>t n. insert_to_bucket t (unat (hp_hash (pair_of t n) mod hashsize ?o)) n) ?t (ht_list ht)"
    by (auto simp: hashtable_do_rehash_def Let_def split: if_splits)
  have o: "?o < 60" by (rule order_fits [OF a])
  then have "bucket_inv ?t" using unat_hashsize [of ?o] by (simp add: bucket_inv_def seg_def ends_def)
  from rehash_fold [OF this, of "ht_list ht"] assms(1) foldl_order_cong [of ?t ?o "ht_list ht"] u
  have "bucket_inv u" "set (ht_list u) = set (ht_list ht)" "ht_order u = ?o" "ht_pairs u = ht_pairs ht"
      "ht_ordered u = ht_ordered ht" "ht_size u = ht_size ht"
    by (auto simp: Let_def ht_inv_def bucket_inv_def)
  with assms(1) show ?thesis by (simp add: ht_inv_def pairs_inv_def entries_def pair_of_def [abs_def])
qed

lemma hashtable_do_rehash_fail: "hashtable_do_rehash mem ht = (r, u) \<Longrightarrow> r \<noteq> 0 \<Longrightarrow> r = -1 \<and> u = ht"
  by (auto simp: hashtable_do_rehash_def Let_def split: if_splits)

subsection \<open>Setting\<close>

lemma obj_set_map:
  "inj_on k (set xs) \<Longrightarrow> distinct xs \<Longrightarrow> n \<in> set xs \<Longrightarrow>
   obj_set (k n) v (map (\<lambda>m. (k m, f m)) xs) = map (\<lambda>m. (k m, if m = n then v else f m)) xs"
proof (induction xs)
  case (Cons x xs)
  then show ?case by (cases "x = n") (auto simp: inj_on_def)
qed simp

definition put_value :: "'v hashtable \<Rightarrow> nat \<Rightarrow> 'v \<Rightarrow> 'v hashtable" where
  "put_value ht n v = ht\<lparr>ht_pairs := (ht_pairs ht)[n := Some ((pair_of ht n)\<lparr>hp_value := v\<rparr>)]\<rparr>"

lemma put_value_ok:
  assumes "ht_inv hash_str ht" "n \<in> set (ht_list ht)"
  shows "ht_inv hash_str (put_value ht n v) \<and>
    entries (put_value ht n v) = obj_set (hp_key (pair_of ht n)) v (entries ht)"
proof -
  let ?t = "put_value ht n v"
  have n: "n < length (ht_pairs ht)" using assms by (simp add: ht_inv_def pairs_inv_def)
  have p: "pair_of ?t m = (if m = n then (pair_of ht n)\<lparr>hp_value := v\<rparr> else pair_of ht m)" for m
    using n by (simp add: pair_of_def put_value_def)
  have l: "ht_list ?t = ht_list ht" "ht_ordered ?t = ht_ordered ht" "ht_size ?t = ht_size ht"
      "ht_order ?t = ht_order ht" "ht_buckets ?t = ht_buckets ht" "length (ht_pairs ?t) = length (ht_pairs ht)"
    by (simp_all add: put_value_def)
  have k: "hp_key (pair_of ?t m) = hp_key (pair_of ht m)" "hp_hash (pair_of ?t m) = hp_hash (pair_of ht m)" for m
    by (simp_all add: p)
  have e: "ht_pairs ht ! m \<noteq> None \<Longrightarrow> ht_pairs ?t ! m \<noteq> None" for m
    using n by (cases "m = n") (simp_all add: put_value_def)
  have b: "bucket_inv ?t"
    by (rule bucket_inv_cong [of ht]) (use assms(1) in \<open>simp_all add: ht_inv_def node_index_def k l ht_index_def\<close>)
  have "pairs_inv hash_str ?t"
    using assms(1) e by (simp add: ht_inv_def pairs_inv_def l k)
  with b have "ht_inv hash_str ?t" by (simp add: ht_inv_def)
  moreover have "entries ?t = map (\<lambda>m. (hp_key (pair_of ht m), if m = n then v else hp_value (pair_of ht m))) (ht_ordered ht)"
    by (auto simp: entries_def p l)
  moreover have "\<dots> = obj_set (hp_key (pair_of ht n)) v (entries ht)"
    using assms obj_set_map [of "\<lambda>m. hp_key (pair_of ht m)" "ht_ordered ht" n v "\<lambda>m. hp_value (pair_of ht m)"]
    by (simp add: entries_def ht_inv_def pairs_inv_def)
  ultimately show ?thesis by simp
qed

text \<open>A new pair at the end.\<close>

definition add_pair :: "'v hashtable \<Rightarrow> 'v hpair \<Rightarrow> 'v hashtable" where
  "add_pair ht p =
     (let n = length (ht_pairs ht);
          t = insert_to_bucket (ht\<lparr>ht_pairs := ht_pairs ht @ [Some p]\<rparr>) (ht_index ht (hp_hash p)) n
      in t\<lparr>ht_ordered := list_insert (ht_ordered t) None n, ht_size := ht_size t + 1\<rparr>)"

lemma add_pair_ok:
  assumes inv: "ht_inv hash_str ht" and new: "\<forall>n\<in>set (ht_list ht). hp_key (pair_of ht n) \<noteq> hp_key p"
    and h: "hp_hash p = hash_str (hp_key p)"
  shows "ht_inv hash_str (add_pair ht p) \<and> entries (add_pair ht p) = entries ht @ [(hp_key p, hp_value p)]"
proof -
  let ?n = "length (ht_pairs ht)" and ?h = "ht\<lparr>ht_pairs := ht_pairs ht @ [Some p]\<rparr>"
  have lt: "m \<in> set (ht_list ht) \<Longrightarrow> m < ?n" for m using inv by (simp add: ht_inv_def pairs_inv_def)
  then have nn: "?n \<notin> set (ht_list ht)" by blast
  have pn: "pair_of ?h ?n = p" and po: "m < ?n \<Longrightarrow> pair_of ?h m = pair_of ht m" for m
    by (simp_all add: pair_of_def nth_append)
  have "bucket_inv ?h"
    by (rule bucket_inv_cong [of ht]) (use inv in \<open>simp_all add: ht_inv_def node_index_def po lt ht_index_def\<close>)
  moreover have ix: "ht_index ht (hp_hash p) = node_index ?h ?n" by (simp add: node_index_def pn ht_index_def)
  ultimately have t: "bucket_inv (insert_to_bucket ?h (node_index ?h ?n) ?n)"
      "set (ht_list (insert_to_bucket ?h (node_index ?h ?n) ?n)) = insert ?n (set (ht_list ht))"
    using insert_to_bucket_inv [of ?h ?n] nn by auto
  let ?t = "insert_to_bucket ?h (node_index ?h ?n) ?n" and ?u = "add_pair ht p"
  have u: "?u = ?t\<lparr>ht_ordered := ht_ordered ht @ [?n], ht_size := ht_size ht + 1\<rparr>"
    by (simp add: add_pair_def Let_def ix)
  have up: "pair_of ?u = pair_of ?h" by (rule ext) (simp add: u pair_of_def)
  have l: "set (ht_list ?u) = insert ?n (set (ht_list ht))" "ht_ordered ?u = ht_ordered ht @ [?n]"
      "ht_size ?u = ht_size ht + 1" "ht_pairs ?u = ht_pairs ht @ [Some p]"
    using t(2) by (simp_all add: u)
  have "bucket_inv ?u" using t(1) by (rule bucket_inv_cong) (simp_all add: u node_index_def ht_index_def pair_of_def)
  moreover have "pairs_inv hash_str ?u"
  proof -
    have i: "pairs_inv hash_str ht" using inv by (simp add: ht_inv_def)
    have "distinct (ht_ordered ht @ [?n])" "set (ht_ordered ht @ [?n]) = insert ?n (set (ht_list ht))"
      using i nn by (auto simp: pairs_inv_def)
    moreover have "\<forall>m\<in>insert ?n (set (ht_list ht)). m < length (ht_pairs ht @ [Some p]) \<and>
        (ht_pairs ht @ [Some p]) ! m \<noteq> None \<and> hp_hash (pair_of ?u m) = hash_str (hp_key (pair_of ?u m))"
      using i lt h by (auto simp: pairs_inv_def up pn po nth_append intro: less_SucI)
    moreover have "inj_on (\<lambda>n. hp_key (pair_of ?u n)) (insert ?n (set (ht_list ht)))"
    proof -
      have "inj_on (\<lambda>n. hp_key (pair_of ?u n)) (set (ht_list ht))"
        using i lt inj_on_cong [of "set (ht_list ht)" "\<lambda>n. hp_key (pair_of ?u n)" "\<lambda>n. hp_key (pair_of ht n)"]
        by (simp add: pairs_inv_def up po)
      with new lt nn show ?thesis by (auto simp: up pn po)
    qed
    ultimately show ?thesis using i by (simp add: pairs_inv_def l)
  qed
  moreover have "entries ?u = entries ht @ [(hp_key p, hp_value p)]"
    using inv lt by (simp add: entries_def up pn po l ht_inv_def pairs_inv_def)
  ultimately show ?thesis by (simp add: ht_inv_def)
qed

lemma hashtable_set_find:
  assumes "ht_inv hash_str ht"
  shows "(case hashtable_find_pair ht (ht_buckets ht ! ht_index ht (hash_str key)) key (hash_str key) of
      Some n \<Rightarrow> n \<in> set (ht_list ht) \<and> hp_key (pair_of ht n) = key \<and> map_of (entries ht) key = Some (hp_value (pair_of ht n))
    | None \<Rightarrow> (\<forall>n\<in>set (ht_list ht). hp_key (pair_of ht n) \<noteq> key) \<and> map_of (entries ht) key = None)"
proof (cases "hashtable_find_pair ht (ht_buckets ht ! ht_index ht (hash_str key)) key (hash_str key)")
  case None
  then show ?thesis
    using find_pair_None [OF assms, of key] hashtable_get_entries [OF assms, of key] by (simp add: hashtable_get_def Let_def)
next
  case (Some n)
  then show ?thesis
    using find_pair_correct [OF assms, of key n] hashtable_get_entries [OF assms, of key] by (simp add: hashtable_get_def Let_def)
qed

lemma hashtable_set_ok:
  assumes inv: "ht_inv hash_str ht" and s: "hashtable_set hash_str mem ht key v = (r, t, old)"
  shows "ht_inv hash_str t \<and> (r = 0 \<and> entries t = obj_set key v (entries ht) \<and> old = map_of (entries ht) key \<or>
    r = -1 \<and> entries t = entries ht \<and> old = None)"
proof -
  obtain r0 u where u: "(if ht_size ht \<ge> unat (hashsize (ht_order ht)) then hashtable_do_rehash mem ht else (0, ht)) = (r0, u)"
    by fastforce
  show ?thesis
  proof (cases "r0 = 0")
    case False
    then have "r0 = -1 \<and> u = ht" using u hashtable_do_rehash_fail [of mem ht r0 u] by (auto split: if_splits)
    with s u inv show ?thesis by (auto simp: hashtable_set_def)
  next
    case True
    then have iu: "ht_inv hash_str u" "entries u = entries ht"
      using u inv hashtable_do_rehash_ok [OF inv, of mem u] by (auto split: if_splits)
    let ?f = "hashtable_find_pair u (ht_buckets u ! ht_index u (hash_str key)) key (hash_str key)"
    note find = hashtable_set_find [OF iu(1), of key]
    show ?thesis
    proof (cases ?f)
      case (Some n)
      with s u True have "r = 0" "t = put_value u n v" "old = Some (hp_value (pair_of u n))"
        by (auto simp: hashtable_set_def put_value_def Let_def)
      with put_value_ok [OF iu(1), of n v] find Some iu(2) show ?thesis by simp
    next
      case None
      show ?thesis
      proof (cases "init_pair mem v key (hash_str key)")
        case None2: None
        with s u True None iu show ?thesis by (auto simp: hashtable_set_def Let_def)
      next
        case (Some p)
        then have p: "hp_key p = key" "hp_value p = v" "hp_hash p = hash_str key"
          by (auto simp: init_pair_def Let_def split: if_splits)
        from s u True None Some have "r = 0" "t = add_pair u p" "old = None"
          by (auto simp: hashtable_set_def add_pair_def Let_def p)
        moreover have "key \<notin> fst ` set (entries ht)" using find None iu(2) by (simp add: map_of_eq_None_iff)
        ultimately show ?thesis
          using add_pair_ok [OF iu(1), of p] find None iu(2) p by (simp add: obj_set_new)
      qed
    qed
  qed
qed

subsection \<open>Deleting\<close>

lemma ends_remove:
  assumes "distinct s" "n \<in> set s" "ht_list ht = pre @ s @ post" "n \<notin> set pre" "hd s \<notin> set pre"
  shows "(if Some n = fst (ends s) \<and> Some n = snd (ends s) then (None, None)
     else if Some n = fst (ends s) then (list_next (ht_list ht) n, snd (ends s))
     else if Some n = snd (ends s) then (fst (ends s), list_prev (ht_list ht) n)
     else ends s) = ends (remove1 n s)"
proof -
  obtain a b where s: "s = a @ n # b" "n \<notin> set a" using assms(2) by (meson split_list_first)
  have nb: "n \<notin> set b" using assms(1) s by auto
  have r: "remove1 n s = a @ b" by (simp add: s(1) s(2) remove1_append)
  have e: "ends s = (Some (hd (a @ [n])), Some (if b = [] then n else last b))"
    by (cases a) (simp_all add: ends_def s(1))
  have l: "ht_list ht = (pre @ a) @ n # b @ post" "n \<notin> set (pre @ a)" using assms(3,4) s by auto
  have lb: "b \<noteq> [] \<Longrightarrow> last b \<noteq> n" using nb last_in_set by blast
  have ha: "a \<noteq> [] \<Longrightarrow> hd a \<noteq> n" using s(2) hd_in_set by blast
  show ?thesis
  proof (cases a)
    case Nil
    show ?thesis
    proof (cases b)
      case (Cons y ys)
      have "list_next (ht_list ht) n = Some y" using list_next_mid [of n pre y "ys @ post"] l Nil Cons by simp
      with Nil Cons lb r e show ?thesis by (auto simp: ends_def)
    qed (use Nil r e in \<open>simp add: ends_def\<close>)
  next
    case (Cons x xs)
    show ?thesis
    proof (cases "b = []")
      case True
      have "list_prev (ht_list ht) n = Some (last a)" using list_prev_mid [of n "pre @ a" post] l Cons True by simp
      with Cons True ha r e show ?thesis by (auto simp: ends_def)
    next
      case False
      with Cons lb ha r e show ?thesis by (auto simp: ends_def)
    qed
  qed
qed

definition drop_node :: "'v hashtable \<Rightarrow> nat \<Rightarrow> 'v hashtable" where
  "drop_node ht n = ht\<lparr>ht_buckets := (ht_buckets ht)[node_index ht n := ends (remove1 n (seg ht (node_index ht n)))],
     ht_list := remove1 n (ht_list ht), ht_ordered := remove1 n (ht_ordered ht),
     ht_pairs := (ht_pairs ht)[n := None], ht_size := ht_size ht - 1\<rparr>"

lemma drop_node_bucket_inv:
  assumes b: "bucket_inv ht" and n: "n \<in> set (ht_list ht)"
  shows "bucket_inv (drop_node ht n)"
proof -
  let ?i = "node_index ht n" and ?t = "drop_node ht n"
  have d: "distinct (ht_list ht)" using b by (simp add: bucket_inv_def)
  have sn: "n \<in> set (seg ht ?i)" using n by (simp add: seg_def)
  then have ne: "seg ht ?i \<noteq> []" by auto
  obtain pre post where sp: "ht_list ht = pre @ seg ht ?i @ post" "\<forall>y\<in>set pre \<union> set post. node_index ht y \<noteq> ?i"
    "\<And>g. \<forall>y\<in>set g. node_index ht y = ?i \<Longrightarrow> grouped (node_index ht) (pre @ g @ post)"
    using seg_split [OF b ne] by metis
  let ?s = "remove1 n (seg ht ?i)"
  have "n \<notin> set pre" using sp(2) by auto
  then have l: "remove1 n (ht_list ht) = pre @ ?s @ post"
    using sn by (subst sp(1)) (simp add: remove1_append)
  have o: "ht_order ?t = ht_order ht" "ht_list ?t = remove1 n (ht_list ht)" by (simp_all add: drop_node_def)
  have ni: "node_index ?t m = node_index ht m" if "m \<noteq> n" for m
    using that by (simp add: drop_node_def node_index_def pair_of_def ht_index_def)
  have lt: "m \<in> set (ht_list ?t) \<Longrightarrow> m \<noteq> n" for m using d by (auto simp: o)
  have "\<forall>y\<in>set ?s. node_index ht y = ?i"
    using set_remove1_subset [of n "seg ht ?i"] by (auto simp: seg_def)
  then have "grouped (node_index ht) (ht_list ?t)" using sp(3) [of ?s] by (simp only: o l)
  then have g: "grouped (node_index ?t) (ht_list ?t)" by (rule grouped_cong) (use ni lt in blast)
  have sg: "seg ?t j = (if j = ?i then ?s else seg ht j)" for j
  proof -
    have "seg ?t j = filter (\<lambda>m. node_index ht m = j) (ht_list ?t)"
      unfolding seg_def by (rule filter_cong) (use ni lt in auto)
    also have "\<dots> = remove1 n (seg ht j)" by (simp add: o seg_def filter_remove1)
    also have "\<dots> = (if j = ?i then ?s else seg ht j)" by (auto simp: seg_def remove1_idem)
    finally show ?thesis .
  qed
  have "ht_buckets ?t ! j = ends (seg ?t j)" if "j < 2 ^ ht_order ht" for j
    using b that by (auto simp: bucket_inv_def sg) (auto simp: drop_node_def nth_list_update)
  moreover have "length (ht_buckets ?t) = 2 ^ ht_order ht" using b by (simp add: drop_node_def bucket_inv_def)
  moreover have "distinct (ht_list ?t)" using d by (simp add: o)
  ultimately show ?thesis using b g by (simp add: bucket_inv_def o(1))
qed

lemma filter_remove_key:
  "inj_on k (set xs) \<Longrightarrow> distinct xs \<Longrightarrow> n \<in> set xs \<Longrightarrow>
   map (\<lambda>m. (k m, f m)) (remove1 n xs) = filter (\<lambda>p. fst p \<noteq> k n) (map (\<lambda>m. (k m, f m)) xs)"
proof -
  assume i: "inj_on k (set xs)" and d: "distinct xs" and n: "n \<in> set xs"
  have "filter (\<lambda>m. k m \<noteq> k n) xs = filter (\<lambda>m. m \<noteq> n) xs"
    using i n by (intro filter_cong) (auto simp: inj_on_def)
  then show ?thesis using d by (simp add: filter_map comp_def distinct_remove1_removeAll removeAll_filter_not_eq eq_commute)
qed

lemma drop_node_ok:
  assumes inv: "ht_inv hash_str ht" and n: "n \<in> set (ht_list ht)"
  shows "ht_inv hash_str (drop_node ht n) \<and>
    entries (drop_node ht n) = filter (\<lambda>p. fst p \<noteq> hp_key (pair_of ht n)) (entries ht)"
proof -
  let ?t = "drop_node ht n"
  have b: "bucket_inv ht" and p: "pairs_inv hash_str ht" using inv by (auto simp: ht_inv_def)
  have d: "distinct (ht_list ht)" "distinct (ht_ordered ht)" "set (ht_ordered ht) = set (ht_list ht)"
    using b p by (auto simp: bucket_inv_def pairs_inv_def)
  have po: "m \<noteq> n \<Longrightarrow> pair_of ?t m = pair_of ht m" for m by (simp add: drop_node_def pair_of_def)
  have sl: "set (ht_list ?t) = set (ht_list ht) - {n}" using d by (simp add: drop_node_def)
  have oo: "ht_ordered ?t = remove1 n (ht_ordered ht)" by (simp add: drop_node_def)
  have "pairs_inv hash_str ?t"
  proof -
    have "\<forall>m\<in>set (ht_list ht) - {n}. m < length (ht_pairs ?t) \<and> ht_pairs ?t ! m \<noteq> None \<and>
        hp_hash (pair_of ?t m) = hash_str (hp_key (pair_of ?t m))"
      using p by (simp add: pairs_inv_def po) (simp add: drop_node_def)
    moreover have "inj_on (\<lambda>m. hp_key (pair_of ?t m)) (set (ht_list ht) - {n})"
      using p by (auto simp: pairs_inv_def inj_on_def po)
    moreover have "ht_size ?t = length (ht_ordered ?t)"
      using p d n by (simp add: pairs_inv_def drop_node_def length_remove1)
    moreover have "distinct (ht_ordered ?t)" "set (ht_ordered ?t) = set (ht_list ht) - {n}"
      using d by (simp_all add: drop_node_def)
    ultimately show ?thesis by (simp add: pairs_inv_def sl)
  qed
  moreover have "entries ?t = filter (\<lambda>p. fst p \<noteq> hp_key (pair_of ht n)) (entries ht)"
  proof -
    have "entries ?t = map (\<lambda>m. (hp_key (pair_of ht m), hp_value (pair_of ht m))) (remove1 n (ht_ordered ht))"
      using d(2) po by (auto simp: entries_def oo)
    with p d n filter_remove_key [of "\<lambda>m. hp_key (pair_of ht m)" "ht_ordered ht" n "\<lambda>m. hp_value (pair_of ht m)"]
    show ?thesis by (simp add: entries_def pairs_inv_def)
  qed
  ultimately show ?thesis using drop_node_bucket_inv [OF b n] by (simp add: ht_inv_def)
qed

lemma hashtable_del_ok:
  assumes inv: "ht_inv hash_str ht" and del: "hashtable_del hash_str ht key = (r, t, old)"
  shows "ht_inv hash_str t \<and> entries t = filter (\<lambda>p. fst p \<noteq> key) (entries ht) \<and> old = map_of (entries ht) key \<and>
    r = (if map_of (entries ht) key = None then -1 else 0)"
proof -
  let ?i = "ht_index ht (hash_str key)"
  let ?f = "hashtable_find_pair ht (ht_buckets ht ! ?i) key (hash_str key)"
  note find = hashtable_set_find [OF inv, of key]
  have b: "bucket_inv ht" using inv by (simp add: ht_inv_def)
  show ?thesis
  proof (cases ?f)
    case None
    with find have m: "map_of (entries ht) key = None" by simp
    then have "filter (\<lambda>p. fst p \<noteq> key) (entries ht) = entries ht"
      by (intro filter_True) (auto simp: map_of_eq_None_iff)
    with None del m inv show ?thesis by (simp add: hashtable_del_def hashtable_do_del_def Let_def)
  next
    case (Some n)
    with find have n: "n \<in> set (ht_list ht)" "hp_key (pair_of ht n) = key"
        "map_of (entries ht) key = Some (hp_value (pair_of ht n))" by auto
    have i: "node_index ht n = ?i" using inv n by (simp add: node_index_def ht_inv_def pairs_inv_def)
    have sn: "n \<in> set (seg ht ?i)" using n i by (simp add: seg_def)
    then have ne: "seg ht ?i \<noteq> []" by auto
    obtain pre post where sp: "ht_list ht = pre @ seg ht ?i @ post" "\<forall>y\<in>set pre \<union> set post. node_index ht y \<noteq> ?i"
      using seg_split [OF b ne] by metis
    have "hd (seg ht ?i) \<in> set (seg ht ?i)" using ne by simp
    then have "node_index ht (hd (seg ht ?i)) = ?i" by (simp add: seg_def)
    with sp(2) i have np: "n \<notin> set pre" "hd (seg ht ?i) \<notin> set pre" by auto
    have bk: "ht_buckets ht ! ?i = ends (seg ht ?i)"
      using b node_index_less [OF b, of n] i by (simp add: bucket_inv_def)
    from ends_remove [OF seg_distinct [OF b] sn sp(1) np] bk Some del i
    have "t = drop_node ht n" "r = 0" "old = Some (hp_value (pair_of ht n))"
      by (auto simp: hashtable_del_def hashtable_do_del_def drop_node_def list_remove_def Let_def)
    with drop_node_ok [OF inv n(1)] n show ?thesis by simp
  qed
qed

subsection \<open>Creating, clearing and iterating\<close>

lemma hashtable_init_ok: "hashtable_init mem = Some ht \<Longrightarrow> ht_inv hash_str ht \<and> entries ht = []"
  by (auto simp: hashtable_init_def ht_inv_def bucket_inv_def pairs_inv_def entries_def seg_def ends_def
      INITIAL_HASHTABLE_ORDER_def split: if_splits)

lemma hashtable_clear_ok:
  assumes "ht_inv hash_str ht" "hashtable_clear ht = (t, vs)"
  shows "ht_inv hash_str t \<and> entries t = [] \<and> set vs = snd ` set (entries ht)"
  using assms unat_hashsize [of "ht_order ht"]
  by (auto simp: hashtable_clear_def hashtable_do_clear_def ht_inv_def bucket_inv_def pairs_inv_def entries_def
      seg_def ends_def image_image)

text \<open>Following the iterator from the start meets the entries in order.\<close>

fun iter_collect :: "'v hashtable \<Rightarrow> nat \<Rightarrow> nat option \<Rightarrow> (bytes \<times> 'v) list" where
  "iter_collect ht fuel None = []"
| "iter_collect ht 0 (Some n) = []"
| "iter_collect ht (Suc fuel) (Some n) =
     (hashtable_iter_key ht n, hashtable_iter_value ht n) # iter_collect ht fuel (hashtable_iter_next ht (Some n))"

lemma iter_collect_suffix:
  assumes "distinct (ht_ordered ht)" "ht_ordered ht = pre @ n # post"
  shows "iter_collect ht (Suc (length post)) (Some n) =
    map (\<lambda>n. (hp_key (pair_of ht n), hp_value (pair_of ht n))) (n # post)"
  using assms(2)
proof (induction post arbitrary: pre n)
  case Nil
  then have "list_next (ht_ordered ht) n = None"
    using assms(1) dropWhile_before [of n pre "[]"] by (simp add: list_next_def)
  then show ?case by (simp add: hashtable_iter_key_def hashtable_iter_value_def hashtable_iter_next_def)
next
  case (Cons m post)
  then have "list_next (ht_ordered ht) n = Some m"
    using assms(1) list_next_mid [of n pre m post] by simp
  with Cons.IH [of "pre @ [n]" m] Cons.prems show ?case
    by (simp add: hashtable_iter_key_def hashtable_iter_value_def hashtable_iter_next_def)
qed

lemma hashtable_iter_entries:
  assumes "ht_inv hash_str ht"
  shows "iter_collect ht (ht_size ht) (hashtable_iter ht) = entries ht"
proof (cases "ht_ordered ht")
  case (Cons n post)
  with iter_collect_suffix [of ht "[]" n post] assms show ?thesis
    by (simp add: hashtable_iter_def hashtable_iter_next_def entries_def ht_inv_def pairs_inv_def)
qed (simp add: hashtable_iter_def hashtable_iter_next_def entries_def)

lemma hashtable_iter_set_ok:
  assumes "ht_inv hash_str ht" "hashtable_iter_at hash_str ht key = Some n" "hashtable_iter_set ht n v = (t, old)"
  shows "ht_inv hash_str t \<and> entries t = obj_set key v (entries ht) \<and> map_of (entries ht) key = Some old"
  using assms hashtable_set_find [OF assms(1), of key] put_value_ok [OF assms(1), of n v]
  by (auto simp: hashtable_iter_at_def hashtable_iter_set_def put_value_def Let_def)

text \<open>With memory, storing succeeds.\<close>

lemma hashtable_set_succeeds:
  assumes "\<forall>n. mem n" "ht_order ht < 58" "length key < 2 ^ 32"
  shows "\<exists>t old. hashtable_set hash_str mem ht key v = (0, t, old)"
proof -
  have "unat (hashsize (ht_order ht + 1) * 16) \<noteq> 0"
  proof -
    have "hashsize (ht_order ht + 1) * 16 = hashsize (ht_order ht + 5)"
      by (simp add: hashsize_def push_bit_eq_mult power_add)
    with unat_hashsize [of "ht_order ht + 5"] assms(2) show ?thesis by simp
  qed
  then have r: "\<exists>u. hashtable_do_rehash mem ht = (0, u)"
    using assms(1) by (auto simp: hashtable_do_rehash_def alloc_ok_def Let_def)
  have l: "unat (of_nat (length key) :: size_t) = length key" using assms(3) by (simp add: unat_of_nat)
  have "\<not> (of_nat (length key) \<ge> - 1 - OFFSETOF_KEY)"
    using assms(3) l by (simp add: word_le_nat_alt OFFSETOF_KEY_def)
  moreover have "OFFSETOF_KEY + of_nat (length key) + 1 \<noteq> 0"
  proof -
    have "unat (OFFSETOF_KEY + of_nat (length key) + 1) = 57 + length key"
      using assms(3) l by (simp add: OFFSETOF_KEY_def unat_word_ariths)
    then show ?thesis by (metis add_is_0 unat_0 zero_neq_numeral)
  qed
  ultimately have i: "init_pair mem v key h \<noteq> None" for h
    using assms(1) by (simp add: init_pair_def alloc_ok_def Let_def)
  obtain u where u: "(if ht_size ht \<ge> unat (hashsize (ht_order ht)) then hashtable_do_rehash mem ht else (0, ht)) = (0, u)"
    using r by (cases "ht_size ht \<ge> unat (hashsize (ht_order ht))") auto
  show ?thesis
    using u i [of "hash_str key"] by (auto simp: hashtable_set_def Let_def split: option.split)
qed

end
