(* ===== verification/JsonHeap.thy ===== *)
theory JsonHeap
  imports HashtableInv
begin

text \<open>
  The heap of JSON values, the \<open>json_t\<close> structures of \<^verbatim>\<open>src/jansson/src/jansson.h\<close>
  and \<^verbatim>\<open>src/jansson/src/jansson_private.h\<close>. An address is an index, a cell carries the
  reference count and the node, and a node refers to its children by address; \<open>NULL\<close> and
  a freed value are an address with no cell. An object holds its hash table, an array its
  table of element addresses with capacity and fill count.
  \<open>repr h a j\<close>: following the references from \<open>a\<close> gives the finite tree \<open>j\<close>.
\<close>

subsection \<open>Heap\<close>

type_synonym addr = nat

record json_array =
  a_size :: size_t
  a_entries :: size_t
  a_table :: "addr list"

definition elems :: "json_array \<Rightarrow> addr list" where
  "elems arr = take (unat (a_entries arr)) (a_table arr)"

datatype 'r node =
    NObject "addr hashtable"
  | NArray json_array
  | NString bytes
  | NInteger int
  | NReal 'r
  | NTrue
  | NFalse
  | NNull

record 'r cell =
  refcount :: size_t
  c_node :: "'r node"

type_synonym 'r heap = "'r cell option list"

definition node_at :: "'r heap \<Rightarrow> addr \<Rightarrow> 'r node option" where
  "node_at h a = (if a < length h then map_option c_node (h ! a) else None)"

lemma node_at_bound: "node_at h a = Some n \<Longrightarrow> a < length h"
  by (auto simp: node_at_def split: if_splits)

subsection \<open>Representation of trees in the heap\<close>

inductive repr :: "'r heap \<Rightarrow> addr \<Rightarrow> 'r json \<Rightarrow> bool" for h where
  "node_at h a = Some NNull \<Longrightarrow> repr h a JNull"
| "node_at h a = Some NTrue \<Longrightarrow> repr h a JTrue"
| "node_at h a = Some NFalse \<Longrightarrow> repr h a JFalse"
| "node_at h a = Some (NInteger i) \<Longrightarrow> repr h a (JInteger i)"
| "node_at h a = Some (NReal r) \<Longrightarrow> repr h a (JReal r)"
| "node_at h a = Some (NString s) \<Longrightarrow> repr h a (JString s)"
| "node_at h a = Some (NArray arr) \<Longrightarrow> list_all2 (repr h) (elems arr) js \<Longrightarrow> repr h a (JArray js)"
| "node_at h a = Some (NObject ht) \<Longrightarrow>
     list_all2 (\<lambda>p q. fst p = fst q \<and> repr h (snd p) (snd q)) (entries ht) qs \<Longrightarrow> repr h a (JObject qs)"

inductive_simps repr_simps [simp]:
  "repr h a JNull" "repr h a JTrue" "repr h a JFalse" "repr h a (JInteger i)" "repr h a (JReal r)"
  "repr h a (JString s)"
inductive_simps repr_JArray: "repr h a (JArray js)"
inductive_simps repr_JObject: "repr h a (JObject ps)"

lemma repr_node:
  "repr h a j \<Longrightarrow> (case node_at h a of
      Some NNull \<Rightarrow> j = JNull | Some NTrue \<Rightarrow> j = JTrue | Some NFalse \<Rightarrow> j = JFalse
    | Some (NInteger i) \<Rightarrow> j = JInteger i | Some (NReal r) \<Rightarrow> j = JReal r
    | Some (NString s) \<Rightarrow> j = JString s
    | Some (NArray arr) \<Rightarrow> \<exists>js. j = JArray js \<and> list_all2 (repr h) (elems arr) js
    | Some (NObject ht) \<Rightarrow> \<exists>qs. j = JObject qs \<and>
        list_all2 (\<lambda>p q. fst p = fst q \<and> repr h (snd p) (snd q)) (entries ht) qs
    | None \<Rightarrow> False)"
  by (erule repr.cases) simp_all

lemma list_all2_fun:
  "list_all2 P xs ys \<Longrightarrow> list_all2 P xs zs \<Longrightarrow> (\<And>x y z. y \<in> set ys \<Longrightarrow> P x y \<Longrightarrow> P x z \<Longrightarrow> y = z) \<Longrightarrow> ys = zs"
proof (induction xs arbitrary: ys zs)
  case (Cons x xs)
  then obtain y ys' z zs' where "ys = y # ys'" "zs = z # zs'" "P x y" "P x z"
      "list_all2 P xs ys'" "list_all2 P xs zs'"
    by (auto simp: list_all2_Cons1)
  with Cons.IH [of ys' zs'] Cons.prems(3) show ?case by auto
qed simp

lemma repr_fun: "repr h a j \<Longrightarrow> repr h a j' \<Longrightarrow> j = j'"
proof (induction j arbitrary: a j')
  case (JArray js)
  from JArray.prems(1) obtain arr where n: "node_at h a = Some (NArray arr)" "list_all2 (repr h) (elems arr) js"
    by (auto simp: repr_JArray)
  with repr_node [OF JArray.prems(2)] obtain js' where j': "j' = JArray js'" "list_all2 (repr h) (elems arr) js'"
    by auto
  have "js = js'"
    by (rule list_all2_fun [OF n(2) j'(2)]) (rule JArray.IH)
  then show ?case by (simp add: j')
next
  case (JObject ps)
  let ?R = "\<lambda>p q. fst p = fst q \<and> repr h (snd p) (snd q)"
  from JObject.prems(1) obtain ht where n: "node_at h a = Some (NObject ht)" "list_all2 ?R (entries ht) ps"
    by (auto simp: repr_JObject)
  with repr_node [OF JObject.prems(2)] obtain ps' where j': "j' = JObject ps'" "list_all2 ?R (entries ht) ps'"
    by auto
  have "ps = ps'"
  proof (rule list_all2_fun [OF n(2) j'(2)])
    fix x y z assume "y \<in> set ps" "?R x y" "?R x z"
    then show "y = z"
      using JObject.IH [of y "snd y" "snd x" "snd z"] by (cases y; cases z) (auto simp: snds.simps)
  qed
  then show ?case by (simp add: j')
qed (auto dest: repr_node)

lemma size_elem: "j \<in> set js \<Longrightarrow> size j < size (JArray js)"
  by (induction js) auto

lemma size_pair: "p \<in> set ps \<Longrightarrow> size (snd p) < size (JObject ps)"
  by (induction ps) (auto simp: size_prod_def)

end
