(* ===== verification/Dump.thy ===== *)
theory Dump
  imports JsonHeap Strconv Strbuffer
begin

text \<open>
  The encoder, \<^verbatim>\<open>src/jansson/src/dump.c\<close>. Values live in the heap of
  \<^verbatim>\<open>JsonHeap\<close>, so shared and circular structures can be expressed. A dump callback takes a chunk
  and the user data and returns its \<open>int\<close> status (nonzero: failure) and the new data.
\<close>

subsection \<open>Flags\<close>

definition JSON_COMPACT :: size_t where "JSON_COMPACT = 0x20"
definition JSON_ENSURE_ASCII :: size_t where "JSON_ENSURE_ASCII = 0x40"
definition JSON_SORT_KEYS :: size_t where "JSON_SORT_KEYS = 0x80"
definition JSON_ENCODE_ANY :: size_t where "JSON_ENCODE_ANY = 0x200"
definition JSON_ESCAPE_SLASH :: size_t where "JSON_ESCAPE_SLASH = 0x400"
definition JSON_EMBED :: size_t where "JSON_EMBED = 0x10000"

definition FLAGS_TO_INDENT :: "size_t \<Rightarrow> nat" where "FLAGS_TO_INDENT f = unat (f AND 0x1F)"
definition FLAGS_TO_PRECISION :: "size_t \<Rightarrow> nat" where
  "FLAGS_TO_PRECISION f = unat (drop_bit 11 f AND 0x1F)"

text \<open>\<open>flags &= ~JSON_EMBED\<close>.\<close>

definition clear_embed :: "size_t \<Rightarrow> size_t" where
  "clear_embed flags = flags AND NOT JSON_EMBED"

subsection \<open>Callbacks\<close>

type_synonym 'd dump_cb = "bytes \<Rightarrow> 'd \<Rightarrow> int \<times> 'd"

text \<open>\<open>if (f) return -1; g\<close>: the rest runs only when the first call returned 0.\<close>

definition andThen :: "('d \<Rightarrow> int \<times> 'd) \<Rightarrow> ('d \<Rightarrow> int \<times> 'd) \<Rightarrow> 'd \<Rightarrow> int \<times> 'd" where
  "andThen f g d = (let (r, d') = f d in if r \<noteq> 0 then (-1, d') else g d')"

lemma andThen_cong [fundef_cong]:
  "f d = f' d \<Longrightarrow> (\<And>d'. g d' = g' d') \<Longrightarrow> d = e \<Longrightarrow> andThen f g d = andThen f' g' e"
  by (simp add: andThen_def split: prod.split)

definition dump_to_strbuffer :: "(size_t \<Rightarrow> bytes option) \<Rightarrow> strbuffer dump_cb" where
  "dump_to_strbuffer do_malloc buffer sb =
     strbuffer_append_bytes do_malloc sb buffer (of_nat (length buffer))"

record dump_buffer =
  db_size :: nat
  db_used :: nat
  db_data :: bytes

definition dump_to_buffer :: "dump_buffer dump_cb" where
  "dump_to_buffer buffer buf =
     (0, (if db_used buf + length buffer \<le> db_size buf
          then buf\<lparr>db_data := memcpy_at (db_data buf) (db_used buf) buffer\<rparr> else buf)
         \<lparr>db_used := db_used buf + length buffer\<rparr>)"

subsection \<open>Indentation\<close>

text \<open>\<open>while (n_spaces > 0)\<close>: at most 32 blanks per chunk.\<close>

fun dump_spaces :: "'d dump_cb \<Rightarrow> nat \<Rightarrow> 'd \<Rightarrow> int \<times> 'd" where
  "dump_spaces dump n d =
     (if n > 0 then
        let cur_n = min n 32 in
        andThen (dump (replicate cur_n 32)) (\<lambda>d. dump_spaces dump (n - cur_n) d) d
      else (0, d))"

declare dump_spaces.simps [simp del]

definition dump_indent :: "size_t \<Rightarrow> nat \<Rightarrow> bool \<Rightarrow> 'd dump_cb \<Rightarrow> 'd \<Rightarrow> int \<times> 'd" where
  "dump_indent flags depth space dump =
     (if FLAGS_TO_INDENT flags > 0 then
        andThen (dump [10]) (dump_spaces dump ((depth * FLAGS_TO_INDENT flags) mod 2 ^ 32))
      else if space \<and> \<not> flag flags JSON_COMPACT then dump [32]
      else (\<lambda>d. (0, d)))"

subsection \<open>Strings\<close>

definition must_escape :: "size_t \<Rightarrow> int \<Rightarrow> bool" where
  "must_escape flags codepoint \<longleftrightarrow>
     codepoint = 92 \<or> codepoint = 34 \<or> codepoint < 0x20 \<or>
     flag flags JSON_ESCAPE_SLASH \<and> codepoint = 47 \<or>
     flag flags JSON_ENSURE_ASCII \<and> codepoint > 0x7F"

text \<open>The inner loop of \<open>dump_string\<close> on the text from \<open>str\<close>: how many bytes need no escape,
  and the code point (with its byte count) that stopped the loop, if any. \<open>None\<close>: the
  text is not UTF-8.\<close>

lemma utf8_iterate_progress: "s \<noteq> [] \<Longrightarrow> utf8_iterate s (length s) = Some (k, cp) \<Longrightarrow> 0 < k"
  by (auto simp: utf8_iterate_def Let_def split: if_splits option.splits)

function dump_scan :: "size_t \<Rightarrow> bytes \<Rightarrow> (nat \<times> (int \<times> nat) option) option" where
  "dump_scan flags s =
     (if s = [] then Some (0, None)
      else (case utf8_iterate s (length s) of
              None \<Rightarrow> None
            | Some (k, cp) \<Rightarrow>
                if must_escape flags (the cp) then Some (0, Some (the cp, k))
                else map_option (\<lambda>(n, stop). (k + n, stop)) (dump_scan flags (drop k s))))"
  by pat_completeness auto
termination
  by (relation "measure (\<lambda>(flags, s). length s)") (auto intro!: diff_less dest: utf8_iterate_progress)

declare dump_scan.simps [simp del]

definition escape_text :: "int \<Rightarrow> bytes" where
  "escape_text codepoint =
     (if codepoint = 92 then [92, 92]
      else if codepoint = 34 then [92, 34]
      else if codepoint = 8 then asc [CHR 92] @ asc ''b''
      else if codepoint = 12 then asc [CHR 92] @ asc ''f''
      else if codepoint = 10 then asc [CHR 92] @ asc ''n''
      else if codepoint = 13 then asc [CHR 92] @ asc ''r''
      else if codepoint = 9 then asc [CHR 92] @ asc ''t''
      else if codepoint = 47 then [92, 47]
      else if codepoint < 0x10000 then [92, 117] @ hex4 (nat codepoint)
      else
        let c = codepoint - 0x10000;
            first = 0xD800 OR drop_bit 10 (c AND 0xffc00);
            last = 0xDC00 OR (c AND 0x003ff)
        in [92, 117] @ hex4 (nat first) @ [92, 117] @ hex4 (nat last))"

lemma dump_scan_progress: "dump_scan flags s = Some (n, Some (cp, k)) \<Longrightarrow> 0 < k \<and> s \<noteq> []"
proof (induction flags s arbitrary: n rule: dump_scan.induct)
  case (1 flags s)
  then show ?case
    by (subst (asm) (2) dump_scan.simps)
      (fastforce split: if_splits option.splits dest: utf8_iterate_progress)
qed

function dump_string_loop :: "size_t \<Rightarrow> 'd dump_cb \<Rightarrow> bytes \<Rightarrow> 'd \<Rightarrow> int \<times> 'd" where
  "dump_string_loop flags dump str d =
     (case dump_scan flags str of
        None \<Rightarrow> (-1, d)
      | Some (n, None) \<Rightarrow>
          andThen (\<lambda>d. if n \<noteq> 0 then dump (take n str) d else (0, d)) (dump [34]) d
      | Some (n, Some (codepoint, k)) \<Rightarrow>
          andThen (\<lambda>d. if n \<noteq> 0 then dump (take n str) d else (0, d))
            (andThen (dump (escape_text codepoint))
              (\<lambda>d. dump_string_loop flags dump (drop (n + k) str) d)) d)"
  by pat_completeness auto
termination
  by (relation "measure (\<lambda>(flags, dump, str, d). length str)") (auto dest: dump_scan_progress)

declare dump_string_loop.simps [simp del]

definition dump_string :: "size_t \<Rightarrow> bytes \<Rightarrow> 'd dump_cb \<Rightarrow> 'd \<Rightarrow> int \<times> 'd" where
  "dump_string flags str dump = andThen (dump [34]) (dump_string_loop flags dump str)"

subsection \<open>Keys\<close>

text \<open>\<open>memcmp\<close> on the common prefix, then the difference of the lengths.\<close>

fun memcmp :: "bytes \<Rightarrow> bytes \<Rightarrow> nat \<Rightarrow> int" where
  "memcmp (a # as) (b # bs) (Suc n) = (if a = b then memcmp as bs n else uint a - uint b)"
| "memcmp _ _ _ = 0"

definition compare_keys :: "bytes \<Rightarrow> bytes \<Rightarrow> int" where
  "compare_keys k1 k2 =
     (let res = memcmp k1 k2 (min (length k1) (length k2))
      in if res \<noteq> 0 then res else int (length k1) - int (length k2))"

text \<open>\<open>qsort\<close> with \<open>compare_keys\<close>; the keys of an object are distinct, so the sorted
  sequence is unique and the choice of algorithm cannot be observed.\<close>

fun insert_key :: "bytes \<Rightarrow> bytes list \<Rightarrow> bytes list" where
  "insert_key k [] = [k]"
| "insert_key k (x # xs) = (if compare_keys k x \<le> 0 then k # x # xs else x # insert_key k xs)"

fun qsort_keys :: "bytes list \<Rightarrow> bytes list" where
  "qsort_keys [] = []"
| "qsort_keys (k # ks) = insert_key k (qsort_keys ks)"

definition sort_pairs :: "(bytes \<times> 'v) list \<Rightarrow> (bytes \<times> 'v) list" where
  "sort_pairs pairs = map (\<lambda>k. (k, the (map_of pairs k))) (qsort_keys (map fst pairs))"

text \<open>The order in which the pairs are written. Sorting allocates an array of 16-byte
  \<open>struct key_len\<close> and fails when that fails.\<close>

definition order_pairs :: "size_t \<Rightarrow> (bytes \<times> 'v) list \<Rightarrow> (bytes \<times> 'v) list" where
  "order_pairs flags pairs = (if flag flags JSON_SORT_KEYS then sort_pairs pairs else pairs)"

definition keys_alloc_fails :: "(size_t \<Rightarrow> bytes option) \<Rightarrow> size_t \<Rightarrow> (bytes \<times> 'v) list \<Rightarrow> bool" where
  "keys_alloc_fails do_malloc flags pairs \<longleftrightarrow>
     flag flags JSON_SORT_KEYS \<and> jsonp_malloc do_malloc (of_nat (length pairs * 16)) = None"

subsection \<open>Circular references\<close>

text \<open>\<open>jsonp_loop_check\<close> of \<^verbatim>\<open>value.c\<close>: the set of addresses on the current path
  (the hashtable \<open>parents\<close> keyed by the printed pointer). Every caller deletes the key it
  inserted before it returns successfully, so the set is passed down only. The table of the
  set is created here and its allocations are taken to succeed.\<close>

definition jsonp_loop_check :: "addr list \<Rightarrow> addr \<Rightarrow> addr list option" where
  "jsonp_loop_check parents json = (if json \<in> set parents then None else Some (json # parents))"

definition room :: "'r heap \<Rightarrow> addr list \<Rightarrow> nat" where
  "room h parents = card ({..<length h} - set parents)"

lemma room_less:
  assumes "node_at h a = Some n" "jsonp_loop_check parents a = Some parents'"
  shows "room h parents' < room h parents"
proof -
  have "a < length h" "a \<notin> set parents" "set parents' = insert a (set parents)"
    using assms node_at_bound [of h a n] by (auto simp: jsonp_loop_check_def split: if_splits)
  then have "{..<length h} - set parents' \<subset> {..<length h} - set parents" by blast
  then show ?thesis unfolding room_def by (intro psubset_card_mono) simp
qed

subsection \<open>The dumper\<close>

text \<open>The loops of \<open>do_dump\<close> read an array by \<open>json_array_size\<close> and \<open>json_array_get\<close>, that is
  \<open>elems\<close>, and an object by its iterators, that is \<open>entries\<close> (\<open>hashtable_iter_entries\<close>).\<close>

definition MAX_INTEGER_STR_LENGTH :: nat where "MAX_INTEGER_STR_LENGTH = 100"
definition MAX_REAL_STR_LENGTH :: nat where "MAX_REAL_STR_LENGTH = 100"

text \<open>Closing bracket, unless the top-level brackets are left out (\<open>JSON_EMBED\<close>).\<close>

definition bracket :: "bool \<Rightarrow> 'd dump_cb \<Rightarrow> byte \<Rightarrow> 'd \<Rightarrow> int \<times> 'd" where
  "bracket emb dump b = (if emb then (\<lambda>d. (0, d)) else dump [b])"

text \<open>After an element: a comma and a separator, or the closing indentation.\<close>

definition dump_sep :: "size_t \<Rightarrow> nat \<Rightarrow> bool \<Rightarrow> 'd dump_cb \<Rightarrow> 'd \<Rightarrow> int \<times> 'd" where
  "dump_sep flags depth another dump =
     (if another then andThen (dump [44]) (dump_indent flags (depth + 1) True dump)
      else dump_indent flags depth False dump)"

function do_dump :: "('r, 'z) libc_scheme \<Rightarrow> (size_t \<Rightarrow> bytes option) \<Rightarrow> 'r heap \<Rightarrow> addr \<Rightarrow> size_t \<Rightarrow> nat \<Rightarrow> addr list \<Rightarrow>
      'd dump_cb \<Rightarrow> 'd \<Rightarrow> int \<times> 'd"
  and dump_elems :: "('r, 'z) libc_scheme \<Rightarrow> (size_t \<Rightarrow> bytes option) \<Rightarrow> 'r heap \<Rightarrow> addr list \<Rightarrow> size_t \<Rightarrow> nat \<Rightarrow> addr list \<Rightarrow>
      'd dump_cb \<Rightarrow> 'd \<Rightarrow> int \<times> 'd"
  and dump_pairs :: "('r, 'z) libc_scheme \<Rightarrow> (size_t \<Rightarrow> bytes option) \<Rightarrow> 'r heap \<Rightarrow> (bytes \<times> addr) list \<Rightarrow> size_t \<Rightarrow> nat \<Rightarrow> addr list \<Rightarrow>
      'd dump_cb \<Rightarrow> 'd \<Rightarrow> int \<times> 'd"
where
  "do_dump libc do_malloc h json flags0 depth parents dump d =
     (let emb = flag flags0 JSON_EMBED; flags = clear_embed flags0 in
      case node_at h json of
        None \<Rightarrow> (-1, d)
      | Some NNull \<Rightarrow> dump (asc ''null'') d
      | Some NTrue \<Rightarrow> dump (asc ''true'') d
      | Some NFalse \<Rightarrow> dump (asc ''false'') d
      | Some (NInteger i) \<Rightarrow>
          let buffer = dec_int i in
          if length buffer \<ge> MAX_INTEGER_STR_LENGTH then (-1, d) else dump buffer d
      | Some (NReal r) \<Rightarrow>
          (case jsonp_dtostr libc MAX_REAL_STR_LENGTH r (FLAGS_TO_PRECISION flags) of
             None \<Rightarrow> (-1, d)
           | Some buffer \<Rightarrow> dump buffer d)
      | Some (NString s) \<Rightarrow> dump_string flags s dump d
      | Some (NArray arr) \<Rightarrow>
          (case jsonp_loop_check parents json of
             None \<Rightarrow> (-1, d)
           | Some parents' \<Rightarrow>
               andThen (bracket emb dump 91)
                 (if elems arr = [] then bracket emb dump 93
                  else andThen (dump_indent flags (depth + 1) False dump)
                    (andThen (\<lambda>d. dump_elems libc do_malloc h (elems arr) flags depth parents' dump d)
                      (bracket emb dump 93))) d)
      | Some (NObject ht) \<Rightarrow>
          (case jsonp_loop_check parents json of
             None \<Rightarrow> (-1, d)
           | Some parents' \<Rightarrow>
               andThen (bracket emb dump 123)
                 (if entries ht = [] then bracket emb dump 125
                  else andThen (dump_indent flags (depth + 1) False dump)
                    (andThen (\<lambda>d. if keys_alloc_fails do_malloc flags (entries ht) then (-1, d)
                          else dump_pairs libc do_malloc h (order_pairs flags (entries ht)) flags depth parents' dump d)
                      (bracket emb dump 125))) d))"
| "dump_elems libc do_malloc h [] flags depth parents dump d = (0, d)"
| "dump_elems libc do_malloc h (e # es) flags depth parents dump d =
     andThen (\<lambda>d. do_dump libc do_malloc h e flags (depth + 1) parents dump d)
       (andThen (dump_sep flags depth (es \<noteq> []) dump)
         (\<lambda>d. dump_elems libc do_malloc h es flags depth parents dump d)) d"
| "dump_pairs libc do_malloc h [] flags depth parents dump d = (0, d)"
| "dump_pairs libc do_malloc h ((k, v) # ps) flags depth parents dump d =
     (let (_, d1) = dump_string flags k dump d in
      andThen (dump (if flag flags JSON_COMPACT then asc '':'' else asc '': ''))
        (andThen (\<lambda>d. do_dump libc do_malloc h v flags (depth + 1) parents dump d)
          (andThen (dump_sep flags depth (ps \<noteq> []) dump)
            (\<lambda>d. dump_pairs libc do_malloc h ps flags depth parents dump d))) d1)"
  by pat_completeness auto
termination
  by (relation "measures [\<lambda>x. case x of
        Inl (libc, do_malloc, h, json, flags, depth, parents, dump, d) \<Rightarrow> room h parents
      | Inr (Inl (libc, do_malloc, h, es, flags, depth, parents, dump, d)) \<Rightarrow> room h parents
      | Inr (Inr (libc, do_malloc, h, ps, flags, depth, parents, dump, d)) \<Rightarrow> room h parents,
      \<lambda>x. case x of Inl _ \<Rightarrow> 0
      | Inr (Inl (libc, do_malloc, h, es, flags, depth, parents, dump, d)) \<Rightarrow> Suc (length es)
      | Inr (Inr (libc, do_malloc, h, ps, flags, depth, parents, dump, d)) \<Rightarrow> Suc (length ps)]")
    (auto dest: room_less)

declare do_dump.simps [simp del]

definition json_dump_callback ::
    "('r, 'z) libc_scheme \<Rightarrow> (size_t \<Rightarrow> bytes option) \<Rightarrow> 'r heap \<Rightarrow> addr \<Rightarrow> 'd dump_cb \<Rightarrow> 'd \<Rightarrow> size_t \<Rightarrow> int \<times> 'd" where
  "json_dump_callback libc do_malloc h json callback data flags =
     (if \<not> flag flags JSON_ENCODE_ANY \<and>
         (case node_at h json of Some (NArray _) \<Rightarrow> False | Some (NObject _) \<Rightarrow> False | _ \<Rightarrow> True)
      then (-1, data)
      else do_dump libc do_malloc h json flags 0 [] callback data)"

definition json_dumps ::
    "('r, 'z) libc_scheme \<Rightarrow> (size_t \<Rightarrow> bytes option) \<Rightarrow> 'r heap \<Rightarrow> addr \<Rightarrow> size_t \<Rightarrow> bytes option" where
  "json_dumps libc do_malloc h json flags =
     (let (r, strbuff) = strbuffer_init do_malloc in
      if r \<noteq> 0 then None
      else
        let (res, sb) = json_dump_callback libc do_malloc h json (dump_to_strbuffer do_malloc) strbuff flags in
        if res \<noteq> 0 then None else jsonp_strdup do_malloc (the (strbuffer_value sb)))"

text \<open>\<open>json_dumpb\<close> returns the number of bytes needed and leaves the caller's buffer changed.\<close>

definition json_dumpb ::
    "('r, 'z) libc_scheme \<Rightarrow> (size_t \<Rightarrow> bytes option) \<Rightarrow> 'r heap \<Rightarrow> addr \<Rightarrow> bytes \<Rightarrow> nat \<Rightarrow> size_t \<Rightarrow> nat \<times> bytes" where
  "json_dumpb libc do_malloc h json buffer sz flags =
     (let (res, buf) = json_dump_callback libc do_malloc h json dump_to_buffer
            \<lparr>db_size = sz, db_used = 0, db_data = buffer\<rparr> flags
      in (if res \<noteq> 0 then 0 else db_used buf, db_data buf))"

end
