(* ===== verification/DumpSpec.thy ===== *)
theory DumpSpec
  imports Dump
begin

text \<open>
  What the encoder writes. The specification is a function from JSON trees to text,
  \<open>jtext\<close>; a heap address represents a tree (\<open>repr\<close>) when following the references from
  it gives that tree. A sink is a dump callback that appends; on every sink \<open>do_dump\<close>
  writes exactly \<open>jtext\<close> of the represented tree, and it succeeds only on addresses
  that represent some tree: circular structures are refused.
\<close>

subsection \<open>The text of a value\<close>

definition ws_text :: "size_t \<Rightarrow> nat \<Rightarrow> bool \<Rightarrow> bytes" where
  "ws_text flags depth space =
     (if FLAGS_TO_INDENT flags > 0 then 10 # replicate ((depth * FLAGS_TO_INDENT flags) mod 2 ^ 32) 32
      else if space \<and> \<not> flag flags JSON_COMPACT then [32] else [])"

definition char_text :: "size_t \<Rightarrow> int \<Rightarrow> bytes" where
  "char_text flags c = (if must_escape flags c then escape_text c else enc c)"

text \<open>The code points of a valid byte string, and its quoted form.\<close>

function code_points :: "bytes \<Rightarrow> int list" where
  "code_points s =
     (if s = [] then []
      else (case utf8_iterate s (length s) of
              Some (k, Some c) \<Rightarrow> c # code_points (drop k s)
            | _ \<Rightarrow> []))"
  by pat_completeness auto
termination
  by (relation "measure length") (auto intro!: diff_less dest: utf8_iterate_progress)

declare code_points.simps [simp del]

definition str_text :: "size_t \<Rightarrow> bytes \<Rightarrow> bytes" where
  "str_text flags s = 34 # concat (map (char_text flags) (code_points s)) @ [34]"

definition sep_text :: "size_t \<Rightarrow> bytes" where
  "sep_text flags = (if flag flags JSON_COMPACT then asc '':'' else asc '': '')"

fun join :: "bytes \<Rightarrow> bytes list \<Rightarrow> bytes" where
  "join sep [] = []"
| "join sep [t] = t"
| "join sep (t # ts) = t @ sep @ join sep ts"

definition items_text :: "size_t \<Rightarrow> nat \<Rightarrow> bytes list \<Rightarrow> bytes" where
  "items_text flags depth ts =
     (if ts = [] then []
      else ws_text flags (depth + 1) False @ join (44 # ws_text flags (depth + 1) True) ts @
           ws_text flags depth False)"

fun jtext :: "('r, 'z) libc_scheme \<Rightarrow> size_t \<Rightarrow> nat \<Rightarrow> 'r json \<Rightarrow> bytes" where
  "jtext libc flags depth JNull = asc ''null''"
| "jtext libc flags depth JTrue = asc ''true''"
| "jtext libc flags depth JFalse = asc ''false''"
| "jtext libc flags depth (JInteger i) = dec_int i"
| "jtext libc flags depth (JReal r) =
     the (jsonp_dtostr libc MAX_REAL_STR_LENGTH r (FLAGS_TO_PRECISION flags))"
| "jtext libc flags depth (JString s) = str_text flags s"
| "jtext libc flags depth (JArray js) =
     91 # items_text flags depth (map (\<lambda>j. jtext libc flags (depth + 1) j) js) @ [93]"
| "jtext libc flags depth (JObject ps) =
     123 # items_text flags depth
       (map (\<lambda>p. str_text flags (fst p) @ sep_text flags @ snd p)
         (order_pairs flags (map (\<lambda>p. (fst p, jtext libc flags (depth + 1) (snd p))) ps))) @ [125]"

text \<open>Values the encoder can write.\<close>

fun dumpable :: "('r, 'z) libc_scheme \<Rightarrow> (size_t \<Rightarrow> bytes option) \<Rightarrow> size_t \<Rightarrow> 'r json \<Rightarrow> bool" where
  "dumpable libc do_malloc flags (JReal r) =
     (jsonp_dtostr libc MAX_REAL_STR_LENGTH r (FLAGS_TO_PRECISION flags) \<noteq> None)"
| "dumpable libc do_malloc flags (JString s) = valid_utf8 s"
| "dumpable libc do_malloc flags (JInteger i) = (length (dec_int i) < MAX_INTEGER_STR_LENGTH)"
| "dumpable libc do_malloc flags (JArray js) = (\<forall>j\<in>set js. dumpable libc do_malloc flags j)"
| "dumpable libc do_malloc flags (JObject ps) =
     (distinct (map fst ps) \<and> (ps \<noteq> [] \<longrightarrow> \<not> keys_alloc_fails do_malloc flags ps) \<and>
      (\<forall>p\<in>set ps. valid_utf8 (fst p) \<and> dumpable libc do_malloc flags (snd p)))"
| "dumpable libc do_malloc flags _ = True"

text \<open>\<open>JSON_EMBED\<close> leaves out the brackets of the outermost array or object.\<close>

definition container :: "'r json \<Rightarrow> bool" where
  "container j \<longleftrightarrow> (case j of JArray _ \<Rightarrow> True | JObject _ \<Rightarrow> True | _ \<Rightarrow> False)"

lemma container_simps [simp]:
  "container (JArray js)" "container (JObject ps)" "\<not> container (JString s)" "\<not> container (JInteger i)"
  "\<not> container (JReal r)" "\<not> container JTrue" "\<not> container JFalse" "\<not> container JNull"
  by (simp_all add: container_def)

definition unwrap :: "bool \<Rightarrow> 'r json \<Rightarrow> bytes \<Rightarrow> bytes" where
  "unwrap emb j t = (if emb \<and> container j then butlast (tl t) else t)"

definition doc_text :: "('r, 'z) libc_scheme \<Rightarrow> size_t \<Rightarrow> nat \<Rightarrow> 'r json \<Rightarrow> bytes" where
  "doc_text libc flags depth j =
     unwrap (flag flags JSON_EMBED) j (jtext libc (clear_embed flags) depth j)"

lemma clear_embed_flag [simp]: "\<not> flag (clear_embed flags) JSON_EMBED"
  by (simp add: flag_def clear_embed_def and.assoc)

lemma clear_embed_clear_embed [simp]: "clear_embed (clear_embed flags) = clear_embed flags"
  by (simp add: clear_embed_def and.assoc)

lemma doc_text_clear_embed [simp]:
  "doc_text libc (clear_embed flags) depth j = jtext libc (clear_embed flags) depth j"
  by (simp add: doc_text_def unwrap_def)

text \<open>Elements and pairs, separated by commas.\<close>

definition tail_text :: "size_t \<Rightarrow> nat \<Rightarrow> bytes list \<Rightarrow> bytes" where
  "tail_text flags depth ts =
     (if ts = [] then [] else join (44 # ws_text flags (depth + 1) True) ts @ ws_text flags depth False)"

lemma tail_text_Cons:
  "tail_text flags depth (t # ts) =
     t @ (if ts \<noteq> [] then 44 # ws_text flags (depth + 1) True else ws_text flags depth False) @
     tail_text flags depth ts"
  by (cases ts) (simp_all add: tail_text_def)

subsection \<open>Paths\<close>

text \<open>A tree cannot contain itself, so no address on the path to a represented tree is met
  again: the loop check never fires there.\<close>

definition path_above :: "'r heap \<Rightarrow> addr list \<Rightarrow> 'r json \<Rightarrow> bool" where
  "path_above h parents j \<longleftrightarrow> (\<forall>p\<in>set parents. \<exists>jp. repr h p jp \<and> size j < size jp)"

lemma above_loop_check: "path_above h parents j \<Longrightarrow> repr h a j \<Longrightarrow> jsonp_loop_check parents a = Some (a # parents)"
  by (auto simp: path_above_def jsonp_loop_check_def dest: repr_fun)

lemma above_child: "path_above h parents j \<Longrightarrow> repr h a j \<Longrightarrow> size c < size j \<Longrightarrow> path_above h (a # parents) c"
  unfolding path_above_def by (auto intro: less_trans)

subsection \<open>Strings\<close>

lemma iterate_enc_all:
  "scalar c \<Longrightarrow> utf8_iterate (enc c @ bs) (length (enc c @ bs)) = Some (length (enc c), Some c)"
  by (rule utf8_iterate_enc) auto

lemma code_points_enc_all: "list_all scalar cs \<Longrightarrow> code_points (enc_all cs) = cs"
proof (induction cs)
  case (Cons c cs)
  then show ?case
    using iterate_enc_all [of c "enc_all cs"] by (subst code_points.simps) simp
qed (simp add: code_points.simps)

lemma valid_utf8_code_points:
  "valid_utf8 s \<Longrightarrow> list_all scalar (code_points s) \<and> s = enc_all (code_points s)"
  by (auto simp: valid_utf8_def code_points_enc_all)

text \<open>The scan stops at the first code point to be escaped.\<close>

lemma dump_scan_enc_all:
  assumes "list_all scalar cs"
  shows "dump_scan flags (enc_all cs) =
    Some (length (enc_all (takeWhile (\<lambda>c. \<not> must_escape flags c) cs)),
      case dropWhile (\<lambda>c. \<not> must_escape flags c) cs of [] \<Rightarrow> None | c # _ \<Rightarrow> Some (c, length (enc c)))"
  using assms
proof (induction cs)
  case (Cons c cs)
  then show ?case
    using iterate_enc_all [of c "enc_all cs"] by (subst dump_scan.simps) simp
qed (simp add: dump_scan.simps)

lemma char_text_plain:
  "list_all (\<lambda>c. \<not> must_escape flags c) cs \<Longrightarrow> concat (map (char_text flags) cs) = enc_all cs"
  by (induction cs) (auto simp: char_text_def)

subsection \<open>Order of the pairs\<close>

lemma set_insert_key [simp]: "set (insert_key k ks) = insert k (set ks)"
  by (induction ks) auto

lemma set_qsort_keys [simp]: "set (qsort_keys ks) = set ks"
  by (induction ks) auto

lemma length_qsort_keys [simp]: "length (qsort_keys ks) = length ks"
proof -
  have "length (insert_key k xs) = Suc (length xs)" for k xs by (induction xs) auto
  then show ?thesis by (induction ks) auto
qed

lemma sort_pairs_map:
  "sort_pairs (map (\<lambda>p. (fst p, f (snd p))) ps) = map (\<lambda>p. (fst p, f (snd p))) (sort_pairs ps)"
proof -
  have "map_of (map (\<lambda>p. (fst p, f (snd p))) ps) k = map_option f (map_of ps k)" for k
    by (induction ps) auto
  moreover have "k \<in> set (map fst ps) \<Longrightarrow> map_of ps k \<noteq> None" for k
    by (auto simp: map_of_eq_None_iff)
  ultimately show ?thesis
    by (auto simp: sort_pairs_def comp_def intro!: option.map_sel)
qed

lemma set_sort_pairs: "distinct (map fst ps) \<Longrightarrow> set (sort_pairs ps) = set ps"
  by (force simp: sort_pairs_def image_iff)

lemma order_pairs_map:
  "order_pairs flags (map (\<lambda>p. (fst p, f (snd p))) ps) = map (\<lambda>p. (fst p, f (snd p))) (order_pairs flags ps)"
  by (simp add: order_pairs_def sort_pairs_map)

lemma set_order_pairs: "distinct (map fst ps) \<Longrightarrow> set (order_pairs flags ps) = set ps"
  by (simp add: order_pairs_def set_sort_pairs)

lemma order_pairs_Nil_iff [simp]: "order_pairs flags ps = [] \<longleftrightarrow> ps = []"
  by (auto simp: order_pairs_def sort_pairs_def simp flip: length_0_conv)

text \<open>Pairs with the same keys and related values.\<close>

definition pairs_rel :: "('a \<Rightarrow> 'b \<Rightarrow> bool) \<Rightarrow> (bytes \<times> 'a) list \<Rightarrow> (bytes \<times> 'b) list \<Rightarrow> bool" where
  "pairs_rel R = list_all2 (\<lambda>p q. fst p = fst q \<and> R (snd p) (snd q))"

lemma pairs_rel_keys: "pairs_rel R ps qs \<Longrightarrow> map fst ps = map fst qs"
  unfolding pairs_rel_def by (induction rule: list_all2_induct) auto

lemma pairs_rel_order: "pairs_rel R ps qs \<Longrightarrow> pairs_rel R (order_pairs flags ps) (order_pairs flags qs)"
proof -
  assume R: "pairs_rel R ps qs"
  then have "rel_option R (map_of ps k) (map_of qs k)" for k
    unfolding pairs_rel_def by (induction rule: list_all2_induct) auto
  moreover have "k \<in> set (map fst qs) \<Longrightarrow> map_of qs k \<noteq> None" for k
    by (auto simp: map_of_eq_None_iff)
  ultimately have "k \<in> set (map fst qs) \<Longrightarrow> R (the (map_of ps k)) (the (map_of qs k))" for k
    by (metis option.rel_sel)
  with R show ?thesis
    unfolding order_pairs_def sort_pairs_def pairs_rel_keys [OF R]
    by (auto simp: pairs_rel_def list_all2_map1 list_all2_map2 intro!: list.rel_refl_strong)
qed

lemma pairs_rel_map2:
  "pairs_rel R ps qs \<Longrightarrow> map2 (\<lambda>p t. f (fst p) t) ps (map g qs) = map (\<lambda>q. f (fst q) (g q)) qs"
  unfolding pairs_rel_def by (induction rule: list_all2_induct) auto

subsection \<open>Sinks\<close>

text \<open>\<open>R d s\<close>: the user data \<open>d\<close> holds the text \<open>s\<close> written so far. Up to \<open>cap\<close> bytes in all,
  the action succeeds and appends its text.\<close>

definition writes :: "('d \<Rightarrow> bytes \<Rightarrow> bool) \<Rightarrow> nat \<Rightarrow> ('d \<Rightarrow> int \<times> 'd) \<Rightarrow> bytes \<Rightarrow> bool" where
  "writes R cap f txt \<longleftrightarrow> (\<forall>d s. R d s \<longrightarrow> length s + length txt \<le> cap \<longrightarrow>
     (\<exists>d'. f d = (0, d') \<and> R d' (s @ txt)))"

lemma writes_nothing [simp]: "writes R cap (\<lambda>d. (0, d)) []"
  by (simp add: writes_def)

lemma writes_seq:
  assumes "writes R cap f s" "writes R cap g t" "\<And>d d1. f d = (0, d1) \<Longrightarrow> k d = g d1"
  shows "writes R cap k (s @ t)"
  unfolding writes_def
proof (intro allI impI)
  fix d u assume d: "R d u" "length u + length (s @ t) \<le> cap"
  with assms(1) obtain d1 where 1: "f d = (0, d1)" "R d1 (u @ s)"
    unfolding writes_def by fastforce
  with d assms(2) obtain d2 where "g d1 = (0, d2)" "R d2 ((u @ s) @ t)"
    unfolding writes_def by fastforce
  with 1 assms(3) show "\<exists>d'. k d = (0, d') \<and> R d' (u @ s @ t)" by simp
qed

lemma writes_andThen:
  "writes R cap f s \<Longrightarrow> writes R cap g t \<Longrightarrow> writes R cap (andThen f g) (s @ t)"
  by (erule (1) writes_seq) (simp add: andThen_def)

text \<open>A status that the caller does not look at.\<close>

lemma writes_ignore:
  "writes R cap f s \<Longrightarrow> writes R cap g t \<Longrightarrow>
   writes R cap (\<lambda>d. let (_, d1) = f d in g d1) (s @ t)"
  by (erule (1) writes_seq) simp

lemma writes_cong: "writes R cap f t \<Longrightarrow> (\<And>d. g d = f d) \<Longrightarrow> writes R cap g t"
  by (simp add: writes_def)

locale dump_sink =
  fixes cb :: "'d dump_cb" and R :: "'d \<Rightarrow> bytes \<Rightarrow> bool" and cap :: nat
  assumes cb_writes: "writes R cap (cb bs) bs"
begin

lemma dump_spaces_writes: "writes R cap (dump_spaces cb n) (replicate n 32)"
proof (induction n rule: less_induct)
  case (less n)
  show ?case
  proof (cases "n = 0")
    case True
    have "writes R cap (dump_spaces cb 0) []"
      by (rule writes_cong [OF writes_nothing]) (simp add: dump_spaces.simps)
    with True show ?thesis by simp
  next
    case False
    have "writes R cap (andThen (cb (replicate (min n 32) 32)) (dump_spaces cb (n - min n 32)))
        (replicate (min n 32) 32 @ replicate (n - min n 32) 32)"
      using False by (intro writes_andThen cb_writes less.IH) simp
    then show ?thesis
      using False by (simp flip: replicate_add) (erule writes_cong, subst dump_spaces.simps, simp add: Let_def)
  qed
qed

lemma dump_indent_writes: "writes R cap (dump_indent flags depth space cb) (ws_text flags depth space)"
proof (cases "FLAGS_TO_INDENT flags > 0")
  case True
  have "writes R cap (andThen (cb [10]) (dump_spaces cb n)) ([10] @ replicate n 32)" for n
    by (intro writes_andThen cb_writes dump_spaces_writes)
  with True show ?thesis by (simp add: dump_indent_def ws_text_def)
next
  case False
  with cb_writes [of "[32]"] show ?thesis by (simp add: dump_indent_def ws_text_def)
qed

lemma chunk_writes: "writes R cap (\<lambda>d. if n \<noteq> 0 then cb (take n s) d else (0, d)) (take n s)"
  using cb_writes [of "take n s"] by (cases "n = 0") simp_all

lemma dump_string_loop_writes:
  "list_all scalar cs \<Longrightarrow>
   writes R cap (dump_string_loop flags cb (enc_all cs)) (concat (map (char_text flags) cs) @ [34])"
proof (induction "length cs" arbitrary: cs rule: less_induct)
  case less
  let ?P = "\<lambda>c. \<not> must_escape flags c"
  let ?a = "takeWhile ?P cs" and ?n = "length (enc_all (takeWhile ?P cs))"
  have cs: "cs = ?a @ dropWhile ?P cs" by simp
  have a: "concat (map (char_text flags) ?a) = enc_all ?a"
    by (rule char_text_plain) (auto simp: list_all_iff dest: set_takeWhileD)
  have tk: "take ?n (enc_all cs) = enc_all ?a"
    by (metis append_eq_conv_conj cs enc_all_simps(3))
  show ?case
  proof (cases "dropWhile ?P cs")
    case Nil
    with cs have eq: "cs = ?a" by simp
    have "writes R cap (andThen (\<lambda>d. if ?n \<noteq> 0 then cb (take ?n (enc_all cs)) d else (0, d)) (cb [34]))
        (take ?n (enc_all cs) @ [34])"
      by (intro writes_andThen chunk_writes cb_writes)
    then have "writes R cap (dump_string_loop flags cb (enc_all cs)) (take ?n (enc_all cs) @ [34])"
      by (rule writes_cong) (subst dump_string_loop.simps, simp add: dump_scan_enc_all less.prems Nil)
    then show ?thesis using a eq tk by simp
  next
    case (Cons c ds)
    have c: "must_escape flags c" using Cons by (metis (full_types) hd_dropWhile list.distinct(1) list.sel(1))
    have cs2: "cs = ?a @ c # ds" using cs Cons by simp
    have sc: "list_all scalar ds" "length ds < length cs"
      using less.prems by (subst (asm) cs2, simp) (subst cs2, simp)
    have dr: "drop (?n + length (enc c)) (enc_all cs) = enc_all ds"
      by (subst (2) cs2) simp
    have "writes R cap (andThen (\<lambda>d. if ?n \<noteq> 0 then cb (take ?n (enc_all cs)) d else (0, d))
        (andThen (cb (escape_text c)) (dump_string_loop flags cb (enc_all ds))))
        (take ?n (enc_all cs) @ escape_text c @ concat (map (char_text flags) ds) @ [34])"
      using less.hyps [OF sc(2) sc(1)] by (intro writes_andThen chunk_writes cb_writes)
    then have "writes R cap (dump_string_loop flags cb (enc_all cs))
        (take ?n (enc_all cs) @ escape_text c @ concat (map (char_text flags) ds) @ [34])"
      by (rule writes_cong)
        (subst dump_string_loop.simps, simp add: dump_scan_enc_all less.prems Cons dr)
    moreover have "concat (map (char_text flags) cs) =
        enc_all ?a @ escape_text c @ concat (map (char_text flags) ds)"
      by (subst (1) cs2) (simp add: a char_text_def c)
    ultimately show ?thesis by (simp add: tk)
  qed
qed

lemma dump_string_writes: "valid_utf8 s \<Longrightarrow> writes R cap (dump_string flags s cb) (str_text flags s)"
  using writes_andThen [OF cb_writes [of "[34]"] dump_string_loop_writes [of "code_points s" flags]]
    valid_utf8_code_points [of s]
  by (simp add: dump_string_def str_text_def)

lemma dump_sep_writes:
  "writes R cap (dump_sep flags depth another cb)
     (if another then 44 # ws_text flags (depth + 1) True else ws_text flags depth False)"
  using writes_andThen [OF cb_writes [of "[44]"] dump_indent_writes [of flags "depth + 1" True]]
    dump_indent_writes [of flags depth False]
  by (simp add: dump_sep_def)

lemma bracket_writes: "writes R cap (bracket emb cb b) (if emb then [] else [b])"
  using cb_writes [of "[b]"] by (simp add: bracket_def)

lemma dump_elems_writes:
  "list_all2 (\<lambda>e t. writes R cap (do_dump libc m h e flags (depth + 1) parents cb) t) es ts \<Longrightarrow>
   writes R cap (dump_elems libc m h es flags depth parents cb) (tail_text flags depth ts)"
proof (induction rule: list_all2_induct)
  case Nil
  have "writes R cap (dump_elems libc m h [] flags depth parents cb) []"
    by (rule writes_cong [OF writes_nothing]) simp
  then show ?case by (simp add: tail_text_def)
next
  case (Cons e es t ts)
  have "writes R cap (andThen (do_dump libc m h e flags (depth + 1) parents cb)
      (andThen (dump_sep flags depth (ts \<noteq> []) cb) (dump_elems libc m h es flags depth parents cb)))
      (tail_text flags depth (t # ts))"
    unfolding tail_text_Cons by (intro writes_andThen dump_sep_writes Cons)
  then show ?case
    using list_all2_lengthD [OF Cons(2)] by (elim writes_cong) (cases "ts = []"; cases es; simp)
qed

lemma dump_pairs_writes:
  "list_all2 (\<lambda>p t. writes R cap (do_dump libc m h (snd p) flags (depth + 1) parents cb) t) ps ts \<Longrightarrow>
   \<forall>p\<in>set ps. valid_utf8 (fst p) \<Longrightarrow>
   writes R cap (dump_pairs libc m h ps flags depth parents cb)
     (tail_text flags depth (map2 (\<lambda>p t. str_text flags (fst p) @ sep_text flags @ t) ps ts))"
proof (induction rule: list_all2_induct)
  case Nil
  have "writes R cap (dump_pairs libc m h [] flags depth parents cb) []"
    by (rule writes_cong [OF writes_nothing]) simp
  then show ?case by (simp add: tail_text_def)
next
  case (Cons p ps t ts)
  let ?rest = "andThen (cb (sep_text flags)) (andThen (do_dump libc m h (snd p) flags (depth + 1) parents cb)
      (andThen (dump_sep flags depth (ps \<noteq> []) cb) (dump_pairs libc m h ps flags depth parents cb)))"
  let ?tail = "tail_text flags depth (map2 (\<lambda>p t. str_text flags (fst p) @ sep_text flags @ t) ps ts)"
  have len: "length ps = length ts" using Cons(2) by (rule list_all2_lengthD)
  have 1: "writes R cap (dump_string flags (fst p) cb) (str_text flags (fst p))"
    using Cons.prems by (intro dump_string_writes) simp
  have "writes R cap ?rest (sep_text flags @ t @
      (if ps \<noteq> [] then 44 # ws_text flags (depth + 1) True else ws_text flags depth False) @ ?tail)"
    using Cons by (intro writes_andThen dump_sep_writes cb_writes) auto
  from writes_ignore [OF 1 this]
  have "writes R cap (\<lambda>d. let (_, d1) = dump_string flags (fst p) cb d in ?rest d1)
      (tail_text flags depth (map2 (\<lambda>p t. str_text flags (fst p) @ sep_text flags @ t) (p # ps) (t # ts)))"
    using len by (cases ps; cases ts) (simp_all add: tail_text_Cons)
  then show ?case by (rule writes_cong) (cases p, simp add: sep_text_def)
qed

text \<open>A container: bracket, indentation, the items and the closing bracket.\<close>

lemma container_writes:
  assumes "xs \<noteq> [] \<Longrightarrow> writes R cap items (tail_text flags depth ts)" "xs = [] \<longleftrightarrow> ts = []"
  shows "writes R cap (andThen (bracket emb cb b)
      (if xs = [] then bracket emb cb c
       else andThen (dump_indent flags (depth + 1) False cb) (andThen items (bracket emb cb c))))
    ((if emb then [] else [b]) @ items_text flags depth ts @ (if emb then [] else [c]))"
proof (cases "xs = []")
  case True
  with writes_andThen [OF bracket_writes [of emb b] bracket_writes [of emb c]] assms(2) show ?thesis
    by (simp add: items_text_def)
next
  case False
  with assms(1) have "writes R cap (andThen (bracket emb cb b)
      (andThen (dump_indent flags (depth + 1) False cb) (andThen items (bracket emb cb c))))
    ((if emb then [] else [b]) @ ws_text flags (depth + 1) False @ tail_text flags depth ts @
      (if emb then [] else [c]))"
    by (intro writes_andThen bracket_writes dump_indent_writes)
  with False assms(2) show ?thesis by (simp add: items_text_def tail_text_def)
qed

lemma do_dump_writes:
  assumes "repr h a j" "dumpable libc m (clear_embed flags) j" "path_above h parents j"
  shows "writes R cap (do_dump libc m h a flags depth parents cb) (doc_text libc flags depth j)"
  using assms
proof (induction j arbitrary: a flags depth parents rule: json.induct)
  case (JArray js)
  let ?f = "clear_embed flags"
  from JArray.prems(1) obtain arr where na: "node_at h a = Some (NArray arr)" "list_all2 (repr h) (elems arr) js"
    by (auto simp: repr_JArray)
  define as where "as = elems arr"
  note n = na [folded as_def]
  note lc = above_loop_check [OF JArray.prems(3,1)]
  have "list_all2 (\<lambda>e t. writes R cap (do_dump libc m h e ?f (depth + 1) (a # parents) cb) t) as
      (map (jtext libc ?f (depth + 1)) js)"
    unfolding list_all2_map2
  proof (rule list.rel_mono_strong [OF n(2)])
    fix e j assume "j \<in> set js" "repr h e j"
    with JArray.IH [of j e ?f "a # parents" "depth + 1"] JArray.prems
    show "writes R cap (do_dump libc m h e ?f (depth + 1) (a # parents) cb) (jtext libc ?f (depth + 1) j)"
      using above_child [OF JArray.prems(3,1) size_elem] by simp
  qed
  from dump_elems_writes [OF this] have "writes R cap (dump_elems libc m h as ?f depth (a # parents) cb)
      (tail_text ?f depth (map (jtext libc ?f (depth + 1)) js))" .
  moreover have "as = [] \<longleftrightarrow> map (jtext libc ?f (depth + 1)) js = []" using n(2) by auto
  ultimately have "writes R cap (andThen (bracket (flag flags JSON_EMBED) cb 91)
      (if as = [] then bracket (flag flags JSON_EMBED) cb 93
       else andThen (dump_indent ?f (depth + 1) False cb)
         (andThen (dump_elems libc m h as ?f depth (a # parents) cb) (bracket (flag flags JSON_EMBED) cb 93))))
      ((if flag flags JSON_EMBED then [] else [91]) @
       items_text ?f depth (map (jtext libc ?f (depth + 1)) js) @
       (if flag flags JSON_EMBED then [] else [93]))"
    by (rule container_writes)
  then have "writes R cap (do_dump libc m h a flags depth parents cb)
      ((if flag flags JSON_EMBED then [] else [91]) @
       items_text ?f depth (map (jtext libc ?f (depth + 1)) js) @
       (if flag flags JSON_EMBED then [] else [93]))"
    by (rule writes_cong) (simp add: do_dump.simps n lc Let_def flip: as_def)
  then show ?case by (simp add: doc_text_def unwrap_def split: if_splits)
next
  case (JObject ps)
  let ?f = "clear_embed flags"
  let ?t = "\<lambda>p. jtext libc ?f (depth + 1) (snd p)"
  let ?ps = "order_pairs ?f ps"
  from JObject.prems(1) obtain ht where na: "node_at h a = Some (NObject ht)" "pairs_rel (repr h) (entries ht) ps"
    by (auto simp: repr_JObject pairs_rel_def)
  define qs where "qs = entries ht"
  note n = na [folded qs_def]
  let ?qs = "order_pairs ?f qs"
  note lc = above_loop_check [OF JObject.prems(3,1)]
  have d: "distinct (map fst ps)" "\<And>p. p \<in> set ps \<Longrightarrow> valid_utf8 (fst p) \<and> dumpable libc m ?f (snd p)"
    using JObject.prems(2) by auto
  have qs: "qs = [] \<longleftrightarrow> ps = []" "length qs = length ps" "map fst qs = map fst ps"
    using n(2) pairs_rel_keys [OF n(2)] by (auto simp: pairs_rel_def dest: list_all2_lengthD)
  have o: "pairs_rel (repr h) ?qs ?ps" by (rule pairs_rel_order [OF n(2)])
  have "list_all2 (\<lambda>p t. writes R cap (do_dump libc m h (snd p) ?f (depth + 1) (a # parents) cb) t) ?qs
      (map ?t ?ps)"
    unfolding list_all2_map2
  proof (rule list.rel_mono_strong [OF o [unfolded pairs_rel_def]])
    fix q p assume p: "p \<in> set ?ps" "fst q = fst p \<and> repr h (snd q) (snd p)"
    then have "p \<in> set ps" by (simp add: set_order_pairs d)
    with p JObject.IH [of p "snd p" "snd q" ?f "a # parents" "depth + 1"] d
    show "writes R cap (do_dump libc m h (snd q) ?f (depth + 1) (a # parents) cb) (?t p)"
      using above_child [OF JObject.prems(3,1) size_pair] by (simp add: prod_set_defs)
  qed
  moreover have "\<forall>q\<in>set ?qs. valid_utf8 (fst q)"
  proof
    fix q assume "q \<in> set ?qs"
    then have "fst q \<in> set (map fst ps)" by (metis d(1) image_eqI list.set_map qs(3) set_order_pairs)
    with d(2) show "valid_utf8 (fst q)" by auto
  qed
  ultimately have "writes R cap (dump_pairs libc m h ?qs ?f depth (a # parents) cb)
      (tail_text ?f depth (map (\<lambda>p. str_text ?f (fst p) @ sep_text ?f @ ?t p) ?ps))"
    using dump_pairs_writes [of libc m h ?f depth "a # parents" ?qs "map ?t ?ps"]
      pairs_rel_map2 [OF o, of "\<lambda>k t. str_text ?f k @ sep_text ?f @ t" ?t] by simp
  moreover have "ps \<noteq> [] \<Longrightarrow> \<not> keys_alloc_fails m ?f qs"
    using JObject.prems(2) by (auto simp: keys_alloc_fails_def qs)
  ultimately have "qs \<noteq> [] \<Longrightarrow> writes R cap
      (\<lambda>d. if keys_alloc_fails m ?f qs then (-1, d) else dump_pairs libc m h ?qs ?f depth (a # parents) cb d)
      (tail_text ?f depth (map (\<lambda>p. str_text ?f (fst p) @ sep_text ?f @ ?t p) ?ps))"
    by (simp add: qs)
  then have "writes R cap (andThen (bracket (flag flags JSON_EMBED) cb 123)
      (if qs = [] then bracket (flag flags JSON_EMBED) cb 125
       else andThen (dump_indent ?f (depth + 1) False cb)
         (andThen (\<lambda>d. if keys_alloc_fails m ?f qs then (-1, d) else dump_pairs libc m h ?qs ?f depth (a # parents) cb d)
           (bracket (flag flags JSON_EMBED) cb 125))))
      ((if flag flags JSON_EMBED then [] else [123]) @
       items_text ?f depth (map (\<lambda>p. str_text ?f (fst p) @ sep_text ?f @ ?t p) ?ps) @
       (if flag flags JSON_EMBED then [] else [125]))"
    using qs(1) by (intro container_writes) simp_all
  then have "writes R cap (do_dump libc m h a flags depth parents cb)
      ((if flag flags JSON_EMBED then [] else [123]) @
       items_text ?f depth (map (\<lambda>p. str_text ?f (fst p) @ sep_text ?f @ ?t p) ?ps) @
       (if flag flags JSON_EMBED then [] else [125]))"
    unfolding qs_def by (rule writes_cong) (simp add: do_dump.simps na lc Let_def)
  then show ?case by (simp add: doc_text_def unwrap_def order_pairs_map comp_def split: if_splits)
next
  case (JString s)
  then show ?case
    by (auto intro!: writes_cong [OF dump_string_writes] simp: do_dump.simps doc_text_def unwrap_def)
qed (rule writes_cong [OF cb_writes], (force simp: do_dump.simps doc_text_def unwrap_def)[1])+

lemma json_dump_callback_writes:
  assumes "repr h a j" "dumpable libc m (clear_embed flags) j"
    "flag flags JSON_ENCODE_ANY \<or> container j"
  shows "writes R cap (\<lambda>d. json_dump_callback libc m h a cb d flags) (doc_text libc flags 0 j)"
proof -
  have "\<not> flag flags JSON_ENCODE_ANY \<Longrightarrow>
      \<not> (case node_at h a of Some (NArray _) \<Rightarrow> False | Some (NObject _) \<Rightarrow> False | _ \<Rightarrow> True)"
    using assms(1,3) by (cases j) (auto simp: repr_JArray repr_JObject)
  then show ?thesis
    using do_dump_writes [OF assms(1,2), of "[]" 0]
    by (auto simp: json_dump_callback_def path_above_def elim!: writes_cong)
qed

end

end
