(* ===== verification/StringText.thy ===== *)
theory StringText
  imports LexView DumpSpec
begin

text \<open>
  Strings as the encoder writes them, read back: the quoted text of a string is scanned to
  its closing quote and unescaped to the string it came from.
\<close>

subsection \<open>Hexadecimal digits\<close>

lemma schar_of_nat: "n < 128 \<Longrightarrow> schar (of_nat n) = int n"
  by (simp add: schar_uint uint_nat unat_of_nat)

lemma schar_hex_digit: "d < 16 \<Longrightarrow> schar (hex_digit 65 d) = (if d < 10 then 48 + int d else 55 + int d)"
  by (simp add: hex_digit_def schar_of_nat del: of_nat_add)

lemma hex4_digits:
  "n < 65536 \<Longrightarrow> hex4 n = map (hex_digit 65) [n div 4096, n div 256 mod 16, n div 16 mod 16, n mod 16]"
proof -
  assume n: "n < 65536"
  have z: "hex_digit 65 0 = 48" by (simp add: hex_digit_def)
  have r: "replicate 3 (48::byte) = [48, 48, 48]" "replicate 2 (48::byte) = [48, 48]"
    by (simp_all add: numeral_eq_Suc)
  have d: "n div 16 div 16 = n div 256" "n div 16 div 16 div 16 = n div 4096" "n div 256 div 16 = n div 4096"
    by (simp_all add: div_mult2_eq [symmetric])
  consider "n < 16" | "16 \<le> n" "n < 256" | "256 \<le> n" "n < 4096" | "4096 \<le> n" by linarith
  then show ?thesis
  proof cases
    case 1
    then show ?thesis by (simp add: hex4_def hex_upper_def hex_nat.simps z r)
  next
    case 2
    then have "n div 16 < 16" by auto
    with 2 show ?thesis
      by (simp add: hex4_def hex_upper_def hex_nat.simps [of _ n] hex_nat.simps [of _ "n div 16"] z r)
  next
    case 3
    then have "n div 256 < 16" "16 \<le> n div 16" by auto
    with 3 show ?thesis
      by (simp add: hex4_def hex_upper_def hex_nat.simps [of _ n] hex_nat.simps [of _ "n div 16"]
          hex_nat.simps [of _ "n div 256"] z d)
  next
    case 4
    with n have "n div 4096 < 16" "16 \<le> n div 16" "16 \<le> n div 256" by auto
    with 4 show ?thesis
      by (simp add: hex4_def hex_upper_def hex_nat.simps [of _ n] hex_nat.simps [of _ "n div 16"]
          hex_nat.simps [of _ "n div 256"] hex_nat.simps [of _ "n div 4096"] z d)
  qed
qed

lemma hex4_xdigits: "n < 65536 \<Longrightarrow> length (hex4 n) = 4 \<and> (\<forall>h\<in>set (hex4 n). l_isxdigit (schar h))"
proof -
  assume n: "n < 65536"
  have x: "d < 16 \<Longrightarrow> l_isxdigit (schar (hex_digit 65 d))" for d
    by (simp add: schar_hex_digit char_classes)
  have "n div 4096 < 16" using n by auto
  then show ?thesis by (simp add: hex4_digits n x)
qed

lemma decode_hex_step:
  "0 < n \<Longrightarrow> d < 16 \<Longrightarrow> byte_at str (5 - n) = hex_digit 65 d \<Longrightarrow>
   decode_hex str n v = decode_hex str (n - 1) (v * 16 + int d)"
  by (cases n) (simp_all add: schar_hex_digit char_classes push_bit_eq_mult Let_def)

lemma decode_hex_digits:
  assumes "a < 16" "b < 16" "c < 16" "d < 16"
  shows "decode_unicode_escape (117 # hex_digit 65 a # hex_digit 65 b # hex_digit 65 c # hex_digit 65 d # r) =
    ((int a * 16 + int b) * 16 + int c) * 16 + int d" (is "decode_unicode_escape ?s = _")
proof -
  have "decode_hex ?s 4 0 = decode_hex ?s 3 (int a)"
    using decode_hex_step [of 4 a ?s 0] assms(1) by (simp add: byte_at_def)
  also have "\<dots> = decode_hex ?s 2 (int a * 16 + int b)"
    using decode_hex_step [of 3 b ?s] assms(2) by (simp add: byte_at_def)
  also have "\<dots> = decode_hex ?s 1 ((int a * 16 + int b) * 16 + int c)"
    using decode_hex_step [of 2 c ?s] assms(3) by (simp add: byte_at_def)
  also have "\<dots> = decode_hex ?s 0 (((int a * 16 + int b) * 16 + int c) * 16 + int d)"
    using decode_hex_step [of 1 d ?s] assms(4) by (simp add: byte_at_def)
  finally show ?thesis by (simp add: decode_unicode_escape_def)
qed

lemma nibbles: "((n div 4096 * 16 + n div 256 mod 16) * 16 + n div 16 mod 16) * 16 + n mod 16 = (n::nat)"
proof -
  have "n div 4096 = n div 16 div 16 div 16" "n div 256 = n div 16 div 16"
    by (simp_all add: div_mult2_eq [symmetric])
  then show ?thesis by (simp only: div_mult_mod_eq)
qed

lemma decode_hex4:
  assumes "n < 65536"
  shows "decode_unicode_escape (117 # hex4 n @ r) = int n"
proof -
  have "n div 4096 < 16" using assms by auto
  then have "decode_unicode_escape (117 # hex4 n @ r) =
      int (((n div 4096 * 16 + n div 256 mod 16) * 16 + n div 16 mod 16) * 16 + n mod 16)"
    using decode_hex_digits [of "n div 4096" "n div 256 mod 16" "n div 16 mod 16" "n mod 16" r]
    by (simp add: hex4_digits assms)
  then show ?thesis by (simp only: nibbles)
qed

subsection \<open>Characters\<close>

lemma must_escape_plain:
  assumes "scalar c" "\<not> must_escape flags c" "b \<in> set (enc c)"
  shows "plain_byte b"
proof -
  have "c \<noteq> 0" using assms(2) by (auto simp: must_escape_def)
  with assms have "good_byte b" by (intro enc_good)
  moreover have "uint b < 0x80 \<Longrightarrow> uint b = c" using enc_bytes [OF assms(1,3)] by simp
  ultimately show ?thesis
    using assms(2) byte_range [of b]
    by (auto simp: plain_byte_def must_escape_def schar_uint split: if_splits)
qed

lemma or_field: "0 \<le> y \<Longrightarrow> y < 1024 \<Longrightarrow> a AND 0x3FF = 0 \<Longrightarrow> a OR y = a + (y::int)"
proof -
  assume y: "0 \<le> y" "y < 1024" and a: "a AND 0x3FF = 0"
  have "y = 0x3FF AND y" using y by (simp add: and.commute [of "0x3FF"] mask_simps)
  then have "a AND y = 0" using a by (metis and.assoc and_zero_eq and.commute)
  then show ?thesis by (simp add: disjunctive_add_eq_or)
qed

text \<open>The UTF-16 surrogates of a code point outside the basic plane.\<close>

definition hi_surrogate :: "int \<Rightarrow> int" where
  "hi_surrogate c = 0xD800 + (c - 0x10000) div 1024"

definition lo_surrogate :: "int \<Rightarrow> int" where
  "lo_surrogate c = 0xDC00 + (c - 0x10000) mod 1024"

lemma surrogate_range:
  "0x10000 \<le> c \<Longrightarrow> c \<le> 0x10FFFF \<Longrightarrow> 0xD800 \<le> hi_surrogate c \<and> hi_surrogate c \<le> 0xDBFF"
  "0xDC00 \<le> lo_surrogate c \<and> lo_surrogate c \<le> 0xDFFF"
  by (auto simp: hi_surrogate_def lo_surrogate_def)

lemma surrogate_join:
  "push_bit 10 (hi_surrogate c - 0xD800) + (lo_surrogate c - 0xDC00) + 0x10000 = c"
  using div_mult_mod_eq [of "c - 0x10000" 1024]
  by (simp add: hi_surrogate_def lo_surrogate_def push_bit_eq_mult)

lemma escape_text_wide:
  assumes "0x10000 \<le> c" "c \<le> 0x10FFFF"
  shows "escape_text c = [92, 117] @ hex4 (nat (hi_surrogate c)) @ [92, 117] @ hex4 (nat (lo_surrogate c))"
proof -
  let ?x = "c - 0x10000"
  have "?x div 1024 < 1024" "0 \<le> ?x div 1024" using assms by auto
  moreover have "drop_bit 10 (?x AND 0xffc00) = ?x div 1024 mod 1024"
    unfolding drop_bit_and_int by (simp add: mask_simps)
  ultimately have "0xD800 OR drop_bit 10 (?x AND 0xffc00) = hi_surrogate c" "0xDC00 OR (?x AND 0x003ff) = lo_surrogate c"
    by (simp_all add: mask_simps or_field hi_surrogate_def lo_surrogate_def)
  with assms show ?thesis by (simp add: escape_text_def Let_def)
qed

lemma body_hex: "n < 65536 \<Longrightarrow> str_body t \<Longrightarrow> str_body (92 # 117 # hex4 n @ t)"
  using hex4_xdigits [of n] by (auto intro: body_unicode)

lemma body_shortcut: "shortcut_escape b \<noteq> None \<Longrightarrow> str_body [92, b]"
  by (auto intro: str_body.intros)

lemma escape_text_body: "scalar c \<Longrightarrow> str_body (escape_text c)"
proof (cases "c < 0x10000")
  case True
  assume "scalar c"
  then have "nat c < 65536" using True by (simp add: scalar_def)
  with body_hex [of "nat c" "[]"] True show ?thesis
    by (auto simp: escape_text_def body_Nil intro!: body_shortcut simp: shortcut_escape_def)
next
  case False
  assume "scalar c"
  with False have "0x10000 \<le> c" "c \<le> 0x10FFFF" by (auto simp: scalar_def)
  with surrogate_range [of c] show ?thesis
    by (auto simp: escape_text_wide intro!: body_hex body_hex [of _ "[]", simplified] body_Nil)
qed

lemma char_text_body: "scalar c \<Longrightarrow> str_body (char_text flags c)"
  using escape_text_body [of c] must_escape_plain [of c flags]
  by (auto simp: char_text_def intro: str_body_plains)

lemma str_text_body: "list_all scalar cs \<Longrightarrow> str_body (concat (map (char_text flags) cs))"
  by (induction cs) (auto intro: body_Nil str_body_append char_text_body)

lemma lex_unescape_plain:
  "\<forall>b\<in>set s. plain_byte b \<Longrightarrow> lex_unescape lx (s @ q) t = lex_unescape lx q (t @ s)"
  by (induction s arbitrary: t) (auto simp: plain_byte_def)

lemma lex_unescape_hex:
  assumes "n < 65536" "scalar (int n)"
  shows "lex_unescape lx (92 # 117 # hex4 n @ q) t = lex_unescape lx q (t @ enc (int n))"
proof -
  have "length (hex4 n) = 4" using hex4_xdigits [OF assms(1)] by simp
  then have "lex_unicode_escape lx (92 # 117 # hex4 n @ q) = Inr (int n, q)"
    using assms(2) by (auto simp: lex_unicode_escape_def decode_hex4 [OF assms(1)] scalar_def Let_def)
  with assms(2) show ?thesis by (simp add: byte_at_def utf8_encode_enc scalar_def)
qed

lemma lex_unescape_pair:
  assumes "0x10000 \<le> c" "c \<le> 0x10FFFF"
  shows "lex_unescape lx (92 # 117 # hex4 (nat (hi_surrogate c)) @ 92 # 117 # hex4 (nat (lo_surrogate c)) @ q) t =
    lex_unescape lx q (t @ enc c)"
proof -
  let ?h = "nat (hi_surrogate c)" and ?l = "nat (lo_surrogate c)"
  have r: "?h < 65536" "?l < 65536" using surrogate_range [of c] assms by auto
  have len: "length (hex4 ?h) = 4" "length (hex4 ?l) = 4" using hex4_xdigits r by auto
  have "lex_unicode_escape lx (92 # 117 # hex4 ?h @ 92 # 117 # hex4 ?l @ q) = Inr (c, q)"
    using surrogate_range [of c] surrogate_join [of c] assms len
    by (simp add: lex_unicode_escape_def decode_hex4 [OF r(1)] decode_hex4 [OF r(2)] byte_at_def Let_def)
  with assms show ?thesis by (simp add: byte_at_def utf8_encode_enc)
qed

lemma lex_unescape_char:
  assumes "scalar c"
  shows "lex_unescape lx (char_text flags c @ q) t = lex_unescape lx q (t @ enc c)"
proof (cases "must_escape flags c")
  case False
  with must_escape_plain [OF assms False] show ?thesis by (simp add: char_text_def lex_unescape_plain)
next
  case True
  show ?thesis
  proof (cases "c < 0x10000")
    case wide: False
    with assms lex_unescape_pair [of c lx q t] True show ?thesis
      by (simp add: char_text_def escape_text_wide scalar_def)
  next
    case bmp: True
    have n: "nat c < 65536" "int (nat c) = c" using assms bmp by (auto simp: scalar_def)
    show ?thesis
      using True bmp lex_unescape_hex [of "nat c" lx q t] n assms
      by (auto simp: char_text_def escape_text_def shortcut_escape_def byte_at_def enc_def to_byte_def)
  qed
qed

lemma lex_unescape_chars:
  "list_all scalar cs \<Longrightarrow>
   lex_unescape lx (concat (map (char_text flags) cs) @ 34 # q) t = Inr (t @ enc_all cs)"
  by (induction cs arbitrary: t) (auto simp: lex_unescape_char)

end
