(* ===== verification/TokenText.thy ===== *)
theory TokenText
  imports StringText
begin

text \<open>
  Tokens as the encoder writes them, read back by \<open>lex_scan\<close>: after white space, each
  punctuation character, literal, string, integer or real gives its token and value and leaves
  the stream at the text that follows.
\<close>

definition scanned :: "'r lex \<Rightarrow> 'r lex \<Rightarrow> token \<Rightarrow> bytes \<Rightarrow> bool" where
  "scanned lx l tok p \<longleftrightarrow> lx_token l = tok \<and> sview (lx_stream l) p \<and> lx_depth l = lx_depth lx \<and>
     lx_flags l = lx_flags lx"

definition ws :: "bytes \<Rightarrow> bool" where
  "ws w \<longleftrightarrow> (\<forall>b\<in>set w. is_ws (schar b))"

text \<open>The lexer after \<open>strbuffer_clear\<close> and the release of the previous string.\<close>

definition cleared :: "'r lex \<Rightarrow> 'r lex" where
  "cleared lx = (let lx1 = lx\<lparr>lx_saved_text := []\<rparr> in
     if lx_token lx1 = TOKEN_STRING then lex_free_string lx1 else lx1)"

lemma cleared_simps [simp]:
  "lx_stream (cleared lx) = lx_stream lx" "lx_saved_text (cleared lx) = []"
  "lx_depth (cleared lx) = lx_depth lx" "lx_flags (cleared lx) = lx_flags lx"
  by (simp_all add: cleared_def Let_def lex_free_string_def)

lemma lex_scan_start:
  assumes "sview (lx_stream lx) (w @ p)" "ws w" "\<not> is_ws (nxt p)"
  obtains s where "lex_skip_ws (cleared lx) = (nxt p, (cleared lx)\<lparr>lx_stream := s\<rparr>)" "sview s (tl p)"
    "sview (stream_unget s (nxt p)) p"
  using lex_skip_ws_view [of "cleared lx" w p] assms by (auto simp: ws_def)

lemma lex_scan_unfold:
  "lex_scan libc lx = (let (c, l) = lex_skip_ws (cleared lx) in
      if c = STREAM_STATE_EOF then l\<lparr>lx_token := TOKEN_EOF\<rparr>
      else if c = STREAM_STATE_ERROR then l\<lparr>lx_token := TOKEN_INVALID\<rparr>
      else
        let lx3 = lex_save l c in
        if c = 123 \<or> c = 125 \<or> c = 91 \<or> c = 93 \<or> c = 58 \<or> c = 44
        then lx3\<lparr>lx_token := TOKEN_CHAR (to_byte c)\<rparr>
        else if c = 34 then lex_scan_string lx3
        else if l_isdigit c \<or> c = 45 then snd (lex_scan_number libc lx3 c)
        else if l_isalpha c then lex_identifier lx3
        else (lex_save_cached lx3)\<lparr>lx_token := TOKEN_INVALID\<rparr>)"
  by (simp add: lex_scan_def cleared_def Let_def)

lemma lex_scan_eof:
  assumes "sview (lx_stream lx) w" "ws w"
  shows "scanned lx (lex_scan libc lx) TOKEN_EOF []"
proof -
  obtain s where "lex_skip_ws (cleared lx) = (-1, (cleared lx)\<lparr>lx_stream := s\<rparr>)" "sview s []"
    using lex_scan_start [of lx w "[]"] assms by (auto simp: is_ws_def)
  then show ?thesis by (simp add: lex_scan_unfold scanned_def)
qed

lemma lex_scan_punct:
  assumes "sview (lx_stream lx) (w @ b # p)" "ws w" "schar b \<in> {123, 125, 91, 93, 58, 44}"
  shows "scanned lx (lex_scan libc lx) (TOKEN_CHAR b) p"
proof -
  have "\<not> is_ws (nxt (b # p))" using assms(3) by (auto simp: is_ws_def)
  with lex_scan_start [of lx w "b # p"] assms obtain s where
    s: "lex_skip_ws (cleared lx) = (schar b, (cleared lx)\<lparr>lx_stream := s\<rparr>)" "sview s p" by auto
  have "schar b \<noteq> -1 \<and> schar b \<noteq> -2 \<and> (schar b = 123 \<or> schar b = 125 \<or> schar b = 91 \<or> schar b = 93 \<or>
      schar b = 58 \<or> schar b = 44)"
    using assms(3) by auto
  with s show ?thesis by (simp add: lex_scan_unfold scanned_def lex_save_def)
qed

lemma lex_scan_str:
  assumes "sview (lx_stream lx) (w @ str_text flags v @ p)" "ws w" "valid_utf8 v"
  shows "scanned lx (lex_scan libc lx) TOKEN_STRING p \<and> lx_value (lex_scan libc lx) = VString (Some v)"
proof -
  let ?t = "concat (map (char_text flags) (code_points v))"
  have cs: "list_all scalar (code_points v)" "enc_all (code_points v) = v"
    using valid_utf8_code_points [OF assms(3)] by simp_all
  have q: "\<not> is_ws 34" "schar 34 = 34" by (simp_all add: is_ws_def schar_eq_iff)
  with lex_scan_start [of lx w "34 # ?t @ 34 # p"] assms obtain s where
    s: "lex_skip_ws (cleared lx) = (34, (cleared lx)\<lparr>lx_stream := s\<rparr>)" "sview s (?t @ 34 # p)"
    by (auto simp: str_text_def)
  let ?l = "(cleared lx)\<lparr>lx_stream := s, lx_saved_text := [34], lx_value := VString None, lx_token := TOKEN_INVALID\<rparr>"
  from lex_get_save_view [of ?l "?t @ 34 # p"] s obtain s1 where
    s1: "lex_get_save ?l = (nxt (?t @ 34 # p), lex_at ?l s1 ([34] @ take 1 (?t @ 34 # p)))"
      "sview s1 (tl (?t @ 34 # p))" by auto
  from lex_string_scan_body [OF str_text_body [OF cs(1)] s1(2), where lx = ?l and u = "[34]"] obtain s2 where
    s2: "lex_string_scan (lex_at ?l s1 ([34] @ take 1 (?t @ 34 # p))) (nxt (?t @ 34 # p)) =
        Inr (lex_at ?l s2 ([34] @ ?t @ [34]))" "sview s2 p" by blast
  have u: "lex_unescape l (?t @ [34]) [] = Inr v" for l :: "'a lex"
    using lex_unescape_chars [OF cs(1), of l flags "[]" "[]"] cs(2) by simp
  have "lex_scan libc lx = (lex_at ?l s2 ([34] @ ?t @ [34]))\<lparr>lx_value := VString (Some v), lx_token := TOKEN_STRING\<rparr>"
    using s(1) s1(1) s2(1) u
    by (simp add: lex_scan_unfold lex_save_def lex_scan_string_def to_byte_def
        del: take_append append.simps append_assoc One_nat_def) simp
  with s2(2) show ?thesis by (simp add: scanned_def)
qed

subsection \<open>Literals\<close>

lemma lex_scan_ident:
  assumes v: "sview (lx_stream lx) (w @ t @ p)" "ws w" "\<not> l_isalpha (nxt p)"
    and t: "t \<noteq> []" "\<forall>b\<in>set t. l_isalpha (schar b)"
  shows "scanned lx (lex_scan libc lx)
    (if t = asc ''true'' then TOKEN_TRUE else if t = asc ''false'' then TOKEN_FALSE
     else if t = asc ''null'' then TOKEN_NULL else TOKEN_INVALID) p"
proof -
  obtain b r where b: "t = b # r" using t(1) by (cases t) auto
  then have al: "l_isalpha (schar b)" "\<forall>b\<in>set r. l_isalpha (schar b)" using t(2) by auto
  have "\<not> is_ws (schar b)" using al(1) by (auto simp: is_ws_def char_classes)
  with lex_scan_start [of lx w "b # r @ p"] v b obtain s where
    s: "lex_skip_ws (cleared lx) = (schar b, (cleared lx)\<lparr>lx_stream := s\<rparr>)" "sview s (r @ p)" by auto
  let ?l = "lex_at (cleared lx) s [b]"
  from lex_alphas_view [of ?l r p] s al v(3) obtain s1 where
    s1: "lex_alphas ?l = (nxt p, lex_at ?l s1 (t @ take 1 p))" "sview s1 (tl p)" "sview (stream_unget s1 (nxt p)) p"
    by (auto simp: b)
  from lex_unget_unsave_view [OF s1(2,3), where lx = ?l and t = t] obtain s2 where
    s2: "lex_unget_unsave (lex_at ?l s1 (t @ take 1 p)) (nxt p) = lex_at ?l s2 t" "sview s2 p" by auto
  have "cstr t = t"
    using t(2) by (intro cstr_id) (auto simp: char_classes schar_def)
  moreover have "lex_scan libc lx = lex_identifier ?l"
    using s(1) al(1) by (auto simp: lex_scan_unfold lex_save_def char_classes)
  ultimately show ?thesis
    using s1(1) s2 by (simp add: lex_identifier_def scanned_def Let_def)
qed

subsection \<open>Numbers\<close>

lemma digit_cases: "l_isdigit (schar b) \<Longrightarrow> schar b \<noteq> 45 \<and> (schar b = 48 \<longleftrightarrow> b = 48)"
  using schar_inj [of b 48] by (auto simp: char_classes schar_def simp del: schar_inj)

lemma lex_scan_digits_view:
  assumes "l_isdigit (schar d)" "\<forall>b\<in>set ds. l_isdigit (schar b)" "d = 48 \<longrightarrow> ds = []"
    "\<not> l_isdigit (nxt p)" "sview s (ds @ p)"
  shows "\<exists>s'. lex_scan_intpart (lex_at lx s (u @ [d])) (schar d) =
      Inr (nxt p, lex_at lx s' (u @ d # ds @ take 1 p)) \<and> sview s' (tl p) \<and> sview (stream_unget s' (nxt p)) p"
proof (cases "d = 48")
  case True
  with assms lex_get_save_view [of "lex_at lx s (u @ [d])" p] digit_cases [OF assms(1)] show ?thesis
    by (auto simp: lex_scan_intpart_def)
next
  case False
  with assms lex_digits_view [of "lex_at lx s (u @ [d])" ds p] digit_cases [OF assms(1)] show ?thesis
    by (auto simp: lex_scan_intpart_def)
qed

lemma lex_scan_intpart_view:
  assumes "l_isdigit (schar d)" "\<forall>b\<in>set ds. l_isdigit (schar b)" "d = 48 \<longrightarrow> ds = []"
    "\<not> l_isdigit (nxt p)" "sg = [] \<or> sg = [45]" "sview s (tl (sg @ d # ds @ p))"
  shows "\<exists>s'. lex_scan_intpart (lex_at lx s (take 1 (sg @ [d]))) (nxt (sg @ [d])) =
      Inr (nxt p, lex_at lx s' (sg @ d # ds @ take 1 p)) \<and> sview s' (tl p) \<and> sview (stream_unget s' (nxt p)) p"
proof (cases "sg = []")
  case True
  with lex_scan_digits_view [OF assms(1-4), where u = "[]"] assms(6) show ?thesis by simp
next
  case False
  with assms(5) have sg: "sg = [45]" by simp
  have m: "schar 45 = 45" using schar_inj [of 45 45] by (simp add: schar_def)
  from lex_get_save_view [of "lex_at lx s [45]" "d # ds @ p"] assms(6) sg obtain s1 where
    s1: "lex_get_save (lex_at lx s [45]) = (schar d, lex_at lx s1 [45, d])" "sview s1 (ds @ p)" by auto
  have "lex_scan_intpart (lex_at lx s [45]) 45 = lex_scan_intpart (lex_at lx s1 [45, d]) (schar d)"
    using s1(1) digit_cases [OF assms(1)] by (simp add: lex_scan_intpart_def)
  with lex_scan_digits_view [OF assms(1-4) s1(2), where u = "[45]" and lx = lx] sg m show ?thesis by simp
qed

lemma lex_scan_number_start:
  assumes "sview (lx_stream lx) (w @ c # q)" "ws w" "l_isdigit (schar c) \<or> c = 45"
  obtains s where "lex_scan libc lx = snd (lex_scan_number libc (lex_at (cleared lx) s [c]) (schar c))" "sview s q"
proof -
  have m: "schar 45 = 45" by (simp add: schar_def)
  have "\<not> is_ws (schar c)" using assms(3) by (auto simp: is_ws_def char_classes m)
  with lex_scan_start [of lx w "c # q"] assms obtain s where
    s: "lex_skip_ws (cleared lx) = (schar c, (cleared lx)\<lparr>lx_stream := s\<rparr>)" "sview s q" by auto
  from s(1) assms(3) have "lex_scan libc lx = snd (lex_scan_number libc (lex_at (cleared lx) s [c]) (schar c))"
    by (auto simp: lex_scan_unfold lex_save_def char_classes m)
  with s(2) that show ?thesis by blast
qed

lemma lex_at_token: "(lex_at lx s t)\<lparr>lx_token := k\<rparr> = lex_at (lx\<lparr>lx_token := k\<rparr>) s t"
  by simp

text \<open>Decimal digits and their value.\<close>

lemma schar_dec_digit: "d < 10 \<Longrightarrow> schar (of_nat (48 + d)) = 48 + int d"
  by (simp add: schar_of_nat del: of_nat_add)

lemma uint_dec_digit: "d < 10 \<Longrightarrow> uint (of_nat (48 + d) :: byte) = 48 + int d"
  by (simp add: uint_nat unat_of_nat del: of_nat_add)

lemma isdigit_uint: "l_isdigit (schar b) \<longleftrightarrow> 48 \<le> uint b \<and> uint b \<le> 57"
  using byte_range [of b] by (auto simp: l_isdigit_def schar_uint)

lemma dec_nat_digits: "\<forall>b\<in>set (dec_nat n). l_isdigit (schar b)"
proof (induction n rule: dec_nat.induct)
  case (1 n)
  have "b \<in> set (dec_nat n) \<Longrightarrow> l_isdigit (schar b)" for b
    using 1 schar_dec_digit [of n] schar_dec_digit [of "n mod 10"]
    by (subst (asm) dec_nat.simps) (auto simp: l_isdigit_def split: if_splits)
  then show ?case by blast
qed

lemma dec_nat_Nil [simp]: "dec_nat n \<noteq> []"
  by (subst dec_nat.simps) simp

lemma dec_nat_lead: "hd (dec_nat n) = 48 \<Longrightarrow> n = 0"
proof (induction n rule: dec_nat.induct)
  case (1 n)
  show ?case
  proof (cases "n < 10")
    case True
    with "1.prems" have "schar (of_nat (48 + n)) = 48" by (simp add: dec_nat.simps schar_def del: of_nat_add)
    with True show ?thesis by (simp add: schar_dec_digit del: of_nat_add)
  next
    case False
    with "1.prems" have "hd (dec_nat (n div 10)) = 48" by (subst (asm) dec_nat.simps) simp
    with False "1.IH" show ?thesis by auto
  qed
qed

lemma digits_value_snoc:
  "\<forall>b\<in>set bs. l_isdigit (schar b) \<Longrightarrow> l_isdigit (schar b) \<Longrightarrow>
   digits_value (bs @ [b]) v = 10 * digits_value bs v + (uint b - 48)"
  by (induction bs arbitrary: v) (auto simp: isdigit_uint)

lemma digits_value_dec_nat: "digits_value (dec_nat n) 0 = int n"
proof (induction n rule: dec_nat.induct)
  case (1 n)
  show ?case
  proof (cases "n < 10")
    case True
    then show ?thesis using uint_dec_digit [of n] by (simp add: dec_nat.simps del: of_nat_add)
  next
    case False
    have "l_isdigit (schar (of_nat (48 + n mod 10)))" by (simp add: schar_dec_digit l_isdigit_def del: of_nat_add)
    then have "digits_value (dec_nat n) 0 = 10 * int (n div 10) + int (n mod 10)"
      using False 1 dec_nat_digits [of "n div 10"]
      by (subst dec_nat.simps) (simp add: digits_value_snoc uint_dec_digit del: of_nat_add)
    also have "\<dots> = int n" by presburger
    finally show ?thesis .
  qed
qed

lemma dec_int_shape:
  obtains sg d ds where "dec_int i = sg @ d # ds" "sg = [] \<or> sg = [45]" "l_isdigit (schar d)"
    "\<forall>b\<in>set ds. l_isdigit (schar b)" "d = 48 \<longrightarrow> ds = []"
proof -
  let ?n = "nat \<bar>i\<bar>"
  obtain d ds where d: "dec_nat ?n = d # ds" by (cases "dec_nat ?n") simp_all
  have "d = 48 \<longrightarrow> ds = []"
  proof
    assume "d = 48"
    then have "dec_nat ?n = dec_nat 0" using dec_nat_lead [of ?n] d by simp
    with d show "ds = []" by (simp add: dec_nat.simps [of 0])
  qed
  moreover have "dec_int i = (if i < 0 then [45] else []) @ d # ds"
    using d by (cases "i < 0") (simp_all add: dec_int_def)
  ultimately show ?thesis using that [of "if i < 0 then [45] else []" d ds] dec_nat_digits [of ?n] d by simp
qed

lemma json_strtoint_dec_int: "- (2 ^ 63) \<le> i \<Longrightarrow> i < 2 ^ 63 \<Longrightarrow> json_strtoint (dec_int i) = (i, False)"
proof -
  assume i: "- (2 ^ 63) \<le> i" "i < 2 ^ 63"
  have "hd (dec_nat n) \<noteq> 45" for n
  proof -
    have "l_isdigit (schar (hd (dec_nat n)))" using dec_nat_digits [of n] dec_nat_Nil [of n] by simp
    then show ?thesis by (auto simp: l_isdigit_def schar_def)
  qed
  with i show ?thesis by (simp add: json_strtoint_def dec_int_def digits_value_dec_nat)
qed

lemma lex_scan_int:
  assumes "sview (lx_stream lx) (w @ dec_int i @ p)" "ws w" "\<not> l_isdigit (nxt p)"
    "nxt p \<noteq> 46" "nxt p \<noteq> 69" "nxt p \<noteq> 101"
    "\<not> flag (lx_flags lx) JSON_DECODE_INT_AS_REAL" "- (2 ^ 63) \<le> i" "i < 2 ^ 63"
  shows "scanned lx (lex_scan libc lx) TOKEN_INTEGER p \<and> lx_value (lex_scan libc lx) = VInteger i"
proof -
  obtain sg d ds where t: "dec_int i = sg @ d # ds" "sg = [] \<or> sg = [45]" "l_isdigit (schar d)"
      "\<forall>b\<in>set ds. l_isdigit (schar b)" "d = 48 \<longrightarrow> ds = []" by (rule dec_int_shape)
  obtain c q where c: "sg @ d # ds @ p = c # q" "l_isdigit (schar c) \<or> c = 45" "take 1 (sg @ [d]) = [c]"
      "nxt (sg @ [d]) = schar c"
    using t by auto
  with assms(1,2) t(1) obtain s where
    s: "lex_scan libc lx = snd (lex_scan_number libc (lex_at (cleared lx) s [c]) (schar c))" "sview s q"
    using lex_scan_number_start [of lx w c q libc] by auto
  let ?l = "(cleared lx)\<lparr>lx_token := TOKEN_INVALID\<rparr>"
  from lex_scan_intpart_view [OF t(3-5) assms(3) t(2), of s ?l] s(2) c t(1) obtain s1 where
    s1: "lex_scan_intpart (lex_at ?l s [c]) (schar c) = Inr (nxt p, lex_at ?l s1 (dec_int i @ take 1 p))"
      "sview s1 (tl p)" "sview (stream_unget s1 (nxt p)) p" by auto
  from lex_unget_unsave_view [OF s1(2,3), where lx = ?l and t = "dec_int i"] obtain s2 where
    s2: "lex_unget_unsave (lex_at ?l s1 (dec_int i @ take 1 p)) (nxt p) = lex_at ?l s2 (dec_int i)" "sview s2 p"
    by auto
  have "lex_scan libc lx = (lex_at ?l s2 (dec_int i))\<lparr>lx_token := TOKEN_INTEGER, lx_value := VInteger i\<rparr>"
    using s(1) s1(1) s2(1) assms(4-9)
    by (simp add: lex_scan_number_def lex_at_token lex_integer_def json_strtoint_dec_int del: One_nat_def)
  with s2(2) show ?thesis by (simp add: scanned_def)
qed

subsection \<open>Reals\<close>

definition digits :: "bytes \<Rightarrow> bool" where
  "digits ds \<longleftrightarrow> ds \<noteq> [] \<and> (\<forall>b\<in>set ds. l_isdigit (schar b))"

definition frac_text :: "bytes \<Rightarrow> bool" where
  "frac_text fr \<longleftrightarrow> fr = [] \<or> hd fr = 46 \<and> digits (tl fr)"

definition exp_text :: "bytes \<Rightarrow> bool" where
  "exp_text ex \<longleftrightarrow> ex = [] \<or> (hd ex = 101 \<or> hd ex = 69) \<and>
     digits (if tl ex \<noteq> [] \<and> (hd (tl ex) = 43 \<or> hd (tl ex) = 45) then tl (tl ex) else tl ex)"

text \<open>A JSON number with a fraction or an exponent.\<close>

definition real_text :: "bytes \<Rightarrow> bool" where
  "real_text t \<longleftrightarrow> (\<exists>sg d ds fr ex. t = sg @ d # ds @ fr @ ex \<and> (sg = [] \<or> sg = [45]) \<and>
     l_isdigit (schar d) \<and> (\<forall>b\<in>set ds. l_isdigit (schar b)) \<and> (d = 48 \<longrightarrow> ds = []) \<and>
     frac_text fr \<and> exp_text ex \<and> (fr \<noteq> [] \<or> ex \<noteq> []))"

definition number_end :: "bytes \<Rightarrow> bool" where
  "number_end p \<longleftrightarrow> \<not> l_isdigit (nxt p) \<and> nxt p \<noteq> 46 \<and> nxt p \<noteq> 69 \<and> nxt p \<noteq> 101"

lemma schar_e: "schar 46 = 46" "schar 101 = 101" "schar 69 = 69" "schar 43 = 43" "schar 45 = 45"
  by (simp_all add: schar_def)

lemma schar_sign: "schar b = 43 \<longleftrightarrow> b = 43" "schar b = 45 \<longleftrightarrow> b = 45"
  by (metis schar_e(4) schar_inj) (metis schar_e(5) schar_inj)

lemma nxt_append: "nxt (a @ b) = (if a = [] then nxt b else nxt a)"
  by (cases a) auto

lemma exp_text_nxt: "exp_text ex \<Longrightarrow> number_end p \<Longrightarrow> \<not> l_isdigit (nxt (ex @ p)) \<and> nxt (ex @ p) \<noteq> 46"
  by (cases ex) (auto simp: exp_text_def number_end_def schar_e l_isdigit_def)

lemma frac_text_nxt: "frac_text fr \<Longrightarrow> exp_text ex \<Longrightarrow> number_end p \<Longrightarrow> \<not> l_isdigit (nxt (fr @ ex @ p))"
  using exp_text_nxt [of ex p] by (cases fr) (auto simp: frac_text_def schar_e l_isdigit_def)

lemma lex_scan_fraction_view:
  assumes "frac_text fr" "\<not> l_isdigit (nxt q)" "nxt q \<noteq> 46" "sview s (tl (fr @ q))"
    "sview (stream_unget s (nxt (fr @ q))) (fr @ q)"
  shows "\<exists>s'. lex_scan_fraction (lex_at lx s (u @ take 1 (fr @ q))) (nxt (fr @ q)) =
      Inr (nxt q, lex_at lx s' (u @ fr @ take 1 q)) \<and> sview s' (tl q) \<and> sview (stream_unget s' (nxt q)) q"
proof (cases fr)
  case Nil
  with assms show ?thesis by (auto simp: lex_scan_fraction_def)
next
  case (Cons x r)
  with assms(1) obtain d ds where fr: "fr = 46 # d # ds" "l_isdigit (schar d)" "\<forall>b\<in>set ds. l_isdigit (schar b)"
    by (cases r) (auto simp: frac_text_def digits_def)
  let ?l = "lex_at lx s (u @ [46])"
  from stream_get_view [of ?l "d # ds @ q"] assms(4) fr obtain s1 where
    "stream_get ?l = (schar d, ?l\<lparr>lx_stream := s1\<rparr>)" "sview s1 (ds @ q)" by auto
  then have s1: "stream_get ?l = (schar d, lex_at lx s1 (u @ [46]))" "sview s1 (ds @ q)" by simp_all
  from lex_digits_view [of "lex_at lx s1 (u @ [46, d])" ds q] s1(2) fr(3) assms(2) obtain s2 where
    "lex_digits (lex_at lx s1 (u @ [46, d])) = (nxt q, lex_at lx s2 (u @ fr @ take 1 q))"
    "sview s2 (tl q)" "sview (stream_unget s2 (nxt q)) q" by (auto simp: fr)
  then show ?thesis
    using s1(1) fr by (auto simp: lex_scan_fraction_def lex_get_def lex_save_def schar_e)
qed

lemma lex_scan_exponent_view:
  assumes "exp_text ex" "number_end p" "sview s (tl (ex @ p))" "sview (stream_unget s (nxt (ex @ p))) (ex @ p)"
  shows "\<exists>s'. lex_scan_exponent (lex_at lx s (u @ take 1 (ex @ p))) (nxt (ex @ p)) =
      Inr (nxt p, lex_at lx s' (u @ ex @ take 1 p)) \<and> sview s' (tl p) \<and> sview (stream_unget s' (nxt p)) p"
proof (cases ex)
  case Nil
  with assms show ?thesis by (auto simp: lex_scan_exponent_def number_end_def)
next
  case (Cons e r)
  with assms(1) obtain sg d ds where ex: "ex = e # sg @ d # ds" "e = 101 \<or> e = 69" "sg = [] \<or> sg = [43] \<or> sg = [45]"
      "l_isdigit (schar d)" "\<forall>b\<in>set ds. l_isdigit (schar b)"
  proof (cases "r \<noteq> [] \<and> (hd r = 43 \<or> hd r = 45)")
    case True
    then obtain x r' where "r = x # r'" "x = 43 \<or> x = 45" by (cases r) auto
    with Cons assms(1) that [of "[x]" "hd r'" "tl r'"] show ?thesis
      by (cases r') (auto simp: exp_text_def digits_def)
  next
    case False
    with Cons assms(1) that [of "[]" "hd r" "tl r"] show ?thesis by (cases r) (auto simp: exp_text_def digits_def)
  qed
  have ce: "schar e = 101 \<or> schar e = 69" using ex(2) by (auto simp: schar_e)
  have nd: "\<not> l_isdigit (nxt p)" using assms(2) by (simp add: number_end_def)
  have dg: "schar d \<noteq> 43" "schar d \<noteq> 45" using ex(4) by (auto simp: l_isdigit_def)
  have "\<exists>s1. lex_scan_exponent (lex_at lx s (u @ [e])) (schar e) = Inr (lex_digits (lex_at lx s1 (u @ e # sg @ [d]))) \<and>
      sview s1 (ds @ p)"
  proof (cases "sg = []")
    case True
    with lex_get_save_view [of "lex_at lx s (u @ [e])" "d # ds @ p"] assms(3) ex ce dg show ?thesis
      by (auto simp: lex_scan_exponent_def)
  next
    case False
    then obtain x where x: "sg = [x]" "x = 43 \<or> x = 45" using ex(3) by auto
    from lex_get_save_view [of "lex_at lx s (u @ [e])" "x # d # ds @ p"] assms(3) ex x obtain s1 where
      s1: "lex_get_save (lex_at lx s (u @ [e])) = (schar x, lex_at lx s1 (u @ [e, x]))" "sview s1 (d # ds @ p)" by auto
    from lex_get_save_view [of "lex_at lx s1 (u @ [e, x])" "d # ds @ p"] s1 obtain s2 where
      "lex_get_save (lex_at lx s1 (u @ [e, x])) = (schar d, lex_at lx s2 (u @ [e, x, d]))" "sview s2 (ds @ p)" by auto
    with s1(1) x ce ex(4) show ?thesis by (auto simp: lex_scan_exponent_def schar_sign)
  qed
  then obtain s1 where s1: "lex_scan_exponent (lex_at lx s (u @ [e])) (schar e) =
      Inr (lex_digits (lex_at lx s1 (u @ e # sg @ [d])))" "sview s1 (ds @ p)" by blast
  from lex_digits_view [of "lex_at lx s1 (u @ e # sg @ [d])" ds p] s1(2) ex(5) nd
  show ?thesis using s1(1) by (auto simp: ex(1))
qed

lemma lex_scan_real:
  assumes "sview (lx_stream lx) (w @ t @ p)" "ws w" "number_end p" "real_text t"
    "fst (jsonp_strtod libc t) = Some r"
  shows "scanned lx (lex_scan libc lx) TOKEN_REAL p \<and> lx_value (lex_scan libc lx) = VReal r"
proof -
  obtain sg d ds fr ex where t: "t = sg @ d # ds @ fr @ ex" "sg = [] \<or> sg = [45]" "l_isdigit (schar d)"
      "\<forall>b\<in>set ds. l_isdigit (schar b)" "d = 48 \<longrightarrow> ds = []" "frac_text fr" "exp_text ex" "fr \<noteq> [] \<or> ex \<noteq> []"
    using assms(4) unfolding real_text_def by blast
  obtain c q where c: "sg @ d # ds @ fr @ ex @ p = c # q" "l_isdigit (schar c) \<or> c = 45"
      "take 1 (sg @ [d]) = [c]" "nxt (sg @ [d]) = schar c"
    using t by auto
  with assms(1,2) t(1) obtain s where
    s: "lex_scan libc lx = snd (lex_scan_number libc (lex_at (cleared lx) s [c]) (schar c))" "sview s q"
    using lex_scan_number_start [of lx w c q libc] by auto
  let ?l = "(cleared lx)\<lparr>lx_token := TOKEN_INVALID\<rparr>" and ?q = "fr @ ex @ p"
  have nq: "\<not> l_isdigit (nxt ?q)" using frac_text_nxt t assms(3) by simp
  from lex_scan_intpart_view [OF t(3-5) nq t(2), of s ?l] s(2) c obtain s1 where
    s1: "lex_scan_intpart (lex_at ?l s [c]) (schar c) = Inr (nxt ?q, lex_at ?l s1 ((sg @ d # ds) @ take 1 ?q))"
      "sview s1 (tl ?q)" "sview (stream_unget s1 (nxt ?q)) ?q" by auto
  have ne: "\<not> l_isdigit (nxt (ex @ p))" "nxt (ex @ p) \<noteq> 46" using exp_text_nxt t assms(3) by simp_all
  from lex_scan_fraction_view [OF t(6) ne s1(2,3), where lx = ?l and u = "sg @ d # ds"] obtain s2 where
    s2: "lex_scan_fraction (lex_at ?l s1 ((sg @ d # ds) @ take 1 ?q)) (nxt ?q) =
        Inr (nxt (ex @ p), lex_at ?l s2 ((sg @ d # ds @ fr) @ take 1 (ex @ p)))"
      "sview s2 (tl (ex @ p))" "sview (stream_unget s2 (nxt (ex @ p))) (ex @ p)" by auto
  from lex_scan_exponent_view [OF t(7) assms(3) s2(2,3), where lx = ?l and u = "sg @ d # ds @ fr"] obtain s3 where
    s3: "lex_scan_exponent (lex_at ?l s2 ((sg @ d # ds @ fr) @ take 1 (ex @ p))) (nxt (ex @ p)) =
        Inr (nxt p, lex_at ?l s3 (t @ take 1 p))" "sview s3 (tl p)" "sview (stream_unget s3 (nxt p)) p"
    by (auto simp: t(1))
  from lex_unget_unsave_view [OF s3(2,3), where lx = ?l and t = t] obtain s4 where
    s4: "lex_unget_unsave (lex_at ?l s3 (t @ take 1 p)) (nxt p) = lex_at ?l s4 t" "sview s4 p" by auto
  have real: "nxt ?q = 46 \<or> nxt ?q = 69 \<or> nxt ?q = 101"
    using t(6-8) by (cases fr; cases ex) (auto simp: frac_text_def exp_text_def schar_e)
  have "lex_scan_number libc (lex_at (cleared lx) s [c]) (schar c) = lex_real libc (lex_at ?l s4 t)"
    unfolding lex_scan_number_def lex_at_token s1(1) sum.case prod.case
    using real s2(1) s3(1) s4(1) by (auto simp del: take_append append_assoc One_nat_def)
  then have "lex_scan libc lx = (lex_at ?l s4 (snd (jsonp_strtod libc t)))\<lparr>lx_token := TOKEN_REAL, lx_value := VReal r\<rparr>"
    using s(1) assms(5) by (cases "jsonp_strtod libc t") (simp add: lex_real_def)
  with s4(2) show ?thesis by (simp add: scanned_def)
qed

end
