(* ===== verification/DumpThms.thy ===== *)
theory DumpThms
  imports DumpSpec
begin

text \<open>
  The two sinks of the encoder that stay in memory, \<open>dump_to_buffer\<close> and
  \<open>dump_to_strbuffer\<close>, as instances of the sink contract; what \<open>json_dumpb\<close> and
  \<open>json_dumps\<close> return; and the refusal of circular structures.
\<close>

subsection \<open>The fixed buffer\<close>

text \<open>The number of bytes needed is counted even when they do not fit; while they fit, the
  buffer starts with the text; beyond \<open>sz\<close> nothing is written.\<close>

definition buffer_holds :: "bytes \<Rightarrow> nat \<Rightarrow> dump_buffer \<Rightarrow> bytes \<Rightarrow> bool" where
  "buffer_holds orig sz d s \<longleftrightarrow>
     sz \<le> length orig \<and> db_size d = sz \<and> db_used d = length s \<and> length (db_data d) = length orig \<and>
     drop sz (db_data d) = drop sz orig \<and> (length s \<le> sz \<longrightarrow> take (length s) (db_data d) = s)"

lemma dump_to_buffer_writes: "writes (buffer_holds orig sz) cap (dump_to_buffer bs) bs"
  unfolding writes_def dump_to_buffer_def
proof (intro allI impI exI conjI)
  fix d s assume "buffer_holds orig sz d s"
  then show "buffer_holds orig sz ((if db_used d + length bs \<le> db_size d
      then d\<lparr>db_data := memcpy_at (db_data d) (db_used d) bs\<rparr> else d)\<lparr>db_used := db_used d + length bs\<rparr>) (s @ bs)"
    by (auto simp: buffer_holds_def memcpy_at_def)
qed (rule refl)

interpretation buffer_sink: dump_sink dump_to_buffer "buffer_holds orig sz" cap for orig sz cap
  by unfold_locales (rule dump_to_buffer_writes)

subsection \<open>The growing buffer\<close>

definition strbuffer_holds :: "(size_t \<Rightarrow> bytes option) \<Rightarrow> strbuffer \<Rightarrow> bytes \<Rightarrow> bool" where
  "strbuffer_holds do_malloc sb s \<longleftrightarrow> malloc_total do_malloc \<and> sb_inv sb \<and> sb_contents sb = s"

lemma dump_to_strbuffer_writes: "writes (strbuffer_holds m) (2 ^ 62) (dump_to_strbuffer m bs) bs"
  unfolding writes_def
proof (intro allI impI)
  fix sb s assume H: "strbuffer_holds m sb s" "length s + length bs \<le> 2 ^ 62"
  then obtain sb' where a: "strbuffer_append_bytes m sb bs (of_nat (length bs)) = (0, sb')"
    using strbuffer_append_bytes_succeeds [of m sb bs] by (auto simp: strbuffer_holds_def)
  have n: "unat (of_nat (length bs) :: size_t) = length bs" using H(2) by (simp add: unat_of_nat)
  from H a strbuffer_append_bytes_ok [OF _ _ _ a] n
  show "\<exists>sb'. dump_to_strbuffer m bs sb = (0, sb') \<and> strbuffer_holds m sb' (s @ bs)"
    by (simp add: dump_to_strbuffer_def strbuffer_holds_def malloc_total_def)
qed

interpretation strbuffer_sink: dump_sink "dump_to_strbuffer m" "strbuffer_holds m" "2 ^ 62" for m
  by unfold_locales (rule dump_to_strbuffer_writes)

subsection \<open>Entry points\<close>

lemma json_dumpb_text:
  assumes "repr h a j" "dumpable libc m (clear_embed flags) j" "flag flags JSON_ENCODE_ANY \<or> container j"
    and "sz \<le> length orig"
  shows "\<exists>buf. json_dumpb libc m h a orig sz flags = (length (doc_text libc flags 0 j), buf) \<and>
    length buf = length orig \<and> drop sz buf = drop sz orig \<and>
    (length (doc_text libc flags 0 j) \<le> sz \<longrightarrow>
      take (length (doc_text libc flags 0 j)) buf = doc_text libc flags 0 j)"
proof -
  let ?t = "doc_text libc flags 0 j" and ?d = "\<lparr>db_size = sz, db_used = 0, db_data = orig\<rparr>"
  have "buffer_holds orig sz ?d []" using assms(4) by (simp add: buffer_holds_def)
  with buffer_sink.json_dump_callback_writes [OF assms(1-3), where orig = orig and sz = sz and cap = "length ?t"]
  obtain d' where "json_dump_callback libc m h a dump_to_buffer ?d flags = (0, d')" "buffer_holds orig sz d' ?t"
    unfolding writes_def by fastforce
  then show ?thesis by (simp add: json_dumpb_def buffer_holds_def)
qed

lemma json_dumps_text:
  assumes "repr h a j" "dumpable libc m (clear_embed flags) j" "flag flags JSON_ENCODE_ANY \<or> container j"
    and "malloc_total m" "length (doc_text libc flags 0 j) \<le> 2 ^ 62"
  shows "\<exists>blk. json_dumps libc m h a flags = Some blk \<and> cstr blk = cstr (doc_text libc flags 0 j)"
proof -
  let ?t = "doc_text libc flags 0 j"
  obtain b where "m STRBUFFER_MIN_SIZE = Some b"
    using assms(4) by (fastforce simp: malloc_total_def STRBUFFER_MIN_SIZE_def)
  then obtain sb where i: "strbuffer_init m = (0, sb)"
    by (simp add: strbuffer_init_def jsonp_malloc_def STRBUFFER_MIN_SIZE_def)
  then have "strbuffer_holds m sb []"
    using strbuffer_init_inv [of m sb] assms(4) by (simp add: strbuffer_holds_def malloc_total_def)
  with strbuffer_sink.json_dump_callback_writes [OF assms(1-3)] assms(5)
  obtain sb' where d: "json_dump_callback libc m h a (dump_to_strbuffer m) sb flags = (0, sb')"
      "strbuffer_holds m sb' ?t"
    unfolding writes_def by fastforce
  then obtain v where v: "sb_value sb' = Some v" "take (length ?t) v = ?t" "length ?t < length v" "v ! length ?t = 0"
    using sb_contents_length [of sb'] by (auto simp: strbuffer_holds_def sb_inv_def sb_contents_def)
  have c: "cstr v = cstr ?t"
  proof -
    have "v = ?t @ 0 # drop (Suc (length ?t)) v"
      using v(2-4) by (metis append_take_drop_id id_take_nth_drop)
    then show ?thesis by (metis (full_types) cstr_append_nul)
  qed
  have l: "length (cstr ?t) \<le> length ?t" by (simp add: cstr_def length_takeWhile_le)
  have "\<exists>blk. jsonp_strdup m v = Some blk \<and> cstr blk = cstr v"
    using l assms(5) by (intro jsonp_strdup_total assms(4)) (simp add: c)
  then show ?thesis by (simp add: json_dumps_def i d strbuffer_value_def v c)
qed

subsection \<open>Circular structures\<close>

definition keys_distinct :: "'r heap \<Rightarrow> bool" where
  "keys_distinct h \<longleftrightarrow> (\<forall>a\<in>set [0..<length h]. case node_at h a of
     Some (NObject ht) \<Rightarrow> distinct (map fst (entries ht)) | _ \<Rightarrow> True)"

lemma keys_distinctD: "keys_distinct h \<Longrightarrow> node_at h a = Some (NObject ht) \<Longrightarrow> distinct (map fst (entries ht))"
  using node_at_bound [of h a] by (force simp: keys_distinct_def)

lemma andThen_success: "andThen f g d = (0, d') \<longleftrightarrow> (\<exists>d1. f d = (0, d1) \<and> g d1 = (0, d'))"
  by (auto simp: andThen_def split: prod.splits)

lemma list_repr: "\<forall>a\<in>set as. \<exists>j. repr h a j \<Longrightarrow> \<exists>js. list_all2 (repr h) as js"
  by (induction as) (auto simp: list_all2_Cons1)

lemma pairs_repr:
  "\<forall>p\<in>set ps. \<exists>j. repr h (snd p) j \<Longrightarrow>
   \<exists>qs. list_all2 (\<lambda>p q. fst p = fst q \<and> repr h (snd p) (snd q)) ps qs"
proof (induction ps)
  case (Cons p ps)
  then obtain j qs where "repr h (snd p) j" "list_all2 (\<lambda>p q. fst p = fst q \<and> repr h (snd p) (snd q)) ps qs"
    by auto
  then have "list_all2 (\<lambda>p q. fst p = fst q \<and> repr h (snd p) (snd q)) (p # ps) ((fst p, j) # qs)" by simp
  then show ?case by blast
qed blast

text \<open>Whatever the callback does: an encoding that succeeds has walked a finite tree.\<close>

lemma do_dump_success:
  "keys_distinct h \<Longrightarrow> do_dump libc m h a flags depth parents cb d = (0, d') \<Longrightarrow> \<exists>j. repr h a j"
  "keys_distinct h \<Longrightarrow> dump_elems libc m h es flags depth parents cb d = (0, d') \<Longrightarrow>
     \<forall>a\<in>set es. \<exists>j. repr h a j"
  "keys_distinct h \<Longrightarrow> dump_pairs libc m h ps flags depth parents cb d = (0, d') \<Longrightarrow>
     \<forall>p\<in>set ps. \<exists>j. repr h (snd p) j"
proof (induction libc m h a flags depth parents cb d and libc m h es flags depth parents cb d
    and libc m h ps flags depth parents cb d arbitrary: d' and d' and d'
    rule: do_dump_dump_elems_dump_pairs.induct)
  case (1 libc m h a flags depth parents cb d)
  show ?case
  proof (cases "node_at h a")
    case None
    with 1(4) show ?thesis by (simp add: do_dump.simps Let_def)
  next
    case (Some n)
    show ?thesis
    proof (cases n)
      case (NObject ht)
      define ps where "ps = entries ht"
      with 1(3) Some NObject have d: "distinct (map fst ps)" by (simp add: keys_distinctD ps_def)
      have "\<forall>p\<in>set (order_pairs (clear_embed flags) ps). \<exists>j. repr h (snd p) j"
      proof (cases "ps = []")
        case False
        with 1(4) Some NObject obtain parents' d1 d2 where
          "jsonp_loop_check parents a = Some parents'" "\<not> keys_alloc_fails m (clear_embed flags) ps"
          "dump_pairs libc m h (order_pairs (clear_embed flags) ps) (clear_embed flags) depth parents' cb d1 = (0, d2)"
          by (auto simp: do_dump.simps andThen_success Let_def ps_def split: option.split_asm if_split_asm)
        with 1(1) [OF refl refl Some NObject] 1(3) False show ?thesis unfolding ps_def by blast
      qed (simp add: order_pairs_def sort_pairs_def)
      then obtain qs where "list_all2 (\<lambda>p q. fst p = fst q \<and> repr h (snd p) (snd q)) ps qs"
        using pairs_repr [of ps h] by (auto simp: set_order_pairs d)
      then have "repr h a (JObject qs)" using Some NObject by (simp add: repr_JObject ps_def)
      then show ?thesis ..
    next
      case (NArray arr)
      define as where "as = elems arr"
      have "\<forall>e\<in>set as. \<exists>j. repr h e j"
      proof (cases "as = []")
        case False
        with 1(4) Some NArray obtain parents' d1 d2 where
          "jsonp_loop_check parents a = Some parents'"
          "dump_elems libc m h as (clear_embed flags) depth parents' cb d1 = (0, d2)"
          by (auto simp: do_dump.simps andThen_success Let_def as_def split: option.split_asm)
        with 1(2) [OF refl refl Some NArray] 1(3) False show ?thesis unfolding as_def by blast
      qed simp
      then obtain js where "list_all2 (repr h) as js" using list_repr [of as h] by blast
      then have "repr h a (JArray js)" using Some NArray by (simp add: repr_JArray as_def)
      then show ?thesis ..
    qed (use Some in \<open>blast intro: repr.intros(1-6)\<close>)+
  qed
next
  case (3 libc m h e es flags depth parents cb d)
  from 3(4) obtain d1 d2 where "do_dump libc m h e flags (depth + 1) parents cb d = (0, d1)"
      "dump_elems libc m h es flags depth parents cb d2 = (0, d')"
    by (auto simp: andThen_success)
  with 3(1) [OF 3(3)] 3(2) [OF 3(3)] show ?case by simp
next
  case (5 libc m h k v ps flags depth parents cb d)
  from 5(4) obtain d1 d2 d3 where "do_dump libc m h v flags (depth + 1) parents cb d1 = (0, d3)"
      "dump_pairs libc m h ps flags depth parents cb d2 = (0, d')"
    by (auto simp: andThen_success split: prod.splits)
  with 5(1) [OF refl surjective_pairing [symmetric] 5(3)] 5(2) [OF refl surjective_pairing [symmetric] 5(3)]
  show ?case by simp
qed simp_all


text \<open>So a circular structure is refused by every entry point.\<close>

lemma json_dump_callback_circular:
  assumes "keys_distinct h" "\<nexists>j. repr h a j"
  shows "fst (json_dump_callback libc m h a cb d flags) \<noteq> 0"
  using do_dump_success(1) [of h libc m a flags 0 "[]" cb d] assms
  by (auto simp: json_dump_callback_def prod_eq_iff)

lemma json_dumps_circular:
  "keys_distinct h \<Longrightarrow> \<nexists>j. repr h a j \<Longrightarrow> json_dumps libc m h a flags = None"
  using json_dump_callback_circular [of h a libc m "dump_to_strbuffer m" _ flags]
  by (auto simp: json_dumps_def split: prod.split) (metis fst_conv)

lemma json_dumpb_circular:
  "keys_distinct h \<Longrightarrow> \<nexists>j. repr h a j \<Longrightarrow> fst (json_dumpb libc m h a buf sz flags) = 0"
  using json_dump_callback_circular [of h a libc m dump_to_buffer _ flags]
  by (auto simp: json_dumpb_def split: prod.split) (metis fst_conv)

end
