(* ===== verification/LoadTermination.thy ===== *)
theory LoadTermination
  imports Loader
begin

text \<open>
  Termination of the loader: every token the parser acts on consumes input, so the fuel of
  the entry points is never exhausted. \<open>lex_size\<close> measures the input left in a lexer,
  \<open>scan_size\<close> adds one for a character in hand, which \<open>lex_unget\<close> may give back.
\<close>

subsection \<open>What the lexer consumes\<close>

lemma stream_unget_size: "stream_size (stream_unget s c) \<le> stream_size s + (if c = -1 \<or> c = -2 then 0 else 1)"
  by (auto simp: stream_unget_def stream_size_def Let_def)

lemma lex_unget_size: "lex_size (lex_unget lx c) \<le> scan_size lx c"
  using stream_unget_size [of "lx_stream lx" c] by (simp add: lex_unget_def scan_size_def)

lemma lex_unget_unsave_size: "lex_size (lex_unget_unsave lx c) \<le> scan_size lx c"
  using stream_unget_size [of "lx_stream lx" c] by (auto simp: lex_unget_unsave_def scan_size_def)

lemma stream_get_scan: "stream_get lx = (c, lx') \<Longrightarrow> scan_size lx' c \<le> lex_size lx"
  using stream_get_size [of lx c lx'] stream_get_size_le [of lx c lx']
  by (fastforce simp: scan_size_def)

lemma lex_get_scan: "lex_get lx = (c, lx') \<Longrightarrow> scan_size lx' c \<le> lex_size lx"
  by (simp add: lex_get_def stream_get_scan)

lemma lex_get_save_scan: "lex_get_save lx = (c, lx') \<Longrightarrow> scan_size lx' c \<le> lex_size lx"
  by (auto simp: lex_get_save_def scan_size_def split: prod.splits dest!: stream_get_scan)

lemma scan_size_ge: "lex_size lx \<le> scan_size lx c"
  by (simp add: scan_size_def)

lemmas scan_steps = lex_get_scan lex_get_save_scan

lemma lex_skip_ws_scan: "lex_skip_ws lx = (c, lx') \<Longrightarrow> scan_size lx' c \<le> lex_size lx"
proof (induction lx arbitrary: c lx' rule: lex_skip_ws.induct)
  case (1 lx)
  obtain d l where g: "lex_get lx = (d, l)" by (cases "lex_get lx")
  from lex_get_scan [OF g] scan_size_ge [of l d] have "lex_size l \<le> lex_size lx" by simp
  with "1" g lex_get_scan [OF g] show ?case
    by (force simp: lex_skip_ws.simps [of lx] split: if_splits)
qed

lemma lex_digits_scan: "lex_digits lx = (c, lx') \<Longrightarrow> scan_size lx' c \<le> lex_size lx"
proof (induction lx arbitrary: c lx' rule: lex_digits.induct)
  case (1 lx)
  obtain d l where g: "lex_get_save lx = (d, l)" by (cases "lex_get_save lx")
  from lex_get_save_scan [OF g] scan_size_ge [of l d] have "lex_size l \<le> lex_size lx" by simp
  with "1" g lex_get_save_scan [OF g] show ?case
    by (force simp: lex_digits.simps [of lx] split: if_splits)
qed

lemma lex_alphas_scan: "lex_alphas lx = (c, lx') \<Longrightarrow> scan_size lx' c \<le> lex_size lx"
proof (induction lx arbitrary: c lx' rule: lex_alphas.induct)
  case (1 lx)
  obtain d l where g: "lex_get_save lx = (d, l)" by (cases "lex_get_save lx")
  from lex_get_save_scan [OF g] scan_size_ge [of l d] have "lex_size l \<le> lex_size lx" by simp
  with "1" g lex_get_save_scan [OF g] show ?case
    by (force simp: lex_alphas.simps [of lx] split: if_splits)
qed

lemma lex_save_cached_size: "lex_size (lex_save_cached lx) \<le> lex_size lx"
proof (induction lx rule: lex_save_cached.induct)
  case (1 lx)
  show ?case
  proof (cases "buffer_at (lx_stream lx) = 0")
    case False
    with "1" [OF refl False] show ?thesis
      by (subst lex_save_cached.simps) (simp add: Let_def stream_size_def)
  qed (simp add: lex_save_cached.simps)
qed

lemma lex_hex_digits_Inl: "lex_hex_digits n lx c = Inl l \<Longrightarrow> lex_size l \<le> scan_size lx c"
proof (induction n arbitrary: lx c)
  case (Suc n)
  obtain d lx1 where g: "lex_get_save lx = (d, lx1)" by (cases "lex_get_save lx")
  have "scan_size lx1 d \<le> scan_size lx c"
    using lex_get_save_scan [OF g] scan_size_ge [of lx c] by simp
  with Suc g scan_size_ge [of lx c] show ?case
    by (fastforce split: if_splits)
qed simp

text \<open>The lexer in a result, success or not.\<close>

abbreviation out :: "'r lex + 'r lex \<Rightarrow> 'r lex" where
  "out r \<equiv> (case r of Inl l \<Rightarrow> l | Inr l \<Rightarrow> l)"

lemma lex_string_scan_escape:
  assumes "c = 92" "lex_get_save lx = (c1, lx1)" "lex_get_save lx1 = (c2, lx2)"
  shows "lex_string_scan lx c =
     (if c1 = 117 then (case lex_hex_digits 4 lx2 c2 of Inl l \<Rightarrow> Inl l | Inr (c3, lx3) \<Rightarrow> lex_string_scan lx3 c3)
      else if c1 = 34 \<or> c1 = 92 \<or> c1 = 47 \<or> c1 = 98 \<or> c1 = 102 \<or> c1 = 110 \<or> c1 = 114 \<or> c1 = 116
      then lex_string_scan lx2 c2
      else Inl (error_set lx1 json_error_invalid_syntax (asc ''invalid escape'')))"
  using assms by (subst lex_string_scan.simps) simp

lemma lex_string_scan_plain:
  assumes "c \<noteq> 34" "c \<noteq> -1" "c \<noteq> -2" "c \<noteq> 92" "c < 0 \<or> 31 < c" "lex_get_save lx = (c1, lx1)"
  shows "lex_string_scan lx c = lex_string_scan lx1 c1"
  using assms by (subst lex_string_scan.simps) auto

lemma lex_string_scan_stop:
  assumes "c = 34 \<or> c = -1 \<or> c = -2 \<or> 0 \<le> c \<and> c \<le> 31"
  shows "lex_size (out (lex_string_scan lx c)) \<le> scan_size lx c"
  using assms scan_size_ge [of lx c] lex_unget_unsave_size [of lx c]
  by (subst lex_string_scan.simps) (auto simp: Let_def)

lemma lex_string_scan_size: "lex_size (out (lex_string_scan lx c)) \<le> scan_size lx c"
proof (induction "scan_size lx c" arbitrary: lx c rule: less_induct)
  case less
  obtain c1 lx1 where g1: "lex_get_save lx = (c1, lx1)" by (cases "lex_get_save lx")
  obtain c2 lx2 where g2: "lex_get_save lx1 = (c2, lx2)" by (cases "lex_get_save lx1")
  consider "c = 34 \<or> c = -1 \<or> c = -2 \<or> 0 \<le> c \<and> c \<le> 31" | "c = 92"
    | "c \<noteq> 34" "c \<noteq> -1" "c \<noteq> -2" "c \<noteq> 92" "c < 0 \<or> 31 < c"
    by linarith
  then show ?case
  proof cases
    case 1
    then show ?thesis by (rule lex_string_scan_stop)
  next
    case 2
    have s1: "scan_size lx1 c1 < scan_size lx c" and s2: "scan_size lx2 c2 \<le> scan_size lx1 c1"
      using lex_get_save_scan_size [OF g1, of c] 2 lex_get_save_scan [OF g2] scan_size_ge [of lx1 c1]
      by auto
    have "lex_size (out (lex_string_scan lx2 c2)) \<le> scan_size lx c"
      using less.hyps [of lx2 c2] s1 s2 by auto
    moreover have "lex_size (out (lex_string_scan lx3 c3)) \<le> scan_size lx c"
      if "lex_hex_digits 4 lx2 c2 = Inr (c3, lx3)" for c3 lx3
      using less.hyps [of lx3 c3] lex_hex_digits_size [OF that] s1 s2 by auto
    moreover have "lex_size l \<le> scan_size lx c" if "lex_hex_digits 4 lx2 c2 = Inl l" for l
      using lex_hex_digits_Inl [OF that] s1 s2 by auto
    ultimately show ?thesis
      using s1 scan_size_ge [of lx1 c1]
      by (auto simp: lex_string_scan_escape [OF 2 g1 g2] split: sum.splits)
  next
    case 3
    from 3 have "scan_size lx1 c1 < scan_size lx c" by (intro lex_get_save_scan_size [OF g1])
    with less.hyps [of lx1 c1] 3 g1 show ?thesis by (simp add: lex_string_scan_plain)
  qed
qed

lemma error_stream_simps [simp]:
  "lx_stream (unicode_escape_error lx p) = lx_stream lx" "lx_stream (unicode_error lx vs) = lx_stream lx"
  "lx_stream (lex_free_string lx) = lx_stream lx"
  by (simp_all add: unicode_escape_error_def unicode_error_def lex_free_string_def)

lemma lex_unicode_escape_stream:
  "lex_unicode_escape lx p = Inl l \<Longrightarrow> lx_stream l = lx_stream lx"
  by (auto simp: lex_unicode_escape_def Let_def split: if_splits)

lemma lex_unescape_stream: "lex_unescape lx p t = Inl l \<Longrightarrow> lx_stream l = lx_stream lx"
  by (induction lx p t rule: lex_unescape.induct)
    (auto split: if_splits sum.splits option.splits dest: lex_unicode_escape_stream)

lemma lex_scan_string_size: "lex_size (lex_scan_string lx) \<le> lex_size lx"
proof -
  let ?lx = "lx\<lparr>lx_value := VString None, lx_token := TOKEN_INVALID\<rparr>"
  obtain c lx1 where g: "lex_get_save ?lx = (c, lx1)" by (cases "lex_get_save ?lx")
  have "lex_size (out (lex_string_scan lx1 c)) \<le> lex_size lx"
    using lex_string_scan_size [of lx1 c] lex_get_save_scan [OF g] by simp
  then show ?thesis
    using g by (auto simp: lex_scan_string_def split: sum.splits dest: lex_unescape_stream)
qed

lemma lex_scan_intpart_size:
  "c0 = 45 \<or> l_isdigit c0 \<Longrightarrow> case lex_scan_intpart lx c0 of Inl l \<Rightarrow> lex_size l \<le> lex_size lx
     | Inr (c, l) \<Rightarrow> scan_size l c \<le> lex_size lx"
proof -
  assume c0: "c0 = 45 \<or> l_isdigit c0"
  obtain c lx1 where g: "(if c0 = 45 then lex_get_save lx else (c0, lx)) = (c, lx1)"
    by (cases "if c0 = 45 then lex_get_save lx else (c0, lx)")
  obtain c1 lx2 where g1: "lex_get_save lx1 = (c1, lx2)" by (cases "lex_get_save lx1")
  obtain c2 lx3 where d: "lex_digits lx1 = (c2, lx3)" by (cases "lex_digits lx1")
  from g have s1: "lex_size lx1 \<le> lex_size lx" "c0 = 45 \<longrightarrow> scan_size lx1 c \<le> lex_size lx"
    using lex_get_save_scan [of lx c lx1] scan_size_ge [of lx1 c] by (auto split: if_splits)
  with c0 g g1 d lex_get_save_scan [OF g1] lex_digits_scan [OF d]
    lex_unget_unsave_size [of lx2 c1] lex_unget_unsave_size [of lx1 c]
  show ?thesis
    by (auto simp: lex_scan_intpart_def Let_def split: if_splits)
qed

lemma lex_scan_fraction_size:
  "case lex_scan_fraction lx c of Inl l \<Rightarrow> lex_size l \<le> scan_size lx c
     | Inr (c', l) \<Rightarrow> scan_size l c' \<le> scan_size lx c"
proof -
  obtain c1 lx1 where g: "lex_get lx = (c1, lx1)" by (cases "lex_get lx")
  obtain c2 lx2 where d: "lex_digits (lex_save lx1 c1) = (c2, lx2)"
    by (cases "lex_digits (lex_save lx1 c1)")
  have "scan_size lx1 c1 \<le> scan_size lx c" "scan_size lx2 c2 \<le> scan_size lx c"
    using lex_get_scan [OF g] lex_digits_scan [OF d] scan_size_ge [of lx c] scan_size_ge [of lx1 c1] by auto
  with g d lex_unget_size [of lx1 c1] show ?thesis
    by (auto simp: lex_scan_fraction_def Let_def split: if_splits)
qed

lemma lex_scan_exponent_size:
  "case lex_scan_exponent lx c of Inl l \<Rightarrow> lex_size l \<le> scan_size lx c
     | Inr (c', l) \<Rightarrow> scan_size l c' \<le> scan_size lx c"
proof -
  obtain c1 lx1 where g: "lex_get_save lx = (c1, lx1)" by (cases "lex_get_save lx")
  obtain c2 lx2 where g2: "(if c1 = 43 \<or> c1 = 45 then lex_get_save lx1 else (c1, lx1)) = (c2, lx2)"
    by (cases "if c1 = 43 \<or> c1 = 45 then lex_get_save lx1 else (c1, lx1)")
  obtain c3 lx3 where d: "lex_digits lx2 = (c3, lx3)" by (cases "lex_digits lx2")
  have "scan_size lx1 c1 \<le> scan_size lx c"
    using lex_get_save_scan [OF g] scan_size_ge [of lx c] by simp
  moreover from this have s2: "scan_size lx2 c2 \<le> scan_size lx c"
    using g2 lex_get_save_scan [of lx1 c2 lx2] scan_size_ge [of lx1 c1] by (auto split: if_splits)
  moreover from s2 have "scan_size lx3 c3 \<le> scan_size lx c"
    using lex_digits_scan [OF d] scan_size_ge [of lx2 c2] by simp
  ultimately show ?thesis
    using g g2 d lex_unget_unsave_size [of lx2 c2]
    by (auto simp: lex_scan_exponent_def Let_def split: if_splits)
qed

lemma lex_integer_stream: "lx_stream (snd (lex_integer lx)) = lx_stream lx"
  by (simp add: lex_integer_def case_prod_beta)

lemma lex_real_stream: "lx_stream (snd (lex_real libc lx)) = lx_stream lx"
  by (simp add: lex_real_def case_prod_beta Let_def split: option.split)

lemma lex_scan_number_size:
  assumes "c0 = 45 \<or> l_isdigit c0"
  shows "lex_size (snd (lex_scan_number libc lx c0)) \<le> lex_size lx"
proof (cases "lex_scan_intpart (lx\<lparr>lx_token := TOKEN_INVALID\<rparr>) c0")
  case (Inl l)
  with lex_scan_intpart_size [OF assms, of "lx\<lparr>lx_token := TOKEN_INVALID\<rparr>"] show ?thesis
    by (simp add: lex_scan_number_def)
next
  case (Inr r)
  obtain c lx1 where r: "r = (c, lx1)" by (cases r)
  have s: "scan_size lx1 c \<le> lex_size lx"
    using lex_scan_intpart_size [OF assms, of "lx\<lparr>lx_token := TOKEN_INVALID\<rparr>"] Inr r by simp
  show ?thesis
  proof (cases "lex_scan_fraction lx1 c")
    case Inl': (Inl l)
    with Inr r s lex_scan_fraction_size [of lx1 c] lex_unget_unsave_size [of lx1 c] show ?thesis
      by (simp add: lex_scan_number_def lex_integer_stream)
  next
    case Inr': (Inr q)
    obtain c2 lx2 where q: "q = (c2, lx2)" by (cases q)
    have s2: "scan_size lx2 c2 \<le> lex_size lx"
      using lex_scan_fraction_size [of lx1 c] Inr' q s by simp
    have "case lex_scan_exponent lx2 c2 of Inl l \<Rightarrow> lex_size l \<le> lex_size lx
        | Inr (c3, lx3) \<Rightarrow> lex_size (lex_unget_unsave lx3 c3) \<le> lex_size lx"
      using lex_scan_exponent_size [of lx2 c2] s2 lex_unget_unsave_size
      by (fastforce split: sum.splits intro: order_trans)
    with Inr r Inr' q s lex_unget_unsave_size [of lx1 c] show ?thesis
      by (auto simp: lex_scan_number_def lex_integer_stream lex_real_stream split: sum.splits)
  qed
qed

lemma lex_identifier_size: "lex_size (lex_identifier lx) \<le> lex_size lx"
proof -
  obtain c lx1 where g: "lex_alphas lx = (c, lx1)" by (cases "lex_alphas lx")
  with lex_alphas_scan [OF g] lex_unget_unsave_size [of lx1 c] show ?thesis
    by (simp add: lex_identifier_def Let_def)
qed

text \<open>A token consumes input, unless the input is exhausted or broken.\<close>

lemma lex_scan_size:
  "lex_size (lex_scan libc lx) < lex_size lx \<or>
   lex_size (lex_scan libc lx) \<le> lex_size lx \<and> lx_token (lex_scan libc lx) \<in> {TOKEN_EOF, TOKEN_INVALID}"
proof -
  let ?lx1 = "if lx_token lx = TOKEN_STRING then lex_free_string (lx\<lparr>lx_saved_text := []\<rparr>)
    else lx\<lparr>lx_saved_text := []\<rparr>"
  obtain c l where g: "lex_skip_ws ?lx1 = (c, l)" by (cases "lex_skip_ws ?lx1")
  have s: "scan_size l c \<le> lex_size lx"
    using lex_skip_ws_scan [OF g] by (simp split: if_splits)
  show ?thesis
  proof (cases "c = -1 \<or> c = -2")
    case True
    with g s show ?thesis by (auto simp: lex_scan_def scan_size_def Let_def)
  next
    case False
    then have l: "lex_size l < lex_size lx" using s by (simp add: scan_size_def)
    have "lex_size (lex_scan libc lx) \<le> lex_size l"
      using False g lex_scan_string_size [of "lex_save l c"] lex_identifier_size [of "lex_save l c"]
        lex_save_cached_size [of "lex_save l c"] lex_scan_number_size [of c libc "lex_save l c"]
      by (auto simp: lex_scan_def Let_def)
    with l show ?thesis by simp
  qed
qed

lemma lex_scan_size_le: "lex_size (lex_scan libc lx) \<le> lex_size lx"
  using lex_scan_size [of libc lx] by auto

lemma lex_scan_size_less:
  "lx_token (lex_scan libc lx) \<notin> {TOKEN_EOF, TOKEN_INVALID} \<Longrightarrow>
   lex_size (lex_scan libc lx) < lex_size lx"
  using lex_scan_size [of libc lx] by auto

subsection \<open>The parser returns\<close>

lemma lex_steal_string_stream: "lex_steal_string lx = (k, l) \<Longrightarrow> lx_stream l = lx_stream lx"
  by (auto simp: lex_steal_string_def split: if_splits)

lemma parse_value_simple:
  assumes "lx_token lx \<noteq> TOKEN_CHAR 123" "lx_token lx \<noteq> TOKEN_CHAR 91"
  shows "\<exists>r. parse_value libc flags (Suc n) lx = Some r \<and> lx_stream (snd r) = lx_stream lx"
  using assms
  by (cases "lx_token lx"; cases "lx_value lx") (auto simp: Let_def split: option.split)

definition good_token :: "'r lex \<Rightarrow> bool" where
  "good_token lx \<longleftrightarrow> lx_token lx \<notin> {TOKEN_EOF, TOKEN_INVALID}"

text \<open>Returned with the size of the input not larger than \<open>m\<close>.\<close>

definition returns :: "'r parse_result \<Rightarrow> nat \<Rightarrow> bool" where
  "returns r m \<longleftrightarrow> (\<exists>j lx. r = Some (j, lx) \<and> lex_size lx \<le> m)"

lemma returns_mono: "returns r m \<Longrightarrow> m \<le> m' \<Longrightarrow> returns r m'"
  by (auto simp: returns_def)

lemma parse_value_nested:
  assumes "lx_token lx = TOKEN_CHAR 123 \<or> lx_token lx = TOKEN_CHAR 91"
    and "\<And>l. l = lex_scan libc (lx\<lparr>lx_depth := lx_depth lx + 1\<rparr>) \<Longrightarrow>
      returns (parse_array_loop libc flags n [] l) (lex_size l) \<and>
      returns (parse_object_loop libc flags n [] l) (lex_size l)"
  shows "returns (parse_value libc flags (Suc n) lx) (lex_size lx)"
proof -
  let ?lx = "lx\<lparr>lx_depth := lx_depth lx + 1\<rparr>"
  have "lex_size (lex_scan libc ?lx) \<le> lex_size lx"
    using lex_scan_size_le [of libc ?lx] by simp
  with assms(2) [OF refl] assms(1) show ?thesis
    by (fastforce simp: returns_def Let_def split: option.splits)
qed

lemma array_loop_returns:
  assumes "lx_token lx \<noteq> TOKEN_EOF \<Longrightarrow> returns (parse_value libc flags n lx) (lex_size lx)"
    and "\<And>acc l. lex_size l < lex_size lx \<or> lex_size l \<le> lex_size lx \<and> \<not> good_token l \<Longrightarrow> 
      returns (parse_array_loop libc flags n acc l) (lex_size l)"
  shows "returns (parse_array_loop libc flags (Suc n) acc lx) (lex_size lx)"
proof (cases "lx_token lx = TOKEN_EOF")
  case True
  then show ?thesis by (simp add: returns_def)
next
  case False
  with assms(1) obtain j lx1 where v: "parse_value libc flags n lx = Some (j, lx1)" "lex_size lx1 \<le> lex_size lx"
    by (auto simp: returns_def)
  let ?l2 = "lex_scan libc lx1" and ?l3 = "lex_scan libc (lex_scan libc lx1)"
  have s: "lex_size ?l2 \<le> lex_size lx" "lex_size ?l3 \<le> lex_size ?l2"
      "lx_token ?l2 = TOKEN_CHAR 44 \<Longrightarrow> lex_size ?l2 < lex_size lx"
    using lex_scan_size_le [of libc lx1] lex_scan_size_le [of libc ?l2]
      lex_scan_size_less [of libc lx1] v(2) by auto
  show ?thesis
  proof (cases "j \<noteq> None \<and> lx_token ?l2 = TOKEN_CHAR 44")
    case True
    then have "returns (parse_array_loop libc flags n acc' ?l3) (lex_size ?l3)" for acc'
      using assms(2) [of ?l3 acc'] s by auto
    with True False v s show ?thesis
      by (fastforce simp: returns_def)
  next
    case no: False
    with False v s show ?thesis
      by (cases j) (auto simp: returns_def Let_def)
  qed
qed

lemma object_loop_returns:
  assumes "\<And>l. lex_size l < lex_size lx \<or> lex_size l \<le> lex_size lx \<and> \<not> good_token l \<Longrightarrow>
      returns (parse_value libc flags n l) (lex_size l)"
    and "\<And>acc l. lex_size l < lex_size lx \<Longrightarrow>
      returns (parse_object_loop libc flags n acc l) (lex_size l)"
  shows "returns (parse_object_loop libc flags (Suc n) acc lx) (lex_size lx)"
proof (cases "lx_token lx = TOKEN_STRING \<and> fst (lex_steal_string lx) \<noteq> None")
  case False
  obtain k l where kl: "lex_steal_string lx = (k, l)" by (cases "lex_steal_string lx")
  with False lex_steal_string_stream [OF kl] show ?thesis by (auto simp: returns_def)
next
  case True
  then obtain key lx1 where k: "lex_steal_string lx = (Some key, lx1)" "lx_token lx = TOKEN_STRING"
    by (cases "lex_steal_string lx") auto
  note st = lex_steal_string_stream [OF k(1)]
  let ?l2 = "lex_scan libc lx1"
  show ?thesis
  proof (cases "0 \<in> set key \<or> flag flags JSON_REJECT_DUPLICATES \<and> map_of acc key \<noteq> None \<or>
      lx_token ?l2 \<noteq> TOKEN_CHAR 58")
    case True
    with k st lex_scan_size_le [of libc lx1] show ?thesis
      by (auto simp: returns_def Let_def)
  next
    case ok: False
    let ?l3 = "lex_scan libc ?l2"
    have s3: "lex_size ?l3 < lex_size lx"
      using ok st lex_scan_size_less [of libc lx1] lex_scan_size_le [of libc ?l2] by auto
    with assms(1) [of ?l3] obtain j l4 where v: "parse_value libc flags n ?l3 = Some (j, l4)"
        "lex_size l4 \<le> lex_size ?l3"
      by (auto simp: returns_def)
    have s5: "lex_size (lex_scan libc l4) < lex_size lx" "lex_size (lex_scan libc (lex_scan libc l4)) < lex_size lx"
      using v s3 lex_scan_size_le [of libc l4] lex_scan_size_le [of libc "lex_scan libc l4"] by auto
    have "returns (parse_object_loop libc flags n acc' (lex_scan libc (lex_scan libc l4)))
        (lex_size lx)" for acc'
      by (rule returns_mono [OF assms(2) [OF s5(2)]]) (use s5(2) in simp)
    with ok k st v s3 s5 show ?thesis
      by (cases j) (auto simp: returns_def Let_def dest: order_less_imp_le)
  qed
qed

lemma parse_value_bad: "\<not> good_token lx \<Longrightarrow> returns (parse_value libc flags (Suc n) lx) (lex_size lx)"
  using parse_value_simple [of lx libc flags n] by (auto simp: good_token_def returns_def)

lemma parser_returns:
  "(2 * lex_size lx + 3 \<le> n \<longrightarrow> returns (parse_value libc flags n lx) (lex_size lx)) \<and>
   (2 * lex_size lx + 4 \<le> n \<or> \<not> good_token lx \<and> 2 \<le> n \<longrightarrow>
      returns (parse_array_loop libc flags n acc lx) (lex_size lx) \<and>
      returns (parse_object_loop libc flags n acc' lx) (lex_size lx))"
proof (induction n arbitrary: lx acc acc')
  case 0
  then show ?case by auto
next
  case (Suc n)
  have V: "returns (parse_value libc flags (Suc n) lx) (lex_size lx)" if "2 * lex_size lx + 3 \<le> Suc n"
  proof (cases "lx_token lx = TOKEN_CHAR 123 \<or> lx_token lx = TOKEN_CHAR 91")
    case True
    let ?l = "lex_scan libc (lx\<lparr>lx_depth := lx_depth lx + 1\<rparr>)"
    have "2 * lex_size ?l + 4 \<le> n \<or> \<not> good_token ?l \<and> 2 \<le> n"
      using lex_scan_size [of libc "lx\<lparr>lx_depth := lx_depth lx + 1\<rparr>"] that
      by (auto simp: good_token_def)
    with Suc.IH [of ?l "[]" "[]"] True show ?thesis
      by (intro parse_value_nested) auto
  next
    case False
    with parse_value_simple [of lx libc flags n] show ?thesis by (auto simp: returns_def)
  qed
  have A: "returns (parse_array_loop libc flags (Suc n) acc lx) (lex_size lx) \<and>
      returns (parse_object_loop libc flags (Suc n) acc' lx) (lex_size lx)"
    if "2 * lex_size lx + 4 \<le> Suc n \<or> \<not> good_token lx \<and> 2 \<le> Suc n"
  proof (cases "2 * lex_size lx + 4 \<le> Suc n")
    case True
    have arr: "2 * lex_size l + 4 \<le> n \<or> \<not> good_token l \<and> 2 \<le> n" and obj: "2 * lex_size l + 3 \<le> n"
      if "lex_size l < lex_size lx \<or> lex_size l \<le> lex_size lx \<and> \<not> good_token l" for l :: "'a lex"
      using that True by auto
    from True Suc.IH arr obj show ?thesis
      by (intro conjI array_loop_returns object_loop_returns) auto
  next
    case False
    with that have b: "\<not> good_token lx" "1 \<le> n" by auto
    then obtain m where n: "n = Suc m" by (cases n) auto
    have "returns (parse_object_loop libc flags (Suc n) acc' lx) (lex_size lx)"
      using b by (auto simp: returns_def good_token_def)
    moreover have "returns (parse_array_loop libc flags (Suc n) acc lx) (lex_size lx)"
    proof (cases "lx_token lx = TOKEN_EOF")
      case True
      then show ?thesis by (simp add: returns_def)
    next
      case False
      with b have "lx_token lx = TOKEN_INVALID" by (simp add: good_token_def)
      then show ?thesis by (auto simp: n returns_def Let_def)
    qed
    ultimately show ?thesis by simp
  qed
  from V A show ?case by blast
qed

lemma lex_init_size: "lex_size (lex_init data flags error) = 6 * length data + 5"
  by (simp add: lex_init_def stream_init_def stream_size_def)

lemma parse_json_returns:
  assumes "2 * lex_size lx + 3 \<le> n"
  shows "\<exists>r lx'. parse_json libc flags n lx = Some (r, lx')"
proof -
  let ?l = "lex_scan libc (lx\<lparr>lx_depth := 0\<rparr>)"
  have "lex_size ?l \<le> lex_size lx" using lex_scan_size_le [of libc "lx\<lparr>lx_depth := 0\<rparr>"] by simp
  with parser_returns [of ?l n libc flags] assms
  have "returns (parse_value libc flags n ?l) (lex_size ?l)" by auto
  then show ?thesis
    by (fastforce simp: parse_json_def returns_def Let_def split: option.splits)
qed

lemma load_bytes_returns: "\<exists>r. load_bytes libc data flags error = Some r"
  using parse_json_returns [of "lex_init data flags error" "load_fuel (length data)" libc flags]
  by (auto simp: load_bytes_def lex_init_size load_fuel_def)

end
