(* ===== verification/ParseText.thy ===== *)
theory ParseText
  imports ParseFuel TokenText DumpThms LoadTermination
begin

text \<open>
  Decoding what the encoder wrote: on the text of a value the parser returns the value, with the
  pairs of its objects in the order they were written.
\<close>

subsection \<open>Values that survive the round trip\<close>

fun canon :: "size_t \<Rightarrow> 'r json \<Rightarrow> 'r json" where
  "canon flags (JArray js) = JArray (map (canon flags) js)"
| "canon flags (JObject ps) = JObject (order_pairs flags (map (\<lambda>p. (fst p, canon flags (snd p))) ps))"
| "canon flags j = j"

lemma canon_unsorted: "\<not> flag flags JSON_SORT_KEYS \<Longrightarrow> canon flags j = j"
  by (induction j) (auto simp: order_pairs_def map_idI prod_set_defs intro!: map_idI)

text \<open>Nesting within \<open>n\<close> levels.\<close>

fun fits :: "nat \<Rightarrow> 'r json \<Rightarrow> bool" where
  "fits n (JArray js) = (0 < n \<and> (\<forall>j\<in>set js. fits (n - 1) j))"
| "fits n (JObject ps) = (0 < n \<and> (\<forall>p\<in>set ps. fits (n - 1) (snd p)))"
| "fits n _ = (0 < n)"

fun loadable :: "('r, 'z) libc_scheme \<Rightarrow> size_t \<Rightarrow> size_t \<Rightarrow> 'r json \<Rightarrow> bool" where
  "loadable libc f g (JString s) = (valid_utf8 s \<and> (flag g JSON_ALLOW_NUL \<or> 0 \<notin> set s))"
| "loadable libc f g (JInteger i) = (- (2 ^ 63) \<le> i \<and> i < 2 ^ 63)"
| "loadable libc f g (JReal r) =
     ((case jsonp_dtostr libc MAX_REAL_STR_LENGTH r (FLAGS_TO_PRECISION f) of
         None \<Rightarrow> False
       | Some t \<Rightarrow> real_text t \<and> fst (jsonp_strtod libc t) = Some r) \<and>
      \<not> c_isnan libc r \<and> \<not> c_isinf libc r)"
| "loadable libc f g (JArray js) = (\<forall>j\<in>set js. loadable libc f g j)"
| "loadable libc f g (JObject ps) =
     (distinct (map fst ps) \<and>
      (\<forall>p\<in>set ps. valid_utf8 (fst p) \<and> 0 \<notin> set (fst p) \<and> loadable libc f g (snd p)))"
| "loadable libc f g _ = True"

subsection \<open>Separators\<close>

definition value_end :: "bytes \<Rightarrow> bool" where
  "value_end p \<longleftrightarrow> p = [] \<or> hd p \<in> {44, 93, 125, 10, 32}"

lemma value_end_cases:
  assumes "value_end p"
  shows "number_end p" "\<not> l_isalpha (nxt p)"
  using assms by (cases p; auto simp: value_end_def number_end_def char_classes schar_def)+

lemma ws_text_ws: "ws (ws_text flags d b)"
  by (auto simp: ws_def ws_text_def is_ws_def schar_def)

lemma ws_text_value_end: "value_end (c # p) \<Longrightarrow> value_end (ws_text flags d b @ c # p)"
  by (auto simp: value_end_def ws_text_def)

subsection \<open>The first token\<close>

fun first_tok :: "'r json \<Rightarrow> token" where
  "first_tok (JArray _) = TOKEN_CHAR 91"
| "first_tok (JObject _) = TOKEN_CHAR 123"
| "first_tok (JString _) = TOKEN_STRING"
| "first_tok (JInteger _) = TOKEN_INTEGER"
| "first_tok (JReal _) = TOKEN_REAL"
| "first_tok JTrue = TOKEN_TRUE"
| "first_tok JFalse = TOKEN_FALSE"
| "first_tok JNull = TOKEN_NULL"

definition parses :: "('r, 'z) libc_scheme \<Rightarrow> size_t \<Rightarrow> size_t \<Rightarrow> 'r json \<Rightarrow> bool" where
  "parses libc f g j \<longleftrightarrow> (\<forall>lx w d p.
     sview (lx_stream lx) (w @ jtext libc f d j @ p) \<longrightarrow> ws w \<longrightarrow> value_end p \<longrightarrow> lx_flags lx = g \<longrightarrow>
     fits (JSON_PARSER_MAX_DEPTH - lx_depth lx) j \<longrightarrow>
     lx_token (lex_scan libc lx) = first_tok j \<and>
     (\<exists>n l. parse_value libc g n (lex_scan libc lx) = Some (Some (canon f j), l) \<and>
        sview (lx_stream l) p \<and> lx_depth l = lx_depth lx \<and> lx_flags l = lx_flags lx))"

lemma fits_pos: "fits n j \<Longrightarrow> 0 < n"
  by (cases j) auto

lemma parses_scalar:
  assumes "loadable libc f g j" "\<not> container j" "\<not> flag g JSON_DECODE_INT_AS_REAL"
  shows "parses libc f g j"
  unfolding parses_def
proof (intro allI impI)
  fix lx :: "'a lex" and w d p
  assume v: "sview (lx_stream lx) (w @ jtext libc f d j @ p)" "ws w" "value_end p" "lx_flags lx = g"
    and d: "fits (JSON_PARSER_MAX_DEPTH - lx_depth lx) j"
  let ?l = "lex_scan libc lx"
  note e = value_end_cases [OF v(3)]
  have ne: "\<not> l_isdigit (nxt p)" "nxt p \<noteq> 46" "nxt p \<noteq> 69" "nxt p \<noteq> 101"
    using e(1) by (auto simp: number_end_def)
  have depth: "\<not> Suc (lx_depth lx) > JSON_PARSER_MAX_DEPTH" using fits_pos [OF d] by simp
  have "scanned lx ?l (first_tok j) p \<and> (case j of JString s \<Rightarrow> lx_value ?l = VString (Some s)
      | JInteger i \<Rightarrow> lx_value ?l = VInteger i | JReal r \<Rightarrow> lx_value ?l = VReal r | _ \<Rightarrow> True)"
  proof (cases j)
    case (JString s)
    then show ?thesis using lex_scan_str [of lx w f s p] v assms(1) by simp
  next
    case (JInteger i)
    then show ?thesis using lex_scan_int [of lx w i p] v ne assms by simp
  next
    case (JReal r)
    then show ?thesis using lex_scan_real [of lx w _ p libc r] v e assms(1) by (auto split: option.splits)
  next
    case JTrue
    then show ?thesis using lex_scan_ident [of lx w "asc ''true''" p libc] v e
      by (auto simp: char_classes schar_def)
  next
    case JFalse
    then show ?thesis using lex_scan_ident [of lx w "asc ''false''" p libc] v e
      by (auto simp: char_classes schar_def)
  next
    case JNull
    then show ?thesis using lex_scan_ident [of lx w "asc ''null''" p libc] v e
      by (auto simp: char_classes schar_def)
  qed (use assms(2) in auto)
  moreover from this have "lx_depth ?l = lx_depth lx" by (simp add: scanned_def)
  ultimately show "lx_token ?l = first_tok j \<and> (\<exists>n l. parse_value libc g n ?l = Some (Some (canon f j), l) \<and>
        sview (lx_stream l) p \<and> lx_depth l = lx_depth lx \<and> lx_flags l = lx_flags lx)"
    using assms depth by (intro conjI exI [of _ "Suc 0"]) (cases j; auto simp: scanned_def Let_def split: option.splits)+
qed

subsection \<open>Arrays\<close>

lemma parsesD:
  assumes "parses libc f g j" "sview (lx_stream lx) (w @ jtext libc f d j @ p)" "ws w" "value_end p" "lx_flags lx = g"
    "fits (JSON_PARSER_MAX_DEPTH - lx_depth lx) j"
  shows "lx_token (lex_scan libc lx) = first_tok j \<and>
     (\<exists>n l. parse_value libc g n (lex_scan libc lx) = Some (Some (canon f j), l) \<and>
        sview (lx_stream l) p \<and> lx_depth l = lx_depth lx \<and> lx_flags l = lx_flags lx)"
  using assms unfolding parses_def by blast

lemma order_pairs_Nil [simp]: "order_pairs f [] = []"
  by (simp add: order_pairs_def sort_pairs_def)

definition sep_after :: "size_t \<Rightarrow> nat \<Rightarrow> bool \<Rightarrow> bytes" where
  "sep_after f d another = (if another then 44 # ws_text f (d + 1) True else ws_text f d False)"

lemma tail_text_sep: "tail_text f d (t # ts) = t @ sep_after f d (ts \<noteq> []) @ tail_text f d ts"
  by (simp add: tail_text_Cons sep_after_def)

lemma sep_after_end: "value_end (c # p) \<Longrightarrow> value_end (sep_after f d (ts \<noteq> []) @ tail_text f d ts @ c # p)"
  using ws_text_value_end [of c p f d False]
  by (cases "ts = []") (simp_all add: sep_after_def tail_text_def value_end_def)

lemma first_tok_simps [simp]: "first_tok j \<noteq> TOKEN_EOF" "first_tok j \<noteq> TOKEN_CHAR 93" "first_tok j \<noteq> TOKEN_CHAR 125"
  by (cases j; simp)+

lemma parse_array_loop_text:
  assumes "js \<noteq> []" "\<forall>j\<in>set js. parses libc f g j \<and> fits (JSON_PARSER_MAX_DEPTH - lx_depth lx) j"
    "sview (lx_stream lx) (w @ tail_text f d (map (jtext libc f (d + 1)) js) @ 93 # p)" "ws w" "lx_flags lx = g"
  shows "\<exists>n l. parse_array_loop libc g n acc (lex_scan libc lx) = Some (Some (JArray (acc @ map (canon f) js)), l) \<and>
    sview (lx_stream l) p \<and> lx_depth l = lx_depth lx \<and> lx_flags l = lx_flags lx"
  using assms
proof (induction js arbitrary: lx w acc)
  case (Cons j js)
  let ?q = "sep_after f d (js \<noteq> []) @ tail_text f d (map (jtext libc f (d + 1)) js) @ 93 # p"
  have ve: "value_end ?q"
    using sep_after_end [of 93 p f d "map (jtext libc f (d + 1)) js"] by (simp add: value_end_def)
  have v: "sview (lx_stream lx) (w @ jtext libc f (d + 1) j @ ?q)"
    using Cons.prems(3) by (simp add: tail_text_sep)
  obtain n l where l: "lx_token (lex_scan libc lx) = first_tok j"
    "parse_value libc g n (lex_scan libc lx) = Some (Some (canon f j), l)" "sview (lx_stream l) ?q"
    "lx_depth l = lx_depth lx" "lx_flags l = lx_flags lx"
    using parsesD [OF _ v Cons.prems(4) ve Cons.prems(5)] Cons.prems(2) by auto
  show ?case
  proof (cases "js = []")
    case True
    with l(3) have "sview (lx_stream l) (ws_text f d False @ 93 # p)" by (simp add: sep_after_def tail_text_def)
    from lex_scan_punct [OF this ws_text_ws, of libc] have "scanned l (lex_scan libc l) (TOKEN_CHAR 93) p"
      by (simp add: schar_def)
    with True l show ?thesis
      by (intro exI [of _ "Suc n"]) (simp add: scanned_def)
  next
    case False
    with l(3) have "sview (lx_stream l) ([] @ 44 # ws_text f (d + 1) True @
        tail_text f d (map (jtext libc f (d + 1)) js) @ 93 # p)" by (simp add: sep_after_def)
    from lex_scan_punct [OF this, of libc] have sc: "scanned l (lex_scan libc l) (TOKEN_CHAR 44)
        (ws_text f (d + 1) True @ tail_text f d (map (jtext libc f (d + 1)) js) @ 93 # p)"
      by (simp add: schar_def ws_def)
    let ?l = "lex_scan libc l"
    obtain m l' where m: "parse_array_loop libc g m (acc @ [canon f j]) (lex_scan libc ?l) =
        Some (Some (JArray ((acc @ [canon f j]) @ map (canon f) js)), l')"
      "sview (lx_stream l') p" "lx_depth l' = lx_depth ?l" "lx_flags l' = lx_flags ?l"
      using Cons.IH [OF False, of ?l "ws_text f (d + 1) True" "acc @ [canon f j]"] sc Cons.prems l ws_text_ws
      by (auto simp: scanned_def)
    let ?k = "max n m"
    have "parse_value libc g ?k (lex_scan libc lx) = Some (Some (canon f j), l)"
      by (rule parse_value_mono [OF _ l(2)]) simp
    moreover have "parse_array_loop libc g ?k (acc @ [canon f j]) (lex_scan libc ?l) =
        Some (Some (JArray ((acc @ [canon f j]) @ map (canon f) js)), l')"
      by (rule parse_array_loop_mono [OF _ m(1)]) simp
    ultimately show ?thesis
      using l(1,4,5) sc m(2-4) by (intro exI [of _ "Suc ?k"]) (simp add: scanned_def)
  qed
qed simp

subsection \<open>Objects\<close>

definition pair_text :: "('r, 'z) libc_scheme \<Rightarrow> size_t \<Rightarrow> nat \<Rightarrow> bytes \<times> 'r json \<Rightarrow> bytes" where
  "pair_text libc f d p = str_text f (fst p) @ sep_text f @ jtext libc f d (snd p)"

text \<open>The key, the colon and the value of one pair.\<close>

lemma key_scan:
  assumes "sview (lx_stream lx) (w @ str_text f k @ sep_text f @ q)" "ws w" "valid_utf8 k"
  obtains l1 v where "lx_token (lex_scan libc lx) = TOKEN_STRING" "lex_steal_string (lex_scan libc lx) = (Some k, l1)"
    "scanned lx (lex_scan libc l1) (TOKEN_CHAR 58) (v @ q)" "ws v"
proof -
  let ?l = "lex_scan libc lx" and ?v = "tl (sep_text f)"
  have st: "sep_text f = 58 # ?v" "ws ?v" by (auto simp: sep_text_def ws_def is_ws_def schar_def)
  have k: "scanned lx ?l TOKEN_STRING (58 # ?v @ q)" "lx_value ?l = VString (Some k)"
    using lex_scan_str [OF assms, of libc] by (subst (asm) st(1), simp)+
  let ?l1 = "?l\<lparr>lx_value := VString None\<rparr>"
  have s: "lex_steal_string ?l = (Some k, ?l1)" using k by (simp add: lex_steal_string_def scanned_def)
  have "sview (lx_stream ?l1) ([] @ 58 # ?v @ q)" using k(1) by (simp add: scanned_def)
  from lex_scan_punct [OF this, of libc] have "scanned ?l1 (lex_scan libc ?l1) (TOKEN_CHAR 58) (?v @ q)"
    by (simp add: ws_def schar_def)
  with k(1) s st(2) that [of ?l1 ?v] show ?thesis by (simp add: scanned_def)
qed

lemma parse_object_loop_text:
  assumes "ps \<noteq> []" "\<forall>p\<in>set ps. valid_utf8 (fst p) \<and> 0 \<notin> set (fst p) \<and> parses libc f g (snd p) \<and>
      fits (JSON_PARSER_MAX_DEPTH - lx_depth lx) (snd p)"
    "distinct (map fst (acc @ map (\<lambda>p. (fst p, canon f (snd p))) ps))"
    "sview (lx_stream lx) (w @ tail_text f d (map (pair_text libc f (d + 1)) ps) @ 125 # q)" "ws w" "lx_flags lx = g"
  shows "\<exists>n l. parse_object_loop libc g n acc (lex_scan libc lx) =
      Some (Some (JObject (acc @ map (\<lambda>p. (fst p, canon f (snd p))) ps)), l) \<and>
    sview (lx_stream l) q \<and> lx_depth l = lx_depth lx \<and> lx_flags l = lx_flags lx"
  using assms
proof (induction ps arbitrary: lx w acc)
  case (Cons p ps)
  let ?k = "fst p" and ?j = "snd p"
  let ?r = "sep_after f d (ps \<noteq> []) @ tail_text f d (map (pair_text libc f (d + 1)) ps) @ 125 # q"
  have ve: "value_end ?r"
    using sep_after_end [of 125 q f d "map (pair_text libc f (d + 1)) ps"] by (simp add: value_end_def)
  have "sview (lx_stream lx) (w @ str_text f ?k @ sep_text f @ jtext libc f (d + 1) ?j @ ?r)"
    using Cons.prems(4) by (simp add: tail_text_sep pair_text_def [of _ _ _ p])
  then obtain l1 v where l1: "lx_token (lex_scan libc lx) = TOKEN_STRING"
    "lex_steal_string (lex_scan libc lx) = (Some ?k, l1)"
    "scanned lx (lex_scan libc l1) (TOKEN_CHAR 58) (v @ jtext libc f (d + 1) ?j @ ?r)" "ws v"
    using key_scan [of lx w f ?k "jtext libc f (d + 1) ?j @ ?r" libc] Cons.prems(2,5) by auto
  let ?l2 = "lex_scan libc l1"
  obtain n l where l: "parse_value libc g n (lex_scan libc ?l2) = Some (Some (canon f ?j), l)"
    "sview (lx_stream l) ?r" "lx_depth l = lx_depth lx" "lx_flags l = lx_flags lx"
    using parsesD [of libc f g ?j ?l2 v "d + 1" ?r] l1(3,4) ve Cons.prems(2,6) by (auto simp: scanned_def)
  have new: "?k \<notin> fst ` set acc" "map_of acc ?k = None"
    using Cons.prems(3) by (auto simp: map_of_eq_None_iff)
  have nz: "0 \<notin> set ?k" using Cons.prems(2) by simp
  let ?acc = "acc @ [(?k, canon f ?j)]"
  show ?case
  proof (cases "ps = []")
    case True
    with l(2) have "sview (lx_stream l) (ws_text f d False @ 125 # q)" by (simp add: sep_after_def tail_text_def)
    from lex_scan_punct [OF this ws_text_ws, of libc] have "scanned l (lex_scan libc l) (TOKEN_CHAR 125) q"
      by (simp add: schar_def)
    with True l l1 new nz show ?thesis
      by (intro exI [of _ "Suc n"]) (simp add: scanned_def Let_def obj_set_new)
  next
    case False
    with l(2) have "sview (lx_stream l) ([] @ 44 # ws_text f (d + 1) True @
        tail_text f d (map (pair_text libc f (d + 1)) ps) @ 125 # q)" by (simp add: sep_after_def)
    from lex_scan_punct [OF this, of libc] have sc: "scanned l (lex_scan libc l) (TOKEN_CHAR 44)
        (ws_text f (d + 1) True @ tail_text f d (map (pair_text libc f (d + 1)) ps) @ 125 # q)"
      by (simp add: schar_def ws_def)
    let ?l = "lex_scan libc l"
    obtain m l' where m: "parse_object_loop libc g m ?acc (lex_scan libc ?l) =
        Some (Some (JObject (?acc @ map (\<lambda>p. (fst p, canon f (snd p))) ps)), l')"
      "sview (lx_stream l') q" "lx_depth l' = lx_depth ?l" "lx_flags l' = lx_flags ?l"
      using Cons.IH [OF False, of ?l ?acc "ws_text f (d + 1) True"] sc Cons.prems l ws_text_ws
      by (auto simp: scanned_def)
    let ?n = "max n m"
    have "parse_value libc g ?n (lex_scan libc ?l2) = Some (Some (canon f ?j), l)"
      by (rule parse_value_mono [OF _ l(1)]) simp
    moreover have "parse_object_loop libc g ?n ?acc (lex_scan libc ?l) =
        Some (Some (JObject (?acc @ map (\<lambda>p. (fst p, canon f (snd p))) ps)), l')"
      by (rule parse_object_loop_mono [OF _ m(1)]) simp
    ultimately show ?thesis
      using l(3,4) l1 sc m(2-4) new nz
      by (intro exI [of _ "Suc ?n"]) (simp add: scanned_def Let_def obj_set_new)
  qed
qed simp

subsection \<open>All values\<close>

lemma parses_JArray:
  assumes "\<forall>j\<in>set js. parses libc f g j"
  shows "parses libc f g (JArray js)"
  unfolding parses_def
proof (intro allI impI)
  fix lx :: "'a lex" and w d p
  assume v: "sview (lx_stream lx) (w @ jtext libc f d (JArray js) @ p)" "ws w" "value_end p" "lx_flags lx = g"
    and ft: "fits (JSON_PARSER_MAX_DEPTH - lx_depth lx) (JArray js)"
  let ?ts = "map (jtext libc f (d + 1)) js"
  let ?t = "items_text f d ?ts @ 93 # p"
  have "sview (lx_stream lx) (w @ 91 # ?t)" using v(1) by simp
  from lex_scan_punct [OF this v(2), of libc] have sc: "scanned lx (lex_scan libc lx) (TOKEN_CHAR 91) ?t"
    by (simp add: schar_def)
  let ?l = "(lex_scan libc lx)\<lparr>lx_depth := lx_depth lx + 1\<rparr>"
  have dp: "\<not> lx_depth lx + 1 > JSON_PARSER_MAX_DEPTH" using ft by simp
  have "\<exists>n l. parse_value libc g n (lex_scan libc lx) = Some (Some (canon f (JArray js)), l) \<and>
      sview (lx_stream l) p \<and> lx_depth l = lx_depth lx \<and> lx_flags l = lx_flags lx"
  proof (cases "js = []")
    case True
    with sc have "sview (lx_stream ?l) ([] @ 93 # p)" by (simp add: scanned_def items_text_def)
    from lex_scan_punct [OF this, of libc] have "scanned ?l (lex_scan libc ?l) (TOKEN_CHAR 93) p"
      by (simp add: schar_def ws_def)
    with True sc dp show ?thesis by (intro exI [of _ "Suc 0"]) (simp add: scanned_def Let_def)
  next
    case False
    let ?w = "ws_text f (d + 1) False"
    from False sc have s: "sview (lx_stream ?l) (?w @ tail_text f d ?ts @ 93 # p)"
      by (simp add: scanned_def items_text_def tail_text_def)
    obtain n l where l: "parse_array_loop libc g n [] (lex_scan libc ?l) = Some (Some (JArray (map (canon f) js)), l)"
      "sview (lx_stream l) p" "lx_depth l = lx_depth ?l" "lx_flags l = lx_flags ?l"
      using parse_array_loop_text [OF False, of libc f g ?l ?w d p "[]"] s assms ft sc v(4) ws_text_ws
      by (auto simp: scanned_def)
    have "lx_token (lex_scan libc ?l) \<noteq> TOKEN_CHAR 93"
    proof -
      obtain j js' where js: "js = j # js'" using False by (cases js) auto
      have "value_end (sep_after f d (js' \<noteq> []) @ tail_text f d (map (jtext libc f (d + 1)) js') @ 93 # p)"
        using sep_after_end [of 93 p f d "map (jtext libc f (d + 1)) js'"] by (simp add: value_end_def)
      with parsesD [of libc f g j ?l ?w "d + 1"
          "sep_after f d (js' \<noteq> []) @ tail_text f d (map (jtext libc f (d + 1)) js') @ 93 # p"] s assms ft sc v(4) ws_text_ws show ?thesis
        by (auto simp: js tail_text_sep scanned_def)
    qed
    with l sc dp show ?thesis by (intro exI [of _ "Suc n"]) (simp add: scanned_def Let_def)
  qed
  with sc show "lx_token (lex_scan libc lx) = first_tok (JArray js) \<and>
      (\<exists>n l. parse_value libc g n (lex_scan libc lx) = Some (Some (canon f (JArray js)), l) \<and>
        sview (lx_stream l) p \<and> lx_depth l = lx_depth lx \<and> lx_flags l = lx_flags lx)"
    by (simp add: scanned_def)
qed

lemma distinct_insert_key: "distinct (insert_key k ks) \<longleftrightarrow> k \<notin> set ks \<and> distinct ks"
  by (induction ks) auto

lemma order_pairs_distinct: "distinct (map fst ps) \<Longrightarrow> distinct (map fst (order_pairs f ps))"
proof -
  have "distinct ks \<Longrightarrow> distinct (qsort_keys ks)" for ks
    by (induction ks) (auto simp: distinct_insert_key)
  then show "distinct (map fst ps) \<Longrightarrow> distinct (map fst (order_pairs f ps))"
    by (simp add: order_pairs_def sort_pairs_def comp_def)
qed

lemma parses_JObject:
  assumes "distinct (map fst ps)" "\<forall>p\<in>set ps. valid_utf8 (fst p) \<and> 0 \<notin> set (fst p) \<and> parses libc f g (snd p)"
  shows "parses libc f g (JObject ps)"
  unfolding parses_def
proof (intro allI impI)
  fix lx :: "'a lex" and w d q
  assume v: "sview (lx_stream lx) (w @ jtext libc f d (JObject ps) @ q)" "ws w" "value_end q" "lx_flags lx = g"
    and ft: "fits (JSON_PARSER_MAX_DEPTH - lx_depth lx) (JObject ps)"
  let ?ps = "order_pairs f ps"
  let ?ts = "map (pair_text libc f (d + 1)) ?ps"
  let ?t = "items_text f d ?ts @ 125 # q"
  have "sview (lx_stream lx) (w @ 123 # ?t)"
    using v(1) by (simp add: order_pairs_map pair_text_def [abs_def] comp_def)
  from lex_scan_punct [OF this v(2), of libc] have sc: "scanned lx (lex_scan libc lx) (TOKEN_CHAR 123) ?t"
    by (simp add: schar_def)
  let ?l = "(lex_scan libc lx)\<lparr>lx_depth := lx_depth lx + 1\<rparr>"
  have dp: "\<not> lx_depth lx + 1 > JSON_PARSER_MAX_DEPTH" using ft by simp
  have "\<exists>n l. parse_value libc g n (lex_scan libc lx) = Some (Some (canon f (JObject ps)), l) \<and>
      sview (lx_stream l) q \<and> lx_depth l = lx_depth lx \<and> lx_flags l = lx_flags lx"
  proof (cases "ps = []")
    case True
    with sc have "sview (lx_stream ?l) ([] @ 125 # q)" by (simp add: scanned_def items_text_def)
    from lex_scan_punct [OF this, of libc] have "scanned ?l (lex_scan libc ?l) (TOKEN_CHAR 125) q"
      by (simp add: schar_def ws_def)
    with True sc dp show ?thesis
      by (intro exI [of _ "Suc 0"]) (simp add: scanned_def Let_def)
  next
    case False
    let ?w = "ws_text f (d + 1) False"
    from False sc have s: "sview (lx_stream ?l) (?w @ tail_text f d ?ts @ 125 # q)"
      by (simp add: scanned_def items_text_def tail_text_def)
    have ne: "?ps \<noteq> []" using False by simp
    have ok: "\<forall>p\<in>set ?ps. valid_utf8 (fst p) \<and> 0 \<notin> set (fst p) \<and> parses libc f g (snd p) \<and>
        fits (JSON_PARSER_MAX_DEPTH - lx_depth ?l) (snd p)"
      using assms ft by (simp add: set_order_pairs)
    have ds: "distinct (map fst ([] @ map (\<lambda>p. (fst p, canon f (snd p))) ?ps))"
      using order_pairs_distinct [OF assms(1), of f] by (simp add: comp_def)
    have fl: "lx_flags ?l = g" using sc v(4) by (simp add: scanned_def)
    obtain n l where l: "parse_object_loop libc g n [] (lex_scan libc ?l) =
        Some (Some (JObject (map (\<lambda>p. (fst p, canon f (snd p))) ?ps)), l)"
      "sview (lx_stream l) q" "lx_depth l = lx_depth ?l" "lx_flags l = lx_flags ?l"
      using parse_object_loop_text [OF ne ok ds s ws_text_ws fl] by auto
    have "lx_token (lex_scan libc ?l) = TOKEN_STRING"
    proof -
      obtain p ps' where js: "?ps = p # ps'" using ne by (cases ?ps) auto
      from s have "sview (lx_stream ?l) (?w @ str_text f (fst p) @ (sep_text f @ jtext libc f (d + 1) (snd p) @
          sep_after f d (ps' \<noteq> []) @ tail_text f d (map (pair_text libc f (d + 1)) ps') @ 125 # q))"
        by (simp add: js tail_text_sep pair_text_def [of _ _ _ p])
      from lex_scan_str [OF this ws_text_ws, of libc] ok js show ?thesis by (simp add: scanned_def)
    qed
    with l sc dp show ?thesis
      by (intro exI [of _ "Suc n"]) (simp add: scanned_def Let_def order_pairs_map)
  qed
  with sc show "lx_token (lex_scan libc lx) = first_tok (JObject ps) \<and>
      (\<exists>n l. parse_value libc g n (lex_scan libc lx) = Some (Some (canon f (JObject ps)), l) \<and>
        sview (lx_stream l) q \<and> lx_depth l = lx_depth lx \<and> lx_flags l = lx_flags lx)"
    by (simp add: scanned_def)
qed

lemma parses_all: "loadable libc f g j \<Longrightarrow> \<not> flag g JSON_DECODE_INT_AS_REAL \<Longrightarrow> parses libc f g j"
proof (induction j)
  case (JArray js)
  then show ?case by (intro parses_JArray) auto
next
  case (JObject ps)
  then show ?case by (intro parses_JObject) (auto simp: prod_set_defs)
qed (rule parses_scalar; simp)+

end
