(* ===== verification/RoundTrip.thy ===== *)
theory RoundTrip
  imports ParseText
begin

text \<open>
  The encoder's text is NUL-free valid UTF-8, so the whole path from a heap value through
  \<open>json_dumps\<close> or \<open>json_dumpb\<close> and back through \<open>json_loads\<close> or \<open>json_loadb\<close> gives the value.
\<close>

subsection \<open>The text is well-formed\<close>

definition text_ok :: "bytes \<Rightarrow> bool" where
  "text_ok t \<longleftrightarrow> valid_utf8 t \<and> 0 \<notin> set t"

lemma valid_utf8_append: "valid_utf8 a \<Longrightarrow> valid_utf8 b \<Longrightarrow> valid_utf8 (a @ b)"
  unfolding valid_utf8_def by (metis enc_all_simps(3) list_all_append)

lemma text_ok_Nil [simp]: "text_ok []"
  by (simp add: text_ok_def)

lemma text_ok_append: "text_ok a \<Longrightarrow> text_ok b \<Longrightarrow> text_ok (a @ b)"
  by (simp add: text_ok_def valid_utf8_append)

lemma text_ok_enc: "scalar c \<Longrightarrow> c \<noteq> 0 \<Longrightarrow> text_ok (enc c)"
  using enc_good [of c] valid_utf8_enc [of c "[]"] by (auto simp: text_ok_def good_byte_def)

definition ascii :: "bytes \<Rightarrow> bool" where
  "ascii t \<longleftrightarrow> (\<forall>b\<in>set t. 0 < schar b)"

lemma ascii_ok: "ascii t \<Longrightarrow> text_ok t"
proof (induction t)
  case (Cons b t)
  then have "0 < uint b" "uint b < 0x80" using byte_range [of b] by (auto simp: ascii_def schar_uint split: if_splits)
  then have "text_ok [b]" using text_ok_enc [of "uint b"] by (simp add: enc_ascii scalar_def)
  with text_ok_append [of "[b]" t] Cons show ?case by (simp add: ascii_def)
qed simp

lemma text_ok_Cons: "0 < schar b \<Longrightarrow> text_ok t \<Longrightarrow> text_ok (b # t)"
  using text_ok_append [of "[b]" t] ascii_ok [of "[b]"] by (simp add: ascii_def)

lemma text_ok_good: "text_ok t \<Longrightarrow> \<forall>b\<in>set t. good_byte b"
proof -
  assume t: "text_ok t"
  then obtain cs where cs: "list_all scalar cs" "t = enc_all cs" by (auto simp: text_ok_def valid_utf8_def)
  show ?thesis
  proof
    fix b assume "b \<in> set t"
    then obtain c where c: "c \<in> set cs" "b \<in> set (enc c)" using cs(2) by (auto simp: enc_all_def)
    moreover have "c \<noteq> 0"
    proof
      assume "c = 0"
      then have "0 \<in> set (enc c)" by (simp add: enc_def to_byte_def)
      with t c(1) cs(2) show False by (auto simp: text_ok_def enc_all_def)
    qed
    ultimately show "good_byte b" using cs(1) by (auto simp: list_all_iff intro: enc_good)
  qed
qed

lemma hex4_ascii: "n < 65536 \<Longrightarrow> ascii (hex4 n)"
  using hex4_xdigits [of n] by (auto simp: ascii_def char_classes)

lemma escape_text_ascii: "scalar c \<Longrightarrow> ascii (escape_text c)"
proof (cases "c < 0x10000")
  case True
  assume "scalar c"
  with True have "nat c < 65536" by (simp add: scalar_def)
  with hex4_ascii [of "nat c"] True show ?thesis by (simp add: escape_text_def ascii_def schar_def)
next
  case False
  assume "scalar c"
  with False have c: "0x10000 \<le> c" "c \<le> 0x10FFFF" by (auto simp: scalar_def)
  with surrogate_range [of c] have "nat (hi_surrogate c) < 65536" "nat (lo_surrogate c) < 65536" by auto
  with hex4_ascii [of "nat (hi_surrogate c)"] hex4_ascii [of "nat (lo_surrogate c)"] c show ?thesis
    by (auto simp: escape_text_wide ascii_def schar_def)
qed

lemma char_text_ok: "scalar c \<Longrightarrow> text_ok (char_text flags c)"
  using escape_text_ascii [of c] text_ok_enc [of c]
  by (auto simp: char_text_def ascii_ok must_escape_def)

lemma str_text_ok: "valid_utf8 s \<Longrightarrow> text_ok (str_text flags s)"
proof -
  assume "valid_utf8 s"
  then have cs: "list_all scalar (code_points s)" using valid_utf8_code_points by simp
  have "list_all scalar cs \<Longrightarrow> text_ok (concat (map (char_text flags) cs))" for cs
    by (induction cs) (auto intro: text_ok_append char_text_ok)
  from this [OF cs] show ?thesis by (auto simp: str_text_def schar_def intro!: text_ok_Cons text_ok_append)
qed

lemma dec_int_ascii: "ascii (dec_int i)"
  using dec_nat_digits [of "nat i"] dec_nat_digits [of "nat (- i)"]
  by (auto simp: dec_int_def ascii_def l_isdigit_def schar_def [of 45] intro: less_le_trans)

lemma digits_ascii: "digits ds \<Longrightarrow> ascii ds"
  by (auto simp: digits_def ascii_def l_isdigit_def)

lemma ascii_simps: "ascii []" "ascii (b # t) \<longleftrightarrow> 0 < schar b \<and> ascii t" "ascii (a @ t) \<longleftrightarrow> ascii a \<and> ascii t"
  by (auto simp: ascii_def)

lemma real_text_ascii: "real_text t \<Longrightarrow> ascii t"
proof -
  assume "real_text t"
  then obtain sg d ds fr ex where t: "t = sg @ d # ds @ fr @ ex" "sg = [] \<or> sg = [45]" "l_isdigit (schar d)"
      "\<forall>b\<in>set ds. l_isdigit (schar b)" "frac_text fr" "exp_text ex"
    unfolding real_text_def by blast
  have "ascii fr" using t(5) digits_ascii [of "tl fr"]
    by (cases fr) (auto simp: frac_text_def ascii_simps schar_def)
  moreover have "ascii ex"
  proof (cases ex)
    case (Cons e r)
    then show ?thesis using t(6) digits_ascii [of r] digits_ascii [of "tl r"]
      by (cases r) (auto simp: exp_text_def ascii_simps schar_def split: if_splits)
  qed (simp add: ascii_simps)
  ultimately show ?thesis
    using t(1-4) by (auto simp: ascii_simps schar_def [of 45]) (auto simp: ascii_def l_isdigit_def)
qed

lemma ws_text_ok: "text_ok (ws_text flags d b)"
  by (rule ascii_ok) (auto simp: ascii_def ws_text_def schar_def)

lemma items_text_ok: "\<forall>t\<in>set ts. text_ok t \<Longrightarrow> text_ok (items_text flags d ts)"
proof -
  assume t: "\<forall>t\<in>set ts. text_ok t"
  have "text_ok sep \<Longrightarrow> \<forall>t\<in>set ts. text_ok t \<Longrightarrow> text_ok (join sep ts)" for sep ts
    by (induction sep ts rule: join.induct) (auto intro: text_ok_append)
  from this [OF text_ok_Cons [OF _ ws_text_ok] t, of 44 flags "d + 1" True] show ?thesis
    by (auto simp: items_text_def schar_def intro!: text_ok_append ws_text_ok)
qed

lemma sep_text_ok: "text_ok (sep_text flags)"
  by (rule ascii_ok) (simp add: sep_text_def ascii_def schar_def)

lemma jtext_ok: "loadable libc f g j \<Longrightarrow> text_ok (jtext libc f d j)"
proof (induction j arbitrary: d)
  case (JArray js)
  have "text_ok (items_text f d (map (jtext libc f (d + 1)) js))"
    using JArray by (intro items_text_ok) auto
  then show ?case by (auto simp: schar_def intro!: text_ok_Cons text_ok_append)
next
  case (JObject ps)
  then have "\<forall>p\<in>set (order_pairs f ps). text_ok (str_text f (fst p) @ sep_text f @ jtext libc f (d + 1) (snd p))"
    by (auto simp: set_order_pairs prod_set_defs intro!: text_ok_append str_text_ok sep_text_ok)
  then have "text_ok (items_text f d (map (\<lambda>p. str_text f (fst p) @ sep_text f @ jtext libc f (d + 1) (snd p))
      (order_pairs f ps)))"
    by (intro items_text_ok) auto
  then show ?case
    by (auto simp: order_pairs_map comp_def schar_def intro!: text_ok_Cons text_ok_append)
next
  case (JReal r)
  then show ?case by (auto intro: ascii_ok real_text_ascii split: option.splits)
qed (auto intro: str_text_ok ascii_ok dec_int_ascii simp: ascii_def schar_def)

subsection \<open>The round trip\<close>

lemma sview_init: "text_ok t \<Longrightarrow> sview (lx_stream (lex_init t g err)) t"
  using text_ok_good [of t] by (simp add: sview_def lex_init_def stream_init_def cached_def text_ok_def)

lemma parse_json_mono: "n \<le> m \<Longrightarrow> parse_json libc g n lx = Some r \<Longrightarrow> parse_json libc g m lx = Some r"
  using parse_value_mono [of n m libc g "lex_scan libc (lx\<lparr>lx_depth := 0\<rparr>)"]
  by (auto simp: parse_json_def Let_def split: if_splits option.splits)

lemma parse_json_text:
  assumes "loadable libc f g j" "\<not> flag g JSON_DECODE_INT_AS_REAL" "fits JSON_PARSER_MAX_DEPTH j"
    "flag g JSON_DECODE_ANY \<or> container j"
  shows "\<exists>n l. parse_json libc g n (lex_init (jtext libc f 0 j) g err) = Some (Some (canon f j), l)"
proof -
  let ?lx = "(lex_init (jtext libc f 0 j) g err)\<lparr>lx_depth := 0\<rparr>" and ?l = "lex_scan libc ((lex_init (jtext libc f 0 j) g err)\<lparr>lx_depth := 0\<rparr>)"
  have v: "sview (lx_stream ?lx) ([] @ jtext libc f 0 j @ [])"
    using sview_init [OF jtext_ok [OF assms(1)], of 0 g err] by simp
  have f: "lx_flags ?lx = g" "lx_depth ?lx = 0" by (simp_all add: lex_init_def)
  obtain n l where p: "lx_token ?l = first_tok j" "parse_value libc g n ?l = Some (Some (canon f j), l)" "sview (lx_stream l) []"
    using parsesD [OF parses_all [OF assms(1,2)] v] assms(3) f by (auto simp: ws_def value_end_def)
  have "lx_token (lex_scan libc l) = TOKEN_EOF"
    using lex_scan_eof [OF p(3), of libc] by (simp add: ws_def scanned_def)
  moreover have "flag g JSON_DECODE_ANY \<or> lx_token ?l = TOKEN_CHAR 91 \<or> lx_token ?l = TOKEN_CHAR 123"
    using assms(4) p(1) by (cases j) auto
  ultimately show ?thesis using p(2) by (intro exI [of _ n]) (auto simp: parse_json_def Let_def)
qed

lemma load_bytes_text:
  assumes "loadable libc f g j" "\<not> flag g JSON_DECODE_INT_AS_REAL" "fits JSON_PARSER_MAX_DEPTH j"
    "flag g JSON_DECODE_ANY \<or> container j"
  shows "\<exists>err'. load_bytes libc (jtext libc f 0 j) g err = Some (Some (canon f j), err')"
proof -
  let ?lx = "lex_init (jtext libc f 0 j) g err" and ?m = "load_fuel (length (jtext libc f 0 j))"
  obtain n l where n: "parse_json libc g n ?lx = Some (Some (canon f j), l)"
    using parse_json_text [OF assms] by blast
  obtain r where r: "parse_json libc g ?m ?lx = Some r"
    using load_bytes_returns [of libc "jtext libc f 0 j" g err] by (auto simp: load_bytes_def)
  have "Some r = Some (Some (canon f j), l)"
    using parse_json_mono [OF max.cobounded1 n, of ?m] parse_json_mono [OF max.cobounded2 r, of n] by simp
  with r show ?thesis by (simp add: load_bytes_def)
qed

lemma doc_text_plain: "\<not> flag f JSON_EMBED \<Longrightarrow> doc_text libc f 0 j = jtext libc f 0 j \<and> clear_embed f = f"
proof -
  assume f: "\<not> flag f JSON_EMBED"
  have "f = (f AND JSON_EMBED) OR (f AND NOT JSON_EMBED)" by (simp flip: bit.conj_disj_distrib)
  with f have "clear_embed f = f" by (simp add: flag_def clear_embed_def)
  with f show ?thesis by (simp add: doc_text_def unwrap_def)
qed

lemma json_dumps_loads:
  assumes "repr h a j" "dumpable libc m f j" "\<not> flag f JSON_EMBED" "flag f JSON_ENCODE_ANY \<or> container j"
    "malloc_total m" "length (jtext libc f 0 j) \<le> 2 ^ 62"
    "loadable libc f g j" "\<not> flag g JSON_DECODE_INT_AS_REAL" "fits JSON_PARSER_MAX_DEPTH j"
    "flag g JSON_DECODE_ANY \<or> container j"
  shows "\<exists>blk err'. json_dumps libc m h a f = Some blk \<and>
    json_loads libc (Some blk) g err = Some (Some (canon f j), err')"
proof -
  note e = doc_text_plain [OF assms(3), of libc j]
  obtain blk where b: "json_dumps libc m h a f = Some blk" "cstr blk = cstr (jtext libc f 0 j)"
    using json_dumps_text [of h a j libc m f] assms(1-6) e by auto
  have "cstr blk = jtext libc f 0 j"
    using jtext_ok [OF assms(7), of 0] b(2) by (simp add: cstr_id text_ok_def)
  then show ?thesis
    using b(1) load_bytes_text [OF assms(7-10)] by (simp add: json_loads_def drain_string)
qed

lemma json_dumpb_loadb:
  assumes "repr h a j" "dumpable libc m f j" "\<not> flag f JSON_EMBED" "flag f JSON_ENCODE_ANY \<or> container j"
    "sz \<le> length buf" "length (jtext libc f 0 j) \<le> sz"
    "loadable libc f g j" "\<not> flag g JSON_DECODE_INT_AS_REAL" "fits JSON_PARSER_MAX_DEPTH j"
    "flag g JSON_DECODE_ANY \<or> container j"
  shows "\<exists>n buf' err'. json_dumpb libc m h a buf sz f = (n, buf') \<and> n \<le> sz \<and>
    json_loadb libc (Some buf') n g err = Some (Some (canon f j), err')"
proof -
  note e = doc_text_plain [OF assms(3), of libc j]
  let ?n = "length (jtext libc f 0 j)"
  obtain buf' where b: "json_dumpb libc m h a buf sz f = (?n, buf')" "length buf' = length buf"
      "take ?n buf' = jtext libc f 0 j"
    using json_dumpb_text [of h a j libc m f sz buf] assms(1-6) e by auto
  then show ?thesis
    using load_bytes_text [OF assms(7-10)] assms(5,6) by (simp add: json_loadb_def drain_buffer)
qed

end
