(* ===== verification/Refcount.thy ===== *)
theory Refcount
  imports JsonHeap "HOL-Library.Multiset"
begin

text \<open>
  Reference counting: \<open>json_incref\<close> and \<open>json_decref\<close> of \<^verbatim>\<open>src/jansson/src/jansson.h\<close> and
  \<open>json_delete\<close> of \<^verbatim>\<open>src/jansson/src/value.c\<close>. The recursion of deletion is run as the
  sequence of its steps; \<open>None\<close> is an access to freed memory. \<open>counted h E\<close> says that every
  count is exact: it is the number of references held by live values plus those held by the
  clients, the multiset \<open>E\<close>.
\<close>

subsection \<open>Operations\<close>

definition deref :: "'r heap \<Rightarrow> addr \<Rightarrow> 'r cell option" where
  "deref h a = (if a < length h then h ! a else None)"

definition json_incref :: "'r heap \<Rightarrow> addr option \<Rightarrow> 'r heap option" where
  "json_incref h json =
     (case json of None \<Rightarrow> Some h
      | Some a \<Rightarrow> map_option (\<lambda>c. if refcount c \<noteq> -1 then h[a := Some (c\<lparr>refcount := refcount c + 1\<rparr>)] else h) (deref h a))"

datatype task = Decref addr | Free addr

text \<open>What \<open>json_delete\<close> does with a value: give up its references in order, then free it.\<close>

definition delete_tasks :: "'r node \<Rightarrow> addr \<Rightarrow> task list" where
  "delete_tasks n a =
     (case n of
        NObject ht \<Rightarrow> map Decref (hashtable_close ht) @ [Free a]
      | NArray arr \<Rightarrow> map Decref (elems arr) @ [Free a]
      | NString _ \<Rightarrow> [Free a]
      | NInteger _ \<Rightarrow> [Free a]
      | NReal _ \<Rightarrow> [Free a]
      | _ \<Rightarrow> [])"

definition cell_weight :: "'r cell option \<Rightarrow> nat" where
  "cell_weight co = (case co of None \<Rightarrow> 0 | Some c \<Rightarrow> if refcount c = -1 then 0 else unat (refcount c) + 1)"

definition weight :: "'r heap \<Rightarrow> nat" where
  "weight h = sum_list (map cell_weight h)"

lemma deref_SomeD: "deref h a = Some c \<Longrightarrow> a < length h \<and> h ! a = Some c"
  by (auto simp: deref_def split: if_splits)

lemma sum_list_map_update:
  fixes f :: "'a \<Rightarrow> 'b :: comm_monoid_add"
  shows "a < length xs \<Longrightarrow> sum_list (map f (xs[a := y])) + f (xs ! a) = sum_list (map f xs) + f y"
proof (induction xs arbitrary: a)
  case (Cons x xs)
  then show ?case by (cases a) (auto simp: ac_simps)
qed simp

lemma weight_update: "a < length h \<Longrightarrow> weight (h[a := co]) + cell_weight (h ! a) = weight h + cell_weight co"
  unfolding weight_def by (rule sum_list_map_update)

lemma weight_decref:
  assumes "deref h a = Some c" "refcount c \<noteq> -1"
  shows "weight (h[a := Some (c\<lparr>refcount := refcount c - 1\<rparr>)]) < weight h"
proof -
  have "cell_weight (Some (c\<lparr>refcount := refcount c - 1\<rparr>)) < cell_weight (h ! a)"
  proof (cases "refcount c = 0")
    case False
    then have "unat (refcount c - 1) = unat (refcount c) - 1" "0 < unat (refcount c)"
      by (auto simp: unat_minus_one unat_gt_0)
    with assms deref_SomeD [OF assms(1)] show ?thesis by (auto simp: cell_weight_def)
  qed (use assms deref_SomeD [OF assms(1)] in \<open>simp add: cell_weight_def\<close>)
  with weight_update [of a h "Some (c\<lparr>refcount := refcount c - 1\<rparr>)"] deref_SomeD [OF assms(1)]
  show ?thesis by linarith
qed

lemma weight_free: "weight (h[a := None]) \<le> weight h"
proof (cases "a < length h")
  case True
  with weight_update [of a h None] show ?thesis by (simp add: cell_weight_def)
qed (simp add: list_update_beyond)

function release :: "'r heap \<Rightarrow> task list \<Rightarrow> 'r heap option" where
  "release h [] = Some h"
| "release h (Decref a # ts) =
     (case deref h a of
        None \<Rightarrow> None
      | Some c \<Rightarrow>
          if refcount c = -1 then release h ts
          else
            let h' = h[a := Some (c\<lparr>refcount := refcount c - 1\<rparr>)] in
            if refcount c - 1 = 0 then release h' (delete_tasks (c_node c) a @ ts)
            else release h' ts)"
| "release h (Free a # ts) =
     (case deref h a of None \<Rightarrow> None | Some _ \<Rightarrow> release (h[a := None]) ts)"
  by pat_completeness auto
termination
  by (relation "measures [\<lambda>(h, ts). weight h, \<lambda>(h, ts). length ts]")
    (auto dest: weight_decref le_neq_implies_less [OF weight_free])

definition json_delete :: "'r heap \<Rightarrow> addr option \<Rightarrow> 'r heap option" where
  "json_delete h json =
     (case json of None \<Rightarrow> Some h
      | Some a \<Rightarrow> (case node_at h a of None \<Rightarrow> None | Some n \<Rightarrow> release h (delete_tasks n a)))"

definition json_decref :: "'r heap \<Rightarrow> addr option \<Rightarrow> 'r heap option" where
  "json_decref h json = (case json of None \<Rightarrow> Some h | Some a \<Rightarrow> release h [Decref a])"

subsection \<open>Exact counts\<close>

definition children :: "'r node \<Rightarrow> addr list" where
  "children n = (case n of NObject ht \<Rightarrow> hashtable_close ht | NArray arr \<Rightarrow> elems arr | _ \<Rightarrow> [])"

definition simple :: "'r node \<Rightarrow> bool" where
  "simple n = (case n of NTrue \<Rightarrow> True | NFalse \<Rightarrow> True | NNull \<Rightarrow> True | _ \<Rightarrow> False)"

text \<open>References held by a cell; a cell being deleted (count 0) has given its references up.\<close>

definition cell_refs :: "'r cell option \<Rightarrow> addr multiset" where
  "cell_refs co = (case co of None \<Rightarrow> {#} | Some c \<Rightarrow> if refcount c = 0 then {#} else mset (children (c_node c)))"

definition refs :: "'r heap \<Rightarrow> addr multiset" where
  "refs h = sum_list (map cell_refs h)"

fun decrefs :: "task list \<Rightarrow> addr list" where
  "decrefs [] = []"
| "decrefs (Decref a # ts) = a # decrefs ts"
| "decrefs (Free a # ts) = decrefs ts"

fun frees :: "task list \<Rightarrow> addr list" where
  "frees [] = []"
| "frees (Decref a # ts) = frees ts"
| "frees (Free a # ts) = a # frees ts"

definition owned :: "'r heap \<Rightarrow> addr multiset \<Rightarrow> task list \<Rightarrow> bool" where
  "owned h E ts \<longleftrightarrow>
     (\<forall>a c. deref h a = Some c \<longrightarrow>
        (if simple (c_node c) then refcount c = -1
         else refcount c \<noteq> -1 \<and> unat (refcount c) = count (refs h + E + mset (decrefs ts)) a) \<and>
        (refcount c = 0 \<longleftrightarrow> a \<in> set (frees ts))) \<and>
     (\<forall>a. a \<in># refs h + E + mset (decrefs ts) \<longrightarrow> deref h a \<noteq> None) \<and>
     distinct (frees ts) \<and> (\<forall>a\<in>set (frees ts). deref h a \<noteq> None)"

definition counted :: "'r heap \<Rightarrow> addr multiset \<Rightarrow> bool" where
  "counted h E = owned h E []"

lemma decrefs_append [simp]: "decrefs (ts @ us) = decrefs ts @ decrefs us"
  by (induction ts rule: decrefs.induct) auto

lemma frees_append [simp]: "frees (ts @ us) = frees ts @ frees us"
  by (induction ts rule: frees.induct) auto

lemma decrefs_map [simp]: "decrefs (map Decref as) = as" "frees (map Decref as) = []"
  by (induction as) auto

lemma delete_tasks_simps [simp]:
  "decrefs (delete_tasks n a) = children n" "frees (delete_tasks n a) = (if simple n then [] else [a])"
  by (cases n; simp add: delete_tasks_def children_def simple_def)+

lemma refs_update: "a < length h \<Longrightarrow> refs (h[a := co]) + cell_refs (h ! a) = refs h + cell_refs co"
  unfolding refs_def by (rule sum_list_map_update)

lemma deref_update: "a < length h \<Longrightarrow> deref (h[a := co]) b = (if b = a then co else deref h b)"
  by (simp add: deref_def)

lemma owned_cell:
  "owned h E ts \<Longrightarrow> deref h a = Some c \<Longrightarrow>
     (if simple (c_node c) then refcount c = -1
      else refcount c \<noteq> -1 \<and> unat (refcount c) = count (refs h + E + mset (decrefs ts)) a) \<and>
     (refcount c = 0 \<longleftrightarrow> a \<in> set (frees ts))"
  unfolding owned_def by blast

lemma owned_live: "owned h E ts \<Longrightarrow> a \<in># refs h + E + mset (decrefs ts) \<Longrightarrow> deref h a \<noteq> None"
  unfolding owned_def by blast

lemma owned_frees: "owned h E ts \<Longrightarrow> distinct (frees ts) \<and> (\<forall>a\<in>set (frees ts). deref h a \<noteq> None)"
  unfolding owned_def by blast

text \<open>Deleting changes no cell that survives, except for counts.\<close>

definition shrinks :: "'r heap \<Rightarrow> 'r heap \<Rightarrow> bool" where
  "shrinks h h' \<longleftrightarrow> length h' = length h \<and> (\<forall>a n. node_at h' a = Some n \<longrightarrow> node_at h a = Some n) \<and>
     (\<forall>a n. node_at h a = Some n \<longrightarrow> simple n \<longrightarrow> node_at h' a = Some n)"

lemma node_at_deref: "node_at h a = map_option c_node (deref h a)"
  by (simp add: node_at_def deref_def)

lemma shrinks_node: "shrinks h h' \<Longrightarrow> node_at h' a = Some n \<Longrightarrow> node_at h a = Some n"
  unfolding shrinks_def by blast

lemma shrinks_simple: "shrinks h h' \<Longrightarrow> node_at h a = Some n \<Longrightarrow> simple n \<Longrightarrow> node_at h' a = Some n"
  unfolding shrinks_def by blast

lemma shrinks_length: "shrinks h h' \<Longrightarrow> length h' = length h"
  by (simp add: shrinks_def)

lemma shrinks_refl [simp]: "shrinks h h"
  by (simp add: shrinks_def)

lemma shrinks_trans:
  assumes "shrinks h h1" "shrinks h1 h2"
  shows "shrinks h h2"
  unfolding shrinks_def
proof (intro conjI allI impI)
  fix a n
  show "node_at h2 a = Some n \<Longrightarrow> node_at h a = Some n"
    by (rule shrinks_node [OF assms(1) shrinks_node [OF assms(2)]])
  show "node_at h a = Some n \<Longrightarrow> simple n \<Longrightarrow> node_at h2 a = Some n"
    by (rule shrinks_simple [OF assms(2) shrinks_simple [OF assms(1)]])
qed (simp add: shrinks_length [OF assms(1)] shrinks_length [OF assms(2)])

lemma shrinks_same: "length h' = length h \<Longrightarrow> (\<And>b. node_at h' b = node_at h b) \<Longrightarrow> shrinks h h'"
  by (simp add: shrinks_def)

lemma shrinks_free: "deref h a = Some c \<Longrightarrow> \<not> simple (c_node c) \<Longrightarrow> shrinks h (h[a := None])"
  using deref_SomeD [of h a c] by (simp add: shrinks_def node_at_deref deref_update)

lemma release_owned:
  "owned h E ts \<Longrightarrow> \<exists>h'. release h ts = Some h' \<and> counted h' E \<and> shrinks h h'"
proof (induction h ts rule: release.induct)
  case (1 h)
  then show ?case by (simp add: counted_def)
next
  case (2 h a ts)
  from owned_live [OF this(4), of a] obtain c where c: "deref h a = Some c" by auto
  note l = deref_SomeD [OF c]
  show ?case
  proof (cases "refcount c = -1")
    case True
    with owned_cell [OF 2(4) c] have "simple (c_node c)" by (auto split: if_splits)
    have "owned h E ts"
      unfolding owned_def
    proof (intro conjI allI impI)
      fix b d assume b: "deref h b = Some d"
      show "if simple (c_node d) then refcount d = -1
        else refcount d \<noteq> -1 \<and> unat (refcount d) = count (refs h + E + mset (decrefs ts)) b"
        using owned_cell [OF 2(4) b] b c \<open>simple (c_node c)\<close> by (auto split: if_splits)
      show "refcount d = 0 \<longleftrightarrow> b \<in> set (frees ts)" using owned_cell [OF 2(4) b] by simp
    qed (use owned_live [OF 2(4)] owned_frees [OF 2(4)] in auto)
    with 2(1) [OF c True] c True show ?thesis by simp
  next
    case False
    have ns: "\<not> simple (c_node c)" using owned_cell [OF 2(4) c] False by (auto split: if_splits)
    let ?c = "c\<lparr>refcount := refcount c - 1\<rparr>"
    let ?h = "h[a := Some ?c]"
    have cnt: "unat (refcount c) = count (refs h + E + mset (decrefs ts)) a + 1"
      using owned_cell [OF 2(4) c] ns by simp
    then have nz: "refcount c \<noteq> 0" by auto
    then have dec: "unat (refcount c - 1) = count (refs h + E + mset (decrefs ts)) a"
      using cnt by (simp add: unat_minus_one)
    have sh: "shrinks h ?h"
      using l c by (intro shrinks_same) (simp_all add: node_at_deref deref_update)
    have na: "a \<notin> set (frees ts)" using 2(4) c nz by (auto simp: owned_def)
    show ?thesis
    proof (cases "refcount c - 1 = 0")
      case z: True
      have r: "refs ?h + mset (children (c_node c)) = refs h"
        using refs_update [of a h "Some ?c"] l nz z by (simp add: cell_refs_def)
      have m: "refs ?h + E + mset (decrefs (delete_tasks (c_node c) a @ ts)) = refs h + E + mset (decrefs ts)"
        using r by (simp add: ac_simps)
      have "owned ?h E (delete_tasks (c_node c) a @ ts)"
        unfolding owned_def m
      proof (intro conjI allI impI)
        fix b d assume "deref ?h b = Some d"
        then have bd: "b = a \<and> d = ?c \<or> b \<noteq> a \<and> deref h b = Some d" using l by (auto simp: deref_update split: if_splits)
        show "if simple (c_node d) then refcount d = -1
          else refcount d \<noteq> -1 \<and> unat (refcount d) = count (refs h + E + mset (decrefs ts)) b"
          using bd dec z ns owned_cell [OF 2(4), of b d] by (auto split: if_splits)
        show "refcount d = 0 \<longleftrightarrow> b \<in> set (frees (delete_tasks (c_node c) a @ ts))"
          using bd z ns owned_cell [OF 2(4), of b d] by auto
      qed (use owned_live [OF 2(4)] owned_frees [OF 2(4)] l na ns in \<open>auto simp: deref_update\<close>)
      with 2(2) [OF c False refl z] c False z sh show ?thesis by (auto intro: shrinks_trans)
    next
      case z: False
      have r: "refs ?h = refs h"
        using refs_update [of a h "Some ?c"] l nz z by (simp add: cell_refs_def)
      have "refcount c - 1 \<noteq> -1" using nz by (simp add: diff_eq_eq)
      have "owned ?h E ts"
        unfolding owned_def r
      proof (intro conjI allI impI)
        fix b d assume "deref ?h b = Some d"
        then have bd: "b = a \<and> d = ?c \<or> b \<noteq> a \<and> deref h b = Some d" using l by (auto simp: deref_update split: if_splits)
        show "if simple (c_node d) then refcount d = -1
          else refcount d \<noteq> -1 \<and> unat (refcount d) = count (refs h + E + mset (decrefs ts)) b"
          using bd dec ns \<open>refcount c - 1 \<noteq> -1\<close> owned_cell [OF 2(4), of b d] by (auto split: if_splits)
        show "refcount d = 0 \<longleftrightarrow> b \<in> set (frees ts)"
          using bd z na owned_cell [OF 2(4), of b d] by auto
      qed (use owned_live [OF 2(4)] owned_frees [OF 2(4)] l in \<open>auto simp: deref_update\<close>)
      with 2(3) [OF c False refl z] c False z sh show ?thesis by (auto intro: shrinks_trans)
    qed
  qed
next
  case (3 h a ts)
  from owned_frees [OF this(2)] obtain c where "deref h a = Some c" by auto
  with owned_cell [OF 3(2)] have c: "deref h a = Some c" "refcount c = 0" by auto
  note l = deref_SomeD [OF c(1)]
  have r: "refs (h[a := None]) = refs h"
    using refs_update [of a h None] l c by (simp add: cell_refs_def)
  have ns: "\<not> simple (c_node c)" using owned_cell [OF 3(2) c(1)] c by (auto split: if_splits)
  have "count (refs h + E + mset (decrefs ts)) a = 0"
    using owned_cell [OF 3(2) c(1)] c(2) ns by simp
  then have n: "a \<notin># refs h + E + mset (decrefs ts)" by (simp add: count_eq_zero_iff)
  have "owned (h[a := None]) E ts"
    unfolding owned_def r
  proof (intro conjI allI impI)
    fix b d assume b: "deref (h[a := None]) b = Some d"
    then have "b \<noteq> a" "deref h b = Some d" using l by (auto simp: deref_update split: if_splits)
    with owned_cell [OF 3(2), of b d] show "if simple (c_node d) then refcount d = -1
        else refcount d \<noteq> -1 \<and> unat (refcount d) = count (refs h + E + mset (decrefs ts)) b"
      "refcount d = 0 \<longleftrightarrow> b \<in> set (frees ts)" by auto
  next
    fix b assume "b \<in># refs h + E + mset (decrefs ts)"
    with owned_live [OF 3(2), of b] n l show "deref (h[a := None]) b \<noteq> None" by (auto simp: deref_update)
  qed (use owned_frees [OF 3(2)] l in \<open>auto simp: deref_update\<close>)
  moreover have "shrinks h (h[a := None])" by (rule shrinks_free [OF c(1) ns])
  ultimately show ?case using 3(1) [OF c(1)] c by (auto intro: shrinks_trans)
qed

lemma json_decref_counted:
  assumes "counted h (add_mset a E)"
  shows "\<exists>h'. json_decref h (Some a) = Some h' \<and> counted h' E \<and> shrinks h h'"
proof -
  have "owned h E [Decref a]" using assms by (simp add: counted_def owned_def)
  from release_owned [OF this] show ?thesis by (simp add: json_decref_def)
qed


lemma release_counted:
  assumes "counted h (E + mset as)"
  shows "\<exists>h'. release h (map Decref as) = Some h' \<and> counted h' E \<and> shrinks h h'"
proof -
  have "owned h E (map Decref as)" using assms by (simp add: counted_def owned_def)
  from release_owned [OF this] show ?thesis .
qed

subsection \<open>The laws of ownership\<close>

lemma counted_cell:
  "counted h E \<Longrightarrow> deref h a = Some c \<Longrightarrow> refcount c \<noteq> 0 \<and>
     (if simple (c_node c) then refcount c = -1
      else refcount c \<noteq> -1 \<and> unat (refcount c) = count (refs h + E) a)"
  unfolding counted_def using owned_cell [of h E "[]" a c] by (auto split: if_splits)

lemma counted_live: "counted h E \<Longrightarrow> a \<in># refs h + E \<Longrightarrow> \<exists>c. deref h a = Some c"
  unfolding counted_def using owned_live [of h E "[]" a] by auto

lemma countedI:
  assumes "\<And>a c. deref h a = Some c \<Longrightarrow> refcount c \<noteq> 0 \<and>
     (if simple (c_node c) then refcount c = -1
      else refcount c \<noteq> -1 \<and> unat (refcount c) = count (refs h + E) a)"
    and "\<And>a. a \<in># refs h + E \<Longrightarrow> deref h a \<noteq> None"
  shows "counted h E"
  using assms unfolding counted_def owned_def by simp

lemma counted_child:
  assumes "counted h E" "deref h b = Some c" "a \<in> set (children (c_node c))"
  shows "a \<in># refs h"
proof -
  have "cell_refs (h ! b) \<subseteq># refs h"
  proof -
    have "refs (h[b := None]) + cell_refs (h ! b) = refs h"
      using refs_update [of b h None] deref_SomeD [OF assms(2)] by (simp add: cell_refs_def)
    then show ?thesis by (metis mset_subset_eq_add_right)
  qed
  moreover have "a \<in># cell_refs (h ! b)"
    using assms counted_cell [OF assms(1,2)] deref_SomeD [OF assms(2)] by (simp add: cell_refs_def)
  ultimately show ?thesis by (meson mset_subset_eqD)
qed

lemma json_incref_counted:
  assumes "counted h E" "deref h a = Some c" "count (refs h + E) a + 2 < 2 ^ 64"
  shows "\<exists>h'. json_incref h (Some a) = Some h' \<and> counted h' (add_mset a E) \<and>
    length h' = length h \<and> (\<forall>b. node_at h' b = node_at h b) \<and> refs h' = refs h"
proof (cases "refcount c = -1")
  case True
  then have s: "simple (c_node c)" using counted_cell [OF assms(1,2)] by (auto split: if_splits)
  have "counted h (add_mset a E)"
  proof (rule countedI)
    fix b d assume b: "deref h b = Some d"
    show "refcount d \<noteq> 0 \<and> (if simple (c_node d) then refcount d = -1
      else refcount d \<noteq> -1 \<and> unat (refcount d) = count (refs h + add_mset a E) b)"
      using counted_cell [OF assms(1) b] assms(2) s b by (auto split: if_splits)
  qed (use counted_live [OF assms(1)] assms(2) in auto)
  with True assms(2) show ?thesis by (simp add: json_incref_def)
next
  case False
  note l = deref_SomeD [OF assms(2)]
  note c = counted_cell [OF assms(1,2)]
  let ?c = "c\<lparr>refcount := refcount c + 1\<rparr>"
  let ?h = "h[a := Some ?c]"
  have u: "unat (refcount c + 1) = unat (refcount c) + 1" "refcount c + 1 \<noteq> 0" "refcount c + 1 \<noteq> -1"
  proof -
    have b: "unat (refcount c) + 2 < 2 ^ 64" using c assms(3) False by (auto split: if_splits)
    then show e: "unat (refcount c + 1) = unat (refcount c) + 1"
      by (simp add: unat_word_ariths)
    then show "refcount c + 1 \<noteq> 0" by (metis add_is_0 one_neq_zero unat_0)
    have "unat (-1 :: size_t) = 2 ^ 64 - 1" by (simp add: unsigned_minus_1_eq_mask mask_eq_exp_minus_1)
    with e b show "refcount c + 1 \<noteq> -1" by (metis Suc_1 Suc_eq_plus1 add_2_eq_Suc' diff_Suc_1 less_not_refl3 less_diff_conv)
  qed
  have r: "refs ?h = refs h"
    using refs_update [of a h "Some ?c"] l c u by (simp add: cell_refs_def)
  have "counted ?h (add_mset a E)"
  proof (rule countedI, unfold r)
    fix b d assume "deref ?h b = Some d"
    then have bd: "b = a \<and> d = ?c \<or> b \<noteq> a \<and> deref h b = Some d" using l by (auto simp: deref_update split: if_splits)
    show "refcount d \<noteq> 0 \<and> (if simple (c_node d) then refcount d = -1
      else refcount d \<noteq> -1 \<and> unat (refcount d) = count (refs h + add_mset a E) b)"
      using bd c u False counted_cell [OF assms(1), of b d] by (auto split: if_splits)
  qed (use counted_live [OF assms(1)] l in \<open>auto simp: deref_update\<close>)
  moreover have "node_at ?h b = node_at h b" for b
    using l assms(2) by (auto simp: node_at_deref deref_update)
  ultimately show ?thesis using False assms(2) r by (simp add: json_incref_def)
qed

text \<open>Giving a value a new node: it takes over the references in the new node and hands
  back those of the old one.\<close>

definition set_node :: "'r heap \<Rightarrow> addr \<Rightarrow> 'r node \<Rightarrow> 'r heap" where
  "set_node h a n = (case deref h a of None \<Rightarrow> h | Some c \<Rightarrow> h[a := Some (c\<lparr>c_node := n\<rparr>)])"

lemma node_at_set_node: "node_at (set_node h a n) b = (if b = a \<and> node_at h a \<noteq> None then Some n else node_at h b)"
  using deref_SomeD [of h a]
  by (auto simp: set_node_def node_at_deref deref_update split: option.split)

lemma length_set_node [simp]: "length (set_node h a n) = length h"
  by (simp add: set_node_def split: option.split)

lemma set_node_counted:
  assumes "counted h E" "node_at h a = Some m" "\<not> simple m" "\<not> simple n"
    "E + mset (children m) = E' + mset (children n)"
  shows "counted (set_node h a n) E'"
proof -
  from assms(2) obtain c where a: "deref h a = Some c" "c_node c = m" by (auto simp: node_at_deref)
  note l = deref_SomeD [OF a(1)]
  note c = counted_cell [OF assms(1) a(1)]
  let ?c = "c\<lparr>c_node := n\<rparr>"
  have e: "set_node h a n = h[a := Some ?c]" by (simp add: set_node_def a)
  have "refs (set_node h a n) + mset (children m) = refs h + mset (children n)"
    using refs_update [of a h "Some ?c"] l c a by (simp add: e cell_refs_def)
  then have "refs (set_node h a n) + E' + mset (children m) = refs h + E + mset (children m)"
    using assms(5) by (metis (no_types, lifting) add.assoc add.commute)
  then have r: "refs (set_node h a n) + E' = refs h + E" by simp
  show "counted (set_node h a n) E'"
  proof (rule countedI, unfold r)
    fix b d assume "deref (set_node h a n) b = Some d"
    then have bd: "b = a \<and> d = ?c \<or> b \<noteq> a \<and> deref h b = Some d" using l e by (auto simp: deref_update split: if_splits)
    show "refcount d \<noteq> 0 \<and> (if simple (c_node d) then refcount d = -1
      else refcount d \<noteq> -1 \<and> unat (refcount d) = count (refs h + E) b)"
      using bd c a assms(3,4) counted_cell [OF assms(1), of b d] by auto
  qed (use counted_live [OF assms(1)] l e in \<open>auto simp: deref_update\<close>)
qed

text \<open>\<open>jsonp_malloc\<close> of a value and \<open>json_init\<close>: a fresh address with count 1.\<close>

definition json_init :: "'r heap \<Rightarrow> 'r node \<Rightarrow> addr \<times> 'r heap" where
  "json_init h n = (length h, h @ [Some \<lparr>refcount = 1, c_node = n\<rparr>])"

lemma deref_append: "deref (h @ [co]) b = (if b = length h then co else deref h b)"
  by (simp add: deref_def nth_append)

lemma node_at_append: "node_at (h @ [Some \<lparr>refcount = r, c_node = n\<rparr>]) b = (if b = length h then Some n else node_at h b)"
  by (simp add: node_at_deref deref_append)

lemma json_init_counted:
  assumes "counted h (E + mset (children n))" "\<not> simple n"
  shows "counted (snd (json_init h n)) (add_mset (length h) E)"
    and "refs (snd (json_init h n)) = refs h + mset (children n)"
proof -
  let ?h = "h @ [Some \<lparr>refcount = 1, c_node = n\<rparr>]"
  show r: "refs (snd (json_init h n)) = refs h + mset (children n)"
    by (simp add: refs_def cell_refs_def json_init_def)
  have f: "deref h (length h) = None" by (simp add: deref_def)
  then have z: "length h \<notin># refs h + (E + mset (children n))" using counted_live [OF assms(1), of "length h"] by auto
  have "counted ?h (add_mset (length h) E)"
  proof (rule countedI)
    fix b d assume "deref ?h b = Some d"
    then have bd: "b = length h \<and> d = \<lparr>refcount = 1, c_node = n\<rparr> \<or> b \<noteq> length h \<and> deref h b = Some d"
      by (auto simp: deref_append split: if_splits)
    have z': "count (refs h + (E + mset (children n))) (length h) = 0" using z by (simp add: count_eq_zero_iff)
    have "refcount \<lparr>refcount = 1, c_node = n\<rparr> \<noteq> 0 \<and> (1::size_t) \<noteq> -1" by simp
    with bd z' counted_cell [OF assms(1), of b d] assms(2) show "refcount d \<noteq> 0 \<and> (if simple (c_node d) then refcount d = -1
      else refcount d \<noteq> -1 \<and> unat (refcount d) = count (refs ?h + add_mset (length h) E) b)"
      using r by (auto simp: json_init_def split: if_splits)
  next
    fix b assume "b \<in># refs ?h + add_mset (length h) E"
    then have "b = length h \<or> b \<in># refs h + (E + mset (children n))" using r by (auto simp: json_init_def)
    with counted_live [OF assms(1), of b] show "deref ?h b \<noteq> None" by (auto simp: deref_append)
  qed
  then show "counted (snd (json_init h n)) (add_mset (length h) E)" by (simp add: json_init_def)
qed

subsection \<open>What clients can see survives\<close>

text \<open>Well-formed values: the invariants of the containers, and the three static values
  \<open>the_true\<close>, \<open>the_false\<close> and \<open>the_null\<close> at fixed addresses.\<close>

definition arr_ok :: "json_array \<Rightarrow> bool" where
  "arr_ok arr \<longleftrightarrow> a_entries arr \<le> a_size arr \<and> length (a_table arr) = unat (a_size arr) \<and>
     0 < unat (a_size arr) \<and> unat (a_size arr) < 2 ^ 60"

text \<open>What \<open>malloc\<close> documents: no object is larger than \<open>PTRDIFF_MAX\<close>.\<close>

definition mem_bounded :: "(size_t \<Rightarrow> bool) \<Rightarrow> bool" where
  "mem_bounded mem \<longleftrightarrow> (\<forall>n. mem n \<longrightarrow> unat n < 2 ^ 63)"

definition node_ok :: "(bytes \<Rightarrow> size_t) \<Rightarrow> 'r node \<Rightarrow> bool" where
  "node_ok hs n = (case n of NObject ht \<Rightarrow> ht_inv hs ht | NArray arr \<Rightarrow> arr_ok arr | _ \<Rightarrow> True)"

definition the_true :: addr where "the_true = 0"
definition the_false :: addr where "the_false = 1"
definition the_null :: addr where "the_null = 2"

lemmas the_values = the_true_def the_false_def the_null_def

definition heap_ok :: "(bytes \<Rightarrow> size_t) \<Rightarrow> 'r heap \<Rightarrow> bool" where
  "heap_ok hs h \<longleftrightarrow> (\<forall>a n. node_at h a = Some n \<longrightarrow> node_ok hs n) \<and>
     node_at h the_true = Some NTrue \<and> node_at h the_false = Some NFalse \<and> node_at h the_null = Some NNull"

lemma heap_okD: "heap_ok hs h \<Longrightarrow> node_at h a = Some n \<Longrightarrow> node_ok hs n"
  by (auto simp: heap_ok_def)

lemma hashtable_close_entries:
  assumes "ht_inv hs ht"
  shows "mset (hashtable_close ht) = mset (map snd (entries ht))"
proof -
  have "mset (ht_list ht) = mset (ht_ordered ht)"
    using assms by (auto simp: ht_inv_def pairs_inv_def bucket_inv_def set_eq_iff_mset_eq_distinct [symmetric])
  then have "mset (map (\<lambda>n. hp_value (pair_of ht n)) (ht_list ht)) = mset (map (\<lambda>n. hp_value (pair_of ht n)) (ht_ordered ht))"
    by (metis mset_map)
  then show ?thesis by (simp add: hashtable_close_def hashtable_do_clear_def entries_def comp_def)
qed

lemma children_object: "ht_inv hs ht \<Longrightarrow> mset (children (NObject ht)) = mset (map snd (entries ht))"
  by (simp add: children_def hashtable_close_entries)

lemma children_object_set: "ht_inv hs ht \<Longrightarrow> set (children (NObject ht)) = snd ` set (entries ht)"
  using children_object [of hs ht] by (metis list.set_map set_mset_mset)

lemma shrinks_heap_ok: "heap_ok hs h \<Longrightarrow> shrinks h h' \<Longrightarrow> heap_ok hs h'"
  unfolding heap_ok_def
  by (intro conjI allI impI) (blast dest: shrinks_node, (simp add: shrinks_simple simple_def)+)

text \<open>A value still referenced keeps its whole tree.\<close>

lemma repr_shrinks:
  assumes "heap_ok hs h" "shrinks h h'" "counted h' E" "node_at h' a \<noteq> None" "repr h a j"
  shows "repr h' a j"
  using assms(5,4)
proof (induction j arbitrary: a rule: json.induct)
  case (JArray js)
  then obtain arr where n: "node_at h a = Some (NArray arr)" "list_all2 (repr h) (elems arr) js"
    by (auto simp: repr_JArray)
  with JArray.prems(2) assms(2) have n': "node_at h' a = Some (NArray arr)" by (auto dest: shrinks_node)
  have "list_all2 (repr h') (elems arr) js"
  proof (rule list.rel_mono_strong [OF n(2)])
    fix b j assume b: "b \<in> set (elems arr)" "j \<in> set js" "repr h b j"
    then have "b \<in># refs h'"
      using n' by (auto simp: node_at_deref children_def intro!: counted_child [OF assms(3)])
    with counted_live [OF assms(3), of b] have "node_at h' b \<noteq> None" by (auto simp: node_at_deref)
    with b JArray.IH show "repr h' b j" by blast
  qed
  with n' show ?case by (auto simp: repr_JArray)
next
  case (JObject ps)
  let ?R = "\<lambda>h p q. fst p = fst q \<and> repr h (snd p) (snd q)"
  from JObject.prems obtain ht where n: "node_at h a = Some (NObject ht)" "list_all2 (?R h) (entries ht) ps"
    by (auto simp: repr_JObject)
  with JObject.prems(2) assms(2) have n': "node_at h' a = Some (NObject ht)" by (auto dest: shrinks_node)
  have i: "ht_inv hs ht" using heap_okD [OF assms(1) n(1)] by (simp add: node_ok_def)
  have "list_all2 (?R h') (entries ht) ps"
  proof (rule list.rel_mono_strong [OF n(2)])
    fix p q assume b: "p \<in> set (entries ht)" "q \<in> set ps" "?R h p q"
    then have "snd p \<in># refs h'"
      using n' children_object_set [OF i] by (auto simp: node_at_deref intro!: counted_child [OF assms(3)])
    with counted_live [OF assms(3), of "snd p"] have "node_at h' (snd p) \<noteq> None" by (auto simp: node_at_deref)
    with b JObject.IH [of q "snd q" "snd p"] show "?R h' p q" by (auto simp: snds.simps)
  qed
  with n' show ?case by (auto simp: repr_JObject)
qed (use shrinks_node [OF assms(2)] in fastforce)+

text \<open>Nothing leaks: with no reference left outside, no circular structure means no value.\<close>

lemma counted_parent:
  assumes "counted h {#}" "deref h a = Some c" "\<not> simple (c_node c)"
  shows "\<exists>b d. deref h b = Some d \<and> \<not> simple (c_node d) \<and> a \<in> set (children (c_node d))"
proof -
  have "a \<in># refs h"
    using counted_cell [OF assms(1,2)] assms(3) unat_gt_0 [of "refcount c"] by (simp flip: count_greater_zero_iff)
  then have "\<exists>co\<in>set h. a \<in># cell_refs co" unfolding refs_def by (induction h) auto
  then obtain b where "b < length h" "a \<in># cell_refs (h ! b)" by (metis in_set_conv_nth)
  then obtain d where "deref h b = Some d" "a \<in> set (children (c_node d))"
    by (auto simp: cell_refs_def deref_def split: option.splits if_splits)
  moreover from this have "\<not> simple (c_node d)" by (auto simp: children_def simple_def split: node.splits)
  ultimately show ?thesis by blast
qed

lemma repr_child_size:
  assumes "heap_ok hs h" "repr h b j" "node_at h b = Some n" "a \<in> set (children n)"
  shows "\<exists>i. repr h a i \<and> size i < size j"
proof (cases n)
  case (NObject ht)
  then obtain ps where j: "j = JObject ps" "list_all2 (\<lambda>p q. fst p = fst q \<and> repr h (snd p) (snd q)) (entries ht) ps"
    using repr_node [OF assms(2)] assms(3) by auto
  have "ht_inv hs ht" using heap_okD [OF assms(1,3)] NObject by (simp add: node_ok_def)
  with assms(4) NObject obtain p where "p \<in> set (entries ht)" "snd p = a" by (auto simp: children_object_set)
  then obtain i where "i < length (entries ht)" "snd (entries ht ! i) = a" by (auto simp: in_set_conv_nth)
  with j(2) have "ps ! i \<in> set ps" "repr h a (snd (ps ! i))" by (auto simp: list_all2_conv_all_nth)
  then obtain q where "q \<in> set ps" "repr h a (snd q)" by blast
  with size_pair [of q ps] j(1) show ?thesis by auto
next
  case (NArray arr)
  then obtain js where j: "j = JArray js" "list_all2 (repr h) (elems arr) js"
    using repr_node [OF assms(2)] assms(3) by auto
  from assms(4) NArray obtain k where "k < length (elems arr)" "elems arr ! k = a"
    by (auto simp: children_def in_set_conv_nth)
  with j(2) have "js ! k \<in> set js" "repr h a (js ! k)" by (auto simp: list_all2_conv_all_nth)
  then obtain i where "i \<in> set js" "repr h a i" by blast
  with size_elem [of i js] j(1) show ?thesis by auto
qed (use assms(4) in \<open>simp_all add: children_def\<close>)

lemma no_leak:
  assumes "counted h {#}" "heap_ok hs h" "\<forall>a n. node_at h a = Some n \<longrightarrow> (\<exists>j. repr h a j)"
  shows "node_at h a = Some n \<Longrightarrow> simple n"
proof (rule ccontr)
  assume a: "node_at h a = Some n" "\<not> simple n"
  let ?S = "{a. \<exists>n. node_at h a = Some n \<and> \<not> simple n}"
  let ?f = "\<lambda>a. size (THE j. repr h a j)"
  have f: "repr h a j \<Longrightarrow> ?f a = size j" for a j by (metis repr_fun the_equality)
  have "?S \<subseteq> {..<length h}" by (auto dest: node_at_bound)
  then have fin: "finite ?S" by (rule finite_subset) simp
  have "?S \<noteq> {}" using a by blast
  then have "Max (?f ` ?S) \<in> ?f ` ?S" using fin by (intro Max_in finite_imageI) blast+
  moreover have "\<forall>b\<in>?S. ?f b \<le> Max (?f ` ?S)" using fin by (intro ballI Max_ge finite_imageI imageI)
  ultimately obtain m where m: "m \<in> ?S" "\<forall>b\<in>?S. ?f b \<le> ?f m" by (smt (verit) imageE)
  then obtain b d where b: "deref h b = Some d" "\<not> simple (c_node d)" "m \<in> set (children (c_node d))"
    using counted_parent [OF assms(1), of m] by (auto simp: node_at_deref)
  then have "node_at h b = Some (c_node d)" by (simp add: node_at_deref)
  moreover obtain j where "repr h b j" using assms(3) calculation by blast
  ultimately obtain i where "repr h m i" "size i < size j" "repr h b j"
    using repr_child_size [OF assms(2) _ _ b(3)] by blast
  moreover have "b \<in> ?S" using b by (auto simp: node_at_deref)
  ultimately show False using m f by fastforce
qed

end
