(* ===== verification/JsonArray.thy ===== *)
theory JsonArray
  imports Refcount
begin

text \<open>
  The element table of arrays, \<open>json_array_t\<close> of \<^verbatim>\<open>src/jansson/src/value.c\<close>: capacity, fill
  count and the helpers that move and copy table entries, with \<open>size_t\<close> arithmetic as
  written. \<open>None\<close> as an outer result is a write or read outside a table. Every edit of the
  table is shown to be the list operation it stands for.
\<close>

subsection \<open>Operations\<close>

text \<open>\<open>memcpy\<close> and \<open>memmove\<close> of \<open>cnt * sizeof(json_t *)\<close> bytes.\<close>

definition array_copy :: "addr list \<Rightarrow> size_t \<Rightarrow> addr list \<Rightarrow> size_t \<Rightarrow> size_t \<Rightarrow> addr list option" where
  "array_copy dest dpos src spos cnt =
     (let n = unat (cnt * 8) div 8 in
      if unat dpos + n \<le> length dest \<and> unat spos + n \<le> length src
      then Some (take (unat dpos) dest @ take n (drop (unat spos) src) @ drop (unat dpos + n) dest)
      else None)"

definition array_move :: "json_array \<Rightarrow> size_t \<Rightarrow> size_t \<Rightarrow> size_t \<Rightarrow> json_array option" where
  "array_move arr dest src cnt =
     map_option (\<lambda>t. arr\<lparr>a_table := t\<rparr>) (array_copy (a_table arr) dest (a_table arr) src cnt)"

text \<open>The table returned, whether it is another block than the array's table, and the array;
  \<open>Some None\<close> is NULL. The contents of a new block are unspecified, here 0.\<close>

definition json_array_grow :: "(size_t \<Rightarrow> bool) \<Rightarrow> json_array \<Rightarrow> size_t \<Rightarrow> bool \<Rightarrow>
    (addr list \<times> bool \<times> json_array) option option" where
  "json_array_grow mem arr amount copy =
     (if a_entries arr + amount \<le> a_size arr then Some (Some (a_table arr, False, arr))
      else
        let old_table = a_table arr;
            new_size = max (a_size arr + amount) (a_size arr * 2) in
        if \<not> alloc_ok mem (new_size * 8) then Some None
        else
          let arr' = arr\<lparr>a_size := new_size, a_table := replicate (unat (new_size * 8) div 8) 0\<rparr> in
          if copy then
            map_option (\<lambda>t. Some (t, False, arr'\<lparr>a_table := t\<rparr>))
              (array_copy (a_table arr') 0 old_table 0 (a_entries arr))
          else Some (Some (old_table, True, arr')))"

text \<open>\<open>table[i] = v\<close>.\<close>

definition table_put :: "json_array \<Rightarrow> size_t \<Rightarrow> addr \<Rightarrow> json_array option" where
  "table_put arr i v =
     (if unat i < length (a_table arr) then Some (arr\<lparr>a_table := (a_table arr)[unat i := v]\<rparr>) else None)"

text \<open>The table part of \<open>json_array_append_new\<close>, \<open>json_array_insert_new\<close>, \<open>json_array_remove\<close> and
  \<open>json_array_extend\<close>; \<open>Some None\<close>: no memory.\<close>

definition table_append :: "(size_t \<Rightarrow> bool) \<Rightarrow> json_array \<Rightarrow> addr \<Rightarrow> json_array option option" where
  "table_append mem arr v =
     (case json_array_grow mem arr 1 True of
        None \<Rightarrow> None
      | Some None \<Rightarrow> Some None
      | Some (Some (_, _, arr1)) \<Rightarrow>
          map_option (\<lambda>a. Some (a\<lparr>a_entries := a_entries a + 1\<rparr>)) (table_put arr1 (a_entries arr1) v))"

text \<open>Both ways of opening a gap at \<open>index\<close>: copying to a new block, moving in place.\<close>

definition open_gap :: "bool \<Rightarrow> addr list \<Rightarrow> json_array \<Rightarrow> size_t \<Rightarrow> json_array option" where
  "open_gap other old_table arr1 index =
     (if other then
        (case array_copy (a_table arr1) 0 old_table 0 index of
           None \<Rightarrow> None
         | Some t1 \<Rightarrow>
             map_option (\<lambda>t2. arr1\<lparr>a_table := t2\<rparr>)
               (array_copy t1 (index + 1) old_table index (a_entries arr1 - index)))
      else array_move arr1 (index + 1) index (a_entries arr1 - index))"

definition table_insert :: "(size_t \<Rightarrow> bool) \<Rightarrow> json_array \<Rightarrow> size_t \<Rightarrow> addr \<Rightarrow> json_array option option" where
  "table_insert mem arr index v =
     (case json_array_grow mem arr 1 False of
        None \<Rightarrow> None
      | Some None \<Rightarrow> Some None
      | Some (Some (old_table, other, arr1)) \<Rightarrow>
          (case open_gap other old_table arr1 index of
             None \<Rightarrow> None
           | Some arr2 \<Rightarrow>
               map_option (\<lambda>a. Some (a\<lparr>a_entries := a_entries a + 1\<rparr>)) (table_put arr2 index v)))"

definition table_remove :: "json_array \<Rightarrow> size_t \<Rightarrow> json_array option" where
  "table_remove arr index =
     map_option (\<lambda>a. a\<lparr>a_entries := a_entries a - 1\<rparr>)
       (if index < a_entries arr - 1 then array_move arr index (index + 1) (a_entries arr - index - 1) else Some arr)"

text \<open>\<open>other\<close> is the table to append, read after the growth (it may be the array's own).\<close>

definition table_extend :: "json_array \<Rightarrow> addr list \<Rightarrow> size_t \<Rightarrow> json_array option" where
  "table_extend arr other n =
     map_option (\<lambda>t. arr\<lparr>a_table := t, a_entries := a_entries arr + n\<rparr>)
       (array_copy (a_table arr) (a_entries arr) other 0 n)"

subsection \<open>Tables as lists\<close>

lemma unat_times8: "unat (n :: size_t) < 2 ^ 61 \<Longrightarrow> unat (n * 8) = unat n * 8"
  by (simp add: unat_word_ariths)

lemma length_elems: "arr_ok arr \<Longrightarrow> length (elems arr) = unat (a_entries arr)"
  by (auto simp: arr_ok_def elems_def word_le_nat_alt)

lemma array_copy_ok:
  assumes "unat cnt < 2 ^ 61" "unat dpos + unat cnt \<le> length dest" "unat spos + unat cnt \<le> length src"
  shows "array_copy dest dpos src spos cnt =
    Some (take (unat dpos) dest @ take (unat cnt) (drop (unat spos) src) @ drop (unat dpos + unat cnt) dest)"
  using assms by (simp add: array_copy_def unat_times8 Let_def)

lemma grow_room: "a_entries arr + amount \<le> a_size arr \<Longrightarrow>
   json_array_grow mem arr amount copy = Some (Some (a_table arr, False, arr))"
  by (simp add: json_array_grow_def)

lemma json_array_grow_ok:
  assumes "arr_ok arr" "mem_bounded mem" "unat amount < 2 ^ 60" "json_array_grow mem arr amount copy = r"
  shows "r = Some None \<or> (\<exists>t d arr1. r = Some (Some (t, d, arr1)) \<and> a_entries arr1 = a_entries arr \<and>
     unat (a_entries arr) + unat amount \<le> unat (a_size arr1) \<and> 0 < unat (a_size arr1) \<and> unat (a_size arr1) < 2 ^ 60 \<and> unat (a_size arr) \<le> unat (a_size arr1) \<and>
     length (a_table arr1) = unat (a_size arr1) \<and>
     (if d then \<not> copy \<and> t = a_table arr else t = a_table arr1 \<and> elems arr1 = elems arr))"
proof -
  have e: "unat (a_entries arr) \<le> unat (a_size arr)" "length (a_table arr) = unat (a_size arr)"
      "unat (a_size arr) < 2 ^ 60" "0 < unat (a_size arr)"
    using assms(1) by (auto simp: arr_ok_def word_le_nat_alt)
  have s: "unat (a_entries arr + amount) = unat (a_entries arr) + unat amount"
      "unat (a_size arr + amount) = unat (a_size arr) + unat amount" "unat (a_size arr * 2) = unat (a_size arr) * 2"
    using e assms(3) by (simp_all add: unat_word_ariths)
  show ?thesis
  proof (cases "a_entries arr + amount \<le> a_size arr")
    case True
    then have "unat (a_entries arr) + unat amount \<le> unat (a_size arr)" using s by (simp add: word_le_nat_alt)
    with True assms(4) e grow_room [OF True, of mem copy] show ?thesis
      by (intro disjI2 exI [of _ "a_table arr"] exI [of _ False] exI [of _ arr]) simp
  next
    case False
    let ?n = "max (a_size arr + amount) (a_size arr * 2)"
    have n: "unat ?n = max (unat (a_size arr) + unat amount) (unat (a_size arr) * 2)"
      using s by (auto simp: max_def word_le_nat_alt)
    then have b: "unat (?n * 8) = unat ?n * 8" using e assms(3) by (intro unat_times8) simp
    show ?thesis
    proof (cases "alloc_ok mem (?n * 8)")
      case f: False
      then show ?thesis using False assms(4) by (simp add: json_array_grow_def Let_def)
    next
      case True
      then have m: "unat ?n < 2 ^ 60" using assms(2) b by (auto simp: alloc_ok_def mem_bounded_def)
      let ?a = "arr\<lparr>a_size := ?n, a_table := replicate (unat ?n) 0\<rparr>"
      have c: "array_copy (replicate (unat ?n) 0) 0 (a_table arr) 0 (a_entries arr) =
          Some (elems arr @ drop (unat (a_entries arr)) (replicate (unat ?n) 0))"
        using array_copy_ok [of "a_entries arr" 0 "replicate (unat ?n) 0" 0 "a_table arr"] e n
        by (simp add: elems_def)
      let ?t = "elems arr @ drop (unat (a_entries arr)) (replicate (unat ?n) 0)"
      have r: "r = (if copy then Some (Some (?t, False, ?a\<lparr>a_table := ?t\<rparr>)) else Some (Some (a_table arr, True, ?a)))"
        using assms(4) False True by (cases copy) (simp_all add: json_array_grow_def Let_def b c)
      have l: "unat (a_entries arr) + unat amount \<le> unat ?n" "unat (a_size arr) \<le> unat ?n" "0 < unat ?n"
          "unat (a_entries arr) \<le> unat ?n" "length (elems arr) = unat (a_entries arr)"
        using e n by (simp_all add: elems_def)
      show ?thesis
      proof (cases copy)
        case True
        have "elems (?a\<lparr>a_table := ?t\<rparr>) = elems arr" unfolding elems_def [of "?a\<lparr>a_table := ?t\<rparr>"] using l(5) by simp
        with r True l m show ?thesis
          by (intro disjI2 exI [of _ ?t] exI [of _ False] exI [of _ "?a\<lparr>a_table := ?t\<rparr>"]) simp
      next
        case False
        with r l m show ?thesis by (intro disjI2 exI [of _ "a_table arr"] exI [of _ True] exI [of _ ?a]) simp
      qed
    qed
  qed
qed

lemma unat_one_small: "unat (1 :: size_t) < 2 ^ 60"
  by simp

lemma json_array_grow_cases:
  assumes "arr_ok arr" "mem_bounded mem" "unat amount < 2 ^ 60"
  obtains (null) "json_array_grow mem arr amount copy = Some None"
    | (grown) t d arr1 where "json_array_grow mem arr amount copy = Some (Some (t, d, arr1))"
      "a_entries arr1 = a_entries arr" "unat (a_entries arr) + unat amount \<le> unat (a_size arr1)"
      "unat (a_size arr1) < 2 ^ 60" "length (a_table arr1) = unat (a_size arr1)" "0 < unat (a_size arr1)"
      "d \<Longrightarrow> \<not> copy \<and> t = a_table arr" "\<not> d \<Longrightarrow> t = a_table arr1 \<and> elems arr1 = elems arr"
  using json_array_grow_ok [OF assms, of copy] by (metis (full_types))

lemma table_append_ok:
  assumes "arr_ok arr" "mem_bounded mem" "table_append mem arr v = r"
  shows "r = Some None \<or> (\<exists>arr'. r = Some (Some arr') \<and> arr_ok arr' \<and> elems arr' = elems arr @ [v])"
proof -
  show ?thesis
  proof (cases rule: json_array_grow_cases [OF assms(1,2) unat_one_small, of True, case_names null grown])
    case 3: (grown t d arr1)
    then have 2: "json_array_grow mem arr 1 True = Some (Some (t, False, arr1))" "a_entries arr1 = a_entries arr"
      "unat (a_entries arr) + 1 \<le> unat (a_size arr1)" "unat (a_size arr1) < 2 ^ 60"
      "length (a_table arr1) = unat (a_size arr1)" "elems arr1 = elems arr"
      by (cases d; simp)+
    have u: "unat (a_entries arr + 1) = unat (a_entries arr) + 1" using 2 by (simp add: unat_word_ariths)
    let ?a = "arr1\<lparr>a_table := (a_table arr1)[unat (a_entries arr) := v], a_entries := a_entries arr + 1\<rparr>"
    have "r = Some (Some ?a)" using 2 assms(3) by (simp add: table_append_def table_put_def)
    moreover have "arr_ok ?a" using 2 u by (simp add: arr_ok_def word_le_nat_alt)
    moreover have "elems ?a = elems arr1 @ [v]" using 2 u by (simp add: elems_def take_Suc_conv_app_nth)
    ultimately show ?thesis using 2 by auto
  qed (use assms(3) in \<open>simp_all add: table_append_def\<close>)
qed

lemma take_shifted:
  assumes "i \<le> n" "n < length t" "n \<le> length s"
  shows "take (n + 1) (take (i + 1) t @ take (n - i) (drop i s) @ rest) = take i t @ t ! i # take (n - i) (drop i s)"
proof -
  have "take (i + 1) t = take i t @ [t ! i]" using assms by (simp add: take_Suc_conv_app_nth)
  then have "take (i + 1) t @ take (n - i) (drop i s) @ rest = (take i t @ t ! i # take (n - i) (drop i s)) @ rest" by simp
  moreover have "length (take i t @ t ! i # take (n - i) (drop i s)) = n + 1" using assms by simp
  ultimately show ?thesis by (metis append_eq_conv_conj)
qed

lemma elems_split:
  "i \<le> unat (a_entries arr) \<Longrightarrow> take i (elems arr) = take i (a_table arr)"
  "i \<le> unat (a_entries arr) \<Longrightarrow> drop i (elems arr) = take (unat (a_entries arr) - i) (drop i (a_table arr))"
  by (simp_all add: elems_def drop_take min_def)

lemma table_insert_ok:
  assumes "arr_ok arr" "mem_bounded mem" "index \<le> a_entries arr" "table_insert mem arr index v = r"
  shows "r = Some None \<or> (\<exists>arr'. r = Some (Some arr') \<and> arr_ok arr' \<and>
    elems arr' = take (unat index) (elems arr) @ v # drop (unat index) (elems arr))"
proof -
  show ?thesis
  proof (cases rule: json_array_grow_cases [OF assms(1,2) unat_one_small, of False, case_names null grown])
    case 2: (grown t d arr1)
    let ?i = "unat index" and ?n = "unat (a_entries arr)"
    have i: "?i \<le> ?n" using assms(3) by (simp add: word_le_nat_alt)
    have lt: "?n \<le> length (a_table arr)" using assms(1) by (auto simp: arr_ok_def word_le_nat_alt)
    have u: "unat (index + 1) = ?i + 1" "unat (a_entries arr - index) = ?n - ?i" "unat (a_entries arr + 1) = ?n + 1"
      using 2 i assms(3) by (simp_all add: unat_word_ariths unat_sub)
    have e: "length (elems arr) = ?n" using assms(1) by (simp add: length_elems)
    have "\<exists>t2. open_gap d t arr1 index = Some (arr1\<lparr>a_table := t2\<rparr>) \<and> length t2 = length (a_table arr1) \<and>
        (\<exists>w. take (?n + 1) t2 = take ?i (elems arr) @ w # drop ?i (elems arr))"
    proof (cases d)
      case True
      then have t: "t = a_table arr" using 2 by simp
      let ?t1 = "take ?i t @ drop ?i (a_table arr1)"
      let ?t2 = "take (?i + 1) ?t1 @ take (?n - ?i) (drop ?i t) @ drop (?n + 1) ?t1"
      have c1: "array_copy (a_table arr1) 0 t 0 index = Some ?t1"
        using array_copy_ok [of index 0 "a_table arr1" 0 t] 2 i lt t by simp
      have l1: "length ?t1 = length (a_table arr1)" "take ?i ?t1 = take ?i t" using 2 i lt t by simp_all
      have "array_copy ?t1 (index + 1) t index (a_entries arr - index) = Some ?t2"
        using array_copy_ok [of "a_entries arr - index" "index + 1" ?t1 index t] 2 i lt t u l1(1) by simp
      moreover have "take (?n + 1) ?t2 = take ?i (elems arr) @ ?t1 ! ?i # drop ?i (elems arr)"
      proof -
        have "?n < length ?t1" "?n \<le> length t" using 2(3,5) l1(1) lt t by simp_all
        then show ?thesis using take_shifted [OF i, of ?t1 t] l1(2) elems_split [OF i] t by metis
      qed
      moreover have "length ?t2 = length (a_table arr1)" using 2 i lt t l1(1) by simp
      ultimately show ?thesis
        using c1 True 2(2) by (intro exI [of _ ?t2] conjI exI [of _ "?t1 ! ?i"]) (simp_all only: open_gap_def if_True option.case option.map)
    next
      case False
      then have t: "elems arr1 = elems arr" using 2 by simp
      let ?t = "a_table arr1"
      let ?t2 = "take (?i + 1) ?t @ take (?n - ?i) (drop ?i ?t) @ drop (?n + 1) ?t"
      have "array_move arr1 (index + 1) index (a_entries arr - index) = Some (arr1\<lparr>a_table := ?t2\<rparr>)"
        using array_copy_ok [of "a_entries arr - index" "index + 1" ?t index ?t] 2 i u by (simp add: array_move_def)
      moreover have "take (?n + 1) ?t2 = take ?i (elems arr1) @ ?t ! ?i # drop ?i (elems arr1)"
      proof -
        have "?n < length ?t" using 2(3,5) by simp
        then show ?thesis using take_shifted [OF i, of ?t ?t] elems_split [of ?i arr1] i 2(2) by (metis less_imp_le)
      qed
      moreover have "length ?t2 = length (a_table arr1)" using 2 i by simp
      ultimately show ?thesis
        using False 2(2) t by (intro exI [of _ ?t2] conjI exI [of _ "?t ! ?i"]) (simp_all only: open_gap_def if_False)
    qed
    then obtain t2 w where a2: "open_gap d t arr1 index = Some (arr1\<lparr>a_table := t2\<rparr>)" "length t2 = length (a_table arr1)"
        "take (?n + 1) t2 = take ?i (elems arr) @ w # drop ?i (elems arr)" by blast
    let ?a = "arr1\<lparr>a_table := t2[?i := v], a_entries := a_entries arr + 1\<rparr>"
    have "r = Some (Some ?a)" using assms(4) 2 a2 i by (simp add: table_insert_def table_put_def)
    moreover have "arr_ok ?a" using 2 a2 u by (simp add: arr_ok_def word_le_nat_alt)
    moreover have "elems ?a = (take (?n + 1) t2)[?i := v]" using u by (simp add: elems_def take_update_swap)
    ultimately show ?thesis using a2(3) i e by (auto simp: list_update_append)
  qed (use assms(4) in \<open>simp_all add: table_insert_def\<close>)
qed

lemma table_remove_ok:
  assumes "arr_ok arr" "index < a_entries arr"
  shows "\<exists>arr'. table_remove arr index = Some arr' \<and> arr_ok arr' \<and>
    elems arr' = take (unat index) (elems arr) @ drop (unat index + 1) (elems arr)"
proof -
  let ?i = "unat index" and ?n = "unat (a_entries arr)"
  have i: "?i < ?n" using assms(2) by (simp add: word_less_nat_alt)
  then have u: "unat (a_entries arr - 1) = ?n - 1"
    by (metis One_nat_def gr_implies_not0 unat_0 unat_minus_one)
  have l: "length (a_table arr) = unat (a_size arr)" "?n \<le> unat (a_size arr)" "unat (a_size arr) < 2 ^ 60" "0 < unat (a_size arr)"
    using assms(1) by (auto simp: arr_ok_def word_le_nat_alt)
  show ?thesis
  proof (cases "index < a_entries arr - 1")
    case True
    then have i': "?i < ?n - 1" using u by (simp add: word_less_nat_alt)
    then have u1: "unat (index + 1) = ?i + 1" using l l(3) by (simp add: unat_word_ariths)
    have u2: "unat (a_entries arr - index - 1) = ?n - ?i - 1"
    proof -
      have "unat (a_entries arr - index) = ?n - ?i" using assms(2) by (simp add: unat_sub)
      moreover from this have "a_entries arr - index \<noteq> 0" using i by auto
      ultimately show ?thesis by (simp add: unat_minus_one)
    qed
    let ?t = "take ?i (a_table arr) @ take (?n - ?i - 1) (drop (?i + 1) (a_table arr)) @ drop (?n - 1) (a_table arr)"
    have "array_move arr index (index + 1) (a_entries arr - index - 1) = Some (arr\<lparr>a_table := ?t\<rparr>)"
      using array_copy_ok [of "a_entries arr - index - 1" index "a_table arr" "index + 1" "a_table arr"] l i' l(3) u1 u2
      by (simp add: array_move_def)
    then have "table_remove arr index = Some (arr\<lparr>a_table := ?t, a_entries := a_entries arr - 1\<rparr>)"
      using True by (simp add: table_remove_def)
    moreover have "arr_ok (arr\<lparr>a_table := ?t, a_entries := a_entries arr - 1\<rparr>)"
      using l i' u by (simp add: arr_ok_def word_le_nat_alt)
    moreover have "elems (arr\<lparr>a_table := ?t, a_entries := a_entries arr - 1\<rparr>) = take ?i (elems arr) @ drop (?i + 1) (elems arr)"
      using l i' u by (simp add: elems_def drop_take min_def)
    ultimately show ?thesis by blast
  next
    case False
    then have "?i = ?n - 1" using u i by (simp add: word_less_nat_alt)
    with i l u False show ?thesis
      by (auto simp: table_remove_def arr_ok_def elems_def word_le_nat_alt min_def)
  qed
qed

lemma table_extend_ok:
  assumes "length (a_table arr) = unat (a_size arr)" "unat (a_entries arr) + unat n \<le> unat (a_size arr)"
    "unat (a_size arr) < 2 ^ 60" "unat n \<le> length other" "0 < unat (a_size arr)"
  shows "\<exists>arr'. table_extend arr other n = Some arr' \<and> arr_ok arr' \<and> elems arr' = elems arr @ take (unat n) other"
proof -
  have u: "unat (a_entries arr + n) = unat (a_entries arr) + unat n" using assms by (simp add: unat_word_ariths)
  have "array_copy (a_table arr) (a_entries arr) other 0 n =
      Some (elems arr @ take (unat n) other @ drop (unat (a_entries arr) + unat n) (a_table arr))"
    using array_copy_ok [of n "a_entries arr" "a_table arr" 0 other] assms by (simp add: elems_def)
  with u assms show ?thesis by (auto simp: table_extend_def arr_ok_def elems_def word_le_nat_alt)
qed

end
