(* ===== verification/Lookup3.thy ===== *)
theory Lookup3
  imports Prelude
begin

text \<open>
  The hash function of \<^verbatim>\<open>src/jansson/src/lookup3.h\<close> on 32-bit words. The memory from
  the key on is a function from offsets to bytes, so the word-sized reads of the last block,
  which go beyond the key, are modelled as they are: they see whatever stands there. The
  three ways of reading the key (four, two or one byte at a time, by the alignment of the
  pointer) give the same value, which depends on the bytes of the key only.
\<close>

type_synonym u32 = "32 word"
type_synonym mem = "nat \<Rightarrow> byte"
type_synonym abc = "u32 \<times> u32 \<times> u32"

definition rot :: "u32 \<Rightarrow> nat \<Rightarrow> u32" where
  "rot x k = push_bit k x OR drop_bit (32 - k) x"

definition mix :: "abc \<Rightarrow> abc" where
  "mix = (\<lambda>(a, b, c).
     let a = a - c; a = a XOR rot c 4; c = c + b;
         b = b - a; b = b XOR rot a 6; a = a + c;
         c = c - b; c = c XOR rot b 8; b = b + a;
         a = a - c; a = a XOR rot c 16; c = c + b;
         b = b - a; b = b XOR rot a 19; a = a + c;
         c = c - b; c = c XOR rot b 4; b = b + a
     in (a, b, c))"

definition final :: "abc \<Rightarrow> u32" where
  "final = (\<lambda>(a, b, c).
     let c = c XOR b; c = c - rot b 14;
         a = a XOR c; a = a - rot c 11;
         b = b XOR a; b = b - rot a 25;
         c = c XOR b; c = c - rot b 16;
         a = a XOR c; a = a - rot c 4;
         b = b XOR a; b = b - rot a 14;
         c = c XOR b; c = c - rot b 24
     in c)"

text \<open>Reads through \<open>uint8_t *\<close>, \<open>uint16_t *\<close> and \<open>uint32_t *\<close> on a little-endian machine.\<close>

definition k8 :: "mem \<Rightarrow> nat \<Rightarrow> u32" where "k8 m i = ucast (m i)"
definition k16 :: "mem \<Rightarrow> nat \<Rightarrow> u32" where "k16 m i = k8 m (2 * i) + push_bit 8 (k8 m (2 * i + 1))"
definition k32 :: "mem \<Rightarrow> nat \<Rightarrow> u32" where
  "k32 m i = k8 m (4 * i) + push_bit 8 (k8 m (4 * i + 1)) + push_bit 16 (k8 m (4 * i + 2)) +
     push_bit 24 (k8 m (4 * i + 3))"

subsection \<open>Four bytes at a time\<close>

fun loop32 :: "nat \<Rightarrow> mem \<Rightarrow> abc \<Rightarrow> nat \<times> mem \<times> abc" where
  "loop32 len m (a, b, c) =
     (if len > 12 then loop32 (len - 12) (\<lambda>i. m (i + 12)) (mix (a + k32 m 0, b + k32 m 1, c + k32 m 2))
      else (len, m, (a, b, c)))"

definition tail32 :: "nat \<Rightarrow> mem \<Rightarrow> abc \<Rightarrow> u32" where
  "tail32 len m = (\<lambda>(a, b, c).
     let k = k32 m in
     if len = 12 then final (a + k 0, b + k 1, c + k 2)
     else if len = 11 then final (a + k 0, b + k 1, c + (k 2 AND 0xffffff))
     else if len = 10 then final (a + k 0, b + k 1, c + (k 2 AND 0xffff))
     else if len = 9 then final (a + k 0, b + k 1, c + (k 2 AND 0xff))
     else if len = 8 then final (a + k 0, b + k 1, c)
     else if len = 7 then final (a + k 0, b + (k 1 AND 0xffffff), c)
     else if len = 6 then final (a + k 0, b + (k 1 AND 0xffff), c)
     else if len = 5 then final (a + k 0, b + (k 1 AND 0xff), c)
     else if len = 4 then final (a + k 0, b, c)
     else if len = 3 then final (a + (k 0 AND 0xffffff), b, c)
     else if len = 2 then final (a + (k 0 AND 0xffff), b, c)
     else if len = 1 then final (a + (k 0 AND 0xff), b, c)
     else c)"

subsection \<open>Two bytes at a time\<close>

fun loop16 :: "nat \<Rightarrow> mem \<Rightarrow> abc \<Rightarrow> nat \<times> mem \<times> abc" where
  "loop16 len m (a, b, c) =
     (if len > 12 then loop16 (len - 12) (\<lambda>i. m (i + 12))
        (mix (a + (k16 m 0 + push_bit 16 (k16 m 1)), b + (k16 m 2 + push_bit 16 (k16 m 3)),
              c + (k16 m 4 + push_bit 16 (k16 m 5))))
      else (len, m, (a, b, c)))"

definition tail16 :: "nat \<Rightarrow> mem \<Rightarrow> abc \<Rightarrow> u32" where
  "tail16 len m = (\<lambda>(a, b, c).
     let k = k16 m; a4 = a + (k 0 + push_bit 16 (k 1)); b4 = b + (k 2 + push_bit 16 (k 3)) in
     if len = 12 then final (a4, b4, c + (k 4 + push_bit 16 (k 5)))
     else if len = 11 then final (a4, b4, c + push_bit 16 (k8 m 10) + k 4)
     else if len = 10 then final (a4, b4, c + k 4)
     else if len = 9 then final (a4, b4, c + k8 m 8)
     else if len = 8 then final (a4, b4, c)
     else if len = 7 then final (a4, b + push_bit 16 (k8 m 6) + k 2, c)
     else if len = 6 then final (a4, b + k 2, c)
     else if len = 5 then final (a4, b + k8 m 4, c)
     else if len = 4 then final (a4, b, c)
     else if len = 3 then final (a + push_bit 16 (k8 m 2) + k 0, b, c)
     else if len = 2 then final (a + k 0, b, c)
     else if len = 1 then final (a + k8 m 0, b, c)
     else c)"

subsection \<open>One byte at a time\<close>

fun loop8 :: "nat \<Rightarrow> mem \<Rightarrow> abc \<Rightarrow> nat \<times> mem \<times> abc" where
  "loop8 len m (a, b, c) =
     (if len > 12 then loop8 (len - 12) (\<lambda>i. m (i + 12))
        (mix (a + k8 m 0 + push_bit 8 (k8 m 1) + push_bit 16 (k8 m 2) + push_bit 24 (k8 m 3),
              b + k8 m 4 + push_bit 8 (k8 m 5) + push_bit 16 (k8 m 6) + push_bit 24 (k8 m 7),
              c + k8 m 8 + push_bit 8 (k8 m 9) + push_bit 16 (k8 m 10) + push_bit 24 (k8 m 11)))
      else (len, m, (a, b, c)))"

text \<open>The cases of the last \<open>switch\<close> fall through.\<close>

definition tail8 :: "nat \<Rightarrow> mem \<Rightarrow> abc \<Rightarrow> u32" where
  "tail8 len m = (\<lambda>(a, b, c).
     let c = (if len \<ge> 12 then c + push_bit 24 (k8 m 11) else c);
         c = (if len \<ge> 11 then c + push_bit 16 (k8 m 10) else c);
         c = (if len \<ge> 10 then c + push_bit 8 (k8 m 9) else c);
         c = (if len \<ge> 9 then c + k8 m 8 else c);
         b = (if len \<ge> 8 then b + push_bit 24 (k8 m 7) else b);
         b = (if len \<ge> 7 then b + push_bit 16 (k8 m 6) else b);
         b = (if len \<ge> 6 then b + push_bit 8 (k8 m 5) else b);
         b = (if len \<ge> 5 then b + k8 m 4 else b);
         a = (if len \<ge> 4 then a + push_bit 24 (k8 m 3) else a);
         a = (if len \<ge> 3 then a + push_bit 16 (k8 m 2) else a);
         a = (if len \<ge> 2 then a + push_bit 8 (k8 m 1) else a);
         a = (if len \<ge> 1 then a + k8 m 0 else a)
     in if len = 0 then c else final (a, b, c))"

definition hashlittle :: "bool \<Rightarrow> nat \<Rightarrow> mem \<Rightarrow> nat \<Rightarrow> u32 \<Rightarrow> u32" where
  "hashlittle HASH_LITTLE_ENDIAN addr key len initval =
     (let s = 0xdeadbeef + of_nat len + initval in
      if HASH_LITTLE_ENDIAN \<and> addr mod 4 = 0 then
        (case loop32 len key (s, s, s) of (len, m, abc) \<Rightarrow> tail32 len m abc)
      else if HASH_LITTLE_ENDIAN \<and> addr mod 2 = 0 then
        (case loop16 len key (s, s, s) of (len, m, abc) \<Rightarrow> tail16 len m abc)
      else (case loop8 len key (s, s, s) of (len, m, abc) \<Rightarrow> tail8 len m abc))"

text \<open>The hash of a key given by its bytes.\<close>

definition hash_str :: "u32 \<Rightarrow> bytes \<Rightarrow> size_t" where
  "hash_str seed key = ucast (hashlittle False 1 (\<lambda>i. if i < length key then key ! i else 0) (length key) seed)"

declare loop32.simps [simp del] loop16.simps [simp del] loop8.simps [simp del]

subsection \<open>The three readings agree\<close>

lemma k32_bytes:
  "k32 m 0 = k8 m 0 + push_bit 8 (k8 m 1) + push_bit 16 (k8 m 2) + push_bit 24 (k8 m 3)"
  "k32 m 1 = k8 m 4 + push_bit 8 (k8 m 5) + push_bit 16 (k8 m 6) + push_bit 24 (k8 m 7)"
  "k32 m 2 = k8 m 8 + push_bit 8 (k8 m 9) + push_bit 16 (k8 m 10) + push_bit 24 (k8 m 11)"
  by (simp_all add: k32_def numeral_2_eq_2)

lemma k16_bytes:
  "k16 m 0 = k8 m 0 + push_bit 8 (k8 m 1)" "k16 m 1 = k8 m 2 + push_bit 8 (k8 m 3)"
  "k16 m 2 = k8 m 4 + push_bit 8 (k8 m 5)" "k16 m 3 = k8 m 6 + push_bit 8 (k8 m 7)"
  "k16 m 4 = k8 m 8 + push_bit 8 (k8 m 9)" "k16 m 5 = k8 m 10 + push_bit 8 (k8 m 11)"
  by (simp_all add: k16_def numeral_eq_Suc)

lemma k16_pair: "(x + push_bit 8 y) + push_bit 16 (z + push_bit 8 w) =
    x + push_bit 8 y + push_bit 16 z + push_bit 24 (w :: u32)"
  by (simp add: push_bit_eq_mult algebra_simps)

lemma loop16_loop32: "loop16 len m abc = loop32 len m abc"
proof (induction len m abc rule: loop16.induct)
  case (1 len m a b c)
  then show ?case by (simp only: loop16.simps [of len] loop32.simps [of len] k16_bytes k16_pair k32_bytes) simp
qed

lemma loop8_loop32: "loop8 len m abc = loop32 len m abc"
proof (induction len m abc rule: loop8.induct)
  case (1 len m a b c)
  then show ?case by (simp only: loop8.simps [of len] loop32.simps [of len] k32_bytes add.assoc) simp
qed

lemma loop_len: "loop32 len m abc = (n, m', abc') \<Longrightarrow> n \<le> 12"
proof (induction len m abc rule: loop32.induct)
  case (1 len m a b c)
  show ?case
  proof (cases "12 < len")
    case True
    with 1(2) show ?thesis by (intro 1(1)) (simp_all add: loop32.simps [of len])
  next
    case False
    with 1(2) show ?thesis by (simp add: loop32.simps [of len])
  qed
qed

lemma k8_of_int: "k8 m i = of_int (uint (m i))"
  by (simp add: k8_def)

text \<open>Four bytes side by side, and their low parts.\<close>

definition field4 :: "byte \<Rightarrow> byte \<Rightarrow> byte \<Rightarrow> byte \<Rightarrow> int" where
  "field4 x y z w = uint x + 256 * uint y + 65536 * uint z + 16777216 * uint w"

lemma field4_range: "0 \<le> field4 x y z w" "field4 x y z w < 2 ^ 32"
  using byte_range [of x] byte_range [of y] byte_range [of z] byte_range [of w] by (simp_all add: field4_def)

lemma uint_field4: "uint (of_int (field4 x y z w) :: u32) = field4 x y z w"
  using field4_range [of x y z w] by (simp add: uint_word_of_int)

lemma field4_mod:
  "field4 x y z w mod 2 ^ 24 = field4 x y z 0" "field4 x y z w mod 2 ^ 16 = field4 x y 0 0"
  "field4 x y z w mod 2 ^ 8 = field4 x 0 0 0"
proof -
  have "field4 x y z w = field4 x y z 0 + uint w * 2 ^ 24" "field4 x y z w = field4 x y 0 0 + (uint z + 256 * uint w) * 2 ^ 16"
    "field4 x y z w = field4 x 0 0 0 + (uint y + 256 * uint z + 65536 * uint w) * 2 ^ 8"
    by (simp_all add: field4_def)
  moreover have "0 \<le> field4 x y z 0" "field4 x y z 0 < 2 ^ 24" "0 \<le> field4 x y 0 0" "field4 x y 0 0 < 2 ^ 16"
    "0 \<le> field4 x 0 0 0" "field4 x 0 0 0 < 2 ^ 8"
    using byte_range [of x] byte_range [of y] byte_range [of z] by (simp_all add: field4_def)
  ultimately show "field4 x y z w mod 2 ^ 24 = field4 x y z 0" "field4 x y z w mod 2 ^ 16 = field4 x y 0 0"
    "field4 x y z w mod 2 ^ 8 = field4 x 0 0 0"
    by (metis mod_mult_self1 mod_pos_pos_trivial)+
qed

lemma field4_mask:
  "of_int (field4 x y z w) AND (0xffffff :: u32) = of_int (field4 x y z 0)"
  "of_int (field4 x y z w) AND (0xffff :: u32) = of_int (field4 x y 0 0)"
  "of_int (field4 x y z w) AND (0xff :: u32) = of_int (field4 x 0 0 0)"
proof -
  have "uint (of_int (field4 x y z w) AND mask n :: u32) = field4 x y z w mod 2 ^ n" for n
    by (simp add: uint_field4 unsigned_take_bit_eq flip: take_bit_eq_mask) (simp add: take_bit_eq_mod)
  from this [of 24] this [of 16] this [of 8]
  show "of_int (field4 x y z w) AND (0xffffff :: u32) = of_int (field4 x y z 0)"
    "of_int (field4 x y z w) AND (0xffff :: u32) = of_int (field4 x y 0 0)"
    "of_int (field4 x y z w) AND (0xff :: u32) = of_int (field4 x 0 0 0)"
    by (simp_all add: word_uint_eq_iff uint_field4 field4_mod [simplified] mask_eq_exp_minus_1)
qed

lemma k32_field4:
  "k32 m 0 = of_int (field4 (m 0) (m 1) (m 2) (m 3))" "k32 m 1 = of_int (field4 (m 4) (m 5) (m 6) (m 7))"
  "k32 m 2 = of_int (field4 (m 8) (m 9) (m 10) (m 11))"
  by (simp_all only: k32_bytes field4_def k8_of_int of_int_add of_int_mult push_bit_eq_mult mult.commute) simp_all

lemma low_bytes:
  "of_int (field4 x y z 0) = (of_int (uint x) + push_bit 8 (of_int (uint y)) + push_bit 16 (of_int (uint z)) :: u32)"
  "of_int (field4 x y 0 0) = (of_int (uint x) + push_bit 8 (of_int (uint y)) :: u32)"
  "of_int (field4 x 0 0 0) = (of_int (uint x) :: u32)"
  by (simp_all add: field4_def push_bit_eq_mult)

lemma k32_mask:
  "k32 m 0 AND 0xff = k8 m 0" "k32 m 0 AND 0xffff = k8 m 0 + push_bit 8 (k8 m 1)"
  "k32 m 0 AND 0xffffff = k8 m 0 + push_bit 8 (k8 m 1) + push_bit 16 (k8 m 2)"
  "k32 m 1 AND 0xff = k8 m 4" "k32 m 1 AND 0xffff = k8 m 4 + push_bit 8 (k8 m 5)"
  "k32 m 1 AND 0xffffff = k8 m 4 + push_bit 8 (k8 m 5) + push_bit 16 (k8 m 6)"
  "k32 m 2 AND 0xff = k8 m 8" "k32 m 2 AND 0xffff = k8 m 8 + push_bit 8 (k8 m 9)"
  "k32 m 2 AND 0xffffff = k8 m 8 + push_bit 8 (k8 m 9) + push_bit 16 (k8 m 10)"
  by (simp_all only: k32_field4 field4_mask k8_of_int low_bytes) simp_all

lemma tail_cases:
  "(len::nat) \<le> 12 \<Longrightarrow> len = 0 \<or> len = 1 \<or> len = 2 \<or> len = 3 \<or> len = 4 \<or> len = 5 \<or> len = 6 \<or> len = 7 \<or>
     len = 8 \<or> len = 9 \<or> len = 10 \<or> len = 11 \<or> len = 12"
  by presburger

lemma tail32_tail8: "len \<le> 12 \<Longrightarrow> tail32 len m abc = tail8 len m abc"
  by (drule tail_cases, elim disjE; cases abc; simp add: tail32_def tail8_def k32_mask del: One_nat_def;
      simp add: k32_bytes ac_simps del: One_nat_def)

lemma tail16_tail8: "len \<le> 12 \<Longrightarrow> tail16 len m abc = tail8 len m abc"
proof -
  assume "len \<le> 12"
  moreover have "push_bit 16 (k16 m 1) = push_bit 16 (k8 m 2) + push_bit 24 (k8 m 3)"
    "push_bit 16 (k16 m 3) = push_bit 16 (k8 m 6) + push_bit 24 (k8 m 7)"
    "push_bit 16 (k16 m 5) = push_bit 16 (k8 m 10) + push_bit 24 (k8 m 11)"
    by (simp_all only: k16_bytes) (simp_all add: push_bit_eq_mult algebra_simps)
  ultimately show ?thesis
    by (drule_tac tail_cases, elim disjE; cases abc;
        simp add: tail16_def tail8_def k16_bytes(1,3,5) ac_simps del: One_nat_def)
qed

lemma hashlittle_bytes: "hashlittle le addr key len initval = hashlittle False 1 key len initval"
proof -
  let ?s = "0xdeadbeef + of_nat len + initval :: u32"
  obtain n m abc where l: "loop32 len key (?s, ?s, ?s) = (n, m, abc)" by (metis prod_cases3)
  then have "n \<le> 12" by (rule loop_len)
  with l show ?thesis
    by (simp add: hashlittle_def loop16_loop32 loop8_loop32 tail32_tail8 tail16_tail8 Let_def)
qed

text \<open>The value depends on the bytes of the key only.\<close>

lemma loop8_cong:
  "\<forall>i<len. m i = m' i \<Longrightarrow> fst (loop8 len m abc) = fst (loop8 len m' abc) \<and>
   snd (snd (loop8 len m abc)) = snd (snd (loop8 len m' abc)) \<and>
   (\<forall>i<fst (loop8 len m abc). fst (snd (loop8 len m abc)) i = fst (snd (loop8 len m' abc)) i)"
proof (induction len m abc arbitrary: m' rule: loop8.induct)
  case (1 len m a b c)
  show ?case
  proof (cases "12 < len")
    case True
    then have "k8 m i = k8 m' i" if "i < 12" for i using 1(2) that by (simp add: k8_def)
    with True 1(1) [OF True, of "\<lambda>i. m' (i + 12)"] 1(2) show ?thesis
      by (simp add: loop8.simps [of len] less_diff_conv)
  next
    case False
    with 1(2) show ?thesis by (simp add: loop8.simps [of len])
  qed
qed

lemma tail8_cong: "\<forall>i<len. m i = m' i \<Longrightarrow> tail8 len m abc = tail8 len m' abc"
proof -
  assume "\<forall>i<len. m i = m' i"
  then have "i < len \<Longrightarrow> k8 m i = k8 m' i" for i by (simp add: k8_def)
  then show ?thesis by (cases abc) (simp add: tail8_def Let_def)
qed

lemma hashlittle_cong:
  assumes "\<forall>i<len. m i = m' i"
  shows "hashlittle le addr m len initval = hashlittle le' addr' m' len initval"
proof -
  let ?s = "0xdeadbeef + of_nat len + initval :: u32"
  obtain n k abc n' k' abc' where l: "loop8 len m (?s, ?s, ?s) = (n, k, abc)" "loop8 len m' (?s, ?s, ?s) = (n', k', abc')"
    by (metis prod_cases3)
  with loop8_cong [OF assms, of "(?s, ?s, ?s)"] tail8_cong [of n k k' abc]
  have "tail8 n k abc = tail8 n' k' abc'" by auto
  with l have "hashlittle False 1 m len initval = hashlittle False 1 m' len initval" by (simp add: hashlittle_def)
  then show ?thesis by (metis hashlittle_bytes)
qed

lemma hashlittle_hash_str:
  "\<forall>i<length key. m i = key ! i \<Longrightarrow> ucast (hashlittle le addr m (length key) seed) = hash_str seed key"
  unfolding hash_str_def by (rule arg_cong [of _ _ ucast], rule hashlittle_cong) simp

end
