(* ===== verification/OrderedTable.thy ===== *)
theory OrderedTable
  imports HashtableInv "HOL-Library.Multiset"
begin

text \<open>
  The contract that \<^verbatim>\<open>value.c\<close> relies on: a table is an association list in insertion
  order. From the laws of the single operations follow lookups after updates, the effect of
  a sequence of operations, and the conservation of values: each value stored is still in
  the table or has been handed back for release, exactly once. The hash table is an instance.
\<close>

datatype 'v table_op = TSet bytes 'v | TDel bytes

text \<open>A sequence of operations: the statuses, the values handed back, and the final table.\<close>

fun run_table :: "('t \<Rightarrow> bytes \<Rightarrow> 'v \<Rightarrow> int \<times> 't \<times> 'v option) \<Rightarrow> ('t \<Rightarrow> bytes \<Rightarrow> int \<times> 't \<times> 'v option) \<Rightarrow>
    'v table_op list \<Rightarrow> 't \<Rightarrow> int list \<times> 'v list \<times> 't" where
  "run_table tset tdel [] t = ([], [], t)"
| "run_table tset tdel (TSet k v # ops) t =
     (let (r, t1, old) = tset t k v; (rs, vs, t') = run_table tset tdel ops t1
      in (r # rs, case_option [] (\<lambda>x. [x]) old @ vs, t'))"
| "run_table tset tdel (TDel k # ops) t =
     (let (r, t1, old) = tdel t k; (rs, vs, t') = run_table tset tdel ops t1
      in (r # rs, case_option [] (\<lambda>x. [x]) old @ vs, t'))"

text \<open>The same on association lists, with the statuses given: a failed store does nothing.\<close>

fun run_assoc :: "'v table_op list \<Rightarrow> int list \<Rightarrow> (bytes \<times> 'v) list \<Rightarrow> (bytes \<times> 'v) list" where
  "run_assoc (TSet k v # ops) (r # rs) kvs = run_assoc ops rs (if r = 0 then obj_set k v kvs else kvs)"
| "run_assoc (TDel k # ops) (r # rs) kvs = run_assoc ops rs (filter (\<lambda>p. fst p \<noteq> k) kvs)"
| "run_assoc _ _ kvs = kvs"

fun stored :: "'v table_op list \<Rightarrow> int list \<Rightarrow> 'v list" where
  "stored (TSet k v # ops) (r # rs) = (if r = 0 then v # stored ops rs else stored ops rs)"
| "stored (TDel k # ops) (r # rs) = stored ops rs"
| "stored _ _ = []"

abbreviation vals :: "(bytes \<times> 'v) list \<Rightarrow> 'v multiset" where
  "vals kvs \<equiv> mset (map snd kvs)"

lemma vals_obj_set:
  "distinct (map fst kvs) \<Longrightarrow> vals (obj_set k v kvs) + mset (case_option [] (\<lambda>x. [x]) (map_of kvs k)) = add_mset v (vals kvs)"
proof (induction k v kvs rule: obj_set.induct)
  case (2 k v k' v' kvs)
  then show ?case by (cases "k' = k") auto
qed simp

lemma vals_del:
  "distinct (map fst kvs) \<Longrightarrow>
   vals (filter (\<lambda>p. fst p \<noteq> k) kvs) + mset (case_option [] (\<lambda>x. [x]) (map_of kvs k)) = vals kvs"
proof (induction kvs)
  case (Cons p kvs)
  show ?case
  proof (cases "fst p = k")
    case True
    with Cons.prems have "filter (\<lambda>p. fst p \<noteq> k) kvs = kvs" by (intro filter_True) (auto simp: image_iff)
    with True show ?thesis by (cases p) simp
  next
    case False
    with Cons show ?thesis by (cases p) auto
  qed
qed simp

locale ordered_table =
  fixes tset :: "'t \<Rightarrow> bytes \<Rightarrow> 'v \<Rightarrow> int \<times> 't \<times> 'v option"
    and tget :: "'t \<Rightarrow> bytes \<Rightarrow> 'v option"
    and tdel :: "'t \<Rightarrow> bytes \<Rightarrow> int \<times> 't \<times> 'v option"
    and contents :: "'t \<Rightarrow> (bytes \<times> 'v) list"
    and ok :: "'t \<Rightarrow> bool"
  assumes ok_distinct: "ok t \<Longrightarrow> distinct (map fst (contents t))"
    and get_law: "ok t \<Longrightarrow> tget t k = map_of (contents t) k"
    and set_law: "ok t \<Longrightarrow> tset t k v = (r, t', old) \<Longrightarrow> ok t' \<and>
      (r = 0 \<and> contents t' = obj_set k v (contents t) \<and> old = map_of (contents t) k \<or>
       r = -1 \<and> contents t' = contents t \<and> old = None)"
    and del_law: "ok t \<Longrightarrow> tdel t k = (r, t', old) \<Longrightarrow> ok t' \<and>
      contents t' = filter (\<lambda>p. fst p \<noteq> k) (contents t) \<and> old = map_of (contents t) k \<and>
      r = (if map_of (contents t) k = None then -1 else 0)"
begin

lemma get_set: "ok t \<Longrightarrow> tset t k v = (0, t', old) \<Longrightarrow> tget t' k' = (if k' = k then Some v else tget t k')"
  using set_law [of t k v 0 t' old] by (auto simp: get_law obj_set_map_of)

lemma get_del: "ok t \<Longrightarrow> tdel t k = (r, t', old) \<Longrightarrow> tget t' k' = (if k' = k then None else tget t k')"
proof -
  have "map_of (filter (\<lambda>p. fst p \<noteq> k) kvs) k' = (if k' = k then None else map_of kvs k')" for kvs :: "(bytes \<times> 'b) list"
    by (induction kvs) auto
  then show "ok t \<Longrightarrow> tdel t k = (r, t', old) \<Longrightarrow> tget t' k' = (if k' = k then None else tget t k')"
    using del_law [of t k r t' old] by (auto simp: get_law)
qed

lemma run_refines:
  "ok t \<Longrightarrow> run_table tset tdel ops t = (rs, vs, t') \<Longrightarrow>
   ok t' \<and> contents t' = run_assoc ops rs (contents t) \<and>
   mset vs + vals (contents t') = mset (stored ops rs) + vals (contents t)"
proof (induction ops arbitrary: t rs vs t')
  case (Cons p ops)
  show ?case
  proof (cases p)
    case (TSet k v)
    obtain r t1 old where s: "tset t k v = (r, t1, old)" by (metis prod_cases3)
    obtain rs1 vs1 where r: "run_table tset tdel ops t1 = (rs1, vs1, t')"
        "rs = r # rs1" "vs = case_option [] (\<lambda>x. [x]) old @ vs1"
      using Cons.prems(2) TSet s by (auto split: prod.splits)
    note l = set_law [OF Cons.prems(1) s]
    from Cons.IH [of t1 rs1 vs1 t'] l r(1) have ih: "ok t'" "contents t' = run_assoc ops rs1 (contents t1)"
        "mset vs1 + vals (contents t') = mset (stored ops rs1) + vals (contents t1)" by auto
    show ?thesis
    proof (cases "r = 0")
      case True
      have "mset vs + vals (contents t') = mset (stored ops rs1) + (vals (contents t1) + mset (case_option [] (\<lambda>x. [x]) old))"
        using ih(3) r(3) by (simp add: ac_simps)
      also have "vals (contents t1) + mset (case_option [] (\<lambda>x. [x]) old) = add_mset v (vals (contents t))"
        using vals_obj_set [OF ok_distinct [OF Cons.prems(1)], of k v] l True by simp
      finally show ?thesis using l ih r TSet True by simp
    next
      case False
      with l ih r TSet show ?thesis by auto
    qed
  next
    case (TDel k)
    obtain r t1 old where s: "tdel t k = (r, t1, old)" by (metis prod_cases3)
    obtain rs1 vs1 where r: "run_table tset tdel ops t1 = (rs1, vs1, t')"
        "rs = r # rs1" "vs = case_option [] (\<lambda>x. [x]) old @ vs1"
      using Cons.prems(2) TDel s by (auto split: prod.splits)
    note l = del_law [OF Cons.prems(1) s]
    from Cons.IH [of t1 rs1 vs1 t'] l r(1) have ih: "ok t'" "contents t' = run_assoc ops rs1 (contents t1)"
        "mset vs1 + vals (contents t') = mset (stored ops rs1) + vals (contents t1)" by auto
    have "mset vs + vals (contents t') = mset (stored ops rs1) + (mset (case_option [] (\<lambda>x. [x]) old) + vals (contents t1))"
      using ih(3) r(3) by (simp add: ac_simps)
    also have "mset (case_option [] (\<lambda>x. [x]) old) + vals (contents t1) = vals (contents t)"
      using vals_del [OF ok_distinct [OF Cons.prems(1)], of k] l by (simp add: ac_simps)
    finally show ?thesis using l ih r TDel by simp
  qed
qed simp

end

interpretation hash: ordered_table "hashtable_set hash_str mem" "hashtable_get hash_str" "hashtable_del hash_str"
    entries "ht_inv hash_str" for hash_str :: "bytes \<Rightarrow> size_t" and mem :: "size_t \<Rightarrow> bool"
  by unfold_locales (rule entries_distinct hashtable_get_entries hashtable_set_ok hashtable_del_ok; assumption)+

end
