(* ===== verification/Value.thy ===== *)
theory Value
  imports JsonArray Lookup3 OrderedTable Dump "HOL-Library.Monad_Syntax"
begin

text \<open>
  The operations on values, \<^verbatim>\<open>src/jansson/src/value.c\<close> and the inline functions of
  \<^verbatim>\<open>src/jansson/src/jansson.h\<close>, on the heap of \<^verbatim>\<open>JsonHeap\<close>. A pointer is an address or
  NULL (\<open>None\<close>). The result of an operation is an option: \<open>None\<close> is an access to freed
  memory or outside a table. Where an operation replaces a reference, the C code releases the
  old value just before it overwrites the pointer; here the pointer is overwritten first. The
  release does not read the container, which is alive, so the order cannot be observed.
\<close>

subsection \<open>Environment\<close>

text \<open>The allocator (does an allocation of that size succeed?), \<open>hashtable_seed\<close>, and what the
  code uses of \<open>double\<close>: comparison, conversion of integers, and 0.\<close>

record 'r jenv = "'r libc" +
  env_mem :: "size_t \<Rightarrow> bool"
  env_seed :: u32
  c_real_eq :: "'r \<Rightarrow> 'r \<Rightarrow> bool"
  c_real_of_int :: "int \<Rightarrow> 'r"
  c_zero :: 'r

type_synonym ptr = "addr option"

abbreviation env_hash :: "('r, 'z) jenv_scheme \<Rightarrow> bytes \<Rightarrow> size_t" where
  "env_hash e \<equiv> hash_str (env_seed e)"

subsection \<open>Types of values\<close>

definition json_typeof :: "'r node \<Rightarrow> nat" where
  "json_typeof n = (case n of NObject _ \<Rightarrow> 0 | NArray _ \<Rightarrow> 1 | NString _ \<Rightarrow> 2 | NInteger _ \<Rightarrow> 3 | NReal _ \<Rightarrow> 4
     | NTrue \<Rightarrow> 5 | NFalse \<Rightarrow> 6 | NNull \<Rightarrow> 7)"

text \<open>\<open>json_is_object(json)\<close> followed by \<open>json_to_object(json)\<close>, and so on: \<open>Some None\<close> when the
  test fails.\<close>

definition as_object :: "'r heap \<Rightarrow> ptr \<Rightarrow> (addr \<times> addr hashtable) option option" where
  "as_object h json =
     (case json of None \<Rightarrow> Some None
      | Some a \<Rightarrow> map_option (\<lambda>n. case n of NObject ht \<Rightarrow> Some (a, ht) | _ \<Rightarrow> None) (node_at h a))"

definition as_array :: "'r heap \<Rightarrow> ptr \<Rightarrow> (addr \<times> json_array) option option" where
  "as_array h json =
     (case json of None \<Rightarrow> Some None
      | Some a \<Rightarrow> map_option (\<lambda>n. case n of NArray arr \<Rightarrow> Some (a, arr) | _ \<Rightarrow> None) (node_at h a))"

definition as_string :: "'r heap \<Rightarrow> ptr \<Rightarrow> (addr \<times> bytes) option option" where
  "as_string h json =
     (case json of None \<Rightarrow> Some None
      | Some a \<Rightarrow> map_option (\<lambda>n. case n of NString s \<Rightarrow> Some (a, s) | _ \<Rightarrow> None) (node_at h a))"

definition as_integer :: "'r heap \<Rightarrow> ptr \<Rightarrow> (addr \<times> int) option option" where
  "as_integer h json =
     (case json of None \<Rightarrow> Some None
      | Some a \<Rightarrow> map_option (\<lambda>n. case n of NInteger i \<Rightarrow> Some (a, i) | _ \<Rightarrow> None) (node_at h a))"

definition as_real :: "'r heap \<Rightarrow> ptr \<Rightarrow> (addr \<times> 'r) option option" where
  "as_real h json =
     (case json of None \<Rightarrow> Some None
      | Some a \<Rightarrow> map_option (\<lambda>n. case n of NReal r \<Rightarrow> Some (a, r) | _ \<Rightarrow> None) (node_at h a))"

text \<open>The error exit of the functions that take over a reference.\<close>

definition refuse :: "'r heap \<Rightarrow> ptr \<Rightarrow> (int \<times> 'r heap) option" where
  "refuse h value = map_option (\<lambda>h'. (-1, h')) (json_decref h value)"

subsection \<open>Objects\<close>

definition json_object :: "('r, 'z) jenv_scheme \<Rightarrow> 'r heap \<Rightarrow> ptr \<times> 'r heap" where
  "json_object e h =
     (if \<not> alloc_ok (env_mem e) 72 then (None, h)
      else case hashtable_init (env_mem e) of
             None \<Rightarrow> (None, h)
           | Some ht \<Rightarrow> apfst Some (json_init h (NObject ht)))"

definition json_object_size :: "'r heap \<Rightarrow> ptr \<Rightarrow> nat option" where
  "json_object_size h json = map_option (case_option 0 (\<lambda>(a, ht). ht_size ht)) (as_object h json)"

definition json_object_getn :: "('r, 'z) jenv_scheme \<Rightarrow> 'r heap \<Rightarrow> ptr \<Rightarrow> bytes option \<Rightarrow> ptr option" where
  "json_object_getn e h json key =
     (case key of None \<Rightarrow> Some None
      | Some k \<Rightarrow> map_option (case_option None (\<lambda>(a, ht). hashtable_get (env_hash e) ht k)) (as_object h json))"

definition json_object_get :: "('r, 'z) jenv_scheme \<Rightarrow> 'r heap \<Rightarrow> ptr \<Rightarrow> bytes option \<Rightarrow> ptr option" where
  "json_object_get e h json key =
     (case key of None \<Rightarrow> Some None | Some k \<Rightarrow> json_object_getn e h json (Some (cstr k)))"

definition json_object_setn_new_nocheck ::
    "('r, 'z) jenv_scheme \<Rightarrow> 'r heap \<Rightarrow> ptr \<Rightarrow> bytes option \<Rightarrow> ptr \<Rightarrow> (int \<times> 'r heap) option" where
  "json_object_setn_new_nocheck e h json key value =
     (case value of None \<Rightarrow> Some (-1, h)
      | Some v \<Rightarrow>
          (case key of None \<Rightarrow> refuse h value
           | Some k \<Rightarrow> do {
               t \<leftarrow> as_object h json;
               case t of None \<Rightarrow> refuse h value
               | Some (a, ht) \<Rightarrow>
                   if json = value then refuse h value
                   else
                     let (r, ht', old) = hashtable_set (env_hash e) (env_mem e) ht k v;
                         h1 = set_node h a (NObject ht') in
                     if r \<noteq> 0 then refuse h1 value
                     else map_option (\<lambda>h'. (0, h')) (json_decref h1 old)
             }))"

definition json_object_set_new_nocheck ::
    "('r, 'z) jenv_scheme \<Rightarrow> 'r heap \<Rightarrow> ptr \<Rightarrow> bytes option \<Rightarrow> ptr \<Rightarrow> (int \<times> 'r heap) option" where
  "json_object_set_new_nocheck e h json key value =
     (case key of None \<Rightarrow> refuse h value
      | Some k \<Rightarrow> json_object_setn_new_nocheck e h json (Some (cstr k)) value)"

definition json_object_setn_new ::
    "('r, 'z) jenv_scheme \<Rightarrow> 'r heap \<Rightarrow> ptr \<Rightarrow> bytes option \<Rightarrow> ptr \<Rightarrow> (int \<times> 'r heap) option" where
  "json_object_setn_new e h json key value =
     (case key of None \<Rightarrow> refuse h value
      | Some k \<Rightarrow>
          if \<not> utf8_check_string k (length k) then refuse h value
          else json_object_setn_new_nocheck e h json key value)"

definition json_object_set_new ::
    "('r, 'z) jenv_scheme \<Rightarrow> 'r heap \<Rightarrow> ptr \<Rightarrow> bytes option \<Rightarrow> ptr \<Rightarrow> (int \<times> 'r heap) option" where
  "json_object_set_new e h json key value =
     (case key of None \<Rightarrow> refuse h value
      | Some k \<Rightarrow> json_object_setn_new e h json (Some (cstr k)) value)"

text \<open>The variants that borrow: \<open>json_object_set\<close>, \<open>json_object_setn\<close>, \<open>json_object_setn_nocheck\<close>.\<close>

definition json_object_setn_nocheck ::
    "('r, 'z) jenv_scheme \<Rightarrow> 'r heap \<Rightarrow> ptr \<Rightarrow> bytes option \<Rightarrow> ptr \<Rightarrow> (int \<times> 'r heap) option" where
  "json_object_setn_nocheck e h json key value =
     do { h1 \<leftarrow> json_incref h value; json_object_setn_new_nocheck e h1 json key value }"

definition json_object_setn ::
    "('r, 'z) jenv_scheme \<Rightarrow> 'r heap \<Rightarrow> ptr \<Rightarrow> bytes option \<Rightarrow> ptr \<Rightarrow> (int \<times> 'r heap) option" where
  "json_object_setn e h json key value =
     do { h1 \<leftarrow> json_incref h value; json_object_setn_new e h1 json key value }"

definition json_object_set ::
    "('r, 'z) jenv_scheme \<Rightarrow> 'r heap \<Rightarrow> ptr \<Rightarrow> bytes option \<Rightarrow> ptr \<Rightarrow> (int \<times> 'r heap) option" where
  "json_object_set e h json key value =
     do { h1 \<leftarrow> json_incref h value; json_object_set_new e h1 json key value }"

definition json_object_deln :: "('r, 'z) jenv_scheme \<Rightarrow> 'r heap \<Rightarrow> ptr \<Rightarrow> bytes option \<Rightarrow> (int \<times> 'r heap) option" where
  "json_object_deln e h json key =
     (case key of None \<Rightarrow> Some (-1, h)
      | Some k \<Rightarrow> do {
          t \<leftarrow> as_object h json;
          case t of None \<Rightarrow> Some (-1, h)
          | Some (a, ht) \<Rightarrow>
              let (r, ht', old) = hashtable_del (env_hash e) ht k in
              map_option (\<lambda>h'. (r, h')) (json_decref (set_node h a (NObject ht')) old)
        })"

definition json_object_del :: "('r, 'z) jenv_scheme \<Rightarrow> 'r heap \<Rightarrow> ptr \<Rightarrow> bytes option \<Rightarrow> (int \<times> 'r heap) option" where
  "json_object_del e h json key =
     (case key of None \<Rightarrow> Some (-1, h) | Some k \<Rightarrow> json_object_deln e h json (Some (cstr k)))"

definition json_object_clear :: "'r heap \<Rightarrow> ptr \<Rightarrow> (int \<times> 'r heap) option" where
  "json_object_clear h json = do {
     t \<leftarrow> as_object h json;
     case t of None \<Rightarrow> Some (-1, h)
     | Some (a, ht) \<Rightarrow>
         let (ht', vs) = hashtable_clear ht in
         map_option (\<lambda>h'. (0, h')) (release (set_node h a (NObject ht')) (map Decref vs))
   }"

subsection \<open>Iterators\<close>

text \<open>An iterator points to a pair of an object: the object's address and the pair's index.
  \<open>json_object_key_to_iter\<close> recovers it from the address of the key, so a key met in an
  iteration is its iterator.\<close>

type_synonym json_iter = "(addr \<times> nat) option"

definition json_object_iter :: "'r heap \<Rightarrow> ptr \<Rightarrow> json_iter option" where
  "json_object_iter h json =
     map_option (case_option None (\<lambda>(a, ht). map_option (Pair a) (hashtable_iter ht))) (as_object h json)"

definition json_object_iter_at :: "('r, 'z) jenv_scheme \<Rightarrow> 'r heap \<Rightarrow> ptr \<Rightarrow> bytes option \<Rightarrow> json_iter option" where
  "json_object_iter_at e h json key =
     (case key of None \<Rightarrow> Some None
      | Some k \<Rightarrow>
          map_option (case_option None (\<lambda>(a, ht). map_option (Pair a) (hashtable_iter_at (env_hash e) ht (cstr k))))
            (as_object h json))"

definition json_object_iter_next :: "'r heap \<Rightarrow> ptr \<Rightarrow> json_iter \<Rightarrow> json_iter option" where
  "json_object_iter_next h json iter = do {
     t \<leftarrow> as_object h json;
     case (t, iter) of
       (Some (a, ht), Some (_, n)) \<Rightarrow> Some (map_option (Pair a) (hashtable_iter_next ht (Some n)))
     | _ \<Rightarrow> Some None
   }"

text \<open>Reading through an iterator: the pair must be alive.\<close>

definition iter_table :: "'r heap \<Rightarrow> addr \<times> nat \<Rightarrow> addr hashtable option" where
  "iter_table h iter = do {
     t \<leftarrow> as_object h (Some (fst iter));
     case t of
       Some (_, ht) \<Rightarrow> if snd iter < length (ht_pairs ht) \<and> ht_pairs ht ! snd iter \<noteq> None then Some ht else None
     | None \<Rightarrow> None
   }"

definition json_object_iter_key :: "'r heap \<Rightarrow> json_iter \<Rightarrow> bytes option option" where
  "json_object_iter_key h iter =
     (case iter of None \<Rightarrow> Some None
      | Some i \<Rightarrow> map_option (\<lambda>ht. Some (hashtable_iter_key ht (snd i))) (iter_table h i))"

definition json_object_iter_key_len :: "'r heap \<Rightarrow> json_iter \<Rightarrow> nat option" where
  "json_object_iter_key_len h iter =
     (case iter of None \<Rightarrow> Some 0
      | Some i \<Rightarrow> map_option (\<lambda>ht. hashtable_iter_key_len ht (snd i)) (iter_table h i))"

definition json_object_iter_value :: "'r heap \<Rightarrow> json_iter \<Rightarrow> ptr option" where
  "json_object_iter_value h iter =
     (case iter of None \<Rightarrow> Some None
      | Some i \<Rightarrow> map_option (\<lambda>ht. Some (hashtable_iter_value ht (snd i))) (iter_table h i))"

definition json_object_iter_set_new :: "'r heap \<Rightarrow> ptr \<Rightarrow> json_iter \<Rightarrow> ptr \<Rightarrow> (int \<times> 'r heap) option" where
  "json_object_iter_set_new h json iter value = do {
     t \<leftarrow> as_object h json;
     case (t, iter, value) of
       (Some _, Some i, Some v) \<Rightarrow> do {
         ht \<leftarrow> iter_table h i;
         let (ht', old) = hashtable_iter_set ht (snd i) v;
         map_option (\<lambda>h'. (0, h')) (json_decref (set_node h (fst i) (NObject ht')) (Some old))
       }
     | _ \<Rightarrow> refuse h value
   }"

subsection \<open>Updating an object from another\<close>

text \<open>\<open>json_object_keylen_foreach(other, key, key_len, value)\<close> over the pairs still to come: the
  key and the value are read when the pair is reached. The bodies of the three updates store
  only under keys of \<open>other\<close>, so when \<open>other\<close> is the object itself its sequence of pairs stays.\<close>

definition pair_at :: "'r heap \<Rightarrow> ptr \<Rightarrow> nat \<Rightarrow> (bytes \<times> addr) option" where
  "pair_at h other n = do {
     a \<leftarrow> other;
     ht \<leftarrow> iter_table h (a, n);
     Some (hashtable_iter_key ht n, hashtable_iter_value ht n)
   }"

fun update_loop :: "('r, 'z) jenv_scheme \<Rightarrow> 'r heap \<Rightarrow> ptr \<Rightarrow> ptr \<Rightarrow> nat list \<Rightarrow> (int \<times> 'r heap) option" where
  "update_loop e h object other [] = Some (0, h)"
| "update_loop e h object other (n # ns) = do {
     (key, value) \<leftarrow> pair_at h other n;
     (r, h1) \<leftarrow> json_object_setn_nocheck e h object (Some key) (Some value);
     if r \<noteq> 0 then Some (-1, h1) else update_loop e h1 object other ns
   }"

definition json_object_update :: "('r, 'z) jenv_scheme \<Rightarrow> 'r heap \<Rightarrow> ptr \<Rightarrow> ptr \<Rightarrow> (int \<times> 'r heap) option" where
  "json_object_update e h object other = do {
     t \<leftarrow> as_object h object;
     if t = None then Some (-1, h) else do {
       u \<leftarrow> as_object h other;
       case u of None \<Rightarrow> Some (-1, h)
       | Some (_, ht) \<Rightarrow> update_loop e h object other (ht_ordered ht)
     }
   }"

text \<open>\<open>json_object_update_existing\<close> (\<open>present\<close>) and \<open>json_object_update_missing\<close> (not \<open>present\<close>): the
  status of the store is ignored.\<close>

fun update_some_loop :: "('r, 'z) jenv_scheme \<Rightarrow> bool \<Rightarrow> 'r heap \<Rightarrow> ptr \<Rightarrow> ptr \<Rightarrow> nat list \<Rightarrow> (int \<times> 'r heap) option" where
  "update_some_loop e present h object other [] = Some (0, h)"
| "update_some_loop e present h object other (n # ns) = do {
     (key, value) \<leftarrow> pair_at h other n;
     v \<leftarrow> json_object_getn e h object (Some key);
     (r, h1) \<leftarrow> (if (v \<noteq> None) = present then json_object_setn_nocheck e h object (Some key) (Some value)
                 else Some (0, h));
     update_some_loop e present h1 object other ns
   }"

definition update_some :: "('r, 'z) jenv_scheme \<Rightarrow> bool \<Rightarrow> 'r heap \<Rightarrow> ptr \<Rightarrow> ptr \<Rightarrow> (int \<times> 'r heap) option" where
  "update_some e present h object other = do {
     t \<leftarrow> as_object h object;
     if t = None then Some (-1, h) else do {
       u \<leftarrow> as_object h other;
       case u of None \<Rightarrow> Some (-1, h)
       | Some (_, ht) \<Rightarrow> update_some_loop e present h object other (ht_ordered ht)
     }
   }"

definition json_object_update_existing :: "('r, 'z) jenv_scheme \<Rightarrow> 'r heap \<Rightarrow> ptr \<Rightarrow> ptr \<Rightarrow> (int \<times> 'r heap) option" where
  "json_object_update_existing e = update_some e True"

definition json_object_update_missing :: "('r, 'z) jenv_scheme \<Rightarrow> 'r heap \<Rightarrow> ptr \<Rightarrow> ptr \<Rightarrow> (int \<times> 'r heap) option" where
  "json_object_update_missing e = update_some e False"


subsection \<open>Arrays\<close>

definition json_array :: "('r, 'z) jenv_scheme \<Rightarrow> 'r heap \<Rightarrow> ptr \<times> 'r heap" where
  "json_array e h =
     (if \<not> alloc_ok (env_mem e) 40 then (None, h)
      else if \<not> alloc_ok (env_mem e) (8 * 8) then (None, h)
      else apfst Some (json_init h (NArray \<lparr>a_size = 8, a_entries = 0, a_table = replicate 8 0\<rparr>)))"

definition json_array_size :: "'r heap \<Rightarrow> ptr \<Rightarrow> size_t option" where
  "json_array_size h json = map_option (case_option 0 (\<lambda>(a, arr). a_entries arr)) (as_array h json)"

definition json_array_get :: "'r heap \<Rightarrow> ptr \<Rightarrow> size_t \<Rightarrow> ptr option" where
  "json_array_get h json index = do {
     t \<leftarrow> as_array h json;
     case t of None \<Rightarrow> Some None
     | Some (a, arr) \<Rightarrow>
         if index \<ge> a_entries arr then Some None
         else if unat index < length (a_table arr) then Some (Some (a_table arr ! unat index)) else None
   }"

definition json_array_set_new :: "'r heap \<Rightarrow> ptr \<Rightarrow> size_t \<Rightarrow> ptr \<Rightarrow> (int \<times> 'r heap) option" where
  "json_array_set_new h json index value =
     (case value of None \<Rightarrow> Some (-1, h)
      | Some v \<Rightarrow> do {
          t \<leftarrow> as_array h json;
          case t of None \<Rightarrow> refuse h value
          | Some (a, arr) \<Rightarrow>
              if json = value then refuse h value
              else if index \<ge> a_entries arr then refuse h value
              else do {
                arr' \<leftarrow> table_put arr index v;
                map_option (\<lambda>h'. (0, h'))
                  (json_decref (set_node h a (NArray arr')) (Some (a_table arr ! unat index)))
              }
        })"

definition json_array_append_new :: "('r, 'z) jenv_scheme \<Rightarrow> 'r heap \<Rightarrow> ptr \<Rightarrow> ptr \<Rightarrow> (int \<times> 'r heap) option" where
  "json_array_append_new e h json value =
     (case value of None \<Rightarrow> Some (-1, h)
      | Some v \<Rightarrow> do {
          t \<leftarrow> as_array h json;
          case t of None \<Rightarrow> refuse h value
          | Some (a, arr) \<Rightarrow>
              if json = value then refuse h value
              else do {
                r \<leftarrow> table_append (env_mem e) arr v;
                case r of None \<Rightarrow> refuse h value
                | Some arr' \<Rightarrow> Some (0, set_node h a (NArray arr'))
              }
        })"

definition json_array_insert_new :: "('r, 'z) jenv_scheme \<Rightarrow> 'r heap \<Rightarrow> ptr \<Rightarrow> size_t \<Rightarrow> ptr \<Rightarrow> (int \<times> 'r heap) option" where
  "json_array_insert_new e h json index value =
     (case value of None \<Rightarrow> Some (-1, h)
      | Some v \<Rightarrow> do {
          t \<leftarrow> as_array h json;
          case t of None \<Rightarrow> refuse h value
          | Some (a, arr) \<Rightarrow>
              if json = value then refuse h value
              else if index > a_entries arr then refuse h value
              else do {
                r \<leftarrow> table_insert (env_mem e) arr index v;
                case r of None \<Rightarrow> refuse h value
                | Some arr' \<Rightarrow> Some (0, set_node h a (NArray arr'))
              }
        })"

text \<open>\<open>json_array_set\<close>, \<open>json_array_append\<close>, \<open>json_array_insert\<close>.\<close>

definition json_array_set :: "'r heap \<Rightarrow> ptr \<Rightarrow> size_t \<Rightarrow> ptr \<Rightarrow> (int \<times> 'r heap) option" where
  "json_array_set h json ind value = do { h1 \<leftarrow> json_incref h value; json_array_set_new h1 json ind value }"

definition json_array_append :: "('r, 'z) jenv_scheme \<Rightarrow> 'r heap \<Rightarrow> ptr \<Rightarrow> ptr \<Rightarrow> (int \<times> 'r heap) option" where
  "json_array_append e h json value = do { h1 \<leftarrow> json_incref h value; json_array_append_new e h1 json value }"

definition json_array_insert :: "('r, 'z) jenv_scheme \<Rightarrow> 'r heap \<Rightarrow> ptr \<Rightarrow> size_t \<Rightarrow> ptr \<Rightarrow> (int \<times> 'r heap) option" where
  "json_array_insert e h json ind value = do { h1 \<leftarrow> json_incref h value; json_array_insert_new e h1 json ind value }"

definition json_array_remove :: "'r heap \<Rightarrow> ptr \<Rightarrow> size_t \<Rightarrow> (int \<times> 'r heap) option" where
  "json_array_remove h json index = do {
     t \<leftarrow> as_array h json;
     case t of None \<Rightarrow> Some (-1, h)
     | Some (a, arr) \<Rightarrow>
         if index \<ge> a_entries arr then Some (-1, h)
         else do {
           arr' \<leftarrow> table_remove arr index;
           map_option (\<lambda>h'. (0, h'))
             (json_decref (set_node h a (NArray arr')) (Some (a_table arr ! unat index)))
         }
   }"

definition json_array_clear :: "'r heap \<Rightarrow> ptr \<Rightarrow> (int \<times> 'r heap) option" where
  "json_array_clear h json = do {
     t \<leftarrow> as_array h json;
     case t of None \<Rightarrow> Some (-1, h)
     | Some (a, arr) \<Rightarrow>
         map_option (\<lambda>h'. (0, h'))
           (release (set_node h a (NArray (arr\<lparr>a_entries := 0\<rparr>))) (map Decref (elems arr)))
   }"

fun incref_all :: "'r heap \<Rightarrow> addr list \<Rightarrow> 'r heap option" where
  "incref_all h [] = Some h"
| "incref_all h (a # as) = do { h1 \<leftarrow> json_incref h (Some a); incref_all h1 as }"

definition json_array_extend :: "('r, 'z) jenv_scheme \<Rightarrow> 'r heap \<Rightarrow> ptr \<Rightarrow> ptr \<Rightarrow> (int \<times> 'r heap) option" where
  "json_array_extend e h json other_json = do {
     t \<leftarrow> as_array h json;
     case t of None \<Rightarrow> Some (-1, h)
     | Some (a, arr) \<Rightarrow> do {
         u \<leftarrow> as_array h other_json;
         case u of None \<Rightarrow> Some (-1, h)
         | Some (b, other0) \<Rightarrow> do {
             g \<leftarrow> json_array_grow (env_mem e) arr (a_entries other0) True;
             case g of None \<Rightarrow> Some (-1, h)
             | Some (_, _, arr1) \<Rightarrow>
                 let h1 = set_node h a (NArray arr1); other = (if b = a then arr1 else other0) in do {
                   h2 \<leftarrow> incref_all h1 (elems other);
                   arr2 \<leftarrow> table_extend arr1 (a_table other) (a_entries other);
                   Some (0, set_node h2 a (NArray arr2))
                 }
           }
       }
   }"

subsection \<open>Strings\<close>

text \<open>\<open>len\<close> is the length of the bytes given. A copy allocates \<open>len + 1\<close> bytes.\<close>

definition string_create :: "('r, 'z) jenv_scheme \<Rightarrow> 'r heap \<Rightarrow> bytes option \<Rightarrow> bool \<Rightarrow> ptr \<times> 'r heap" where
  "string_create e h value own =
     (case value of None \<Rightarrow> (None, h)
      | Some v \<Rightarrow>
          if \<not> own \<and> \<not> alloc_ok (env_mem e) (of_nat (length v) + 1) then (None, h)
          else if \<not> alloc_ok (env_mem e) 32 then (None, h)
          else apfst Some (json_init h (NString v)))"

definition json_stringn_nocheck :: "('r, 'z) jenv_scheme \<Rightarrow> 'r heap \<Rightarrow> bytes option \<Rightarrow> ptr \<times> 'r heap" where
  "json_stringn_nocheck e h value = string_create e h value False"

definition json_string_nocheck :: "('r, 'z) jenv_scheme \<Rightarrow> 'r heap \<Rightarrow> bytes option \<Rightarrow> ptr \<times> 'r heap" where
  "json_string_nocheck e h value =
     (case value of None \<Rightarrow> (None, h) | Some v \<Rightarrow> string_create e h (Some (cstr v)) False)"

definition jsonp_stringn_nocheck_own :: "('r, 'z) jenv_scheme \<Rightarrow> 'r heap \<Rightarrow> bytes option \<Rightarrow> ptr \<times> 'r heap" where
  "jsonp_stringn_nocheck_own e h value = string_create e h value True"

definition json_stringn :: "('r, 'z) jenv_scheme \<Rightarrow> 'r heap \<Rightarrow> bytes option \<Rightarrow> ptr \<times> 'r heap" where
  "json_stringn e h value =
     (case value of None \<Rightarrow> (None, h)
      | Some v \<Rightarrow> if \<not> utf8_check_string v (length v) then (None, h) else json_stringn_nocheck e h value)"

definition json_string :: "('r, 'z) jenv_scheme \<Rightarrow> 'r heap \<Rightarrow> bytes option \<Rightarrow> ptr \<times> 'r heap" where
  "json_string e h value = (case value of None \<Rightarrow> (None, h) | Some v \<Rightarrow> json_stringn e h (Some (cstr v)))"

definition json_string_value :: "'r heap \<Rightarrow> ptr \<Rightarrow> bytes option option" where
  "json_string_value h json = map_option (map_option snd) (as_string h json)"

definition json_string_length :: "'r heap \<Rightarrow> ptr \<Rightarrow> nat option" where
  "json_string_length h json = map_option (case_option 0 (\<lambda>(a, s). length s)) (as_string h json)"

definition json_string_setn_nocheck :: "('r, 'z) jenv_scheme \<Rightarrow> 'r heap \<Rightarrow> ptr \<Rightarrow> bytes option \<Rightarrow> (int \<times> 'r heap) option" where
  "json_string_setn_nocheck e h json value = do {
     t \<leftarrow> as_string h json;
     case (t, value) of
       (Some (a, _), Some v) \<Rightarrow>
         if \<not> alloc_ok (env_mem e) (of_nat (length v) + 1) then Some (-1, h)
         else Some (0, set_node h a (NString v))
     | _ \<Rightarrow> Some (-1, h)
   }"

definition json_string_set_nocheck :: "('r, 'z) jenv_scheme \<Rightarrow> 'r heap \<Rightarrow> ptr \<Rightarrow> bytes option \<Rightarrow> (int \<times> 'r heap) option" where
  "json_string_set_nocheck e h json value =
     (case value of None \<Rightarrow> Some (-1, h) | Some v \<Rightarrow> json_string_setn_nocheck e h json (Some (cstr v)))"

definition json_string_setn :: "('r, 'z) jenv_scheme \<Rightarrow> 'r heap \<Rightarrow> ptr \<Rightarrow> bytes option \<Rightarrow> (int \<times> 'r heap) option" where
  "json_string_setn e h json value =
     (case value of None \<Rightarrow> Some (-1, h)
      | Some v \<Rightarrow> if \<not> utf8_check_string v (length v) then Some (-1, h) else json_string_setn_nocheck e h json value)"

definition json_string_set :: "('r, 'z) jenv_scheme \<Rightarrow> 'r heap \<Rightarrow> ptr \<Rightarrow> bytes option \<Rightarrow> (int \<times> 'r heap) option" where
  "json_string_set e h json value =
     (case value of None \<Rightarrow> Some (-1, h) | Some v \<Rightarrow> json_string_setn e h json (Some (cstr v)))"

text \<open>\<open>json_vsprintf\<close>: \<open>formatted\<close> is what \<open>vsnprintf\<close> makes of the arguments (\<open>None\<close>: it fails).\<close>

definition json_vsprintf :: "('r, 'z) jenv_scheme \<Rightarrow> 'r heap \<Rightarrow> bytes option \<Rightarrow> ptr \<times> 'r heap" where
  "json_vsprintf e h formatted =
     (case formatted of None \<Rightarrow> (None, h)
      | Some buf \<Rightarrow>
          if length buf = 0 then json_string e h (Some [])
          else if \<not> alloc_ok (env_mem e) (of_nat (length buf) + 1) then (None, h)
          else if \<not> utf8_check_string buf (length buf) then (None, h)
          else jsonp_stringn_nocheck_own e h (Some buf))"

subsection \<open>Numbers and simple values\<close>

definition json_integer :: "('r, 'z) jenv_scheme \<Rightarrow> 'r heap \<Rightarrow> int \<Rightarrow> ptr \<times> 'r heap" where
  "json_integer e h i =
     (if \<not> alloc_ok (env_mem e) 24 then (None, h) else apfst Some (json_init h (NInteger i)))"

definition json_integer_value :: "'r heap \<Rightarrow> ptr \<Rightarrow> int option" where
  "json_integer_value h json = map_option (case_option 0 snd) (as_integer h json)"

definition json_integer_set :: "'r heap \<Rightarrow> ptr \<Rightarrow> int \<Rightarrow> (int \<times> 'r heap) option" where
  "json_integer_set h json i =
     map_option (\<lambda>t. case t of None \<Rightarrow> (-1, h) | Some (a, _) \<Rightarrow> (0, set_node h a (NInteger i))) (as_integer h json)"

definition json_real :: "('r, 'z) jenv_scheme \<Rightarrow> 'r heap \<Rightarrow> 'r \<Rightarrow> ptr \<times> 'r heap" where
  "json_real e h r =
     (if c_isnan e r \<or> c_isinf e r then (None, h)
      else if \<not> alloc_ok (env_mem e) 24 then (None, h)
      else apfst Some (json_init h (NReal r)))"

definition json_real_value :: "('r, 'z) jenv_scheme \<Rightarrow> 'r heap \<Rightarrow> ptr \<Rightarrow> 'r option" where
  "json_real_value e h json = map_option (case_option (c_zero e) snd) (as_real h json)"

definition json_real_set :: "('r, 'z) jenv_scheme \<Rightarrow> 'r heap \<Rightarrow> ptr \<Rightarrow> 'r \<Rightarrow> (int \<times> 'r heap) option" where
  "json_real_set e h json r =
     map_option (\<lambda>t. case t of None \<Rightarrow> (-1, h)
         | Some (a, _) \<Rightarrow> if c_isnan e r \<or> c_isinf e r then (-1, h) else (0, set_node h a (NReal r))) (as_real h json)"

definition json_number_value :: "('r, 'z) jenv_scheme \<Rightarrow> 'r heap \<Rightarrow> ptr \<Rightarrow> 'r option" where
  "json_number_value e h json = do {
     i \<leftarrow> as_integer h json;
     r \<leftarrow> as_real h json;
     Some (case i of Some (_, n) \<Rightarrow> c_real_of_int e n | None \<Rightarrow> (case r of Some (_, x) \<Rightarrow> x | None \<Rightarrow> c_zero e))
   }"

definition json_true :: ptr where "json_true = Some the_true"
definition json_false :: ptr where "json_false = Some the_false"
definition json_null :: ptr where "json_null = Some the_null"

subsection \<open>Equality\<close>

definition json_string_equal :: "bytes \<Rightarrow> bytes \<Rightarrow> bool" where
  "json_string_equal s1 s2 \<longleftrightarrow> length s1 = length s2 \<and> memcmp s1 s2 (length s1) = 0"

text \<open>\<open>json_string_equal\<close>, \<open>json_integer_equal\<close> and \<open>json_real_equal\<close>; two distinct simple values
  are unequal.\<close>

definition scalar_equal :: "('r, 'z) jenv_scheme \<Rightarrow> 'r node \<Rightarrow> 'r node \<Rightarrow> bool" where
  "scalar_equal e n1 n2 =
     (case n1 of
        NString s1 \<Rightarrow> (case n2 of NString s2 \<Rightarrow> json_string_equal s1 s2 | _ \<Rightarrow> False)
      | NInteger i \<Rightarrow> (case n2 of NInteger j \<Rightarrow> i = j | _ \<Rightarrow> False)
      | NReal r \<Rightarrow> (case n2 of NReal s \<Rightarrow> c_real_eq e r s | _ \<Rightarrow> False)
      | _ \<Rightarrow> False)"

text \<open>The recursion has no check for loops; \<open>fuel\<close> bounds its depth and \<open>None\<close> stands for
  running out of it, or for a dangling pointer.\<close>

function (sequential) json_equal :: "('r, 'z) jenv_scheme \<Rightarrow> 'r heap \<Rightarrow> nat \<Rightarrow> ptr \<Rightarrow> ptr \<Rightarrow> bool option"
  and json_object_equal :: "('r, 'z) jenv_scheme \<Rightarrow> 'r heap \<Rightarrow> nat \<Rightarrow> (bytes \<times> addr) list \<Rightarrow> addr \<Rightarrow> bool option"
  and json_array_equal :: "('r, 'z) jenv_scheme \<Rightarrow> 'r heap \<Rightarrow> nat \<Rightarrow> addr list \<Rightarrow> addr list \<Rightarrow> bool option"
where
  "json_equal e h 0 json1 json2 = None"
| "json_equal e h (Suc fuel) json1 json2 =
     (case (json1, json2) of
        (Some a, Some b) \<Rightarrow> do {
          n1 \<leftarrow> node_at h a;
          n2 \<leftarrow> node_at h b;
          if json_typeof n1 \<noteq> json_typeof n2 then Some False
          else if json1 = json2 then Some True
          else case n1 of
            NObject t1 \<Rightarrow>
              if Some (ht_size t1) \<noteq> json_object_size h json2 then Some False
              else json_object_equal e h fuel (entries t1) b
          | NArray a1 \<Rightarrow>
              (case n2 of NArray a2 \<Rightarrow>
                 if a_entries a1 \<noteq> a_entries a2 then Some False
                 else json_array_equal e h fuel (elems a1) (elems a2)
               | _ \<Rightarrow> Some False)
          | _ \<Rightarrow> Some (scalar_equal e n1 n2)
        }
      | _ \<Rightarrow> Some False)"
| "json_object_equal e h fuel [] object2 = Some True"
| "json_object_equal e h fuel ((key, value1) # ps) object2 = do {
     value2 \<leftarrow> json_object_getn e h (Some object2) (Some key);
     q \<leftarrow> json_equal e h fuel (Some value1) value2;
     if \<not> q then Some False else json_object_equal e h fuel ps object2
   }"
| "json_array_equal e h fuel (v1 # vs1) (v2 # vs2) = do {
     q \<leftarrow> json_equal e h fuel (Some v1) (Some v2);
     if \<not> q then Some False else json_array_equal e h fuel vs1 vs2
   }"
| "json_array_equal e h fuel [] vs2 = Some True"
| "json_array_equal e h fuel (v1 # vs1) [] = Some True"
  by pat_completeness auto
termination
  by (relation "measures [\<lambda>x. case x of Inl (e, h, fuel, p, q) \<Rightarrow> fuel
        | Inr (Inl (e, h, fuel, ps, b)) \<Rightarrow> fuel | Inr (Inr (e, h, fuel, vs, ws)) \<Rightarrow> fuel,
      \<lambda>x. case x of Inl _ \<Rightarrow> 0 | Inr (Inl (e, h, fuel, ps, b)) \<Rightarrow> Suc (length ps)
        | Inr (Inr (e, h, fuel, vs, ws)) \<Rightarrow> Suc (length vs)]") auto

subsection \<open>Copying\<close>

definition json_string_copy :: "('r, 'z) jenv_scheme \<Rightarrow> 'r heap \<Rightarrow> bytes \<Rightarrow> ptr \<times> 'r heap" where
  "json_string_copy e h s = json_stringn_nocheck e h (Some s)"

text \<open>The loops of the shallow copies ignore the status of the stores.\<close>

fun object_copy_loop :: "('r, 'z) jenv_scheme \<Rightarrow> 'r heap \<Rightarrow> ptr \<Rightarrow> (bytes \<times> addr) list \<Rightarrow> 'r heap option" where
  "object_copy_loop e h result [] = Some h"
| "object_copy_loop e h result ((key, value) # ps) = do {
     (_, h1) \<leftarrow> json_object_setn_nocheck e h result (Some key) (Some value);
     object_copy_loop e h1 result ps
   }"

definition json_object_copy :: "('r, 'z) jenv_scheme \<Rightarrow> 'r heap \<Rightarrow> addr hashtable \<Rightarrow> (ptr \<times> 'r heap) option" where
  "json_object_copy e h object =
     (let (result, h1) = json_object e h in
      if result = None then Some (None, h1)
      else map_option (Pair result) (object_copy_loop e h1 result (entries object)))"

fun array_copy_loop :: "('r, 'z) jenv_scheme \<Rightarrow> 'r heap \<Rightarrow> ptr \<Rightarrow> addr list \<Rightarrow> 'r heap option" where
  "array_copy_loop e h result [] = Some h"
| "array_copy_loop e h result (v # vs) = do {
     (_, h1) \<leftarrow> json_array_append e h result (Some v);
     array_copy_loop e h1 result vs
   }"

definition json_array_copy :: "('r, 'z) jenv_scheme \<Rightarrow> 'r heap \<Rightarrow> json_array \<Rightarrow> (ptr \<times> 'r heap) option" where
  "json_array_copy e h arr =
     (let (result, h1) = json_array e h in
      if result = None then Some (None, h1)
      else map_option (Pair result) (array_copy_loop e h1 result (elems arr)))"

definition json_copy :: "('r, 'z) jenv_scheme \<Rightarrow> 'r heap \<Rightarrow> ptr \<Rightarrow> (ptr \<times> 'r heap) option" where
  "json_copy e h json =
     (case json of None \<Rightarrow> Some (None, h)
      | Some a \<Rightarrow> do {
          n \<leftarrow> node_at h a;
          case n of
            NObject ht \<Rightarrow> json_object_copy e h ht
          | NArray arr \<Rightarrow> json_array_copy e h arr
          | NString s \<Rightarrow> Some (json_string_copy e h s)
          | NInteger i \<Rightarrow> Some (json_integer e h i)
          | NReal r \<Rightarrow> Some (json_real e h r)
          | _ \<Rightarrow> Some (json, h)
        })"

text \<open>\<open>fuel\<close> bounds the depth of the recursion; the loop check makes it at most the number of
  values. \<open>parents\<close> is the set of containers on the current path.\<close>

function (sequential) do_deep_copy :: "('r, 'z) jenv_scheme \<Rightarrow> nat \<Rightarrow> 'r heap \<Rightarrow> ptr \<Rightarrow> addr list \<Rightarrow> (ptr \<times> 'r heap) option"
  and json_object_deep_copy_loop ::
    "('r, 'z) jenv_scheme \<Rightarrow> nat \<Rightarrow> 'r heap \<Rightarrow> ptr \<Rightarrow> (bytes \<times> addr) list \<Rightarrow> addr list \<Rightarrow> (ptr \<times> 'r heap) option"
  and json_array_deep_copy_loop ::
    "('r, 'z) jenv_scheme \<Rightarrow> nat \<Rightarrow> 'r heap \<Rightarrow> ptr \<Rightarrow> addr list \<Rightarrow> addr list \<Rightarrow> (ptr \<times> 'r heap) option"
where
  "do_deep_copy e 0 h json parents = None"
| "do_deep_copy e (Suc fuel) h json parents =
     (case json of None \<Rightarrow> Some (None, h)
      | Some a \<Rightarrow> do {
          n \<leftarrow> node_at h a;
          case n of
            NObject ht \<Rightarrow>
              (case jsonp_loop_check parents a of
                 None \<Rightarrow> Some (None, h)
               | Some parents' \<Rightarrow>
                   let (result, h1) = json_object e h in
                   if result = None then Some (None, h1)
                   else json_object_deep_copy_loop e fuel h1 result (entries ht) parents')
          | NArray arr \<Rightarrow>
              (case jsonp_loop_check parents a of
                 None \<Rightarrow> Some (None, h)
               | Some parents' \<Rightarrow>
                   let (result, h1) = json_array e h in
                   if result = None then Some (None, h1)
                   else json_array_deep_copy_loop e fuel h1 result (elems arr) parents')
          | NString s \<Rightarrow> Some (json_string_copy e h s)
          | NInteger i \<Rightarrow> Some (json_integer e h i)
          | NReal r \<Rightarrow> Some (json_real e h r)
          | _ \<Rightarrow> Some (json, h)
        })"
| "json_object_deep_copy_loop e fuel h result [] parents = Some (result, h)"
| "json_object_deep_copy_loop e fuel h result ((key, value) # ps) parents = do {
     (v, h1) \<leftarrow> do_deep_copy e fuel h (Some value) parents;
     (r, h2) \<leftarrow> json_object_setn_new_nocheck e h1 result (Some key) v;
     if r \<noteq> 0 then map_option (Pair None) (json_decref h2 result)
     else json_object_deep_copy_loop e fuel h2 result ps parents
   }"
| "json_array_deep_copy_loop e fuel h result [] parents = Some (result, h)"
| "json_array_deep_copy_loop e fuel h result (a # as) parents = do {
     (v, h1) \<leftarrow> do_deep_copy e fuel h (Some a) parents;
     (r, h2) \<leftarrow> json_array_append_new e h1 result v;
     if r \<noteq> 0 then map_option (Pair None) (json_decref h2 result)
     else json_array_deep_copy_loop e fuel h2 result as parents
   }"
  by pat_completeness auto
termination
  by (relation "measures [\<lambda>x. case x of Inl (e, fuel, h, p, q) \<Rightarrow> fuel
        | Inr (Inl (e, fuel, h, r, ps, q)) \<Rightarrow> fuel | Inr (Inr (e, fuel, h, r, vs, q)) \<Rightarrow> fuel,
      \<lambda>x. case x of Inl _ \<Rightarrow> 0 | Inr (Inl (e, fuel, h, r, ps, q)) \<Rightarrow> Suc (length ps)
        | Inr (Inr (e, fuel, h, r, vs, q)) \<Rightarrow> Suc (length vs)]") auto

definition json_deep_copy :: "('r, 'z) jenv_scheme \<Rightarrow> 'r heap \<Rightarrow> ptr \<Rightarrow> (ptr \<times> 'r heap) option" where
  "json_deep_copy e h json =
     (if hashtable_init (env_mem e) = (None :: unit hashtable option) then Some (None, h)
      else do_deep_copy e (length h + 2) h json [])"

end
