(* ===== verification/ValueThms.thy ===== *)
theory ValueThms
  imports Value
begin

text \<open>
  Ownership and effect of the operations on values. The invariant \<open>sound\<close> is exact reference
  counts and well-formed containers. Each operation is shown to keep it, on every branch, with
  the references of the clients changed as its contract says (a reference passed to a
  \<open>..._new\<close> function is taken over, also when the call fails), and to edit its container as
  the corresponding operation on lists and maps.
\<close>

definition sound :: "('r, 'z) jenv_scheme \<Rightarrow> 'r heap \<Rightarrow> addr multiset \<Rightarrow> bool" where
  "sound e h E \<longleftrightarrow> counted h E \<and> heap_ok (env_hash e) h \<and> mem_bounded (env_mem e)"

lemma soundD: "sound e h E \<Longrightarrow> counted h E" "sound e h E \<Longrightarrow> heap_ok (env_hash e) h"
    "sound e h E \<Longrightarrow> mem_bounded (env_mem e)"
  by (simp_all add: sound_def)

text \<open>The other values are unchanged, or gone when nobody refers to them.\<close>

definition edits :: "'r heap \<Rightarrow> 'r heap \<Rightarrow> addr \<Rightarrow> bool" where
  "edits h h' a \<longleftrightarrow> length h' = length h \<and> (\<forall>b n. b \<noteq> a \<longrightarrow> node_at h' b = Some n \<longrightarrow> node_at h b = Some n)"

lemma shrinks_edits: "shrinks h h' \<Longrightarrow> edits h h' a"
  by (auto simp: edits_def shrinks_length dest: shrinks_node)

lemma edits_set_node: "shrinks (set_node h a n) h' \<Longrightarrow> edits h h' a"
  unfolding edits_def by (metis length_set_node node_at_set_node shrinks_length shrinks_node)

lemma sound_live: "sound e h E \<Longrightarrow> a \<in># E \<Longrightarrow> \<exists>n. node_at h a = Some n"
  using counted_live [of h E a] by (auto simp: sound_def node_at_deref)

lemma sound_kept: "shrinks h h' \<Longrightarrow> sound e h' E \<Longrightarrow> a \<in># E \<Longrightarrow> node_at h a = Some n \<Longrightarrow> node_at h' a = Some n"
  using sound_live [of e h' E a] shrinks_node [of h h' a] by auto

subsection \<open>Release\<close>

lemma json_decref_sound:
  assumes "sound e h (add_mset v E)"
  shows "\<exists>h'. json_decref h (Some v) = Some h' \<and> sound e h' E \<and> shrinks h h'"
  using json_decref_counted [of h v E] assms shrinks_heap_ok by (auto simp: sound_def)

lemma json_decref_opt_sound:
  assumes "sound e h (E + mset (case_option [] (\<lambda>v. [v]) old))"
  shows "\<exists>h'. json_decref h old = Some h' \<and> sound e h' E \<and> shrinks h h'"
  using assms json_decref_sound [of e h _ E] by (cases old) (auto simp: json_decref_def)

lemma refuse_sound:
  assumes "sound e h (add_mset v E)"
  shows "\<exists>h'. refuse h (Some v) = Some (-1, h') \<and> sound e h' E \<and> shrinks h h'"
  using json_decref_sound [OF assms] by (auto simp: refuse_def)

lemma release_sound:
  assumes "sound e h (E + mset vs)"
  shows "\<exists>h'. release h (map Decref vs) = Some h' \<and> sound e h' E \<and> shrinks h h'"
  using release_counted [of h E vs] assms shrinks_heap_ok by (auto simp: sound_def)

lemma json_incref_sound:
  assumes "sound e h E" "node_at h a = Some n" "size (refs h + E) + 2 < 2 ^ 64"
  shows "\<exists>h'. json_incref h (Some a) = Some h' \<and> sound e h' (add_mset a E) \<and>
    length h' = length h \<and> (\<forall>b. node_at h' b = node_at h b) \<and> refs h' = refs h"
proof -
  obtain c where c: "deref h a = Some c" using assms(2) by (auto simp: node_at_deref)
  have "count (refs h + E) a \<le> size (refs h + E)" by (rule count_le_size)
  then have "count (refs h + E) a + 2 < 2 ^ 64" using assms(3) by linarith
  from json_incref_counted [OF soundD(1) [OF assms(1)] c this] assms(1) show ?thesis
    by (auto simp: sound_def heap_ok_def)
qed

text \<open>Changing the node of a container in accordance with the references given and taken.\<close>

lemma set_node_sound:
  assumes "sound e h E" "node_at h a = Some m" "\<not> simple m" "\<not> simple n" "node_ok (env_hash e) n"
    "E + mset (children m) = E' + mset (children n)"
  shows "sound e (set_node h a n) E'"
proof -
  have s: "node_at h the_true = Some NTrue" "node_at h the_false = Some NFalse" "node_at h the_null = Some NNull"
    using assms(1) by (auto simp: sound_def heap_ok_def)
  then have "a \<noteq> the_true" "a \<noteq> the_false" "a \<noteq> the_null" using assms(2,3) by (auto simp: simple_def)
  with s have "heap_ok (env_hash e) (set_node h a n)"
    using assms(1,2,5) by (auto simp: sound_def heap_ok_def node_at_set_node)
  with set_node_counted [OF soundD(1) [OF assms(1)] assms(2,3,4,6)] assms(1) show ?thesis by (simp add: sound_def)
qed

lemma json_init_sound:
  assumes "sound e h (E + mset (children n))" "\<not> simple n" "node_ok (env_hash e) n"
  shows "sound e (snd (json_init h n)) (add_mset (length h) E)"
proof -
  have "heap_ok (env_hash e) (snd (json_init h n))"
    using assms(1,3) by (auto simp: sound_def heap_ok_def json_init_def node_at_append the_values dest: node_at_bound)
  with json_init_counted [of h E n] assms show ?thesis by (simp add: sound_def)
qed

text \<open>The number of references in the heap: what bounds the counts.\<close>

lemma refs_mono:
  assumes "counted h E" "counted h' E'" "shrinks h h'"
  shows "refs h' \<subseteq># refs h"
proof -
  have "cell_refs (h' ! i) \<subseteq># cell_refs (h ! i)" if "i < length h" for i
  proof (cases "h' ! i")
    case (Some c)
    with that shrinks_length [OF assms(3)] have d: "deref h' i = Some c" by (simp add: deref_def)
    then have "node_at h i = Some (c_node c)" using shrinks_node [OF assms(3), of i] by (simp add: node_at_deref)
    then obtain c0 where c0: "deref h i = Some c0" "c_node c0 = c_node c" by (auto simp: node_at_deref)
    then show ?thesis using counted_cell [OF assms(1) c0(1)] deref_SomeD [OF c0(1)] Some
      by (simp add: cell_refs_def)
  qed (simp add: cell_refs_def)
  then have "list_all2 (\<subseteq>#) (map cell_refs h') (map cell_refs h)"
    by (simp add: list_all2_conv_all_nth shrinks_length [OF assms(3)])
  moreover have "sum_list ms \<subseteq># sum_list ns" if "list_all2 (\<subseteq>#) ms ns" for ms ns :: "addr multiset list"
    using that by induction (auto intro: subset_mset.add_mono)
  ultimately show ?thesis by (simp add: refs_def)
qed

lemma refs_set_node:
  assumes "counted h E" "node_at h a = Some m"
  shows "refs (set_node h a n) + mset (children m) = refs h + mset (children n)"
proof -
  from assms(2) obtain c where a: "deref h a = Some c" "c_node c = m" by (auto simp: node_at_deref)
  then show ?thesis
    using refs_update [of a h "Some (c\<lparr>c_node := n\<rparr>)"] deref_SomeD [OF a(1)] counted_cell [OF assms(1) a(1)]
    by (simp add: set_node_def cell_refs_def)
qed

text \<open>The references after an edit of the container at \<open>a\<close> that ends with a release.\<close>

lemma load_step:
  assumes "sound e h E0" "node_at h a = Some m" "sound e (set_node h a n) E1" "shrinks (set_node h a n) h'" "sound e h' E"
    "length (children n) \<le> Suc (length (children m))"
  shows "size (refs h') \<le> Suc (size (refs h))"
proof -
  have "size (refs h') \<le> size (refs (set_node h a n))"
    using refs_mono [OF soundD(1) [OF assms(3)] soundD(1) [OF assms(5)] assms(4)] by (rule size_mset_mono)
  moreover have "size (refs (set_node h a n)) + length (children m) = size (refs h) + length (children n)"
    using arg_cong [OF refs_set_node [OF soundD(1) [OF assms(1)] assms(2)], of size] by simp
  ultimately show ?thesis using assms(6) by linarith
qed

lemma load_shrinks:
  assumes "sound e h E0" "shrinks h h'" "sound e h' E"
  shows "size (refs h') \<le> size (refs h)"
  using refs_mono [OF soundD(1) [OF assms(1)] soundD(1) [OF assms(3)] assms(2)] by (rule size_mset_mono)

lemmas not_simple [simp] = simple_def [of "NObject _", simplified] simple_def [of "NArray _", simplified]
  simple_def [of "NString _", simplified] simple_def [of "NInteger _", simplified] simple_def [of "NReal _", simplified]

lemma as_object_node: "node_at h a = Some n \<Longrightarrow>
    as_object h (Some a) = Some (case n of NObject ht \<Rightarrow> Some (a, ht) | _ \<Rightarrow> None)"
  by (simp add: as_object_def)

lemma as_array_node: "node_at h a = Some n \<Longrightarrow>
    as_array h (Some a) = Some (case n of NArray arr \<Rightarrow> Some (a, arr) | _ \<Rightarrow> None)"
  by (simp add: as_array_def)

subsection \<open>Objects\<close>

lemma sound_object: "sound e h E \<Longrightarrow> node_at h a = Some (NObject ht) \<Longrightarrow> ht_inv (env_hash e) ht"
  using heap_okD [of "env_hash e" h a "NObject ht"] by (simp add: sound_def node_ok_def)

lemma sound_array: "sound e h E \<Longrightarrow> node_at h a = Some (NArray arr) \<Longrightarrow> arr_ok arr"
  using heap_okD [of "env_hash e" h a "NArray arr"] by (simp add: sound_def node_ok_def)

lemma set_refs:
  assumes "ht_inv hs ht" "hashtable_set hs mem ht k v = (0, ht', old)"
  shows "add_mset v (mset (hashtable_close ht)) = mset (hashtable_close ht') + mset (case_option [] (\<lambda>v. [v]) old)"
  using hash.set_law [OF assms] vals_obj_set [OF hash.ok_distinct [OF assms(1)], of k v]
  by (auto simp: hashtable_close_entries [OF assms(1)] hashtable_close_entries)

lemma json_object_setn_new_nocheck_sound:
  assumes s: "sound e h (add_mset v E)" and a: "a \<in># E"
  shows "\<exists>r h'. json_object_setn_new_nocheck e h (Some a) (Some k) (Some v) = Some (r, h') \<and> sound e h' E \<and> edits h h' a \<and>
    size (refs h') \<le> Suc (size (refs h)) \<and>
    (case node_at h a of
       Some (NObject ht) \<Rightarrow> (r = 0 \<or> r = -1) \<and> (\<exists>ht'. node_at h' a = Some (NObject ht') \<and>
         entries ht' = (if r = 0 then obj_set k v (entries ht) else entries ht))
     | n \<Rightarrow> r = -1 \<and> node_at h' a = n)"
proof -
  obtain n where n: "node_at h a = Some n" using sound_live [OF s, of a] a by auto
  from refuse_sound [OF s] obtain h1 where h1: "refuse h (Some v) = Some (-1, h1)" "sound e h1 E" "shrinks h h1" by blast
  note k1 = sound_kept [OF h1(3,2) a] and l1 = le_SucI [OF load_shrinks [OF s h1(3,2)]]
  show ?thesis
  proof (cases "\<exists>ht. n = NObject ht")
    case False
    then have "as_object h (Some a) = Some None" by (cases n) (simp_all add: as_object_node [OF n])
    then have "json_object_setn_new_nocheck e h (Some a) (Some k) (Some v) = Some (-1, h1)"
      by (simp add: json_object_setn_new_nocheck_def h1)
    moreover have "node_at h1 a = Some n" by (rule k1 [OF n])
    ultimately show ?thesis using False h1 n shrinks_edits [OF h1(3)] l1 by (cases n) auto
  next
    case True
    then obtain ht where ht: "n = NObject ht" by blast
    with n have n: "node_at h a = Some (NObject ht)" by simp
    note i = sound_object [OF s n]
    obtain r ht' old where set: "hashtable_set (env_hash e) (env_mem e) ht k v = (r, ht', old)" by (metis prod_cases3)
    note law = hash.set_law [OF i set]
    have t: "as_object h (Some a) = Some (Some (a, ht))" by (simp add: as_object_node [OF n])
    have ok: "node_ok (env_hash e) (NObject ht')" using law by (simp add: node_ok_def)
    show ?thesis
    proof (cases "a = v")
      case True
      then have "json_object_setn_new_nocheck e h (Some a) (Some k) (Some v) = Some (-1, h1)"
        using t by (simp add: json_object_setn_new_nocheck_def h1)
      then show ?thesis using h1 n k1 [OF n] shrinks_edits [OF h1(3)] l1 by auto
    next
      case av: False
      let ?h = "set_node h a (NObject ht')"
      have na: "node_at ?h a = Some (NObject ht')" by (simp add: node_at_set_node n)
      show ?thesis
      proof (cases "r = 0")
        case True
        have s1: "sound e ?h (E + mset (case_option [] (\<lambda>v. [v]) old))"
          by (rule set_node_sound [OF s n _ _ ok]) (use set_refs [OF i set [unfolded True]] in \<open>simp_all add: children_def ac_simps\<close>)
        from json_decref_opt_sound [OF this] obtain h' where
          h': "json_decref ?h old = Some h'" "sound e h' E" "shrinks ?h h'" by blast
        have "size (refs h') \<le> Suc (size (refs h))"
          by (rule load_step [OF s n s1 h'(3,2)])
            (use arg_cong [OF set_refs [OF i set [unfolded True]], of size] in \<open>simp add: children_def\<close>)
        moreover have "json_object_setn_new_nocheck e h (Some a) (Some k) (Some v) = Some (0, h')"
          using av True by (simp add: json_object_setn_new_nocheck_def t set h' Let_def)
        ultimately show ?thesis using h' edits_set_node [OF h'(3)] sound_kept [OF h'(3,2) a na] n law True by auto
      next
        case False
        have c: "mset (hashtable_close ht') = mset (hashtable_close ht)"
          using law False i by (simp add: hashtable_close_entries [of "env_hash e"])
        have s1: "sound e ?h (add_mset v E)"
          by (rule set_node_sound [OF s n _ _ ok]) (simp_all add: c children_def)
        from refuse_sound [OF this] obtain h' where
          h': "refuse ?h (Some v) = Some (-1, h')" "sound e h' E" "shrinks ?h h'" by blast
        have "size (refs h') \<le> Suc (size (refs h))"
          by (rule load_step [OF s n s1 h'(3,2)]) (use arg_cong [OF c, of size] in \<open>simp add: children_def\<close>)
        moreover have "json_object_setn_new_nocheck e h (Some a) (Some k) (Some v) = Some (-1, h')"
          using av False by (simp add: json_object_setn_new_nocheck_def t set h' Let_def)
        ultimately show ?thesis using h' edits_set_node [OF h'(3)] sound_kept [OF h'(3,2) a na] n law False by auto
      qed
    qed
  qed
qed


lemma utf8_checked_set:
  "json_object_setn_new e h (Some a) (Some k) (Some v) =
     (if utf8_check_string k (length k) then json_object_setn_new_nocheck e h (Some a) (Some k) (Some v) else refuse h (Some v))"
  by (simp add: json_object_setn_new_def)

text \<open>Lookup after a store, through the client functions.\<close>

lemma json_object_getn_entries:
  assumes "sound e h E" "node_at h a = Some (NObject ht)"
  shows "json_object_getn e h (Some a) (Some k) = Some (map_of (entries ht) k)"
  by (simp add: json_object_getn_def as_object_node [OF assms(2)] hash.get_law [OF sound_object [OF assms]])

lemma json_object_deln_sound:
  assumes s: "sound e h E" and a: "a \<in># E" and n: "node_at h a = Some (NObject ht)"
  shows "\<exists>h' ht'. json_object_deln e h (Some a) (Some k) = Some (if k \<in> fst ` set (entries ht) then 0 else -1, h') \<and>
    sound e h' E \<and> edits h h' a \<and> node_at h' a = Some (NObject ht') \<and> entries ht' = filter (\<lambda>p. fst p \<noteq> k) (entries ht)"
proof -
  note i = sound_object [OF s n]
  obtain r ht' old where del: "hashtable_del (env_hash e) ht k = (r, ht', old)" by (metis prod_cases3)
  note law = hash.del_law [OF i del]
  have t: "as_object h (Some a) = Some (Some (a, ht))" by (simp add: as_object_node [OF n])
  let ?h = "set_node h a (NObject ht')"
  have na: "node_at ?h a = Some (NObject ht')" by (simp add: node_at_set_node n)
  have ok: "node_ok (env_hash e) (NObject ht')" using law by (simp add: node_ok_def)
  have "mset (hashtable_close ht) = mset (hashtable_close ht') + mset (case_option [] (\<lambda>v. [v]) old)"
    using law vals_del [OF hash.ok_distinct [OF i], of k] by (simp add: hashtable_close_entries [OF i] hashtable_close_entries [of "env_hash e"])
  then have "sound e ?h (E + mset (case_option [] (\<lambda>v. [v]) old))"
    by (intro set_node_sound [OF s n _ _ ok]) (simp_all add: children_def ac_simps)
  from json_decref_opt_sound [OF this] obtain h' where
    h': "json_decref ?h old = Some h'" "sound e h' E" "shrinks ?h h'" by blast
  have "r = (if k \<in> fst ` set (entries ht) then 0 else -1)" using law by (simp add: map_of_eq_None_iff)
  then have "json_object_deln e h (Some a) (Some k) = Some (if k \<in> fst ` set (entries ht) then 0 else -1, h')"
    by (simp add: json_object_deln_def t del h' Let_def)
  with h' edits_set_node [OF h'(3)] sound_kept [OF h'(3,2) a na] law show ?thesis by blast
qed

lemma json_object_clear_sound:
  assumes s: "sound e h E" and a: "a \<in># E" and n: "node_at h a = Some (NObject ht)"
  shows "\<exists>h' ht'. json_object_clear h (Some a) = Some (0, h') \<and>
    sound e h' E \<and> edits h h' a \<and> node_at h' a = Some (NObject ht') \<and> entries ht' = []"
proof -
  note i = sound_object [OF s n]
  obtain ht' vs where cl: "hashtable_clear ht = (ht', vs)" by (cases "hashtable_clear ht")
  note law = hashtable_clear_ok [OF i cl]
  have t: "as_object h (Some a) = Some (Some (a, ht))" by (simp add: as_object_node [OF n])
  let ?h = "set_node h a (NObject ht')"
  have na: "node_at ?h a = Some (NObject ht')" by (simp add: node_at_set_node n)
  have ok: "node_ok (env_hash e) (NObject ht')" using law by (simp add: node_ok_def)
  have "vs = hashtable_close ht" using cl by (auto simp: hashtable_clear_def hashtable_close_def)
  moreover have "mset (hashtable_close ht') = {#}" using law by (simp add: hashtable_close_entries [of "env_hash e"])
  ultimately have "sound e ?h (E + mset vs)"
    by (intro set_node_sound [OF s n _ _ ok]) (simp_all add: children_def)
  from release_sound [OF this] obtain h' where
    h': "release ?h (map Decref vs) = Some h'" "sound e h' E" "shrinks ?h h'" by blast
  then have "json_object_clear h (Some a) = Some (0, h')" by (simp add: json_object_clear_def t cl)
  with h' edits_set_node [OF h'(3)] sound_kept [OF h'(3,2) a na] law show ?thesis by blast
qed

subsection \<open>Arrays\<close>

lemma json_array_get_elems:
  assumes "sound e h E" "node_at h a = Some (NArray arr)"
  shows "json_array_get h (Some a) i = Some (if unat i < length (elems arr) then Some (elems arr ! unat i) else None)"
  using sound_array [OF assms] length_elems [OF sound_array [OF assms]]
  by (auto simp: json_array_get_def as_array_node [OF assms(2)] elems_def arr_ok_def word_le_nat_alt)

lemma json_array_append_new_sound:
  assumes s: "sound e h (add_mset v E)" and a: "a \<in># E" and n: "node_at h a = Some (NArray arr)"
  shows "\<exists>r h' arr'. json_array_append_new e h (Some a) (Some v) = Some (r, h') \<and> sound e h' E \<and> edits h h' a \<and>
    size (refs h') \<le> Suc (size (refs h)) \<and> (r = 0 \<or> r = -1) \<and> node_at h' a = Some (NArray arr') \<and> elems arr' = (if r = 0 then elems arr @ [v] else elems arr)"
proof -
  from refuse_sound [OF s] obtain h1 where h1: "refuse h (Some v) = Some (-1, h1)" "sound e h1 E" "shrinks h h1" by blast
  note k1 = sound_kept [OF h1(3,2) a n]
  have t: "as_array h (Some a) = Some (Some (a, arr))" by (simp add: as_array_node [OF n])
  from table_append_ok [OF sound_array [OF s n] soundD(3) [OF s] refl, of v]
  consider (refused) "a = v \<or> table_append (env_mem e) arr v = Some None"
    | (stored) arr' where "a \<noteq> v" "table_append (env_mem e) arr v = Some (Some arr')" "arr_ok arr'" "elems arr' = elems arr @ [v]"
    by blast
  then show ?thesis
  proof cases
    case refused
    then have "json_array_append_new e h (Some a) (Some v) = Some (-1, h1)"
      using t h1 by (auto simp: json_array_append_new_def)
    with h1 k1 shrinks_edits [OF h1(3)] le_SucI [OF load_shrinks [OF s h1(3,2)]] show ?thesis by auto
  next
    case stored
    let ?h = "set_node h a (NArray arr')"
    have s1: "sound e ?h E"
      by (rule set_node_sound [OF s n]) (use stored in \<open>simp_all add: node_ok_def children_def\<close>)
    have "size (refs ?h) \<le> Suc (size (refs h))"
      by (rule load_step [OF s n s1 shrinks_refl s1]) (simp add: children_def stored)
    moreover have "json_array_append_new e h (Some a) (Some v) = Some (0, ?h)"
      using stored by (simp add: json_array_append_new_def t)
    moreover have "node_at ?h a = Some (NArray arr')" by (simp add: node_at_set_node n)
    ultimately show ?thesis using s1 stored edits_set_node [OF shrinks_refl, of h a "NArray arr'"] by auto
  qed
qed

lemma json_array_insert_new_sound:
  assumes s: "sound e h (add_mset v E)" and a: "a \<in># E" and n: "node_at h a = Some (NArray arr)"
  shows "\<exists>r h' arr'. json_array_insert_new e h (Some a) index (Some v) = Some (r, h') \<and> sound e h' E \<and> edits h h' a \<and>
    (r = 0 \<or> r = -1) \<and> (unat index > length (elems arr) \<longrightarrow> r = -1) \<and> node_at h' a = Some (NArray arr') \<and>
    elems arr' = (if r = 0 then take (unat index) (elems arr) @ v # drop (unat index) (elems arr) else elems arr)"
proof -
  from refuse_sound [OF s] obtain h1 where h1: "refuse h (Some v) = Some (-1, h1)" "sound e h1 E" "shrinks h h1" by blast
  note k1 = sound_kept [OF h1(3,2) a n]
  have t: "as_array h (Some a) = Some (Some (a, arr))" by (simp add: as_array_node [OF n])
  have l: "unat index > length (elems arr) \<longleftrightarrow> index > a_entries arr"
    by (simp add: length_elems [OF sound_array [OF s n]] word_less_nat_alt)
  from table_insert_ok [OF sound_array [OF s n] soundD(3) [OF s] _ refl, of index v]
  consider (refused) "a = v \<or> index > a_entries arr \<or> table_insert (env_mem e) arr index v = Some None"
    | (stored) arr' where "a \<noteq> v" "index \<le> a_entries arr" "table_insert (env_mem e) arr index v = Some (Some arr')"
        "arr_ok arr'" "elems arr' = take (unat index) (elems arr) @ v # drop (unat index) (elems arr)"
    by (meson linorder_not_le)
  then show ?thesis
  proof cases
    case refused
    then have "json_array_insert_new e h (Some a) index (Some v) = Some (-1, h1)"
      using t h1 by (auto simp: json_array_insert_new_def)
    with h1 k1 shrinks_edits [OF h1(3)] show ?thesis by auto
  next
    case stored
    let ?h = "set_node h a (NArray arr')"
    have "mset (elems arr') = add_mset v (mset (elems arr))"
      using stored(5) by (metis append_take_drop_id mset.simps(2) mset_append union_mset_add_mset_right)
    then have "sound e ?h E"
      by (intro set_node_sound [OF s n]) (use stored in \<open>simp_all add: node_ok_def children_def\<close>)
    moreover have "json_array_insert_new e h (Some a) index (Some v) = Some (0, ?h)"
      using stored by (auto simp: json_array_insert_new_def t)
    moreover have "node_at ?h a = Some (NArray arr')" by (simp add: node_at_set_node n)
    moreover have "\<not> unat index > length (elems arr)" using stored(2) l by simp
    ultimately show ?thesis using stored edits_set_node [OF shrinks_refl, of h a "NArray arr'"] by auto
  qed
qed

text \<open>\<open>json_array_set_new\<close> and \<open>json_array_remove\<close> share this step: a new table, one element released.\<close>

lemma array_release_step:
  assumes s: "sound e h E0" and a: "a \<in># E" and n: "node_at h a = Some (NArray arr)" and "arr_ok arr'"
    and refs: "E0 + mset (elems arr) = add_mset old E + mset (elems arr')"
  shows "\<exists>h'. json_decref (set_node h a (NArray arr')) (Some old) = Some h' \<and> sound e h' E \<and> edits h h' a \<and>
    node_at h' a = Some (NArray arr')"
proof -
  let ?h = "set_node h a (NArray arr')"
  have "sound e ?h (add_mset old E)"
    by (rule set_node_sound [OF s n]) (use assms(4) refs in \<open>simp_all add: node_ok_def children_def\<close>)
  from json_decref_sound [OF this] obtain h' where
    h': "json_decref ?h (Some old) = Some h'" "sound e h' E" "shrinks ?h h'" by blast
  have "node_at ?h a = Some (NArray arr')" by (simp add: node_at_set_node n)
  with h' edits_set_node [OF h'(3)] sound_kept [OF h'(3,2) a] show ?thesis by blast
qed

lemma json_array_set_new_sound:
  assumes s: "sound e h (add_mset v E)" and a: "a \<in># E" and n: "node_at h a = Some (NArray arr)"
  shows "\<exists>r h' arr'. json_array_set_new h (Some a) index (Some v) = Some (r, h') \<and> sound e h' E \<and> edits h h' a \<and>
    r = (if a \<noteq> v \<and> unat index < length (elems arr) then 0 else -1) \<and> node_at h' a = Some (NArray arr') \<and>
    elems arr' = (if r = 0 then (elems arr)[unat index := v] else elems arr)"
proof -
  from refuse_sound [OF s] obtain h1 where h1: "refuse h (Some v) = Some (-1, h1)" "sound e h1 E" "shrinks h h1" by blast
  note k1 = sound_kept [OF h1(3,2) a n] and ok = sound_array [OF s n]
  have t: "as_array h (Some a) = Some (Some (a, arr))" by (simp add: as_array_node [OF n])
  have l: "index \<ge> a_entries arr \<longleftrightarrow> \<not> unat index < length (elems arr)"
    by (simp add: length_elems [OF ok] word_le_nat_alt not_less)
  show ?thesis
  proof (cases "a \<noteq> v \<and> unat index < length (elems arr)")
    case False
    then have "json_array_set_new h (Some a) index (Some v) = Some (-1, h1)"
      using t h1 l by (auto simp: json_array_set_new_def)
    with h1 k1 shrinks_edits [OF h1(3)] False show ?thesis by auto
  next
    case True
    then have i: "unat index < length (elems arr)" by simp
    then have it: "unat index < length (a_table arr)" by (simp add: elems_def)
    let ?arr = "arr\<lparr>a_table := (a_table arr)[unat index := v]\<rparr>"
    have e: "elems ?arr = (elems arr)[unat index := v]" using i by (simp add: elems_def take_update_swap)
    have o: "a_table arr ! unat index = elems arr ! unat index" using i by (simp add: elems_def)
    have "add_mset v (mset (elems arr)) = add_mset (elems arr ! unat index) (mset (elems ?arr))"
      unfolding e using i by (simp add: mset_update)
    then have "add_mset v E + mset (elems arr) = add_mset (a_table arr ! unat index) E + mset (elems ?arr)"
      by (simp add: o)
    from array_release_step [OF s a n _ this] obtain h' where
      h': "json_decref (set_node h a (NArray ?arr)) (Some (a_table arr ! unat index)) = Some h'" "sound e h' E" "edits h h' a"
        "node_at h' a = Some (NArray ?arr)" using ok by (auto simp: arr_ok_def)
    then have "json_array_set_new h (Some a) index (Some v) = Some (0, h')"
      using True l it by (auto simp: json_array_set_new_def t table_put_def)
    with h' e True show ?thesis by auto
  qed
qed

lemma json_array_remove_sound:
  assumes s: "sound e h E" and a: "a \<in># E" and n: "node_at h a = Some (NArray arr)"
  shows "\<exists>r h' arr'. json_array_remove h (Some a) index = Some (r, h') \<and> sound e h' E \<and> edits h h' a \<and>
    r = (if unat index < length (elems arr) then 0 else -1) \<and> node_at h' a = Some (NArray arr') \<and>
    elems arr' = (if r = 0 then take (unat index) (elems arr) @ drop (unat index + 1) (elems arr) else elems arr)"
proof -
  note ok = sound_array [OF s n]
  have t: "as_array h (Some a) = Some (Some (a, arr))" by (simp add: as_array_node [OF n])
  have l: "index \<ge> a_entries arr \<longleftrightarrow> \<not> unat index < length (elems arr)"
    by (simp add: length_elems [OF ok] word_le_nat_alt not_less)
  show ?thesis
  proof (cases "unat index < length (elems arr)")
    case False
    then have "json_array_remove h (Some a) index = Some (-1, h)" using l by (simp add: json_array_remove_def t)
    with s n False show ?thesis by (auto simp: edits_def)
  next
    case i: True
    then have "index < a_entries arr" using l by simp
    from table_remove_ok [OF ok this] obtain arr' where
      r: "table_remove arr index = Some arr'" "arr_ok arr'"
        "elems arr' = take (unat index) (elems arr) @ drop (unat index + 1) (elems arr)" by blast
    have o: "a_table arr ! unat index = elems arr ! unat index" using i by (simp add: elems_def)
    have "elems arr = take (unat index) (elems arr) @ elems arr ! unat index # drop (Suc (unat index)) (elems arr)"
      using id_take_nth_drop [OF i] .
    then have "mset (elems arr) = add_mset (elems arr ! unat index) (mset (elems arr'))"
      unfolding r(3) by (metis Suc_eq_plus1 mset.simps(2) mset_append union_mset_add_mset_right)
    then have "E + mset (elems arr) = add_mset (a_table arr ! unat index) E + mset (elems arr')" by (simp add: o)
    from array_release_step [OF s a n r(2) this] obtain h' where
      "json_decref (set_node h a (NArray arr')) (Some (a_table arr ! unat index)) = Some h'" "sound e h' E" "edits h h' a"
        "node_at h' a = Some (NArray arr')" by blast
    moreover from this have "json_array_remove h (Some a) index = Some (0, h')"
      using i l r(1) by (simp add: json_array_remove_def t)
    ultimately show ?thesis using r(3) i by auto
  qed
qed

lemma json_array_clear_sound:
  assumes s: "sound e h E" and a: "a \<in># E" and n: "node_at h a = Some (NArray arr)"
  shows "\<exists>h' arr'. json_array_clear h (Some a) = Some (0, h') \<and> sound e h' E \<and> edits h h' a \<and>
    node_at h' a = Some (NArray arr') \<and> elems arr' = []"
proof -
  let ?arr = "arr\<lparr>a_entries := 0\<rparr>" and ?vs = "elems arr"
  let ?h = "set_node h a (NArray ?arr)"
  have t: "as_array h (Some a) = Some (Some (a, arr))" by (simp add: as_array_node [OF n])
  have "sound e ?h (E + mset ?vs)"
    by (rule set_node_sound [OF s n]) (use sound_array [OF s n] in \<open>simp_all add: node_ok_def arr_ok_def children_def elems_def [of ?arr]\<close>)
  from release_sound [OF this] obtain h' where
    h': "release ?h (map Decref ?vs) = Some h'" "sound e h' E" "shrinks ?h h'" by blast
  have na: "node_at ?h a = Some (NArray ?arr)" by (simp add: node_at_set_node n)
  have "json_array_clear h (Some a) = Some (0, h')" using h' by (simp add: json_array_clear_def t)
  with h' edits_set_node [OF h'(3)] sound_kept [OF h'(3,2) a na] show ?thesis by (auto simp: elems_def)
qed


subsection \<open>Extending and updating\<close>

lemma incref_all_sound:
  assumes "sound e h E" "\<forall>v\<in>set vs. node_at h v \<noteq> None" "size (refs h + E) + length vs + 2 < 2 ^ 64"
  shows "\<exists>h'. incref_all h vs = Some h' \<and> sound e h' (E + mset vs) \<and> length h' = length h \<and>
    (\<forall>b. node_at h' b = node_at h b) \<and> refs h' = refs h"
  using assms
proof (induction vs arbitrary: h E)
  case (Cons v vs)
  then obtain n where "node_at h v = Some n" by auto
  from json_incref_sound [OF Cons.prems(1) this] Cons.prems(3) obtain h1 where
    h1: "json_incref h (Some v) = Some h1" "sound e h1 (add_mset v E)" "length h1 = length h"
      "\<forall>b. node_at h1 b = node_at h b" "refs h1 = refs h" by auto
  have "size (refs h1 + add_mset v E) + length vs + 2 < 2 ^ 64" using Cons.prems(3) h1(5) by simp
  with Cons.IH [OF h1(2)] Cons.prems(2) h1(4) obtain h' where
    "incref_all h1 vs = Some h'" "sound e h' (add_mset v E + mset vs)" "length h' = length h1"
      "\<forall>b. node_at h' b = node_at h1 b" "refs h' = refs h1" by auto
  with h1 show ?case by auto
qed simp

lemma array_children_live:
  assumes "sound e h E" "node_at h a = Some n" "v \<in> set (children n)"
  shows "\<exists>m. node_at h v = Some m"
proof -
  from assms(2) obtain c where "deref h a = Some c" "c_node c = n" by (auto simp: node_at_deref)
  with assms(3) have "v \<in># refs h" using counted_child [OF soundD(1) [OF assms(1)]] by blast
  then show ?thesis using counted_live [OF soundD(1) [OF assms(1)], of v] by (auto simp: node_at_deref)
qed

lemma json_array_extend_sound:
  assumes s: "sound e h E" and n: "node_at h a = Some (NArray arr)" and m: "node_at h b = Some (NArray other)"
    and bound: "size (refs h + E) + length (elems other) + 2 < 2 ^ 64"
  shows "\<exists>r h' arr'. json_array_extend e h (Some a) (Some b) = Some (r, h') \<and> sound e h' E \<and> edits h h' a \<and>
    (r = 0 \<or> r = -1) \<and> node_at h' a = Some (NArray arr') \<and>
    elems arr' = (if r = 0 then elems arr @ elems other else elems arr)"
proof -
  have t: "as_array h (Some a) = Some (Some (a, arr))" "as_array h (Some b) = Some (Some (b, other))"
    by (simp_all add: as_array_node [OF n] as_array_node [OF m])
  note ok = sound_array [OF s n] sound_array [OF s m]
  have small: "unat (a_entries other) < 2 ^ 60" using ok(2) by (auto simp: arr_ok_def word_le_nat_alt)
  show ?thesis
  proof (cases rule: json_array_grow_cases [OF ok(1) soundD(3) [OF s] small, of True, case_names null grown])
    case null
    then have "json_array_extend e h (Some a) (Some b) = Some (-1, h)" by (simp add: json_array_extend_def t)
    with s n show ?thesis by (auto simp: edits_def)
  next
    case g: (grown tab d arr1)
    have el: "elems arr1 = elems arr" using g(7,8) by (cases d) auto
    have ok1: "arr_ok arr1" using g by (simp add: arr_ok_def word_le_nat_alt)
    let ?h1 = "set_node h a (NArray arr1)" and ?o = "if b = a then arr1 else other"
    have s1: "sound e ?h1 E"
      by (rule set_node_sound [OF s n]) (use ok1 el in \<open>simp_all add: node_ok_def children_def\<close>)
    have oe: "elems ?o = elems other" "a_entries ?o = a_entries other" "unat (a_entries ?o) \<le> length (a_table ?o)"
      using el n m g(2) ok1 ok(2) by (auto simp: arr_ok_def word_le_nat_alt)
    have r1: "refs ?h1 = refs h"
      using refs_set_node [OF soundD(1) [OF s] n, of "NArray arr1"] el by (simp add: children_def)
    have "\<forall>v\<in>set (elems ?o). node_at ?h1 v \<noteq> None"
      using array_children_live [OF s m] oe(1) n by (auto simp: children_def node_at_set_node)
    from incref_all_sound [OF s1 this] bound r1 oe(1) obtain h2 where
      h2: "incref_all ?h1 (elems ?o) = Some h2" "sound e h2 (E + mset (elems ?o))" "length h2 = length ?h1"
        "\<forall>b. node_at h2 b = node_at ?h1 b" by auto
    have na: "node_at h2 a = Some (NArray arr1)" using h2(4) n by (simp add: node_at_set_node)
    obtain arr2 where x: "table_extend arr1 (a_table ?o) (a_entries ?o) = Some arr2" "arr_ok arr2"
        "elems arr2 = elems arr1 @ elems ?o"
      using table_extend_ok [of arr1 "a_entries ?o" "a_table ?o"] g oe(2,3) by (auto simp: elems_def [of ?o])
    have "sound e (set_node h2 a (NArray arr2)) E"
      by (rule set_node_sound [OF h2(2) na]) (use x in \<open>simp_all add: node_ok_def children_def ac_simps\<close>)
    moreover have "json_array_extend e h (Some a) (Some b) = Some (0, set_node h2 a (NArray arr2))"
      using g(1) h2(1) x(1) by (simp add: json_array_extend_def t Let_def)
    moreover have "edits h (set_node h2 a (NArray arr2)) a"
      using h2(3,4) by (auto simp: edits_def node_at_set_node split: if_splits)
    moreover have "node_at (set_node h2 a (NArray arr2)) a = Some (NArray arr2)" by (simp add: node_at_set_node na)
    ultimately show ?thesis using x(3) el oe(1) by auto
  qed
qed

end
