(* ===== verification/DeepCopy.thy ===== *)
theory DeepCopy
  imports ValueThms
begin

text \<open>
  \<open>json_deep_copy\<close>: whatever allocation fails, nothing leaks and nothing is touched; when it
  succeeds the copy is the same tree, made of new values only (apart from the shared \<open>true\<close>,
  \<open>false\<close> and \<open>null\<close>), and a circular structure is refused.
\<close>

subsection \<open>Reachable values\<close>

inductive reach :: "'r heap \<Rightarrow> addr \<Rightarrow> addr \<Rightarrow> bool" for h a0 where
  root: "reach h a0 a0"
| child: "reach h a0 a \<Longrightarrow> node_at h a = Some n \<Longrightarrow> b \<in> set (children n) \<Longrightarrow> reach h a0 b"

text \<open>The values below address \<open>k\<close> are kept, as far as they are still referenced.\<close>

definition keeps :: "nat \<Rightarrow> 'r heap \<Rightarrow> 'r heap \<Rightarrow> bool" where
  "keeps k h h' \<longleftrightarrow> length h \<le> length h' \<and> (\<forall>b n. b < k \<longrightarrow> node_at h' b = Some n \<longrightarrow> node_at h b = Some n)"

lemma keeps_node: "keeps k h h' \<Longrightarrow> b < k \<Longrightarrow> node_at h' b = Some n \<Longrightarrow> node_at h b = Some n"
  unfolding keeps_def by blast

lemma keeps_refl [simp]: "keeps k h h"
  by (simp add: keeps_def)

lemma keeps_trans: "keeps k h h1 \<Longrightarrow> keeps l h1 h2 \<Longrightarrow> k \<le> l \<Longrightarrow> keeps k h h2"
  unfolding keeps_def by (metis le_trans less_le_trans)

lemma keeps_le: "keeps l h h' \<Longrightarrow> k \<le> l \<Longrightarrow> keeps k h h'"
  unfolding keeps_def by (metis less_le_trans)

lemma keeps_shrinks: "shrinks h h' \<Longrightarrow> keeps k h h'"
  by (simp add: keeps_def shrinks_length shrinks_node)

lemma keeps_edits: "edits h h' a \<Longrightarrow> k \<le> a \<Longrightarrow> keeps k h h'"
  by (simp add: keeps_def edits_def)

lemma keeps_init: "keeps (length h) h (snd (json_init h n))"
  by (auto simp: keeps_def json_init_def node_at_append)

lemma reach_kept:
  assumes "reach h a0 a" "sound e h E" "a0 \<in># E" "keeps (length h) h h'" "sound e h' E'" "a0 \<in># E'"
  shows "\<exists>n. node_at h a = Some n \<and> node_at h' a = Some n \<and> reach h' a0 a"
  using assms(1)
proof (induction rule: reach.induct)
  case root
  obtain n n' where n: "node_at h a0 = Some n" "node_at h' a0 = Some n'"
    using sound_live [OF assms(2,3)] sound_live [OF assms(5,6)] by blast
  with keeps_node [OF assms(4) node_at_bound [OF n(1)] n(2)] show ?case by (auto intro: reach.root)
next
  case (child a n b)
  then have n: "node_at h a = Some n" "node_at h' a = Some n" "reach h' a0 a" by auto
  obtain m m' where m: "node_at h b = Some m" "node_at h' b = Some m'"
    using array_children_live [OF assms(2) n(1) child(3)] array_children_live [OF assms(5) n(2) child(3)] by blast
  with keeps_node [OF assms(4) node_at_bound [OF m(1)] m(2)] reach.child [OF n(3,2) child(3)] show ?case by auto
qed

subsection \<open>Copies\<close>

definition node_rel :: "(addr \<Rightarrow> 'r json \<Rightarrow> bool) \<Rightarrow> 'r node \<Rightarrow> 'r json \<Rightarrow> bool" where
  "node_rel R m j =
     (case m of
        NObject ht \<Rightarrow> \<exists>qs. j = JObject qs \<and> list_all2 (\<lambda>p q. fst p = fst q \<and> R (snd p) (snd q)) (entries ht) qs
      | NArray arr \<Rightarrow> \<exists>js. j = JArray js \<and> list_all2 R (elems arr) js
      | NString s \<Rightarrow> j = JString s
      | NInteger i \<Rightarrow> j = JInteger i
      | NReal r \<Rightarrow> j = JReal r
      | NTrue \<Rightarrow> j = JTrue
      | NFalse \<Rightarrow> j = JFalse
      | NNull \<Rightarrow> j = JNull)"

lemma node_rel_strong:
  assumes "node_rel R m j" "\<And>a i. (\<exists>hs. node_ok hs m) \<Longrightarrow> a \<in> set (children m) \<Longrightarrow> R a i \<Longrightarrow> S a i" "node_ok hs m"
  shows "node_rel S m j"
proof (cases m)
  case (NObject ht)
  with assms(3) have c: "set (children m) = snd ` set (entries ht)" by (simp add: node_ok_def children_object_set)
  from assms(1) NObject obtain qs where qs: "j = JObject qs"
      "list_all2 (\<lambda>p q. fst p = fst q \<and> R (snd p) (snd q)) (entries ht) qs" by (auto simp: node_rel_def)
  have "list_all2 (\<lambda>p q. fst p = fst q \<and> S (snd p) (snd q)) (entries ht) qs"
    by (rule list.rel_mono_strong [OF qs(2)]) (use assms(2,3) c in auto)
  with qs NObject show ?thesis by (simp add: node_rel_def)
next
  case (NArray arr)
  from assms(1) NArray obtain js where js: "j = JArray js" "list_all2 R (elems arr) js" by (auto simp: node_rel_def)
  have "list_all2 S (elems arr) js"
    by (rule list.rel_mono_strong [OF js(2)]) (use assms(2,3) NArray in \<open>auto simp: children_def\<close>)
  with js NArray show ?thesis by (simp add: node_rel_def)
qed (use assms(1) in \<open>simp_all add: node_rel_def\<close>)

lemma node_rel_mono [mono]: "R \<le> S \<Longrightarrow> node_rel R m j \<longrightarrow> node_rel S m j"
proof
  assume le: "R \<le> S" and r: "node_rel R m j"
  have "list_all2 R xs ys \<Longrightarrow> list_all2 S xs ys" for xs ys
    by (erule list_all2_mono) (use le in auto)
  moreover have "list_all2 (\<lambda>p q. fst p = fst q \<and> R (snd p) (snd q)) xs ys \<Longrightarrow>
      list_all2 (\<lambda>p q. fst p = fst q \<and> S (snd p) (snd q)) xs ys" for xs ys
    by (erule list_all2_mono) (use le in auto)
  ultimately show "node_rel S m j" using r by (auto simp: node_rel_def split: node.splits)
qed

lemma repr_node_rel: "repr h a j \<longleftrightarrow> (\<exists>m. node_at h a = Some m \<and> node_rel (repr h) m j)"
proof
  assume "repr h a j"
  then show "\<exists>m. node_at h a = Some m \<and> node_rel (repr h) m j"
    by (cases "node_at h a") (use repr_node [of h a j] in \<open>auto simp: node_rel_def split: node.splits\<close>)
next
  assume "\<exists>m. node_at h a = Some m \<and> node_rel (repr h) m j"
  then obtain m where "node_at h a = Some m" "node_rel (repr h) m j" by blast
  then show "repr h a j"
    by (cases m) (auto simp: node_rel_def repr_JArray repr_JObject)
qed

text \<open>The tree \<open>j\<close> at \<open>a\<close>, made of values at addresses from \<open>k\<close> on and of simple values.\<close>

inductive copy_of :: "nat \<Rightarrow> 'r heap \<Rightarrow> addr \<Rightarrow> 'r json \<Rightarrow> bool" for k h where
  copyI: "node_at h a = Some m \<Longrightarrow> k \<le> a \<or> simple m \<Longrightarrow> node_rel (copy_of k h) m j \<Longrightarrow> copy_of k h a j"

lemma copy_of_repr: "copy_of k h a j \<Longrightarrow> repr h a j"
proof (induction rule: copy_of.induct)
  case (copyI a m j)
  have "node_rel (repr h) m j" by (rule node_rel_mono [THEN mp, OF _ copyI(3)]) auto
  with copyI(1) show ?case by (subst repr_node_rel) auto
qed

lemma copy_of_frame:
  assumes "copy_of k h a j" "l \<le> k"
    "\<And>b m. node_at h b = Some m \<Longrightarrow> k \<le> b \<or> simple m \<Longrightarrow> node_at h' b = Some m"
  shows "copy_of l h' a j"
  using assms(1)
proof (induction rule: copy_of.induct)
  case (copyI a m j)
  have "node_rel (copy_of l h') m j" by (rule node_rel_mono [THEN mp, OF _ copyI(3)]) auto
  moreover have "node_at h' a = Some m" "l \<le> a \<or> simple m" using assms(2,3) copyI by auto
  ultimately show ?case by (auto intro: copy_of.copyI)
qed

lemma copy_of_kept:
  assumes "copy_of k h a j" "sound e h E" "sound e h' E'" "node_at h' a \<noteq> None"
    "\<And>b m. node_at h b = Some m \<Longrightarrow> k \<le> b \<or> simple m \<Longrightarrow> node_at h' b \<noteq> None \<Longrightarrow> node_at h' b = Some m"
  shows "copy_of k h' a j"
  using assms(1,4)
proof (induction rule: copy_of.induct)
  case (copyI a m j)
  have n: "node_at h' a = Some m" by (rule assms(5) [OF copyI(1,2,4)])
  have "node_rel (copy_of k h') m j"
  proof (rule node_rel_strong [OF copyI(3)])
    fix b i assume "b \<in> set (children m)" "copy_of k h b i \<and> (node_at h' b \<noteq> None \<longrightarrow> copy_of k h' b i)"
    with array_children_live [OF assms(3) n] show "copy_of k h' b i" by auto
  qed (use assms(2) copyI(1) in \<open>auto simp: sound_def dest: heap_okD\<close>)
  with n copyI(2) show ?case by (auto intro: copy_of.copyI)
qed

lemma copy_of_keeps:
  assumes "copy_of k h a j" "sound e h E" "sound e h' E'" "node_at h' a \<noteq> None" "keeps (length h) h h'"
  shows "copy_of k h' a j"
proof (rule copy_of_kept [OF assms(1-4)])
  fix b m assume b: "node_at h b = Some m" "node_at h' b \<noteq> None"
  then obtain m' where "node_at h' b = Some m'" by blast
  with keeps_node [OF assms(5) node_at_bound [OF b(1)]] b(1) show "node_at h' b = Some m" by simp
qed

lemma copy_of_edits:
  assumes "copy_of (Suc c) h a j" "sound e h E" "sound e h' E'" "node_at h' a \<noteq> None" "edits h h' c"
    "node_at h c = Some m" "\<not> simple m"
  shows "copy_of (Suc c) h' a j"
proof (rule copy_of_kept [OF assms(1-4)])
  fix b n assume b: "node_at h b = Some n" "Suc c \<le> b \<or> simple n" "node_at h' b \<noteq> None"
  then obtain n' where "node_at h' b = Some n'" by blast
  moreover have "b \<noteq> c" using b assms(6,7) by auto
  ultimately show "node_at h' b = Some n" using assms(5) b(1) by (auto simp: edits_def)
qed

lemma sound_add_simple:
  assumes "sound e h E" "node_at h a = Some m" "simple m"
  shows "sound e h (add_mset a E)"
proof -
  have "counted h (add_mset a E)"
  proof (rule countedI)
    fix b c assume b: "deref h b = Some c"
    then show "refcount c \<noteq> 0 \<and> (if simple (c_node c) then refcount c = -1
        else refcount c \<noteq> -1 \<and> unat (refcount c) = count (refs h + add_mset a E) b)"
      using counted_cell [OF soundD(1) [OF assms(1)] b] assms(2,3) by (auto simp: node_at_deref split: if_splits)
  qed (use counted_live [OF soundD(1) [OF assms(1)]] assms(2) in \<open>auto simp: node_at_deref\<close>)
  with assms(1) show ?thesis by (simp add: sound_def)
qed


subsection \<open>The copy\<close>

abbreviation opt :: "ptr \<Rightarrow> addr multiset" where
  "opt p \<equiv> mset (case_option [] (\<lambda>x. [x]) p)"

lemma json_object_cases:
  assumes "sound e h E"
  obtains "json_object e h = (None, h)"
    | ht where "json_object e h = (Some (length h), snd (json_init h (NObject ht)))" "ht_inv (env_hash e) ht" "entries ht = []"
      "sound e (snd (json_init h (NObject ht))) (add_mset (length h) E)"
proof (cases "alloc_ok (env_mem e) 72 \<and> hashtable_init (env_mem e) \<noteq> (None :: addr hashtable option)")
  case True
  then obtain ht :: "addr hashtable" where ht: "hashtable_init (env_mem e) = Some ht" by auto
  note i = hashtable_init_ok [OF ht, of "env_hash e"]
  then have "mset (hashtable_close ht) = {#}" using hashtable_close_entries [of "env_hash e" ht] by simp
  then have "sound e (snd (json_init h (NObject ht))) (add_mset (length h) E)"
    using assms i by (intro json_init_sound) (simp_all add: children_def node_ok_def)
  with i True ht show ?thesis by (intro that(2) [of ht]) (simp_all add: json_object_def json_init_def)
qed (auto intro: that(1) simp: json_object_def)

lemma json_array_cases:
  assumes "sound e h E"
  obtains "json_array e h = (None, h)"
    | arr where "json_array e h = (Some (length h), snd (json_init h (NArray arr)))" "elems arr = []"
      "sound e (snd (json_init h (NArray arr))) (add_mset (length h) E)"
proof (cases "alloc_ok (env_mem e) 40 \<and> alloc_ok (env_mem e) (8 * 8)")
  case True
  let ?arr = "\<lparr>a_size = 8, a_entries = 0, a_table = replicate 8 0\<rparr>"
  have "sound e (snd (json_init h (NArray ?arr))) (add_mset (length h) E)"
    using assms by (intro json_init_sound) (simp_all add: children_def node_ok_def arr_ok_def elems_def)
  with True show ?thesis by (intro that(2) [of ?arr]) (simp_all add: json_array_def json_init_def elems_def)
qed (auto intro: that(1) simp: json_array_def)

text \<open>A leaf that is allocated anew.\<close>

definition leaf_result :: "('r, 'z) jenv_scheme \<Rightarrow> 'r heap \<Rightarrow> 'r node \<Rightarrow> ptr \<times> 'r heap \<Rightarrow> bool" where
  "leaf_result e h n p \<longleftrightarrow> p = (None, h) \<or> p = (Some (length h), snd (json_init h n))"

lemma leaf_results:
  "leaf_result e h (NString s) (json_string_copy e h s)"
  "leaf_result e h (NInteger i) (json_integer e h i)"
  "leaf_result e h (NReal r) (json_real e h r)"
  by (simp_all add: leaf_result_def json_string_copy_def json_stringn_nocheck_def string_create_def json_integer_def
      json_real_def json_init_def)

definition copied :: "('r, 'z) jenv_scheme \<Rightarrow> 'r heap \<Rightarrow> addr \<Rightarrow> 'r heap \<Rightarrow> addr multiset \<Rightarrow> ptr \<times> 'r heap \<Rightarrow> bool" where
  "copied e h0 a h E p \<longleftrightarrow> (case p of (r, h') \<Rightarrow> keeps (length h) h h' \<and> sound e h' (E + opt r) \<and>
     (\<forall>b. r = Some b \<longrightarrow> (\<exists>j. repr h0 a j \<and> copy_of (length h) h' b j)))"

lemma copied_leaf:
  assumes "sound e h E" "leaf_result e h n p" "node_at h0 a = Some n"
    "n = NString s \<and> j = JString s \<or> n = NInteger i \<and> j = JInteger i \<or> n = NReal r \<and> j = JReal r"
  shows "copied e h0 a h E p"
proof -
  let ?h = "snd (json_init h n)"
  have n: "children n = []" "\<not> simple n" "node_ok (env_hash e) n" "node_rel R n j" for R
    using assms(4) by (auto simp: children_def node_ok_def node_rel_def)
  have "sound e ?h (add_mset (length h) E)" using assms(1) n by (intro json_init_sound) simp_all
  moreover have "repr h0 a j" using assms(3) n(4) by (subst repr_node_rel) auto
  moreover have "copy_of (length h) ?h (length h) j"
    using n(4) by (intro copy_of.copyI [of _ _ n]) (simp_all add: json_init_def node_at_append)
  ultimately show ?thesis using assms(1,2) keeps_init [of h n] by (auto simp: copied_def leaf_result_def)
qed

lemma copied_simple:
  assumes "sound e h E" "node_at h0 a = Some m" "node_at h a = Some m" "simple m"
  shows "copied e h0 a h E (Some a, h)"
proof -
  obtain j where j: "node_rel R m j" for R
    using assms(4) by (cases m) (auto simp: simple_def node_rel_def)
  then have "repr h0 a j" "copy_of (length h) h a j"
    using assms(2-4) by (subst repr_node_rel, auto intro: copy_of.copyI)
  with sound_add_simple [OF assms(1,3,4)] show ?thesis by (auto simp: copied_def)
qed

text \<open>The state in the loops: the result at \<open>c\<close> holds copies of the elements done.\<close>

definition array_so_far :: "'r heap \<Rightarrow> addr \<Rightarrow> 'r json list \<Rightarrow> bool" where
  "array_so_far h c js \<longleftrightarrow> (\<exists>arr. node_at h c = Some (NArray arr) \<and> list_all2 (copy_of (Suc c) h) (elems arr) js)"

definition object_so_far :: "'r heap \<Rightarrow> addr \<Rightarrow> (bytes \<times> 'r json) list \<Rightarrow> bool" where
  "object_so_far h c qs \<longleftrightarrow> (\<exists>ht. node_at h c = Some (NObject ht) \<and>
     list_all2 (\<lambda>p q. fst p = fst q \<and> copy_of (Suc c) h (snd p) (snd q)) (entries ht) qs)"

lemma copy_of_below: "copy_of (Suc c) h a j \<Longrightarrow> copy_of c h a j"
  by (erule copy_of_frame) simp_all

lemma array_finished:
  assumes "array_so_far h c js"
  shows "copy_of c h c (JArray js)"
proof -
  from assms obtain arr where a: "node_at h c = Some (NArray arr)" "list_all2 (copy_of (Suc c) h) (elems arr) js"
    by (auto simp: array_so_far_def)
  have "list_all2 (copy_of c h) (elems arr) js" using a(2) by (rule list_all2_mono) (rule copy_of_below)
  with a(1) show ?thesis by (auto intro: copy_of.copyI [of _ _ "NArray arr"] simp: node_rel_def)
qed

lemma object_finished:
  assumes "object_so_far h c qs"
  shows "copy_of c h c (JObject qs)"
proof -
  from assms obtain ht where a: "node_at h c = Some (NObject ht)"
      "list_all2 (\<lambda>p q. fst p = fst q \<and> copy_of (Suc c) h (snd p) (snd q)) (entries ht) qs"
    by (auto simp: object_so_far_def)
  have "list_all2 (\<lambda>p q. fst p = fst q \<and> copy_of c h (snd p) (snd q)) (entries ht) qs"
    using a(2) by (rule list_all2_mono) (auto intro: copy_of_below)
  with a(1) show ?thesis by (auto intro: copy_of.copyI [of _ _ "NObject ht"] simp: node_rel_def)
qed

text \<open>One round of the array loop.\<close>

lemma array_step:
  assumes s: "sound e h (add_mset c E)" and sf: "array_so_far h c js" and cp: "copied e h0 a h (add_mset c E) (v, h1)"
  shows "\<exists>r h2. json_array_append_new e h1 (Some c) v = Some (r, h2) \<and> keeps c h h2 \<and> sound e h2 (add_mset c E) \<and>
    (r = 0 \<longrightarrow> (\<exists>j. repr h0 a j \<and> array_so_far h2 c (js @ [j])))"
proof -
  from sf obtain arr where arr: "node_at h c = Some (NArray arr)" "list_all2 (copy_of (Suc c) h) (elems arr) js"
    by (auto simp: array_so_far_def)
  have cl: "c < length h" by (rule node_at_bound [OF arr(1)])
  from cp have k: "keeps (length h) h h1" and s1: "sound e h1 (add_mset c E + opt v)"
    by (auto simp: copied_def)
  then obtain n where "node_at h1 c = Some n" using sound_live [OF s1, of c] by auto
  with keeps_node [OF k cl] arr(1) have n1: "node_at h1 c = Some (NArray arr)" by auto
  have e1: "list_all2 (copy_of (Suc c) h1) (elems arr) js"
  proof (rule list.rel_mono_strong [OF arr(2)])
    fix b j assume "b \<in> set (elems arr)" "copy_of (Suc c) h b j"
    with copy_of_keeps [OF _ s s1 _ k] array_children_live [OF s1 n1, of b]
    show "copy_of (Suc c) h1 b j" by (auto simp: children_def)
  qed
  show ?thesis
  proof (cases v)
    case None
    then have "json_array_append_new e h1 (Some c) v = Some (-1, h1)" by (simp add: json_array_append_new_def)
    with s1 None keeps_le [OF k, of c] cl show ?thesis by auto
  next
    case (Some b)
    then obtain j where j: "repr h0 a j" "copy_of (length h) h1 b j" using cp by (auto simp: copied_def)
    then have jc: "copy_of (Suc c) h1 b j" using cl by (auto elim: copy_of_frame)
    have s1': "sound e h1 (add_mset b (add_mset c E))" using s1 Some by (simp add: add_mset_commute)
    obtain r h2 arr' where x: "json_array_append_new e h1 (Some c) (Some b) = Some (r, h2)" "sound e h2 (add_mset c E)"
        "edits h1 h2 c" "node_at h2 c = Some (NArray arr')" "elems arr' = (if r = 0 then elems arr @ [b] else elems arr)"
      using json_array_append_new_sound [OF s1' _ n1] by auto
    have "keeps c h h2" by (rule keeps_trans [OF keeps_le [OF k, of c] keeps_edits [OF x(3), of c]]) (use cl in simp_all)
    moreover have "array_so_far h2 c (js @ [j])" if "r = 0"
    proof -
      have "list_all2 (copy_of (Suc c) h1) (elems arr') (js @ [j])" using that x(5) e1 jc by (simp add: list_all2_appendI)
      then have "list_all2 (copy_of (Suc c) h2) (elems arr') (js @ [j])"
      proof (rule list.rel_mono_strong)
        fix b j assume "b \<in> set (elems arr')" "copy_of (Suc c) h1 b j"
        with copy_of_edits [OF _ s1 x(2) _ x(3) n1] array_children_live [OF x(2,4), of b]
        show "copy_of (Suc c) h2 b j" by (auto simp: children_def)
      qed
      with x(4) show ?thesis by (auto simp: array_so_far_def)
    qed
    ultimately show ?thesis using x(1,2) j(1) Some by auto
  qed
qed

lemma object_step:
  assumes s: "sound e h (add_mset c E)" and sf: "object_so_far h c qs" and cp: "copied e h0 a h (add_mset c E) (v, h1)"
    and fresh: "key \<notin> fst ` set qs"
  shows "\<exists>r h2. json_object_setn_new_nocheck e h1 (Some c) (Some key) v = Some (r, h2) \<and> keeps c h h2 \<and>
    sound e h2 (add_mset c E) \<and> (r = 0 \<longrightarrow> (\<exists>j. repr h0 a j \<and> object_so_far h2 c (qs @ [(key, j)])))"
proof -
  let ?R = "\<lambda>h p q. fst p = fst q \<and> copy_of (Suc c) h (snd p) (snd q)"
  from sf obtain ht where ht: "node_at h c = Some (NObject ht)" "list_all2 (?R h) (entries ht) qs"
    by (auto simp: object_so_far_def)
  have cl: "c < length h" by (rule node_at_bound [OF ht(1)])
  from cp have k: "keeps (length h) h h1" and s1: "sound e h1 (add_mset c E + opt v)"
    by (auto simp: copied_def)
  then obtain n where "node_at h1 c = Some n" using sound_live [OF s1, of c] by auto
  with keeps_node [OF k cl] ht(1) have n1: "node_at h1 c = Some (NObject ht)" by auto
  have live: "\<exists>m. node_at h' (snd p) = Some m"
    if "sound e h' E'" "node_at h' c = Some (NObject t)" "p \<in> set (entries t)" for h' E' t p
    using that array_children_live [OF that(1,2), of "snd p"] children_object_set [OF sound_object [OF that(1,2)]]
    by auto
  have e1: "list_all2 (?R h1) (entries ht) qs"
  proof (rule list.rel_mono_strong [OF ht(2)])
    fix p q assume "p \<in> set (entries ht)" "?R h p q"
    with copy_of_keeps [OF _ s s1 _ k] live [OF s1 n1, of p] show "?R h1 p q" by auto
  qed
  have "map fst (entries ht) = map fst qs" using e1 by induction auto
  then have keys: "fst ` set (entries ht) = fst ` set qs" by (metis list.set_map)
  show ?thesis
  proof (cases v)
    case None
    then have "json_object_setn_new_nocheck e h1 (Some c) (Some key) v = Some (-1, h1)"
      by (simp add: json_object_setn_new_nocheck_def)
    with s1 None keeps_le [OF k, of c] cl show ?thesis by auto
  next
    case (Some b)
    then obtain j where j: "repr h0 a j" "copy_of (length h) h1 b j" using cp by (auto simp: copied_def)
    then have jc: "copy_of (Suc c) h1 b j" using cl by (auto elim: copy_of_frame)
    have s1': "sound e h1 (add_mset b (add_mset c E))" using s1 Some by (simp add: add_mset_commute)
    obtain r h2 ht' where x: "json_object_setn_new_nocheck e h1 (Some c) (Some key) (Some b) = Some (r, h2)"
        "sound e h2 (add_mset c E)" "edits h1 h2 c" "node_at h2 c = Some (NObject ht')"
        "entries ht' = (if r = 0 then obj_set key b (entries ht) else entries ht)"
      using json_object_setn_new_nocheck_sound [OF s1', of c key] n1 by auto
    have "keeps c h h2" by (rule keeps_trans [OF keeps_le [OF k, of c] keeps_edits [OF x(3), of c]]) (use cl in simp_all)
    moreover have "object_so_far h2 c (qs @ [(key, j)])" if "r = 0"
    proof -
      have "entries ht' = entries ht @ [(key, b)]" using that x(5) fresh keys by (simp add: obj_set_new)
      then have "list_all2 (?R h1) (entries ht') (qs @ [(key, j)])" using e1 jc by (simp add: list_all2_appendI)
      then have "list_all2 (?R h2) (entries ht') (qs @ [(key, j)])"
      proof (rule list.rel_mono_strong)
        fix p q assume "p \<in> set (entries ht')" "?R h1 p q"
        with copy_of_edits [OF _ s1 x(2) _ x(3) n1] live [OF x(2,4), of p] show "?R h2 p q" by auto
      qed
      with x(4) show ?thesis by (auto simp: object_so_far_def)
    qed
    ultimately show ?thesis using x(1,2) j(1) Some by auto
  qed
qed


subsection \<open>The recursion\<close>

lemma reach_bound: "sound e h E \<Longrightarrow> a0 \<in># E \<Longrightarrow> reach h a0 a \<Longrightarrow> a < length h"
  using reach_kept [of h a0 a e E h E] by (auto dest: node_at_bound)

lemma finite_reach: "sound e h E \<Longrightarrow> a0 \<in># E \<Longrightarrow> finite {a. reach h a0 a}"
  by (rule finite_subset [of _ "{..<length h}"]) (auto dest: reach_bound)

lemma card_parents:
  assumes "finite S" "a \<in> S" "a \<notin> set parents" "card (S - set parents) < Suc fuel"
  shows "card (S - set (a # parents)) < fuel"
proof -
  let ?T = "S - set (a # parents)"
  have "S - set parents = insert a ?T" using assms(2,3) by auto
  moreover have "card (insert a ?T) = Suc (card ?T)" using assms(1) by (intro card_insert_disjoint) auto
  ultimately show ?thesis using assms(4) by (metis Suc_less_eq)
qed

definition source_ok :: "('r, 'z) jenv_scheme \<Rightarrow> 'r heap \<Rightarrow> addr \<Rightarrow> 'r heap \<Rightarrow> addr multiset \<Rightarrow> bool" where
  "source_ok e h0 a0 h E \<longleftrightarrow> (\<exists>E0. sound e h0 E0 \<and> a0 \<in># E0) \<and> keeps (length h0) h0 h \<and> sound e h E \<and> a0 \<in># E"

lemma source_node:
  assumes "source_ok e h0 a0 h E" "reach h0 a0 a"
  shows "\<exists>n. node_at h0 a = Some n \<and> node_at h a = Some n"
  using assms reach_kept [of h0 a0 a e _ h E] unfolding source_ok_def by blast

lemma source_next:
  assumes "source_ok e h0 a0 h E" "keeps k h h'" "length h0 \<le> k" "sound e h' E'" "a0 \<in># E'"
  shows "source_ok e h0 a0 h' E'"
  unfolding source_ok_def
proof (intro conjI)
  show "keeps (length h0) h0 h'"
    using assms(1) keeps_trans [OF _ assms(2,3)] by (simp add: source_ok_def)
qed (use assms in \<open>simp_all add: source_ok_def\<close>)

definition pairs_done :: "('r, 'z) jenv_scheme \<Rightarrow> 'r heap \<Rightarrow> (bytes \<times> addr) list \<Rightarrow> 'r heap \<Rightarrow> addr \<Rightarrow> addr multiset \<Rightarrow>
    (bytes \<times> 'r json) list \<Rightarrow> ptr \<times> 'r heap \<Rightarrow> bool" where
  "pairs_done e h0 ps h c E qs p \<longleftrightarrow> (case p of (r, h') \<Rightarrow> keeps c h h' \<and> (r = None \<and> sound e h' E \<or>
     (\<exists>js. r = Some c \<and> sound e h' (add_mset c E) \<and> object_so_far h' c (qs @ js) \<and>
       list_all2 (\<lambda>p q. fst p = fst q \<and> repr h0 (snd p) (snd q)) ps js)))"

definition elems_done :: "('r, 'z) jenv_scheme \<Rightarrow> 'r heap \<Rightarrow> addr list \<Rightarrow> 'r heap \<Rightarrow> addr \<Rightarrow> addr multiset \<Rightarrow>
    'r json list \<Rightarrow> ptr \<times> 'r heap \<Rightarrow> bool" where
  "elems_done e h0 as h c E js p \<longleftrightarrow> (case p of (r, h') \<Rightarrow> keeps c h h' \<and> (r = None \<and> sound e h' E \<or>
     (\<exists>us. r = Some c \<and> sound e h' (add_mset c E) \<and> array_so_far h' c (js @ us) \<and> list_all2 (repr h0) as us)))"

text \<open>Leaving the loops, and going round them.\<close>

lemma copied_object:
  assumes "node_at h0 a = Some (NObject ht)"
    "pairs_done e h0 (entries ht) (snd (json_init h (NObject t))) (length h) E [] (r, h')"
  shows "copied e h0 a h E (r, h')"
proof -
  have k: "keeps (length h) h h'"
    using assms(2) keeps_trans [OF keeps_init [of h "NObject t"], of "length h" h'] by (simp add: pairs_done_def)
  from assms(2) consider "r = None" "sound e h' E"
    | js where "r = Some (length h)" "sound e h' (add_mset (length h) E)" "object_so_far h' (length h) js"
      "list_all2 (\<lambda>p q. fst p = fst q \<and> repr h0 (snd p) (snd q)) (entries ht) js"
    by (auto simp: pairs_done_def)
  then show ?thesis
  proof cases
    case (2 js)
    then have "repr h0 a (JObject js)" using assms(1) by (auto simp: repr_JObject)
    with 2 k object_finished [OF 2(3)] show ?thesis by (auto simp: copied_def)
  qed (use k in \<open>simp add: copied_def\<close>)
qed

lemma copied_array:
  assumes "node_at h0 a = Some (NArray arr)"
    "elems_done e h0 (elems arr) (snd (json_init h (NArray t))) (length h) E [] (r, h')"
  shows "copied e h0 a h E (r, h')"
proof -
  have k: "keeps (length h) h h'"
    using assms(2) keeps_trans [OF keeps_init [of h "NArray t"], of "length h" h'] by (simp add: elems_done_def)
  from assms(2) consider "r = None" "sound e h' E"
    | js where "r = Some (length h)" "sound e h' (add_mset (length h) E)" "array_so_far h' (length h) js"
      "list_all2 (repr h0) (elems arr) js"
    by (auto simp: elems_done_def)
  then show ?thesis
  proof cases
    case (2 js)
    then have "repr h0 a (JArray js)" using assms(1) by (auto simp: repr_JArray)
    with 2 k array_finished [OF 2(3)] show ?thesis by (auto simp: copied_def)
  qed (use k in \<open>simp add: copied_def\<close>)
qed

lemma loop_failed:
  assumes "keeps c h h2" "sound e h2 (add_mset c E)"
  shows "\<exists>h3. json_decref h2 (Some c) = Some h3 \<and> sound e h3 E \<and> keeps c h h3"
  using json_decref_sound [OF assms(2)] keeps_trans [OF assms(1) keeps_shrinks le_refl] by blast

lemma pairs_done_Cons:
  assumes "keeps c h h2" "repr h0 v j" "pairs_done e h0 ps h2 c E (qs @ [(key, j)]) (r, h')"
  shows "pairs_done e h0 ((key, v) # ps) h c E qs (r, h')"
proof -
  have k: "keeps c h h'" using assms(3) keeps_trans [OF assms(1), of c h'] by (simp add: pairs_done_def)
  from assms(3) consider "r = None" "sound e h' E"
    | js where "r = Some c" "sound e h' (add_mset c E)" "object_so_far h' c ((qs @ [(key, j)]) @ js)"
      "list_all2 (\<lambda>p q. fst p = fst q \<and> repr h0 (snd p) (snd q)) ps js"
    by (auto simp: pairs_done_def)
  then show ?thesis
  proof cases
    case (2 js)
    with k assms(2) show ?thesis by (auto simp: pairs_done_def intro!: exI [of _ "(key, j) # js"])
  qed (use k in \<open>simp add: pairs_done_def\<close>)
qed

lemma elems_done_Cons:
  assumes "keeps c h h2" "repr h0 b j" "elems_done e h0 as h2 c E (js @ [j]) (r, h')"
  shows "elems_done e h0 (b # as) h c E js (r, h')"
proof -
  have k: "keeps c h h'" using assms(3) keeps_trans [OF assms(1), of c h'] by (simp add: elems_done_def)
  from assms(3) consider "r = None" "sound e h' E"
    | us where "r = Some c" "sound e h' (add_mset c E)" "array_so_far h' c ((js @ [j]) @ us)" "list_all2 (repr h0) as us"
    by (auto simp: elems_done_def)
  then show ?thesis
  proof cases
    case (2 us)
    with k assms(2) show ?thesis by (auto simp: elems_done_def intro!: exI [of _ "j # us"])
  qed (use k in \<open>simp add: elems_done_def\<close>)
qed

lemma deep_copy_main:
  fixes e :: "('r, 'z) jenv_scheme"
  shows
  "json = Some a \<Longrightarrow> reach h0 a0 a \<Longrightarrow> source_ok e h0 a0 h E \<Longrightarrow> card ({b. reach h0 a0 b} - set parents) < fuel \<Longrightarrow>
     \<exists>p. do_deep_copy e fuel h json parents = Some p \<and> copied e h0 a h E p"
  "result = Some c \<Longrightarrow> \<forall>p\<in>set ps. reach h0 a0 (snd p) \<Longrightarrow> source_ok e h0 a0 h (add_mset c E) \<Longrightarrow> a0 \<in># E \<Longrightarrow>
     length h0 \<le> c \<Longrightarrow> card ({b. reach h0 a0 b} - set parents) < fuel \<Longrightarrow> object_so_far h c qs \<Longrightarrow>
     distinct (map fst qs @ map fst ps) \<Longrightarrow>
     \<exists>p. json_object_deep_copy_loop e fuel h result ps parents = Some p \<and> pairs_done e h0 ps h c E qs p"
  "result = Some c \<Longrightarrow> \<forall>b\<in>set as. reach h0 a0 b \<Longrightarrow> source_ok e h0 a0 h (add_mset c E) \<Longrightarrow> a0 \<in># E \<Longrightarrow>
     length h0 \<le> c \<Longrightarrow> card ({b. reach h0 a0 b} - set parents) < fuel \<Longrightarrow> array_so_far h c js \<Longrightarrow>
     \<exists>p. json_array_deep_copy_loop e fuel h result as parents = Some p \<and> elems_done e h0 as h c E js p"
proof (induction e fuel h json parents and e fuel h result ps parents and e fuel h result as parents
    arbitrary: a E and c E qs and c E js rule: do_deep_copy_json_object_deep_copy_loop_json_array_deep_copy_loop.induct)
  case (1 e h json parents)
  then show ?case by simp
next
  case (2 e fuel h json parents)
  note IH = 2(1,2) and prems = 2(3-6)
  obtain n where n: "node_at h0 a = Some n" "node_at h a = Some n" using source_node [OF prems(3,2)] by blast
  obtain E0 where s0: "sound e h0 E0" "a0 \<in># E0" and s: "sound e h E" "a0 \<in># E" and k: "keeps (length h0) h0 h"
    using prems(3) by (auto simp: source_ok_def)
  have kids: "\<forall>b\<in>set (children n). reach h0 a0 b" using reach.child [OF prems(2) n(1)] by blast
  have lh: "length h0 \<le> length h" using k by (simp add: keeps_def)
  have null: "copied e h0 a h E (None, h)" using s by (simp add: copied_def)
  have card: "card ({b. reach h0 a0 b} - set (a # parents)) < fuel" if "a \<notin> set parents"
    using card_parents [OF finite_reach [OF s0] _ that prems(4)] prems(2) by simp
  show ?case
  proof (cases n)
    case (NObject ht)
    have i: "ht_inv (env_hash e) ht" using sound_object [OF s(1)] n(2) NObject by simp
    show ?thesis
    proof (cases "a \<in> set parents")
      case True
      with n(2) NObject prems(1) null show ?thesis by (simp add: jsonp_loop_check_def)
    next
      case False
      then have lc: "jsonp_loop_check parents a = Some (a # parents)" by (simp add: jsonp_loop_check_def)
      show ?thesis
      proof (cases rule: json_object_cases [OF s(1), case_names null new])
        case null
        with lc n(2) NObject prems(1) \<open>copied e h0 a h E (None, h)\<close> show ?thesis by simp
      next
        case (new t)
        let ?h = "snd (json_init h (NObject t))"
        have src: "source_ok e h0 a0 ?h (add_mset (length h) E)"
          by (rule source_next [OF prems(3) keeps_init lh new(4)]) (use s in simp)
        have sf: "object_so_far ?h (length h) []"
          using new(3) by (simp add: object_so_far_def json_init_def node_at_append)
        have kd: "\<forall>p\<in>set (entries ht). reach h0 a0 (snd p)"
          using kids NObject children_object_set [OF i] by auto
        have dist: "distinct (map fst ([] :: (bytes \<times> 'r json) list) @ map fst (entries ht))" using entries_distinct [OF i] by simp
        obtain r h' where p: "json_object_deep_copy_loop e fuel ?h (Some (length h)) (entries ht) (a # parents) = Some (r, h')"
            "pairs_done e h0 (entries ht) ?h (length h) E [] (r, h')"
          using IH(1) [OF prems(1) n(2) NObject lc refl new(1) [symmetric] option.distinct(2) refl kd src s(2) lh card [OF False] sf dist]
          by auto
        then have r: "do_deep_copy e (Suc fuel) h json parents = Some (r, h')"
          using prems(1) n(2) NObject lc new(1) by simp
        have "copied e h0 a h E (r, h')" by (rule copied_object [OF n(1) [unfolded NObject] p(2)])
        with r show ?thesis by blast
      qed
    qed
  next
    case (NArray arr)
    show ?thesis
    proof (cases "a \<in> set parents")
      case True
      with n(2) NArray prems(1) null show ?thesis by (simp add: jsonp_loop_check_def)
    next
      case False
      then have lc: "jsonp_loop_check parents a = Some (a # parents)" by (simp add: jsonp_loop_check_def)
      show ?thesis
      proof (cases rule: json_array_cases [OF s(1), case_names null new])
        case null
        with lc n(2) NArray prems(1) \<open>copied e h0 a h E (None, h)\<close> show ?thesis by simp
      next
        case (new t)
        let ?h = "snd (json_init h (NArray t))"
        have src: "source_ok e h0 a0 ?h (add_mset (length h) E)"
          by (rule source_next [OF prems(3) keeps_init lh new(3)]) (use s in simp)
        have sf: "array_so_far ?h (length h) []"
          using new(2) by (simp add: array_so_far_def json_init_def node_at_append)
        have kd: "\<forall>b\<in>set (elems arr). reach h0 a0 b" using kids NArray by (simp add: children_def)
        obtain r h' where p: "json_array_deep_copy_loop e fuel ?h (Some (length h)) (elems arr) (a # parents) = Some (r, h')"
            "elems_done e h0 (elems arr) ?h (length h) E [] (r, h')"
          using IH(2) [OF prems(1) n(2) NArray lc refl new(1) [symmetric] option.distinct(2) refl kd src s(2) lh card [OF False] sf]
          by auto
        then have r: "do_deep_copy e (Suc fuel) h json parents = Some (r, h')"
          using prems(1) n(2) NArray lc new(1) by simp
        have "copied e h0 a h E (r, h')" by (rule copied_array [OF n(1) [unfolded NArray] p(2)])
        with r show ?thesis by blast
      qed
    qed
  next
    case (NString s')
    with n prems(1) copied_leaf [OF s(1) leaf_results(1) n(1) [unfolded NString]] show ?thesis by auto
  next
    case (NInteger i)
    with n prems(1) copied_leaf [OF s(1) leaf_results(2) n(1) [unfolded NInteger]] show ?thesis by auto
  next
    case (NReal r)
    with n prems(1) copied_leaf [OF s(1) leaf_results(3) n(1) [unfolded NReal]] show ?thesis by auto
  qed (use n prems(1) copied_simple [OF s(1) n] in \<open>simp_all add: simple_def\<close>)
next
  case (3 e fuel h result parents)
  then show ?case by (auto simp: pairs_done_def source_ok_def)
next
  case (4 e fuel h result key v ps parents)
  note IH = 4(1,2) and prems = 4(3-10)
  have s: "sound e h (add_mset c E)" using prems(3) by (simp add: source_ok_def)
  obtain w h1 where d: "do_deep_copy e fuel h (Some v) parents = Some (w, h1)" "copied e h0 v h (add_mset c E) (w, h1)"
    using IH(1) [OF refl _ prems(3,6)] prems(2) by auto
  have "key \<notin> fst ` set qs" using prems(8) by auto
  from object_step [OF s prems(7) d(2) this] obtain r h2 where
    x: "json_object_setn_new_nocheck e h1 (Some c) (Some key) w = Some (r, h2)" "keeps c h h2" "sound e h2 (add_mset c E)"
      "r = 0 \<longrightarrow> (\<exists>j. repr h0 v j \<and> object_so_far h2 c (qs @ [(key, j)]))" by blast
  show ?case
  proof (cases "r = 0")
    case False
    obtain h3 where h3: "json_decref h2 (Some c) = Some h3" "sound e h3 E" "keeps c h h3"
      using loop_failed [OF x(2,3)] by blast
    with False h3 d x prems(1) show ?thesis by (auto simp: pairs_done_def)
  next
    case True
    with x(4) obtain j where j: "repr h0 v j" "object_so_far h2 c (qs @ [(key, j)])" by blast
    have "source_ok e h0 a0 h2 (add_mset c E)"
      by (rule source_next [OF prems(3) x(2) prems(5) x(3)]) (use prems(4) in simp)
    with IH(2) [OF d(1) refl x(1) [folded prems(1)] refl _ prems(1) _ _ prems(4,5,6) j(2)] True prems(2,8)
    obtain r' h' where p: "json_object_deep_copy_loop e fuel h2 result ps parents = Some (r', h')"
        "pairs_done e h0 ps h2 c E (qs @ [(key, j)]) (r', h')" by auto
    have "json_object_deep_copy_loop e fuel h result ((key, v) # ps) parents = Some (r', h')"
      using d(1) x(1) p(1) True prems(1) by simp
    moreover have "pairs_done e h0 ((key, v) # ps) h c E qs (r', h')"
      by (rule pairs_done_Cons [OF x(2) j(1) p(2)])
    ultimately show ?thesis by blast
  qed
next
  case (5 e fuel h result parents)
  then show ?case by (auto simp: elems_done_def source_ok_def)
next
  case (6 e fuel h result b as parents)
  note IH = 6(1,2) and prems = 6(3-9)
  have s: "sound e h (add_mset c E)" using prems(3) by (simp add: source_ok_def)
  obtain w h1 where d: "do_deep_copy e fuel h (Some b) parents = Some (w, h1)" "copied e h0 b h (add_mset c E) (w, h1)"
    using IH(1) [OF refl _ prems(3,6)] prems(2) by auto
  from array_step [OF s prems(7) d(2)] obtain r h2 where
    x: "json_array_append_new e h1 (Some c) w = Some (r, h2)" "keeps c h h2" "sound e h2 (add_mset c E)"
      "r = 0 \<longrightarrow> (\<exists>j. repr h0 b j \<and> array_so_far h2 c (js @ [j]))" by blast
  show ?case
  proof (cases "r = 0")
    case False
    obtain h3 where h3: "json_decref h2 (Some c) = Some h3" "sound e h3 E" "keeps c h h3"
      using loop_failed [OF x(2,3)] by blast
    with False h3 d x prems(1) show ?thesis by (auto simp: elems_done_def)
  next
    case True
    with x(4) obtain j where j: "repr h0 b j" "array_so_far h2 c (js @ [j])" by blast
    have "source_ok e h0 a0 h2 (add_mset c E)"
      by (rule source_next [OF prems(3) x(2) prems(5) x(3)]) (use prems(4) in simp)
    with IH(2) [OF d(1) refl x(1) [folded prems(1)] refl _ prems(1) _ _ prems(4,5,6) j(2)] True prems(2)
    obtain r' h' where p: "json_array_deep_copy_loop e fuel h2 result as parents = Some (r', h')"
        "elems_done e h0 as h2 c E (js @ [j]) (r', h')" by auto
    have "json_array_deep_copy_loop e fuel h result (b # as) parents = Some (r', h')"
      using d(1) x(1) p(1) True prems(1) by simp
    moreover have "elems_done e h0 (b # as) h c E js (r', h')"
      by (rule elems_done_Cons [OF x(2) j(1) p(2)])
    ultimately show ?thesis by blast
  qed
qed

text \<open>Deep copying a value the caller holds a reference to.\<close>

lemma json_deep_copy_sound:
  assumes s: "sound e h E" and a: "a \<in># E"
  shows "\<exists>r h'. json_deep_copy e h (Some a) = Some (r, h') \<and> sound e h' (E + opt r) \<and> keeps (length h) h h' \<and>
    (\<forall>b. r = Some b \<longrightarrow> (\<exists>j. repr h a j \<and> copy_of (length h) h' b j))"
proof -
  have "source_ok e h a h E" using s a by (auto simp: source_ok_def)
  moreover have "card ({b. reach h a b} - set []) < length h + 2"
  proof -
    have "card {b. reach h a b} \<le> card {..<length h}"
      by (rule card_mono) (auto dest: reach_bound [OF s a])
    then show ?thesis by simp
  qed
  ultimately obtain r h' where "do_deep_copy e (length h + 2) h (Some a) [] = Some (r, h')" "copied e h a h E (r, h')"
    using deep_copy_main(1) [OF refl reach.root, of e h a h E "[]" "length h + 2"] by auto
  with s show ?thesis by (auto simp: json_deep_copy_def copied_def)
qed

end
