(* ===== verification/EqualThms.thy ===== *)
theory EqualThms
  imports DeepCopy DumpSpec
begin

text \<open>
  \<open>json_equal\<close> decides equality of trees: arrays element by element, objects as maps, numbers
  by type and value. It follows references without a check for loops: with fuel for the size of
  the first tree it returns, and on circular structures it does not.
\<close>

subsection \<open>Equality of trees\<close>

primrec jeq :: "('r, 'z) jenv_scheme \<Rightarrow> 'r json \<Rightarrow> 'r json \<Rightarrow> bool" where
  "jeq e (JObject ps) j = (case j of JObject qs \<Rightarrow>
     length ps = length qs \<and>
     list_all (\<lambda>p. case map_of qs (fst p) of None \<Rightarrow> False | Some w \<Rightarrow> snd p w) (map (map_prod id (jeq e)) ps)
   | _ \<Rightarrow> False)"
| "jeq e (JArray js) j = (case j of JArray ks \<Rightarrow>
     length js = length ks \<and> list_all (\<lambda>(f, k). f k) (zip (map (jeq e) js) ks) | _ \<Rightarrow> False)"
| "jeq e (JString s) j = (j = JString s)"
| "jeq e (JInteger i) j = (j = JInteger i)"
| "jeq e (JReal r) j = (case j of JReal s \<Rightarrow> c_real_eq e r s | _ \<Rightarrow> False)"
| "jeq e JTrue j = (j = JTrue)"
| "jeq e JFalse j = (j = JFalse)"
| "jeq e JNull j = (j = JNull)"

lemma jeq_object: "jeq e (JObject ps) (JObject qs) \<longleftrightarrow> length ps = length qs \<and>
    (\<forall>p\<in>set ps. case map_of qs (fst p) of None \<Rightarrow> False | Some w \<Rightarrow> jeq e (snd p) w)"
  by (simp add: list_all_iff cong: option.case_cong)

lemma jeq_array: "jeq e (JArray js) (JArray ks) \<longleftrightarrow> list_all2 (jeq e) js ks"
  by (auto simp: list_all_iff list_all2_iff zip_map1 in_set_zip set_zip)

declare jeq.simps(1,2) [simp del]

lemma list_all2_member2: "list_all2 R xs ys \<Longrightarrow> y \<in> set ys \<Longrightarrow> \<exists>x\<in>set xs. R x y"
  by (induction rule: list_all2_induct) auto

lemma jeq_refl:
  assumes "heap_ok hs h"
  shows "repr h a j \<Longrightarrow> \<forall>r\<in>set_json j. c_real_eq e r r \<Longrightarrow> jeq e j j"
proof (induction j arbitrary: a)
  case (JObject ps)
  then obtain ht where n: "node_at h a = Some (NObject ht)"
      "list_all2 (\<lambda>p q. fst p = fst q \<and> repr h (snd p) (snd q)) (entries ht) ps"
    by (auto simp: repr_JObject)
  have k: "map fst (entries ht) = map fst ps" using n(2) by induction auto
  then have d: "distinct (map fst ps)"
    using entries_distinct [of hs ht] heap_okD [OF assms n(1)] by (simp add: node_ok_def)
  have "jeq e (snd p) (snd p)" if p: "p \<in> set ps" for p
  proof -
    obtain q where "repr h q (snd p)" using list_all2_member2 [OF n(2) p] by auto
    with JObject.IH [of p "snd p"] JObject.prems(2) p show ?thesis by (auto simp: snds.simps)
  qed
  then show ?case using map_of_is_SomeI [OF d] by (auto simp: jeq_object)
next
  case (JArray js)
  then obtain arr where n: "node_at h a = Some (NArray arr)" "list_all2 (repr h) (elems arr) js"
    by (auto simp: repr_JArray)
  have "jeq e i i" if i: "i \<in> set js" for i
  proof -
    obtain q where "repr h q i" using list_all2_member2 [OF n(2) i] by auto
    with JArray.IH [OF i] JArray.prems(2) i show ?thesis by auto
  qed
  then show ?case by (simp add: jeq_array list.rel_refl_strong)
qed simp_all

subsection \<open>The code\<close>

text \<open>The simple values are the static ones.\<close>

definition singletons :: "'r heap \<Rightarrow> bool" where
  "singletons h \<longleftrightarrow> (\<forall>a\<in>set [0..<length h]. case node_at h a of
     Some NTrue \<Rightarrow> a = the_true | Some NFalse \<Rightarrow> a = the_false | Some NNull \<Rightarrow> a = the_null | _ \<Rightarrow> True)"

lemma singletonsD:
  assumes "singletons h"
  shows "node_at h a = Some NTrue \<Longrightarrow> a = the_true" "node_at h a = Some NFalse \<Longrightarrow> a = the_false"
    "node_at h a = Some NNull \<Longrightarrow> a = the_null"
  using assms node_at_bound [of h a] by (force simp: singletons_def)+

lemma memcmp_refl: "memcmp s s n = 0"
proof (induction s arbitrary: n)
  case (Cons b s)
  then show ?case by (cases n) simp_all
qed simp

lemma memcmp_zero: "length s = length t \<Longrightarrow> memcmp s t (length s) = 0 \<Longrightarrow> s = t"
  by (induction s t rule: list_induct2) (auto simp: word_uint_eq_iff split: if_splits)

lemma json_string_equal_iff: "json_string_equal s t \<longleftrightarrow> s = t"
  by (auto simp: json_string_equal_def memcmp_refl dest: memcmp_zero)

declare json_equal.simps [simp del]

lemma json_array_equal_loop:
  assumes "\<And>j a b k. j \<in> set js \<Longrightarrow> repr h a j \<Longrightarrow> repr h b k \<Longrightarrow> json_equal e h fuel (Some a) (Some b) = Some (jeq e j k)"
    "list_all2 (repr h) vs js" "list_all2 (repr h) ws ks" "length js = length ks"
  shows "json_array_equal e h fuel vs ws = Some (list_all2 (jeq e) js ks)"
  using assms
proof (induction js arbitrary: vs ws ks)
  case (Cons j js)
  from Cons.prems(2-4) obtain v vs' w ws' k ks' where e:
    "vs = v # vs'" "ws = w # ws'" "ks = k # ks'" "repr h v j" "repr h w k" "list_all2 (repr h) vs' js"
    "list_all2 (repr h) ws' ks'" "length js = length ks'"
    by (auto simp: list_all2_Cons2 length_Suc_conv Suc_length_conv)
  have "json_equal e h fuel (Some v) (Some w) = Some (jeq e j k)" by (rule Cons.prems(1)) (use e in simp_all)
  moreover have "json_array_equal e h fuel vs' ws' = Some (list_all2 (jeq e) js ks')"
    by (rule Cons.IH) (use e Cons.prems(1) in simp_all)
  ultimately show ?case by (simp add: e)
qed simp

lemma map_of_rel:
  "list_all2 (\<lambda>p q. fst p = fst q \<and> R (snd p) (snd q)) ps qs \<Longrightarrow>
   (case map_of ps x of None \<Rightarrow> map_of qs x = None | Some v \<Rightarrow> \<exists>w. map_of qs x = Some w \<and> R v w)"
  by (induction rule: list_all2_induct) (auto split: option.splits)

lemma json_equal_null: "0 < fuel \<Longrightarrow> json_equal e h fuel p None = Some False"
  by (cases fuel) (auto simp: json_equal.simps split: option.split)

lemma json_object_equal_loop:
  assumes "\<And>p a b k. p \<in> set ps \<Longrightarrow> repr h a (snd p) \<Longrightarrow> repr h b k \<Longrightarrow>
      json_equal e h fuel (Some a) (Some b) = Some (jeq e (snd p) k)"
    "list_all2 (\<lambda>p q. fst p = fst q \<and> repr h (snd p) (snd q)) es ps"
    "node_at h b = Some (NObject t)" "ht_inv (env_hash e) t"
    "list_all2 (\<lambda>p q. fst p = fst q \<and> repr h (snd p) (snd q)) (entries t) qs" "0 < fuel"
  shows "json_object_equal e h fuel es b =
    Some (\<forall>p\<in>set ps. case map_of qs (fst p) of None \<Rightarrow> False | Some w \<Rightarrow> jeq e (snd p) w)"
  using assms(1,2)
proof (induction ps arbitrary: es)
  case (Cons p ps)
  then obtain x es' where es: "es = (fst p, x) # es'" "repr h x (snd p)"
      "list_all2 (\<lambda>p q. fst p = fst q \<and> repr h (snd p) (snd q)) es' ps"
    by (auto simp: list_all2_Cons2)
  have g: "json_object_getn e h (Some b) (Some (fst p)) = Some (map_of (entries t) (fst p))"
    by (simp add: json_object_getn_def as_object_node [OF assms(3)] hash.get_law [OF assms(4)])
  have "json_equal e h fuel (Some x) (map_of (entries t) (fst p)) =
      Some (case map_of qs (fst p) of None \<Rightarrow> False | Some w \<Rightarrow> jeq e (snd p) w)"
    using map_of_rel [OF assms(5), of "fst p"] Cons.prems(1) [of p x] es(2) assms(6)
    by (auto simp: json_equal_null split: option.splits)
  with Cons.IH [OF _ es(3)] Cons.prems(1) show ?case by (auto simp: es(1) g)
qed simp

lemma json_equal_leaf:
  assumes "singletons h" "repr h a j" "repr h b k" "\<not> container j" "\<forall>r\<in>set_json j. c_real_eq e r r" "size j < fuel"
  shows "json_equal e h fuel (Some a) (Some b) = Some (jeq e j k)"
proof -
  obtain f where f: "fuel = Suc f" using assms(6) by (cases fuel) auto
  obtain n m where n: "node_at h a = Some n" "node_at h b = Some m"
    using repr_node [OF assms(2)] repr_node [OF assms(3)] by (auto split: option.splits)
  show ?thesis
  proof (cases "a = b")
    case True
    then have "k = j" using repr_fun [OF assms(2)] assms(3) by blast
    moreover have "jeq e j j" using assms(4,5) by (cases j) auto
    ultimately show ?thesis using n True by (simp add: f json_equal.simps)
  next
    case False
    then have "\<not> (n = m \<and> simple n)"
      using n singletonsD [OF assms(1), of a] singletonsD [OF assms(1), of b] by (cases n) (auto simp: simple_def)
    with False assms(2-4) n repr_node [OF assms(3)] show ?thesis
      by (cases j; cases m) (auto simp: f json_equal.simps json_typeof_def scalar_equal_def json_string_equal_iff simple_def)
  qed
qed

lemma json_equal_tree:
  assumes ok: "heap_ok (env_hash e) h" and sg: "singletons h"
  shows "repr h a j \<Longrightarrow> repr h b k \<Longrightarrow> \<forall>r\<in>set_json j. c_real_eq e r r \<Longrightarrow> size j < fuel \<Longrightarrow>
    json_equal e h fuel (Some a) (Some b) = Some (jeq e j k)"
proof (induction j arbitrary: a b k fuel)
  case (JObject ps)
  then obtain f where f: "fuel = Suc f" by (cases fuel) auto
  obtain ht where n: "node_at h a = Some (NObject ht)"
      "list_all2 (\<lambda>p q. fst p = fst q \<and> repr h (snd p) (snd q)) (entries ht) ps"
    using JObject.prems(1) by (auto simp: repr_JObject)
  show ?case
  proof (cases "a = b")
    case True
    with jeq_refl [OF ok JObject.prems(1,3)] repr_fun [OF JObject.prems(1,2) [unfolded True]] JObject.prems(1,2) n(1)
    show ?thesis using repr_fun [of h b "JObject ps" k] by (simp add: f json_equal.simps)
  next
    case ab: False
    show ?thesis
    proof (cases "\<exists>t. node_at h b = Some (NObject t)")
      case True
      then obtain t where t: "node_at h b = Some (NObject t)" by blast
      with JObject.prems(2) obtain qs where qs: "k = JObject qs"
          "list_all2 (\<lambda>p q. fst p = fst q \<and> repr h (snd p) (snd q)) (entries t) qs"
        using repr_node [OF JObject.prems(2)] by auto
      have inv: "ht_inv (env_hash e) ht" "ht_inv (env_hash e) t"
        using heap_okD [OF ok n(1)] heap_okD [OF ok t] by (simp_all add: node_ok_def)
      then have sz: "ht_size ht = length ps" "ht_size t = length qs"
        using list_all2_lengthD [OF n(2)] list_all2_lengthD [OF qs(2)] by (auto simp: ht_inv_def pairs_inv_def entries_def)
      have s: "p \<in> set ps \<Longrightarrow> size (snd p) < f" for p using size_pair [of p ps] JObject.prems(4) f by auto
      have f0: "0 < f" if "ps \<noteq> []" using that s [of "hd ps"] by fastforce
      have "json_object_equal e h f (entries ht) b =
          Some (\<forall>p\<in>set ps. case map_of qs (fst p) of None \<Rightarrow> False | Some w \<Rightarrow> jeq e (snd p) w)"
      proof (cases "ps = []")
        case False
        show ?thesis
          using json_object_equal_loop [of ps h e f "entries ht" b t qs, OF _ n(2) t inv(2) qs(2) f0 [OF False]]
            JObject.IH JObject.prems(3) s by (fastforce simp: snds.simps)
      qed (use n(2) in simp)
      then show ?thesis
        using ab n(1) t by (auto simp: f json_equal.simps json_typeof_def json_object_size_def as_object_node [OF t] sz jeq_object qs(1))
    next
      case False
      obtain m where m: "node_at h b = Some m" using JObject.prems(2) by (cases rule: repr.cases) auto
      with False have "json_typeof m \<noteq> 0" by (cases m) (auto simp: json_typeof_def)
      moreover have "\<not> jeq e (JObject ps) k"
        using repr_node [OF JObject.prems(2)] m False by (cases m) (auto simp: jeq.simps)
      ultimately show ?thesis using n(1) m by (simp add: f json_equal.simps json_typeof_def [of "NObject ht"])
    qed
  qed
next
  case (JArray js)
  then obtain f where f: "fuel = Suc f" by (cases fuel) auto
  obtain arr where n: "node_at h a = Some (NArray arr)" "list_all2 (repr h) (elems arr) js"
    using JArray.prems(1) by (auto simp: repr_JArray)
  show ?case
  proof (cases "a = b")
    case True
    with jeq_refl [OF ok JArray.prems(1,3)] JArray.prems(1,2) n(1)
    show ?thesis using repr_fun [of h b "JArray js" k] by (simp add: f json_equal.simps)
  next
    case ab: False
    show ?thesis
    proof (cases "\<exists>t. node_at h b = Some (NArray t)")
      case True
      then obtain t where t: "node_at h b = Some (NArray t)" by blast
      with JArray.prems(2) obtain ks where ks: "k = JArray ks" "list_all2 (repr h) (elems t) ks"
        using repr_node [OF JArray.prems(2)] by auto
      have sz: "a_entries arr = a_entries t \<longleftrightarrow> length js = length ks"
        using list_all2_lengthD [OF n(2)] list_all2_lengthD [OF ks(2)] heap_okD [OF ok n(1)] heap_okD [OF ok t]
        by (auto simp: node_ok_def length_elems word_unat_eq_iff)
      have s: "i \<in> set js \<Longrightarrow> size i < f" for i using size_elem [of i js] JArray.prems(4) f by auto
      have "length js = length ks \<Longrightarrow> json_array_equal e h f (elems arr) (elems t) = Some (list_all2 (jeq e) js ks)"
        by (rule json_array_equal_loop [OF _ n(2) ks(2)]) (use JArray.IH JArray.prems(3) s in auto)
      then show ?thesis
        using ab n(1) t sz by (auto simp: f json_equal.simps json_typeof_def jeq_array ks(1) dest: list_all2_lengthD)
    next
      case False
      obtain m where m: "node_at h b = Some m" using JArray.prems(2) by (cases rule: repr.cases) auto
      with False have "json_typeof m \<noteq> 1" by (cases m) (auto simp: json_typeof_def)
      moreover have "\<not> jeq e (JArray js) k"
        using repr_node [OF JArray.prems(2)] m False by (cases m) (auto simp: jeq.simps)
      ultimately show ?thesis using n(1) m by (simp add: f json_equal.simps json_typeof_def [of "NArray arr"])
    qed
  qed
qed (rule json_equal_leaf [OF sg]; simp)+


subsection \<open>Copies are equal\<close>

lemma repr_copy_of: "repr h a j \<Longrightarrow> copy_of 0 h a j"
proof (induction j arbitrary: a)
  case (JObject ps)
  then obtain ht where n: "node_at h a = Some (NObject ht)"
      "list_all2 (\<lambda>p q. fst p = fst q \<and> repr h (snd p) (snd q)) (entries ht) ps"
    by (auto simp: repr_JObject)
  have "list_all2 (\<lambda>p q. fst p = fst q \<and> copy_of 0 h (snd p) (snd q)) (entries ht) ps"
    by (rule list.rel_mono_strong [OF n(2)]) (use JObject.IH in \<open>auto simp: snds.simps\<close>)
  with n(1) show ?case by (auto intro: copy_of.copyI [of _ _ "NObject ht"] simp: node_rel_def)
next
  case (JArray js)
  then obtain arr where n: "node_at h a = Some (NArray arr)" "list_all2 (repr h) (elems arr) js"
    by (auto simp: repr_JArray)
  have "list_all2 (copy_of 0 h) (elems arr) js"
    by (rule list.rel_mono_strong [OF n(2)]) (use JArray.IH in auto)
  with n(1) show ?case by (auto intro: copy_of.copyI [of _ _ "NArray arr"] simp: node_rel_def)
qed (auto intro!: copy_of.copyI simp: node_rel_def)

lemma repr_kept:
  assumes "repr h a j" "sound e h E" "a \<in># E" "sound e h' E'" "a \<in># E'" "keeps (length h) h h'"
  shows "repr h' a j"
  using copy_of_repr [OF copy_of_keeps [OF repr_copy_of [OF assms(1)] assms(2,4) _ assms(6)]] sound_live [OF assms(4,5)]
  by auto

lemma deep_copy_equal:
  assumes s: "sound e h E" and a: "a \<in># E" and r: "json_deep_copy e h (Some a) = Some (Some b, h')"
    and sg: "singletons h'" and re: "\<forall>r. c_real_eq e r r"
  shows "\<exists>fuel. json_equal e h' fuel (Some a) (Some b) = Some True"
proof -
  from json_deep_copy_sound [OF s a] r obtain j where
    j: "sound e h' (add_mset b E)" "keeps (length h) h h'" "repr h a j" "copy_of (length h) h' b j" by auto
  have "repr h' a j" by (rule repr_kept [OF j(3) s a j(1) _ j(2)]) (use a in simp)
  moreover have "jeq e j j" using jeq_refl [OF soundD(2) [OF s] j(3), of e] re by blast
  ultimately show ?thesis
    using json_equal_tree [OF soundD(2) [OF j(1)] sg _ copy_of_repr [OF j(4)], of a j "Suc (size j)"] re by auto
qed

subsection \<open>Circular structures\<close>

text \<open>Two arrays at \<open>a\<close> and \<open>b\<close>, each with itself as its only element.\<close>

definition self_array :: "addr \<Rightarrow> json_array" where
  "self_array a = \<lparr>a_size = 8, a_entries = 1, a_table = a # replicate 7 0\<rparr>"

lemma json_equal_circular:
  assumes "node_at h a = Some (NArray (self_array a))" "node_at h b = Some (NArray (self_array b))" "a \<noteq> b"
  shows "json_equal e h fuel (Some a) (Some b) = None"
proof (induction fuel)
  case (Suc fuel)
  with assms show ?case by (simp add: json_equal.simps self_array_def elems_def json_typeof_def)
qed (simp add: json_equal.simps)

end
