(* ===== verification/UpdateThms.thy ===== *)
theory UpdateThms
  imports DeepCopy
begin

text \<open>
  \<open>json_object_update\<close>, \<open>json_object_update_existing\<close>, \<open>json_object_update_missing\<close> and the shallow
  copies: their effect on the pairs of the object and on the references.
\<close>

subsection \<open>Borrowing stores\<close>

lemma json_object_setn_nocheck_sound:
  assumes s: "sound e h E" and a: "a \<in># E" and n: "node_at h a = Some (NObject ht)" and v: "node_at h v = Some m"
    and b: "size (refs h + E) + 2 < 2 ^ 64"
  shows "\<exists>r h' ht'. json_object_setn_nocheck e h (Some a) (Some k) (Some v) = Some (r, h') \<and> sound e h' E \<and> edits h h' a \<and>
    size (refs h') \<le> Suc (size (refs h)) \<and> (r = 0 \<or> r = -1) \<and> node_at h' a = Some (NObject ht') \<and>
    entries ht' = (if r = 0 then obj_set k v (entries ht) else entries ht)"
proof -
  from json_incref_sound [OF s v b] obtain h1 where
    h1: "json_incref h (Some v) = Some h1" "sound e h1 (add_mset v E)" "length h1 = length h"
      "\<forall>b. node_at h1 b = node_at h b" "refs h1 = refs h" by blast
  have n1: "node_at h1 a = Some (NObject ht)" using h1(4) n by simp
  from json_object_setn_new_nocheck_sound [OF h1(2) a, of k] n1 obtain r h' ht' where
    "json_object_setn_new_nocheck e h1 (Some a) (Some k) (Some v) = Some (r, h')" "sound e h' E" "edits h1 h' a"
    "size (refs h') \<le> Suc (size (refs h1))" "r = 0 \<or> r = -1" "node_at h' a = Some (NObject ht')"
    "entries ht' = (if r = 0 then obj_set k v (entries ht) else entries ht)" by auto
  moreover from this(3) h1(3,4) have "edits h h' a" by (simp add: edits_def)
  ultimately show ?thesis using h1 by (auto simp: json_object_setn_nocheck_def)
qed

subsection \<open>The loops\<close>

text \<open>\<open>other\<close> at \<open>b\<close> stays as it is while the object at \<open>a\<close> is edited.\<close>

definition key_of :: "addr hashtable \<Rightarrow> nat \<Rightarrow> bytes" where "key_of u n = hp_key (pair_of u n)"
definition val_of :: "addr hashtable \<Rightarrow> nat \<Rightarrow> addr" where "val_of u n = hp_value (pair_of u n)"

lemma pair_at_other:
  assumes "sound e h E" "node_at h b = Some (NObject u)" "n \<in> set (ht_ordered u)"
  shows "pair_at h (Some b) n = Some (key_of u n, val_of u n)" "\<exists>m. node_at h (val_of u n) = Some m"
proof -
  have i: "ht_inv (env_hash e) u" by (rule sound_object [OF assms(1,2)])
  then have "n < length (ht_pairs u) \<and> ht_pairs u ! n \<noteq> None"
    using assms(3) by (auto simp: ht_inv_def pairs_inv_def)
  then show "pair_at h (Some b) n = Some (key_of u n, val_of u n)"
    by (simp add: pair_at_def iter_table_def as_object_node [OF assms(2)] hashtable_iter_key_def hashtable_iter_value_def
        key_of_def val_of_def)
  have "val_of u n \<in> set (children (NObject u))"
    using children_object_set [OF i] assms(3) by (force simp: entries_def val_of_def)
  then show "\<exists>m. node_at h (val_of u n) = Some m" by (rule array_children_live [OF assms(1,2)])
qed

lemma other_kept:
  assumes "sound e h' E" "b \<in># E" "edits h h' a" "a \<noteq> b" "node_at h b = Some n"
  shows "node_at h' b = Some n"
  using sound_live [OF assms(1,2)] assms(3-5) by (auto simp: edits_def)

lemma update_loop_sound:
  assumes "sound e h E" "a \<in># E" "b \<in># E" "a \<noteq> b" "node_at h a = Some (NObject t)" "node_at h b = Some (NObject u)"
    "set ns \<subseteq> set (ht_ordered u)" "size (refs h + E) + length ns + 2 < 2 ^ 64"
  shows "\<exists>r h' t'. update_loop e h (Some a) (Some b) ns = Some (r, h') \<and> sound e h' E \<and> edits h h' a \<and> (r = 0 \<or> r = -1) \<and>
    node_at h' a = Some (NObject t') \<and>
    (r = 0 \<longrightarrow> entries t' = foldl (\<lambda>kvs n. obj_set (key_of u n) (val_of u n) kvs) (entries t) ns)"
  using assms(1,5-8)
proof (induction ns arbitrary: h t)
  case Nil
  then show ?case by (auto simp: edits_def)
next
  case (Cons n ns)
  have n: "n \<in> set (ht_ordered u)" using Cons.prems(4) by simp
  note p = pair_at_other [OF Cons.prems(1,3) n]
  obtain m where m: "node_at h (val_of u n) = Some m" using p(2) by blast
  have bd: "size (refs h + E) + 2 < 2 ^ 64" using Cons.prems(5) by simp
  obtain r h1 t1 where x: "json_object_setn_nocheck e h (Some a) (Some (key_of u n)) (Some (val_of u n)) = Some (r, h1)"
      "sound e h1 E" "edits h h1 a" "size (refs h1) \<le> Suc (size (refs h))" "r = 0 \<or> r = -1" "node_at h1 a = Some (NObject t1)"
      "entries t1 = (if r = 0 then obj_set (key_of u n) (val_of u n) (entries t) else entries t)"
    using json_object_setn_nocheck_sound [OF Cons.prems(1) assms(2) Cons.prems(2) m bd, of "key_of u n"] by blast
  have b1: "node_at h1 b = Some (NObject u)" by (rule other_kept [OF x(2) assms(3) x(3) assms(4) Cons.prems(3)])
  show ?case
  proof (cases "r = 0")
    case False
    with x p(1) show ?thesis by auto
  next
    case True
    have "size (refs h1 + E) + length ns + 2 < 2 ^ 64" using Cons.prems(5) x(4) by simp
    with Cons.IH [OF x(2,6) b1] Cons.prems(4) obtain r' h' t' where
      y: "update_loop e h1 (Some a) (Some b) ns = Some (r', h')" "sound e h' E" "edits h1 h' a" "r' = 0 \<or> r' = -1"
        "node_at h' a = Some (NObject t')"
        "r' = 0 \<longrightarrow> entries t' = foldl (\<lambda>kvs n. obj_set (key_of u n) (val_of u n) kvs) (entries t1) ns" by auto
    have "edits h h' a" using x(3) y(3) by (simp add: edits_def)
    moreover have "update_loop e h (Some a) (Some b) (n # ns) = Some (r', h')" using x(1) p(1) y(1) True by simp
    ultimately show ?thesis using y x(7) True by auto
  qed
qed

lemma foldl_entries:
  "foldl (\<lambda>kvs n. obj_set (key_of u n) (val_of u n) kvs) kvs (ht_ordered u) =
   foldl (\<lambda>kvs p. obj_set (fst p) (snd p) kvs) kvs (entries u)"
  by (simp add: entries_def key_of_def val_of_def foldl_map)

lemma foldl_obj_set_map: "distinct (map fst ps) \<Longrightarrow>
    map_of (foldl (\<lambda>kvs p. obj_set (fst p) (snd p) kvs) kvs ps) = map_of kvs ++ map_of ps"
proof (induction ps arbitrary: kvs)
  case (Cons p ps)
  then have "map_of ps (fst p) = None" by (simp add: map_of_eq_None_iff)
  with Cons show ?case by (cases p) (auto simp: obj_set_map_of fun_eq_iff map_add_def split: option.split)
qed simp

lemma json_object_update_sound:
  assumes "sound e h E" "a \<in># E" "b \<in># E" "a \<noteq> b" "node_at h a = Some (NObject t)" "node_at h b = Some (NObject u)"
    "size (refs h + E) + ht_size u + 2 < 2 ^ 64"
  shows "\<exists>r h' t'. json_object_update e h (Some a) (Some b) = Some (r, h') \<and> sound e h' E \<and> edits h h' a \<and> (r = 0 \<or> r = -1) \<and>
    node_at h' a = Some (NObject t') \<and>
    (r = 0 \<longrightarrow> entries t' = foldl (\<lambda>kvs p. obj_set (fst p) (snd p) kvs) (entries t) (entries u) \<and>
       map_of (entries t') = map_of (entries t) ++ map_of (entries u))"
proof -
  have i: "ht_inv (env_hash e) u" by (rule sound_object [OF assms(1,6)])
  then have "ht_size u = length (ht_ordered u)" by (simp add: ht_inv_def pairs_inv_def)
  then obtain r h' t' where x: "update_loop e h (Some a) (Some b) (ht_ordered u) = Some (r, h')" "sound e h' E" "edits h h' a"
      "r = 0 \<or> r = -1" "node_at h' a = Some (NObject t')"
      "r = 0 \<longrightarrow> entries t' = foldl (\<lambda>kvs p. obj_set (fst p) (snd p) kvs) (entries t) (entries u)"
    using update_loop_sound [OF assms(1-6) order.refl] assms(7) unfolding foldl_entries by auto
  have "json_object_update e h (Some a) (Some b) = Some (r, h')"
    by (simp add: json_object_update_def as_object_node [OF assms(5)] as_object_node [OF assms(6)] x(1))
  with x foldl_obj_set_map [OF entries_distinct [OF i], of "entries t"] show ?thesis by auto
qed

lemma update_some_loop_sound:
  assumes "sound e h E" "a \<in># E" "b \<in># E" "a \<noteq> b" "node_at h a = Some (NObject t)" "node_at h b = Some (NObject u)"
    "set ns \<subseteq> set (ht_ordered u)" "size (refs h + E) + length ns + 2 < 2 ^ 64"
  shows "\<exists>h' t'. update_some_loop e present h (Some a) (Some b) ns = Some (0, h') \<and> sound e h' E \<and> edits h h' a \<and>
    node_at h' a = Some (NObject t') \<and>
    (if present then map fst (entries t') = map fst (entries t)
     else \<exists>extra. entries t' = entries t @ extra \<and> set extra \<subseteq> set (entries u))"
  using assms(1,5-8)
proof (induction ns arbitrary: h t)
  case Nil
  then show ?case by (auto simp: edits_def)
next
  case (Cons n ns)
  have n: "n \<in> set (ht_ordered u)" using Cons.prems(4) by simp
  note p = pair_at_other [OF Cons.prems(1,3) n]
  obtain m where m: "node_at h (val_of u n) = Some m" using p(2) by blast
  have bd: "size (refs h + E) + 2 < 2 ^ 64" using Cons.prems(5) by simp
  let ?in = "key_of u n \<in> fst ` set (entries t)"
  have g: "json_object_getn e h (Some a) (Some (key_of u n)) = Some (map_of (entries t) (key_of u n))"
    by (rule json_object_getn_entries [OF Cons.prems(1,2)])
  have pu: "(key_of u n, val_of u n) \<in> set (entries u)" using n by (auto simp: entries_def key_of_def val_of_def)
  obtain r h1 t1 where x: "(if (map_of (entries t) (key_of u n) \<noteq> None) = present
        then json_object_setn_nocheck e h (Some a) (Some (key_of u n)) (Some (val_of u n)) else Some (0, h)) = Some (r, h1)"
      "sound e h1 E" "edits h h1 a" "size (refs h1) \<le> Suc (size (refs h))" "node_at h1 a = Some (NObject t1)"
      "entries t1 = entries t \<or> ?in = present \<and> entries t1 = obj_set (key_of u n) (val_of u n) (entries t)"
  proof (cases "(map_of (entries t) (key_of u n) \<noteq> None) = present")
    case True
    then have "?in = present" by (simp add: map_of_eq_None_iff)
    with True json_object_setn_nocheck_sound [OF Cons.prems(1) assms(2) Cons.prems(2) m bd, of "key_of u n"] that
    show ?thesis by (metis (full_types))
  next
    case False
    with Cons.prems(1,2) that [of 0 h t] show ?thesis by (auto simp: edits_def)
  qed
  have b1: "node_at h1 b = Some (NObject u)" by (rule other_kept [OF x(2) assms(3) x(3) assms(4) Cons.prems(3)])
  have "size (refs h1 + E) + length ns + 2 < 2 ^ 64" using Cons.prems(5) x(4) by simp
  with Cons.IH [OF x(2,5) b1] Cons.prems(4) obtain h' t' where
    y: "update_some_loop e present h1 (Some a) (Some b) ns = Some (0, h')" "sound e h' E" "edits h1 h' a"
      "node_at h' a = Some (NObject t')"
      "if present then map fst (entries t') = map fst (entries t1)
       else \<exists>extra. entries t' = entries t1 @ extra \<and> set extra \<subseteq> set (entries u)" by auto
  have "edits h h' a" using x(3) y(3) by (simp add: edits_def)
  moreover have "update_some_loop e present h (Some a) (Some b) (n # ns) = Some (0, h')" using x(1) p(1) g y(1) by simp
  moreover have "if present then map fst (entries t') = map fst (entries t)
      else \<exists>extra. entries t' = entries t @ extra \<and> set extra \<subseteq> set (entries u)"
  proof (cases present)
    case True
    then have "map fst (entries t1) = map fst (entries t)" using x(6) by (elim disjE conjE) (simp_all add: obj_set_keys)
    with True y(5) show ?thesis by simp
  next
    case False
    then have "entries t1 = entries t \<or> entries t1 = entries t @ [(key_of u n, val_of u n)]" using x(6) by (auto simp: obj_set_new)
    with False y(5) pu show ?thesis by auto
  qed
  ultimately show ?case using y by blast
qed


lemma update_some_sound:
  assumes "sound e h E" "a \<in># E" "b \<in># E" "a \<noteq> b" "node_at h a = Some (NObject t)" "node_at h b = Some (NObject u)"
    "size (refs h + E) + ht_size u + 2 < 2 ^ 64"
  shows "\<exists>h' t'. update_some e present h (Some a) (Some b) = Some (0, h') \<and> sound e h' E \<and> edits h h' a \<and>
    node_at h' a = Some (NObject t') \<and>
    (if present then map fst (entries t') = map fst (entries t)
     else \<exists>extra. entries t' = entries t @ extra \<and> set extra \<subseteq> set (entries u))"
proof -
  have "ht_size u = length (ht_ordered u)" using sound_object [OF assms(1,6)] by (simp add: ht_inv_def pairs_inv_def)
  with update_some_loop_sound [OF assms(1-6) order.refl, of present] assms(7) show ?thesis
    by (auto simp: update_some_def as_object_node [OF assms(5)] as_object_node [OF assms(6)])
qed

end
