(* ===== verification/Pack.thy ===== *)
theory Pack
  imports Value
begin

text \<open>
  Building and taking apart values with format strings, \<^verbatim>\<open>src/jansson/src/pack_unpack.c\<close>: the scanner of the
  format with its one token of lookahead, the packer and the unpacker. The variable arguments
  are a list of typed arguments; fetching an argument of another type than the caller passed,
  or one too many, or reading beyond a string argument, is the caller's mistake and undefined in C: \<open>BadArg\<close>.
  An access to freed memory is \<open>Fault\<close>. The recursions carry fuel, and running out of it is \<open>Stuck\<close>;
  the entry points supply enough.
\<close>

subsection \<open>Results\<close>

datatype 'a run = Done 'a | BadArg | Fault | Stuck

fun rbind :: "'a run \<Rightarrow> ('a \<Rightarrow> 'b run) \<Rightarrow> 'b run" where
  "rbind (Done x) f = f x"
| "rbind BadArg f = BadArg"
| "rbind Fault f = Fault"
| "rbind Stuck f = Stuck"

definition or_fault :: "'a option \<Rightarrow> 'a run" where
  "or_fault p = (case p of None \<Rightarrow> Fault | Some x \<Rightarrow> Done x)"

subsection \<open>Format scanner\<close>

abbreviation ch :: "char \<Rightarrow> byte" where
  "ch c \<equiv> of_char c"

record token_t =
  t_line :: int
  t_column :: int
  t_pos :: int
  t_token :: byte

record scanner =
  s_fmt :: bytes          \<comment> \<open>the format from the reading position\<close>
  s_prev :: token_t
  s_token :: token_t
  s_next :: token_t
  s_error :: "json_error option"
  s_flags :: size_t
  s_line :: int
  s_column :: int
  s_pos :: int
  s_has_error :: bool

definition no_token :: token_t where
  "no_token = \<lparr>t_line = 0, t_column = 0, t_pos = 0, t_token = 0\<rparr>"

definition scanner_init :: "json_error option \<Rightarrow> size_t \<Rightarrow> bytes \<Rightarrow> scanner" where
  "scanner_init error flags fmt =
     \<lparr>s_fmt = fmt, s_prev = no_token, s_token = no_token, s_next = no_token, s_error = error, s_flags = flags,
      s_line = 1, s_column = 0, s_pos = 0, s_has_error = False\<rparr>"

abbreviation token_of :: "scanner \<Rightarrow> byte" where
  "token_of s \<equiv> t_token (s_token s)"

text \<open>The loop over spaces and ignored characters: the rest of the format, line, column and position.\<close>

fun skip_ignored :: "bytes \<Rightarrow> int \<Rightarrow> int \<Rightarrow> int \<Rightarrow> bytes \<times> int \<times> int \<times> int" where
  "skip_ignored (b # t) line column pos =
     (if b = 32 \<or> b = 9 \<or> b = 10 \<or> b = 44 \<or> b = 58 then
        (if b = 10 then skip_ignored t (line + 1) 1 (pos + 1) else skip_ignored t line (column + 1) (pos + 1))
      else (b # t, line, column, pos))"
| "skip_ignored [] line column pos = ([], line, column, pos)"

definition next_token :: "scanner \<Rightarrow> scanner" where
  "next_token s0 =
     (let s = s0\<lparr>s_prev := s_token s0\<rparr> in
      if t_line (s_next s) \<noteq> 0 then s\<lparr>s_token := s_next s, s_next := (s_next s)\<lparr>t_line := 0\<rparr>\<rparr>
      else if token_of s = 0 \<and> s_fmt s = [] then s
      else
        let (t, line, column, pos) = skip_ignored (s_fmt s) (s_line s) (s_column s + 1) (s_pos s + 1);
            c = (case t of [] \<Rightarrow> 0 | b # _ \<Rightarrow> b)
        in s\<lparr>s_token := \<lparr>t_line = line, t_column = column, t_pos = pos, t_token = c\<rparr>,
             s_line := line, s_column := column, s_pos := pos, s_fmt := tl t\<rparr>)"

definition prev_token :: "scanner \<Rightarrow> scanner" where
  "prev_token s = s\<lparr>s_next := s_token s, s_token := s_prev s\<rparr>"

definition set_error :: "scanner \<Rightarrow> bytes \<Rightarrow> json_error_code \<Rightarrow> bytes \<Rightarrow> scanner" where
  "set_error s source code msg =
     s\<lparr>s_error := map_option (\<lambda>err. jsonp_error_set_source err source)
        (jsonp_error_vset (s_error s) (t_line (s_token s)) (t_column (s_token s)) (t_pos (s_token s)) code msg)\<rparr>"

text \<open>\<open>set_error(...); s->has_error = 1;\<close>\<close>

definition fail_with :: "scanner \<Rightarrow> bytes \<Rightarrow> json_error_code \<Rightarrow> bytes \<Rightarrow> scanner" where
  "fail_with s source code msg = (set_error s source code msg)\<lparr>s_has_error := True\<rparr>"

subsection \<open>Arguments and state\<close>

text \<open>\<open>ANull\<close> is a null pointer of any type; \<open>ATarget\<close> points to a variable of the caller.\<close>

datatype 'r arg =
    ANull
  | AStr bytes
  | AInt int
  | AInt64 int
  | ASize size_t
  | AReal 'r
  | AJson addr
  | ATarget nat

text \<open>What the unpacker stores in the caller's variables.\<close>

datatype 'r out =
    OStr bytes
  | OLen nat
  | OInt int
  | OInt64 int
  | OReal 'r
  | OJson addr

record 'r pstate =
  p_s :: scanner
  p_ap :: "'r arg list"
  p_h :: "'r heap"
  p_out :: "(nat \<times> 'r out) list"

definition on_s :: "(scanner \<Rightarrow> scanner) \<Rightarrow> 'r pstate \<Rightarrow> 'r pstate" where
  "on_s f p = p\<lparr>p_s := f (p_s p)\<rparr>"

abbreviation tok :: "'r pstate \<Rightarrow> byte" where
  "tok p \<equiv> token_of (p_s p)"

abbreviation errs :: "'r pstate \<Rightarrow> bool" where
  "errs p \<equiv> s_has_error (p_s p)"

definition va_arg :: "('r arg \<Rightarrow> 'x option) \<Rightarrow> 'r pstate \<Rightarrow> ('x \<times> 'r pstate) run" where
  "va_arg conv p =
     (case p_ap p of [] \<Rightarrow> BadArg
      | a # as \<Rightarrow> (case conv a of None \<Rightarrow> BadArg | Some x \<Rightarrow> Done (x, p\<lparr>p_ap := as\<rparr>)))"

fun as_str :: "'r arg \<Rightarrow> bytes option option" where
  "as_str ANull = Some None" | "as_str (AStr b) = Some (Some b)" | "as_str _ = None"
fun as_int :: "'r arg \<Rightarrow> int option" where
  "as_int (AInt i) = Some i" | "as_int _ = None"
fun as_int64 :: "'r arg \<Rightarrow> int option" where
  "as_int64 (AInt64 i) = Some i" | "as_int64 _ = None"
fun as_size :: "'r arg \<Rightarrow> size_t option" where
  "as_size (ASize n) = Some n" | "as_size _ = None"
fun as_dbl :: "'r arg \<Rightarrow> 'r option" where
  "as_dbl (AReal r) = Some r" | "as_dbl _ = None"
fun as_json :: "'r arg \<Rightarrow> ptr option" where
  "as_json ANull = Some None" | "as_json (AJson a) = Some (Some a)" | "as_json _ = None"
fun as_target :: "'r arg \<Rightarrow> nat option option" where
  "as_target ANull = Some None" | "as_target (ATarget x) = Some (Some x)" | "as_target _ = None"

subsection \<open>Strings of the format\<close>

definition quoted :: "byte \<Rightarrow> bytes" where
  "quoted c = [39, c, 39]"

abbreviation oom :: "scanner \<Rightarrow> scanner" where
  "oom s \<equiv> fail_with s (asc ''<internal>'') json_error_out_of_memory (asc ''Out of memory'')"

text \<open>The length of a piece: given by an argument after \<open>#\<close> or \<open>%\<close>, else that of the C string.\<close>

definition piece_length :: "bytes option \<Rightarrow> 'r pstate \<Rightarrow> (size_t \<times> 'r pstate) run" where
  "piece_length str p0 =
     (let p1 = on_s next_token p0 in
      if tok p1 = ch CHR ''#'' then rbind (va_arg as_int p1) (\<lambda>(i, p2). Done (of_int i, p2))
      else if tok p1 = ch CHR ''%'' then va_arg as_size p1
      else Done (if errs p0 then 0 else of_nat (length (cstr (the str))), on_s prev_token p1))"

definition append_piece ::
    "(size_t \<Rightarrow> bytes option) \<Rightarrow> strbuffer \<Rightarrow> bytes option \<Rightarrow> size_t \<Rightarrow> 'r pstate \<Rightarrow> (strbuffer \<times> 'r pstate) run" where
  "append_piece m sb str len p =
     (if errs p then Done (sb, p)
      else if unat len > length (the str) + 1 then BadArg
      else case strbuffer_append_bytes m sb (the str @ [0]) len of
             (r, sb') \<Rightarrow> Done (sb', if r = -1 then on_s oom p else p))"

definition null_arg :: "bytes \<Rightarrow> scanner \<Rightarrow> scanner" where
  "null_arg purpose s = fail_with s (asc ''<args>'') json_error_null_value (asc ''NULL '' @ purpose)"

definition bad_utf8 :: "bytes \<Rightarrow> scanner \<Rightarrow> scanner" where
  "bad_utf8 purpose s = fail_with s (asc ''<args>'') json_error_invalid_utf8 (asc ''Invalid UTF-8 '' @ purpose)"

text \<open>The loop of \<open>read_string\<close> that collects the pieces of a concatenated string.\<close>

fun read_pieces :: "(size_t \<Rightarrow> bytes option) \<Rightarrow> nat \<Rightarrow> bytes \<Rightarrow> strbuffer \<Rightarrow> 'r pstate \<Rightarrow> (strbuffer \<times> 'r pstate) run" where
  "read_pieces m 0 purpose sb p = Stuck"
| "read_pieces m (Suc n) purpose sb p =
     rbind (va_arg as_str p) (\<lambda>(str, p1).
       rbind (piece_length str (if str = None then on_s (null_arg purpose) p1 else p1)) (\<lambda>(len, p2).
         rbind (append_piece m sb str len p2) (\<lambda>(sb', p3).
           if tok (on_s next_token p3) \<noteq> ch CHR ''+'' then Done (sb', on_s prev_token (on_s next_token p3))
           else read_pieces m n purpose sb' (on_s next_token p3))))"

text \<open>The string with its length, and whether the caller has to free it.\<close>

definition read_string ::
    "(size_t \<Rightarrow> bytes option) \<Rightarrow> nat \<Rightarrow> bytes \<Rightarrow> bool \<Rightarrow> 'r pstate \<Rightarrow> ((bytes option \<times> bool) \<times> 'r pstate) run" where
  "read_string m n purpose optional p0 =
     (let p1 = on_s next_token p0; t = tok p1; p2 = on_s prev_token p1 in
      if t \<noteq> ch CHR ''#'' \<and> t \<noteq> ch CHR ''%'' \<and> t \<noteq> ch CHR ''+'' then
        rbind (va_arg as_str p2) (\<lambda>(str, p3).
          case str of
            None \<Rightarrow>
              Done ((None, False), if optional then p3 else on_s (null_arg purpose) p3)
          | Some b \<Rightarrow>
              if \<not> utf8_check_string (cstr b) (length (cstr b)) then
                Done ((None, False), on_s (bad_utf8 purpose) p3)
              else Done ((Some (cstr b), False), p3))
      else if optional then
        Done ((None, False), on_s (\<lambda>s. fail_with s (asc ''<format>'') json_error_invalid_format
            (asc ''Cannot use '' @ quoted t @ asc '' on optional strings'')) p2)
      else
        let (r, sb0) = strbuffer_init m; p3 = (if r \<noteq> 0 then on_s oom p2 else p2) in
        rbind (read_pieces m n purpose sb0 p3) (\<lambda>(sb, p4).
          if errs p4 then Done ((None, False), p4)
          else
            let str = take (unat (sb_length sb)) (the (sb_value sb)) in
            if \<not> utf8_check_string str (length str) then
              Done ((None, False), on_s (bad_utf8 purpose) p4)
            else Done ((Some str, True), p4)))"

definition pack_string :: "('r, 'z) jenv_scheme \<Rightarrow> (size_t \<Rightarrow> bytes option) \<Rightarrow> nat \<Rightarrow> 'r pstate \<Rightarrow> (ptr \<times> 'r pstate) run" where
  "pack_string e m n p0 =
     (let p1 = on_s next_token p0; t = tok p1;
          optional = (t = ch CHR ''?'' \<or> t = ch CHR ''*'');
          p2 = (if optional then p1 else on_s prev_token p1)
      in rbind (read_string m n (asc ''string'') optional p2) (\<lambda>((str, ours), p3).
           case str of
             None \<Rightarrow> Done (if t = ch CHR ''?'' \<and> \<not> errs p3 then json_null else None, p3)
           | Some v \<Rightarrow>
               if errs p3 then Done (None, p3)
               else
                 let (r, h) = (if ours then jsonp_stringn_nocheck_own e (p_h p3) str else json_stringn_nocheck e (p_h p3) str)
                 in Done (r, p3\<lparr>p_h := h\<rparr>)))"

definition pack_object_inter :: "bool \<Rightarrow> 'r pstate \<Rightarrow> (ptr \<times> 'r pstate) run" where
  "pack_object_inter need_incref p0 =
     (let p1 = on_s next_token p0; ntoken = tok p1;
          p2 = (if ntoken \<noteq> ch CHR ''?'' \<and> ntoken \<noteq> ch CHR ''*'' then on_s prev_token p1 else p1)
      in rbind (va_arg as_json p2) (\<lambda>(json, p3).
           case json of
             Some a \<Rightarrow>
               if need_incref then rbind (or_fault (json_incref (p_h p3) json)) (\<lambda>h. Done (json, p3\<lparr>p_h := h\<rparr>))
               else Done (json, p3)
           | None \<Rightarrow>
               if ntoken = ch CHR ''?'' then Done (json_null, p3)
               else if ntoken = ch CHR ''*'' then Done (None, p3)
               else Done (None, on_s (\<lambda>s. fail_with s (asc ''<args>'') json_error_null_value (asc ''NULL object'')) p3)))"

definition pack_integer :: "('r, 'z) jenv_scheme \<Rightarrow> int \<Rightarrow> 'r pstate \<Rightarrow> ptr \<times> 'r pstate" where
  "pack_integer e value p =
     (let (json, h) = json_integer e (p_h p) value; p1 = p\<lparr>p_h := h\<rparr>
      in (json, if json = None then on_s oom p1 else p1))"

definition pack_real :: "('r, 'z) jenv_scheme \<Rightarrow> 'r \<Rightarrow> 'r pstate \<Rightarrow> (ptr \<times> 'r pstate) run" where
  "pack_real e value p =
     (let (json, h) = json_real e (p_h p) (c_zero e); p1 = p\<lparr>p_h := h\<rparr> in
      if json = None then Done (None, on_s oom p1)
      else rbind (or_fault (json_real_set e h json value)) (\<lambda>(r, h1).
        if r \<noteq> 0 then
          rbind (or_fault (json_decref h1 json)) (\<lambda>h2.
            Done (None, on_s (\<lambda>s. fail_with s (asc ''<args>'') json_error_numeric_overflow (asc ''Invalid floating point value''))
              (p1\<lparr>p_h := h2\<rparr>)))
        else Done (json, p1\<lparr>p_h := h1\<rparr>)))"

subsection \<open>Packing\<close>

abbreviation bad_format :: "bytes \<Rightarrow> scanner \<Rightarrow> scanner" where
  "bad_format msg s \<equiv> set_error s (asc ''<format>'') json_error_invalid_format msg"

text \<open>The error exit of \<open>pack_object\<close> and \<open>pack_array\<close>.\<close>

definition pack_error :: "ptr \<Rightarrow> 'r pstate \<Rightarrow> (ptr \<times> 'r pstate) run" where
  "pack_error json p = rbind (or_fault (json_decref (p_h p) json)) (\<lambda>h. Done (None, p\<lparr>p_h := h\<rparr>))"

text \<open>What the two loops do with a packed value: release it after an error, else store it.\<close>

definition pack_store ::
    "('r heap \<Rightarrow> ptr \<Rightarrow> (int \<times> 'r heap) option) \<Rightarrow> bytes \<Rightarrow> ptr \<Rightarrow> 'r pstate \<Rightarrow> 'r pstate run" where
  "pack_store put msg value p =
     (if errs p then rbind (or_fault (json_decref (p_h p) value)) (\<lambda>h. Done (p\<lparr>p_h := h\<rparr>))
      else rbind (or_fault (put (p_h p) value)) (\<lambda>(r, h).
        let p1 = p\<lparr>p_h := h\<rparr> in
        Done (if r \<noteq> 0 then on_s (\<lambda>s. fail_with s (asc ''<internal>'') json_error_out_of_memory msg) p1 else p1)))"

function (sequential) pack :: "('r, 'z) jenv_scheme \<Rightarrow> (size_t \<Rightarrow> bytes option) \<Rightarrow> nat \<Rightarrow> 'r pstate \<Rightarrow> (ptr \<times> 'r pstate) run"
  and pack_object :: "('r, 'z) jenv_scheme \<Rightarrow> (size_t \<Rightarrow> bytes option) \<Rightarrow> nat \<Rightarrow> ptr \<Rightarrow> 'r pstate \<Rightarrow> (ptr \<times> 'r pstate) run"
  and pack_array :: "('r, 'z) jenv_scheme \<Rightarrow> (size_t \<Rightarrow> bytes option) \<Rightarrow> nat \<Rightarrow> ptr \<Rightarrow> 'r pstate \<Rightarrow> (ptr \<times> 'r pstate) run"
where
  "pack e m 0 p = Stuck"
| "pack e m (Suc n) p =
     (let t = tok p in
      if t = ch CHR ''{'' then
        let (object, h) = json_object e (p_h p) in pack_object e m n object (on_s next_token (p\<lparr>p_h := h\<rparr>))
      else if t = ch CHR ''['' then
        let (array, h) = json_array e (p_h p) in pack_array e m n array (on_s next_token (p\<lparr>p_h := h\<rparr>))
      else if t = ch CHR ''s'' then pack_string e m n p
      else if t = ch CHR ''n'' then Done (json_null, p)
      else if t = ch CHR ''b'' then
        rbind (va_arg as_int p) (\<lambda>(i, p1). Done (if i \<noteq> 0 then json_true else json_false, p1))
      else if t = ch CHR ''i'' then rbind (va_arg as_int p) (\<lambda>(i, p1). Done (pack_integer e i p1))
      else if t = ch CHR ''I'' then rbind (va_arg as_int64 p) (\<lambda>(i, p1). Done (pack_integer e i p1))
      else if t = ch CHR ''f'' then rbind (va_arg as_dbl p) (\<lambda>(r, p1). pack_real e r p1)
      else if t = ch CHR ''O'' then pack_object_inter True p
      else if t = ch CHR ''o'' then pack_object_inter False p
      else Done (None, on_s (\<lambda>s. fail_with s (asc ''<format>'') json_error_invalid_format
             (asc ''Unexpected format character '' @ quoted t)) p))"
| "pack_object e m 0 object p = Stuck"
| "pack_object e m (Suc n) object p =
     (if tok p = ch CHR ''}'' then (if \<not> errs p then Done (object, p) else pack_error object p)
      else if tok p = 0 then pack_error object (on_s (bad_format (asc ''Unexpected end of format string'')) p)
      else if tok p \<noteq> ch CHR ''s'' then
        pack_error object (on_s (bad_format (asc ''Expected format '' @ quoted (ch CHR ''s'') @ asc '', got '' @ quoted (tok p))) p)
      else rbind (read_string m n (asc ''object key'') False p) (\<lambda>((key, ours), p1).
        let p2 = on_s next_token p1;
            p3 = on_s next_token p2;
            valueOptional = tok p3
        in rbind (pack e m n (on_s prev_token p3)) (\<lambda>(value, p4).
             case value of
               None \<Rightarrow>
                 pack_object e m n object (on_s next_token
                   (if valueOptional \<noteq> ch CHR ''*'' then
                      on_s (\<lambda>s. fail_with s (asc ''<args>'') json_error_null_value (asc ''NULL object value'')) p4
                    else p4))
             | Some v \<Rightarrow>
                 rbind (pack_store (\<lambda>h v. json_object_set_new_nocheck e h object key v)
                     (asc ''Unable to add key '' @ [34] @ cstr (the key) @ [34]) value p4)
                   (\<lambda>p5. pack_object e m n object (on_s next_token p5)))))"
| "pack_array e m 0 array p = Stuck"
| "pack_array e m (Suc n) array p =
     (if tok p = ch CHR '']'' then (if \<not> errs p then Done (array, p) else pack_error array p)
      else if tok p = 0 then pack_error array (on_s (bad_format (asc ''Unexpected end of format string'')) p)
      else
        let p1 = on_s next_token p;
            valueOptional = tok p1
        in rbind (pack e m n (on_s prev_token p1)) (\<lambda>(value, p2).
             case value of
               None \<Rightarrow>
                 pack_array e m n array (on_s next_token
                   (if valueOptional \<noteq> ch CHR ''*'' then on_s (\<lambda>s. s\<lparr>s_has_error := True\<rparr>) p2 else p2))
             | Some v \<Rightarrow>
                 rbind (pack_store (\<lambda>h v. json_array_append_new e h array v) (asc ''Unable to append to array'') value p2)
                   (\<lambda>p3. pack_array e m n array (on_s next_token p3))))"
  by pat_completeness auto
termination
  by (relation "measure (\<lambda>x. case x of Inl (e, m, n, p) \<Rightarrow> n | Inr (Inl (e, m, n, object, p)) \<Rightarrow> n
      | Inr (Inr (e, m, n, array, p)) \<Rightarrow> n)") auto

declare pack.simps [simp del] pack_object.simps [simp del] pack_array.simps [simp del]

text \<open>Twice the length of the format plus a constant is enough for the recursion.\<close>

definition pack_fuel :: "bytes \<Rightarrow> nat" where
  "pack_fuel fmt = 2 * length fmt + 5"

text \<open>The result, the error record, the heap.\<close>

definition json_vpack_ex ::
    "('r, 'z) jenv_scheme \<Rightarrow> (size_t \<Rightarrow> bytes option) \<Rightarrow> 'r heap \<Rightarrow> json_error option \<Rightarrow> size_t \<Rightarrow> bytes option \<Rightarrow> 'r arg list \<Rightarrow>
     (ptr \<times> json_error option \<times> 'r heap) run" where
  "json_vpack_ex e m h error flags fmt ap =
     (case fmt of
        None \<Rightarrow> Done (None, jsonp_error_vset (jsonp_error_init error (Some (asc ''<format>''))) (-1) (-1) 0
                  json_error_invalid_argument (asc ''NULL or empty format string''), h)
      | Some f \<Rightarrow>
          let f = cstr f in
          if f = [] then Done (None, jsonp_error_vset (jsonp_error_init error (Some (asc ''<format>''))) (-1) (-1) 0
                  json_error_invalid_argument (asc ''NULL or empty format string''), h)
          else
            let s = next_token (scanner_init (jsonp_error_init error None) flags f) in
            rbind (pack e m (pack_fuel f) \<lparr>p_s = s, p_ap = ap, p_h = h, p_out = []\<rparr>) (\<lambda>(value, p).
              if value = None then Done (None, s_error (p_s p), p_h p)
              else
                let p1 = on_s next_token p in
                if tok p1 \<noteq> 0 then
                  rbind (or_fault (json_decref (p_h p1) value)) (\<lambda>h1.
                    Done (None, s_error (bad_format (asc ''Garbage after format string'') (p_s p1)), h1))
                else Done (value, s_error (p_s p1), p_h p1)))"

definition json_pack_ex ::
    "('r, 'z) jenv_scheme \<Rightarrow> (size_t \<Rightarrow> bytes option) \<Rightarrow> 'r heap \<Rightarrow> json_error option \<Rightarrow> size_t \<Rightarrow> bytes option \<Rightarrow> 'r arg list \<Rightarrow>
     (ptr \<times> json_error option \<times> 'r heap) run" where
  "json_pack_ex e m h error flags fmt ap = json_vpack_ex e m h error flags fmt ap"

definition json_pack ::
    "('r, 'z) jenv_scheme \<Rightarrow> (size_t \<Rightarrow> bytes option) \<Rightarrow> 'r heap \<Rightarrow> bytes option \<Rightarrow> 'r arg list \<Rightarrow> (ptr \<times> json_error option \<times> 'r heap) run" where
  "json_pack e m h fmt ap = json_vpack_ex e m h None 0 fmt ap"

end
