(* ===== verification/Unpack.thy ===== *)
theory Unpack
  imports Pack
begin

text \<open>
  The unpacker of \<^verbatim>\<open>src/jansson/src/pack_unpack.c\<close>: it checks a value against a format and stores its parts in
  the caller's variables. The stores are recorded in \<open>p_out\<close>, in their order. A null root
  means that an optional part is absent: the format is walked and the arguments are consumed
  without storing anything.
\<close>

definition JSON_VALIDATE_ONLY :: size_t where "JSON_VALIDATE_ONLY = 0x1"
definition JSON_STRICT :: size_t where "JSON_STRICT = 0x2"

definition type_names :: "bytes list" where
  "type_names = map asc [''object'', ''array'', ''string'', ''integer'', ''real'', ''true'', ''false'', ''null'']"

definition type_name :: "'r node \<Rightarrow> bytes" where
  "type_name n = type_names ! json_typeof n"

definition unpack_value_starters :: bytes where
  "unpack_value_starters = asc ''{[siIbfFOon''"

subsection \<open>Leaves\<close>

definition root_node :: "'r heap \<Rightarrow> ptr \<Rightarrow> 'r node option run" where
  "root_node h root = (case root of None \<Rightarrow> Done None | Some a \<Rightarrow> rbind (or_fault (node_at h a)) (\<lambda>n. Done (Some n)))"

definition validation :: "json_error_code \<Rightarrow> bytes \<Rightarrow> 'r pstate \<Rightarrow> 'r pstate" where
  "validation code msg p = on_s (\<lambda>s. set_error s (asc ''<validation>'') code msg) p"

definition wrong_type :: "string \<Rightarrow> 'r node \<Rightarrow> 'r pstate \<Rightarrow> int \<times> 'r pstate" where
  "wrong_type expected n p =
     (-1, validation json_error_wrong_type (asc ''Expected '' @ asc expected @ asc '', got '' @ type_name n) p)"

definition store_to :: "nat option \<Rightarrow> 'r out \<Rightarrow> 'r pstate \<Rightarrow> 'r pstate run" where
  "store_to target x p = (case target of None \<Rightarrow> BadArg | Some t \<Rightarrow> Done (p\<lparr>p_out := p_out p @ [(t, x)]\<rparr>))"

abbreviation validate_only :: "'r pstate \<Rightarrow> bool" where
  "validate_only p \<equiv> flag (s_flags (p_s p)) JSON_VALIDATE_ONLY"

text \<open>The cases \<open>i\<close>, \<open>I\<close>, \<open>b\<close>, \<open>f\<close> and \<open>F\<close>: the test, what is expected, and the value stored.\<close>

definition unpack_plain ::
    "('r node \<Rightarrow> bool) \<Rightarrow> string \<Rightarrow> ('r node \<Rightarrow> 'r out) \<Rightarrow> ptr \<Rightarrow> 'r pstate \<Rightarrow> (int \<times> 'r pstate) run" where
  "unpack_plain test expected val root p =
     rbind (root_node (p_h p) root) (\<lambda>rn.
       case rn of
         Some n \<Rightarrow>
           if \<not> test n then Done (wrong_type expected n p)
           else if validate_only p then Done (0, p)
           else rbind (va_arg as_target p) (\<lambda>(target, p1). rbind (store_to target (val n) p1) (\<lambda>p2. Done (0, p2)))
       | None \<Rightarrow>
           if validate_only p then Done (0, p) else rbind (va_arg as_target p) (\<lambda>(target, p1). Done (0, p1)))"

definition is_integer_node :: "'r node \<Rightarrow> bool" where
  "is_integer_node n = (case n of NInteger _ \<Rightarrow> True | _ \<Rightarrow> False)"
definition is_boolean_node :: "'r node \<Rightarrow> bool" where
  "is_boolean_node n = (case n of NTrue \<Rightarrow> True | NFalse \<Rightarrow> True | _ \<Rightarrow> False)"
definition is_real_node :: "'r node \<Rightarrow> bool" where
  "is_real_node n = (case n of NReal _ \<Rightarrow> True | _ \<Rightarrow> False)"

definition integer_of :: "'r node \<Rightarrow> int" where
  "integer_of n = (case n of NInteger i \<Rightarrow> i | _ \<Rightarrow> 0)"
definition number_of :: "('r, 'z) jenv_scheme \<Rightarrow> 'r node \<Rightarrow> 'r" where
  "number_of e n = (case n of NInteger i \<Rightarrow> c_real_of_int e i | NReal r \<Rightarrow> r | _ \<Rightarrow> c_zero e)"

text \<open>The conversion \<open>(int)\<close> of a 64-bit integer keeps its low 32 bits.\<close>

definition to_int :: "int \<Rightarrow> int" where
  "to_int i = sint (of_int i :: 32 word)"

text \<open>The case \<open>s\<close>, once the type is known to be right.\<close>

definition unpack_string_to :: "'r node option \<Rightarrow> 'r pstate \<Rightarrow> (int \<times> 'r pstate) run" where
  "unpack_string_to rn p0 =
     (if validate_only p0 then Done (0, p0)
      else rbind (va_arg as_target p0) (\<lambda>(str_target, p1).
        if str_target = None then
          Done (-1, on_s (\<lambda>s. set_error s (asc ''<args>'') json_error_null_value (asc ''NULL string argument'')) p1)
        else
          let p2 = on_s next_token p1;
              text = (case rn of Some (NString s) \<Rightarrow> s | _ \<Rightarrow> [])
          in if tok p2 = ch CHR ''%'' then
               rbind (va_arg as_target p2) (\<lambda>(len_target, p3).
                 if len_target = None then
                   Done (-1, on_s (\<lambda>s. set_error s (asc ''<args>'') json_error_null_value (asc ''NULL string length argument'')) p3)
                 else if rn = None then Done (0, p3)
                 else rbind (store_to str_target (OStr text) p3) (\<lambda>p4.
                        rbind (store_to len_target (OLen (length text)) p4) (\<lambda>p5. Done (0, p5))))
             else
               let p3 = on_s prev_token p2 in
               if rn = None then Done (0, p3)
               else rbind (store_to str_target (OStr text) p3) (\<lambda>p4. Done (0, p4))))"

definition unpack_string :: "ptr \<Rightarrow> 'r pstate \<Rightarrow> (int \<times> 'r pstate) run" where
  "unpack_string root p =
     rbind (root_node (p_h p) root) (\<lambda>rn.
       case rn of
         Some n \<Rightarrow> (case n of NString _ \<Rightarrow> unpack_string_to rn p | _ \<Rightarrow> Done (wrong_type ''string'' n p))
       | None \<Rightarrow> unpack_string_to rn p)"

text \<open>The cases \<open>O\<close>, which takes a reference first, and \<open>o\<close>.\<close>

definition unpack_json :: "bool \<Rightarrow> ptr \<Rightarrow> 'r pstate \<Rightarrow> (int \<times> 'r pstate) run" where
  "unpack_json take_ref root p =
     rbind (if take_ref \<and> root \<noteq> None \<and> \<not> validate_only p then or_fault (json_incref (p_h p) root) else Done (p_h p)) (\<lambda>h.
       let p1 = p\<lparr>p_h := h\<rparr> in
       if validate_only p then Done (0, p1)
       else rbind (va_arg as_target p1) (\<lambda>(target, p2).
         case root of None \<Rightarrow> Done (0, p2)
         | Some a \<Rightarrow> rbind (store_to target (OJson a) p2) (\<lambda>p3. Done (0, p3))))"

text \<open>The case \<open>n\<close>.\<close>

definition unpack_null :: "ptr \<Rightarrow> 'r pstate \<Rightarrow> (int \<times> 'r pstate) run" where
  "unpack_null root p =
     rbind (root_node (p_h p) root) (\<lambda>rn.
       case rn of Some n \<Rightarrow> (case n of NNull \<Rightarrow> Done (0, p) | _ \<Rightarrow> Done (wrong_type ''null'' n p)) | None \<Rightarrow> Done (0, p))"

subsection \<open>The end of an object or array\<close>

text \<open>The keys of the object that were not unpacked: \<open>keys_res\<close>, the buffer with their names, and how many.\<close>

fun left_unpacked ::
    "('r, 'z) jenv_scheme \<Rightarrow> (size_t \<Rightarrow> bytes option) \<Rightarrow> addr hashtable \<Rightarrow> (bytes \<times> addr) list \<Rightarrow> int \<Rightarrow> strbuffer \<Rightarrow> nat \<Rightarrow>
     int \<times> strbuffer \<times> nat" where
  "left_unpacked e m key_set [] keys_res sb unpacked = (keys_res, sb, unpacked)"
| "left_unpacked e m key_set ((key, v) # kvs) keys_res sb unpacked =
     (if hashtable_get (env_hash e) key_set key = None then
        let (r1, sb1) = (if keys_res = 1 then strbuffer_init m
              else if keys_res = 0 then strbuffer_append_bytes m sb (asc '', '') 2 else (keys_res, sb));
            (r2, sb2) = (if r1 = 0 then strbuffer_append_bytes m sb1 key (of_nat (length key)) else (r1, sb1))
        in left_unpacked e m key_set kvs r2 sb2 (unpacked + 1)
      else left_unpacked e m key_set kvs keys_res sb unpacked)"

definition unpack_object_end ::
    "('r, 'z) jenv_scheme \<Rightarrow> (size_t \<Rightarrow> bytes option) \<Rightarrow> ptr \<Rightarrow> int \<Rightarrow> bool \<Rightarrow> addr hashtable \<Rightarrow> 'r pstate \<Rightarrow> (int \<times> 'r pstate) run" where
  "unpack_object_end e m root strict0 gotopt key_set p =
     (let strict = (if strict0 = 0 \<and> flag (s_flags (p_s p)) JSON_STRICT then 1 else strict0) in
      rbind (root_node (p_h p) root) (\<lambda>rn.
        case rn of
          Some (NObject ht) \<Rightarrow>
            if strict = 1 \<and> (gotopt \<or> ht_size ht \<noteq> ht_size key_set) then
              let (keys_res, sb, unpacked) = left_unpacked e m key_set (entries ht) 1 \<lparr>sb_value = None, sb_length = 0, sb_size = 0\<rparr> 0 in
              if unpacked \<noteq> 0 then
                Done (-1, validation json_error_end_of_input_expected
                  (dec_nat unpacked @ asc '' object item(s) left unpacked: '' @
                   (if keys_res \<noteq> 0 then asc ''<unknown>'' else cstr (the (strbuffer_value sb)))) p)
              else Done (0, p)
            else Done (0, p)
        | _ \<Rightarrow> Done (0, p)))"

definition unpack_array_end :: "ptr \<Rightarrow> int \<Rightarrow> size_t \<Rightarrow> 'r pstate \<Rightarrow> (int \<times> 'r pstate) run" where
  "unpack_array_end root strict0 i p =
     (let strict = (if strict0 = 0 \<and> flag (s_flags (p_s p)) JSON_STRICT then 1 else strict0) in
      if root \<noteq> None \<and> strict = 1 then
        rbind (or_fault (json_array_size (p_h p) root)) (\<lambda>sz.
          if i \<noteq> sz then
            Done (-1, validation json_error_end_of_input_expected
              (dec_int (sint (sz - i)) @ asc '' array item(s) left unpacked'') p)
          else Done (0, p))
      else Done (0, p))"

subsection \<open>Unpacking\<close>

text \<open>\<open>Expected '}' after '!', got '...'\<close> and the like.\<close>

definition after_strict :: "byte \<Rightarrow> int \<Rightarrow> byte \<Rightarrow> bytes" where
  "after_strict closing strict t =
     asc ''Expected '' @ quoted closing @ asc '' after '' @ quoted (if strict = 1 then ch CHR ''!'' else ch CHR ''*'') @ asc '', got '' @ quoted t"

function (sequential) unpack :: "('r, 'z) jenv_scheme \<Rightarrow> (size_t \<Rightarrow> bytes option) \<Rightarrow> nat \<Rightarrow> ptr \<Rightarrow> 'r pstate \<Rightarrow> (int \<times> 'r pstate) run"
  and unpack_object :: "('r, 'z) jenv_scheme \<Rightarrow> (size_t \<Rightarrow> bytes option) \<Rightarrow> nat \<Rightarrow> ptr \<Rightarrow> int \<Rightarrow> bool \<Rightarrow> addr hashtable \<Rightarrow> 'r pstate \<Rightarrow>
      (int \<times> 'r pstate) run"
  and unpack_array :: "('r, 'z) jenv_scheme \<Rightarrow> (size_t \<Rightarrow> bytes option) \<Rightarrow> nat \<Rightarrow> ptr \<Rightarrow> int \<Rightarrow> size_t \<Rightarrow> 'r pstate \<Rightarrow> (int \<times> 'r pstate) run"
where
  "unpack e m 0 root p = Stuck"
| "unpack e m (Suc n) root p =
     (let t = tok p in
      if t = ch CHR ''{'' then
        (case hashtable_init (env_mem e) of
           None \<Rightarrow> Done (-1, on_s (\<lambda>s. set_error s (asc ''<internal>'') json_error_out_of_memory (asc ''Out of memory'')) p)
         | Some key_set \<Rightarrow>
             rbind (root_node (p_h p) root) (\<lambda>rn.
               if rn = None \<or> json_typeof (the rn) = 0 then unpack_object e m n root 0 False key_set (on_s next_token p)
               else Done (wrong_type ''object'' (the rn) p)))
      else if t = ch CHR ''['' then
        rbind (root_node (p_h p) root) (\<lambda>rn.
          if rn = None \<or> json_typeof (the rn) = 1 then unpack_array e m n root 0 0 (on_s next_token p)
          else Done (wrong_type ''array'' (the rn) p))
      else if t = ch CHR ''s'' then unpack_string root p
      else if t = ch CHR ''i'' then unpack_plain is_integer_node ''integer'' (\<lambda>n. OInt (to_int (integer_of n))) root p
      else if t = ch CHR ''I'' then unpack_plain is_integer_node ''integer'' (\<lambda>n. OInt64 (integer_of n)) root p
      else if t = ch CHR ''b'' then
        unpack_plain is_boolean_node ''true or false'' (\<lambda>n. OInt (if json_typeof n = 5 then 1 else 0)) root p
      else if t = ch CHR ''f'' then unpack_plain is_real_node ''real'' (\<lambda>n. OReal (number_of e n)) root p
      else if t = ch CHR ''F'' then
        unpack_plain (\<lambda>n. is_integer_node n \<or> is_real_node n) ''real or integer'' (\<lambda>n. OReal (number_of e n)) root p
      else if t = ch CHR ''O'' then unpack_json True root p
      else if t = ch CHR ''o'' then unpack_json False root p
      else if t = ch CHR ''n'' then unpack_null root p
      else Done (-1, on_s (bad_format (asc ''Unexpected format character '' @ quoted t)) p))"
| "unpack_object e m 0 root strict gotopt key_set p = Stuck"
| "unpack_object e m (Suc n) root strict gotopt key_set p =
     (let t = tok p in
      if t = ch CHR ''}'' then unpack_object_end e m root strict gotopt key_set p
      else if strict \<noteq> 0 then Done (-1, on_s (bad_format (after_strict (ch CHR ''}'') strict t)) p)
      else if t = 0 then Done (-1, on_s (bad_format (asc ''Unexpected end of format string'')) p)
      else if t = ch CHR ''!'' \<or> t = ch CHR ''*'' then
        unpack_object e m n root (if t = ch CHR ''!'' then 1 else -1) gotopt key_set (on_s next_token p)
      else if t \<noteq> ch CHR ''s'' then
        Done (-1, on_s (bad_format (asc ''Expected format '' @ quoted (ch CHR ''s'') @ asc '', got '' @ quoted t)) p)
      else rbind (va_arg as_str p) (\<lambda>(key, p1).
        case key of
          None \<Rightarrow> Done (-1, on_s (\<lambda>s. set_error s (asc ''<args>'') json_error_null_value (asc ''NULL object key'')) p1)
        | Some k \<Rightarrow>
            let p2 = on_s next_token p1;
                opt = (tok p2 = ch CHR ''?'');
                p3 = (if opt then on_s next_token p2 else p2);
                gotopt' = (gotopt \<or> opt)
            in rbind (if root = None then Done None else or_fault (json_object_get e (p_h p3) root key)) (\<lambda>value.
                 if root \<noteq> None \<and> value = None \<and> \<not> opt then
                   Done (-1, validation json_error_item_not_found (asc ''Object item not found: '' @ cstr k) p3)
                 else rbind (unpack e m n value p3) (\<lambda>(r, p4).
                   if r \<noteq> 0 then Done (-1, p4)
                   else
                     let (_, key_set', _) = hashtable_set (env_hash e) (env_mem e) key_set (cstr k) the_null
                     in unpack_object e m n root strict gotopt' key_set' (on_s next_token p4)))))"
| "unpack_array e m 0 root strict i p = Stuck"
| "unpack_array e m (Suc n) root strict i p =
     (let t = tok p in
      if t = ch CHR '']'' then unpack_array_end root strict i p
      else if strict \<noteq> 0 then Done (-1, on_s (bad_format (after_strict (ch CHR '']'') strict t)) p)
      else if t = 0 then Done (-1, on_s (bad_format (asc ''Unexpected end of format string'')) p)
      else if t = ch CHR ''!'' \<or> t = ch CHR ''*'' then
        unpack_array e m n root (if t = ch CHR ''!'' then 1 else -1) i (on_s next_token p)
      else if t \<notin> set unpack_value_starters then
        Done (-1, on_s (bad_format (asc ''Unexpected format character '' @ quoted t)) p)
      else rbind (if root = None then Done None else or_fault (json_array_get (p_h p) root i)) (\<lambda>value.
        if root \<noteq> None \<and> value = None then
          Done (-1, validation json_error_index_out_of_range (asc ''Array index '' @ dec_nat (unat i) @ asc '' out of range'') p)
        else rbind (unpack e m n value p) (\<lambda>(r, p1).
          if r \<noteq> 0 then Done (-1, p1)
          else unpack_array e m n root strict (i + 1) (on_s next_token p1))))"
  by pat_completeness auto
termination
  by (relation "measure (\<lambda>x. case x of Inl (e, m, n, root, p) \<Rightarrow> n | Inr (Inl (e, m, n, root, strict, gotopt, key_set, p)) \<Rightarrow> n
      | Inr (Inr (e, m, n, root, strict, i, p)) \<Rightarrow> n)") auto

declare unpack.simps [simp del] unpack_object.simps [simp del] unpack_array.simps [simp del]

text \<open>The status, the error record, the heap, and the stores.\<close>

definition json_vunpack_ex ::
    "('r, 'z) jenv_scheme \<Rightarrow> (size_t \<Rightarrow> bytes option) \<Rightarrow> 'r heap \<Rightarrow> ptr \<Rightarrow> json_error option \<Rightarrow> size_t \<Rightarrow> bytes option \<Rightarrow> 'r arg list \<Rightarrow>
     (int \<times> json_error option \<times> 'r heap \<times> (nat \<times> 'r out) list) run" where
  "json_vunpack_ex e m h root error flags fmt ap =
     (if root = None then
        Done (-1, jsonp_error_vset (jsonp_error_init error (Some (asc ''<root>''))) (-1) (-1) 0 json_error_null_value
          (asc ''NULL root value''), h, [])
      else if fmt = None \<or> cstr (the fmt) = [] then
        Done (-1, jsonp_error_vset (jsonp_error_init error (Some (asc ''<format>''))) (-1) (-1) 0 json_error_invalid_argument
          (asc ''NULL or empty format string''), h, [])
      else
        let f = cstr (the fmt); s = next_token (scanner_init (jsonp_error_init error None) flags f) in
        rbind (unpack e m (pack_fuel f) root \<lparr>p_s = s, p_ap = ap, p_h = h, p_out = []\<rparr>) (\<lambda>(r, p).
          if r \<noteq> 0 then Done (-1, s_error (p_s p), p_h p, p_out p)
          else
            let p1 = on_s next_token p in
            if tok p1 \<noteq> 0 then Done (-1, s_error (bad_format (asc ''Garbage after format string'') (p_s p1)), p_h p1, p_out p1)
            else Done (0, s_error (p_s p1), p_h p1, p_out p1)))"

definition json_unpack_ex ::
    "('r, 'z) jenv_scheme \<Rightarrow> (size_t \<Rightarrow> bytes option) \<Rightarrow> 'r heap \<Rightarrow> ptr \<Rightarrow> json_error option \<Rightarrow> size_t \<Rightarrow> bytes option \<Rightarrow> 'r arg list \<Rightarrow>
     (int \<times> json_error option \<times> 'r heap \<times> (nat \<times> 'r out) list) run" where
  "json_unpack_ex e m h root error flags fmt ap = json_vunpack_ex e m h root error flags fmt ap"

definition json_unpack ::
    "('r, 'z) jenv_scheme \<Rightarrow> (size_t \<Rightarrow> bytes option) \<Rightarrow> 'r heap \<Rightarrow> ptr \<Rightarrow> bytes option \<Rightarrow> 'r arg list \<Rightarrow>
     (int \<times> json_error option \<times> 'r heap \<times> (nat \<times> 'r out) list) run" where
  "json_unpack e m h root fmt ap = json_vunpack_ex e m h root None 0 fmt ap"

end
