(* ===== verification/Session.thy ===== *)
theory Session
  imports UpdateThms DeepCopy
begin

text \<open>
  Programs that use the library. A session is a sequence of calls, each made with references the
  caller owns at that time; the state is the heap and the multiset of the caller's references. In
  every state a session can reach the counts are exact and the values well-formed, and the next
  call succeeds without touching freed memory.
\<close>

subsection \<open>Calls\<close>

datatype 'r call =
    CObject
  | CArray
  | CString bytes
  | CInteger int
  | CReal 'r
  | CTrue
  | CFalse
  | CNull
  | CIncref addr
  | CDecref addr
  | CSet addr bytes addr
  | CDel addr bytes
  | CClearObject addr
  | CUpdate addr addr
  | CAppend addr addr
  | CInsert addr size_t addr
  | CPut addr size_t addr
  | CRemove addr size_t
  | CClearArray addr
  | CExtend addr addr
  | CDeepCopy addr

text \<open>A new reference for the caller, if the call yields one, and the heap; \<open>None\<close>: a memory fault.\<close>

abbreviation status_only :: "(int \<times> 'r heap) option \<Rightarrow> (ptr \<times> 'r heap) option" where
  "status_only x \<equiv> map_option (\<lambda>(r, h). (None, h)) x"

fun perform :: "('r, 'z) jenv_scheme \<Rightarrow> 'r call \<Rightarrow> 'r heap \<Rightarrow> (ptr \<times> 'r heap) option" where
  "perform e CObject h = Some (json_object e h)"
| "perform e CArray h = Some (json_array e h)"
| "perform e (CString s) h = Some (json_stringn e h (Some s))"
| "perform e (CInteger i) h = Some (json_integer e h i)"
| "perform e (CReal r) h = Some (json_real e h r)"
| "perform e CTrue h = Some (json_true, h)"
| "perform e CFalse h = Some (json_false, h)"
| "perform e CNull h = Some (json_null, h)"
| "perform e (CIncref a) h = map_option (Pair (Some a)) (json_incref h (Some a))"
| "perform e (CDecref a) h = map_option (Pair None) (json_decref h (Some a))"
| "perform e (CSet a k v) h = status_only (json_object_setn_new e h (Some a) (Some k) (Some v))"
| "perform e (CDel a k) h = status_only (json_object_deln e h (Some a) (Some k))"
| "perform e (CClearObject a) h = status_only (json_object_clear h (Some a))"
| "perform e (CUpdate a b) h = status_only (json_object_update e h (Some a) (Some b))"
| "perform e (CAppend a v) h = status_only (json_array_append_new e h (Some a) (Some v))"
| "perform e (CInsert a i v) h = status_only (json_array_insert_new e h (Some a) i (Some v))"
| "perform e (CPut a i v) h = status_only (json_array_set_new h (Some a) i (Some v))"
| "perform e (CRemove a i) h = status_only (json_array_remove h (Some a) i)"
| "perform e (CClearArray a) h = status_only (json_array_clear h (Some a))"
| "perform e (CExtend a b) h = status_only (json_array_extend e h (Some a) (Some b))"
| "perform e (CDeepCopy a) h = json_deep_copy e h (Some a)"

text \<open>The references a call uses without giving them up, and those it gives up.\<close>

fun borrows :: "'r call \<Rightarrow> addr list" where
  "borrows (CIncref a) = [a]"
| "borrows (CSet a k v) = [a]"
| "borrows (CDel a k) = [a]"
| "borrows (CClearObject a) = [a]"
| "borrows (CUpdate a b) = [a, b]"
| "borrows (CAppend a v) = [a]"
| "borrows (CInsert a i v) = [a]"
| "borrows (CPut a i v) = [a]"
| "borrows (CRemove a i) = [a]"
| "borrows (CClearArray a) = [a]"
| "borrows (CExtend a b) = [a, b]"
| "borrows (CDeepCopy a) = [a]"
| "borrows _ = []"

fun gives_up :: "'r call \<Rightarrow> addr multiset" where
  "gives_up (CDecref a) = {#a#}"
| "gives_up (CSet a k v) = {#v#}"
| "gives_up (CAppend a v) = {#v#}"
| "gives_up (CInsert a i v) = {#v#}"
| "gives_up (CPut a i v) = {#v#}"
| "gives_up _ = {#}"

text \<open>The caller owns what the call uses, does not update an object from itself, and there are
  fewer references than a counter can count.\<close>

definition allowed :: "'r heap \<Rightarrow> addr multiset \<Rightarrow> 'r call \<Rightarrow> bool" where
  "allowed h E c \<longleftrightarrow> gives_up c \<subseteq># E \<and> set (borrows c) \<subseteq> set_mset (E - gives_up c) \<and>
     (case c of CUpdate a b \<Rightarrow> a \<noteq> b | _ \<Rightarrow> True) \<and> 2 * size (refs h) + size E + 2 < 2 ^ 64"

text \<open>The heap at program start: the static values, whose count is the immortal -1.\<close>

definition static_heap :: "'r heap" where
  "static_heap = [Some \<lparr>refcount = -1, c_node = NTrue\<rparr>, Some \<lparr>refcount = -1, c_node = NFalse\<rparr>,
     Some \<lparr>refcount = -1, c_node = NNull\<rparr>]"

lemma static_sound: "mem_bounded (env_mem e) \<Longrightarrow> sound e static_heap {#}"
proof -
  have r: "refs static_heap = {#}" by (simp add: static_heap_def refs_def cell_refs_def children_def)
  have d: "deref static_heap a = Some c \<Longrightarrow> refcount c = -1 \<and> simple (c_node c)" for a and c :: "'a cell"
    by (auto simp: static_heap_def deref_def nth_Cons simple_def split: nat.splits if_splits)
  have "counted (static_heap :: 'a heap) {#}" by (rule countedI) (auto simp: r dest: d)
  moreover have "heap_ok hs (static_heap :: 'a heap)" for hs
    unfolding heap_ok_def
  proof (intro conjI allI impI)
    fix a n assume "node_at (static_heap :: 'a heap) a = Some n"
    then have "simple n" using d by (auto simp: node_at_deref)
    then show "node_ok hs n" by (cases n) (simp_all add: simple_def node_ok_def)
  qed (simp_all add: node_at_def static_heap_def the_values)
  ultimately show "mem_bounded (env_mem e) \<Longrightarrow> sound e static_heap {#}" by (simp add: sound_def)
qed

inductive session :: "('r, 'z) jenv_scheme \<Rightarrow> 'r heap \<Rightarrow> addr multiset \<Rightarrow> bool" for e where
  start: "mem_bounded (env_mem e) \<Longrightarrow> session e static_heap {#}"
| call: "session e h E \<Longrightarrow> allowed h E c \<Longrightarrow> perform e c h = Some (r, h') \<Longrightarrow> session e h' (E - gives_up c + opt r)"

subsection \<open>Each call keeps the counts exact\<close>

lemma children_le_refs:
  assumes "sound e h E" "node_at h a = Some n"
  shows "length (children n) \<le> size (refs h)"
proof -
  obtain c where c: "deref h a = Some c" "c_node c = n" using assms(2) by (auto simp: node_at_deref)
  have "refs (h[a := None]) + mset (children n) = refs h"
    using refs_update [of a h None] deref_SomeD [OF c(1)] counted_cell [OF soundD(1) [OF assms(1)] c(1)] c(2)
    by (simp add: cell_refs_def)
  then show ?thesis by (metis le_add2 size_mset size_union)
qed

lemma wrong_array:
  assumes "node_at h a = Some n" "\<nexists>arr. n = NArray arr"
  shows "as_array h (Some a) = Some None"
  using assms by (cases n) (simp_all add: as_array_def)

lemma wrong_object:
  assumes "node_at h a = Some n" "\<nexists>ht. n = NObject ht"
  shows "as_object h (Some a) = Some None"
  using assms by (cases n) (simp_all add: as_object_def)

lemma leaf_sound:
  assumes "sound e h E" "leaf_result e h n x" "\<not> simple n" "case n of NObject _ \<Rightarrow> False | NArray _ \<Rightarrow> False | _ \<Rightarrow> True"
  shows "sound e (snd x) (E + opt (fst x))"
proof -
  have n: "children n = []" "node_ok (env_hash e) n" using assms(4) by (cases n; simp add: children_def node_ok_def)+
  with assms json_init_sound [of e h E n] show ?thesis by (auto simp: leaf_result_def)
qed

lemma new_value_sound:
  assumes "sound e h E"
  shows "sound e (snd (json_object e h)) (E + opt (fst (json_object e h)))"
    "sound e (snd (json_array e h)) (E + opt (fst (json_array e h)))"
    "sound e (snd (json_stringn e h (Some s))) (E + opt (fst (json_stringn e h (Some s))))"
    "sound e (snd (json_integer e h i)) (E + opt (fst (json_integer e h i)))"
    "sound e (snd (json_real e h r)) (E + opt (fst (json_real e h r)))"
proof -
  show "sound e (snd (json_object e h)) (E + opt (fst (json_object e h)))"
    by (rule json_object_cases [OF assms]) (use assms in simp_all)
  show "sound e (snd (json_array e h)) (E + opt (fst (json_array e h)))"
    by (rule json_array_cases [OF assms]) (use assms in simp_all)
  have "leaf_result e h (NString s) (json_stringn e h (Some s))"
    by (simp add: leaf_result_def json_stringn_def json_stringn_nocheck_def string_create_def json_init_def)
  then show "sound e (snd (json_stringn e h (Some s))) (E + opt (fst (json_stringn e h (Some s))))"
    by (rule leaf_sound [OF assms]) simp_all
  show "sound e (snd (json_integer e h i)) (E + opt (fst (json_integer e h i)))"
    by (rule leaf_sound [OF assms leaf_results(2)]) simp_all
  show "sound e (snd (json_real e h r)) (E + opt (fst (json_real e h r)))"
    by (rule leaf_sound [OF assms leaf_results(3)]) simp_all
qed

lemma static_value_sound:
  assumes "sound e h E"
  shows "sound e h (E + opt json_true)" "sound e h (E + opt json_false)" "sound e h (E + opt json_null)"
  using soundD(2) [OF assms] sound_add_simple [OF assms]
  by (auto simp: heap_ok_def json_true_def json_false_def json_null_def simple_def)

text \<open>The calls on objects and arrays, for any value at the address.\<close>

lemma object_calls_sound:
  assumes "sound e h E" "a \<in># E"
  shows "\<exists>r h'. json_object_deln e h (Some a) (Some k) = Some (r, h') \<and> sound e h' E"
    "\<exists>r h'. json_object_clear h (Some a) = Some (r, h') \<and> sound e h' E"
proof -
  obtain n where n: "node_at h a = Some n" using sound_live [OF assms] by blast
  have "(\<exists>r h'. json_object_deln e h (Some a) (Some k) = Some (r, h') \<and> sound e h' E) \<and>
    (\<exists>r h'. json_object_clear h (Some a) = Some (r, h') \<and> sound e h' E)"
  proof (cases "\<exists>ht. n = NObject ht")
    case True
    with n json_object_deln_sound [OF assms, of _ k] json_object_clear_sound [OF assms] show ?thesis by blast
  next
    case False
    with wrong_object [OF n] assms(1) show ?thesis by (simp add: json_object_deln_def json_object_clear_def)
  qed
  then show "\<exists>r h'. json_object_deln e h (Some a) (Some k) = Some (r, h') \<and> sound e h' E"
    "\<exists>r h'. json_object_clear h (Some a) = Some (r, h') \<and> sound e h' E" by blast+
qed

lemma json_object_setn_new_any:
  assumes "sound e h (add_mset v E)" "a \<in># E"
  shows "\<exists>r h'. json_object_setn_new e h (Some a) (Some k) (Some v) = Some (r, h') \<and> sound e h' E"
  using json_object_setn_new_nocheck_sound [OF assms, of k] refuse_sound [OF assms(1)] by (auto simp: utf8_checked_set)

lemma array_calls_sound:
  assumes "sound e h E" "a \<in># E"
  shows "\<exists>r h'. json_array_remove h (Some a) i = Some (r, h') \<and> sound e h' E"
    "\<exists>r h'. json_array_clear h (Some a) = Some (r, h') \<and> sound e h' E"
proof -
  obtain n where n: "node_at h a = Some n" using sound_live [OF assms] by blast
  have "(\<exists>r h'. json_array_remove h (Some a) i = Some (r, h') \<and> sound e h' E) \<and>
    (\<exists>r h'. json_array_clear h (Some a) = Some (r, h') \<and> sound e h' E)"
  proof (cases "\<exists>arr. n = NArray arr")
    case True
    with n json_array_remove_sound [OF assms, of _ i] json_array_clear_sound [OF assms] show ?thesis by blast
  next
    case False
    with wrong_array [OF n] assms(1) show ?thesis by (simp add: json_array_remove_def json_array_clear_def)
  qed
  then show "\<exists>r h'. json_array_remove h (Some a) i = Some (r, h') \<and> sound e h' E"
    "\<exists>r h'. json_array_clear h (Some a) = Some (r, h') \<and> sound e h' E" by blast+
qed

lemma array_stores_sound:
  assumes "sound e h (add_mset v E)" "a \<in># E"
  shows "(\<exists>r h'. json_array_append_new e h (Some a) (Some v) = Some (r, h') \<and> sound e h' E) \<and>
    (\<exists>r h'. json_array_insert_new e h (Some a) i (Some v) = Some (r, h') \<and> sound e h' E) \<and>
    (\<exists>r h'. json_array_set_new h (Some a) i (Some v) = Some (r, h') \<and> sound e h' E)"
proof -
  obtain n where n: "node_at h a = Some n" using sound_live [OF assms(1), of a] assms(2) by auto
  show ?thesis
  proof (cases "\<exists>arr. n = NArray arr")
    case True
    with n json_array_append_new_sound [OF assms] json_array_insert_new_sound [OF assms, of _ i]
      json_array_set_new_sound [OF assms, of _ i] show ?thesis by blast
  next
    case False
    with wrong_array [OF n] refuse_sound [OF assms(1)] show ?thesis
      by (auto simp: json_array_append_new_def json_array_insert_new_def json_array_set_new_def)
  qed
qed

lemma combining_calls_sound:
  assumes "sound e h E" "a \<in># E" "b \<in># E" "2 * size (refs h) + size E + 2 < 2 ^ 64"
  shows "\<exists>r h'. json_array_extend e h (Some a) (Some b) = Some (r, h') \<and> sound e h' E"
    "a \<noteq> b \<Longrightarrow> \<exists>r h'. json_object_update e h (Some a) (Some b) = Some (r, h') \<and> sound e h' E"
proof -
  obtain m n where mn: "node_at h a = Some m" "node_at h b = Some n" using sound_live [OF assms(1)] assms(2,3) by blast
  have l: "length (children n) \<le> size (refs h)" by (rule children_le_refs [OF assms(1) mn(2)])
  show "\<exists>r h'. json_array_extend e h (Some a) (Some b) = Some (r, h') \<and> sound e h' E"
  proof (cases "(\<exists>arr. m = NArray arr) \<and> (\<exists>arr. n = NArray arr)")
    case True
    then obtain x y where xy: "m = NArray x" "n = NArray y" by blast
    then have "size (refs h + E) + length (elems y) + 2 < 2 ^ 64" using l assms(4) by (simp add: children_def)
    with json_array_extend_sound [OF assms(1) mn [unfolded xy]] show ?thesis by blast
  next
    case False
    with wrong_array [OF mn(1)] wrong_array [OF mn(2)] mn assms(1) show ?thesis
      by (cases "\<exists>arr. m = NArray arr") (auto simp: json_array_extend_def as_array_node)
  qed
  show "\<exists>r h'. json_object_update e h (Some a) (Some b) = Some (r, h') \<and> sound e h' E" if "a \<noteq> b"
  proof (cases "(\<exists>ht. m = NObject ht) \<and> (\<exists>ht. n = NObject ht)")
    case True
    then obtain x y where xy: "m = NObject x" "n = NObject y" by blast
    have y: "ht_inv (env_hash e) y" using sound_object [OF assms(1)] mn(2) xy by simp
    have "length (hashtable_close y) = length (map snd (entries y))" by (rule mset_eq_length [OF hashtable_close_entries [OF y]])
    moreover have "ht_size y = length (entries y)" using y by (simp add: ht_inv_def pairs_inv_def entries_def)
    ultimately have "size (refs h + E) + ht_size y + 2 < 2 ^ 64" using l assms(4) xy by (simp add: children_def)
    with json_object_update_sound [OF assms(1-3) that mn [unfolded xy]] show ?thesis by blast
  next
    case False
    with wrong_object [OF mn(1)] wrong_object [OF mn(2)] mn assms(1) show ?thesis
      by (cases "\<exists>ht. m = NObject ht") (auto simp: json_object_update_def as_object_node)
  qed
qed

subsection \<open>Sessions\<close>

lemma perform_sound:
  assumes s: "sound e h E" and ok: "allowed h E c"
  shows "\<exists>r h'. perform e c h = Some (r, h') \<and> sound e h' (E - gives_up c + opt r)"
proof -
  let ?F = "E - gives_up c"
  have F: "gives_up c + ?F = E" "set (borrows c) \<subseteq> set_mset ?F" "2 * size (refs h) + size E + 2 < 2 ^ 64"
    using ok by (auto simp: allowed_def)
  have given: "v \<in># E \<Longrightarrow> sound e h (add_mset v (E - {#v#}))" for v using s by simp
  show ?thesis
  proof (cases c)
    case (CIncref a)
    then obtain n where "node_at h a = Some n" using F sound_live [OF s, of a] by auto
    moreover have "size (refs h + E) + 2 < 2 ^ 64" using F(3) by simp
    ultimately show ?thesis using CIncref json_incref_sound [OF s, of a n] by auto
  next
    case (CDecref a)
    then show ?thesis using F json_decref_sound [of e h a "E - {#a#}"] s by fastforce
  next
    case (CSet a k v)
    then show ?thesis using F json_object_setn_new_any [of e h v "E - {#v#}" a k] s by fastforce
  next
    case (CAppend a v)
    then show ?thesis using F array_stores_sound [of e h v "E - {#v#}" a] s by fastforce
  next
    case (CInsert a i v)
    then show ?thesis using F array_stores_sound [of e h v "E - {#v#}" a i] s by fastforce
  next
    case (CPut a i v)
    then show ?thesis using F array_stores_sound [of e h v "E - {#v#}" a i] s by fastforce
  next
    case (CUpdate a b)
    then show ?thesis using F ok combining_calls_sound(2) [OF s, of a b] by (fastforce simp: allowed_def)
  next
    case (CExtend a b)
    then show ?thesis using F combining_calls_sound(1) [OF s, of a b] by fastforce
  next
    case (CDeepCopy a)
    then show ?thesis using F json_deep_copy_sound [OF s, of a] by auto
  qed (use F new_value_sound [OF s] static_value_sound [OF s] object_calls_sound [OF s] array_calls_sound [OF s] in
      \<open>fastforce simp: prod_eq_iff\<close>)+
qed

lemma session_sound: "session e h E \<Longrightarrow> sound e h E"
proof (induction rule: session.induct)
  case start
  then show ?case by (rule static_sound)
next
  case (call h E c r h')
  with perform_sound [of e h E c] show ?case by auto
qed

end
