(* ===== verification/Examples.thy ===== *)
theory Examples
  imports RoundTrip EqualThms UpdateThms Unpack Session
begin

text \<open>
  A concrete setting, in which the theorems are applied: a platform whose \<open>double\<close> is modelled by
  the natural numbers, an allocator, and a heap with an integer, an array, an empty object, a
  string and an object with one pair.
\<close>

subsection \<open>Platform\<close>

text \<open>\<open>"%g"\<close> prints a natural number in decimal; \<open>strtod\<close> reads the digits before the point.\<close>

definition read_nat :: "bytes \<Rightarrow> nat" where
  "read_nat t = foldl (\<lambda>n b. 10 * n + (unat b - 48)) 0 (takeWhile (\<lambda>b. 48 \<le> b \<and> b \<le> 57) t)"

definition ex_env :: "nat jenv" where
  "ex_env = \<lparr>c_strtod = read_nat, c_erange = (\<lambda>_. False), c_snprintf_g = (\<lambda>_. dec_nat), c_decimal_point = 46,
     c_isnan = (\<lambda>_. False), c_isinf = (\<lambda>_. False), env_mem = (\<lambda>n. n < 0x8000000000000000), env_seed = 1,
     c_real_eq = (=), c_real_of_int = nat, c_zero = 0\<rparr>"

definition ex_malloc :: "size_t \<Rightarrow> bytes option" where
  "ex_malloc n = Some (replicate (unat n) 0)"

lemma ex_malloc_total: "malloc_total ex_malloc"
  by (simp add: malloc_total_def malloc_ok_def ex_malloc_def)

lemma ex_mem_bounded: "mem_bounded (env_mem ex_env)"
  by (auto simp: mem_bounded_def ex_env_def word_less_nat_alt)

lemma ex_env_simps [simp]: "c_real_eq ex_env = (=)" "c_isnan ex_env r = False" "c_isinf ex_env r = False"
  by (simp_all add: ex_env_def)

subsection \<open>Heap\<close>

lemma static_simple: "node_at static_heap a = Some n \<Longrightarrow> simple n"
  by (auto simp: static_heap_def node_at_def nth_Cons simple_def split: nat.splits if_splits)

lemma simple_repr: "node_at h a = Some n \<Longrightarrow> simple n \<Longrightarrow> \<exists>j. repr h a j"
  by (cases n) (auto simp: simple_def intro: repr.intros(1-3))

definition ex_array :: json_array where
  "ex_array = \<lparr>a_size = 8, a_entries = 1, a_table = 3 # replicate 7 0\<rparr>"

definition ex_table0 :: "addr hashtable" where
  "ex_table0 = the (hashtable_init (env_mem ex_env))"

definition ex_table1 :: "addr hashtable" where
  "ex_table1 = fst (snd (hashtable_set (env_hash ex_env) (env_mem ex_env) ex_table0 (asc ''k'') 7))"

lemma ex_init: "hashtable_init (env_mem ex_env) = Some ex_table0"
  by (simp add: ex_table0_def hashtable_init_def alloc_ok_def ex_env_def hashsize_def INITIAL_HASHTABLE_ORDER_def)

lemma ex_table0_ok: "ht_inv (env_hash ex_env) ex_table0" "entries ex_table0 = []"
  using hashtable_init_ok [OF ex_init, of "env_hash ex_env"] by auto

text \<open>Storing a key of one byte in the empty table.\<close>

lemma ex_set0: "hashtable_set (env_hash ex_env) (env_mem ex_env) ex_table0 [b] v =
    (0, fst (snd (hashtable_set (env_hash ex_env) (env_mem ex_env) ex_table0 [b] v)), None)"
proof -
  let ?hash = "env_hash ex_env [b]"
  have "ex_table0 = \<lparr>ht_size = 0, ht_buckets = replicate 8 (None, None), ht_order = 3, ht_list = [], ht_ordered = [], ht_pairs = []\<rparr>"
    using ex_init by (auto simp: hashtable_init_def INITIAL_HASHTABLE_ORDER_def split: if_splits)
  note b = arg_cong [where f = ht_buckets, OF this] arg_cong [where f = ht_size, OF this] arg_cong [where f = ht_order, OF this]
  have i: "ht_index ex_table0 ?hash < 8" using ht_index_less [of ex_table0 ?hash] b by simp
  have "hashtable_find_pair ex_table0 (ht_buckets ex_table0 ! ht_index ex_table0 ?hash) [b] ?hash = None"
    using i by (simp add: b hashtable_find_pair_def bucket_is_empty_def)
  moreover have "unat (hashsize 3) = 8" by (simp add: unat_hashsize)
  moreover have "init_pair (env_mem ex_env) v [b] ?hash \<noteq> None"
    by (simp add: init_pair_def alloc_ok_def ex_env_def OFFSETOF_KEY_def word_le_def)
  ultimately show ?thesis by (auto simp: hashtable_set_def b Let_def)
qed

lemma ex_set: "hashtable_set (env_hash ex_env) (env_mem ex_env) ex_table0 (asc ''k'') 7 = (0, ex_table1, None)"
  using ex_set0 [of "of_char CHR ''k''" 7] by (simp add: ex_table1_def)

lemma ex_table1_ok: "ht_inv (env_hash ex_env) ex_table1" "entries ex_table1 = [(asc ''k'', 7)]"
  using hash.set_law [OF ex_table0_ok(1) ex_set] ex_table0_ok(2) by auto

lemma ex_table1_size: "ht_size ex_table1 = 1"
proof -
  have "ht_size ex_table1 = length (entries ex_table1)"
    using ex_table1_ok(1) by (simp add: ht_inv_def pairs_inv_def entries_def)
  then show ?thesis by (simp add: ex_table1_ok)
qed

text \<open>3: the integer 7; 4: an array holding 3; 5: an empty object; 6: a string; 7: the integer 9;
  8: an object that maps \<open>k\<close> to 7.\<close>

definition ex_heap :: "nat heap" where
  "ex_heap = foldl (\<lambda>h n. snd (json_init h n)) static_heap
     [NInteger 7, NArray ex_array, NObject ex_table0, NString (asc ''x''), NInteger 9, NObject ex_table1]"

lemma ex_sound: "sound ex_env ex_heap {#4, 5, 6, 8#}"
proof -
  define h3 :: "nat heap" where "h3 = snd (json_init static_heap (NInteger 7))"
  define h4 where "h4 = snd (json_init h3 (NArray ex_array))"
  define h5 where "h5 = snd (json_init h4 (NObject ex_table0))"
  define h6 where "h6 = snd (json_init h5 (NString (asc ''x'')))"
  define h7 where "h7 = snd (json_init h6 (NInteger 9))"
  have l: "length (snd (json_init h n)) = length h + 1" for h :: "nat heap" and n by (simp add: json_init_def)
  have n: "length (static_heap :: nat heap) = 3" "length h3 = 4" "length h4 = 5" "length h5 = 6" "length h6 = 7" "length h7 = 8"
    by (simp_all add: static_heap_def h3_def h4_def h5_def h6_def h7_def l)
  have c: "children (NObject ex_table0 :: nat node) = []" "children (NObject ex_table1 :: nat node) = [7]"
      "children (NArray ex_array :: nat node) = [3]"
    using hashtable_close_entries [OF ex_table0_ok(1)] hashtable_close_entries [OF ex_table1_ok(1)]
    by (simp_all add: children_def ex_table0_ok ex_table1_ok ex_array_def elems_def)
  have s: "sound ex_env (static_heap :: nat heap) {#}" by (rule static_sound [OF ex_mem_bounded])
  have s3: "sound ex_env h3 {#3#}"
    using json_init_sound [of ex_env static_heap "{#}" "NInteger 7"] s n by (simp add: children_def node_ok_def h3_def)
  have s4: "sound ex_env h4 {#4#}"
    using json_init_sound [of ex_env h3 "{#}" "NArray ex_array"] s3 n c
    by (simp add: node_ok_def h4_def arr_ok_def ex_array_def)
  have s5: "sound ex_env h5 {#5, 4#}"
    using json_init_sound [of ex_env h4 "{#4#}" "NObject ex_table0"] s4 n c ex_table0_ok by (simp add: node_ok_def h5_def)
  have s6: "sound ex_env h6 {#6, 5, 4#}"
    using json_init_sound [of ex_env h5 "{#5, 4#}" "NString (asc ''x'')"] s5 n by (simp add: children_def node_ok_def h6_def)
  have s7: "sound ex_env h7 {#7, 6, 5, 4#}"
    using json_init_sound [of ex_env h6 "{#6, 5, 4#}" "NInteger 9"] s6 n by (simp add: children_def node_ok_def h7_def)
  have "sound ex_env (snd (json_init h7 (NObject ex_table1))) {#8, 6, 5, 4#}"
    using json_init_sound [of ex_env h7 "{#6, 5, 4#}" "NObject ex_table1"] s7 n c ex_table1_ok
    by (simp add: node_ok_def add_mset_commute)
  then show ?thesis
    by (simp add: ex_heap_def h3_def h4_def h5_def h6_def h7_def add_mset_commute)
qed

lemma ex_nodes:
  "node_at ex_heap 3 = Some (NInteger 7)" "node_at ex_heap 4 = Some (NArray ex_array)"
  "node_at ex_heap 5 = Some (NObject ex_table0)" "node_at ex_heap 6 = Some (NString (asc ''x''))"
  "node_at ex_heap 7 = Some (NInteger 9)" "node_at ex_heap 8 = Some (NObject ex_table1)"
  by (simp_all add: ex_heap_def json_init_def static_heap_def node_at_def)

lemma ex_elems: "elems ex_array = [3]"
  by (simp add: ex_array_def elems_def)

lemma ex_repr: "repr ex_heap 4 (JArray [JInteger 7])" "repr ex_heap 8 (JObject [(asc ''k'', JInteger 9)])"
  by (simp_all add: repr_JArray repr_JObject ex_nodes ex_elems ex_table1_ok)

lemma ex_load: "size (refs ex_heap) = 2"
proof -
  have "mset (hashtable_close ex_table0) = {#}" "mset (hashtable_close ex_table1) = {#7#}"
    using hashtable_close_entries [OF ex_table0_ok(1)] hashtable_close_entries [OF ex_table1_ok(1)]
    by (simp_all add: ex_table0_ok ex_table1_ok)
  then show ?thesis
    by (simp add: refs_def ex_heap_def json_init_def static_heap_def cell_refs_def children_def ex_elems)
qed

lemma ex_statics:
  "node_at ex_heap 0 = Some NTrue" "node_at ex_heap 1 = Some NFalse" "node_at ex_heap 2 = Some NNull" "length ex_heap = 9"
  by (simp_all add: ex_heap_def json_init_def static_heap_def node_at_def)

lemma ex_singletons: "singletons ex_heap"
proof -
  have "[0..<9] = [0, 1, 2, 3, 4, 5, 6, 7, 8 :: nat]" by code_simp
  then show ?thesis by (simp add: singletons_def ex_statics ex_nodes the_values del: One_nat_def)
qed

lemma ex_sound6: "sound ex_env ex_heap (add_mset 6 {#4, 5, 8#})"
  using ex_sound by (simp add: add_mset_commute)

text \<open>A heap with the array alone.\<close>

definition ex_small :: "nat heap" where
  "ex_small = foldl (\<lambda>h n. snd (json_init h n)) static_heap [NInteger 7, NArray ex_array]"

lemma ex_small_sound: "sound ex_env ex_small {#4#}"
proof -
  define h3 :: "nat heap" where "h3 = snd (json_init static_heap (NInteger 7))"
  have n: "length (static_heap :: nat heap) = 3" "length h3 = 4" by (simp_all add: h3_def json_init_def static_heap_def)
  have "sound ex_env h3 {#3#}"
    using json_init_sound [of ex_env static_heap "{#}" "NInteger 7"] static_sound [OF ex_mem_bounded] n
    by (simp add: children_def node_ok_def h3_def)
  then show ?thesis
    using json_init_sound [of ex_env h3 "{#}" "NArray ex_array"] n
    by (simp add: node_ok_def arr_ok_def ex_array_def children_def elems_def ex_small_def h3_def)
qed

subsection \<open>A document\<close>

definition ex_doc :: "nat json" where
  "ex_doc = JObject [(asc ''k'', JInteger 9)]"

lemma valid_k: "valid_utf8 (asc ''k'')"
  unfolding utf8_check_string_valid [symmetric] by code_simp

lemma ex_doc_repr: "repr ex_heap 8 ex_doc"
  using ex_repr(2) by (simp add: ex_doc_def)

lemma ex_doc_loadable: "loadable ex_env f g ex_doc" "fits JSON_PARSER_MAX_DEPTH ex_doc" "container ex_doc"
  using valid_k by (simp_all add: ex_doc_def JSON_PARSER_MAX_DEPTH_def)

lemma ex_doc_dumpable: "dumpable ex_env ex_malloc f ex_doc"
  using valid_k by (simp add: ex_doc_def keys_alloc_fails_def jsonp_malloc_def ex_malloc_def dec_int_def dec_nat.simps
      MAX_INTEGER_STR_LENGTH_def)

lemma ex_doc_text: "jtext ex_env JSON_COMPACT 0 ex_doc = asc [CHR 123, CHR 34, CHR 107, CHR 34, CHR 58, CHR 57, CHR 125]"
  by code_simp

subsection \<open>Circular arrays\<close>

text \<open>Two arrays, at 3 and 4, each of which contains itself.\<close>

definition ex_cycle :: "nat heap" where
  "ex_cycle = foldl (\<lambda>h n. snd (json_init h n)) static_heap [NArray (self_array 3), NArray (self_array 4)]"

lemma ex_cycle_nodes: "node_at ex_cycle 3 = Some (NArray (self_array 3))" "node_at ex_cycle 4 = Some (NArray (self_array 4))"
    "keys_distinct ex_cycle"
proof -
  have "[0..<5] = [0, 1, 2, 3, 4 :: nat]" by code_simp
  then show "keys_distinct ex_cycle"
    by (simp add: keys_distinct_def ex_cycle_def json_init_def static_heap_def node_at_def)
qed (simp_all add: ex_cycle_def json_init_def static_heap_def node_at_def)

lemma self_array_no_tree:
  assumes "node_at h a = Some (NArray (self_array a))"
  shows "\<nexists>j. repr h a j"
proof
  assume "\<exists>j. repr h a j"
  then obtain j where j: "repr h a j" ..
  then obtain js where js: "j = JArray js" "list_all2 (repr h) [a] js"
    using repr_node [OF j] assms by (auto simp: self_array_def elems_def)
  then obtain i where "js = [i]" "repr h a i" by (auto simp: list_all2_Cons1)
  with js(1) repr_fun [OF j, of i] have "j = JArray [j]" by simp
  then have "size j = size (JArray [j])" by (rule arg_cong)
  then show False by simp
qed

subsection \<open>Inputs for the defects\<close>

text \<open>An object whose key is not UTF-8, made by the unchecked setter, and an array of nine elements.\<close>

definition ex_badtable :: "addr hashtable" where
  "ex_badtable = fst (snd (hashtable_set (env_hash ex_env) (env_mem ex_env) ex_table0 [0xFF] the_null))"

definition ex_badkey :: "nat heap" where
  "ex_badkey = snd (json_init static_heap (NObject ex_badtable))"

definition ex_nine :: "nat heap" where
  "ex_nine = snd (json_init static_heap (NArray \<lparr>a_size = 16, a_entries = 9, a_table = replicate 9 the_true @ replicate 7 0\<rparr>))"

lemma ex_badkey_entries: "entries ex_badtable = [([0xFF], the_null)]"
  using hash.set_law [OF ex_table0_ok(1) ex_set0 [of "0xFF" the_null]] ex_table0_ok(2) by (simp add: ex_badtable_def)

lemma ex_badkey_node: "node_at ex_badkey 3 = Some (NObject ex_badtable)"
  by (simp add: ex_badkey_def json_init_def static_heap_def node_at_def)

lemma ex_badkey_null: "node_at ex_badkey the_null = Some NNull"
  by (simp add: ex_badkey_def json_init_def static_heap_def node_at_def the_values)

subsection \<open>Inputs for packing\<close>

definition ex_err :: json_error where
  "ex_err = \<lparr>err_line = 0, err_column = 0, err_position = 0, err_source = [], err_text = [], err_code = json_error_unknown\<rparr>"

text \<open>A heap with a string, and a packer about to read a null argument where a string is required.\<close>

definition ex_string :: "nat heap" where
  "ex_string = snd (json_init static_heap (NString (asc ''x'')))"

definition ex_pack :: "nat pstate" where
  "ex_pack = \<lparr>p_s = next_token (scanner_init (Some ex_err) 0 (asc ''[si]'')), p_ap = [ANull, AInt 5], p_h = ex_string, p_out = []\<rparr>"

end
