(* ===== verification/PackThms.thy ===== *)
theory PackThms
  imports Unpack
begin

text \<open>
  The packer and the unpacker return on every format: the tokens still to come are a measure
  that each turn of the loops lowers, so that the fuel of the entry points is enough. The
  unpacker reports a message whenever it fails, leaves the values as they are, and stores nothing
  when it only validates; the packer yields no value once an error has been noted.
\<close>

subsection \<open>Reasoning about results\<close>

text \<open>\<open>wp f s Q r\<close>: a result satisfies \<open>Q\<close>; \<open>f\<close> and \<open>s\<close> say whether a memory fault and running out of
  fuel are tolerated. A mistake of the caller always is.\<close>

definition wp :: "bool \<Rightarrow> bool \<Rightarrow> ('a \<Rightarrow> bool) \<Rightarrow> 'a run \<Rightarrow> bool" where
  "wp f s Q r = (case r of Done x \<Rightarrow> Q x | BadArg \<Rightarrow> True | Fault \<Rightarrow> f | Stuck \<Rightarrow> s)"

lemma wp_simps [simp]: "wp f s Q (Done x) = Q x" "wp f s Q BadArg" "wp f s Q Fault = f" "wp f s Q Stuck = s"
  by (simp_all add: wp_def)

lemma wp_rbind [simp]: "wp f s Q (rbind r k) = wp f s (\<lambda>x. wp f s Q (k x)) r"
  by (cases r) simp_all

lemma wp_mono: "wp f s P r \<Longrightarrow> (\<And>x. P x \<Longrightarrow> Q x) \<Longrightarrow> wp f s Q r"
  by (cases r) auto

lemma wp_or_fault: "wp f s Q (or_fault x) \<longleftrightarrow> (case x of None \<Rightarrow> f | Some y \<Rightarrow> Q y)"
  by (simp add: or_fault_def split: option.split)

lemma wp_va_arg: "(\<And>x as. Q (x, p\<lparr>p_ap := as\<rparr>)) \<Longrightarrow> wp f s Q (va_arg conv p)"
  by (auto simp: va_arg_def split: list.split option.split)

lemma on_s_simps [simp]: "p_s (on_s f p) = f (p_s p)" "p_ap (on_s f p) = p_ap p" "p_h (on_s f p) = p_h p"
    "p_out (on_s f p) = p_out p"
  by (simp_all add: on_s_def)

subsection \<open>Progress of the scanner\<close>

text \<open>The tokens still to come: the characters of the format, and the token pushed back.\<close>

definition ahead :: "scanner \<Rightarrow> nat" where
  "ahead s = length (s_fmt s) + (if t_line (s_next s) \<noteq> 0 \<and> t_token (s_next s) \<noteq> 0 then 1 else 0)"

text \<open>A token 0 is seen at the end of the format only.\<close>

definition scan_ok :: "scanner \<Rightarrow> bool" where
  "scan_ok s \<longleftrightarrow> 0 \<notin> set (s_fmt s) \<and> (t_line (s_next s) \<noteq> 0 \<and> t_token (s_next s) = 0 \<longrightarrow> s_fmt s = []) \<and>
     (token_of s = 0 \<longrightarrow> s_fmt s = [])"

lemma skip_ignored_suffix:
  "skip_ignored t line column pos = (t', l, c, q) \<Longrightarrow> length t' \<le> length t \<and> set t' \<subseteq> set t"
  by (induction t line column pos arbitrary: t' l c q rule: skip_ignored.induct) (force split: if_splits)+

lemma next_token_ok:
  assumes "0 \<notin> set (s_fmt s)" "t_line (s_next s) \<noteq> 0 \<and> t_token (s_next s) = 0 \<longrightarrow> s_fmt s = []"
  shows "scan_ok (next_token s)" "0 < ahead s \<Longrightarrow> ahead (next_token s) < ahead s"
    "ahead s = 0 \<Longrightarrow> ahead (next_token s) = 0 \<and> token_of (next_token s) = 0"
proof -
  obtain t l c q where k: "skip_ignored (s_fmt s) (s_line s) (s_column s + 1) (s_pos s + 1) = (t, l, c, q)"
    by (metis prod_cases4)
  have l: "length t \<le> length (s_fmt s)" "0 \<notin> set t" using skip_ignored_suffix [OF k] assms(1) by auto
  have t: "0 \<notin> set (tl t)" using l(2) by (cases t) auto
  have d: "s_fmt s \<noteq> [] \<Longrightarrow> length t - Suc 0 < length (s_fmt s)" using l(1) by (cases "s_fmt s") auto
  show "scan_ok (next_token s)"
    using assms k l t by (auto simp: next_token_def scan_ok_def Let_def split: list.split)
  show "0 < ahead s \<Longrightarrow> ahead (next_token s) < ahead s"
    using assms k d by (auto simp: next_token_def ahead_def Let_def split: list.split)
  show "ahead s = 0 \<Longrightarrow> ahead (next_token s) = 0 \<and> token_of (next_token s) = 0"
    using assms k l by (auto simp: next_token_def ahead_def Let_def split: list.split if_splits)
qed

lemma peek_ok:
  assumes "scan_ok s"
  shows "scan_ok (prev_token (next_token s))" "ahead (prev_token (next_token s)) \<le> ahead s"
    "token_of (prev_token (next_token s)) = token_of s"
proof -
  have n: "0 \<notin> set (s_fmt s)" "t_line (s_next s) \<noteq> 0 \<and> t_token (s_next s) = 0 \<longrightarrow> s_fmt s = []"
    using assms by (auto simp: scan_ok_def)
  note ok = next_token_ok [OF n]
  have p: "s_prev (next_token s) = s_token s" by (simp add: next_token_def Let_def split: prod.split)
  have f: "length (s_fmt (next_token s)) \<le> length (s_fmt s)"
    using skip_ignored_suffix by (fastforce simp: next_token_def Let_def split: prod.split)
  show "token_of (prev_token (next_token s)) = token_of s" by (simp add: prev_token_def p)
  show "scan_ok (prev_token (next_token s))"
    using ok(1) assms f by (auto simp: scan_ok_def prev_token_def p)
  show "ahead (prev_token (next_token s)) \<le> ahead s"
    using ok(2,3) by (cases "ahead s = 0") (auto simp: ahead_def prev_token_def split: if_splits)
qed

subsection \<open>Termination\<close>

lemma s_updates [simp]:
  "s_fmt (set_error s src code msg) = s_fmt s" "s_next (set_error s src code msg) = s_next s"
  "s_token (set_error s src code msg) = s_token s" "s_flags (set_error s src code msg) = s_flags s"
  "s_has_error (set_error s src code msg) = s_has_error s"
  by (simp_all add: set_error_def)

lemma s_fails [simp]:
  "s_fmt (fail_with s src code msg) = s_fmt s" "s_next (fail_with s src code msg) = s_next s"
  "s_token (fail_with s src code msg) = s_token s" "s_flags (fail_with s src code msg) = s_flags s"
  "s_has_error (fail_with s src code msg)"
  by (simp_all add: fail_with_def)

lemma scan_cong:
  "s_fmt s' = s_fmt s \<Longrightarrow> s_next s' = s_next s \<Longrightarrow> ahead s' = ahead s"
  "s_fmt s' = s_fmt s \<Longrightarrow> s_next s' = s_next s \<Longrightarrow> s_token s' = s_token s \<Longrightarrow> scan_ok s' = scan_ok s"
  by (simp_all add: ahead_def scan_ok_def)

lemmas scan_errors [simp] = scan_cong [OF s_updates(1,2)] scan_cong(2) [OF s_updates(1-3)]
  scan_cong(1) [OF s_fails(1,2)] scan_cong(2) [OF s_fails(1-3)]

text \<open>The scanner after a step: well-formed, and no further from the end than before.\<close>

definition moved :: "scanner \<Rightarrow> 'r pstate \<Rightarrow> bool" where
  "moved s p \<longleftrightarrow> scan_ok (p_s p) \<and> ahead (p_s p) \<le> ahead s"

lemma scan_ok_next:
  assumes "scan_ok s"
  shows "scan_ok (next_token s)" "ahead (next_token s) \<le> ahead s"
    "ahead s = 0 \<Longrightarrow> token_of (next_token s) = 0" "0 < ahead s \<Longrightarrow> ahead (next_token s) < ahead s"
proof -
  have n: "0 \<notin> set (s_fmt s)" "t_line (s_next s) \<noteq> 0 \<and> t_token (s_next s) = 0 \<longrightarrow> s_fmt s = []"
    using assms by (auto simp: scan_ok_def)
  from next_token_ok [OF n] show "scan_ok (next_token s)" "ahead s = 0 \<Longrightarrow> token_of (next_token s) = 0"
    "0 < ahead s \<Longrightarrow> ahead (next_token s) < ahead s" by auto
  from next_token_ok(2,3) [OF n] show "ahead (next_token s) \<le> ahead s" by (cases "ahead s = 0") auto
qed

lemma moved_steps:
  "moved s p \<Longrightarrow> moved s (on_s next_token p)"
  "moved s p \<Longrightarrow> moved s (on_s prev_token (on_s next_token p))"
  "moved s p \<Longrightarrow> moved s (on_s (\<lambda>s. fail_with s src code msg) p)"
  "moved s p \<Longrightarrow> moved s (on_s (\<lambda>s. set_error s src code msg) p)"
  "moved s p \<Longrightarrow> moved s (p\<lparr>p_ap := as\<rparr>)" "moved s p \<Longrightarrow> moved s (p\<lparr>p_h := h\<rparr>)" "moved s p \<Longrightarrow> moved s (p\<lparr>p_out := out\<rparr>)"
  "moved s p \<Longrightarrow> moved s (on_s (\<lambda>s. s\<lparr>s_has_error := b\<rparr>) p)"
  "scan_ok (p_s p) \<Longrightarrow> moved (p_s p) p"
  using scan_ok_next [of "p_s p"] peek_ok [of "p_s p"] by (auto simp: moved_def scan_ok_def ahead_def)

lemma moved_trans: "moved s p \<Longrightarrow> moved (p_s p) q \<Longrightarrow> moved s q"
  by (auto simp: moved_def)

lemma moved_args: "moved s p \<Longrightarrow> moved s (on_s (null_arg purpose) p)" "moved s p \<Longrightarrow> moved s (on_s (bad_utf8 purpose) p)"
  using moved_steps(3) [of s p] by (simp_all add: null_arg_def [abs_def] bad_utf8_def [abs_def])

lemma piece_length_moved: "moved s p \<Longrightarrow> wp f t (\<lambda>(len, p'). moved s p') (piece_length str p)"
  unfolding piece_length_def Let_def by (auto simp: moved_steps intro!: wp_va_arg)

lemma append_piece_moved: "moved s p \<Longrightarrow> wp f t (\<lambda>(sb, p'). moved s p') (append_piece m sb str len p)"
  by (auto simp: append_piece_def moved_steps split: prod.split)

lemma read_pieces_moved:
  "scan_ok (p_s p) \<Longrightarrow> ahead (p_s p) < n \<Longrightarrow> wp True False (\<lambda>(sb, p'). moved (p_s p) p') (read_pieces m n purpose sb p)"
proof (induction n arbitrary: sb p)
  case (Suc n)
  let ?s = "p_s p" and ?Q = "\<lambda>(sb :: strbuffer, p'). moved (p_s p) p'"
  have rec: "wp True False ?Q (read_pieces m n purpose sb (on_s next_token q))"
    if q: "moved ?s q" "tok (on_s next_token q) = ch CHR ''+''" for q :: "'a pstate" and sb
  proof -
    from q have "0 < ahead (p_s q)" using scan_ok_next(3) [of "p_s q"] by (cases "ahead (p_s q)") (auto simp: moved_def)
    with q scan_ok_next [of "p_s q"] Suc.prems have "scan_ok (p_s (on_s next_token q))" "ahead (p_s (on_s next_token q)) < n"
      by (auto simp: moved_def)
    from Suc.IH [OF this] show ?thesis
      by (rule wp_mono) (use q in \<open>auto intro: moved_trans moved_steps\<close>)
  qed
  have fin: "wp True False ?Q (if tok (on_s next_token q) \<noteq> ch CHR ''+'' then Done (sb', on_s prev_token (on_s next_token q))
      else read_pieces m n purpose sb' (on_s next_token q))" if "moved ?s q" for q :: "'a pstate" and sb'
    using that rec [of q] by (simp add: moved_steps)
  have p: "moved ?s (if b then on_s (null_arg purpose) (p\<lparr>p_ap := as\<rparr>) else p\<lparr>p_ap := as\<rparr>)" for b as
    using Suc.prems by (simp add: moved_steps moved_args)
  show ?case
    unfolding read_pieces.simps wp_rbind
    by (intro wp_va_arg; simp only: prod.case wp_rbind; rule wp_mono [OF piece_length_moved [OF p]];
        simp only: split_paired_all prod.case wp_rbind; erule wp_mono [OF append_piece_moved];
        simp only: split_paired_all prod.case; erule fin)
qed simp

lemma read_string_moved:
  assumes "moved s p" "ahead s < n"
  shows "wp True False (\<lambda>(x, p'). moved s p') (read_string m n purpose optional p)"
proof -
  have q: "moved s (on_s prev_token (on_s next_token p))" using assms(1) by (rule moved_steps)
  have pieces: "moved s q \<Longrightarrow> wp True False (\<lambda>(sb, p'). moved s p') (read_pieces m n purpose sb q)" for q :: "'a pstate" and sb
    using assms(2) read_pieces_moved [of q n m purpose sb] by (auto simp: moved_def elim: wp_mono)
  show ?thesis
    unfolding read_string_def Let_def
    by (auto simp: q moved_steps moved_args split: prod.split option.split if_split_asm intro!: wp_va_arg wp_mono [OF pieces])
qed

lemma pack_string_moved:
  assumes "moved s p" "ahead s < n"
  shows "wp True False (\<lambda>(x, p'). moved s p') (pack_string e m n p)"
proof -
  have q: "moved s (if b then on_s next_token p else on_s prev_token (on_s next_token p))" for b
    using assms(1) by (simp add: moved_steps)
  show ?thesis
    unfolding pack_string_def Let_def wp_rbind
    by (rule wp_mono [OF read_string_moved [OF q assms(2)]]) (auto simp: moved_steps split: prod.split option.split)
qed

lemma pack_object_inter_moved: "moved s p \<Longrightarrow> wp True t (\<lambda>(x, p'). moved s p') (pack_object_inter b p)"
  unfolding pack_object_inter_def Let_def
  by (auto simp: moved_steps wp_or_fault split: option.split intro!: wp_va_arg)

lemma pack_integer_moved: "moved s p \<Longrightarrow> moved s (snd (pack_integer e i p))"
  by (auto simp: pack_integer_def moved_steps Let_def split: prod.split)

lemma pack_real_moved: "moved s p \<Longrightarrow> wp True t (\<lambda>(x, p'). moved s p') (pack_real e r p)"
  by (auto simp: pack_real_def moved_steps Let_def wp_or_fault split: prod.split option.split)

lemma pack_error_moved: "moved s p \<Longrightarrow> wp True t (\<lambda>(x, p'). moved s p') (pack_error json p)"
  by (auto simp: pack_error_def moved_steps wp_or_fault split: option.split)

lemma pack_store_moved: "moved s p \<Longrightarrow> wp True t (moved s) (pack_store put msg v p)"
  by (auto simp: pack_store_def moved_steps Let_def wp_or_fault split: option.split)

text \<open>How much fuel the loops need: reading on from \<open>p\<close>, at the end of the format one unit is enough.\<close>

definition loop_fuel :: "nat \<Rightarrow> scanner \<Rightarrow> bool" where
  "loop_fuel n s \<longleftrightarrow> scan_ok s \<and> (2 * ahead s + 3 \<le> n \<or> token_of s = 0 \<and> 1 \<le> n)"

lemma loop_fuel_next: "scan_ok s \<Longrightarrow> 2 * ahead s + 2 \<le> n \<Longrightarrow> loop_fuel n (next_token s)"
  using scan_ok_next [of s] by (cases "ahead s = 0") (auto simp: loop_fuel_def)

lemma loop_fuel_moved: "moved s p \<Longrightarrow> 2 * ahead s + 2 \<le> n \<Longrightarrow> loop_fuel n (p_s (on_s next_token p))"
  using loop_fuel_next [of "p_s p" n] by (simp add: moved_def)

lemma pack_returns:
  fixes e :: "('r, 'z) jenv_scheme"
  shows "scan_ok (p_s p) \<Longrightarrow> 2 * ahead (p_s p) + 2 \<le> n \<Longrightarrow> wp True False (\<lambda>(x, p'). moved (p_s p) p') (pack e m n p)"
    "loop_fuel n (p_s p) \<Longrightarrow> wp True False (\<lambda>(x, p'). moved (p_s p) p') (pack_object e m n obj p)"
    "loop_fuel n (p_s p) \<Longrightarrow> wp True False (\<lambda>(x, p'). moved (p_s p) p') (pack_array e m n obj p)"
proof (induction n arbitrary: p obj)
  case (Suc n)
  {
    case 1
    have m: "moved (p_s p) p" using 1(1) by (rule moved_steps)
    have obj: "wp True False (\<lambda>(x, p'). moved (p_s p) p') (pack_object e m n obj (on_s next_token (p\<lparr>p_h := h\<rparr>)))"
        and arr: "wp True False (\<lambda>(x, p'). moved (p_s p) p') (pack_array e m n obj (on_s next_token (p\<lparr>p_h := h\<rparr>)))" for h obj
    proof -
      let ?q = "on_s next_token (p\<lparr>p_h := h\<rparr>)"
      have q: "moved (p_s p) ?q" using m by (simp add: moved_steps(1,6))
      have l: "loop_fuel n (p_s ?q)"
        using 1 scan_ok_next [of "p_s p"] by (cases "ahead (p_s p) = 0") (auto simp: loop_fuel_def)
      show "wp True False (\<lambda>(x, p'). moved (p_s p) p') (pack_object e m n obj ?q)"
        by (rule wp_mono [OF Suc.IH(2) [OF l]]) (auto intro: moved_trans [OF q])
      show "wp True False (\<lambda>(x, p'). moved (p_s p) p') (pack_array e m n obj ?q)"
        by (rule wp_mono [OF Suc.IH(3) [OF l]]) (auto intro: moved_trans [OF q])
    qed
    show ?case
    proof (cases "ahead (p_s p) < n")
      case True
      show ?thesis
        using m obj arr pack_string_moved [OF m True] pack_object_inter_moved [OF m]
          pack_integer_moved [OF moved_steps(5) [OF m]] pack_real_moved [OF moved_steps(5) [OF m], of False]
        unfolding pack.simps Let_def case_prod_beta by (auto simp: moved_steps intro!: wp_va_arg)
    next
      case False
      with 1 show ?thesis by simp
    qed
  next
    case 2
    show ?case
    proof (cases "tok p = 0")
      case True
      then show ?thesis
        using 2 by (simp add: pack_object.simps loop_fuel_def moved_steps pack_error_moved)
    next
      case False
      with 2 have f: "scan_ok (p_s p)" "2 * ahead (p_s p) + 2 \<le> n" by (auto simp: loop_fuel_def)
      have m: "moved (p_s p) p" using f(1) by (rule moved_steps)
      have nxt: "wp True False (\<lambda>(x, p'). moved (p_s p) p') (pack_object e m n obj (on_s next_token q))"
        if q: "moved (p_s p) q" for q :: "'r pstate"
        by (rule wp_mono [OF Suc.IH(2) [OF loop_fuel_moved [OF q f(2)]]]) (auto intro: moved_trans [OF moved_steps(1) [OF q]])
      have val: "wp True False (\<lambda>(x, p'). moved (p_s p) p') (pack e m n (on_s prev_token (on_s next_token q)))"
        if q: "moved (p_s p) q" for q :: "'r pstate"
        using that f moved_steps(2) [OF q]
        by (intro wp_mono [OF Suc.IH(1) [of "on_s prev_token (on_s next_token q)"]]) (auto simp: moved_def)
      have key: "wp True False (\<lambda>(x, p'). moved (p_s p) p') (read_string m n purpose b p)" for purpose b
        by (rule read_string_moved [OF m]) (use f in simp)
      show ?thesis
        unfolding pack_object.simps wp_rbind if_distrib [of "wp _ _ _"] Let_def
        using m False
        by (auto simp: moved_steps pack_error_moved split: option.split
            intro!: wp_mono [OF key] wp_mono [OF val] wp_mono [OF pack_store_moved] nxt)
    qed
  next
    case 3
    show ?case
    proof (cases "tok p = 0")
      case True
      then show ?thesis
        using 3 by (simp add: pack_array.simps loop_fuel_def moved_steps pack_error_moved)
    next
      case False
      with 3 have f: "scan_ok (p_s p)" "2 * ahead (p_s p) + 2 \<le> n" by (auto simp: loop_fuel_def)
      have m: "moved (p_s p) p" using f(1) by (rule moved_steps)
      have nxt: "wp True False (\<lambda>(x, p'). moved (p_s p) p') (pack_array e m n obj (on_s next_token q))"
        if q: "moved (p_s p) q" for q :: "'r pstate"
        by (rule wp_mono [OF Suc.IH(3) [OF loop_fuel_moved [OF q f(2)]]]) (auto intro: moved_trans [OF moved_steps(1) [OF q]])
      have val: "wp True False (\<lambda>(x, p'). moved (p_s p) p') (pack e m n (on_s prev_token (on_s next_token p)))"
        using f moved_steps(2) [OF m]
        by (intro wp_mono [OF Suc.IH(1) [of "on_s prev_token (on_s next_token p)"]]) (auto simp: moved_def)
      show ?thesis
        unfolding pack_array.simps wp_rbind if_distrib [of "wp _ _ _"] Let_def
        using m False
        by (auto simp: moved_steps pack_error_moved split: option.split
            intro!: wp_mono [OF val] wp_mono [OF pack_store_moved] nxt)
    qed
  }
qed (simp_all add: loop_fuel_def pack.simps pack_object.simps pack_array.simps)

text \<open>The same for the unpacker.\<close>

lemma wp_root_node: "wp f s Q (root_node h root) \<longleftrightarrow>
    (case root of None \<Rightarrow> Q None | Some a \<Rightarrow> (case node_at h a of None \<Rightarrow> f | Some n \<Rightarrow> Q (Some n)))"
  by (auto simp: root_node_def wp_or_fault split: option.split)

lemma wp_store_to: "(\<And>out. Q (p\<lparr>p_out := out\<rparr>)) \<Longrightarrow> wp f s Q (store_to target x p)"
  by (simp add: store_to_def split: option.split)

lemma validation_moved: "moved s p \<Longrightarrow> moved s (validation code msg p)"
  by (simp add: validation_def moved_steps)

lemma unpack_leaf_moved:
  assumes "moved s p"
  shows "wp True t (\<lambda>(r, p'). moved s p') (unpack_plain test expected val root p)"
    "wp True t (\<lambda>(r, p'). moved s p') (unpack_string root p)"
    "wp True t (\<lambda>(r, p'). moved s p') (unpack_json b root p)"
    "wp True t (\<lambda>(r, p'). moved s p') (unpack_null root p)"
    "wp True t (\<lambda>(r, p'). moved s p') (unpack_object_end e m root strict gotopt key_set p)"
    "wp True t (\<lambda>(r, p'). moved s p') (unpack_array_end root strict i p)"
proof -
  have str: "wp True t (\<lambda>(r, p'). moved s p') (unpack_string_to rn p)" for rn
    unfolding unpack_string_to_def Let_def using assms
    by (auto simp: moved_steps intro!: wp_va_arg wp_store_to split: option.split)
  note defs = unpack_plain_def unpack_string_def unpack_json_def unpack_null_def unpack_object_end_def unpack_array_end_def Let_def
  show "wp True t (\<lambda>(r, p'). moved s p') (unpack_plain test expected val root p)"
    unfolding defs using assms
    by (auto simp: moved_steps validation_moved wp_root_node wrong_type_def intro!: wp_va_arg wp_store_to split: option.split)
  show "wp True t (\<lambda>(r, p'). moved s p') (unpack_string root p)"
    unfolding defs using assms str
    by (auto simp: moved_steps validation_moved wp_root_node wrong_type_def split: option.split node.split)
  show "wp True t (\<lambda>(r, p'). moved s p') (unpack_json b root p)"
    unfolding defs using assms
    by (auto simp: moved_steps wp_or_fault intro!: wp_va_arg wp_store_to split: option.split)
  show "wp True t (\<lambda>(r, p'). moved s p') (unpack_null root p)"
    unfolding defs using assms
    by (auto simp: validation_moved wp_root_node wrong_type_def split: option.split node.split)
  show "wp True t (\<lambda>(r, p'). moved s p') (unpack_object_end e m root strict gotopt key_set p)"
    unfolding defs using assms
    by (auto simp: validation_moved wp_root_node split: option.split node.split prod.split)
  show "wp True t (\<lambda>(r, p'). moved s p') (unpack_array_end root strict i p)"
    unfolding defs using assms
    by (auto simp: validation_moved wp_or_fault split: option.split)
qed

lemma unpack_returns:
  fixes e :: "('r, 'z) jenv_scheme"
  shows "scan_ok (p_s p) \<Longrightarrow> 2 * ahead (p_s p) + 2 \<le> n \<Longrightarrow> wp True False (\<lambda>(x, p'). moved (p_s p) p') (unpack e m n root p)"
    "loop_fuel n (p_s p) \<Longrightarrow> wp True False (\<lambda>(x, p'). moved (p_s p) p') (unpack_object e m n root strict gotopt key_set p)"
    "loop_fuel n (p_s p) \<Longrightarrow> wp True False (\<lambda>(x, p'). moved (p_s p) p') (unpack_array e m n root strict i p)"
proof (induction n arbitrary: p root strict gotopt key_set i)
  case (Suc n)
  {
    case 1
    have m: "moved (p_s p) p" using 1(1) by (rule moved_steps)
    let ?q = "on_s next_token p"
    have q: "moved (p_s p) ?q" using m by (rule moved_steps)
    have l: "loop_fuel n (p_s ?q)"
      using 1 scan_ok_next [of "p_s p"] by (cases "ahead (p_s p) = 0") (auto simp: loop_fuel_def)
    have "wp True False (\<lambda>(x, p'). moved (p_s p) p') (unpack_object e m n root strict gotopt key_set ?q)"
        "wp True False (\<lambda>(x, p'). moved (p_s p) p') (unpack_array e m n root strict i ?q)" for strict gotopt key_set i
      by (rule wp_mono [OF Suc.IH(2) [OF l]] wp_mono [OF Suc.IH(3) [OF l]]; auto intro: moved_trans [OF q])+
    then show ?case
      using m unpack_leaf_moved [OF m] unfolding unpack.simps Let_def
      by (auto simp: moved_steps validation_moved wp_root_node wrong_type_def split: option.split)
  next
    case 2
    show ?case
    proof (cases "tok p = 0")
      case True
      then show ?thesis
        using 2 by (simp add: unpack_object.simps loop_fuel_def moved_steps)
    next
      case False
      with 2 have f: "scan_ok (p_s p)" "2 * ahead (p_s p) + 2 \<le> n" by (auto simp: loop_fuel_def)
      have m: "moved (p_s p) p" using f(1) by (rule moved_steps)
      have nxt: "wp True False (\<lambda>(x, p'). moved (p_s p) p') (unpack_object e m n root strict gotopt key_set (on_s next_token q))"
        if q: "moved (p_s p) q" for q :: "'r pstate" and strict gotopt key_set
        by (rule wp_mono [OF Suc.IH(2) [OF loop_fuel_moved [OF q f(2)]]]) (auto intro: moved_trans [OF moved_steps(1) [OF q]])
      have val: "wp True False (\<lambda>(x, p'). moved (p_s p) p') (unpack e m n v q)"
        if q: "moved (p_s p) q" for q :: "'r pstate" and v
        using that f by (intro wp_mono [OF Suc.IH(1) [of q]]) (auto simp: moved_def)
      show ?thesis
        unfolding unpack_object.simps Let_def
        using m False nxt unpack_leaf_moved(5) [OF m]
        by (auto simp: moved_steps validation_moved wp_or_fault split: option.split prod.split
            intro!: wp_va_arg wp_mono [OF val] nxt)
    qed
  next
    case 3
    show ?case
    proof (cases "tok p = 0")
      case True
      then show ?thesis
        using 3 by (simp add: unpack_array.simps loop_fuel_def moved_steps)
    next
      case False
      with 3 have f: "scan_ok (p_s p)" "2 * ahead (p_s p) + 2 \<le> n" by (auto simp: loop_fuel_def)
      have m: "moved (p_s p) p" using f(1) by (rule moved_steps)
      have nxt: "wp True False (\<lambda>(x, p'). moved (p_s p) p') (unpack_array e m n root strict i (on_s next_token q))"
        if q: "moved (p_s p) q" for q :: "'r pstate" and strict i
        by (rule wp_mono [OF Suc.IH(3) [OF loop_fuel_moved [OF q f(2)]]]) (auto intro: moved_trans [OF moved_steps(1) [OF q]])
      have val: "wp True False (\<lambda>(x, p'). moved (p_s p) p') (unpack e m n v p)" for v
        using f by (intro wp_mono [OF Suc.IH(1) [of p]]) (auto simp: moved_def)
      show ?thesis
        unfolding unpack_array.simps Let_def
        using m False nxt unpack_leaf_moved(6) [OF m]
        by (auto simp: moved_steps validation_moved wp_or_fault split: option.split intro!: wp_mono [OF val] nxt)
    qed
  }
qed (simp_all add: loop_fuel_def unpack.simps unpack_object.simps unpack_array.simps)

lemma wp_not_Stuck: "wp f False Q r \<Longrightarrow> r \<noteq> Stuck"
  by (cases r) auto

lemma scanner_start:
  assumes "0 \<notin> set f"
  shows "scan_ok (next_token (scanner_init err flags f))" "ahead (next_token (scanner_init err flags f)) \<le> length f"
proof -
  let ?s = "scanner_init err flags f"
  have n: "0 \<notin> set (s_fmt ?s)" "t_line (s_next ?s) \<noteq> 0 \<and> t_token (s_next ?s) = 0 \<longrightarrow> s_fmt ?s = []"
    using assms by (simp_all add: scanner_init_def no_token_def)
  have a: "ahead ?s = length f" by (simp add: ahead_def scanner_init_def no_token_def)
  show "scan_ok (next_token ?s)" by (rule next_token_ok(1) [OF n])
  show "ahead (next_token ?s) \<le> length f"
    using next_token_ok(2,3) [OF n] a by (cases "length f = 0") auto
qed

lemma json_vpack_ex_returns: "json_vpack_ex e m h error flags fmt ap \<noteq> Stuck"
proof -
  have "wp True False (\<lambda>_. True) (json_vpack_ex e m h error flags fmt ap)"
  proof (cases "fmt = None \<or> cstr (the fmt) = []")
    case False
    then obtain b where b: "fmt = Some b" "cstr b \<noteq> []" by auto
    let ?p = "\<lparr>p_s = next_token (scanner_init (jsonp_error_init error None) flags (cstr b)), p_ap = ap, p_h = h, p_out = []\<rparr>"
    have "wp True False (\<lambda>(x, p'). moved (p_s ?p) p') (pack e m (pack_fuel (cstr b)) ?p)"
      using scanner_start [OF cstr_no_nul, of "jsonp_error_init error None" flags b] by (intro pack_returns) (auto simp: pack_fuel_def)
    then show ?thesis
      using b by (auto simp: json_vpack_ex_def Let_def wp_or_fault split: option.split elim!: wp_mono)
  qed (auto simp: json_vpack_ex_def Let_def split: option.split)
  then show ?thesis by (rule wp_not_Stuck)
qed

lemma json_vunpack_ex_returns: "json_vunpack_ex e m h root error flags fmt ap \<noteq> Stuck"
proof -
  have "wp True False (\<lambda>_. True) (json_vunpack_ex e m h root error flags fmt ap)"
  proof (cases "fmt = None \<or> cstr (the fmt) = []")
    case False
    then obtain b where b: "fmt = Some b" "cstr b \<noteq> []" by auto
    let ?p = "\<lparr>p_s = next_token (scanner_init (jsonp_error_init error None) flags (cstr b)), p_ap = ap, p_h = h, p_out = []\<rparr>"
    have "wp True False (\<lambda>(x, p'). moved (p_s ?p) p') (unpack e m (pack_fuel (cstr b)) root ?p)"
      using scanner_start [OF cstr_no_nul, of "jsonp_error_init error None" flags b] by (intro unpack_returns) (auto simp: pack_fuel_def)
    then show ?thesis
      using b by (auto simp: json_vunpack_ex_def Let_def elim!: wp_mono)
  qed (auto simp: json_vunpack_ex_def Let_def)
  then show ?thesis by (rule wp_not_Stuck)
qed

subsection \<open>Errors are reported, validation stores nothing\<close>

definition reported :: "json_error option \<Rightarrow> bool" where
  "reported err = (case err of None \<Rightarrow> True | Some e \<Rightarrow> err_text e \<noteq> [])"

lemma reported_vset: "cstr msg \<noteq> [] \<Longrightarrow> reported (jsonp_error_vset err l c q code msg)"
  by (auto simp: reported_def jsonp_error_vset_def JSON_ERROR_TEXT_LENGTH_def split: option.split)

lemma err_text_set_source [simp]: "err_text (jsonp_error_set_source e src) = err_text e"
  by (simp add: jsonp_error_set_source_def Let_def)

lemma reported_set_error: "cstr msg \<noteq> [] \<Longrightarrow> reported (s_error (set_error s src code msg))"
  using reported_vset [of msg "s_error s"] by (fastforce simp: set_error_def reported_def split: option.splits)

lemma dec_nat_head: "hd (dec_nat n) \<noteq> 0 \<and> dec_nat n \<noteq> []"
proof (induction n rule: dec_nat.induct)
  case (1 n)
  have "(of_nat (48 + n) :: byte) \<noteq> 0" if "n < 10"
  proof -
    have "unat (of_nat (48 + n) :: byte) = 48 + n" using that by (subst unat_of_nat) simp
    then show ?thesis by (metis add_is_0 unat_0 zero_neq_numeral)
  qed
  with 1 show ?case by (subst (1 2) dec_nat.simps) (auto simp: hd_append)
qed

lemma cstr_head: "t \<noteq> [] \<Longrightarrow> hd t \<noteq> 0 \<Longrightarrow> cstr (t @ u) \<noteq> []"
  by (cases t) (auto simp: cstr_def)

lemma cstr_literal: "c \<noteq> 0 \<Longrightarrow> cstr (c # t) \<noteq> []"
  by (simp add: cstr_def)

lemma cstr_dec: "cstr (dec_nat n @ u) \<noteq> []" "cstr (dec_int i @ u) \<noteq> []"
  using dec_nat_head by (auto simp: dec_int_def cstr_head cstr_literal)

text \<open>What an unpacking step from \<open>p\<close> gives: a status 0 or -1, a message when it is -1, the values unchanged,
  and nothing stored when only validating.\<close>

definition reads :: "'r pstate \<Rightarrow> 'r pstate \<Rightarrow> bool" where
  "reads p q \<longleftrightarrow> s_flags (p_s q) = s_flags (p_s p) \<and> length (p_h q) = length (p_h p) \<and>
     (\<forall>a. node_at (p_h q) a = node_at (p_h p) a) \<and> (validate_only p \<longrightarrow> p_out q = p_out p \<and> p_h q = p_h p)"

definition unpacks :: "'r pstate \<Rightarrow> int \<times> 'r pstate \<Rightarrow> bool" where
  "unpacks p x \<longleftrightarrow> (fst x = 0 \<or> fst x = -1 \<and> reported (s_error (p_s (snd x)))) \<and> reads p (snd x)"

lemma s_flags_tokens [simp]: "s_flags (next_token s) = s_flags s" "s_flags (prev_token s) = s_flags s"
  by (simp_all add: next_token_def prev_token_def Let_def split: prod.split)

lemma reads_refl [simp]: "reads p p"
  by (simp add: reads_def)

lemma reads_trans: "reads p q \<Longrightarrow> reads q r \<Longrightarrow> reads p r"
  by (auto simp: reads_def)

lemma reads_steps:
  "reads p q \<Longrightarrow> reads p (q\<lparr>p_ap := as\<rparr>)" "reads p q \<Longrightarrow> reads p (on_s next_token q)"
  "reads p q \<Longrightarrow> reads p (on_s prev_token q)" "reads p q \<Longrightarrow> reads p (on_s (\<lambda>s. set_error s src code msg) q)"
  "reads p q \<Longrightarrow> \<not> validate_only p \<Longrightarrow> reads p (q\<lparr>p_out := out\<rparr>)" "reads p q \<Longrightarrow> reads p (validation code msg q)"
  by (auto simp: reads_def validation_def)

lemma reads_incref:
  "reads p q \<Longrightarrow> \<not> validate_only p \<Longrightarrow> json_incref (p_h q) root = Some h \<Longrightarrow> reads p (q\<lparr>p_h := h\<rparr>)"
  by (auto simp: reads_def json_incref_def node_at_def deref_def nth_list_update split: option.splits if_splits)
    (metis option.simps(9))

lemma unpacks_0: "unpacks p (0, q) = reads p q"
  by (simp add: unpacks_def)

lemma unpacks_error: "reads p q \<Longrightarrow> cstr msg \<noteq> [] \<Longrightarrow> unpacks p (-1, on_s (\<lambda>s. set_error s src code msg) q)"
  by (simp add: unpacks_def reads_steps reported_set_error)

lemma unpacks_validation: "reads p q \<Longrightarrow> cstr msg \<noteq> [] \<Longrightarrow> unpacks p (-1, validation code msg q)"
  unfolding validation_def by (rule unpacks_error)

lemma unpacks_wrong_type: "reads p q \<Longrightarrow> unpacks p (wrong_type expected n q)"
  by (simp add: wrong_type_def unpacks_validation cstr_literal)

lemmas unpack_intros = unpacks_error unpacks_validation unpacks_wrong_type reads_steps reads_incref wp_va_arg wp_store_to

lemma unpack_leaf_reads:
  assumes "reads p q"
  shows "wp True True (unpacks p) (unpack_plain test expected val root q)"
    "wp True True (unpacks p) (unpack_string root q)"
    "wp True True (unpacks p) (unpack_json b root q)"
    "wp True True (unpacks p) (unpack_null root q)"
    "wp True True (unpacks p) (unpack_object_end e m root strict gotopt key_set q)"
    "wp True True (unpacks p) (unpack_array_end root strict i q)"
proof -
  have v: "validate_only q = validate_only p" using assms by (simp add: reads_def)
  have str: "wp True True (unpacks p) (unpack_string_to rn q)" for rn
    unfolding unpack_string_to_def Let_def using assms v
    by (auto simp: unpacks_0 cstr_literal intro!: unpack_intros split: option.split)
  note defs = unpack_plain_def unpack_string_def unpack_json_def unpack_null_def unpack_object_end_def unpack_array_end_def Let_def
  show "wp True True (unpacks p) (unpack_plain test expected val root q)"
    unfolding defs using assms v
    by (auto simp: unpacks_0 wp_root_node intro!: unpack_intros split: option.split)
  show "wp True True (unpacks p) (unpack_string root q)"
    unfolding defs using assms str
    by (auto simp: unpacks_0 wp_root_node intro!: unpack_intros split: option.split node.split)
  show "wp True True (unpacks p) (unpack_json b root q)"
    unfolding defs using assms v
    by (auto simp: unpacks_0 wp_or_fault intro!: unpack_intros split: option.split)
  show "wp True True (unpacks p) (unpack_null root q)"
    unfolding defs using assms
    by (auto simp: unpacks_0 wp_root_node intro!: unpack_intros split: option.split node.split)
  show "wp True True (unpacks p) (unpack_object_end e m root strict gotopt key_set q)"
    unfolding defs using assms
    by (auto simp: unpacks_0 wp_root_node cstr_dec intro!: unpack_intros split: option.split node.split prod.split)
  show "wp True True (unpacks p) (unpack_array_end root strict i q)"
    unfolding defs using assms
    by (auto simp: unpacks_0 wp_or_fault cstr_dec intro!: unpack_intros split: option.split)
qed

lemma unpacks_trans: "reads p q \<Longrightarrow> unpacks q x \<Longrightarrow> unpacks p x"
  by (auto simp: unpacks_def intro: reads_trans)

lemma unpack_reads:
  fixes e :: "('r, 'z) jenv_scheme"
  shows "reads p q \<Longrightarrow> wp True True (unpacks p) (unpack e m n root q)"
    "reads p q \<Longrightarrow> wp True True (unpacks p) (unpack_object e m n root strict gotopt key_set q)"
    "reads p q \<Longrightarrow> wp True True (unpacks p) (unpack_array e m n root strict i q)"
proof (induction n arbitrary: q root strict gotopt key_set i)
  case (Suc n)
  {
    case 1
    then show ?case
      using unpack_leaf_reads [OF 1] unfolding unpack.simps Let_def
      by (auto simp: wp_root_node cstr_literal intro!: unpack_intros Suc.IH(2,3) split: option.split)
  next
    case 2
    have val: "reads p q' \<Longrightarrow> wp True True (\<lambda>x. wp True True (unpacks p) (case x of (r, p4) \<Rightarrow>
        if r \<noteq> 0 then Done (-1, p4) else let (_, ks, _) = hashtable_set (env_hash e) (env_mem e) key_set k the_null
          in unpack_object e m n root strict g ks (on_s next_token p4)))
      (unpack e m n v q')" for q' :: "'r pstate" and v k g root and strict :: int
      by (rule wp_mono [OF Suc.IH(1)], assumption)
        (auto simp: unpacks_def intro!: Suc.IH(2) reads_steps split: prod.split)
    show ?case
      unfolding unpack_object.simps Let_def
      using unpack_leaf_reads(5) [OF 2] 2
      by (auto simp: cstr_literal after_strict_def wp_or_fault intro!: unpack_intros Suc.IH(2) val [unfolded Let_def] split: option.split)
  next
    case 3
    have val: "wp True True (\<lambda>x. wp True True (unpacks p) (case x of (r, p1) \<Rightarrow>
        if r \<noteq> 0 then Done (-1, p1) else unpack_array e m n root strict (i + 1) (on_s next_token p1))) (unpack e m n v q)" for v root and strict :: int
      by (rule wp_mono [OF Suc.IH(1) [OF 3]]) (auto simp: unpacks_def intro!: Suc.IH(3) reads_steps)
    show ?case
      unfolding unpack_array.simps Let_def
      using unpack_leaf_reads(6) [OF 3] 3
      by (auto simp: cstr_literal after_strict_def wp_or_fault intro!: unpack_intros Suc.IH(3) val split: option.split)
  }
qed (simp_all add: unpack.simps unpack_object.simps unpack_array.simps)

lemma json_vunpack_ex_reads:
  assumes "json_vunpack_ex e m h root error flags fmt ap = Done (r, err, h', out)"
  shows "(r = 0 \<or> r = -1 \<and> reported err) \<and> (\<forall>a. node_at h' a = node_at h a) \<and>
    (flag flags JSON_VALIDATE_ONLY \<longrightarrow> out = [] \<and> h' = h)"
proof -
  let ?Q = "\<lambda>(r :: int, err, h', out). (r = 0 \<or> r = -1 \<and> reported err) \<and> (\<forall>a. node_at h' a = node_at h a) \<and>
    (flag flags JSON_VALIDATE_ONLY \<longrightarrow> out = [] \<and> h' = h)"
  have "wp True True ?Q (json_vunpack_ex e m h root error flags fmt ap)"
  proof (cases "root = None \<or> fmt = None \<or> cstr (the fmt) = []")
    case False
    let ?p = "\<lparr>p_s = next_token (scanner_init (jsonp_error_init error None) flags (cstr (the fmt))), p_ap = ap, p_h = h, p_out = []\<rparr>"
    have v: "validate_only ?p = flag flags JSON_VALIDATE_ONLY" by (simp add: scanner_init_def)
    have "wp True True (unpacks ?p) (unpack e m (pack_fuel (cstr (the fmt))) root ?p)" by (rule unpack_reads) simp
    then show ?thesis
      unfolding json_vunpack_ex_def using False v
      by (auto simp: Let_def unpacks_def reads_def reported_set_error cstr_literal elim!: wp_mono)
  qed (auto simp: json_vunpack_ex_def reported_vset cstr_literal)
  with assms show ?thesis by simp
qed

subsection \<open>No value after an error\<close>

lemma wp_any [simp]: "wp True True (\<lambda>_. True) r"
  by (cases r) simp_all

lemma wp_nested: "(\<And>x. wp True True Q (k x)) \<Longrightarrow> wp True True (\<lambda>x. wp True True Q (k x)) r"
  by (cases r) simp_all

lemma pack_loop_errors:
  "wp True True (\<lambda>(v, p'). errs p' \<longrightarrow> v = None) (pack_object e m n obj p)"
  "wp True True (\<lambda>(v, p'). errs p' \<longrightarrow> v = None) (pack_array e m n obj p)"
proof -
  have err: "wp True True (\<lambda>(v, p'). errs p' \<longrightarrow> v = None) (pack_error obj q)" for q
    by (auto simp: pack_error_def wp_or_fault split: option.split)
  show "wp True True (\<lambda>(v, p'). errs p' \<longrightarrow> v = None) (pack_object e m n obj p)"
    by (induction n arbitrary: p)
      (auto simp: pack_object.simps err Let_def intro!: wp_nested split: option.split)
  show "wp True True (\<lambda>(v, p'). errs p' \<longrightarrow> v = None) (pack_array e m n obj p)"
    by (induction n arbitrary: p)
      (auto simp: pack_array.simps err Let_def intro!: wp_nested split: option.split)
qed

lemma errs_tokens [simp]: "s_has_error (next_token s) = s_has_error s" "s_has_error (prev_token s) = s_has_error s"
  by (simp_all add: next_token_def prev_token_def Let_def split: prod.split)

lemma pack_errors:
  assumes "\<not> errs p"
  shows "wp True True (\<lambda>(v, p'). errs p' \<longrightarrow> v = None) (pack e m n p)"
proof (cases n)
  case (Suc k)
  have "wp True True (\<lambda>(v, p'). errs p' \<longrightarrow> v = None) (pack_string e m k p)"
    unfolding pack_string_def Let_def by (auto intro!: wp_nested split: option.split prod.split)
  moreover have "wp True True (\<lambda>(v, p'). errs p' \<longrightarrow> v = None) (pack_object_inter b p)" for b
    unfolding pack_object_inter_def Let_def using assms by (auto simp: wp_or_fault intro!: wp_va_arg split: option.split)
  moreover have "wp True True (\<lambda>(v, p'). errs p' \<longrightarrow> v = None) (Done (pack_integer e i (p\<lparr>p_ap := as\<rparr>)))" for i as
    using assms by (auto simp: pack_integer_def Let_def split: prod.split)
  moreover have "wp True True (\<lambda>(v, p'). errs p' \<longrightarrow> v = None) (pack_real e r (p\<lparr>p_ap := as\<rparr>))" for r as
    using assms by (auto simp: pack_real_def Let_def wp_or_fault split: prod.split option.split)
  ultimately show ?thesis
    using assms pack_loop_errors unfolding Suc pack.simps Let_def case_prod_beta by (auto intro!: wp_va_arg)
qed (simp add: pack.simps)

end
