(* ===== verification/PackSafe.thy ===== *)
theory PackSafe
  imports PackThms DeepCopy
begin

text \<open>
  The packer handles references correctly on every path. The caller holds a reference for each
  value it passes; a reference passed with \<open>o\<close> is taken over, also when packing fails after
  it was read, one passed with \<open>O\<close> stays with the caller. No memory fault occurs and the counts
  remain exact.
\<close>

subsection \<open>References among the arguments\<close>

fun held :: "'r arg list \<Rightarrow> addr multiset" where
  "held [] = {#}"
| "held (AJson a # as) = add_mset a (held as)"
| "held (_ # as) = held as"

lemma wp_va_arg_held:
  assumes "\<And>a. conv (AJson a) = None" "\<And>x as. held as = held (p_ap p) \<Longrightarrow> Q (x, p\<lparr>p_ap := as\<rparr>)"
  shows "wp f s Q (va_arg conv p)"
proof (cases "p_ap p")
  case (Cons a as)
  with assms show ?thesis by (cases a) (auto simp: va_arg_def split: option.split)
qed (simp add: va_arg_def)

subsection \<open>Steps that leave the heap alone\<close>

definition quiet :: "'r pstate \<Rightarrow> 'r pstate \<Rightarrow> bool" where
  "quiet p q \<longleftrightarrow> p_h q = p_h p \<and> held (p_ap q) = held (p_ap p) \<and> moved (p_s p) q"

lemma quiet_steps:
  "quiet p q \<Longrightarrow> quiet p (on_s next_token q)"
  "quiet p q \<Longrightarrow> quiet p (on_s prev_token (on_s next_token q))"
  "quiet p q \<Longrightarrow> quiet p (on_s (\<lambda>s. fail_with s src code msg) q)"
  "quiet p q \<Longrightarrow> quiet p (on_s (\<lambda>s. set_error s src code msg) q)"
  "quiet p q \<Longrightarrow> quiet p (on_s (\<lambda>s. s\<lparr>s_has_error := b\<rparr>) q)"
  "quiet p q \<Longrightarrow> quiet p (on_s (null_arg purpose) q)" "quiet p q \<Longrightarrow> quiet p (on_s (bad_utf8 purpose) q)"
  "quiet p q \<Longrightarrow> held as = held (p_ap q) \<Longrightarrow> quiet p (q\<lparr>p_ap := as\<rparr>)"
  "scan_ok (p_s p) \<Longrightarrow> quiet p p"
  by (simp_all add: quiet_def moved_steps moved_args)

lemma quiet_trans: "quiet p q \<Longrightarrow> quiet q r \<Longrightarrow> quiet p r"
  by (auto simp: quiet_def intro: moved_trans)

lemma piece_length_quiet: "quiet p q \<Longrightarrow> wp f t (\<lambda>(len, q'). quiet p q') (piece_length str q)"
  unfolding piece_length_def Let_def by (auto simp: quiet_steps intro!: wp_va_arg_held)

lemma append_piece_quiet: "quiet p q \<Longrightarrow> wp f t (\<lambda>(sb, q'). quiet p q') (append_piece m sb str len q)"
  by (auto simp: append_piece_def quiet_steps split: prod.split)

lemma read_pieces_quiet:
  "quiet p q \<Longrightarrow> wp False True (\<lambda>(sb, q'). quiet p q') (read_pieces m n purpose sb q)"
proof (induction n arbitrary: sb q)
  case (Suc n)
  have fin: "wp False True (\<lambda>(sb, q'). quiet p q') (if tok (on_s next_token r) \<noteq> ch CHR ''+'' then Done (sb', on_s prev_token (on_s next_token r))
      else read_pieces m n purpose sb' (on_s next_token r))" if "quiet p r" for r :: "'a pstate" and sb'
    using that Suc.IH by (simp add: quiet_steps)
  have a: "quiet p (if b then on_s (null_arg purpose) (q\<lparr>p_ap := as\<rparr>) else q\<lparr>p_ap := as\<rparr>)" if "held as = held (p_ap q)" for b as
    using that Suc.prems by (simp add: quiet_steps)
  show ?case
    unfolding read_pieces.simps wp_rbind
    by (rule wp_va_arg_held; (simp only: prod.case wp_rbind)?; (rule wp_mono [OF piece_length_quiet [OF a]], assumption)?;
        (simp only: split_paired_all prod.case wp_rbind; erule wp_mono [OF append_piece_quiet];
         simp only: split_paired_all prod.case; erule fin)?) simp_all
qed simp

lemma read_string_quiet:
  assumes "quiet p q"
  shows "wp False True (\<lambda>(x, q'). quiet p q') (read_string m n purpose optional q)"
  unfolding read_string_def Let_def using assms
  by (auto simp: quiet_steps split: prod.split option.split intro!: wp_va_arg_held wp_mono [OF read_pieces_quiet])

subsection \<open>The invariant\<close>

text \<open>Besides exact counts: the references in the heap, those held, and the tokens to come are at most
  \<open>N\<close>. Each token adds at most one reference, so no counter can overflow.\<close>

definition pinv :: "('r, 'z) jenv_scheme \<Rightarrow> nat \<Rightarrow> 'r pstate \<Rightarrow> addr multiset \<Rightarrow> bool" where
  "pinv e N p E \<longleftrightarrow> sound e (p_h p) (E + held (p_ap p)) \<and> scan_ok (p_s p) \<and>
     size (refs (p_h p)) + size E + size (held (p_ap p)) + ahead (p_s p) \<le> N"

text \<open>From \<open>E\<close> and the arguments at \<open>p\<close> to \<open>E'\<close> and those at \<open>q\<close>: the caller keeps what it had besides the
  arguments, and gains nothing but arguments.\<close>

definition gain :: "'r pstate \<Rightarrow> addr multiset \<Rightarrow> 'r pstate \<Rightarrow> addr multiset \<Rightarrow> bool" where
  "gain p E q E' \<longleftrightarrow> E \<subseteq># E' \<and> E' + held (p_ap q) \<subseteq># E + held (p_ap p)"

definition packed :: "('r, 'z) jenv_scheme \<Rightarrow> nat \<Rightarrow> 'r pstate \<Rightarrow> addr multiset \<Rightarrow> ptr \<times> 'r pstate \<Rightarrow> bool" where
  "packed e N p E x \<longleftrightarrow> (\<exists>E'. pinv e (Suc N) (snd x) (E' + opt (fst x)) \<and> gain p E (snd x) E')"

lemma pinv_quiet: "pinv e N p E \<Longrightarrow> quiet p q \<Longrightarrow> pinv e N q E"
  by (auto simp: pinv_def quiet_def moved_def)

lemma pinv_mono: "pinv e N p E \<Longrightarrow> N \<le> M \<Longrightarrow> pinv e M p E"
  by (auto simp: pinv_def)

lemma gain_quiet: "quiet p q \<Longrightarrow> gain p E q E"
  by (simp add: gain_def quiet_def)

lemma gain_same: "p_ap q = p_ap p \<Longrightarrow> gain p E q E"
  by (simp add: gain_def)

lemma gain_trans: "gain p E q E1 \<Longrightarrow> gain q E1 r E2 \<Longrightarrow> gain p E r E2"
  unfolding gain_def by (meson subset_mset.order_trans)

lemma gain_frame:
  assumes "gain p (E + X) q E1"
  shows "\<exists>E'. E1 = E' + X \<and> gain p E q E'"
proof (intro exI conjI)
  have s: "E + X \<subseteq># E1" "E1 + held (p_ap q) \<subseteq># E + X + held (p_ap p)" using assms by (auto simp: gain_def)
  then have x: "X \<subseteq># E1" by (meson mset_subset_eq_add_right subset_mset.order_trans)
  show e: "E1 = (E1 - X) + X" using x by simp
  have "(E1 - X) + X + held (p_ap q) \<subseteq># E + X + held (p_ap p)" using s(2) e by simp
  then have "((E1 - X) + held (p_ap q)) + X \<subseteq># (E + held (p_ap p)) + X" by (simp add: ac_simps)
  then have "(E1 - X) + held (p_ap q) \<subseteq># E + held (p_ap p)" by simp
  moreover have "E \<subseteq># E1 - X" using s(1) by (simp add: subset_mset.le_diff_conv2 [OF x])
  ultimately show "gain p E q (E1 - X)" by (simp add: gain_def)
qed

lemma packed_gain: "gain p E q E' \<Longrightarrow> packed e N q E' x \<Longrightarrow> packed e N p E x"
  unfolding packed_def by (blast intro: gain_trans)

lemma packedI: "pinv e (Suc N) q (E + opt v) \<Longrightarrow> gain p E q E \<Longrightarrow> packed e N p E (v, q)"
  unfolding packed_def by auto

lemma pinv_next:
  assumes "pinv e (Suc N) p E"
  shows "pinv e N (on_s next_token p) E \<or> tok (on_s next_token p) = 0 \<and> pinv e (Suc N) (on_s next_token p) E"
  using assms scan_ok_next [of "p_s p"] by (cases "ahead (p_s p) = 0") (auto simp: pinv_def)

subsection \<open>New values\<close>

lemma refs_init: "children n = [] \<Longrightarrow> refs (snd (json_init h n)) = refs h"
  by (simp add: refs_def cell_refs_def json_init_def)

lemma pinv_init:
  assumes "pinv e N p E" "children n = []" "\<not> simple n" "node_ok (env_hash e) n"
  shows "pinv e (Suc N) (p\<lparr>p_h := snd (json_init (p_h p) n)\<rparr>) (E + opt (Some (length (p_h p))))"
  using assms json_init_sound [of e "p_h p" "E + held (p_ap p)" n] by (simp add: pinv_def refs_init)

lemma pinv_leaf:
  assumes "pinv e N p E" "leaf_result e (p_h p) n x" "\<not> simple n" "case n of NObject _ \<Rightarrow> False | NArray _ \<Rightarrow> False | _ \<Rightarrow> True"
  shows "pinv e (Suc N) (p\<lparr>p_h := snd x\<rparr>) (E + opt (fst x))"
proof -
  have n: "children n = []" "node_ok (env_hash e) n" using assms(4) by (cases n; simp add: children_def node_ok_def)+
  have "pinv e (Suc N) (p\<lparr>p_h := p_h p\<rparr>) E" using assms(1) by (simp add: pinv_def)
  with assms(2) pinv_init [OF assms(1) n(1) assms(3) n(2)] show ?thesis by (auto simp: leaf_result_def)
qed

lemma string_leaf:
  "leaf_result e h (NString s) (json_stringn_nocheck e h (Some s))" "leaf_result e h (NString s) (jsonp_stringn_nocheck_own e h (Some s))"
  by (simp_all add: leaf_result_def json_stringn_nocheck_def jsonp_stringn_nocheck_own_def string_create_def json_init_def)

lemma pinv_simple:
  assumes "pinv e N p E" "node_at (p_h p) a = Some n" "simple n"
  shows "pinv e (Suc N) p (E + opt (Some a))"
  using assms sound_add_simple [of e "p_h p" "E + held (p_ap p)" a n] by (simp add: pinv_def)

lemma pinv_static:
  assumes "pinv e N p E"
  shows "pinv e (Suc N) p (E + opt json_true)" "pinv e (Suc N) p (E + opt json_false)" "pinv e (Suc N) p (E + opt json_null)"
proof -
  have "heap_ok (env_hash e) (p_h p)" using assms by (simp add: pinv_def sound_def)
  then have "node_at (p_h p) the_true = Some NTrue" "node_at (p_h p) the_false = Some NFalse" "node_at (p_h p) the_null = Some NNull"
    by (simp_all add: heap_ok_def)
  from this [THEN pinv_simple [OF assms]] show "pinv e (Suc N) p (E + opt json_true)" "pinv e (Suc N) p (E + opt json_false)"
    "pinv e (Suc N) p (E + opt json_null)"
    by (simp_all add: json_true_def json_false_def json_null_def simple_def)
qed

lemma pinv_decref:
  assumes "pinv e N p (E + opt v)"
  shows "\<exists>h. json_decref (p_h p) v = Some h \<and> pinv e N (p\<lparr>p_h := h\<rparr>) E"
proof -
  have s: "sound e (p_h p) ((E + held (p_ap p)) + opt v)" using assms by (simp add: pinv_def ac_simps)
  then obtain h where h: "json_decref (p_h p) v = Some h" "sound e h (E + held (p_ap p))" "shrinks (p_h p) h"
    using json_decref_opt_sound [OF s] by blast
  with load_shrinks [OF s h(3,2)] assms show ?thesis by (auto simp: pinv_def)
qed

subsection \<open>Storing into the container\<close>

text \<open>A container that could not be created is a null pointer; storing into it is refused.\<close>

definition stores :: "('r, 'z) jenv_scheme \<Rightarrow> ptr \<Rightarrow> ('r heap \<Rightarrow> ptr \<Rightarrow> (int \<times> 'r heap) option) \<Rightarrow> bool" where
  "stores e obj put \<longleftrightarrow> (\<forall>h v E. sound e h (add_mset v E) \<longrightarrow> (\<forall>a. obj = Some a \<longrightarrow> a \<in># E) \<longrightarrow>
     (\<exists>r h'. put h (Some v) = Some (r, h') \<and> sound e h' E \<and> size (refs h') \<le> Suc (size (refs h))))"

lemma refuse_stores:
  assumes "sound e h (add_mset v E)"
  shows "\<exists>r h'. refuse h (Some v) = Some (r, h') \<and> sound e h' E \<and> size (refs h') \<le> Suc (size (refs h))"
proof -
  obtain h' where h': "refuse h (Some v) = Some (-1, h')" "sound e h' E" "shrinks h h'" using refuse_sound [OF assms] by blast
  with load_shrinks [OF assms h'(3,2)] show ?thesis by auto
qed

lemma object_stores: "stores e obj (\<lambda>h v. json_object_set_new_nocheck e h obj key v)"
  unfolding stores_def
proof (intro allI impI)
  fix h :: "'a heap" and v E assume s: "sound e h (add_mset v E)" and o: "\<forall>a. obj = Some a \<longrightarrow> a \<in># E"
  note r = refuse_stores [OF s]
  show "\<exists>r h'. json_object_set_new_nocheck e h obj key (Some v) = Some (r, h') \<and> sound e h' E \<and> size (refs h') \<le> Suc (size (refs h))"
  proof (cases "key = None \<or> obj = None")
    case True
    with r show ?thesis
      by (auto simp: json_object_set_new_nocheck_def json_object_setn_new_nocheck_def as_object_def split: option.split)
  next
    case False
    then obtain k a where "key = Some k" "obj = Some a" by auto
    with json_object_setn_new_nocheck_sound [OF s, of a "cstr k"] o show ?thesis
      by (auto simp: json_object_set_new_nocheck_def)
  qed
qed

lemma array_stores: "stores e obj (\<lambda>h v. json_array_append_new e h obj v)"
  unfolding stores_def
proof (intro allI impI)
  fix h :: "'a heap" and v E assume s: "sound e h (add_mset v E)" and o: "\<forall>a. obj = Some a \<longrightarrow> a \<in># E"
  note r = refuse_stores [OF s]
  show "\<exists>r h'. json_array_append_new e h obj (Some v) = Some (r, h') \<and> sound e h' E \<and> size (refs h') \<le> Suc (size (refs h))"
  proof (cases obj)
    case None
    with r show ?thesis by (simp add: json_array_append_new_def as_array_def)
  next
    case (Some a)
    then have a: "a \<in># E" using o by simp
    then obtain n where n: "node_at h a = Some n" using sound_live [OF s, of a] by auto
    show ?thesis
    proof (cases "\<exists>arr. n = NArray arr")
      case True
      with n Some json_array_append_new_sound [OF s a] show ?thesis by blast
    next
      case False
      then have "as_array h (Some a) = Some None" using n by (auto simp: as_array_node split: node.split)
      with r Some show ?thesis by (simp add: json_array_append_new_def)
    qed
  qed
qed

lemma pack_store_pinv:
  assumes "pinv e N p (E + opt obj + opt (Some v))" "stores e obj put"
  shows "wp False t (\<lambda>q. pinv e N q (E + opt obj) \<and> p_ap q = p_ap p) (pack_store put msg (Some v) p)"
proof -
  obtain h where d: "json_decref (p_h p) (Some v) = Some h" "pinv e N (p\<lparr>p_h := h\<rparr>) (E + opt obj)"
    using pinv_decref [OF assms(1)] by blast
  have "sound e (p_h p) (add_mset v (E + opt obj + held (p_ap p)))" using assms(1) by (simp add: pinv_def)
  then obtain r h' where s: "put (p_h p) (Some v) = Some (r, h')" "sound e h' (E + opt obj + held (p_ap p))"
      "size (refs h') \<le> Suc (size (refs (p_h p)))"
    using assms(2) unfolding stores_def by fastforce
  then have "pinv e N (p\<lparr>p_h := h'\<rparr>) (E + opt obj)" using assms(1) by (auto simp: pinv_def)
  then show ?thesis
    using d s(1) by (auto simp: pack_store_def wp_or_fault Let_def pinv_def)
qed

lemma pack_error_packed:
  assumes "pinv e (Suc N) p (E + opt obj)" "gain p0 E0 p E"
  shows "wp False t (packed e N p0 E0) (pack_error obj p)"
proof -
  obtain h where "json_decref (p_h p) obj = Some h" "pinv e (Suc N) (p\<lparr>p_h := h\<rparr>) E" using pinv_decref [OF assms(1)] by blast
  moreover from assms(2) have "gain p0 E0 (p\<lparr>p_h := h\<rparr>) E" by (simp add: gain_def)
  ultimately show ?thesis by (auto simp: pack_error_def wp_or_fault packed_def)
qed

subsection \<open>Leaves\<close>

lemma pinv_on_s: "pinv e N p E \<Longrightarrow> s_fmt (g (p_s p)) = s_fmt (p_s p) \<Longrightarrow> s_next (g (p_s p)) = s_next (p_s p) \<Longrightarrow>
    s_token (g (p_s p)) = s_token (p_s p) \<Longrightarrow> pinv e N (on_s g p) E"
  by (simp add: pinv_def scan_ok_def ahead_def)

lemma pack_integer_packed: "pinv e N p E \<Longrightarrow> packed e N p E (pack_integer e i p)"
  using pinv_leaf [OF _ leaf_results(2), of e N p E i]
  by (auto simp: pack_integer_def Let_def case_prod_beta intro!: packedI gain_same pinv_on_s)

lemma pack_string_packed:
  assumes "pinv e N p E"
  shows "wp False True (packed e N p E) (pack_string e m n p)"
proof -
  have q: "quiet p (if b then on_s next_token p else on_s prev_token (on_s next_token p))" for b
    using assms by (simp add: quiet_steps pinv_def)
  have none: "packed e N p E (None, r)" and null: "packed e N p E (json_null, r)" if "quiet p r" for r
    using pinv_quiet [OF assms that] gain_quiet [OF that] pinv_static(3) by (auto intro!: packedI intro: pinv_mono)
  have str: "packed e N p E (fst x, r\<lparr>p_h := snd x\<rparr>)" if "quiet p r" "leaf_result e (p_h r) (NString s) x" for r s x
    using pinv_leaf [OF pinv_quiet [OF assms that(1)] that(2)] gain_quiet [OF that(1), of E]
    by (auto intro!: packedI simp: gain_def)
  show ?thesis
    unfolding pack_string_def Let_def wp_rbind
    by (rule wp_mono [OF read_string_quiet [OF q]])
      (auto simp: none null case_prod_beta intro!: str string_leaf split: option.split)
qed

lemma pack_real_packed:
  assumes "pinv e N p E"
  shows "wp False t (packed e N p E) (pack_real e r p)"
proof -
  obtain v h where vh: "json_real e (p_h p) (c_zero e) = (v, h)" by fastforce
  have i: "pinv e (Suc N) (p\<lparr>p_h := h\<rparr>) (E + opt v)"
    using pinv_leaf [OF assms leaf_results(3), of "c_zero e"] vh by simp
  show ?thesis
  proof (cases v)
    case None
    with i vh show ?thesis by (auto simp: pack_real_def intro!: packedI gain_same pinv_on_s)
  next
    case (Some a)
    then have n: "node_at h a = Some (NReal (c_zero e))"
      using vh by (auto simp: json_real_def json_init_def node_at_def split: if_splits)
    have "pinv e (Suc N) (p\<lparr>p_h := set_node h a (NReal r)\<rparr>) (E + opt v)"
      using i n Some set_node_sound [of e h "E + opt v + held (p_ap p)" a "NReal (c_zero e)" "NReal r" "E + opt v + held (p_ap p)"]
        refs_set_node [of h "E + opt v + held (p_ap p)" a "NReal (c_zero e)" "NReal r"]
      by (auto simp: pinv_def children_def node_ok_def sound_def)
    with i vh Some n pinv_decref [OF i] show ?thesis
      by (auto simp: pack_real_def Let_def wp_or_fault json_real_set_def as_real_def intro!: packedI gain_same pinv_on_s)
  qed
qed

lemma json_arg_packed:
  assumes "pinv e N p E" "N + 4 < 2 ^ 64" "quiet p q" "p_ap q = AJson a # as"
  shows "packed e N p E (Some a, q\<lparr>p_ap := as\<rparr>)"
    "\<exists>h. json_incref (p_h q) (Some a) = Some h \<and> packed e N p E (Some a, q\<lparr>p_ap := as, p_h := h\<rparr>)"
proof -
  have i: "pinv e N q E" by (rule pinv_quiet [OF assms(1,3)])
  have h: "held (p_ap p) = add_mset a (held as)" using assms(3,4) by (simp add: quiet_def)
  have "pinv e (Suc N) (q\<lparr>p_ap := as\<rparr>) (E + opt (Some a))" using i assms(4) by (simp add: pinv_def)
  moreover have "gain p E (q\<lparr>p_ap := as\<rparr>) E" by (simp add: gain_def h)
  ultimately show "packed e N p E (Some a, q\<lparr>p_ap := as\<rparr>)" by (rule packedI)
  have s: "sound e (p_h q) (E + held (p_ap q))" using i by (simp add: pinv_def)
  obtain n where n: "node_at (p_h q) a = Some n" using sound_live [OF s, of a] assms(4) by auto
  have "size (refs (p_h q) + (E + held (p_ap q))) + 2 < 2 ^ 64" using i assms(2) by (simp add: pinv_def)
  from json_incref_sound [OF s n this] obtain h' where h': "json_incref (p_h q) (Some a) = Some h'"
      "sound e h' (add_mset a (E + held (p_ap q)))" "refs h' = refs (p_h q)" by blast
  have "pinv e (Suc N) (q\<lparr>p_ap := as, p_h := h'\<rparr>) (add_mset a E + opt (Some a))"
    using i h'(2,3) assms(4) by (simp add: pinv_def)
  moreover have "gain p E (q\<lparr>p_ap := as, p_h := h'\<rparr>) (add_mset a E)" by (simp add: gain_def h)
  ultimately show "\<exists>h. json_incref (p_h q) (Some a) = Some h \<and> packed e N p E (Some a, q\<lparr>p_ap := as, p_h := h\<rparr>)"
    using h'(1) unfolding packed_def by auto
qed

lemma pack_object_inter_packed:
  assumes "pinv e N p E" "N + 4 < 2 ^ 64"
  shows "wp False t (packed e N p E) (pack_object_inter b p)"
proof -
  have none: "packed e N p E (None, r)" and null: "packed e N p E (json_null, r)" if "quiet p r" for r
    using pinv_quiet [OF assms(1) that] gain_quiet [OF that] pinv_static(3) by (auto intro!: packedI intro: pinv_mono)
  have arg: "wp False t (packed e N p E) (rbind (va_arg as_json q) (\<lambda>(json, p3).
      case json of
        Some a \<Rightarrow> if b then rbind (or_fault (json_incref (p_h p3) json)) (\<lambda>h. Done (json, p3\<lparr>p_h := h\<rparr>)) else Done (json, p3)
      | None \<Rightarrow> if c = ch CHR ''?'' then Done (json_null, p3)
          else if c = ch CHR ''*'' then Done (None, p3)
          else Done (None, on_s (\<lambda>s. fail_with s (asc ''<args>'') json_error_null_value (asc ''NULL object'')) p3)))"
    if q: "quiet p q" for q c
  proof (cases "p_ap q")
    case (Cons x as)
    show ?thesis
    proof (cases x)
      case ANull
      with Cons q have "quiet p (q\<lparr>p_ap := as\<rparr>)" by (intro quiet_steps(8)) simp_all
      with Cons ANull show ?thesis by (simp add: va_arg_def none null quiet_steps(3))
    next
      case (AJson a)
      with Cons json_arg_packed [OF assms q, of a as] show ?thesis by (auto simp: va_arg_def wp_or_fault)
    qed (simp_all add: va_arg_def Cons)
  qed (simp add: va_arg_def)
  have q: "quiet p (if c then on_s prev_token (on_s next_token p) else on_s next_token p)" for c
    using assms by (simp add: quiet_steps pinv_def)
  show ?thesis
    unfolding pack_object_inter_def Let_def by (rule arg [OF q])
qed

subsection \<open>The recursion\<close>

definition loop_inv :: "('r, 'z) jenv_scheme \<Rightarrow> nat \<Rightarrow> 'r pstate \<Rightarrow> addr multiset \<Rightarrow> bool" where
  "loop_inv e N p E \<longleftrightarrow> pinv e N p E \<or> tok p = 0 \<and> pinv e (Suc N) p E"

lemma loop_inv_next: "pinv e (Suc N) p E \<Longrightarrow> loop_inv e N (on_s next_token p) E"
  unfolding loop_inv_def by (rule pinv_next)

lemma loop_inv_Suc: "loop_inv e N p E \<Longrightarrow> pinv e (Suc N) p E"
  by (auto simp: loop_inv_def intro: pinv_mono)

text \<open>What a turn of the loop does once the value is packed.\<close>

lemma loop_turn:
  assumes "packed e N p0 (E + opt obj) (v, p)" "stores e obj put"
    and rest: "\<And>q E'. loop_inv e N q (E' + opt obj) \<Longrightarrow> wp False True (packed e N q E') (rec q)"
    and fail: "\<And>q. quiet q q \<Longrightarrow> quiet q (fail q)"
  shows "wp False True (packed e N p0 E) (case v of None \<Rightarrow> rec (on_s next_token (fail p))
    | Some a \<Rightarrow> rbind (pack_store put msg v p) (\<lambda>q. rec (on_s next_token q)))"
proof -
  obtain E1 where E1: "pinv e (Suc N) p (E1 + opt v)" "gain p0 (E + opt obj) p E1"
    using assms(1) by (auto simp: packed_def)
  then obtain E' where E': "E1 = E' + opt obj" "gain p0 E p E'" using gain_frame by blast
  have go: "wp False True (packed e N p0 E) (rec (on_s next_token q))" if q: "pinv e (Suc N) q (E' + opt obj)" "gain p0 E q E'" for q
  proof -
    have "quiet q (on_s next_token q)" using q(1) by (simp add: quiet_steps pinv_def)
    then have "gain p0 E (on_s next_token q) E'" using q(2) gain_quiet gain_trans by blast
    with rest [OF loop_inv_next [OF q(1)]] show ?thesis by (auto elim!: wp_mono intro: packed_gain)
  qed
  show ?thesis
  proof (cases v)
    case None
    have "quiet p (fail p)" using E1(1) by (intro fail quiet_steps(9)) (simp add: pinv_def)
    with None E1 E' go [of "fail p"] pinv_quiet gain_quiet gain_trans show ?thesis by fastforce
  next
    case (Some a)
    with E1(1) E'(1) have "pinv e (Suc N) p (E' + opt obj + opt (Some a))" by (simp add: ac_simps)
    from pack_store_pinv [OF this assms(2), of True msg] show ?thesis
      unfolding Some by (auto elim!: wp_mono intro!: go) (use E'(2) in \<open>simp add: gain_def\<close>)
  qed
qed

lemma loop_value:
  assumes i: "pinv e N p (E + opt obj)" and q: "quiet p q" and put: "stores e obj put"
    and pk: "\<And>p E. pinv e N p E \<Longrightarrow> wp False True (packed e N p E) (pk p)"
    and rest: "\<And>q E'. loop_inv e N q (E' + opt obj) \<Longrightarrow> wp False True (packed e N q E') (rec q)"
    and fail: "\<And>q. quiet q q \<Longrightarrow> quiet q (fail q)"
  shows "wp False True (packed e N p E) (rbind (pk q) (\<lambda>(v, p). case v of None \<Rightarrow> rec (on_s next_token (fail p))
    | Some a \<Rightarrow> rbind (pack_store put msg v p) (\<lambda>q. rec (on_s next_token q))))"
  unfolding wp_rbind
proof (rule wp_mono [OF pk [OF pinv_quiet [OF i q]]])
  fix x assume "packed e N q (E + opt obj) x"
  then have "packed e N p (E + opt obj) (fst x, snd x)" using packed_gain [OF gain_quiet [OF q]] by simp
  from loop_turn [OF this put rest fail] show "wp False True (packed e N p E) (case x of (v, p) \<Rightarrow> case v of None \<Rightarrow> rec (on_s next_token (fail p))
    | Some a \<Rightarrow> rbind (pack_store put msg v p) (\<lambda>q. rec (on_s next_token q)))"
    unfolding case_prod_beta .
qed

lemma container_pinv:
  assumes "pinv e N p E"
  shows "pinv e (Suc N) (p\<lparr>p_h := snd (json_object e (p_h p))\<rparr>) (E + opt (fst (json_object e (p_h p))))"
    "pinv e (Suc N) (p\<lparr>p_h := snd (json_array e (p_h p))\<rparr>) (E + opt (fst (json_array e (p_h p))))"
proof -
  have s: "sound e (p_h p) (E + held (p_ap p))" using assms by (simp add: pinv_def)
  have none: "pinv e (Suc N) (p\<lparr>p_h := p_h p\<rparr>) (E + opt None)" using assms by (simp add: pinv_def)
  show "pinv e (Suc N) (p\<lparr>p_h := snd (json_object e (p_h p))\<rparr>) (E + opt (fst (json_object e (p_h p))))"
  proof (rule json_object_cases [OF s])
    fix ht assume o: "json_object e (p_h p) = (Some (length (p_h p)), snd (json_init (p_h p) (NObject ht)))" "ht_inv (env_hash e) ht" "entries ht = []"
    then have "children (NObject ht :: 'a node) = []" using hashtable_close_entries [OF o(2)] by (simp add: children_def)
    with o pinv_init [OF assms, of "NObject ht"] show ?thesis by (simp add: node_ok_def)
  qed (use none in simp)
  show "pinv e (Suc N) (p\<lparr>p_h := snd (json_array e (p_h p))\<rparr>) (E + opt (fst (json_array e (p_h p))))"
  proof (rule json_array_cases [OF s])
    fix arr assume a: "json_array e (p_h p) = (Some (length (p_h p)), snd (json_init (p_h p) (NArray arr)))" "elems arr = []"
      "sound e (snd (json_init (p_h p) (NArray arr))) (add_mset (length (p_h p)) (E + held (p_ap p)))"
    have "children (NArray arr :: 'a node) = []" using a(2) by (simp add: children_def)
    with a assms show ?thesis by (simp add: pinv_def refs_init)
  qed (use none in simp)
qed

lemma pack_packed:
  fixes e :: "('r, 'z) jenv_scheme"
  assumes N: "N + 4 < 2 ^ 64"
  shows "pinv e N p E \<Longrightarrow> wp False True (packed e N p E) (pack e m n p)"
    "loop_inv e N p (E + opt obj) \<Longrightarrow> wp False True (packed e N p E) (pack_object e m n obj p)"
    "loop_inv e N p (E + opt obj) \<Longrightarrow> wp False True (packed e N p E) (pack_array e m n obj p)"
proof (induction n arbitrary: p E obj)
  case (Suc n)
  {
    case 1
    have g: "gain p E (on_s next_token (p\<lparr>p_h := h\<rparr>)) E" for h by (rule gain_same) simp
    note c = container_pinv [OF 1, THEN loop_inv_next]
    have "wp False True (packed e N p E) (pack_object e m n (fst (json_object e (p_h p)))
        (on_s next_token (p\<lparr>p_h := snd (json_object e (p_h p))\<rparr>)))"
      by (rule wp_mono [OF Suc.IH(2) [OF c(1)]]) (rule packed_gain [OF g])
    moreover have "wp False True (packed e N p E) (pack_array e m n (fst (json_array e (p_h p)))
        (on_s next_token (p\<lparr>p_h := snd (json_array e (p_h p))\<rparr>)))"
      by (rule wp_mono [OF Suc.IH(3) [OF c(2)]]) (rule packed_gain [OF g])
    moreover have "packed e N p E (v, q)" if "v = json_null \<or> v = json_true \<or> v = json_false" "quiet p q" for v q
      using that pinv_static [OF pinv_quiet [OF 1 that(2)]] gain_quiet [OF that(2)] by (auto intro: packedI)
    moreover have "packed e N p E (None, q)" if "quiet p q" for q
      using pinv_quiet [OF 1 that] gain_quiet [OF that] by (auto intro!: packedI intro: pinv_mono)
    moreover have "packed e N p E (pack_integer e i q)" if "quiet p q" for i q
      by (rule packed_gain [OF gain_quiet [OF that] pack_integer_packed [OF pinv_quiet [OF 1 that]]])
    moreover have "wp False True (packed e N p E) (pack_real e r q)" if "quiet p q" for r q
      by (rule wp_mono [OF pack_real_packed [OF pinv_quiet [OF 1 that]]]) (rule packed_gain [OF gain_quiet [OF that]])
    moreover have "quiet p p" using 1 by (simp add: quiet_steps pinv_def)
    ultimately show ?case
      using pack_string_packed [OF 1] pack_object_inter_packed [OF 1 N] unfolding pack.simps Let_def case_prod_beta
      by (auto simp: quiet_steps intro!: wp_va_arg_held)
  next
    case 2
    note s = loop_inv_Suc [OF 2]
    have err: "wp False True (packed e N p E) (pack_error obj (on_s (\<lambda>s. set_error s src code msg) p))" for src code msg
      using pinv_on_s [OF s] by (intro pack_error_packed [of _ _ _ E] gain_same) simp_all
    have err0: "wp False True (packed e N p E) (pack_error obj p)" by (rule pack_error_packed [OF s gain_same]) simp
    have ok: "packed e N p E (obj, p)" by (rule packedI [OF s gain_same]) simp
    show ?case
    proof (cases "tok p = 0")
      case True
      then show ?thesis using err by (simp add: pack_object.simps)
    next
      case False
      then have i: "pinv e N p (E + opt obj)" using 2 by (simp add: loop_inv_def)
      have q: "quiet p q \<Longrightarrow> quiet p (on_s prev_token (on_s next_token (on_s next_token q)))" for q by (simp add: quiet_steps)
      note val = loop_value [OF i q object_stores Suc.IH(1) Suc.IH(2)]
      have "quiet p p" using i by (simp add: quiet_steps pinv_def)
      then show ?thesis
        unfolding pack_object.simps Let_def using False err err0 ok
        by (auto simp: quiet_steps intro!: wp_mono [OF read_string_quiet] val [unfolded wp_rbind])
    qed
  next
    case 3
    note s = loop_inv_Suc [OF 3]
    have err: "wp False True (packed e N p E) (pack_error obj (on_s (\<lambda>s. set_error s src code msg) p))" for src code msg
      using pinv_on_s [OF s] by (intro pack_error_packed [of _ _ _ E] gain_same) simp_all
    have err0: "wp False True (packed e N p E) (pack_error obj p)" by (rule pack_error_packed [OF s gain_same]) simp
    have ok: "packed e N p E (obj, p)" by (rule packedI [OF s gain_same]) simp
    show ?case
    proof (cases "tok p = 0")
      case True
      then show ?thesis using err by (simp add: pack_array.simps)
    next
      case False
      then have i: "pinv e N p (E + opt obj)" using 3 by (simp add: loop_inv_def)
      have "quiet p (on_s prev_token (on_s next_token p))" using i by (simp add: quiet_steps pinv_def)
      note val = loop_value [OF i this array_stores Suc.IH(1) Suc.IH(3)]
      show ?thesis
        unfolding pack_array.simps Let_def using False err err0 ok
        by (auto simp: quiet_steps intro!: val [unfolded wp_rbind])
    qed
  }
qed (simp_all add: pack.simps pack_object.simps pack_array.simps)

subsection \<open>The entry point\<close>

text \<open>\<open>E\<close> are the caller's other references, \<open>held ap\<close> those it passes; afterwards it holds
  \<open>E'\<close>, which are \<open>E\<close> and the passed references that were not taken over, and the result.\<close>

lemma json_vpack_ex_sound:
  assumes s: "sound e h (E + held ap)"
    and b: "size (refs h) + size E + size (held ap) + length (case_option [] cstr fmt) + 4 < 2 ^ 64"
  shows "wp False False (\<lambda>(v, err, h'). \<exists>E'. E \<subseteq># E' \<and> E' \<subseteq># E + held ap \<and> sound e h' (E' + opt v))
    (json_vpack_ex e m h error flags fmt ap)"
proof -
  let ?Q = "\<lambda>(v, err, h'). \<exists>E'. E \<subseteq># E' \<and> E' \<subseteq># E + held ap \<and> sound e h' (E' + opt v)"
  have same: "?Q (None, err, h)" for err :: "json_error option" using s by (auto intro: exI [of _ "E + held ap"])
  have "wp False True ?Q (json_vpack_ex e m h error flags fmt ap)"
  proof (cases "fmt = None \<or> cstr (the fmt) = []")
    case False
    then obtain f where f: "fmt = Some f" "cstr f \<noteq> []" by auto
    let ?p = "\<lparr>p_s = next_token (scanner_init (jsonp_error_init error None) flags (cstr f)), p_ap = ap, p_h = h, p_out = []\<rparr>"
    define N where "N = size (refs h) + size E + size (held ap) + length (cstr f)"
    have i: "pinv e N ?p E"
      using s scanner_start [OF cstr_no_nul, of "jsonp_error_init error None" flags f] by (simp add: pinv_def N_def)
    have "N + 4 < 2 ^ 64" using b f(1) by (simp add: N_def)
    from pack_packed(1) [OF this i] have "wp False True (\<lambda>(v, p). \<exists>E'. E \<subseteq># E' \<and> E' \<subseteq># E + held ap \<and> sound e (p_h p) (E' + opt v))
        (pack e m (pack_fuel (cstr f)) ?p)"
    proof (rule wp_mono, clarsimp simp: packed_def)
      fix v p E' assume "pinv e (Suc N) p (E' + opt v)" "gain ?p E p E'"
      then show "\<exists>E'. E \<subseteq># E' \<and> E' \<subseteq># E + held ap \<and> sound e (p_h p) (E' + opt v)"
        by (intro exI [of _ "E' + held (p_ap p)"]) (auto simp: pinv_def gain_def ac_simps intro: subset_mset.add_increasing2)
    qed
    then show ?thesis
      unfolding json_vpack_ex_def using f
      by (auto simp: Let_def wp_or_fault elim!: wp_mono split: option.split)
        (use json_decref_sound in fastforce)+
  qed (use same in \<open>auto simp: json_vpack_ex_def Let_def split: option.split\<close>)
  then show ?thesis using json_vpack_ex_returns [of e m h error flags fmt ap] by (cases "json_vpack_ex e m h error flags fmt ap") auto
qed

end
