(* ===== verification/PamTypes.thy ===== *)
theory PamTypes
  imports Prelude "HOL-Library.Monad_Syntax"
begin

text \<open>
  Linux-PAM: return codes, the structures of \<open>pam_private.h\<close>, the allocator and the services of the
  platform. A \<open>pam_handle_t\<close> is split in two records: the part that modules and the application
  change through the public calls (items, module data, environment, delay, and the flag that asks
  for the configuration to be read again), and the part private to the library, which keeps the
  module stacks and the state of an interrupted run.
\<close>

subsection \<open>Return values\<close>

abbreviation (input) PAM_SUCCESS :: int where "PAM_SUCCESS \<equiv> 0"
abbreviation (input) PAM_SYSTEM_ERR :: int where "PAM_SYSTEM_ERR \<equiv> 4"
abbreviation (input) PAM_BUF_ERR :: int where "PAM_BUF_ERR \<equiv> 5"
abbreviation (input) PAM_PERM_DENIED :: int where "PAM_PERM_DENIED \<equiv> 6"
abbreviation (input) PAM_NEW_AUTHTOK_REQD :: int where "PAM_NEW_AUTHTOK_REQD \<equiv> 12"
abbreviation (input) PAM_NO_MODULE_DATA :: int where "PAM_NO_MODULE_DATA \<equiv> 18"
abbreviation (input) PAM_CONV_ERR :: int where "PAM_CONV_ERR \<equiv> 19"
abbreviation (input) PAM_IGNORE :: int where "PAM_IGNORE \<equiv> 25"
abbreviation (input) PAM_ABORT :: int where "PAM_ABORT \<equiv> 26"
abbreviation (input) PAM_MODULE_UNKNOWN :: int where "PAM_MODULE_UNKNOWN \<equiv> 28"
abbreviation (input) PAM_BAD_ITEM :: int where "PAM_BAD_ITEM \<equiv> 29"
abbreviation (input) PAM_CONV_AGAIN :: int where "PAM_CONV_AGAIN \<equiv> 30"
abbreviation (input) PAM_INCOMPLETE :: int where "PAM_INCOMPLETE \<equiv> 31"
abbreviation (input) PAM_RETURN_VALUES :: nat where "PAM_RETURN_VALUES \<equiv> 32"

text \<open>What a stack does with a return value; a positive action is a jump.\<close>

abbreviation (input) ACTION_IGNORE :: int where "ACTION_IGNORE \<equiv> 0"
abbreviation (input) ACTION_OK :: int where "ACTION_OK \<equiv> -1"
abbreviation (input) ACTION_DONE :: int where "ACTION_DONE \<equiv> -2"
abbreviation (input) ACTION_BAD :: int where "ACTION_BAD \<equiv> -3"
abbreviation (input) ACTION_DIE :: int where "ACTION_DIE \<equiv> -4"
abbreviation (input) ACTION_RESET :: int where "ACTION_RESET \<equiv> -5"
abbreviation (input) ACTION_UNDEF :: int where "ACTION_UNDEF \<equiv> -6"

abbreviation (input) PAM_SUBSTACK_MAX_LEVEL :: nat where "PAM_SUBSTACK_MAX_LEVEL \<equiv> 16"
abbreviation (input) INVALID_RETVAL :: int where "INVALID_RETVAL \<equiv> -1"

subsection \<open>Handlers\<close>

datatype handler_kind = PAM_HT_MODULE | PAM_HT_MUST_FAIL | PAM_HT_SUBSTACK | PAM_HT_SILENT_MODULE

text \<open>A handler. Its \<open>next\<close> pointer is the position in the list of its stack. \<open>cached_retval\<close> is an
  integer that other handlers may point to, so a handler names its own cell and the cell behind
  \<open>cached_retval_p\<close> in the table of cells of the service.\<close>

record 'f handler =
  handler_type :: handler_kind
  func :: "'f option"
  actions :: "int list"
  cached_retval :: nat
  cached_retval_p :: nat
  argc :: nat
  argv :: "bytes list option"
  mod_name :: "bytes option"
  stack_level :: nat
  grantor :: bool

record 'f handlers =
  authenticate :: "'f handler list"
  setcred :: "'f handler list"
  acct_mgmt :: "'f handler list"
  open_session :: "'f handler list"
  close_session :: "'f handler list"
  chauthtok :: "'f handler list"

definition no_handlers :: "'f handlers" where
  "no_handlers = \<lparr>authenticate = [], setcred = [], acct_mgmt = [], open_session = [], close_session = [],
     chauthtok = []\<rparr>"

text \<open>A loaded module: its name and the handle of \<open>dlopen\<close>, \<open>None\<close> for a faulty module.\<close>

record loaded_module =
  lm_name :: "bytes option"
  lm_handle :: "nat option"

record 'f service =
  modules :: "loaded_module list option"
  modules_allocated :: nat
  conf :: "'f handlers"
  others :: "'f handlers"
  cells :: "int list"

subsection \<open>The handle\<close>

record xauth_data =
  namelen :: int
  xa_name :: "bytes option"
  datalen :: int
  xa_data :: "bytes option"

record 'd data_entry =
  de_name :: bytes
  de_data :: 'd
  de_cleanup :: "nat option"

record pam_environ =
  env_entries :: nat
  env_list :: "bytes option list"
  env_requested :: nat

datatype caller = FROM_NOBODY | FROM_MODULE | FROM_APP

text \<open>The public part. \<open>world\<close> is what lies outside the library: the users, the files, the state of the
  modules; \<open>allocs\<close> counts the allocation requests made so far. A conversation function and a delay
  function are named by numbers.\<close>

record ('w, 'd) pam_public =
  caller_is :: caller
  authtok :: "bytes option"
  oldauthtok :: "bytes option"
  conversation :: "nat option"
  user_prompt :: "bytes option"
  service_name :: "bytes option"
  pam_user :: "bytes option"
  rhost :: "bytes option"
  ruser :: "bytes option"
  tty :: "bytes option"
  xdisplay :: "bytes option"
  authtok_type :: "bytes option"
  xauth :: xauth_data
  module_data :: "'d data_entry list"
  pam_env :: "pam_environ option"
  delay_set :: bool
  delay_usec :: "32 word"
  delay_begin :: int
  delay_fn_ptr :: "nat option"
  fail_user :: int
  want_user :: bool
  former_prompt :: "bytes option"
  handlers_loaded :: bool
  confdir :: "bytes option"
  allocs :: nat
  world :: 'w

text \<open>The array of substack states; an element that was never written is \<open>None\<close>.\<close>

type_synonym substates = "(int \<times> int) option list"

record ('f, 'w, 'd) pam_handle =
  public :: "('w, 'd) pam_public"
  service :: "'f service"
  former_choice :: nat
  former_depth :: nat
  former_impression :: int
  former_status :: int
  former_substates :: "substates option"
  former_update :: bool
  pam_choice :: nat

subsection \<open>The platform\<close>

text \<open>The functions of the C library and of the loaded modules. \<open>malloc_answer n\<close> says whether the
  \<open>n\<close>-th allocation request succeeds, \<open>nofile\<close> is the number of files the process may still open.
  \<open>call_module f flags name argc argv\<close> is the run of a module function.\<close>

record ('f, 'w, 'd) platform =
  malloc_answer :: "nat \<Rightarrow> bool"
  nofile :: nat
  fopen :: "'w \<Rightarrow> bytes \<Rightarrow> bytes option"
  is_dir :: "'w \<Rightarrow> bytes \<Rightarrow> bool"
  dlopen :: "'w \<Rightarrow> bytes \<Rightarrow> nat option"
  dlsym :: "nat \<Rightarrow> bytes \<Rightarrow> 'f option"
  default_module_path :: bytes
  pam_isa :: bytes
  call_module :: "'f \<Rightarrow> 32 word \<Rightarrow> bytes option \<Rightarrow> nat \<Rightarrow> bytes list option \<Rightarrow> ('w, 'd) pam_public \<Rightarrow> int \<times> ('w, 'd) pam_public"
  call_cleanup :: "nat \<Rightarrow> 'd \<Rightarrow> 32 word \<Rightarrow> ('w, 'd) pam_public \<Rightarrow> ('w, 'd) pam_public"
  call_conv :: "nat \<Rightarrow> bytes \<Rightarrow> 'w \<Rightarrow> int \<times> bytes option option \<times> 'w"
  call_delay :: "nat \<Rightarrow> int \<Rightarrow> 32 word \<Rightarrow> 'w \<Rightarrow> 'w"
  wait_usec :: "32 word \<Rightarrow> 'w \<Rightarrow> 'w"
  time_now :: "'w \<Rightarrow> int"

definition malloc :: "('f, 'w, 'd) platform \<Rightarrow> ('w, 'd) pam_public \<Rightarrow> bool \<times> ('w, 'd) pam_public" where
  "malloc e s = (malloc_answer e (allocs s), s\<lparr>allocs := allocs s + 1\<rparr>)"

text \<open>\<open>_pam_strdup\<close>: the copy of a string, null for a null pointer or when memory runs out.\<close>

definition pam_strdup :: "('f, 'w, 'd) platform \<Rightarrow> bytes option \<Rightarrow> ('w, 'd) pam_public \<Rightarrow> bytes option \<times> ('w, 'd) pam_public" where
  "pam_strdup e x s =
     (case x of
        None \<Rightarrow> (None, s)
      | Some b \<Rightarrow> (case malloc e s of (True, s1) \<Rightarrow> (Some b, s1) | (False, s1) \<Rightarrow> (None, s1)))"

text \<open>Reads that the C code makes through a pointer or an index: \<open>None\<close> when there is no such cell.\<close>

definition at :: "'a list \<Rightarrow> nat \<Rightarrow> 'a option" where
  "at xs i = (if i < length xs then Some (xs ! i) else None)"

definition put :: "'a list \<Rightarrow> nat \<Rightarrow> 'a \<Rightarrow> 'a list option" where
  "put xs i v = (if i < length xs then Some (xs[i := v]) else None)"

lemma at_nth [simp]: "i < length xs \<Longrightarrow> at xs i = Some (xs ! i)"
  by (simp add: at_def)

lemma at_SomeD: "at xs i = Some v \<Longrightarrow> i < length xs \<and> xs ! i = v"
  by (auto simp: at_def split: if_splits)

lemma put_SomeD: "put xs i v = Some ys \<Longrightarrow> i < length xs \<and> ys = xs[i := v]"
  by (auto simp: put_def split: if_splits)

end
