(* ===== verification/PamMisc.thy ===== *)
theory PamMisc
  imports PamTypes
begin

text \<open>
  Words and control strings of a configuration line: \<open>pam_misc.c\<close>, \<open>pam_tokens.h\<close>, and the name of a
  module from its path. Strings are C strings: byte lists without NUL.
\<close>

subsection \<open>Words\<close>

abbreviation (input) blanks :: bytes where "blanks \<equiv> [32, 10, 9]"

text \<open>The part of \<open>"[...]"\<close> after the opening bracket: the word, with \<open>"\]"\<close> compressed, and what is at \<open>end\<close>.\<close>

fun bracketed :: "bytes \<Rightarrow> bytes \<times> bytes" where
  "bracketed [] = ([], [])"
| "bracketed (c # cs) =
     (if c = 93 then ([], c # cs)
      else if c = 92 \<and> cs \<noteq> [] \<and> hd cs = 93 then (case bracketed (tl cs) of (t, r) \<Rightarrow> (93 # t, r))
      else (case bracketed cs of (t, r) \<Rightarrow> (c # t, r)))"

text \<open>The word found and the value stored through \<open>next\<close>.\<close>

definition pam_StrTok :: "bytes \<Rightarrow> bytes \<Rightarrow> bytes option \<times> bytes option" where
  "pam_StrTok from format =
     (case dropWhile (\<lambda>c. c \<in> set format) from of
        [] \<Rightarrow> (None, None)
      | c # cs \<Rightarrow>
          let (tok, rest) = (if c = 91 then bracketed cs
                             else (takeWhile (\<lambda>c. c \<notin> set format) (c # cs), dropWhile (\<lambda>c. c \<notin> set format) (c # cs)))
          in (Some tok, if tl rest = [] then None else Some (tl rest)))"

definition StrTok_next :: "bytes option \<Rightarrow> bytes option \<times> bytes option" where
  "StrTok_next nexttok = (case nexttok of None \<Rightarrow> (None, None) | Some s \<Rightarrow> pam_StrTok s blanks)"

lemma bracketed_length: "bracketed cs = (t, r) \<Longrightarrow> length t + length r \<le> length cs"
proof (induction cs arbitrary: t r rule: bracketed.induct)
  case (2 c cs)
  then show ?case by (cases cs) (fastforce split: if_splits prod.splits)+
qed simp

lemma word_split_length: "length (takeWhile P s) + length (dropWhile P s) = length s"
  by (metis length_append takeWhile_dropWhile_id)

lemma pam_StrTok_length:
  assumes "pam_StrTok s f = (Some t, n)"
  shows "case n of None \<Rightarrow> length t \<le> length s | Some r \<Rightarrow> length t + length r < length s"
proof -
  obtain c cs where d: "dropWhile (\<lambda>c. c \<in> set f) s = c # cs"
    using assms by (auto simp: pam_StrTok_def split: list.splits)
  have l: "Suc (length cs) \<le> length s"
    using length_dropWhile_le [of "\<lambda>c. c \<in> set f" s] by (simp add: d)
  have c: "c \<notin> set f" using d by (metis dropWhile_eq_Cons_conv)
  show ?thesis
  proof (cases "c = 91")
    case True
    obtain u r where u: "bracketed cs = (u, r)" by force
    then have "length u + length r \<le> length cs" by (rule bracketed_length)
    with assms l show ?thesis
      by (auto simp: pam_StrTok_def d True u Let_def split: option.splits if_splits)
  next
    case False
    let ?r = "dropWhile (\<lambda>c. c \<notin> set f) cs"
    have w: "length (takeWhile (\<lambda>c. c \<notin> set f) cs) + length ?r = length cs" by (rule word_split_length)
    with assms l False c show ?thesis
      by (auto simp: pam_StrTok_def d Let_def split: option.splits if_splits) (cases ?r; simp)
  qed
qed

function tokens :: "bytes option \<Rightarrow> bytes list" where
  "tokens nexttok =
     (case StrTok_next nexttok of
        (None, _) \<Rightarrow> []
      | (Some t, rest) \<Rightarrow> t # tokens rest)"
  by pat_completeness auto
termination
proof (relation "measure (\<lambda>n. case n of None \<Rightarrow> 0 | Some s \<Rightarrow> Suc (length s))", goal_cases)
  case (2 nexttok x y t)
  then show ?case
    using pam_StrTok_length [of "the nexttok" blanks t y]
    by (cases nexttok; cases y) (auto simp: StrTok_next_def)
qed simp

declare tokens.simps [simp del]

text \<open>\<open>_pam_mkargv\<close>: the length of the block, \<open>argc\<close> and the vector, \<open>None\<close> for a null pointer.\<close>

definition pam_mkargv ::
    "('f, 'w, 'd) platform \<Rightarrow> bytes \<Rightarrow> ('w, 'd) pam_public \<Rightarrow> (nat \<times> nat \<times> bytes list option) \<times> ('w, 'd) pam_public" where
  "pam_mkargv e s p =
     (if s = [] then ((0, 0, None), p)
      else case malloc e p of
        (False, p1) \<Rightarrow> ((0, 0, None), p1)
      | (True, p1) \<Rightarrow>
          let argvlen = (length s + 1) * 9 in
          (case malloc e p1 of
             (False, p2) \<Rightarrow> ((argvlen, 0, None), p2)
           | (True, p2) \<Rightarrow> ((argvlen, length (tokens (Some s)), Some (tokens (Some s))), p2)))"

subsection \<open>Control strings\<close>

definition pam_token_actions :: "bytes list" where
  "pam_token_actions = map asc [''ignore'', ''ok'', ''done'', ''bad'', ''die'', ''reset'']"

definition pam_token_returns :: "bytes list" where
  "pam_token_returns = map asc
     [''success'', ''open_err'', ''symbol_err'', ''service_err'', ''system_err'', ''buf_err'', ''perm_denied'',
      ''auth_err'', ''cred_insufficient'', ''authinfo_unavail'', ''user_unknown'', ''maxtries'',
      ''new_authtok_reqd'', ''acct_expired'', ''session_err'', ''cred_unavail'', ''cred_expired'', ''cred_err'',
      ''no_module_data'', ''conv_err'', ''authtok_err'', ''authtok_recover_err'', ''authtok_lock_busy'',
      ''authtok_disable_aging'', ''try_again'', ''ignore'', ''abort'', ''authtok_expired'', ''module_unknown'',
      ''bad_item'', ''conv_again'', ''incomplete'', ''default'']"

definition pam_set_default_control :: "int list \<Rightarrow> int \<Rightarrow> int list" where
  "pam_set_default_control control_array default_action =
     map (\<lambda>a. if a = ACTION_UNDEF then default_action else a) control_array"

definition isspace :: "byte \<Rightarrow> bool" where
  "isspace c \<longleftrightarrow> c \<in> {32, 9, 10, 11, 12, 13}"

definition isdigit :: "byte \<Rightarrow> bool" where
  "isdigit c \<longleftrightarrow> 48 \<le> c \<and> c \<le> 57"

text \<open>The first entry of a table that \<open>tok\<close> begins with, and what follows it in \<open>tok\<close>.\<close>

fun find_token :: "bytes list \<Rightarrow> bytes \<Rightarrow> nat \<Rightarrow> (nat \<times> bytes) option" where
  "find_token [] tok i = None"
| "find_token (t # ts) tok i =
     (if take (length t) tok = t then Some (i, drop (length t) tok) else find_token ts tok (i + 1))"

text \<open>The digits of a jump, in a C \<open>int\<close>; \<open>None\<close> when the value overflows.\<close>

fun jump_number :: "int \<Rightarrow> bytes \<Rightarrow> (int \<times> bytes) option" where
  "jump_number act [] = Some (act, [])"
| "jump_number act (c # cs) =
     (if isdigit c
      then let act' = act * 10 + (uint c - 48) in if act' > 0x7FFFFFFF then None else jump_number act' cs
      else Some (act, c # cs))"

datatype control_item = Control_error | Control_set nat int bytes

text \<open>One \<open>return_code = action\<close>; \<open>tok\<close> does not start with a space and is not empty.\<close>

definition control_action :: "bytes \<Rightarrow> (int \<times> bytes) option option" where
  "control_action tok =
     (case find_token pam_token_actions tok 0 of
        Some (i, rest) \<Rightarrow> Some (Some (- int i, rest))
      | None \<Rightarrow>
          if tok = [] \<or> \<not> isdigit (hd tok) then Some None
          else map_option (\<lambda>(act, rest). if act = 0 then None else Some (act, rest)) (jump_number 0 tok))"

definition parse_control_item :: "bytes \<Rightarrow> control_item option" where
  "parse_control_item tok =
     (case find_token pam_token_returns tok 0 of
        None \<Rightarrow> Some Control_error
      | Some (ret, t1) \<Rightarrow>
          if t1 = [] then Some Control_error
          else
            (case dropWhile isspace t1 of
               [] \<Rightarrow> Some Control_error
             | c # t2 \<Rightarrow>
                 if c \<noteq> 61 then Some Control_error
                 else
                   let t3 = dropWhile isspace t2 in
                   if t3 = [] then Some Control_error
                   else
                     (case control_action t3 of
                        None \<Rightarrow> None
                      | Some None \<Rightarrow> Some Control_error
                      | Some (Some (act, t4)) \<Rightarrow> Some (Control_set ret act t4))))"

definition set_control :: "int list \<Rightarrow> nat \<Rightarrow> int \<Rightarrow> int list" where
  "set_control control_array ret act =
     (if ret \<noteq> PAM_RETURN_VALUES then control_array[ret := act]
      else pam_set_default_control control_array act)"

lemma find_token_length: "find_token ts tok i = Some (k, r) \<Longrightarrow> [] \<notin> set ts \<Longrightarrow> length r < length tok"
proof (induction ts arbitrary: i)
  case (Cons t ts)
  have "0 < length t" using Cons.prems by auto
  then have "length tok - length t < length tok" if "take (length t) tok = t"
    using arg_cong [OF that, of length] by (cases t) auto
  then show ?case using Cons by (auto split: if_splits)
qed simp

lemma jump_number_length: "jump_number a s = Some (b, r) \<Longrightarrow> length r \<le> length s"
  by (induction a s rule: jump_number.induct) (auto simp: Let_def split: if_splits)

lemma tokens_nonempty: "[] \<notin> set pam_token_actions" "[] \<notin> set pam_token_returns"
  by (simp_all add: pam_token_actions_def pam_token_returns_def)

lemma control_action_length: "control_action t = Some (Some (a, r)) \<Longrightarrow> length r \<le> length t"
  by (auto simp: control_action_def tokens_nonempty split: option.splits if_splits
        dest!: find_token_length jump_number_length)

lemma dropWhile_ConsD: "dropWhile P s = c # t \<Longrightarrow> length t < length s"
  by (metis Suc_le_eq length_Cons length_dropWhile_le)

lemma parse_control_item_length: "parse_control_item tok = Some (Control_set ret act t) \<Longrightarrow> length t < length tok"
proof -
  assume "parse_control_item tok = Some (Control_set ret act t)"
  then obtain k t1 c t2 where f: "find_token pam_token_returns tok 0 = Some (k, t1)" "dropWhile isspace t1 = c # t2"
      "control_action (dropWhile isspace t2) = Some (Some (act, t))"
    by (auto simp: parse_control_item_def Let_def split: option.splits list.splits if_splits)
  then show ?thesis
    using find_token_length [OF f(1) tokens_nonempty(2)] dropWhile_ConsD [OF f(2)] control_action_length [OF f(3)]
      length_dropWhile_le [of isspace t2] by linarith
qed

text \<open>\<open>None\<close> when a jump overflows \<open>int\<close>, which C leaves undefined.\<close>

function pam_parse_control :: "int list \<Rightarrow> bytes \<Rightarrow> int list option" where
  "pam_parse_control control_array tok =
     (case dropWhile isspace tok of
        [] \<Rightarrow> Some control_array
      | c # cs \<Rightarrow>
          (case parse_control_item (c # cs) of
             None \<Rightarrow> None
           | Some Control_error \<Rightarrow> Some (map (\<lambda>_. ACTION_BAD) control_array)
           | Some (Control_set ret act rest) \<Rightarrow> pam_parse_control (set_control control_array ret act) rest))"
  by pat_completeness auto
termination
proof (relation "measure (\<lambda>(_, tok). length tok)", goal_cases)
  case (2 a tok c cs x ret act rest)
  have "length (c # cs) \<le> length tok" using length_dropWhile_le [of isspace tok] by (simp add: 2)
  moreover have "length rest < length (c # cs)" using 2 parse_control_item_length by blast
  ultimately show ?case by simp
qed simp

declare pam_parse_control.simps [simp del]

subsection \<open>Module names\<close>

text \<open>\<open>strrchr\<close>: what follows the last \<open>c\<close>, and what precedes it.\<close>

definition after_last :: "byte \<Rightarrow> bytes \<Rightarrow> bytes" where
  "after_last c s = rev (takeWhile (\<lambda>b. b \<noteq> c) (rev s))"

definition before_last :: "byte \<Rightarrow> bytes \<Rightarrow> bytes" where
  "before_last c s = (if c \<in> set s then rev (tl (dropWhile (\<lambda>b. b \<noteq> c) (rev s))) else s)"

definition extract_modulename ::
    "('f, 'w, 'd) platform \<Rightarrow> bytes \<Rightarrow> ('w, 'd) pam_public \<Rightarrow> bytes option \<times> ('w, 'd) pam_public" where
  "extract_modulename e mod_path p =
     (case malloc e p of
        (False, p1) \<Rightarrow> (None, p1)
      | (True, p1) \<Rightarrow>
          let retval = before_last 46 (after_last 47 mod_path) in
          (if retval = [] \<or> retval = [63] then None else Some retval, p1))"

end
