(* ===== verification/PamConf.thy ===== *)
theory PamConf
  imports PamMisc
begin

text \<open>
  Reading the configuration: \<open>pam_handlers.c\<close>. The library is built without its optional features
  (\<open>PAM_READ_BOTH_CONFS\<close>, \<open>PAM_LOCKING\<close>, a vendor directory). A file is the list of its bytes that are
  still to be read; the number of files that may still be opened bounds the nesting of includes.
\<close>

subsection \<open>Lines\<close>

abbreviation (input) BUF_SIZE :: nat where "BUF_SIZE \<equiv> 1024"
abbreviation (input) MODULE_CHUNK :: nat where "MODULE_CHUNK \<equiv> 4"

text \<open>\<open>fgets\<close> with room for \<open>n\<close> bytes. With room for the terminator only, it stores the empty string
  and reads nothing.\<close>

definition fgets :: "nat \<Rightarrow> bytes \<Rightarrow> (bytes \<times> bytes) option" where
  "fgets n f =
     (if n \<le> 1 then Some ([], f)
      else if f = [] then None
      else let k = take (n - 1) f;
               chunk = (if 10 \<in> set k then takeWhile (\<lambda>b. b \<noteq> 10) k @ [10] else k)
           in Some (chunk, drop (length chunk) f))"

abbreviation (input) is_blank :: "byte \<Rightarrow> bool" where "is_blank b \<equiv> b = 32 \<or> b = 10 \<or> b = 9"

definition strip_end :: "bytes \<Rightarrow> bytes" where
  "strip_end s = rev (dropWhile is_blank (rev s))"

text \<open>What the loop makes of the bytes that \<open>fgets\<close> put at \<open>p\<close>.\<close>

datatype chunk_kind = Chunk_blank | Chunk_more bytes nat | Chunk_end bytes nat

definition classify_chunk :: "bytes \<Rightarrow> chunk_kind" where
  "classify_chunk chunk =
     (let s = cstr chunk; lead = takeWhile is_blank s; os = dropWhile is_blank s in
      if os = [] \<or> hd os = 35 then Chunk_blank
      else if 35 \<in> set os then
        let t = takeWhile (\<lambda>b. b \<noteq> 35) os in Chunk_end (lead @ t) (length t)
      else
        let core = strip_end os in
        if last core = 92 then Chunk_more (lead @ butlast core @ [32]) (length core)
        else Chunk_end (lead @ os) (length os))"

text \<open>The loop of \<open>_pam_assemble_line\<close>: the value returned, the text in the buffer and the rest of the
  file. \<open>pre\<close> is the text before \<open>p\<close>.\<close>

partial_function (option) assemble_loop ::
    "nat \<Rightarrow> bytes \<Rightarrow> nat \<Rightarrow> bytes \<Rightarrow> (int \<times> bytes \<times> bytes) option" where
  "assemble_loop buf_len pre used f =
     (if length pre \<ge> buf_len then Some (-1, pre, f)
      else case fgets (buf_len - length pre) f of
        None \<Rightarrow> Some (if used \<noteq> 0 then -1 else 0, pre, f)
      | Some (chunk, f') \<Rightarrow>
          (case classify_chunk chunk of
             Chunk_blank \<Rightarrow> assemble_loop buf_len pre used f'
           | Chunk_more t n \<Rightarrow> assemble_loop buf_len (pre @ t) (used + n) f'
           | Chunk_end t n \<Rightarrow> Some (int (used + n), pre @ t, f')))"

definition pam_assemble_line :: "bytes \<Rightarrow> (int \<times> bytes \<times> bytes) option" where
  "pam_assemble_line f = assemble_loop BUF_SIZE [] 0 f"

subsection \<open>One line\<close>

datatype module_type = PAM_T_ANY | PAM_T_AUTH | PAM_T_SESS | PAM_T_ACCT | PAM_T_PASS

definition tolower :: "byte \<Rightarrow> byte" where
  "tolower c = (if 65 \<le> c \<and> c \<le> 90 then c + 32 else c)"

definition strcaseeq :: "bytes \<Rightarrow> bytes \<Rightarrow> bool" where
  "strcaseeq a b \<longleftrightarrow> map tolower a = map tolower b"

abbreviation (input) undef_actions :: "int list" where "undef_actions \<equiv> replicate PAM_RETURN_VALUES ACTION_UNDEF"

text \<open>The meaning of the control field: an action table, or an inclusion with its substack flag.\<close>

datatype control = Control_must_fail "int list" | Control_actions "int list" | Control_include bool

definition keyword_actions :: "int \<Rightarrow> bool \<Rightarrow> int \<Rightarrow> int list" where
  "keyword_actions good ign dflt =
     (let a = undef_actions[nat PAM_SUCCESS := good, nat PAM_NEW_AUTHTOK_REQD := good];
          b = (if ign then a[nat PAM_IGNORE := ACTION_IGNORE] else a)
      in pam_set_default_control b dflt)"

definition parse_control_field :: "bytes option \<Rightarrow> control option" where
  "parse_control_field tok =
     (case tok of
        None \<Rightarrow> Some (Control_must_fail (pam_set_default_control undef_actions ACTION_BAD))
      | Some t \<Rightarrow>
          if strcaseeq (asc ''required'') t then Some (Control_actions (keyword_actions ACTION_OK True ACTION_BAD))
          else if strcaseeq (asc ''requisite'') t then Some (Control_actions (keyword_actions ACTION_OK True ACTION_DIE))
          else if strcaseeq (asc ''optional'') t then Some (Control_actions (keyword_actions ACTION_OK False ACTION_IGNORE))
          else if strcaseeq (asc ''sufficient'') t then Some (Control_actions (keyword_actions ACTION_DONE False ACTION_IGNORE))
          else if strcaseeq (asc ''include'') t then Some (Control_include False)
          else if strcaseeq (asc ''substack'') t then Some (Control_include True)
          else map_option (\<lambda>a. Control_actions (pam_set_default_control a ACTION_BAD))
                 (pam_parse_control undef_actions t))"

text \<open>The module type field: the type of the handler and the type of the module.\<close>

definition parse_type_field :: "module_type \<Rightarrow> bytes option \<Rightarrow> handler_kind \<times> module_type" where
  "parse_type_field requested tok =
     (let fallback = (if requested \<noteq> PAM_T_ANY then requested else PAM_T_AUTH) in
      case tok of
        None \<Rightarrow> (PAM_HT_MUST_FAIL, fallback)
      | Some t \<Rightarrow>
          let (kind, name) = (if t \<noteq> [] \<and> hd t = 45 then (PAM_HT_SILENT_MODULE, tl t) else (PAM_HT_MODULE, t)) in
          if strcaseeq (asc ''auth'') name then (kind, PAM_T_AUTH)
          else if strcaseeq (asc ''session'') name then (kind, PAM_T_SESS)
          else if strcaseeq (asc ''account'') name then (kind, PAM_T_ACCT)
          else if strcaseeq (asc ''password'') name then (kind, PAM_T_PASS)
          else (PAM_HT_MUST_FAIL, fallback))"

datatype line =
    Line_skip
  | Line_include bool bool bytes module_type "bytes option"
  | Line_module handler_kind bool module_type "int list" "bytes option" "bytes option"

text \<open>A line of the configuration. \<open>Line_include substack other this_service type name\<close>;
  \<open>Line_module kind other type actions mod_path arguments\<close>.\<close>

definition parse_line :: "bytes option \<Rightarrow> module_type \<Rightarrow> bytes option \<Rightarrow> bytes \<Rightarrow> line option" where
  "parse_line known_service requested name buf = do {
     (this_service, nexttok) \<leftarrow>
       (case known_service of
          Some k \<Rightarrow> Some (k, Some buf)
        | None \<Rightarrow> (case pam_StrTok buf blanks of (None, _) \<Rightarrow> None | (Some t, n) \<Rightarrow> Some (t, n)));
     mine \<leftarrow> name;
     let other = strcaseeq this_service (asc ''other'');
     if \<not> (strcaseeq this_service mine \<or> other) then Some Line_skip
     else
       let (tok1, n1) = StrTok_next nexttok;
           (kind, module_type) = parse_type_field requested tok1 in
       if requested \<noteq> PAM_T_ANY \<and> module_type \<noteq> requested then Some Line_skip
       else
         let (tok2, n2) = StrTok_next n1; (tok3, n3) = StrTok_next n2 in do {
           control \<leftarrow> parse_control_field tok2;
           case control of
             Control_include substack \<Rightarrow> Some (Line_include substack other this_service module_type tok3)
           | Control_actions acts \<Rightarrow>
               Some (Line_module (if tok3 = None then PAM_HT_MUST_FAIL else kind) other module_type acts tok3 n3)
           | Control_must_fail acts \<Rightarrow> Some (Line_module PAM_HT_MUST_FAIL other module_type acts tok3 n3)
         }
   }"

subsection \<open>Modules\<close>

abbreviation on_service :: "('f service \<Rightarrow> 'f service) \<Rightarrow> ('f, 'w, 'd) pam_handle \<Rightarrow> ('f, 'w, 'd) pam_handle" where
  "on_service g pamh \<equiv> pamh\<lparr>service := g (service pamh)\<rparr>"

definition halloc :: "('f, 'w, 'd) platform \<Rightarrow> ('f, 'w, 'd) pam_handle \<Rightarrow> bool \<times> ('f, 'w, 'd) pam_handle" where
  "halloc e pamh = (case malloc e (public pamh) of (ok, p) \<Rightarrow> (ok, pamh\<lparr>public := p\<rparr>))"

text \<open>\<open>strstr\<close>: the text before and after the first occurrence.\<close>

fun strstr :: "bytes \<Rightarrow> bytes \<Rightarrow> (bytes \<times> bytes) option" where
  "strstr pat s =
     (if take (length pat) s = pat then Some ([], drop (length pat) s)
      else case s of [] \<Rightarrow> None | c # cs \<Rightarrow> map_option (\<lambda>(a, b). (c # a, b)) (strstr pat cs))"

declare strstr.simps [simp del]

text \<open>Opening the shared object, at the path with \<open>$ISA\<close> replaced when the plain path fails.\<close>

definition open_module ::
    "('f, 'w, 'd) platform \<Rightarrow> bytes \<Rightarrow> ('f, 'w, 'd) pam_handle \<Rightarrow> nat option \<times> ('f, 'w, 'd) pam_handle" where
  "open_module e mod_path pamh =
     (case dlopen e (world (public pamh)) mod_path of
        Some dl \<Rightarrow> (Some dl, pamh)
      | None \<Rightarrow>
          (case strstr (asc ''$ISA'') mod_path of
             None \<Rightarrow> (None, pamh)
           | Some (a, b) \<Rightarrow>
               (case halloc e pamh of
                  (False, p1) \<Rightarrow> (None, p1)
                | (True, p1) \<Rightarrow> (dlopen e (world (public p1)) (a @ pam_isa e @ b), p1))))"

text \<open>The search for a module of that name; the names are compared by \<open>strcmp\<close>, so a module whose name
  could not be stored is a null pointer read.\<close>

fun find_module :: "loaded_module list \<Rightarrow> bytes \<Rightarrow> loaded_module option option" where
  "find_module [] mod_path = Some None"
| "find_module (m # ms) mod_path =
     (case lm_name m of None \<Rightarrow> None
      | Some n \<Rightarrow> if n = mod_path then Some (Some m) else find_module ms mod_path)"

text \<open>\<open>_pam_load_module\<close>: the module found or added, or \<open>None\<close> when memory runs out.\<close>

definition grow_modules ::
    "('f, 'w, 'd) platform \<Rightarrow> ('f, 'w, 'd) pam_handle \<Rightarrow> bool \<times> ('f, 'w, 'd) pam_handle" where
  "grow_modules e pamh =
     (let s = service pamh; ms = (case modules s of None \<Rightarrow> [] | Some ms \<Rightarrow> ms) in
      if modules_allocated s = length ms then
        case halloc e pamh of
          (False, p1) \<Rightarrow> (False, p1)
        | (True, p1) \<Rightarrow> (True, on_service (\<lambda>s. s\<lparr>modules := Some ms, modules_allocated := modules_allocated s + MODULE_CHUNK\<rparr>) p1)
      else (True, pamh))"

definition pam_load_module ::
    "('f, 'w, 'd) platform \<Rightarrow> bytes \<Rightarrow> ('f, 'w, 'd) pam_handle \<Rightarrow> (loaded_module option \<times> ('f, 'w, 'd) pam_handle) option" where
  "pam_load_module e mod_path pamh =
     (let ms = (case modules (service pamh) of None \<Rightarrow> [] | Some ms \<Rightarrow> ms) in
      case find_module ms mod_path of
        None \<Rightarrow> None
      | Some (Some m) \<Rightarrow> Some (Some m, pamh)
      | Some None \<Rightarrow>
          (case grow_modules e pamh of
             (False, p1) \<Rightarrow> Some (None, p1)
           | (True, p1) \<Rightarrow>
               (case open_module e mod_path p1 of
                  (dl, p2) \<Rightarrow>
                    (case halloc e p2 of
                       (ok, p3) \<Rightarrow>
                         let m = \<lparr>lm_name = (if ok then Some mod_path else None), lm_handle = dl\<rparr>;
                             p4 = on_service (\<lambda>s. s\<lparr>modules := Some (ms @ [m])\<rparr>) p3
                         in Some (if ok then Some m else None, p4)))))"

subsection \<open>Adding a handler\<close>

text \<open>The six stacks and the one or two that a module type fills, with the symbols to look up.\<close>

datatype stack_id = S_authenticate | S_setcred | S_acct_mgmt | S_open_session | S_close_session | S_chauthtok

fun get_stack :: "stack_id \<Rightarrow> 'f handlers \<Rightarrow> 'f handler list" where
  "get_stack S_authenticate = authenticate"
| "get_stack S_setcred = setcred"
| "get_stack S_acct_mgmt = acct_mgmt"
| "get_stack S_open_session = open_session"
| "get_stack S_close_session = close_session"
| "get_stack S_chauthtok = chauthtok"

fun set_stack :: "stack_id \<Rightarrow> 'f handler list \<Rightarrow> 'f handlers \<Rightarrow> 'f handlers" where
  "set_stack S_authenticate hs = authenticate_update (\<lambda>_. hs)"
| "set_stack S_setcred hs = setcred_update (\<lambda>_. hs)"
| "set_stack S_acct_mgmt hs = acct_mgmt_update (\<lambda>_. hs)"
| "set_stack S_open_session hs = open_session_update (\<lambda>_. hs)"
| "set_stack S_close_session hs = close_session_update (\<lambda>_. hs)"
| "set_stack S_chauthtok hs = chauthtok_update (\<lambda>_. hs)"

definition service_stack :: "bool \<Rightarrow> stack_id \<Rightarrow> 'f service \<Rightarrow> 'f handler list" where
  "service_stack other k s = get_stack k (if other then others s else conf s)"

definition update_stack :: "bool \<Rightarrow> stack_id \<Rightarrow> 'f handler list \<Rightarrow> 'f service \<Rightarrow> 'f service" where
  "update_stack other k hs s =
     (if other then s\<lparr>others := set_stack k hs (others s)\<rparr> else s\<lparr>conf := set_stack k hs (conf s)\<rparr>)"

fun stacks_of :: "module_type \<Rightarrow> ((stack_id \<times> bytes) \<times> (stack_id \<times> bytes) option) option" where
  "stacks_of PAM_T_AUTH = Some ((S_authenticate, asc ''pam_sm_authenticate''), Some (S_setcred, asc ''pam_sm_setcred''))"
| "stacks_of PAM_T_SESS = Some ((S_open_session, asc ''pam_sm_open_session''), Some (S_close_session, asc ''pam_sm_close_session''))"
| "stacks_of PAM_T_ACCT = Some ((S_acct_mgmt, asc ''pam_sm_acct_mgmt''), None)"
| "stacks_of PAM_T_PASS = Some ((S_chauthtok, asc ''pam_sm_chauthtok''), None)"
| "stacks_of PAM_T_ANY = None"

text \<open>The module behind a handler: \<open>None\<close> when memory runs out, else the handle of \<open>dlopen\<close> if any.\<close>

definition handler_module ::
    "('f, 'w, 'd) platform \<Rightarrow> handler_kind \<Rightarrow> bytes option \<Rightarrow> ('f, 'w, 'd) pam_handle \<Rightarrow>
     (nat option option \<times> ('f, 'w, 'd) pam_handle) option" where
  "handler_module e kind mod_path pamh =
     (case mod_path of
        Some path \<Rightarrow>
          if kind = PAM_HT_MODULE \<or> kind = PAM_HT_SILENT_MODULE then
            (if path \<noteq> [] \<and> hd path = 47
             then map_option (apfst (map_option lm_handle)) (pam_load_module e path pamh)
             else case halloc e pamh of
                    (False, p1) \<Rightarrow> Some (None, p1)
                  | (True, p1) \<Rightarrow>
                      map_option (apfst (map_option lm_handle)) (pam_load_module e (default_module_path e @ path) p1))
          else Some (Some None, pamh)
      | None \<Rightarrow> Some (Some None, pamh))"

text \<open>A new handler at the end of a stack; \<open>cell\<close> is the cell behind \<open>cached_retval_p\<close>, its own when
  \<open>None\<close>.\<close>

definition new_handler ::
    "handler_kind \<Rightarrow> nat \<Rightarrow> 'f option \<Rightarrow> int list \<Rightarrow> nat option \<Rightarrow> nat \<Rightarrow> bytes list option \<Rightarrow>
     bytes option \<Rightarrow> 'f service \<Rightarrow> 'f handler" where
  "new_handler kind level f acts cell n args name s =
     \<lparr>handler_type = kind, func = f, actions = acts, cached_retval = length (cells s),
      cached_retval_p = (case cell of None \<Rightarrow> length (cells s) | Some c \<Rightarrow> c),
      argc = n, argv = args, mod_name = name, stack_level = level, grantor = False\<rparr>"

definition append_handler :: "bool \<Rightarrow> stack_id \<Rightarrow> 'f handler \<Rightarrow> 'f service \<Rightarrow> 'f service" where
  "append_handler other k h s =
     update_stack other k (service_stack other k s @ [h]) (s\<lparr>cells := cells s @ [INVALID_RETVAL]\<rparr>)"

text \<open>The second handler of a pair; its \<open>cached_retval_p\<close> points to the cell of the first.\<close>

definition add_second ::
    "('f, 'w, 'd) platform \<Rightarrow> handler_kind \<Rightarrow> bool \<Rightarrow> nat \<Rightarrow> stack_id \<Rightarrow> 'f option \<Rightarrow> int list \<Rightarrow> nat \<Rightarrow>
     nat \<Rightarrow> bytes list option \<Rightarrow> bytes \<Rightarrow> ('f, 'w, 'd) pam_handle \<Rightarrow> int \<times> ('f, 'w, 'd) pam_handle" where
  "add_second e kind other level k f acts cell n args path pamh =
     (case halloc e pamh of
        (False, p1) \<Rightarrow> (PAM_ABORT, p1)
      | (True, p1) \<Rightarrow>
          let install = (\<lambda>a name p. on_service
                (\<lambda>s. append_handler other k (new_handler kind level f acts (Some cell) n a name s) s) p) in
          (case (case args of None \<Rightarrow> (True, p1) | Some _ \<Rightarrow> halloc e p1) of
             (False, p2) \<Rightarrow> (PAM_ABORT, install None None p2)
           | (True, p2) \<Rightarrow>
               (case extract_modulename e path (public p2) of
                  (name, pub) \<Rightarrow>
                    (if name = None then PAM_ABORT else PAM_SUCCESS,
                     install args name (p2\<lparr>public := pub\<rparr>)))))"

definition pam_add_handler ::
    "('f, 'w, 'd) platform \<Rightarrow> handler_kind \<Rightarrow> bool \<Rightarrow> nat \<Rightarrow> module_type \<Rightarrow> int list \<Rightarrow> bytes option \<Rightarrow>
     nat \<Rightarrow> bytes list option \<Rightarrow> ('f, 'w, 'd) pam_handle \<Rightarrow> (int \<times> ('f, 'w, 'd) pam_handle) option" where
  "pam_add_handler e kind other level mtype acts mod_path n args pamh =
     (case handler_module e kind mod_path pamh of
        None \<Rightarrow> None
      | Some (None, p1) \<Rightarrow> Some (PAM_ABORT, p1)
      | Some (Some dl, p1) \<Rightarrow>
          let path = (case mod_path of None \<Rightarrow> asc ''<*unknown module*>'' | Some p \<Rightarrow> p);
              resolve = (\<lambda>name. Option.bind dl (\<lambda>d. dlsym e d name)) in
          (case stacks_of mtype of
             None \<Rightarrow> Some (PAM_ABORT, p1)
           | Some ((k, symbol), second) \<Rightarrow>
               (case halloc e p1 of
                  (False, p2) \<Rightarrow> Some (PAM_ABORT, p2)
                | (True, p2) \<Rightarrow>
                    (case extract_modulename e path (public p2) of
                       (name, pub) \<Rightarrow>
                         let cell = length (cells (service p2));
                             p3 = on_service (\<lambda>s. append_handler other k
                                    (new_handler kind level (resolve symbol) acts None n args name s) s) (p2\<lparr>public := pub\<rparr>) in
                         if name = None then Some (PAM_ABORT, p3)
                         else
                           (case second of
                              None \<Rightarrow> Some (PAM_SUCCESS, p3)
                            | Some (k2, symbol2) \<Rightarrow>
                                Some (add_second e kind other level k2 (resolve symbol2) acts cell n args path p3))))))"

subsection \<open>Files\<close>

text \<open>\<open>_pam_open_config_file\<close>, when \<open>fds\<close> files may still be opened: the return value and the contents.\<close>

definition open_file :: "('f, 'w, 'd) platform \<Rightarrow> nat \<Rightarrow> bytes \<Rightarrow> ('f, 'w, 'd) pam_handle \<Rightarrow> bytes option" where
  "open_file e fds path pamh = (if fds = 0 then None else fopen e (world (public pamh)) path)"

fun open_in_dirs ::
    "('f, 'w, 'd) platform \<Rightarrow> nat \<Rightarrow> bytes list \<Rightarrow> bytes \<Rightarrow> ('f, 'w, 'd) pam_handle \<Rightarrow>
     (int \<times> bytes) \<times> ('f, 'w, 'd) pam_handle" where
  "open_in_dirs e fds [] name pamh = ((PAM_ABORT, []), pamh)"
| "open_in_dirs e fds (d # ds) name pamh =
     (case halloc e pamh of
        (False, p1) \<Rightarrow> ((PAM_BUF_ERR, []), p1)
      | (True, p1) \<Rightarrow>
          (case open_file e fds (d @ name) p1 of
             Some f \<Rightarrow> ((PAM_SUCCESS, f), p1)
           | None \<Rightarrow> open_in_dirs e fds ds name p1))"

definition pam_open_config_file ::
    "('f, 'w, 'd) platform \<Rightarrow> nat \<Rightarrow> bytes \<Rightarrow> ('f, 'w, 'd) pam_handle \<Rightarrow> (int \<times> bytes) \<times> ('f, 'w, 'd) pam_handle" where
  "pam_open_config_file e fds name pamh =
     (let try = (\<lambda>path.
        case halloc e pamh of
          (False, p1) \<Rightarrow> ((PAM_BUF_ERR, []), p1)
        | (True, p1) \<Rightarrow>
            (case open_file e fds path p1 of
               Some f \<Rightarrow> ((PAM_SUCCESS, f), p1)
             | None \<Rightarrow> ((PAM_ABORT, []), p1))) in
      if name \<noteq> [] \<and> hd name = 47 then try name
      else case confdir (public pamh) of
        Some d \<Rightarrow> try (d @ [47] @ name)
      | None \<Rightarrow> open_in_dirs e fds [asc ''/etc/pam.d/'', asc ''/usr/lib/pam.d/''] name pamh)"

lemma fgets_length: "fgets n f = Some (c, f') \<Longrightarrow> length f' \<le> length f \<and> (c \<noteq> [] \<longrightarrow> length f' < length f)"
  by (auto simp: fgets_def Let_def split: if_splits)

lemma classify_chunk_Nil [simp]: "classify_chunk [] = Chunk_blank"
  by (simp add: classify_chunk_def cstr_def Let_def)

lemma assemble_loop_length:
  assumes "assemble_loop b pre used f = Some r"
  shows "length (snd (snd r)) \<le> length f \<and> (fst r > 0 \<longrightarrow> length (snd (snd r)) < length f)"
proof (rule assemble_loop.raw_induct [OF _ assms,
      where P = "\<lambda>b pre used f r. length (snd (snd r)) \<le> length f \<and> (fst r > 0 \<longrightarrow> length (snd (snd r)) < length f)"])
  fix rec b pre used and f :: bytes and r :: "int \<times> bytes \<times> bytes"
  assume IH: "\<And>b pre used f r. rec b pre used f = Some r \<Longrightarrow>
      length (snd (snd r)) \<le> length f \<and> (fst r > 0 \<longrightarrow> length (snd (snd r)) < length f)"
    and eq: "(if b \<le> length pre then Some (- 1, pre, f)
      else case fgets (b - length pre) f of
        None \<Rightarrow> Some (if used \<noteq> 0 then - 1 else 0, pre, f)
      | Some (chunk, f') \<Rightarrow>
          (case classify_chunk chunk of
             Chunk_blank \<Rightarrow> rec b pre used f'
           | Chunk_more t n \<Rightarrow> rec b (pre @ t) (used + n) f'
           | Chunk_end t n \<Rightarrow> Some (int (used + n), pre @ t, f'))) = Some r"
  show "length (snd (snd r)) \<le> length f \<and> (fst r > 0 \<longrightarrow> length (snd (snd r)) < length f)"
  proof (cases "b \<le> length pre \<or> fgets (b - length pre) f = None")
    case True
    with eq show ?thesis by (auto split: if_splits option.splits)
  next
    case False
    then obtain c f' where g: "fgets (b - length pre) f = Some (c, f')" "\<not> b \<le> length pre" by auto
    note l = fgets_length [OF g(1)]
    show ?thesis
    proof (cases "classify_chunk c")
      case Chunk_blank
      with eq g l IH [of b pre used f' r] show ?thesis by fastforce
    next
      case (Chunk_more t n)
      with eq g l IH [of b "pre @ t" "used + n" f' r] show ?thesis by fastforce
    next
      case (Chunk_end t n)
      then have "c \<noteq> []" by auto
      with Chunk_end eq g l show ?thesis by auto
    qed
  qed
qed

definition parse_ok :: "int \<Rightarrow> int" where
  "parse_ok x = (if x < 0 then PAM_ABORT else PAM_SUCCESS)"

text \<open>The arguments of a module line.\<close>

definition line_argv ::
    "('f, 'w, 'd) platform \<Rightarrow> bytes option \<Rightarrow> ('f, 'w, 'd) pam_handle \<Rightarrow>
     (nat \<times> bytes list option) \<times> ('f, 'w, 'd) pam_handle" where
  "line_argv e nexttok pamh =
     (case nexttok of
        None \<Rightarrow> ((0, None), pamh)
      | Some s \<Rightarrow> (case pam_mkargv e s (public pamh) of ((_, n, a), p) \<Rightarrow> ((n, a), pamh\<lparr>public := p\<rparr>)))"

function pam_parse_conf_file ::
    "('f, 'w, 'd) platform \<Rightarrow> nat \<Rightarrow> bytes \<Rightarrow> bytes option \<Rightarrow> module_type \<Rightarrow> nat \<Rightarrow> ('f, 'w, 'd) pam_handle \<Rightarrow>
     (int \<times> ('f, 'w, 'd) pam_handle) option"
  and pam_load_conf_file ::
    "('f, 'w, 'd) platform \<Rightarrow> nat \<Rightarrow> bytes option \<Rightarrow> bytes \<Rightarrow> module_type \<Rightarrow> nat \<Rightarrow> ('f, 'w, 'd) pam_handle \<Rightarrow>
     (int \<times> ('f, 'w, 'd) pam_handle) option"
where
  "pam_parse_conf_file e fds f known_service requested level pamh =
     (case pam_assemble_line f of
        None \<Rightarrow> None
      | Some (x, buf, f') \<Rightarrow>
          if x \<le> 0 then Some (parse_ok x, pamh)
          else
            (case parse_line known_service requested (service_name (public pamh)) buf of
               None \<Rightarrow> None
             | Some Line_skip \<Rightarrow> pam_parse_conf_file e fds f' known_service requested level pamh
             | Some (Line_module kind other mtype acts mod_path args) \<Rightarrow>
                 (case line_argv e args pamh of
                    ((n, av), p1) \<Rightarrow>
                      (case pam_add_handler e kind other level mtype acts mod_path n av p1 of
                         None \<Rightarrow> None
                       | Some (res, p2) \<Rightarrow>
                           if res \<noteq> PAM_SUCCESS then Some (PAM_ABORT, p2)
                           else pam_parse_conf_file e fds f' known_service requested level p2))
             | Some (Line_include substack other this_service mtype name) \<Rightarrow>
                 (case (if substack
                        then pam_add_handler e PAM_HT_SUBSTACK other level mtype undef_actions name 0 None pamh
                        else Some (PAM_SUCCESS, pamh)) of
                    None \<Rightarrow> None
                  | Some (res, p1) \<Rightarrow>
                      if res \<noteq> PAM_SUCCESS then Some (PAM_ABORT, p1)
                      else
                        (case pam_load_conf_file e fds name this_service mtype (if substack then level + 1 else level) p1 of
                           None \<Rightarrow> None
                         | Some (r, p2) \<Rightarrow>
                             if r = PAM_SUCCESS then pam_parse_conf_file e fds f' known_service requested level p2
                             else
                               (case pam_add_handler e PAM_HT_MUST_FAIL other level mtype
                                       (pam_set_default_control undef_actions ACTION_BAD) None 0 None p2 of
                                  None \<Rightarrow> None
                                | Some (res2, p3) \<Rightarrow>
                                    if res2 \<noteq> PAM_SUCCESS then Some (PAM_ABORT, p3)
                                    else pam_parse_conf_file e fds f' known_service requested level p3)))))"
| "pam_load_conf_file e fds config_name sv mtype level pamh =
     (if level \<ge> PAM_SUBSTACK_MAX_LEVEL then Some (PAM_ABORT, pamh)
      else
        (case config_name of
           None \<Rightarrow> Some (PAM_ABORT, pamh)
         | Some name \<Rightarrow>
             (case pam_open_config_file e fds name pamh of
                ((r, f), p1) \<Rightarrow>
                  if r \<noteq> PAM_SUCCESS then Some (PAM_ABORT, p1)
                  else pam_parse_conf_file e (fds - 1) f (Some sv) mtype level p1)))"
  by pat_completeness auto

lemma open_file_0 [simp]: "open_file e 0 path p = None"
  by (simp add: open_file_def)

lemma open_in_dirs_0: "fst (fst (open_in_dirs e 0 ds sv p)) \<noteq> PAM_SUCCESS"
  by (induction ds arbitrary: p) (auto split: prod.splits bool.splits)

lemma pam_open_config_file_0: "fst (fst (pam_open_config_file e 0 sv p)) \<noteq> PAM_SUCCESS"
  using open_in_dirs_0 [of e _ sv p]
  by (cases "halloc e p") (auto simp: pam_open_config_file_def Let_def simp del: open_in_dirs.simps split: bool.splits option.splits)

lemma pam_open_config_file_fds: "((PAM_SUCCESS, f), p1) = pam_open_config_file e fds sv p \<Longrightarrow> 0 < fds"
  using pam_open_config_file_0 [of e sv p] by (cases fds) (auto dest: sym)

lemma pam_assemble_line_length: "pam_assemble_line f = Some (x, buf, f') \<Longrightarrow> \<not> x \<le> 0 \<Longrightarrow> length f' < length f"
  using assemble_loop_length [of _ _ _ f "(x, buf, f')"] by (simp add: pam_assemble_line_def)

termination pam_parse_conf_file
  by (relation "inv_image (less_than <*lex*> less_than)
     (\<lambda>x. case x of Inl (_, fds, f, _) \<Rightarrow> (fds, Suc (length f)) | Inr (_, fds, _) \<Rightarrow> (fds, 0))")
    (auto dest: pam_assemble_line_length pam_open_config_file_fds)

declare pam_parse_conf_file.simps [simp del] pam_load_conf_file.simps [simp del]

subsection \<open>Loading and dropping the configuration\<close>

definition pam_start_handlers :: "('f, 'w, 'd) pam_handle \<Rightarrow> ('f, 'w, 'd) pam_handle" where
  "pam_start_handlers pamh =
     pamh\<lparr>public := (public pamh)\<lparr>handlers_loaded := False\<rparr>,
          service := \<lparr>modules = None, modules_allocated = 0, conf = no_handlers, others = no_handlers, cells = []\<rparr>\<rparr>"

definition pam_free_handlers :: "('f, 'w, 'd) pam_handle \<Rightarrow> ('f, 'w, 'd) pam_handle" where
  "pam_free_handlers pamh =
     pamh\<lparr>public := (public pamh)\<lparr>handlers_loaded := False\<rparr>,
          service := (service pamh)\<lparr>modules := None, conf := no_handlers, others := no_handlers, cells := []\<rparr>\<rparr>"

text \<open>The file of a service, if it can be opened: the return value of the parser and whether a file was read.\<close>

definition read_service ::
    "('f, 'w, 'd) platform \<Rightarrow> bytes \<Rightarrow> ('f, 'w, 'd) pam_handle \<Rightarrow> ((int \<times> bool) \<times> ('f, 'w, 'd) pam_handle) option" where
  "read_service e name pamh =
     (case pam_open_config_file e (nofile e) name pamh of
        ((r, f), p1) \<Rightarrow>
          if r = PAM_SUCCESS then
            map_option (\<lambda>(retval, p2). ((retval, retval = PAM_SUCCESS), p2))
              (pam_parse_conf_file e (nofile e - 1) f (Some name) PAM_T_ANY 0 p1)
          else Some ((PAM_SUCCESS, False), p1))"

definition config_dir_present :: "('f, 'w, 'd) platform \<Rightarrow> ('f, 'w, 'd) pam_handle \<Rightarrow> bool" where
  "config_dir_present e pamh \<longleftrightarrow>
     confdir (public pamh) \<noteq> None \<or> is_dir e (world (public pamh)) (asc ''/etc/pam.d'') \<or>
     is_dir e (world (public pamh)) (asc ''/usr/lib/pam.d'')"

definition read_config ::
    "('f, 'w, 'd) platform \<Rightarrow> bytes \<Rightarrow> ('f, 'w, 'd) pam_handle \<Rightarrow> (int \<times> ('f, 'w, 'd) pam_handle) option" where
  "read_config e name pamh =
     (if config_dir_present e pamh then
        (case read_service e name pamh of
           None \<Rightarrow> None
         | Some ((retval, something), p1) \<Rightarrow>
             if retval \<noteq> PAM_SUCCESS then Some (retval, p1)
             else
               (case read_service e (asc ''other'') p1 of
                  None \<Rightarrow> None
                | Some ((retval2, something2), p2) \<Rightarrow>
                    Some (if something \<or> something2 then retval2 else PAM_ABORT, p2)))
      else
        (case open_file e (nofile e) (asc ''/etc/pam.conf'') pamh of
           None \<Rightarrow> Some (PAM_ABORT, pamh)
         | Some f \<Rightarrow> pam_parse_conf_file e (nofile e - 1) f None PAM_T_ANY 0 pamh))"

definition pam_init_handlers ::
    "('f, 'w, 'd) platform \<Rightarrow> ('f, 'w, 'd) pam_handle \<Rightarrow> (int \<times> ('f, 'w, 'd) pam_handle) option" where
  "pam_init_handlers e pamh =
     (if handlers_loaded (public pamh) then Some (PAM_SUCCESS, pamh)
      else
        (case halloc e (pam_free_handlers pamh) of
           (False, p1) \<Rightarrow> Some (PAM_BUF_ERR, p1)
         | (True, p1) \<Rightarrow>
             let p2 = on_service (\<lambda>s. s\<lparr>modules := Some [], modules_allocated := MODULE_CHUNK\<rparr>) p1 in
             (case service_name (public p2) of
                None \<Rightarrow> Some (PAM_BAD_ITEM, p2)
              | Some name \<Rightarrow>
                  (case read_config e name p2 of
                     None \<Rightarrow> None
                   | Some (retval, p3) \<Rightarrow>
                       if retval \<noteq> PAM_SUCCESS then Some (PAM_ABORT, p3)
                       else Some (PAM_SUCCESS, p3\<lparr>public := (public p3)\<lparr>handlers_loaded := True\<rparr>\<rparr>)))))"

end
