(* ===== verification/PamWalk.thy ===== *)
theory PamWalk
  imports PamTypes
begin

text \<open>
  The walk over a stack of modules, \<open>_pam_dispatch_aux\<close> in \<open>pam_dispatch.c\<close>. A walk returns \<open>None\<close> when
  the code would read a substack state that was never written, or index an array out of range.
\<close>

abbreviation (input) PAM_MUST_FAIL_CODE :: int where "PAM_MUST_FAIL_CODE \<equiv> PAM_PERM_DENIED"

abbreviation (input) IMP_UNDEF :: int where "IMP_UNDEF \<equiv> 0"
abbreviation (input) IMP_POSITIVE :: int where "IMP_POSITIVE \<equiv> 1"
abbreviation (input) IMP_NEGATIVE :: int where "IMP_NEGATIVE \<equiv> -1"

datatype freeze = PLEASE_FREEZE | MAY_BE_FROZEN | MUST_BE_FROZEN

text \<open>The variables of the function, with the cells of the cached return values, the stack (whose
  \<open>grantor\<close> marks change) and the public part of the handle.\<close>

record ('f, 's) walk =
  impression :: int
  status :: int
  substates :: substates
  w_cells :: "int list"
  w_stack :: "'f handler list"
  w_public :: 's

type_synonym ('f, 's) runner = "'f \<Rightarrow> bytes option \<Rightarrow> nat \<Rightarrow> bytes list option \<Rightarrow> 's \<Rightarrow> int \<times> 's"

subsection \<open>One module\<close>

definition module_retval :: "('f, 's) runner \<Rightarrow> 'f handler \<Rightarrow> 's \<Rightarrow> int \<times> 's" where
  "module_retval run h s =
     (if handler_type h = PAM_HT_MUST_FAIL then (PAM_MUST_FAIL_CODE, s)
      else case func h of None \<Rightarrow> (PAM_MODULE_UNKNOWN, s)
           | Some f \<Rightarrow> run f (mod_name h) (argc h) (argv h) s)"

text \<open>The return value that chooses the action: that of this call, or the one an earlier run of the
  paired stack left behind.\<close>

definition cached_value :: "freeze \<Rightarrow> 'f handler \<Rightarrow> int \<Rightarrow> int list \<Rightarrow> (int \<times> int list) option" where
  "cached_value use_cached_chain h retval cs =
     (if use_cached_chain \<noteq> PLEASE_FREEZE then do {
        c \<leftarrow> at cs (cached_retval_p h);
        Some (if c = INVALID_RETVAL \<and> use_cached_chain = MAY_BE_FROZEN then retval else c, cs)
      } else do {
        cs' \<leftarrow> put cs (cached_retval h) retval;
        Some (retval, cs')
      })"

text \<open>The return value to report and the action.\<close>

definition action_of :: "'f handler \<Rightarrow> int \<Rightarrow> int \<Rightarrow> (int \<times> int) option" where
  "action_of h retval cached =
     (if cached < PAM_SUCCESS \<or> cached \<ge> int PAM_RETURN_VALUES then Some (PAM_MUST_FAIL_CODE, ACTION_BAD)
      else map_option (Pair retval) (at (actions h) (nat cached)))"

definition set_grantor :: "nat \<Rightarrow> ('f, 's) walk \<Rightarrow> ('f, 's) walk" where
  "set_grantor depth w = w\<lparr>w_stack := (w_stack w)[depth := (w_stack w ! depth)\<lparr>grantor := True\<rparr>]\<rparr>"

definition undecided :: "('f, 's) walk \<Rightarrow> bool" where
  "undecided w \<longleftrightarrow> impression w = IMP_UNDEF \<or> impression w = IMP_POSITIVE \<and> status w = PAM_SUCCESS"

definition on_ok :: "nat \<Rightarrow> int \<Rightarrow> int \<Rightarrow> ('f, 's) walk \<Rightarrow> ('f, 's) walk" where
  "on_ok depth retval cached w =
     (let w1 = (if undecided w \<and> (retval \<noteq> PAM_IGNORE \<or> cached = retval)
                then w\<lparr>impression := IMP_POSITIVE, status := retval\<rparr> else w) in
      if impression w1 = IMP_POSITIVE \<and> retval = PAM_SUCCESS then set_grantor depth w1 else w1)"

definition on_bad :: "int \<Rightarrow> ('f, 's) walk \<Rightarrow> ('f, 's) walk" where
  "on_bad retval w =
     (if impression w \<noteq> IMP_NEGATIVE
      then w\<lparr>impression := IMP_NEGATIVE,
             status := (if retval = PAM_IGNORE then PAM_MUST_FAIL_CODE else retval)\<rparr>
      else w)"

text \<open>A jump along a cached chain also counts as the success of a required module.\<close>

definition on_cached_jump :: "nat \<Rightarrow> int \<Rightarrow> int \<Rightarrow> ('f, 's) walk \<Rightarrow> ('f, 's) walk" where
  "on_cached_jump depth retval cached w =
     (if undecided w \<and> (retval \<noteq> PAM_IGNORE \<or> cached = retval)
      then (if impression w = IMP_UNDEF \<and> retval = PAM_SUCCESS then set_grantor depth w else w)
           \<lparr>impression := IMP_POSITIVE, status := retval\<rparr>
      else w)"

definition bad_jump :: "('f, 's) walk \<Rightarrow> ('f, 's) walk" where
  "bad_jump w = w\<lparr>impression := IMP_NEGATIVE, status := PAM_MUST_FAIL_CODE\<rparr>"

subsection \<open>Skipping\<close>

text \<open>The handlers left after a jump over \<open>action\<close> entries of the level, with the part of the jump
  that could not be made. An entry with its deeper successors counts as one.\<close>

function skip_jump :: "nat \<Rightarrow> int \<Rightarrow> 'f handler list \<Rightarrow> int \<times> 'f handler list" where
  "skip_jump level action [] = (action, [])"
| "skip_jump level action (h # hs) =
     (if stack_level h \<ge> level \<and> action > 0
      then skip_jump level (action - 1) (dropWhile (\<lambda>x. stack_level x > level) hs)
      else (action, h # hs))"
  by pat_completeness auto
termination
  by (relation "measure (\<lambda>(_, _, hs). length hs)") (auto simp: length_dropWhile_le le_imp_less_Suc)

definition skip_level :: "nat \<Rightarrow> 'f handler list \<Rightarrow> 'f handler list" where
  "skip_level level hs = dropWhile (\<lambda>h. stack_level h \<ge> level) hs"

lemma skip_jump_length: "length (snd (skip_jump level action hs)) \<le> length hs"
proof (induction level action hs rule: skip_jump.induct)
  case (2 level action h hs)
  have "length (dropWhile (\<lambda>x. stack_level x > level) hs) \<le> length hs" by (rule length_dropWhile_le)
  with 2 show ?case by force
qed simp

lemma skip_level_length [simp]: "length (skip_level level hs) \<le> length hs"
  by (simp add: skip_level_def length_dropWhile_le)

subsection \<open>The walk\<close>

datatype ('f, 's) stop = Incomplete nat "('f, 's) walk" | Finished "('f, 's) walk"

text \<open>The switch on the action: the handlers that remain and the variables after it.\<close>

definition after_action ::
    "freeze \<Rightarrow> nat \<Rightarrow> nat \<Rightarrow> int \<Rightarrow> int \<Rightarrow> int \<Rightarrow> 'f handler list \<Rightarrow> ('f, 's) walk \<Rightarrow>
     ('f handler list \<times> ('f, 's) walk) option" where
  "after_action use_cached_chain depth level action retval cached hs w =
     (if action = ACTION_RESET then do {
        (i, s) \<leftarrow> Option.bind (at (substates w) level) id;
        Some (hs, w\<lparr>impression := i, status := s\<rparr>)
      }
      else if action = ACTION_OK \<or> action = ACTION_DONE then
        let w1 = on_ok depth retval cached w in
        Some (if impression w1 = IMP_POSITIVE \<and> action = ACTION_DONE then skip_level level hs else hs, w1)
      else if action = ACTION_BAD \<or> action = ACTION_DIE then
        Some (if action = ACTION_DIE then skip_level level hs else hs, on_bad retval w)
      else if action = ACTION_IGNORE then Some (hs, w)
      else if action > 0 then
        let w1 = (if use_cached_chain \<noteq> PLEASE_FREEZE then on_cached_jump depth retval cached w else w);
            (left, hs') = skip_jump level action hs in
        Some (hs', if left \<noteq> 0 then bad_jump w1 else w1)
      else Some (hs, bad_jump w))"

definition enter_level :: "nat \<Rightarrow> nat \<Rightarrow> ('f, 's) walk \<Rightarrow> ('f, 's) walk option" where
  "enter_level prev_level level w =
     (if prev_level < level
      then map_option (\<lambda>sub. w\<lparr>substates := sub\<rparr>) (put (substates w) level (Some (impression w, status w)))
      else Some w)"

text \<open>One turn of the loop: the module asks to be called again, or the walk goes on with the handlers
  that remain.\<close>

datatype ('f, 's) turn = Wait "('f, 's) walk" | Go "'f handler list" "('f, 's) walk"

definition visit ::
    "('f, 's) runner \<Rightarrow> freeze \<Rightarrow> nat \<Rightarrow> nat \<Rightarrow> 'f handler \<Rightarrow> 'f handler list \<Rightarrow> ('f, 's) walk \<Rightarrow> ('f, 's) turn option" where
  "visit run use_cached_chain depth prev_level h hs w = do {
     w1 \<leftarrow> enter_level prev_level (stack_level h) w;
     if handler_type h = PAM_HT_SUBSTACK then Some (Go hs w1)
     else
       let (retval, s) = module_retval run h (w_public w1);
           w2 = w1\<lparr>w_public := s\<rparr> in
       if retval = PAM_INCOMPLETE then Some (Wait w2)
       else do {
         (cached, cs) \<leftarrow> cached_value use_cached_chain h retval (w_cells w2);
         (ret, action) \<leftarrow> action_of h retval cached;
         (hs', w3) \<leftarrow> after_action use_cached_chain depth (stack_level h) action ret cached hs (w2\<lparr>w_cells := cs\<rparr>);
         Some (Go hs' w3)
       }
   }"

function walk_loop ::
    "('f, 's) runner \<Rightarrow> freeze \<Rightarrow> nat \<Rightarrow> nat \<Rightarrow> nat \<Rightarrow> 'f handler list \<Rightarrow> ('f, 's) walk \<Rightarrow> ('f, 's) stop option" where
  "walk_loop run use_cached_chain skip_depth depth prev_level [] w = Some (Finished w)"
| "walk_loop run use_cached_chain skip_depth depth prev_level (h # hs) w =
     (if depth < skip_depth then walk_loop run use_cached_chain skip_depth (depth + 1) (stack_level h) hs w
      else
        (case visit run use_cached_chain depth prev_level h hs w of
           None \<Rightarrow> None
         | Some (Wait w') \<Rightarrow> Some (Incomplete depth w')
         | Some (Go hs' w') \<Rightarrow>
             walk_loop run use_cached_chain skip_depth (depth + 1 + (length hs - length hs')) (stack_level h) hs' w'))"
  by pat_completeness auto

lemma after_action_length:
  "after_action u d l a r c hs w = Some (hs', w') \<Longrightarrow> length hs' \<le> length hs"
  using skip_jump_length [of l a hs]
  by (auto simp: after_action_def Let_def split: if_splits prod.splits bind_splits)

lemma visit_length: "visit run u d p h hs w = Some (Go hs' w') \<Longrightarrow> length hs' \<le> length hs"
  by (auto simp: visit_def Let_def split: if_splits prod.splits bind_splits dest: after_action_length)

termination walk_loop
  by (relation "measure (\<lambda>(_, _, _, _, _, hs, _). length hs)") (auto dest: visit_length)

definition sanity_check :: "('f, 's) walk \<Rightarrow> int" where
  "sanity_check w =
     (if status w = PAM_SUCCESS \<and> impression w \<noteq> IMP_POSITIVE then PAM_MUST_FAIL_CODE else status w)"

end
