(* ===== verification/PamDispatch.thy ===== *)
theory PamDispatch
  imports PamConf PamWalk
begin

text \<open>
  The dispatcher, \<open>_pam_dispatch\<close> in \<open>pam_dispatch.c\<close>: it loads the configuration when needed, chooses the
  stack of the request, decides whether the run resumes an interrupted one, and walks the stack.
\<close>

abbreviation (input) PAM_NOT_STACKED :: nat where "PAM_NOT_STACKED \<equiv> 0"
abbreviation (input) PAM_AUTHENTICATE :: nat where "PAM_AUTHENTICATE \<equiv> 1"
abbreviation (input) PAM_SETCRED :: nat where "PAM_SETCRED \<equiv> 2"
abbreviation (input) PAM_ACCOUNT :: nat where "PAM_ACCOUNT \<equiv> 3"
abbreviation (input) PAM_OPEN_SESSION :: nat where "PAM_OPEN_SESSION \<equiv> 4"
abbreviation (input) PAM_CLOSE_SESSION :: nat where "PAM_CLOSE_SESSION \<equiv> 5"
abbreviation (input) PAM_CHAUTHTOK :: nat where "PAM_CHAUTHTOK \<equiv> 6"

definition choice_stack :: "nat \<Rightarrow> (stack_id \<times> freeze) option" where
  "choice_stack choice =
     (if choice = PAM_AUTHENTICATE then Some (S_authenticate, PLEASE_FREEZE)
      else if choice = PAM_SETCRED then Some (S_setcred, MAY_BE_FROZEN)
      else if choice = PAM_ACCOUNT then Some (S_acct_mgmt, PLEASE_FREEZE)
      else if choice = PAM_OPEN_SESSION then Some (S_open_session, PLEASE_FREEZE)
      else if choice = PAM_CLOSE_SESSION then Some (S_close_session, MAY_BE_FROZEN)
      else if choice = PAM_CHAUTHTOK then Some (S_chauthtok, PLEASE_FREEZE)
      else None)"

definition pam_clear_grantors :: "'f handler list \<Rightarrow> 'f handler list" where
  "pam_clear_grantors hs = map (grantor_update (\<lambda>_. False)) hs"

subsection \<open>The walk over a stack of the handle\<close>

definition fresh_substates :: substates where
  "fresh_substates = (replicate PAM_SUBSTACK_MAX_LEVEL None)[0 := Some (IMP_UNDEF, PAM_MUST_FAIL_CODE)]"

definition initial_walk :: "'f handler list \<Rightarrow> int list \<Rightarrow> 's \<Rightarrow> ('f, 's) walk" where
  "initial_walk hs cs s =
     \<lparr>impression = IMP_UNDEF, status = PAM_MUST_FAIL_CODE, substates = fresh_substates, w_cells = cs, w_stack = hs,
      w_public = s\<rparr>"

text \<open>The variables at the start of \<open>_pam_dispatch_aux\<close>; \<open>None\<close> when the substates cannot be allocated.
  A resumed walk takes them from the handle and forgets them there.\<close>

definition start_walk ::
    "('f, 'w, 'd) platform \<Rightarrow> bool \<Rightarrow> 'f handler list \<Rightarrow> ('f, 'w, 'd) pam_handle \<Rightarrow>
     (nat \<times> ('f, ('w, 'd) pam_public) walk) option \<times> ('f, 'w, 'd) pam_handle" where
  "start_walk e resumed hs pamh =
     (if resumed then
        (Some (former_depth pamh,
          \<lparr>impression = former_impression pamh, status = former_status pamh,
           substates = (case former_substates pamh of None \<Rightarrow> [] | Some sub \<Rightarrow> sub),
           w_cells = cells (service pamh), w_stack = hs, w_public = public pamh\<rparr>),
         pamh\<lparr>former_impression := IMP_UNDEF, former_status := PAM_MUST_FAIL_CODE, former_depth := 0,
              former_substates := None\<rparr>)
      else
        (case halloc e pamh of
           (False, p1) \<Rightarrow> (None, p1)
         | (True, p1) \<Rightarrow> (Some (0, initial_walk hs (cells (service p1)) (public p1)), p1)))"

text \<open>The part of the handle that the walk changes. \<open>other\<close> and \<open>k\<close> say which stack it was.\<close>

definition store_walk ::
    "bool \<Rightarrow> stack_id \<Rightarrow> ('f, ('w, 'd) pam_public) walk \<Rightarrow> ('f, 'w, 'd) pam_handle \<Rightarrow> ('f, 'w, 'd) pam_handle" where
  "store_walk other k w pamh =
     pamh\<lparr>public := w_public w, service := update_stack other k (w_stack w) ((service pamh)\<lparr>cells := w_cells w\<rparr>)\<rparr>"

definition save_former :: "nat \<Rightarrow> ('f, 's) walk \<Rightarrow> ('f, 'w, 'd) pam_handle \<Rightarrow> ('f, 'w, 'd) pam_handle" where
  "save_former depth w pamh =
     pamh\<lparr>former_impression := impression w, former_status := status w, former_depth := depth,
          former_substates := Some (substates w)\<rparr>"

definition pam_dispatch_aux ::
    "('f, 'w, 'd) platform \<Rightarrow> 32 word \<Rightarrow> bool \<Rightarrow> stack_id \<Rightarrow> bool \<Rightarrow> freeze \<Rightarrow> ('f, 'w, 'd) pam_handle \<Rightarrow>
     (int \<times> ('f, 'w, 'd) pam_handle) option" where
  "pam_dispatch_aux e flags other k resumed use_cached_chain pamh =
     (let hs = service_stack other k (service pamh) in
      if hs = [] then Some (PAM_MUST_FAIL_CODE, pamh)
      else
        (case start_walk e resumed hs pamh of
           (None, p1) \<Rightarrow> Some (PAM_BUF_ERR, p1)
         | (Some (skip, w), p1) \<Rightarrow>
             (case walk_loop (\<lambda>f. call_module e f flags) use_cached_chain skip 0 0 hs w of
                None \<Rightarrow> None
              | Some (Incomplete depth w') \<Rightarrow>
                  Some (PAM_INCOMPLETE, save_former depth w' (store_walk other k w' p1))
              | Some (Finished w') \<Rightarrow> Some (sanity_check w', store_walk other k w' p1))))"

subsection \<open>The dispatcher\<close>

definition set_caller :: "caller \<Rightarrow> ('f, 'w, 'd) pam_handle \<Rightarrow> ('f, 'w, 'd) pam_handle" where
  "set_caller c pamh = pamh\<lparr>public := (public pamh)\<lparr>caller_is := c\<rparr>\<rparr>"

text \<open>The stack of the service, or that of the default service when the service has none.\<close>

definition chosen_other :: "stack_id \<Rightarrow> 'f service \<Rightarrow> bool" where
  "chosen_other k s \<longleftrightarrow> get_stack k (conf s) = []"

text \<open>The part of \<open>_pam_dispatch\<close> after the choice of the stack.\<close>

definition prepare_stack :: "nat \<Rightarrow> stack_id \<Rightarrow> ('f, 'w, 'd) pam_handle \<Rightarrow> ('f, 'w, 'd) pam_handle" where
  "prepare_stack choice k pamh =
     (let other = chosen_other k (service pamh);
          p1 = (if former_choice pamh \<noteq> PAM_NOT_STACKED then pamh
                else on_service (\<lambda>s. update_stack other k (pam_clear_grantors (service_stack other k s)) s) pamh)
      in (set_caller FROM_MODULE p1)\<lparr>pam_choice := choice\<rparr>)"

definition leave_stack :: "nat \<Rightarrow> int \<Rightarrow> ('f, 'w, 'd) pam_handle \<Rightarrow> ('f, 'w, 'd) pam_handle" where
  "leave_stack choice retval pamh =
     (set_caller FROM_APP pamh)\<lparr>former_choice := (if retval = PAM_INCOMPLETE then choice else PAM_NOT_STACKED)\<rparr>"

definition run_stack ::
    "('f, 'w, 'd) platform \<Rightarrow> 32 word \<Rightarrow> nat \<Rightarrow> stack_id \<Rightarrow> freeze \<Rightarrow> ('f, 'w, 'd) pam_handle \<Rightarrow>
     (int \<times> ('f, 'w, 'd) pam_handle) option" where
  "run_stack e flags choice k use_cached_chain pamh =
     (case pam_dispatch_aux e flags (chosen_other k (service pamh)) k (former_choice pamh \<noteq> PAM_NOT_STACKED)
             use_cached_chain (prepare_stack choice k pamh) of
        None \<Rightarrow> None
      | Some (retval, p1) \<Rightarrow> Some (retval, leave_stack choice retval p1))"

definition pam_dispatch ::
    "('f, 'w, 'd) platform \<Rightarrow> 32 word \<Rightarrow> nat \<Rightarrow> ('f, 'w, 'd) pam_handle \<Rightarrow> (int \<times> ('f, 'w, 'd) pam_handle) option" where
  "pam_dispatch e flags choice pamh =
     (if caller_is (public pamh) = FROM_MODULE then Some (PAM_SYSTEM_ERR, pamh)
      else
        (case pam_init_handlers e pamh of
           None \<Rightarrow> None
         | Some (r, p1) \<Rightarrow>
             if r \<noteq> PAM_SUCCESS then Some (r, p1)
             else
               (case choice_stack choice of
                  None \<Rightarrow> Some (PAM_ABORT, p1)
                | Some (k, use_cached_chain) \<Rightarrow>
                    if former_choice p1 \<noteq> PAM_NOT_STACKED \<and> former_choice p1 \<noteq> choice then Some (PAM_ABORT, p1)
                    else run_stack e flags choice k use_cached_chain p1)))"

end
