(* ===== verification/PamWalkThms.thy ===== *)
theory PamWalkThms
  imports PamWalk
begin

text \<open>
  What a walk over a stack guarantees: success is the answer of a module, a walk that was interrupted
  goes on as if it had not been, and a run along a frozen chain calls the same modules.
\<close>

subsection \<open>Verdicts that cannot arise\<close>

text \<open>No impression and status of the walk, now or saved for a substack, is in \<open>B\<close>.\<close>

definition avoids :: "(int \<times> int) set \<Rightarrow> ('f, 's) walk \<Rightarrow> bool" where
  "avoids B w \<longleftrightarrow> (impression w, status w) \<notin> B \<and> (\<forall>p. Some p \<in> set (substates w) \<longrightarrow> p \<notin> B)"

text \<open>A return value does not lead into \<open>B\<close>.\<close>

definition harmless :: "(int \<times> int) set \<Rightarrow> int \<Rightarrow> bool" where
  "harmless B r \<longleftrightarrow> (IMP_POSITIVE, r) \<notin> B \<and> (IMP_NEGATIVE, r) \<notin> B \<and> (IMP_NEGATIVE, PAM_MUST_FAIL_CODE) \<notin> B"

lemma enter_level_avoids: "avoids B w \<Longrightarrow> enter_level p l w = Some w' \<Longrightarrow> avoids B w'"
  using set_update_subset_insert [of "substates w" l "Some (impression w, status w)"]
  by (auto simp: avoids_def enter_level_def put_def split: if_splits)

lemma set_grantor_simps [simp]:
  "impression (set_grantor d w) = impression w" "status (set_grantor d w) = status w"
  "substates (set_grantor d w) = substates w" "w_cells (set_grantor d w) = w_cells w"
  "w_public (set_grantor d w) = w_public w" "length (w_stack (set_grantor d w)) = length (w_stack w)"
  by (simp_all add: set_grantor_def)

lemma after_action_avoids:
  assumes "avoids B w" "harmless B r" "after_action u d l a r c hs w = Some (hs', w')"
  shows "avoids B w'"
proof -
  have "avoids B (on_ok d r c w)" "avoids B (on_bad r w)" "avoids B (on_cached_jump d r c w)"
    using assms(1,2) by (auto simp: avoids_def harmless_def on_ok_def on_bad_def on_cached_jump_def Let_def)
  moreover have "avoids B (bad_jump v)" if "avoids B v" for v :: "('f, 's) walk"
    using that assms(2) by (auto simp: avoids_def harmless_def bad_jump_def)
  moreover have "avoids B (w\<lparr>impression := i, status := s\<rparr>)" if "Some (i, s) \<in> set (substates w)" for i s
    using that assms(1) by (auto simp: avoids_def)
  ultimately show ?thesis
    using assms(1,3) by (auto simp: after_action_def Let_def at_def split: if_splits prod.splits bind_splits dest: nth_mem)
qed

lemma skip_jump_set: "set (snd (skip_jump l a hs)) \<subseteq> set hs"
  by (induction l a hs rule: skip_jump.induct) (auto dest: set_dropWhileD)

lemma after_action_set: "after_action u d l a r c hs w = Some (hs', w') \<Longrightarrow> set hs' \<subseteq> set hs"
  using skip_jump_set [of l a hs]
  by (auto simp: after_action_def Let_def skip_level_def split: if_splits prod.splits bind_splits dest: set_dropWhileD)

lemma action_of_ret: "action_of h r c = Some (ret, a) \<Longrightarrow> ret = r \<or> ret = PAM_MUST_FAIL_CODE"
  by (auto simp: action_of_def split: if_splits)

text \<open>The turns of a loop, as the proofs use them.\<close>

lemma visit_GoE:
  assumes "visit run u d p h hs w = Some (Go hs' w')"
  obtains (substack) "handler_type h = PAM_HT_SUBSTACK" "hs' = hs" "enter_level p (stack_level h) w = Some w'"
  | (called) w1 r s c cs ret a where "enter_level p (stack_level h) w = Some w1" "handler_type h \<noteq> PAM_HT_SUBSTACK"
      "module_retval run h (w_public w1) = (r, s)" "r \<noteq> PAM_INCOMPLETE"
      "cached_value u h r (w_cells w1) = Some (c, cs)" "action_of h r c = Some (ret, a)"
      "after_action u d (stack_level h) a ret c hs (w1\<lparr>w_public := s, w_cells := cs\<rparr>) = Some (hs', w')"
  using assms that by (auto simp: visit_def Let_def split: if_splits prod.splits bind_splits)

text \<open>What the module of a handler returns, when it returns at all, is harmless.\<close>

definition handler_harmless :: "(int \<times> int) set \<Rightarrow> ('f, 's) runner \<Rightarrow> 'f handler \<Rightarrow> bool" where
  "handler_harmless B run h \<longleftrightarrow>
     (\<forall>s. fst (module_retval run h s) \<noteq> PAM_INCOMPLETE \<longrightarrow> harmless B (fst (module_retval run h s)))"

lemma visit_avoids:
  assumes "visit run u d p h hs w = Some (Go hs' w')" "avoids B w" "handler_harmless B run h" "harmless B PAM_MUST_FAIL_CODE"
  shows "avoids B w'"
  using assms(1)
proof (cases rule: visit_GoE)
  case (called w1 r s c cs ret a)
  have "avoids B (w1\<lparr>w_public := s, w_cells := cs\<rparr>)"
    using enter_level_avoids [OF assms(2) called(1)] by (simp add: avoids_def)
  moreover have "harmless B r" using assms(3) called(3,4) unfolding handler_harmless_def by (metis fst_conv)
  then have "harmless B ret" using action_of_ret [OF called(6)] assms(4) by auto
  ultimately show ?thesis using called after_action_avoids by blast
qed (use assms(2) enter_level_avoids in blast)

lemma visit_set: "visit run u d p h hs w = Some (Go hs' w') \<Longrightarrow> set hs' \<subseteq> set hs"
  by (erule visit_GoE) (auto dest: after_action_set)

lemma visit_WaitE:
  assumes "visit run u d p h hs w = Some (Wait w')"
  obtains w1 s where "enter_level p (stack_level h) w = Some w1" "handler_type h \<noteq> PAM_HT_SUBSTACK"
    "module_retval run h (w_public w1) = (PAM_INCOMPLETE, s)" "w' = w1\<lparr>w_public := s\<rparr>"
  using assms that by (auto simp: visit_def Let_def split: if_splits prod.splits bind_splits)

lemma visit_wait_avoids: "visit run u d p h hs w = Some (Wait w') \<Longrightarrow> avoids B w \<Longrightarrow> avoids B w'"
  by (erule visit_WaitE) (drule enter_level_avoids, assumption, simp add: avoids_def)

fun stop_walk :: "('f, 's) stop \<Rightarrow> ('f, 's) walk" where
  "stop_walk (Incomplete d w) = w"
| "stop_walk (Finished w) = w"

lemma walk_avoids:
  "walk_loop run u sk d p hs w = Some t \<Longrightarrow> avoids B w \<Longrightarrow> \<forall>h\<in>set hs. handler_harmless B run h \<Longrightarrow>
     harmless B PAM_MUST_FAIL_CODE \<Longrightarrow> avoids B (stop_walk t)"
proof (induction run u sk d p hs w rule: walk_loop.induct)
  case (2 run u sk d p h hs w)
  then show ?case
    by (auto split: if_splits option.splits turn.splits dest: visit_avoids visit_set visit_wait_avoids)
qed auto

text \<open>A handler whose module never returns success.\<close>

definition never_succeeds :: "('f, 's) runner \<Rightarrow> 'f handler \<Rightarrow> bool" where
  "never_succeeds run h \<longleftrightarrow> (\<forall>s. fst (module_retval run h s) \<noteq> PAM_SUCCESS)"

lemma walk_no_success:
  assumes "walk_loop run u sk d p hs w = Some (Finished w')" "avoids {(IMP_POSITIVE, PAM_SUCCESS)} w"
    "\<forall>h\<in>set hs. never_succeeds run h"
  shows "sanity_check w' \<noteq> PAM_SUCCESS"
proof -
  have "avoids {(IMP_POSITIVE, PAM_SUCCESS)} w'"
    using walk_avoids [OF assms(1,2)] assms(3) by (auto simp: never_succeeds_def handler_harmless_def harmless_def)
  then show ?thesis by (auto simp: avoids_def sanity_check_def)
qed

text \<open>A walk that ends does not answer that it is incomplete.\<close>

abbreviation (input) unfinished :: "(int \<times> int) set" where
  "unfinished \<equiv> {p. snd p = PAM_INCOMPLETE}"

lemma walk_finished:
  assumes "walk_loop run u sk d p hs w = Some t" "avoids unfinished w"
  shows "avoids unfinished (stop_walk t)"
  using walk_avoids [OF assms] by (auto simp: handler_harmless_def harmless_def)

lemma finished_sanity: "avoids unfinished w \<Longrightarrow> sanity_check w \<noteq> PAM_INCOMPLETE"
  by (auto simp: avoids_def sanity_check_def)

subsection \<open>Interrupted walks\<close>

text \<open>The handlers passed over by a turn: they lie at the level of the handler or deeper, and when there
  are any, the walk lands at that level or above.\<close>

definition passes_over :: "nat \<Rightarrow> 'f handler list \<Rightarrow> 'f handler list \<Rightarrow> bool" where
  "passes_over l hs hs' \<longleftrightarrow>
     (\<exists>ks. hs = ks @ hs' \<and> (\<forall>k\<in>set ks. stack_level k \<ge> l) \<and>
        (ks \<noteq> [] \<longrightarrow> hs' \<noteq> [] \<longrightarrow> stack_level (hd hs') \<le> l))"

lemma passes_over_refl [simp]: "passes_over l hs hs"
  by (simp add: passes_over_def)

lemma passes_over_dropWhile: "passes_over l hs (dropWhile (\<lambda>x. stack_level x \<ge> l) hs)"
proof -
  let ?r = "dropWhile (\<lambda>x. stack_level x \<ge> l) hs"
  have "stack_level (hd ?r) \<le> l" if "?r \<noteq> []" using hd_dropWhile [OF that] by simp
  then show ?thesis
    unfolding passes_over_def
    by (intro exI [of _ "takeWhile (\<lambda>x. stack_level x \<ge> l) hs"]) (auto dest: set_takeWhileD)
qed

lemma passes_over_jump: "passes_over l hs (snd (skip_jump l a hs))"
proof (induction l a hs rule: skip_jump.induct)
  case (2 l a h hs)
  let ?hs = "dropWhile (\<lambda>x. stack_level x > l) hs"
  let ?js = "takeWhile (\<lambda>x. stack_level x > l) hs"
  show ?case
  proof (cases "stack_level h \<ge> l \<and> a > 0")
    case True
    then obtain ks where ks: "?hs = ks @ snd (skip_jump l (a - 1) ?hs)" "\<forall>k\<in>set ks. stack_level k \<ge> l"
        "ks \<noteq> [] \<longrightarrow> snd (skip_jump l (a - 1) ?hs) \<noteq> [] \<longrightarrow> stack_level (hd (snd (skip_jump l (a - 1) ?hs))) \<le> l"
      using 2 by (auto simp: passes_over_def)
    have "h # hs = (h # ?js @ ks) @ snd (skip_jump l (a - 1) ?hs)"
      using ks(1) by (metis append.assoc append_Cons takeWhile_dropWhile_id)
    moreover have "stack_level (hd ?hs) \<le> l" if "?hs \<noteq> []"
      using hd_dropWhile [OF that] by (simp add: not_less)
    ultimately show ?thesis
      using True ks unfolding passes_over_def
      by (intro exI [of _ "h # ?js @ ks"]) (cases "ks = []"; auto dest: set_takeWhileD)
  qed auto
qed simp

lemma visit_passes_over:
  assumes "visit run u d p h hs w = Some (Go hs' w')"
  shows "passes_over (stack_level h) hs hs'"
  using assms
proof (cases rule: visit_GoE)
  case (called w1 r s c cs ret a)
  then show ?thesis
    using passes_over_dropWhile [of "stack_level h" hs] passes_over_jump [of "stack_level h" hs a]
    by (auto simp: after_action_def Let_def skip_level_def split: if_splits prod.splits bind_splits)
qed simp

lemma walk_skip:
  "d + length ks \<le> sk \<Longrightarrow> walk_loop run u sk d p (ks @ hs) w =
     walk_loop run u sk (d + length ks) (if ks = [] then p else stack_level (last ks)) hs w"
proof (induction ks arbitrary: d p)
  case (Cons k ks)
  then show ?case using Cons.IH [of "Suc d" "stack_level k"] by (cases ks) simp_all
qed simp

lemma visit_prev: "(p < stack_level h \<longleftrightarrow> p' < stack_level h) \<Longrightarrow> visit run u d p h hs w = visit run u d p' h hs w"
  by (simp add: visit_def enter_level_def)

lemma walk_prev:
  "(hs \<noteq> [] \<Longrightarrow> p < stack_level (hd hs) \<longleftrightarrow> p' < stack_level (hd hs)) \<Longrightarrow> walk_loop run u sk d p hs w = walk_loop run u sk d p' hs w"
  by (cases hs) (auto simp: visit_prev [of p _ p'])

lemma walk_no_skip: "sk \<le> d \<Longrightarrow> walk_loop run u sk d p hs w = walk_loop run u 0 d p hs w"
proof (induction run u "0 :: nat" d p hs w rule: walk_loop.induct)
  case (2 run u d p h hs w)
  then show ?case by (auto split: option.splits turn.splits)
qed simp

text \<open>A runner that answers wherever another one answers.\<close>

definition completes :: "('f, 's) runner \<Rightarrow> ('f, 's) runner \<Rightarrow> bool" where
  "completes c c' \<longleftrightarrow> (\<forall>f n k a s. fst (c f n k a s) \<noteq> PAM_INCOMPLETE \<longrightarrow> c' f n k a s = c f n k a s)"

lemma completes_module_retval:
  "completes c c' \<Longrightarrow> module_retval c h s = (r, s') \<Longrightarrow> r \<noteq> PAM_INCOMPLETE \<Longrightarrow> module_retval c' h s = (r, s')"
  by (auto simp: completes_def module_retval_def split: if_splits option.splits)

lemma completes_visit:
  assumes "completes c c'" "visit c u d p h hs w = Some (Go hs' w')"
  shows "visit c' u d p h hs w = Some (Go hs' w')"
  using assms(2)
  by (cases rule: visit_GoE) (auto simp: visit_def completes_module_retval [OF assms(1)])

lemma completes_walk:
  "walk_loop c u sk d p hs w = Some (Finished w') \<Longrightarrow> completes c c' \<Longrightarrow> walk_loop c' u sk d p hs w = Some (Finished w')"
proof (induction c u sk d p hs w rule: walk_loop.induct)
  case (2 c u sk d p h hs w)
  then show ?case by (auto split: if_splits option.splits turn.splits dest: completes_visit)
qed simp

text \<open>A module that is called until it answers: by \<open>c\<close>, and when that asks to be called again, by \<open>c2\<close>
  after the application has changed the state by \<open>g\<close>.\<close>

definition resumes :: "('f, 's) runner \<Rightarrow> ('f, 's) runner \<Rightarrow> ('s \<Rightarrow> 's) \<Rightarrow> ('f, 's) runner \<Rightarrow> bool" where
  "resumes c c2 g c' \<longleftrightarrow> (\<forall>f n k a s. fst (c f n k a s) = PAM_INCOMPLETE \<longrightarrow> c' f n k a s = c2 f n k a (g (snd (c f n k a s))))"

lemma enter_level_again: "enter_level p l w = Some w1 \<Longrightarrow> enter_level p l (w1\<lparr>w_public := s\<rparr>) = Some (w1\<lparr>w_public := s\<rparr>)"
  by (auto simp: enter_level_def put_def split: if_splits)

lemma resumed_visit:
  assumes "resumes c c2 g c'" "visit c u d p h hs w = Some (Wait w1)"
    "visit c2 u d p h hs (w1\<lparr>w_public := g (w_public w1)\<rparr>) = Some t"
  shows "visit c' u d p h hs w = Some t"
proof -
  from assms(2) obtain v s where v: "enter_level p (stack_level h) w = Some v" "handler_type h \<noteq> PAM_HT_SUBSTACK"
      "module_retval c h (w_public v) = (PAM_INCOMPLETE, s)" "w1 = v\<lparr>w_public := s\<rparr>"
    by (rule visit_WaitE)
  then have "module_retval c' h (w_public v) = module_retval c2 h (g s)"
    using assms(1) by (auto simp: module_retval_def resumes_def split: if_splits option.splits)
  moreover have "enter_level p (stack_level h) (v\<lparr>w_public := g s\<rparr>) = Some (v\<lparr>w_public := g s\<rparr>)"
    by (rule enter_level_again [OF v(1)])
  ultimately show ?thesis using assms(3) by (simp add: visit_def v)
qed

lemma Incomplete_depth: "walk_loop c u sk d p hs w = Some (Incomplete k w1) \<Longrightarrow> d \<le> k"
proof (induction c u sk d p hs w rule: walk_loop.induct)
  case (2 c u sk d p h hs w)
  then show ?case by (fastforce split: if_splits option.splits turn.splits)
qed simp

theorem resumed_walk:
  assumes "walk_loop c u sk d p hs w = Some (Incomplete k w1)"
    "walk_loop c2 u k d p hs (w1\<lparr>w_public := g (w_public w1)\<rparr>) = Some (Finished w2)"
    "completes c c'" "completes c2 c'" "resumes c c2 g c'"
  shows "walk_loop c' u sk d p hs w = Some (Finished w2)"
  using assms
proof (induction c u sk d p hs w rule: walk_loop.induct)
  case (2 c u sk d p h hs w)
  let ?w1 = "w1\<lparr>w_public := g (w_public w1)\<rparr>"
  consider "d < sk" | v where "\<not> d < sk" "visit c u d p h hs w = Some (Wait v)"
    | "\<not> d < sk" "\<forall>v. visit c u d p h hs w \<noteq> Some (Wait v)" by blast
  then show ?case
  proof cases
    case 1
    then have "walk_loop c u sk (d + 1) (stack_level h) hs w = Some (Incomplete k w1)" using 2(3) by simp
    moreover from Incomplete_depth [OF this] have "walk_loop c2 u k (d + 1) (stack_level h) hs ?w1 = Some (Finished w2)"
      using 2(4) by simp
    ultimately show ?thesis using 2(1) [OF 1 _ _ 2(5-7)] 1 by simp
  next
    case 2
    then have k: "k = d" "visit c u d p h hs w = Some (Wait w1)" using "2.prems"(1) by auto
    with "2.prems"(2) obtain hs' w' where v: "visit c2 u d p h hs ?w1 = Some (Go hs' w')"
        "walk_loop c2 u d (d + 1 + (length hs - length hs')) (stack_level h) hs' w' = Some (Finished w2)"
      by (auto split: option.splits turn.splits)
    from v(2) have "walk_loop c2 u sk (d + 1 + (length hs - length hs')) (stack_level h) hs' w' = Some (Finished w2)"
      using 2(1) walk_no_skip [of d "d + 1 + (length hs - length hs')" c2 u "stack_level h" hs' w']
        walk_no_skip [of sk "d + 1 + (length hs - length hs')" c2 u "stack_level h" hs' w'] by simp
    then have "walk_loop c' u sk (d + 1 + (length hs - length hs')) (stack_level h) hs' w' = Some (Finished w2)"
      using "2.prems"(4) by (rule completes_walk)
    with resumed_visit [OF "2.prems"(5) k(2) v(1)] 2(1) show ?thesis by simp
  next
    case 3
    with "2.prems"(1) obtain hs' w' where v: "visit c u d p h hs w = Some (Go hs' w')"
        and rest: "walk_loop c u sk (d + 1 + (length hs - length hs')) (stack_level h) hs' w' = Some (Incomplete k w1)"
      by (auto split: option.splits turn.splits)
    obtain ks where ks: "hs = ks @ hs'" "\<forall>x\<in>set ks. stack_level x \<ge> stack_level h"
        "ks \<noteq> [] \<longrightarrow> hs' \<noteq> [] \<longrightarrow> stack_level (hd hs') \<le> stack_level h"
      using visit_passes_over [OF v] by (auto simp: passes_over_def)
    have d: "d + 1 + length ks \<le> k" using Incomplete_depth [OF rest] ks(1) by simp
    have "walk_loop c2 u k d p (h # hs) ?w1 =
        walk_loop c2 u k (d + 1 + length ks) (if ks = [] then stack_level h else stack_level (last ks)) hs' ?w1"
      using walk_skip [of "d + 1" ks k c2 u "stack_level h" hs' ?w1] d ks(1) by simp
    also have "\<dots> = walk_loop c2 u k (d + 1 + length ks) (stack_level h) hs' ?w1"
    proof (rule walk_prev)
      have "stack_level (last ks) \<ge> stack_level h" if "ks \<noteq> []" using ks(2) that by auto
      with ks(3) show "((if ks = [] then stack_level h else stack_level (last ks)) < stack_level (hd hs')) =
          (stack_level h < stack_level (hd hs'))" if "hs' \<noteq> []"
        using that by auto
    qed
    finally have "walk_loop c2 u k (d + 1 + (length hs - length hs')) (stack_level h) hs' ?w1 = Some (Finished w2)"
      using "2.prems"(2) ks(1) by simp
    then have "walk_loop c' u sk (d + 1 + (length hs - length hs')) (stack_level h) hs' w' = Some (Finished w2)"
      using "2.IH"(2) [OF 3(1) v refl rest _ "2.prems"(3-5)] by simp
    with completes_visit [OF "2.prems"(3) v] 3(1) show ?thesis by simp
  qed
qed simp

end
