(* ===== verification/PamLevels.thy ===== *)
theory PamLevels
  imports PamWalkThms
begin

text \<open>
  Stacks whose levels rise only at a substack entry, one at a time, and stay below the maximum. A walk
  over such a stack reads only substack states that it has written before.
\<close>

definition next_level :: "'f handler \<Rightarrow> nat" where
  "next_level h = stack_level h + (if handler_type h = PAM_HT_SUBSTACK then 1 else 0)"

fun levelled :: "nat \<Rightarrow> 'f handler list \<Rightarrow> bool" where
  "levelled m [] \<longleftrightarrow> True"
| "levelled m (h # hs) \<longleftrightarrow> stack_level h \<le> m \<and> stack_level h < PAM_SUBSTACK_MAX_LEVEL \<and> levelled (next_level h) hs"

definition last_level :: "nat \<Rightarrow> 'f handler list \<Rightarrow> nat" where
  "last_level m hs = (if hs = [] then m else next_level (last hs))"

lemma levelled_append: "levelled m (hs @ gs) \<longleftrightarrow> levelled m hs \<and> levelled (last_level m hs) gs"
proof (induction hs arbitrary: m)
  case (Cons h hs)
  then show ?case by (cases hs) (auto simp: last_level_def)
qed (simp add: last_level_def)

text \<open>The handlers of a service: action tables of the right length and cells that exist.\<close>

definition handler_ok :: "nat \<Rightarrow> 'f handler \<Rightarrow> bool" where
  "handler_ok n h \<longleftrightarrow> length (actions h) = PAM_RETURN_VALUES \<and> cached_retval h < n \<and> cached_retval_p h < n"

text \<open>The substack states up to a level have been written.\<close>

definition written :: "nat \<Rightarrow> substates \<Rightarrow> bool" where
  "written p sub \<longleftrightarrow> length sub = PAM_SUBSTACK_MAX_LEVEL \<and> (\<forall>l\<le>p. l < PAM_SUBSTACK_MAX_LEVEL \<longrightarrow> sub ! l \<noteq> None)"

lemma enter_level_written:
  assumes "written (min p l) (substates w)" "l \<le> Suc p" "l < PAM_SUBSTACK_MAX_LEVEL"
  obtains w1 where "enter_level p l w = Some w1" "written l (substates w1)" "w_cells w1 = w_cells w"
proof (cases "p < l")
  case True
  then have l: "l = Suc p" "l < length (substates w)" using assms by (auto simp: written_def)
  then show ?thesis
    using assms that [of "w\<lparr>substates := (substates w)[l := Some (impression w, status w)]\<rparr>"] True
    by (auto simp: enter_level_def put_def written_def nth_list_update le_Suc_eq)
next
  case False
  then show ?thesis using assms that [of w] by (auto simp: enter_level_def written_def)
qed

lemma after_action_total:
  assumes "written l (substates w)" "l < PAM_SUBSTACK_MAX_LEVEL"
  shows "after_action u d l a r c hs w \<noteq> None"
proof -
  obtain i s where "substates w ! l = Some (i, s)" "l < length (substates w)"
    using assms by (auto simp: written_def)
  then show ?thesis by (auto simp: after_action_def Let_def split: prod.splits)
qed

lemma after_action_substates: "after_action u d l a r c hs w = Some (hs', w') \<Longrightarrow> substates w' = substates w \<and> w_cells w' = w_cells w"
  by (auto simp: after_action_def Let_def on_ok_def on_bad_def on_cached_jump_def bad_jump_def split: if_splits prod.splits bind_splits)

lemma cached_value_total:
  assumes "handler_ok (length cs) h"
  obtains c cs' where "cached_value u h r cs = Some (c, cs')" "length cs' = length cs"
  using assms that by (cases u) (auto simp: cached_value_def handler_ok_def put_def)

lemma action_of_total: "handler_ok n h \<Longrightarrow> action_of h r c \<noteq> None"
  by (auto simp: action_of_def handler_ok_def)

text \<open>A turn on such a stack is made, and keeps what the next one needs.\<close>

lemma visit_total:
  assumes "written (min p (stack_level h)) (substates w)" "stack_level h \<le> Suc p" "stack_level h < PAM_SUBSTACK_MAX_LEVEL"
    "handler_ok (length (w_cells w)) h"
  shows "(\<exists>w'. visit run u d p h hs w = Some (Wait w') \<and> written (stack_level h) (substates w') \<and> length (w_cells w') = length (w_cells w)) \<or>
    (\<exists>hs' w'. visit run u d p h hs w = Some (Go hs' w') \<and> written (stack_level h) (substates w') \<and> length (w_cells w') = length (w_cells w))"
proof -
  obtain w1 where w1: "enter_level p (stack_level h) w = Some w1" "written (stack_level h) (substates w1)" "w_cells w1 = w_cells w"
    by (rule enter_level_written [OF assms(1-3)])
  obtain r s where r: "module_retval run h (w_public w1) = (r, s)" by force
  obtain c cs where c: "cached_value u h r (w_cells w1) = Some (c, cs)" "length cs = length (w_cells w1)"
    using cached_value_total assms(4) w1(3) by metis
  obtain ret a where a: "action_of h r c = Some (ret, a)" using action_of_total [OF assms(4)] by fastforce
  obtain hs' w' where f: "after_action u d (stack_level h) a ret c hs (w1\<lparr>w_public := s, w_cells := cs\<rparr>) = Some (hs', w')"
    using after_action_total [of "stack_level h" "w1\<lparr>w_public := s, w_cells := cs\<rparr>"] w1(2) assms(3) by fastforce
  note after_action_substates [OF f]
  then show ?thesis using w1 r c a f by (simp add: visit_def Let_def)
qed

lemma levelled_land:
  assumes "levelled m (h # hs)" "passes_over (stack_level h) hs hs'" "hs' \<noteq> []"
  shows "stack_level (hd hs') \<le> Suc (stack_level h)" "levelled (stack_level (hd hs')) hs'"
proof -
  obtain ks where ks: "hs = ks @ hs'" "ks \<noteq> [] \<longrightarrow> stack_level (hd hs') \<le> stack_level h"
    using assms(2,3) by (auto simp: passes_over_def)
  have "stack_level (hd hs') \<le> next_level h" if "ks = []"
    using assms(1,3) ks(1) that by (cases hs') auto
  then show "stack_level (hd hs') \<le> Suc (stack_level h)" using ks(2) by (cases "ks = []") (auto simp: next_level_def split: if_splits)
  have "levelled (last_level (next_level h) ks) hs'" using assms(1) ks(1) by (simp add: levelled_append)
  then show "levelled (stack_level (hd hs')) hs'" by (cases hs') auto
qed

text \<open>The position of a walk that goes on at \<open>hs\<close> after a handler of level \<open>p\<close>.\<close>

definition ready :: "nat \<Rightarrow> 'f handler list \<Rightarrow> ('f, 's) walk \<Rightarrow> bool" where
  "ready p hs w \<longleftrightarrow>
     (hs \<noteq> [] \<longrightarrow> written (min p (stack_level (hd hs))) (substates w) \<and> stack_level (hd hs) \<le> Suc p \<and>
        levelled (stack_level (hd hs)) hs) \<and>
     (\<forall>h\<in>set hs. handler_ok (length (w_cells w)) h)"

lemma written_le: "written p sub \<Longrightarrow> q \<le> p \<Longrightarrow> written q sub"
  by (auto simp: written_def)

lemma ready_visit:
  assumes "ready p (h # hs) w"
  shows "(\<exists>w'. visit run u d p h hs w = Some (Wait w') \<and> written (stack_level h) (substates w') \<and> length (w_cells w') = length (w_cells w)) \<or>
    (\<exists>hs' w'. visit run u d p h hs w = Some (Go hs' w') \<and> written (stack_level h) (substates w') \<and> length (w_cells w') = length (w_cells w))"
  using assms by (intro visit_total) (auto simp: ready_def)

lemma ready_step:
  assumes "ready p (h # hs) w" "visit run u d p h hs w = Some (Go hs' w')"
  shows "ready (stack_level h) hs' w'"
proof -
  have "written (stack_level h) (substates w') \<and> length (w_cells w') = length (w_cells w)"
    using ready_visit [OF assms(1), of run u d] assms(2) by auto
  moreover have "levelled (stack_level h) (h # hs)" using assms(1) by (simp add: ready_def)
  ultimately show ?thesis
    using levelled_land [OF _ visit_passes_over [OF assms(2)]] visit_set [OF assms(2)] assms(1)
    by (auto simp: ready_def intro: written_le)
qed

theorem walk_total:
  assumes "ready p hs w" "sk \<le> d"
  shows "walk_loop run u sk d p hs w \<noteq> None"
  using assms
proof (induction run u sk d p hs w rule: walk_loop.induct)
  case (2 run u sk d p h hs w)
  from ready_visit [OF 2(3), of run u d] show ?case
    using 2 ready_step [OF 2(3)] by (fastforce split: turn.splits)
qed simp

text \<open>A walk that stops can be resumed.\<close>

lemma walk_stop:
  assumes "ready p hs w" "walk_loop run u 0 d p hs w = Some (Incomplete k w1)"
  shows "d \<le> k \<and> k - d < length hs \<and> written (stack_level (hs ! (k - d))) (substates w1) \<and> length (w_cells w1) = length (w_cells w)"
  using assms
proof (induction run u "0 :: nat" d p hs w rule: walk_loop.induct)
  case (2 run u d p h hs w)
  show ?case
  proof (cases "\<exists>v. visit run u d p h hs w = Some (Wait v)")
    case True
    then have "k = d" "visit run u d p h hs w = Some (Wait w1)" using 2(4) by auto
    with ready_visit [OF 2(3), of run u d] show ?thesis by auto
  next
    case False
    with 2(4) obtain hs' w' where v: "visit run u d p h hs w = Some (Go hs' w')"
      "walk_loop run u 0 (d + 1 + (length hs - length hs')) (stack_level h) hs' w' = Some (Incomplete k w1)"
      by (auto split: option.splits turn.splits)
    obtain ks where ks: "hs = ks @ hs'" using visit_passes_over [OF v(1)] by (auto simp: passes_over_def)
    have "length (w_cells w') = length (w_cells w)" using ready_visit [OF 2(3), of run u d] v(1) by auto
    moreover have "(h # hs) ! (k - d) = hs' ! (k - (d + 1 + length ks))" if le: "d + 1 + length ks \<le> k"
    proof -
      obtain i where "k = d + 1 + length ks + i" using le_Suc_ex [OF le] by blast
      then show ?thesis by (simp add: ks nth_append)
    qed
    moreover have "d + 1 + length ks \<le> k \<and> k - (d + 1 + length ks) < length hs' \<and>
        written (stack_level (hs' ! (k - (d + 1 + length ks)))) (substates w1) \<and> length (w_cells w1) = length (w_cells w')"
      using 2(2) [OF _ v(1) refl ready_step [OF 2(3) v(1)] v(2)] by (simp add: ks)
    moreover from this have "d \<le> k \<and> k - d < length (h # hs)" by (auto simp: ks)
    ultimately show ?thesis by (elim conjE) simp
  qed
qed simp

lemma levelled_nth:
  assumes "levelled m hs" "k < length hs"
  shows "stack_level (hs ! k) \<le> (if k = 0 then m else next_level (hs ! (k - 1)))" "levelled (stack_level (hs ! k)) (drop k hs)"
  using assms
proof (induction hs arbitrary: m k)
  case (Cons h hs)
  { case 1
    then show ?case using Cons(1) [of "next_level h" "k - 1"]
      by (cases k; cases "k - 1") auto
  next
    case 2
    then show ?case using Cons(2) [of "next_level h" "k - 1"] by (cases k) auto
  }
qed simp_all

text \<open>A resumed walk goes on at its position.\<close>

theorem resume_ready:
  assumes "levelled 0 hs" "k < length hs" "written (stack_level (hs ! k)) (substates w)"
    "\<forall>h\<in>set hs. handler_ok (length (w_cells w)) h"
  obtains p where "ready p (drop k hs) w" "walk_loop run u k 0 0 hs w = walk_loop run u 0 k p (drop k hs) w"
proof -
  let ?p = "if k = 0 then 0 else stack_level (hs ! (k - 1))"
  have "walk_loop run u k 0 0 (take k hs @ drop k hs) w = walk_loop run u k k ?p (drop k hs) w"
    using assms(2) walk_skip [of 0 "take k hs" k run u 0 "drop k hs" w]
    by (cases "k = 0") (auto simp: last_conv_nth)
  also have "\<dots> = walk_loop run u 0 k ?p (drop k hs) w" by (rule walk_no_skip) simp
  finally have "walk_loop run u k 0 0 hs w = walk_loop run u 0 k ?p (drop k hs) w" by simp
  moreover have "ready ?p (drop k hs) w"
    using levelled_nth [OF assms(1,2)] assms
    by (auto simp: ready_def hd_drop_conv_nth next_level_def intro: written_le dest: in_set_dropD split: if_splits)
  ultimately show ?thesis using that by blast
qed

text \<open>Where such a walk can stop.\<close>

lemma walk_ends:
  assumes "ready p (drop k hs) w" "k \<le> length hs"
  shows "\<exists>t. walk_loop run u 0 k p (drop k hs) w = Some t \<and>
    (\<forall>d w'. t = Incomplete d w' \<longrightarrow> d < length hs \<and> written (stack_level (hs ! d)) (substates w'))"
proof -
  obtain t where t: "walk_loop run u 0 k p (drop k hs) w = Some t"
    using walk_total [OF assms(1), of 0 k run u] by auto
  have "d < length hs \<and> written (stack_level (hs ! d)) (substates w')" if "t = Incomplete d w'" for d w'
  proof -
    have "k \<le> d \<and> d - k < length (drop k hs) \<and> written (stack_level (drop k hs ! (d - k))) (substates w')"
      using walk_stop [OF assms(1)] t that by blast
    then show ?thesis using assms(2) by (auto simp: less_diff_conv)
  qed
  with t show ?thesis by blast
qed

end
