(* ===== verification/PamConfThms.thy ===== *)
theory PamConfThms
  imports PamConf PamLevels
begin

text \<open>
  The stacks that the parser builds: whatever the configuration files hold, and however memory runs
  out, the levels of a stack rise only at a substack entry, every action table has an entry for each
  return value, and every handler refers to cells that exist.
\<close>

subsection \<open>Stacks of a service\<close>

lemma get_set_stack [simp]: "get_stack k (set_stack k' hs s) = (if k = k' then hs else get_stack k s)"
  by (cases k; cases k') simp_all

lemma service_stack_update [simp]:
  "service_stack b k (update_stack b' k' hs s) = (if b = b' \<and> k = k' then hs else service_stack b k s)"
  by (auto simp: service_stack_def update_stack_def)

lemma update_stack_fields [simp]: "cells (update_stack b k hs s) = cells s" "modules (update_stack b k hs s) = modules s"
  by (simp_all add: update_stack_def)

lemma service_stack_cells [simp]: "service_stack b k (s\<lparr>cells := c\<rparr>) = service_stack b k s"
  by (simp add: service_stack_def)

definition service_ok :: "'f service \<Rightarrow> bool" where
  "service_ok s \<longleftrightarrow>
     (\<forall>b k. levelled 0 (service_stack b k s) \<and> (\<forall>h\<in>set (service_stack b k s). handler_ok (length (cells s)) h))"

definition same_stacks :: "'f service \<Rightarrow> 'f service \<Rightarrow> bool" where
  "same_stacks s s' \<longleftrightarrow> conf s' = conf s \<and> others s' = others s \<and> cells s' = cells s"

lemma same_stacks_refl [simp]: "same_stacks s s"
  by (simp add: same_stacks_def)

lemma same_stacks_trans: "same_stacks s t \<Longrightarrow> same_stacks t u \<Longrightarrow> same_stacks s u"
  by (simp add: same_stacks_def)

lemma same_stacks_stack: "same_stacks s s' \<Longrightarrow> service_stack b k s' = service_stack b k s"
  by (simp add: same_stacks_def service_stack_def)

lemma same_stacks_ok: "same_stacks s s' \<Longrightarrow> service_ok s' = service_ok s"
  by (simp add: service_ok_def same_stacks_stack) (simp add: same_stacks_def)

subsection \<open>Operations that leave the stacks alone\<close>

lemma halloc_service [simp]: "halloc e p = (b, p') \<Longrightarrow> service p' = service p"
  by (auto simp: halloc_def split: prod.splits)

lemma halloc_snd_service [simp]: "service (snd (halloc e p)) = service p"
  by (simp add: halloc_def split: prod.splits)

lemma open_module_service: "open_module e path p = (dl, p') \<Longrightarrow> service p' = service p"
  by (auto simp: open_module_def split: option.splits prod.splits bool.splits)

lemma grow_modules_stacks: "grow_modules e p = (b, p') \<Longrightarrow> same_stacks (service p) (service p')"
  by (auto simp: grow_modules_def Let_def same_stacks_def split: if_splits prod.splits bool.splits)

lemma pam_load_module_stacks:
  assumes "pam_load_module e path p = Some (m, p')"
  shows "same_stacks (service p) (service p')"
proof -
  obtain b p1 where g: "grow_modules e p = (b, p1)" by force
  obtain dl p2 where o: "open_module e path p1 = (dl, p2)" by force
  obtain c p3 where h: "halloc e p2 = (c, p3)" by force
  show ?thesis
    using assms grow_modules_stacks [OF g] open_module_service [OF o] halloc_service [OF h]
    by (auto simp: pam_load_module_def Let_def g o h same_stacks_def split: option.splits bool.splits)
qed

lemma handler_module_stacks: "handler_module e kind path p = Some (m, p') \<Longrightarrow> same_stacks (service p) (service p')"
  by (fastforce simp: handler_module_def split: option.splits if_splits prod.splits bool.splits dest: pam_load_module_stacks)

subsection \<open>Adding handlers\<close>

text \<open>All stacks that a module type fills admit a handler of the level.\<close>

definition admits :: "nat \<Rightarrow> bool \<Rightarrow> module_type \<Rightarrow> 'f service \<Rightarrow> bool" where
  "admits l b t s \<longleftrightarrow>
     (\<forall>k n k2. stacks_of t = Some ((k, n), k2) \<longrightarrow>
        l \<le> last_level 0 (service_stack b k s) \<and>
        (\<forall>k' n'. k2 = Some (k', n') \<longrightarrow> l \<le> last_level 0 (service_stack b k' s)))"

lemma admits_0 [simp]: "admits 0 b t s"
  by (simp add: admits_def)

lemma same_stacks_admits: "same_stacks s s' \<Longrightarrow> admits l b t s' = admits l b t s"
  by (simp add: admits_def same_stacks_stack)

lemma append_handler_stack:
  "service_stack b k (append_handler b' k' h s) = service_stack b k s @ (if b = b' \<and> k = k' then [h] else [])"
  by (simp add: append_handler_def)

lemma append_handler_cells [simp]: "cells (append_handler b k h s) = cells s @ [INVALID_RETVAL]"
  by (simp add: append_handler_def)

lemma last_level_append: "last_level m (hs @ [h]) = next_level h"
  by (simp add: last_level_def)

lemma append_handler_ok:
  assumes "service_ok s" "stack_level h \<le> last_level 0 (service_stack b k s)" "stack_level h < PAM_SUBSTACK_MAX_LEVEL"
    "handler_ok (Suc (length (cells s))) h"
  shows "service_ok (append_handler b k h s)"
  using assms by (auto simp: service_ok_def append_handler_stack levelled_append handler_ok_def less_Suc_eq)

text \<open>Levels that a stack admitted stay admitted when a handler at or above them is added.\<close>

definition keeps_admitting :: "nat \<Rightarrow> 'f service \<Rightarrow> 'f service \<Rightarrow> bool" where
  "keeps_admitting l s s' \<longleftrightarrow>
     (\<forall>m\<le>l. \<forall>b k. m \<le> last_level 0 (service_stack b k s) \<longrightarrow> m \<le> last_level 0 (service_stack b k s'))"

lemma keeps_admitting_refl [simp]: "keeps_admitting l s s"
  by (simp add: keeps_admitting_def)

lemma keeps_admitting_trans: "keeps_admitting l s t \<Longrightarrow> keeps_admitting l t u \<Longrightarrow> keeps_admitting l s u"
  by (simp add: keeps_admitting_def)

lemma keeps_admitting_le: "keeps_admitting l s t \<Longrightarrow> l' \<le> l \<Longrightarrow> keeps_admitting l' s t"
  by (simp add: keeps_admitting_def)

lemma keeps_admits: "keeps_admitting l s s' \<Longrightarrow> m \<le> l \<Longrightarrow> admits m b t s \<Longrightarrow> admits m b t s'"
  by (simp add: keeps_admitting_def admits_def)

lemma keeps_same: "same_stacks s s' \<Longrightarrow> keeps_admitting l s s'"
  by (simp add: keeps_admitting_def same_stacks_stack)

lemma keeps_append: "l \<le> stack_level h \<Longrightarrow> keeps_admitting l s (append_handler b k h s)"
  by (auto simp: keeps_admitting_def append_handler_stack last_level_append next_level_def)

lemma new_handler_fields [simp]:
  "stack_level (new_handler kind l f acts c n a name s) = l" "handler_type (new_handler kind l f acts c n a name s) = kind"
  "handler_ok m (new_handler kind l f acts c n a name s) \<longleftrightarrow>
     length acts = PAM_RETURN_VALUES \<and> length (cells s) < m \<and> (case c of None \<Rightarrow> length (cells s) | Some i \<Rightarrow> i) < m"
  by (auto simp: new_handler_def handler_ok_def)

lemma add_second_service:
  assumes "add_second e kind b l k f acts c n a path p = (r, p')"
  obtains "service p' = service p" "r \<noteq> PAM_SUCCESS"
  | a' name where "service p' = append_handler b k (new_handler kind l f acts (Some c) n a' name (service p)) (service p)"
proof -
  obtain x p1 where h: "halloc e p = (x, p1)" by force
  obtain y p2 where g: "(case a of None \<Rightarrow> (True, p1) | Some _ \<Rightarrow> halloc e p1) = (y, p2)" by force
  obtain name pub where n: "extract_modulename e path (public p2) = (name, pub)" by force
  have s: "service p1 = service p" "service p2 = service p" using h g by (auto split: option.splits)
  show ?thesis
    using assms that s by (cases x; cases y) (auto simp: add_second_def h g n Let_def split: if_splits)
qed

lemma pam_add_handler_service:
  assumes "pam_add_handler e kind b l t acts path n a p = Some (r, p')"
  obtains (none) "same_stacks (service p) (service p')" "r \<noteq> PAM_SUCCESS"
  | (one) k m k2 s f name where "stacks_of t = Some ((k, m), k2)" "same_stacks (service p) s"
      "service p' = append_handler b k (new_handler kind l f acts None n a name s) s" "k2 = None \<or> r \<noteq> PAM_SUCCESS"
  | (two) k m k2 m2 s f name f2 a2 name2 s1 where "stacks_of t = Some ((k, m), Some (k2, m2))" "same_stacks (service p) s"
      "s1 = append_handler b k (new_handler kind l f acts None n a name s) s"
      "service p' = append_handler b k2 (new_handler kind l f2 acts (Some (length (cells s))) n a2 name2 s1) s1"
proof (cases "handler_module e kind path p")
  case None
  with assms show ?thesis by (simp add: pam_add_handler_def)
next
  case (Some mp)
  obtain m p1 where mp: "mp = (m, p1)" by force
  note s1 = handler_module_stacks [OF Some [unfolded mp]]
  obtain x p2 where h: "halloc e p1 = (x, p2)" by force
  then have s2: "service p2 = service p1" by simp
  define pt where "pt = (case path of None \<Rightarrow> asc ''<*unknown module*>'' | Some q \<Rightarrow> q)"
  obtain name pub where nm: "extract_modulename e pt (public p2) = (name, pub)" by force
  show ?thesis
  proof (cases "m = None \<or> stacks_of t = None \<or> \<not> x")
    case True
    with assms s1 s2 show ?thesis
      by (intro none) (auto simp: pam_add_handler_def Some mp h Let_def split: option.splits prod.splits)
  next
    case False
    then obtain dl k sy k2 where o: "m = Some dl" "stacks_of t = Some ((k, sy), k2)" "x" by auto
    let ?f = "\<lambda>n. Option.bind dl (\<lambda>d. dlsym e d n)"
    let ?p3 = "on_service (\<lambda>s. append_handler b k (new_handler kind l (?f sy) acts None n a name s) s) (p2\<lparr>public := pub\<rparr>)"
    have eq: "pam_add_handler e kind b l t acts path n a p =
        (if name = None then Some (PAM_ABORT, ?p3)
         else case k2 of None \<Rightarrow> Some (PAM_SUCCESS, ?p3)
              | Some (k2, sy2) \<Rightarrow> Some (add_second e kind b l k2 (?f sy2) acts (length (cells (service p2))) n a pt ?p3))"
      using o by (cases name; cases k2) (auto simp: pam_add_handler_def Some mp h pt_def [symmetric] nm Let_def)
    show ?thesis
    proof (cases "name = None \<or> k2 = None")
      case True
      with assms eq o s1 s2 show ?thesis by (intro one [of k sy k2 "service p1" "?f sy" name]) (auto split: if_splits)
    next
      case False
      then obtain k2' sy2 where k2: "k2 = Some (k2', sy2)" by auto
      have "add_second e kind b l k2' (?f sy2) acts (length (cells (service p2))) n a pt ?p3 = (r, p')"
        using assms False unfolding eq k2 by (simp split: if_splits)
      then show ?thesis
      proof (cases rule: add_second_service)
        case 1
        with o s1 s2 show ?thesis by (intro one) auto
      next
        case (2 a' name')
        with o k2 s1 s2 show ?thesis by (intro two) auto
      qed
    qed
  qed
qed

lemma stacks_of_distinct: "stacks_of t = Some ((k, m), Some (k2, m2)) \<Longrightarrow> k \<noteq> k2"
  by (cases t) auto

lemma pam_add_handler_ok:
  assumes "pam_add_handler e kind b l t acts path n a p = Some (r, p')" "service_ok (service p)"
    "length acts = PAM_RETURN_VALUES" "l < PAM_SUBSTACK_MAX_LEVEL" "admits l b t (service p)"
  shows "service_ok (service p') \<and> keeps_admitting l (service p) (service p') \<and>
    (kind = PAM_HT_SUBSTACK \<longrightarrow> r = PAM_SUCCESS \<longrightarrow> admits (Suc l) b t (service p'))"
  using assms(1)
proof (cases rule: pam_add_handler_service)
  case none
  then show ?thesis using assms(2) by (simp add: same_stacks_ok keeps_same)
next
  case (one k m k2 s f name)
  have "service_ok (service p')"
    using one assms(2-5) by (auto simp: admits_def same_stacks_ok same_stacks_stack intro!: append_handler_ok)
  moreover have "keeps_admitting l (service p) (service p')"
    using keeps_admitting_trans [OF keeps_same [OF one(2)] keeps_append] one(3) by simp
  ultimately show ?thesis
    using one by (auto simp: admits_def append_handler_stack last_level_append next_level_def)
next
  case (two k m k2 m2 s f name f2 a2 name2 s1)
  have s: "service_ok s1"
    using two(1-3) assms(2-5) by (auto simp: admits_def same_stacks_ok same_stacks_stack intro!: append_handler_ok)
  moreover have k: "keeps_admitting l (service p) s1"
    using keeps_admitting_trans [OF keeps_same [OF two(2)] keeps_append] two(3) by simp
  ultimately have "service_ok (service p')"
    using two(1,3,4) assms(3-5) keeps_admits [OF k, of l b t] by (auto simp: admits_def intro!: append_handler_ok)
  moreover have "keeps_admitting l (service p) (service p')"
    using keeps_admitting_trans [OF k keeps_append] two(4) by simp
  ultimately show ?thesis
    using two stacks_of_distinct [OF two(1)] by (auto simp: admits_def append_handler_stack last_level_append next_level_def)
qed

text \<open>None of this touches the state of an interrupted run or, the count of allocations apart, the public
  part.\<close>

definition untouched :: "('f, 'w, 'd) pam_handle \<Rightarrow> nat \<times> ('w, 'd) pam_public" where
  "untouched p = (former_choice p, (public p)\<lparr>allocs := 0\<rparr>)"

lemma untouched_service [simp]: "untouched (p\<lparr>service := s\<rparr>) = untouched p"
  by (simp add: untouched_def)

lemma untouched_public: "s\<lparr>allocs := 0\<rparr> = (public p)\<lparr>allocs := 0\<rparr> \<Longrightarrow> untouched (p\<lparr>public := s\<rparr>) = untouched p"
  by (simp add: untouched_def)

lemma malloc_untouched: "malloc e s = (b, s') \<Longrightarrow> s'\<lparr>allocs := 0\<rparr> = s\<lparr>allocs := 0\<rparr>"
  by (auto simp: malloc_def)

lemma extract_modulename_untouched: "extract_modulename e path s = (name, s') \<Longrightarrow> s'\<lparr>allocs := 0\<rparr> = s\<lparr>allocs := 0\<rparr>"
  by (auto simp: extract_modulename_def Let_def split: prod.splits bool.splits dest!: malloc_untouched)

lemma pam_mkargv_untouched: "pam_mkargv e a s = (x, s') \<Longrightarrow> s'\<lparr>allocs := 0\<rparr> = s\<lparr>allocs := 0\<rparr>"
  by (auto simp: pam_mkargv_def Let_def split: if_splits prod.splits bool.splits dest!: malloc_untouched)

lemma halloc_former [simp]: "halloc e p = (b, p') \<Longrightarrow> untouched p' = untouched p"
  by (auto simp: halloc_def untouched_def split: prod.splits dest: malloc_untouched)

lemma pam_load_module_former:
  assumes "pam_load_module e path p = Some (m, p')"
  shows "untouched p' = untouched p"
proof -
  obtain b p1 where g: "grow_modules e p = (b, p1)" by force
  then have "untouched p1 = untouched p"
    by (auto simp: grow_modules_def Let_def split: if_splits prod.splits bool.splits)
  moreover obtain dl p2 where o: "open_module e path p1 = (dl, p2)" by force
  then have "untouched p2 = untouched p1"
    by (auto simp: open_module_def split: option.splits prod.splits bool.splits)
  moreover obtain c p3 where h: "halloc e p2 = (c, p3)" by force
  ultimately show ?thesis
    using assms halloc_former [OF h] by (auto simp: pam_load_module_def Let_def g o h split: option.splits bool.splits)
qed

lemma handler_module_former: "handler_module e kind path p = Some (m, p') \<Longrightarrow> untouched p' = untouched p"
  by (fastforce simp: handler_module_def split: option.splits if_splits prod.splits bool.splits dest: pam_load_module_former)

lemma add_second_former:
  assumes "add_second e kind b l k f acts c n a path p = (r, p')"
  shows "untouched p' = untouched p"
proof -
  obtain x p1 where h: "halloc e p = (x, p1)" by force
  obtain y p2 where g: "(case a of None \<Rightarrow> (True, p1) | Some _ \<Rightarrow> halloc e p1) = (y, p2)" by force
  obtain name pub where n: "extract_modulename e path (public p2) = (name, pub)" by force
  have "untouched p1 = untouched p" "untouched p2 = untouched p" using h g by (auto split: option.splits)
  moreover have "untouched (p2\<lparr>public := pub\<rparr>) = untouched p2" using extract_modulename_untouched [OF n] by (rule untouched_public)
  ultimately show ?thesis using assms by (cases x; cases y) (auto simp: add_second_def h g n Let_def split: if_splits)
qed

lemma pam_add_handler_former:
  assumes "pam_add_handler e kind b l t acts path n a p = Some (r, p')"
  shows "untouched p' = untouched p"
proof (cases "handler_module e kind path p")
  case None
  with assms show ?thesis by (simp add: pam_add_handler_def)
next
  case (Some mp)
  obtain m p1 where mp: "mp = (m, p1)" by force
  note s1 = handler_module_former [OF Some [unfolded mp]]
  obtain x p2 where h: "halloc e p1 = (x, p2)" by force
  then have s2: "untouched p2 = untouched p1" by simp
  obtain name pub where nm: "extract_modulename e (case path of None \<Rightarrow> asc ''<*unknown module*>'' | Some q \<Rightarrow> q) (public p2) = (name, pub)"
    by force
  have s3: "untouched (p2\<lparr>public := pub\<rparr>) = untouched p2" using extract_modulename_untouched [OF nm] by (rule untouched_public)
  show ?thesis
    using assms s1 s2 s3
    by (cases m; cases "stacks_of t"; cases x)
      (auto simp: pam_add_handler_def Some mp h Let_def nm simp del: asc_Cons split: if_splits option.splits dest!: add_second_former)
qed

subsection \<open>Lines\<close>

lemma set_default_length [simp]: "length (pam_set_default_control a d) = length a"
  by (simp add: pam_set_default_control_def)

lemma keyword_actions_length [simp]: "length (keyword_actions g i d) = PAM_RETURN_VALUES"
  by (simp add: keyword_actions_def Let_def)

lemma parse_control_length: "pam_parse_control a tok = Some a' \<Longrightarrow> length a' = length a"
proof (induction a tok rule: pam_parse_control.induct)
  case (1 a tok)
  from 1(2) show ?case
    by (subst (asm) pam_parse_control.simps)
      (auto simp: set_control_def split: list.splits option.splits control_item.splits if_splits dest!: 1(1))
qed

lemma parse_type_field_type: "parse_type_field req tok = (kind, t) \<Longrightarrow> t \<noteq> PAM_T_ANY"
  by (auto simp: parse_type_field_def Let_def split: option.splits if_splits)

lemma parse_control_field_length:
  "parse_control_field tok = Some (Control_actions a) \<Longrightarrow> length a = PAM_RETURN_VALUES"
  "parse_control_field tok = Some (Control_must_fail a) \<Longrightarrow> length a = PAM_RETURN_VALUES"
  by (auto simp: parse_control_field_def simp del: asc_Cons split: option.splits if_splits dest!: parse_control_length)

lemma parse_line_facts:
  "parse_line known req name buf = Some (Line_module kind b t acts path args) \<Longrightarrow>
     length acts = PAM_RETURN_VALUES \<and> (req \<noteq> PAM_T_ANY \<longrightarrow> t = req) \<and> (\<forall>sv. known = Some sv \<longrightarrow> b = strcaseeq sv (asc ''other''))"
  "parse_line known req name buf = Some (Line_include sub b this t cn) \<Longrightarrow>
     t \<noteq> PAM_T_ANY \<and> b = strcaseeq this (asc ''other'') \<and> (req \<noteq> PAM_T_ANY \<longrightarrow> t = req) \<and> (\<forall>sv. known = Some sv \<longrightarrow> this = sv)"
  by (auto simp: parse_line_def Let_def simp del: asc_Cons
      split: bind_splits prod.splits option.splits if_splits control.splits dest: parse_control_field_length parse_type_field_type)

subsection \<open>Files\<close>

lemma line_argv_service: "line_argv e args p = (x, p') \<Longrightarrow> service p' = service p"
  by (auto simp: line_argv_def split: option.splits prod.splits)

lemma line_argv_former: "line_argv e args p = (x, p') \<Longrightarrow> untouched p' = untouched p"
  by (auto simp: line_argv_def split: option.splits prod.splits intro!: untouched_public dest!: pam_mkargv_untouched)

lemma open_in_dirs_service:
  "open_in_dirs e fds ds name p = (x, p') \<Longrightarrow> service p' = service p \<and> untouched p' = untouched p"
proof (induction ds arbitrary: p)
  case (Cons d ds)
  obtain y p1 where "halloc e p = (y, p1)" by force
  with Cons show ?case by (auto split: bool.splits option.splits)
qed simp

lemma pam_open_config_file_service:
  "pam_open_config_file e fds name p = (x, p') \<Longrightarrow> service p' = service p \<and> untouched p' = untouched p"
  using open_in_dirs_service [of e fds _ name p x p']
  by (cases "halloc e p") (auto simp: pam_open_config_file_def Let_def simp del: open_in_dirs.simps
      split: bool.splits option.splits if_splits)

text \<open>What the parser needs of the stacks when it reads lines of a level.\<close>

definition parse_pre :: "nat \<Rightarrow> bytes option \<Rightarrow> module_type \<Rightarrow> 'f service \<Rightarrow> bool" where
  "parse_pre l known req s \<longleftrightarrow>
     l = 0 \<or> (\<exists>sv. known = Some sv \<and> req \<noteq> PAM_T_ANY \<and> admits l (strcaseeq sv (asc ''other'')) req s)"

lemma parse_pre_keeps: "parse_pre l known req s \<Longrightarrow> keeps_admitting l s s' \<Longrightarrow> parse_pre l known req s'"
  by (auto simp: parse_pre_def intro: keeps_admits)

lemma parse_pre_module:
  "parse_pre l known req s \<Longrightarrow> parse_line known req name buf = Some (Line_module kind b t acts path args) \<Longrightarrow> admits l b t s"
  using parse_line_facts(1) [of known req name buf kind b t acts path args] by (auto simp: parse_pre_def)

lemma parse_pre_include:
  "parse_pre l known req s \<Longrightarrow> parse_line known req name buf = Some (Line_include sub b this t cn) \<Longrightarrow> admits l b t s"
  using parse_line_facts(2) [of known req name buf sub b this t cn] by (auto simp: parse_pre_def)

definition good_step :: "nat \<Rightarrow> ('f, 'w, 'd) pam_handle \<Rightarrow> ('f, 'w, 'd) pam_handle \<Rightarrow> bool" where
  "good_step l p p' \<longleftrightarrow> service_ok (service p') \<and> keeps_admitting l (service p) (service p') \<and> untouched p' = untouched p"

lemma good_step_trans: "good_step l p q \<Longrightarrow> good_step l q r \<Longrightarrow> good_step l p r"
  by (auto simp: good_step_def intro: keeps_admitting_trans)

lemma good_step_add:
  assumes "pam_add_handler e kind b l t acts path n a p = Some (r, p')" "service_ok (service p)"
    "length acts = PAM_RETURN_VALUES" "l < PAM_SUBSTACK_MAX_LEVEL" "admits l b t (service p)"
  shows "good_step l p p'" "kind = PAM_HT_SUBSTACK \<Longrightarrow> r = PAM_SUCCESS \<Longrightarrow> admits (Suc l) b t (service p')"
  using pam_add_handler_ok [OF assms] pam_add_handler_former [OF assms(1)] by (auto simp: good_step_def)

definition parse_good :: "('f, 'w, 'd) platform \<Rightarrow> nat \<Rightarrow> bytes \<Rightarrow> bool" where
  "parse_good e fds f \<longleftrightarrow>
     (\<forall>known req l p r p'. pam_parse_conf_file e fds f known req l p = Some (r, p') \<longrightarrow> service_ok (service p) \<longrightarrow>
        l < PAM_SUBSTACK_MAX_LEVEL \<longrightarrow> parse_pre l known req (service p) \<longrightarrow> good_step l p p')"

definition load_good :: "('f, 'w, 'd) platform \<Rightarrow> nat \<Rightarrow> bool" where
  "load_good e fds \<longleftrightarrow>
     (\<forall>cn sv t l p r p'. pam_load_conf_file e fds cn sv t l p = Some (r, p') \<longrightarrow> service_ok (service p) \<longrightarrow>
        t \<noteq> PAM_T_ANY \<longrightarrow> admits l (strcaseeq sv (asc ''other'')) t (service p) \<longrightarrow> good_step l p p')"

lemma load_goodI:
  assumes "fds > 0 \<Longrightarrow> \<forall>f. parse_good e (fds - 1) f"
  shows "load_good e fds"
  unfolding load_good_def
proof (intro allI impI)
  fix cn sv t l p r p'
  assume run: "pam_load_conf_file e fds cn sv t l p = Some (r, p')" and ok: "service_ok (service p)" "t \<noteq> PAM_T_ANY"
    "admits l (strcaseeq sv (asc ''other'')) t (service p)"
  show "good_step l p p'"
  proof (cases "l \<ge> PAM_SUBSTACK_MAX_LEVEL \<or> cn = None")
    case True
    with run ok show ?thesis by (auto simp: pam_load_conf_file.simps good_step_def split: if_splits)
  next
    case False
    then obtain name where name: "cn = Some name" by auto
    obtain x f p1 where o: "pam_open_config_file e fds name p = ((x, f), p1)" by (metis surj_pair)
    then have s: "service p1 = service p" "untouched p1 = untouched p" by (auto dest: pam_open_config_file_service)
    show ?thesis
    proof (cases "x = PAM_SUCCESS")
      case True
      then have "fds > 0" using pam_open_config_file_fds o by metis
      with assms have "parse_good e (fds - 1) f" by simp
      moreover have "pam_parse_conf_file e (fds - 1) f (Some sv) t l p1 = Some (r, p')"
        using run False True by (simp add: pam_load_conf_file.simps name o)
      moreover have "parse_pre l (Some sv) t (service p1)" using ok s by (simp add: parse_pre_def)
      ultimately have "good_step l p1 p'" using ok(1) s False unfolding parse_good_def by (metis not_le)
      then show ?thesis using s by (simp add: good_step_def)
    next
      case False': False
      with run False ok s show ?thesis by (simp add: pam_load_conf_file.simps name o good_step_def)
    qed
  qed
qed

lemma parse_goodI:
  assumes "load_good e fds"
  shows "parse_good e fds f"
proof (induction f rule: measure_induct_rule [of length])
  case (less f)
  show ?case
    unfolding parse_good_def
  proof (intro allI impI)
    fix known req l p r p'
    assume run: "pam_parse_conf_file e fds f known req l p = Some (r, p')" and ok: "service_ok (service p)"
      "l < PAM_SUBSTACK_MAX_LEVEL" "parse_pre l known req (service p)"
    obtain x buf f' where al: "pam_assemble_line f = Some (x, buf, f')"
      using run by (auto simp: pam_parse_conf_file.simps [of e fds f] split: option.splits)
    show "good_step l p p'"
    proof (cases "x \<le> 0")
      case True
      with run al ok show ?thesis by (simp add: pam_parse_conf_file.simps [of e fds f] good_step_def)
    next
      case False
      note shorter = pam_assemble_line_length [OF al False]
      have rest: "good_step l p p'" if "pam_parse_conf_file e fds f' known req l q = Some (r, p')" "good_step l p q" for q
        using less [OF shorter] that ok parse_pre_keeps [OF ok(3)]
        by (auto simp: parse_good_def good_step_def intro: keeps_admitting_trans)
      obtain ln where ln: "parse_line known req (service_name (public p)) buf = Some ln"
        using run al False by (auto simp: pam_parse_conf_file.simps [of e fds f] split: option.splits)
      show ?thesis
      proof (cases ln)
        case Line_skip
        with run al False ln rest [of p] ok(1) show ?thesis
          by (simp add: pam_parse_conf_file.simps [of e fds f] good_step_def)
      next
        case (Line_module kind b t acts path args)
        obtain n av p1 where la: "line_argv e args p = ((n, av), p1)" by (metis surj_pair)
        then have s1: "service p1 = service p" "untouched p1 = untouched p"
          by (rule line_argv_service, rule line_argv_former)
        obtain res p2 where ad: "pam_add_handler e kind b l t acts path n av p1 = Some (res, p2)"
          using run al False ln Line_module la by (auto simp: pam_parse_conf_file.simps [of e fds f] split: option.splits)
        have "good_step l p1 p2"
          using good_step_add(1) [OF ad] ok s1 parse_line_facts(1) [OF ln [unfolded Line_module]]
            parse_pre_module [OF ok(3) ln [unfolded Line_module]] by simp
        then have "good_step l p p2" using s1 by (simp add: good_step_def)
        with run al False ln Line_module la ad rest [of p2] show ?thesis
          by (simp add: pam_parse_conf_file.simps [of e fds f] split: if_splits)
      next
        case (Line_include sub b this t cn)
        note facts = parse_line_facts(2) [OF ln [unfolded Line_include]] parse_pre_include [OF ok(3) ln [unfolded Line_include]]
        obtain res p1 where ad: "(if sub then pam_add_handler e PAM_HT_SUBSTACK b l t undef_actions cn 0 None p
            else Some (PAM_SUCCESS, p)) = Some (res, p1)"
          using run al False ln Line_include by (auto simp: pam_parse_conf_file.simps [of e fds f] split: option.splits)
        have g1: "good_step l p p1" "res = PAM_SUCCESS \<Longrightarrow> sub \<Longrightarrow> admits (Suc l) b t (service p1)"
          using ad good_step_add [of e PAM_HT_SUBSTACK b l t undef_actions cn 0 None p res p1] ok facts(2)
          by (auto simp: good_step_def split: if_splits)
        show ?thesis
        proof (cases "res = PAM_SUCCESS")
          case False': False
          with run al False ln Line_include ad g1 show ?thesis by (auto simp: pam_parse_conf_file.simps [of e fds f])
        next
          case True
          let ?l = "if sub then l + 1 else l"
          obtain r2 p2 where ld: "pam_load_conf_file e fds cn this t ?l p1 = Some (r2, p2)"
            using run al False ln Line_include ad True
            by (auto simp: pam_parse_conf_file.simps [of e fds f] split: option.splits)
          have "admits ?l (strcaseeq this (asc ''other'')) t (service p1)"
            using g1 True facts keeps_admits [of l "service p" "service p1" l b t] by (auto simp: good_step_def)
          then have "good_step ?l p1 p2" using assms ld facts(1) g1(1) by (auto simp: load_good_def good_step_def)
          then have g2: "good_step l p p2"
            using g1(1) keeps_admitting_le [of ?l "service p1" "service p2" l]
            by (auto simp: good_step_def intro: keeps_admitting_trans)
          show ?thesis
          proof (cases "r2 = PAM_SUCCESS")
            case True': True
            with run al False ln Line_include ad True ld rest [of p2] g2 show ?thesis
              by (simp add: pam_parse_conf_file.simps [of e fds f])
          next
            case False'': False
            obtain res2 p3 where ad2: "pam_add_handler e PAM_HT_MUST_FAIL b l t (pam_set_default_control undef_actions ACTION_BAD)
                None 0 None p2 = Some (res2, p3)"
              using run al False ln Line_include ad True ld False''
              by (auto simp: pam_parse_conf_file.simps [of e fds f] split: option.splits)
            have "good_step l p2 p3"
              using good_step_add(1) [OF ad2] ok(2) g2 keeps_admits [of l "service p" "service p2" l b t] facts(2)
              by (simp add: good_step_def)
            with g2 have "good_step l p p3" by (rule good_step_trans)
            with run al False ln Line_include ad True ld False'' ad2 rest [of p3] show ?thesis
              by (auto simp: pam_parse_conf_file.simps [of e fds f] split: if_splits)
          qed
        qed
      qed
    qed
  qed
qed

lemma parse_good_all: "parse_good e fds f"
proof (induction fds arbitrary: f)
  case 0
  show ?case by (rule parse_goodI, rule load_goodI) simp
next
  case (Suc fds)
  then show ?case by (intro parse_goodI load_goodI) simp
qed

subsection \<open>The whole configuration\<close>

lemma no_stacks [simp]: "get_stack k no_handlers = []"
  by (cases k) (simp_all add: no_handlers_def)

lemma pam_free_handlers_ok: "service_ok (service (pam_free_handlers p))"
  by (simp add: service_ok_def service_stack_def pam_free_handlers_def)

lemma parse_top:
  "pam_parse_conf_file e fds f known req 0 p = Some (r, p') \<Longrightarrow> service_ok (service p) \<Longrightarrow> good_step 0 p p'"
  using parse_good_all [of e fds f] by (fastforce simp: parse_good_def parse_pre_def)

lemma read_service_ok:
  assumes "read_service e name p = Some (r, p')" "service_ok (service p)"
  shows "service_ok (service p') \<and> untouched p' = untouched p"
proof -
  obtain x f p1 where o: "pam_open_config_file e (nofile e) name p = ((x, f), p1)" by (metis surj_pair)
  note s = pam_open_config_file_service [OF o]
  show ?thesis
  proof (cases "x = PAM_SUCCESS")
    case True
    with assms(1) o obtain r' where "pam_parse_conf_file e (nofile e - 1) f (Some name) PAM_T_ANY 0 p1 = Some (r', p')"
      by (auto simp: read_service_def)
    from parse_top [OF this] s assms(2) show ?thesis by (simp add: good_step_def)
  next
    case False
    with assms o s show ?thesis by (simp add: read_service_def)
  qed
qed

lemma read_config_ok:
  assumes "read_config e name p = Some (r, p')" "service_ok (service p)"
  shows "service_ok (service p') \<and> untouched p' = untouched p"
proof (cases "config_dir_present e p")
  case True
  with assms(1) obtain r1 b1 p1 where 1: "read_service e name p = Some ((r1, b1), p1)"
    by (auto simp: read_config_def split: option.splits)
  note s1 = read_service_ok [OF 1 assms(2)]
  show ?thesis
  proof (cases "r1 = PAM_SUCCESS")
    case True': True
    with assms(1) True 1 obtain x where "read_service e (asc ''other'') p1 = Some (x, p')"
      by (auto simp: read_config_def simp del: asc_Cons split: option.splits)
    from read_service_ok [OF this] s1 show ?thesis by simp
  next
    case False
    with assms(1) True 1 s1 show ?thesis by (simp add: read_config_def)
  qed
next
  case False
  with assms show ?thesis
    by (auto simp: read_config_def good_step_def simp del: asc_Cons split: option.splits dest!: parse_top)
qed

theorem pam_init_handlers_ok:
  assumes "pam_init_handlers e p = Some (PAM_SUCCESS, p')" "\<not> handlers_loaded (public p)"
  shows "service_ok (service p')" "handlers_loaded (public p')" "former_choice p' = former_choice p"
    "(public p')\<lparr>allocs := 0, handlers_loaded := False\<rparr> = (public p)\<lparr>allocs := 0\<rparr>"
proof -
  obtain x p1 where h: "halloc e (pam_free_handlers p) = (x, p1)" by force
  let ?p2 = "on_service (\<lambda>s. s\<lparr>modules := Some [], modules_allocated := MODULE_CHUNK\<rparr>) p1"
  have "(public p)\<lparr>handlers_loaded := False\<rparr> = public p" using assms(2) by (cases "public p") simp
  then have "untouched (pam_free_handlers p) = untouched p" by (simp add: pam_free_handlers_def untouched_def)
  moreover have "same_stacks (service (pam_free_handlers p)) (service ?p2)"
    using halloc_service [OF h] by (simp add: same_stacks_def)
  ultimately have ok: "service_ok (service ?p2)" "untouched ?p2 = untouched p"
    using pam_free_handlers_ok [of p] same_stacks_ok halloc_former [OF h] by auto
  obtain name r p3 where n: "x" "service_name (public ?p2) = Some name" "read_config e name ?p2 = Some (r, p3)"
      "r = PAM_SUCCESS" "p' = p3\<lparr>public := (public p3)\<lparr>handlers_loaded := True\<rparr>\<rparr>"
    using assms h by (auto simp: pam_init_handlers_def Let_def split: bool.splits option.splits if_splits)
  have u: "service_ok (service p3)" "untouched p3 = untouched p" using read_config_ok [OF n(3) ok(1)] ok(2) by simp_all
  then show "service_ok (service p')" "handlers_loaded (public p')" "former_choice p' = former_choice p"
    using n(5) by (simp_all add: untouched_def)
  have "(public p3)\<lparr>allocs := 0\<rparr> = (public p)\<lparr>allocs := 0\<rparr>" using u(2) by (simp add: untouched_def)
  then have "(public p3)\<lparr>allocs := 0\<rparr>\<lparr>handlers_loaded := False\<rparr> = (public p)\<lparr>allocs := 0\<rparr>\<lparr>handlers_loaded := False\<rparr>" by simp
  moreover have "(public p)\<lparr>allocs := 0\<rparr>\<lparr>handlers_loaded := False\<rparr> = (public p)\<lparr>allocs := 0\<rparr>"
    using assms(2) by (cases "public p") simp
  ultimately show "(public p')\<lparr>allocs := 0, handlers_loaded := False\<rparr> = (public p)\<lparr>allocs := 0\<rparr>" using n(5) by simp
qed

end
