(* ===== verification/PamFrozen.thy ===== *)
theory PamFrozen
  imports PamWalkThms
begin

text \<open>
  Frozen chains. A run of \<open>setcred\<close> or \<open>close_session\<close> follows the return values that the run of
  \<open>authenticate\<close> or \<open>open_session\<close> left in the cells: it visits the same positions of the stack.
\<close>

text \<open>The positions whose modules are called.\<close>

function walk_route :: "('f, 's) runner \<Rightarrow> freeze \<Rightarrow> nat \<Rightarrow> nat \<Rightarrow> 'f handler list \<Rightarrow> ('f, 's) walk \<Rightarrow> nat list" where
  "walk_route run u d p [] w = []"
| "walk_route run u d p (h # hs) w =
     (case visit run u d p h hs w of
        None \<Rightarrow> []
      | Some (Wait w') \<Rightarrow> [d]
      | Some (Go hs' w') \<Rightarrow>
          (if handler_type h = PAM_HT_SUBSTACK then [] else [d]) @
          walk_route run u (d + 1 + (length hs - length hs')) (stack_level h) hs' w')"
  by pat_completeness auto
termination
  by (relation "measure (\<lambda>(_, _, _, _, hs, _). length hs)") (auto dest: visit_length)

subsection \<open>Paired stacks\<close>

definition paired :: "'f handler \<Rightarrow> 'f handler \<Rightarrow> bool" where
  "paired h g \<longleftrightarrow> handler_type g = handler_type h \<and> actions g = actions h \<and> stack_level g = stack_level h \<and>
     cached_retval_p g = cached_retval h"

abbreviation pairs_with :: "'f handler list \<Rightarrow> 'f handler list \<Rightarrow> bool" where
  "pairs_with \<equiv> list_all2 paired"

lemma paired_level: "paired h g \<Longrightarrow> stack_level g = stack_level h"
  by (simp add: paired_def)

lemma pairs_dropWhile:
  "pairs_with hs gs \<Longrightarrow> pairs_with (dropWhile (\<lambda>x. P (stack_level x)) hs) (dropWhile (\<lambda>x. P (stack_level x)) gs)"
  by (induction rule: list_all2_induct) (auto simp: paired_level)

lemma pairs_jump:
  "pairs_with hs gs \<Longrightarrow> fst (skip_jump l a gs) = fst (skip_jump l a hs) \<and> pairs_with (snd (skip_jump l a hs)) (snd (skip_jump l a gs))"
proof (induction l a hs arbitrary: gs rule: skip_jump.induct)
  case (2 l a h hs)
  then obtain g gs' where g: "gs = g # gs'" "paired h g" "pairs_with hs gs'" by (auto simp: list_all2_Cons1)
  with 2(1) [OF _ pairs_dropWhile [OF g(3), of "\<lambda>n. n > l"]] show ?case by (auto simp: paired_level)
qed simp

subsection \<open>Related walks\<close>

definition imps_match :: "int \<Rightarrow> int \<Rightarrow> bool" where
  "imps_match i j \<longleftrightarrow> i \<in> {IMP_UNDEF, IMP_POSITIVE, IMP_NEGATIVE} \<and> j \<in> {IMP_UNDEF, IMP_POSITIVE, IMP_NEGATIVE} \<and>
     (i = IMP_NEGATIVE \<longleftrightarrow> j = IMP_NEGATIVE) \<and> (i = IMP_POSITIVE \<longrightarrow> j = IMP_POSITIVE)"

definition walks_match :: "('f, 's) walk \<Rightarrow> ('f, 't) walk \<Rightarrow> bool" where
  "walks_match w v \<longleftrightarrow> imps_match (impression w) (impression v) \<and>
     list_all2 (rel_option (\<lambda>a b. imps_match (fst a) (fst b))) (substates w) (substates v)"

lemma enter_level_match:
  assumes "walks_match w v" "enter_level p l w = Some w1"
  obtains v1 where "enter_level p l v = Some v1" "walks_match w1 v1" "w_public v1 = w_public v" "w_cells v1 = w_cells v"
    "w_cells w1 = w_cells w" "w_public w1 = w_public w"
proof (cases "p < l")
  case True
  with assms have l: "l < length (substates w)" "l < length (substates v)"
    "w1 = w\<lparr>substates := (substates w)[l := Some (impression w, status w)]\<rparr>"
    by (auto simp: enter_level_def put_def walks_match_def dest: list_all2_lengthD split: if_splits)
  show ?thesis
    by (rule that [of "v\<lparr>substates := (substates v)[l := Some (impression v, status v)]\<rparr>"])
      (use assms True l in \<open>auto simp: enter_level_def put_def walks_match_def intro!: list_all2_update_cong\<close>)
qed (use assms that in \<open>auto simp: enter_level_def\<close>)

lemma on_ok_fields [simp]:
  "impression (on_ok d r c w) = (if undecided w \<and> (r \<noteq> PAM_IGNORE \<or> c = r) then IMP_POSITIVE else impression w)"
  "substates (on_ok d r c w) = substates w" "w_cells (on_ok d r c w) = w_cells w" "w_public (on_ok d r c w) = w_public w"
  by (auto simp: on_ok_def Let_def)

lemma on_ok_match:
  assumes "walks_match w v" "r2 \<noteq> PAM_IGNORE"
  shows "walks_match (on_ok d r r w) (on_ok d r2 c v)"
    "impression (on_ok d r r w) = IMP_POSITIVE \<longleftrightarrow> impression (on_ok d r2 c v) = IMP_POSITIVE"
proof -
  have "imps_match (impression w) (impression v)" using assms by (simp add: walks_match_def)
  then have "impression (on_ok d r r w) = (if impression w = IMP_NEGATIVE then IMP_NEGATIVE else IMP_POSITIVE)"
    "impression (on_ok d r2 c v) = (if impression w = IMP_NEGATIVE then IMP_NEGATIVE else IMP_POSITIVE)"
    using assms(2) by (auto simp: imps_match_def undecided_def)
  with assms(1) show "walks_match (on_ok d r r w) (on_ok d r2 c v)"
    "impression (on_ok d r r w) = IMP_POSITIVE \<longleftrightarrow> impression (on_ok d r2 c v) = IMP_POSITIVE"
    by (simp_all add: walks_match_def imps_match_def)
qed

lemma on_bad_match: "walks_match w v \<Longrightarrow> walks_match (on_bad r w) (on_bad r2 v)"
  by (auto simp: on_bad_def walks_match_def imps_match_def)

lemma on_jump_match: "walks_match w v \<Longrightarrow> r2 \<noteq> PAM_IGNORE \<Longrightarrow> walks_match w (on_cached_jump d r2 c v)"
  by (auto simp: on_cached_jump_def walks_match_def imps_match_def undecided_def)

lemma bad_jump_match: "walks_match w v \<Longrightarrow> walks_match (bad_jump w) (bad_jump v)"
  by (auto simp: bad_jump_def walks_match_def imps_match_def)

lemma reset_match:
  assumes "walks_match w v" "at (substates w) l = Some (Some (i, s))"
  obtains j t where "at (substates v) l = Some (Some (j, t))" "walks_match (w\<lparr>impression := i, status := s\<rparr>) (v\<lparr>impression := j, status := t\<rparr>)"
proof -
  have l: "l < length (substates w)" "l < length (substates v)" "substates w ! l = Some (i, s)"
    using at_SomeD [OF assms(2)] assms(1) list_all2_lengthD by (fastforce simp: walks_match_def)+
  then have "rel_option (\<lambda>a b. imps_match (fst a) (fst b)) (Some (i, s)) (substates v ! l)"
    using assms(1) unfolding walks_match_def by (metis list_all2_nthD)
  then obtain j t where "substates v ! l = Some (j, t)" "imps_match i j"
    by (auto simp: option_rel_Some1)
  then show ?thesis using l assms(1) that by (simp add: walks_match_def)
qed

lemma after_action_match:
  assumes "walks_match w v" "pairs_with hs gs" "r2 \<noteq> PAM_IGNORE"
    "c0 = r \<or> a = ACTION_BAD" "after_action PLEASE_FREEZE d l a r c0 hs w = Some (hs', w')"
  obtains gs' v' where "after_action MAY_BE_FROZEN d l a r2 c gs v = Some (gs', v')" "walks_match w' v'" "pairs_with hs' gs'"
proof -
  note skip = pairs_dropWhile [OF assms(2), of "\<lambda>n. n \<ge> l"]
  have "a = ACTION_RESET \<or> a = ACTION_OK \<or> a = ACTION_DONE \<or> a = ACTION_BAD \<or> a = ACTION_DIE \<or> a = ACTION_IGNORE \<or>
      a > 0 \<or> a < ACTION_RESET" by presburger
  then consider "a = ACTION_RESET" | "a = ACTION_OK" | "a = ACTION_DONE" | "a = ACTION_BAD" | "a = ACTION_DIE" | "a = ACTION_IGNORE"
    | "a > 0" | "a < ACTION_RESET" by blast
  then show ?thesis
  proof cases
    case 1
    with assms(5) obtain i s where "at (substates w) l = Some (Some (i, s))" "hs' = hs" "w' = w\<lparr>impression := i, status := s\<rparr>"
      by (auto simp: after_action_def split: bind_splits)
    from reset_match [OF assms(1) this(1)] obtain j t where j: "at (substates v) l = Some (Some (j, t))"
      "walks_match (w\<lparr>impression := i, status := s\<rparr>) (v\<lparr>impression := j, status := t\<rparr>)" .
    show ?thesis
      by (rule that [of gs "v\<lparr>impression := j, status := t\<rparr>"])
        (use 1 j assms(2) \<open>hs' = hs\<close> \<open>w' = _\<close> in \<open>simp_all add: after_action_def\<close>)
  next
    case 2
    with assms(4,5) have "hs' = hs" "w' = on_ok d r r w" by (simp_all add: after_action_def Let_def)
    with 2 show ?thesis
      using that [of gs "on_ok d r2 c v"] on_ok_match [OF assms(1,3), of d r c] assms(2) by (simp add: after_action_def Let_def)
  next
    case 3
    then have "hs' = (if impression (on_ok d r r w) = IMP_POSITIVE then skip_level l hs else hs)" "w' = on_ok d r r w"
      using assms(4,5) 3 by (auto simp: after_action_def Let_def)
    moreover have "after_action MAY_BE_FROZEN d l a r2 c gs v =
        Some (if impression (on_ok d r2 c v) = IMP_POSITIVE then skip_level l gs else gs, on_ok d r2 c v)"
      using 3 by (simp add: after_action_def Let_def)
    ultimately show ?thesis
      using on_ok_match [OF assms(1,3), of d r c] that skip assms(2) by (auto simp: skip_level_def simp del: on_ok_fields)
  next
    case 4
    with assms(5) have "hs' = hs" "w' = on_bad r w" by (simp_all add: after_action_def)
    with 4 show ?thesis using that [of gs "on_bad r2 v"] on_bad_match [OF assms(1)] assms(2) by (simp add: after_action_def)
  next
    case 5
    with assms(5) have "hs' = skip_level l hs" "w' = on_bad r w" by (simp_all add: after_action_def)
    with 5 show ?thesis
      using that [of "skip_level l gs" "on_bad r2 v"] on_bad_match [OF assms(1)] skip by (simp add: after_action_def skip_level_def)
  next
    case 6
    with assms(5) have "hs' = hs" "w' = w" by (simp_all add: after_action_def)
    with 6 show ?thesis using that [of gs v] assms(1,2) by (simp add: after_action_def)
  next
    case 7
    obtain n ks where ks: "skip_jump l a hs = (n, ks)" by force
    then obtain js where js: "skip_jump l a gs = (n, js)" "pairs_with ks js"
      using pairs_jump [OF assms(2), of l a] by (cases "skip_jump l a gs") auto
    have m: "walks_match w (on_cached_jump d r2 c v)" by (rule on_jump_match [OF assms(1,3)])
    have "hs' = ks" "w' = (if n \<noteq> 0 then bad_jump w else w)"
      using assms(5) 7 by (auto simp: after_action_def Let_def ks)
    moreover have "after_action MAY_BE_FROZEN d l a r2 c gs v =
        Some (js, if n \<noteq> 0 then bad_jump (on_cached_jump d r2 c v) else on_cached_jump d r2 c v)"
      using 7 by (simp add: after_action_def Let_def js)
    ultimately show ?thesis using that js(2) m bad_jump_match [OF m] by auto
  next
    case 8
    with assms(5) have "hs' = hs" "w' = bad_jump w" by (simp_all add: after_action_def)
    with 8 show ?thesis using that [of gs "bad_jump v"] bad_jump_match [OF assms(1)] assms(2) by (simp add: after_action_def)
  qed
qed

subsection \<open>The cells of a freezing run\<close>

lemma after_action_cells: "after_action u d l a r c hs w = Some (hs', w') \<Longrightarrow> w_cells w' = w_cells w"
  by (auto simp: after_action_def Let_def on_bad_def on_cached_jump_def bad_jump_def split: if_splits prod.splits bind_splits)

lemma enter_level_fields:
  "enter_level p l w = Some w1 \<Longrightarrow> w_cells w1 = w_cells w \<and> w_public w1 = w_public w \<and> impression w1 = impression w \<and> status w1 = status w"
  by (auto simp: enter_level_def split: if_splits)

lemma visit_cells:
  assumes "visit run PLEASE_FREEZE d p h hs w = Some (Go hs' w')" "i \<noteq> cached_retval h"
  shows "w_cells w' ! i = w_cells w ! i"
  using assms(1)
proof (cases rule: visit_GoE)
  case (called w1 r s c cs ret a)
  then show ?thesis
    using assms(2) by (auto simp: cached_value_def dest!: after_action_cells enter_level_fields put_SomeD split: bind_splits)
qed (auto dest: enter_level_fields)

lemma walk_cells:
  "walk_loop run PLEASE_FREEZE sk d p hs w = Some (Finished w') \<Longrightarrow> i \<notin> cached_retval ` set hs \<Longrightarrow>
   w_cells w' ! i = w_cells w ! i"
proof (induction run PLEASE_FREEZE sk d p hs w rule: walk_loop.induct)
  case (2 run sk d p h hs w)
  show ?case
  proof (cases "d < sk")
    case False
    with 2(3) obtain hs' w1 where v: "visit run PLEASE_FREEZE d p h hs w = Some (Go hs' w1)"
        "walk_loop run PLEASE_FREEZE sk (d + 1 + (length hs - length hs')) (stack_level h) hs' w1 = Some (Finished w')"
      by (auto split: option.splits turn.splits)
    then have "w_cells w' ! i = w_cells w1 ! i" using 2(2) [OF False v(1) refl v(2)] visit_set [OF v(1)] 2(4) by auto
    then show ?thesis using visit_cells [OF v(1)] 2(4) by simp
  qed (use 2 in auto)
qed simp

lemma walk_cells_length:
  "walk_loop run PLEASE_FREEZE sk d p hs w = Some (Finished w') \<Longrightarrow> length (w_cells w') = length (w_cells w)"
proof (induction run PLEASE_FREEZE sk d p hs w rule: walk_loop.induct)
  case (2 run sk d p h hs w)
  have "length (w_cells w1) = length (w_cells w)" if "visit run PLEASE_FREEZE d p h hs w = Some (Go hs' w1)" for hs' w1
    using that
    by (rule visit_GoE) (auto simp: cached_value_def dest!: after_action_cells enter_level_fields put_SomeD split: bind_splits)
  with 2 show ?case by (auto split: if_splits option.splits turn.splits)
qed simp

subsection \<open>Following the chain\<close>

text \<open>The modules of the second run neither ask to be ignored nor to be called again.\<close>

definition definite :: "('f, 's) runner \<Rightarrow> bool" where
  "definite run \<longleftrightarrow> (\<forall>f n k a s. fst (run f n k a s) \<noteq> PAM_IGNORE \<and> fst (run f n k a s) \<noteq> PAM_INCOMPLETE)"

text \<open>The modules of the first run do not return the value that marks an empty cell.\<close>

definition marks_cells :: "('f, 's) runner \<Rightarrow> bool" where
  "marks_cells run \<longleftrightarrow> (\<forall>f n k a s. fst (run f n k a s) \<noteq> INVALID_RETVAL)"

lemma definite_retval: "definite run \<Longrightarrow> module_retval run h s = (r, s') \<Longrightarrow> r \<noteq> PAM_IGNORE \<and> r \<noteq> PAM_INCOMPLETE"
  by (auto simp: definite_def module_retval_def split: if_splits option.splits) (metis fst_conv)+

lemma marks_retval: "marks_cells run \<Longrightarrow> module_retval run h s = (r, s') \<Longrightarrow> r \<noteq> INVALID_RETVAL"
  by (auto simp: marks_cells_def module_retval_def split: if_splits option.splits) (metis fst_conv)

lemma visit_match:
  fixes w :: "('f, 's) walk" and v :: "('f, 't) walk"
  assumes "visit run PLEASE_FREEZE d p h hs w = Some (Go hs' w')" "walks_match w v" "paired h g" "pairs_with hs gs"
    "marks_cells run" "definite run2" "handler_type h \<noteq> PAM_HT_SUBSTACK \<Longrightarrow> at (w_cells v) (cached_retval h) = Some (w_cells w' ! cached_retval h)"
  obtains gs' v' where "visit run2 MAY_BE_FROZEN d p g gs v = Some (Go gs' v')" "walks_match w' v'" "pairs_with hs' gs'"
    "w_cells v' = w_cells v"
  using assms(1)
proof (cases rule: visit_GoE)
  case substack
  obtain v1 where "enter_level p (stack_level h) v = Some v1" "walks_match w' v1" "w_cells v1 = w_cells v"
    using enter_level_match [OF assms(2) substack(3)] by metis
  then show ?thesis using that [of gs v1] substack(1,2) assms(3,4) by (simp add: visit_def paired_def)
next
  case (called w1 r s c cs ret a)
  have c: "c = r" "r \<noteq> INVALID_RETVAL" "cached_retval h < length (w_cells w1)" "cs = (w_cells w1)[cached_retval h := r]"
    using called(5) marks_retval [OF assms(5) called(3)]
    by (auto simp: cached_value_def dest: put_SomeD split: bind_splits)
  then have cell: "at (w_cells v) (cached_retval h) = Some r"
    using assms(7) [OF called(2)] after_action_cells [OF called(7)] by simp
  obtain v1 where v1: "enter_level p (stack_level h) v = Some v1" "walks_match w1 v1" "w_cells v1 = w_cells v"
    using enter_level_match [OF assms(2) called(1)] by metis
  obtain r2 s2 where r2: "module_retval run2 g (w_public v1) = (r2, s2)" by force
  note d = definite_retval [OF assms(6) r2]
  obtain ret2 where ret2: "action_of g r2 r = Some (ret2, a)" "ret2 \<noteq> PAM_IGNORE"
    using called(6) c(1) d assms(3) by (auto simp: action_of_def paired_def split: if_splits)
  have m: "walks_match (w1\<lparr>w_public := s, w_cells := cs\<rparr>) (v1\<lparr>w_public := s2\<rparr>)"
    using v1(2) by (simp add: walks_match_def)
  have "c = ret \<or> a = ACTION_BAD" using called(6) c(1) by (auto simp: action_of_def split: if_splits)
  from after_action_match [OF m assms(4) ret2(2) this called(7), of r] obtain gs' v' where
    a: "after_action MAY_BE_FROZEN d (stack_level h) a ret2 r gs (v1\<lparr>w_public := s2\<rparr>) = Some (gs', v')"
       "walks_match w' v'" "pairs_with hs' gs'" .
  have "cached_value MAY_BE_FROZEN g r2 (w_cells v) = Some (r, w_cells v)"
    using cell c(2) assms(3) by (simp add: cached_value_def paired_def)
  moreover have "after_action MAY_BE_FROZEN d (stack_level h) a ret2 r gs (v1\<lparr>w_public := s2, w_cells := w_cells v\<rparr>) =
      Some (gs', v')"
    using a(1) v1(3) by (cases v1) simp
  ultimately have "visit run2 MAY_BE_FROZEN d p g gs v = Some (Go gs' v')"
    using a v1 r2 d ret2(1) called(2) assms(3) by (simp add: visit_def paired_def)
  then show ?thesis using a that after_action_cells [OF a(1)] v1(3) by simp
qed

theorem frozen_walk:
  fixes w :: "('f, 's) walk" and v :: "('f, 't) walk"
  assumes "walk_loop run PLEASE_FREEZE 0 d p hs w = Some (Finished w')" "walks_match w v" "pairs_with hs gs"
    "marks_cells run" "definite run2" "distinct (map cached_retval hs)" "w_cells v = w_cells w'"
  shows "walk_route run2 MAY_BE_FROZEN d p gs v = walk_route run PLEASE_FREEZE d p hs w \<and>
    (\<exists>v'. walk_loop run2 MAY_BE_FROZEN 0 d p gs v = Some (Finished v'))"
  using assms
proof (induction run PLEASE_FREEZE "0 :: nat" d p hs w arbitrary: gs v rule: walk_loop.induct)
  case (2 run d p h hs w)
  obtain g gs1 where g: "gs = g # gs1" "paired h g" "pairs_with hs gs1" using 2(5) by (auto simp: list_all2_Cons1)
  from 2(3) obtain hs' w1 where v: "visit run PLEASE_FREEZE d p h hs w = Some (Go hs' w1)"
      "walk_loop run PLEASE_FREEZE 0 (d + 1 + (length hs - length hs')) (stack_level h) hs' w1 = Some (Finished w')"
    by (auto split: option.splits turn.splits)
  obtain ks where ks: "hs = ks @ hs'" using visit_passes_over [OF v(1)] by (auto simp: passes_over_def)
  have dist: "cached_retval h \<notin> cached_retval ` set hs'" "distinct (map cached_retval hs')"
    using 2(8) ks by auto
  have "at (w_cells v) (cached_retval h) = Some (w_cells w1 ! cached_retval h)" if "handler_type h \<noteq> PAM_HT_SUBSTACK"
    using v(1) that
  proof (cases rule: visit_GoE)
    case (called u r s c cs ret a)
    then have "cached_retval h < length (w_cells w1)"
      using after_action_cells [OF called(7)] by (auto simp: cached_value_def dest!: put_SomeD split: bind_splits)
    then show ?thesis
      using 2(9) walk_cells [OF v(2) dist(1)] walk_cells_length [OF v(2)] by simp
  qed simp
  from visit_match [OF v(1) 2(4) g(2,3) 2(6,7) this] obtain gs' v1 where
    g': "visit run2 MAY_BE_FROZEN d p g gs1 v = Some (Go gs' v1)" "walks_match w1 v1" "pairs_with hs' gs'" "w_cells v1 = w_cells v"
    by blast
  have "length gs' = length hs'" "length gs1 = length hs" using g(3) g'(3) by (auto dest: list_all2_lengthD)
  moreover note 2(2) [OF _ v(1) refl v(2) g'(2,3) 2(6,7) dist(2)]
  ultimately show ?case using g g' 2(9) v(1) by (auto simp: paired_def)
qed simp

end
