(* ===== verification/PamDispatchThms.thy ===== *)
theory PamDispatchThms
  imports PamDispatch PamConfThms PamFrozen
begin

text \<open>
  The dispatcher: success is the answer of a module, an interrupted call goes on as if it had not been
  interrupted, and no call reads a substack state that was not written.
\<close>

subsection \<open>What a walk leaves unchanged\<close>

definition shape :: "('f, 's) walk \<Rightarrow> 'f handler list \<times> nat" where
  "shape w = (pam_clear_grantors (w_stack w), length (w_cells w))"

lemma clear_set_grantor: "pam_clear_grantors (w_stack (set_grantor d w)) = pam_clear_grantors (w_stack w)"
proof -
  have "(map (grantor_update (\<lambda>_. False)) xs)[d := grantor_update (\<lambda>_. False) (xs ! d)] = map (grantor_update (\<lambda>_. False)) xs"
    for xs :: "'a handler list"
    by (cases "d < length xs") (simp_all add: list_update_beyond nth_map [symmetric] del: nth_map)
  then show ?thesis by (simp add: set_grantor_def pam_clear_grantors_def map_update)
qed

lemma shape_simps [simp]:
  "shape (w\<lparr>impression := i\<rparr>) = shape w" "shape (w\<lparr>status := s\<rparr>) = shape w" "shape (w\<lparr>substates := b\<rparr>) = shape w"
  "shape (w\<lparr>w_public := p\<rparr>) = shape w" "shape (set_grantor d w) = shape w"
  by (simp_all add: shape_def clear_set_grantor)

lemma shape_on_ok [simp]: "shape (on_ok d r c w) = shape w"
  by (simp add: on_ok_def Let_def)

lemma after_action_shape: "after_action u d l a r c hs w = Some (hs', w') \<Longrightarrow> shape w' = shape w \<and> w_public w' = w_public w"
  by (auto simp: after_action_def Let_def on_bad_def on_cached_jump_def bad_jump_def split: if_splits prod.splits bind_splits)

lemma enter_level_shape: "enter_level p l w = Some w' \<Longrightarrow> shape w' = shape w \<and> w_public w' = w_public w"
  by (auto simp: enter_level_def split: if_splits)

lemma cached_value_length: "cached_value u h r cs = Some (c, cs') \<Longrightarrow> length cs' = length cs"
  by (auto simp: cached_value_def dest: put_SomeD split: bind_splits if_splits)

text \<open>A predicate that every module keeps is kept by a walk.\<close>

definition kept :: "('f, 's) runner \<Rightarrow> ('s \<Rightarrow> bool) \<Rightarrow> bool" where
  "kept run P \<longleftrightarrow> (\<forall>f n k a s. P s \<longrightarrow> P (snd (run f n k a s)))"

lemma kept_module: "kept run P \<Longrightarrow> P s \<Longrightarrow> module_retval run h s = (r, s') \<Longrightarrow> P s'"
  by (auto simp: kept_def module_retval_def split: if_splits option.splits) (metis snd_conv)

fun turn_walk :: "('f, 's) turn \<Rightarrow> ('f, 's) walk" where
  "turn_walk (Wait w) = w"
| "turn_walk (Go hs w) = w"

lemma visit_shape:
  assumes "visit run u d p h hs w = Some t" "kept run P"
  shows "shape (turn_walk t) = shape w \<and> (P (w_public w) \<longrightarrow> P (w_public (turn_walk t)))"
proof (cases t)
  case (Wait w')
  with assms(1) have "visit run u d p h hs w = Some (Wait w')" by simp
  then show ?thesis
    by (rule visit_WaitE) (use Wait assms(2) in \<open>auto dest!: enter_level_shape dest: kept_module\<close>)
next
  case (Go hs' w')
  with assms(1) have "visit run u d p h hs w = Some (Go hs' w')" by simp
  then show ?thesis
  proof (cases rule: visit_GoE)
    case substack
    then show ?thesis using Go by (auto dest!: enter_level_shape)
  next
    case (called w1 r s c cs ret a)
    then have "shape (w1\<lparr>w_public := s, w_cells := cs\<rparr>) = shape w1"
      by (auto simp: shape_def dest: cached_value_length)
    then show ?thesis
      using after_action_shape [OF called(7)] enter_level_shape [OF called(1)] kept_module [OF assms(2) _ called(3)] Go by auto
  qed
qed

lemma walk_shape:
  "walk_loop run u sk d p hs w = Some t \<Longrightarrow> kept run P \<Longrightarrow>
     shape (stop_walk t) = shape w \<and> (P (w_public w) \<longrightarrow> P (w_public (stop_walk t)))"
proof (induction run u sk d p hs w rule: walk_loop.induct)
  case (2 run u sk d p h hs w)
  show ?case
  proof (cases "d < sk")
    case True
    with 2 show ?thesis by simp
  next
    case False
    with 2(3) obtain v where v: "visit run u d p h hs w = Some v" by (auto split: option.splits)
    from visit_shape [OF this 2(4)] show ?thesis
      using 2(2) [OF False v] 2(3,4) False v by (cases v) auto
  qed
qed auto

subsection \<open>Stacks up to their grantor marks\<close>

lemma clear_levelled: "levelled m (pam_clear_grantors hs) = levelled m hs"
  by (induction hs arbitrary: m) (auto simp: pam_clear_grantors_def next_level_def)

lemma clear_handlers: "(\<forall>h\<in>set (pam_clear_grantors hs). handler_ok n h) = (\<forall>h\<in>set hs. handler_ok n h)"
  by (auto simp: pam_clear_grantors_def handler_ok_def)

lemma clear_length [simp]: "length (pam_clear_grantors hs) = length hs" "pam_clear_grantors hs = [] \<longleftrightarrow> hs = []"
  by (simp_all add: pam_clear_grantors_def)

lemma clear_clear [simp]: "pam_clear_grantors (pam_clear_grantors hs) = pam_clear_grantors hs"
  by (simp add: pam_clear_grantors_def)

lemma clear_level_nth: "pam_clear_grantors hs = pam_clear_grantors gs \<Longrightarrow> k < length hs \<Longrightarrow> stack_level (hs ! k) = stack_level (gs ! k)"
proof -
  assume eq: "pam_clear_grantors hs = pam_clear_grantors gs" and k: "k < length hs"
  then have "length hs = length gs" by (metis clear_length(1))
  moreover have "stack_level (pam_clear_grantors hs ! k) = stack_level (pam_clear_grantors gs ! k)" by (simp add: eq)
  ultimately show ?thesis using k by (simp add: pam_clear_grantors_def)
qed

lemma service_ok_update:
  assumes "service_ok s" "pam_clear_grantors hs = pam_clear_grantors (service_stack b k s)" "length cs = length (cells s)"
  shows "service_ok (update_stack b k hs (s\<lparr>cells := cs\<rparr>))"
proof -
  have "levelled 0 hs \<and> (\<forall>h\<in>set hs. handler_ok (length cs) h)"
    using assms clear_levelled [of 0 hs] clear_levelled [of 0 "service_stack b k s"] clear_handlers [of hs "length cs"]
      clear_handlers [of "service_stack b k s" "length cs"] by (simp add: service_ok_def)
  then show ?thesis using assms(1,3) by (auto simp: service_ok_def)
qed

subsection \<open>The handle\<close>

text \<open>The saved state of an interrupted walk over a stack.\<close>

definition saved_ok :: "'f handler list \<Rightarrow> ('f, 'w, 'd) pam_handle \<Rightarrow> bool" where
  "saved_ok hs p \<longleftrightarrow>
     (\<exists>sub. former_substates p = Some sub \<and> former_depth p < length hs \<and> written (stack_level (hs ! former_depth p)) sub \<and>
        former_status p \<noteq> PAM_INCOMPLETE \<and> (\<forall>q. Some q \<in> set sub \<longrightarrow> snd q \<noteq> PAM_INCOMPLETE))"

text \<open>A handle whose service is well-formed and whose interrupted run, if there is one, stopped at a
  position of the stack that is still the one to walk.\<close>

definition handle_ok :: "('f, 'w, 'd) pam_handle \<Rightarrow> bool" where
  "handle_ok p \<longleftrightarrow> handlers_loaded (public p) \<and> service_ok (service p) \<and>
     (former_choice p \<noteq> PAM_NOT_STACKED \<longrightarrow>
        (\<exists>k u. choice_stack (former_choice p) = Some (k, u) \<and> saved_ok (service_stack (chosen_other k (service p)) k (service p)) p))"

text \<open>Modules do not make the library load another service while a stack is walked.\<close>

definition keeps_service :: "('f, 'w, 'd) platform \<Rightarrow> bool" where
  "keeps_service e \<longleftrightarrow> (\<forall>flags. kept (\<lambda>f. call_module e f flags) handlers_loaded)"

lemma fresh_ready: "levelled 0 hs \<Longrightarrow> \<forall>h\<in>set hs. handler_ok (length cs) h \<Longrightarrow> ready 0 hs (initial_walk hs cs s)"
  by (cases hs) (auto simp: ready_def initial_walk_def written_def fresh_substates_def)

lemma service_stack_other [simp]: "service_stack b k (s\<lparr>modules := m\<rparr>) = service_stack b k s"
  by (simp add: service_stack_def)

lemma chosen_other_update:
  assumes "pam_clear_grantors hs = pam_clear_grantors (service_stack (chosen_other k s) k s)"
  shows "chosen_other k (update_stack (chosen_other k s) k hs (s\<lparr>cells := cs\<rparr>)) = chosen_other k s"
proof -
  have e: "hs = [] \<longleftrightarrow> service_stack (chosen_other k s) k s = []" using assms by (metis clear_length(2))
  show ?thesis
  proof (cases "chosen_other k s")
    case True
    then show ?thesis by (simp add: update_stack_def chosen_other_def)
  next
    case False
    with e show ?thesis by (simp add: update_stack_def chosen_other_def service_stack_def)
  qed
qed

lemma store_walk_ok:
  assumes "service_ok (service p)" "shape w = (pam_clear_grantors (service_stack b k (service p)), length (cells (service p)))"
    "b = chosen_other k (service p)"
  shows "service_ok (service (store_walk b k w p))" "chosen_other k (service (store_walk b k w p)) = b"
    "service_stack b k (service (store_walk b k w p)) = w_stack w"
proof -
  have s: "pam_clear_grantors (w_stack w) = pam_clear_grantors (service_stack b k (service p))" "length (w_cells w) = length (cells (service p))"
    using assms(2) by (simp_all add: shape_def)
  show "service_ok (service (store_walk b k w p))"
    using service_ok_update [OF assms(1) s] by (simp add: store_walk_def)
  show "chosen_other k (service (store_walk b k w p)) = b"
    using chosen_other_update [of "w_stack w" k "service p" "w_cells w"] s(1) assms(3) by (simp add: store_walk_def)
  show "service_stack b k (service (store_walk b k w p)) = w_stack w"
    by (simp add: store_walk_def)
qed

text \<open>The start of a walk: its stack, cells and public part are those of the handle.\<close>

lemma start_walk_cases:
  assumes "start_walk e resumed hs p = (sw, p1)"
  shows "service p1 = service p \<and>
    (\<forall>skip w. sw = Some (skip, w) \<longrightarrow> w_stack w = hs \<and> w_cells w = cells (service p) \<and>
       handlers_loaded (w_public w) = handlers_loaded (public p) \<and>
       (resumed \<longrightarrow> skip = former_depth p \<and> (\<forall>sub. former_substates p = Some sub \<longrightarrow> substates w = sub)) \<and>
       (\<not> resumed \<longrightarrow> skip = 0 \<and> (\<exists>s. w = initial_walk hs (cells (service p)) s)))"
proof (cases resumed)
  case True
  with assms show ?thesis by (auto simp: start_walk_def)
next
  case False
  obtain x p2 where h: "halloc e p = (x, p2)" by force
  then have "service p2 = service p" "handlers_loaded (public p2) = handlers_loaded (public p)"
    by (auto simp: halloc_def malloc_def split: prod.splits)
  with assms False h show ?thesis by (cases x) (auto simp: start_walk_def initial_walk_def)
qed

lemma initial_avoids: "(IMP_UNDEF, PAM_MUST_FAIL_CODE) \<notin> B \<Longrightarrow> avoids B (initial_walk hs cs s)"
  using set_update_subset_insert [of "replicate PAM_SUBSTACK_MAX_LEVEL None" 0 "Some (IMP_UNDEF, PAM_MUST_FAIL_CODE)"]
  by (auto simp: avoids_def initial_walk_def fresh_substates_def)

lemma start_walk_avoids:
  assumes "start_walk e resumed hs p = (Some (skip, w), p1)" "resumed \<Longrightarrow> saved_ok hs p"
  shows "avoids unfinished w"
proof (cases resumed)
  case True
  then obtain sub where "former_substates p = Some sub" "former_status p \<noteq> PAM_INCOMPLETE"
      "\<forall>q. Some q \<in> set sub \<longrightarrow> snd q \<noteq> PAM_INCOMPLETE"
    using assms(2) by (auto simp: saved_ok_def)
  moreover have "w = \<lparr>impression = former_impression p, status = former_status p,
      substates = (case former_substates p of None \<Rightarrow> [] | Some sub \<Rightarrow> sub),
      w_cells = cells (service p), w_stack = hs, w_public = public p\<rparr>"
    using assms(1) True by (simp add: start_walk_def)
  ultimately show ?thesis by (simp add: avoids_def)
next
  case False
  then obtain s where "w = initial_walk hs (cells (service p)) s" using start_walk_cases [OF assms(1)] by auto
  then show ?thesis using initial_avoids [of unfinished hs "cells (service p)" s] by simp
qed

lemma start_walk_ends:
  assumes "service_ok (service p)" "start_walk e resumed (service_stack b k (service p)) p = (Some (skip, w), p1)"
    "resumed \<Longrightarrow> saved_ok (service_stack b k (service p)) p"
  shows "\<exists>t. walk_loop run u skip 0 0 (service_stack b k (service p)) w = Some t \<and>
    (\<forall>d w'. t = Incomplete d w' \<longrightarrow> d < length (service_stack b k (service p)) \<and>
       written (stack_level (service_stack b k (service p) ! d)) (substates w'))"
proof -
  let ?hs = "service_stack b k (service p)"
  have hs: "levelled 0 ?hs" "\<forall>h\<in>set ?hs. handler_ok (length (cells (service p))) h" using assms(1) by (auto simp: service_ok_def)
  note sw = start_walk_cases [OF assms(2)]
  show ?thesis
  proof (cases resumed)
    case True
    then obtain sub where d: "skip < length ?hs" "substates w = sub" "written (stack_level (?hs ! skip)) sub" "w_cells w = cells (service p)"
      using sw assms(3) by (auto simp: saved_ok_def)
    then obtain q where "ready q (drop skip ?hs) w" "walk_loop run u skip 0 0 ?hs w = walk_loop run u 0 skip q (drop skip ?hs) w"
      using resume_ready [OF hs(1), of skip w] hs(2) by metis
    with walk_ends [of q skip ?hs w run u] d(1) show ?thesis by simp
  next
    case False
    then have "skip = 0" "ready 0 (drop 0 ?hs) w" using sw fresh_ready [OF hs] by auto
    with walk_ends [of 0 0 ?hs w run u] show ?thesis by simp
  qed
qed

lemma halloc_loaded: "halloc e p = (x, p') \<Longrightarrow> handlers_loaded (public p') = handlers_loaded (public p)"
  by (auto simp: halloc_def malloc_def)

lemma start_walk_loaded:
  assumes "start_walk e resumed hs p = (sw, p1)"
  shows "handlers_loaded (public p1) = handlers_loaded (public p)"
proof (cases resumed)
  case True
  with assms show ?thesis by (auto simp: start_walk_def)
next
  case False
  obtain x p2 where h: "halloc e p = (x, p2)" by force
  then have "p1 = p2" using assms False by (cases x) (simp_all add: start_walk_def)
  with halloc_loaded [OF h] show ?thesis by simp
qed

text \<open>The three ways in which \<open>_pam_dispatch_aux\<close> ends.\<close>

lemma pam_dispatch_aux_eqs:
  "service_stack b k (service p) = [] \<Longrightarrow> pam_dispatch_aux e flags b k resumed u p = Some (PAM_MUST_FAIL_CODE, p)"
  "service_stack b k (service p) \<noteq> [] \<Longrightarrow> start_walk e resumed (service_stack b k (service p)) p = (None, p1) \<Longrightarrow>
     pam_dispatch_aux e flags b k resumed u p = Some (PAM_BUF_ERR, p1)"
  "service_stack b k (service p) \<noteq> [] \<Longrightarrow> start_walk e resumed (service_stack b k (service p)) p = (Some (skip, w), p1) \<Longrightarrow>
     walk_loop (\<lambda>f. call_module e f flags) u skip 0 0 (service_stack b k (service p)) w = Some (Incomplete d w') \<Longrightarrow>
     pam_dispatch_aux e flags b k resumed u p = Some (PAM_INCOMPLETE, save_former d w' (store_walk b k w' p1))"
  "service_stack b k (service p) \<noteq> [] \<Longrightarrow> start_walk e resumed (service_stack b k (service p)) p = (Some (skip, w), p1) \<Longrightarrow>
     walk_loop (\<lambda>f. call_module e f flags) u skip 0 0 (service_stack b k (service p)) w = Some (Finished w') \<Longrightarrow>
     pam_dispatch_aux e flags b k resumed u p = Some (sanity_check w', store_walk b k w' p1)"
  by (simp_all add: pam_dispatch_aux_def Let_def)

lemma store_fields [simp]:
  "service (save_former d w p) = service p" "public (save_former d w p) = public p"
  "public (store_walk b k w p) = w_public w"
  by (simp_all add: save_former_def store_walk_def)

text \<open>What the walk of a dispatch on a well-formed handle leaves behind.\<close>

definition aux_post :: "bool \<Rightarrow> stack_id \<Rightarrow> int \<times> ('f, 'w, 'd) pam_handle \<Rightarrow> bool" where
  "aux_post b k rp \<longleftrightarrow> service_ok (service (snd rp)) \<and> handlers_loaded (public (snd rp)) \<and> chosen_other k (service (snd rp)) = b \<and>
     (fst rp = PAM_INCOMPLETE \<longrightarrow> saved_ok (service_stack b k (service (snd rp))) (snd rp))"

lemma walk_post:
  assumes "service_ok (service p)" "b = chosen_other k (service p)" "handlers_loaded (w_public w)"
    "kept run handlers_loaded" "w_stack w = service_stack b k (service p)" "w_cells w = cells (service p)"
    "service p1 = service p" "avoids unfinished w" "walk_loop run u skip 0 0 (service_stack b k (service p)) w = Some t"
  shows "\<And>w'. t = Finished w' \<Longrightarrow> aux_post b k (sanity_check w', store_walk b k w' p1)"
    "\<And>d w'. t = Incomplete d w' \<Longrightarrow> d < length (service_stack b k (service p)) \<Longrightarrow>
       written (stack_level (service_stack b k (service p) ! d)) (substates w') \<Longrightarrow>
       aux_post b k (PAM_INCOMPLETE, save_former d w' (store_walk b k w' p1))"
proof -
  let ?hs = "service_stack b k (service p)"
  have sh: "shape (stop_walk t) = (pam_clear_grantors ?hs, length (cells (service p)))" "handlers_loaded (w_public (stop_walk t))"
    using walk_shape [OF assms(9,4)] assms(3,5,6) by (simp_all add: shape_def)
  have ok: "service_ok (service (store_walk b k (stop_walk t) p1))" "chosen_other k (service (store_walk b k (stop_walk t) p1)) = b"
      "service_stack b k (service (store_walk b k (stop_walk t) p1)) = w_stack (stop_walk t)"
    using store_walk_ok [of p1 "stop_walk t" b k] assms(1,2,7) sh(1) by simp_all
  note av = walk_finished [OF assms(9,8)]
  have cl: "pam_clear_grantors (w_stack (stop_walk t)) = pam_clear_grantors ?hs" using sh(1) by (simp add: shape_def)
  then have len: "length (w_stack (stop_walk t)) = length ?hs" by (metis clear_length(1))
  show "aux_post b k (sanity_check w', store_walk b k w' p1)" if "t = Finished w'" for w'
    using that ok(1,2) sh(2) finished_sanity [OF av] by (simp add: aux_post_def)
  show "aux_post b k (PAM_INCOMPLETE, save_former d w' (store_walk b k w' p1))"
    if "t = Incomplete d w'" "d < length ?hs" "written (stack_level (?hs ! d)) (substates w')" for d w'
  proof -
    have "saved_ok (w_stack w') (save_former d w' (store_walk b k w' p1))"
      using that len clear_level_nth [OF cl, of d] av by (simp add: saved_ok_def save_former_def avoids_def)
    then show ?thesis using that(1) ok sh(2) by (simp add: aux_post_def)
  qed
qed

lemma pam_dispatch_aux_ok:
  assumes "service_ok (service p)" "handlers_loaded (public p)" "keeps_service e" "b = chosen_other k (service p)"
    "resumed \<Longrightarrow> saved_ok (service_stack b k (service p)) p"
  shows "\<exists>rp. pam_dispatch_aux e flags b k resumed u p = Some rp \<and> aux_post b k rp"
proof (cases "service_stack b k (service p) = []")
  case True
  then show ?thesis using assms(1,2,4) by (simp add: pam_dispatch_aux_eqs(1) aux_post_def)
next
  case False
  let ?run = "\<lambda>f. call_module e f flags"
  obtain sw p1 where st: "start_walk e resumed (service_stack b k (service p)) p = (sw, p1)" by force
  note p1 = start_walk_cases [OF st] start_walk_loaded [OF st]
  show ?thesis
  proof (cases sw)
    case None
    then show ?thesis using pam_dispatch_aux_eqs(2) [OF False st [unfolded None]] p1 assms(1,2,4) by (simp add: aux_post_def)
  next
    case (Some x)
    then obtain skip w where w: "start_walk e resumed (service_stack b k (service p)) p = (Some (skip, w), p1)"
      using st by (cases x) simp
    note wc = start_walk_cases [OF w]
    from start_walk_ends [OF assms(1) w assms(5), of ?run u] obtain t where
      t: "walk_loop ?run u skip 0 0 (service_stack b k (service p)) w = Some t"
         "\<And>d w'. t = Incomplete d w' \<Longrightarrow> d < length (service_stack b k (service p)) \<and>
            written (stack_level (service_stack b k (service p) ! d)) (substates w')" by blast
    have "kept ?run handlers_loaded" using assms(3) by (simp add: keeps_service_def)
    note post = walk_post [OF assms(1,4) _ this _ _ _ start_walk_avoids [OF w assms(5)] t(1), of p1]
    show ?thesis
    proof (cases t)
      case (Finished w')
      with pam_dispatch_aux_eqs(4) [OF False w] t(1) post(1) wc assms(2) show ?thesis by simp
    next
      case (Incomplete d w')
      with pam_dispatch_aux_eqs(3) [OF False w] t post(2) wc assms(2) show ?thesis by simp
    qed
  qed
qed

lemma clear_service_ok: "service_ok s \<Longrightarrow> service_ok (update_stack b k (pam_clear_grantors (service_stack b k s)) s)"
  using service_ok_update [of s "pam_clear_grantors (service_stack b k s)" b k "cells s"] by simp

lemma prepare_stack_fields:
  "former_choice (prepare_stack choice k p) = former_choice p" "former_depth (prepare_stack choice k p) = former_depth p"
  "former_status (prepare_stack choice k p) = former_status p" "former_impression (prepare_stack choice k p) = former_impression p"
  "former_substates (prepare_stack choice k p) = former_substates p"
  "public (prepare_stack choice k p) = (public p)\<lparr>caller_is := FROM_MODULE\<rparr>"
  "former_choice p \<noteq> PAM_NOT_STACKED \<Longrightarrow> service (prepare_stack choice k p) = service p"
  "former_choice p = PAM_NOT_STACKED \<Longrightarrow> service (prepare_stack choice k p) =
     update_stack (chosen_other k (service p)) k
       (pam_clear_grantors (service_stack (chosen_other k (service p)) k (service p))) (service p)"
  by (simp_all add: prepare_stack_def set_caller_def Let_def)

lemma leave_stack_fields:
  "service (leave_stack choice r p) = service p" "former_depth (leave_stack choice r p) = former_depth p"
  "former_status (leave_stack choice r p) = former_status p" "former_impression (leave_stack choice r p) = former_impression p"
  "former_substates (leave_stack choice r p) = former_substates p"
  "public (leave_stack choice r p) = (public p)\<lparr>caller_is := FROM_APP\<rparr>"
  "former_choice (leave_stack choice r p) = (if r = PAM_INCOMPLETE then choice else PAM_NOT_STACKED)"
  by (simp_all add: leave_stack_def set_caller_def)

lemma prepare_stack_ok:
  assumes "service_ok (service p)"
  shows "service_ok (service (prepare_stack choice k p))"
    "chosen_other k (service (prepare_stack choice k p)) = chosen_other k (service p)"
  using assms clear_service_ok [OF assms, of "chosen_other k (service p)" k]
    chosen_other_update [of "pam_clear_grantors (service_stack (chosen_other k (service p)) k (service p))" k "service p" "cells (service p)"]
  by (cases "former_choice p = PAM_NOT_STACKED"; simp add: prepare_stack_fields)+

lemma run_stack_ok:
  assumes "handle_ok p" "keeps_service e" "choice_stack choice = Some (k, u)"
    "former_choice p = PAM_NOT_STACKED \<or> former_choice p = choice"
  shows "\<exists>r p'. run_stack e flags choice k u p = Some (r, p') \<and> handle_ok p'"
proof -
  let ?b = "chosen_other k (service p)"
  let ?p = "prepare_stack choice k p"
  have h: "handlers_loaded (public p)" "service_ok (service p)" using assms(1) by (simp_all add: handle_ok_def)
  have sv: "saved_ok (service_stack ?b k (service ?p)) ?p" if "former_choice p \<noteq> PAM_NOT_STACKED"
    using assms(1,3,4) that by (auto simp: handle_ok_def saved_ok_def prepare_stack_fields)
  from pam_dispatch_aux_ok [OF prepare_stack_ok(1) [OF h(2)] _ assms(2) prepare_stack_ok(2) [OF h(2), symmetric] sv, where flags = flags and u = u and resumed = "former_choice p \<noteq> PAM_NOT_STACKED"]
  obtain r p1 where a: "pam_dispatch_aux e flags ?b k (former_choice p \<noteq> PAM_NOT_STACKED) u ?p = Some (r, p1)" "aux_post ?b k (r, p1)"
    using h(1) by (auto simp: prepare_stack_fields)
  have "handle_ok (leave_stack choice r p1)"
    using a(2) assms(3) by (simp add: handle_ok_def aux_post_def saved_ok_def leave_stack_fields)
  then show ?thesis using a(1) by (simp add: run_stack_def)
qed

theorem pam_dispatch_ok:
  assumes "handle_ok p" "keeps_service e"
  shows "\<exists>r p'. pam_dispatch e flags choice p = Some (r, p') \<and> handle_ok p'"
proof -
  have "pam_init_handlers e p = Some (PAM_SUCCESS, p)" using assms(1) by (simp add: handle_ok_def pam_init_handlers_def)
  then show ?thesis
    using assms run_stack_ok [OF assms] by (auto simp: pam_dispatch_def split: option.splits)
qed

subsection \<open>Applications\<close>

text \<open>The states an application can bring a handle into: it loads the configuration, dispatches, and
  changes the public part between calls by anything that does not ask for another configuration.\<close>

inductive reachable :: "('f, 'w, 'd) platform \<Rightarrow> ('f, 'w, 'd) pam_handle \<Rightarrow> bool" for e where
  loaded: "pam_init_handlers e p = Some (PAM_SUCCESS, p') \<Longrightarrow> \<not> handlers_loaded (public p) \<Longrightarrow>
     former_choice p = PAM_NOT_STACKED \<Longrightarrow> reachable e p'"
| dispatched: "reachable e p \<Longrightarrow> pam_dispatch e flags choice p = Some (r, p') \<Longrightarrow> reachable e p'"
| application: "reachable e p \<Longrightarrow> handlers_loaded s \<Longrightarrow> reachable e (p\<lparr>public := s\<rparr>)"

lemma reachable_ok: "reachable e p \<Longrightarrow> keeps_service e \<Longrightarrow> handle_ok p"
proof (induction rule: reachable.induct)
  case (loaded p p')
  then show ?case using pam_init_handlers_ok [OF loaded(1,2)] by (simp add: handle_ok_def)
next
  case (dispatched p flags choice r p')
  then show ?case using pam_dispatch_ok [of p e flags choice] by auto
next
  case (application p s)
  then show ?case by (simp add: handle_ok_def saved_ok_def)
qed

subsection \<open>Success\<close>

theorem success_needs_module:
  assumes "pam_dispatch e flags choice p = Some (PAM_SUCCESS, p')" "former_choice p = PAM_NOT_STACKED"
    "handlers_loaded (public p)"
  obtains k u h f s where "choice_stack choice = Some (k, u)" "h \<in> set (service_stack (chosen_other k (service p)) k (service p))"
    "handler_type h \<noteq> PAM_HT_MUST_FAIL" "func h = Some f"
    "fst (call_module e f flags (mod_name h) (argc h) (argv h) s) = PAM_SUCCESS"
proof -
  have "pam_init_handlers e p = Some (PAM_SUCCESS, p)" using assms(3) by (simp add: pam_init_handlers_def)
  with assms(1,2) obtain k u where k: "choice_stack choice = Some (k, u)" "run_stack e flags choice k u p = Some (PAM_SUCCESS, p')"
    by (auto simp: pam_dispatch_def split: if_splits option.splits)
  let ?b = "chosen_other k (service p)"
  let ?q = "prepare_stack choice k p"
  let ?run = "\<lambda>f. call_module e f flags"
  let ?hs = "service_stack ?b k (service ?q)"
  from k(2) assms(2) obtain p1 where a: "pam_dispatch_aux e flags ?b k False u ?q = Some (PAM_SUCCESS, p1)"
    by (auto simp: run_stack_def split: option.splits)
  obtain sw p2 where st: "start_walk e False ?hs ?q = (sw, p2)" by force
  have ne: "?hs \<noteq> []" using a pam_dispatch_aux_eqs(1) by fastforce
  moreover obtain skip w where w: "sw = Some (skip, w)"
    using a pam_dispatch_aux_eqs(2) [OF ne] st by (cases sw) fastforce+
  ultimately obtain w' where w': "walk_loop ?run u skip 0 0 ?hs w = Some (Finished w')" "sanity_check w' = PAM_SUCCESS"
    using a st by (auto simp: pam_dispatch_aux_def Let_def split: option.splits stop.splits)
  obtain s where "w = initial_walk ?hs (cells (service ?q)) s" using start_walk_cases [OF st] w by auto
  then have "avoids {(IMP_POSITIVE, PAM_SUCCESS)} w"
    using initial_avoids [of "{(IMP_POSITIVE, PAM_SUCCESS)}" ?hs "cells (service ?q)" s] by simp
  with walk_no_success [OF w'(1)] w'(2) obtain g where g: "g \<in> set ?hs" "\<not> never_succeeds ?run g" by blast
  then obtain h where h: "h \<in> set (service_stack ?b k (service p))" "g = h\<lparr>grantor := False\<rparr>"
    using assms(2) by (auto simp: prepare_stack_fields pam_clear_grantors_def)
  from g(2) obtain t where "fst (module_retval ?run g t) = PAM_SUCCESS" by (auto simp: never_succeeds_def)
  then show ?thesis
    using that [OF k(1) h(1)] h(2) by (auto simp: module_retval_def split: if_splits option.splits)
qed

text \<open>Two fresh walks are related, whatever their stacks and cells.\<close>

lemma initial_match: "walks_match (initial_walk hs cs s) (initial_walk gs ds t)"
  by (simp add: walks_match_def initial_walk_def imps_match_def fresh_substates_def list_all2_conv_all_nth nth_list_update)

end
