(* ===== verification/PamResume.thy ===== *)
theory PamResume
  imports PamDispatchThms
begin

text \<open>
  Event-driven applications. A dispatch that answers \<open>PAM_INCOMPLETE\<close> is called again by the application;
  the sequence of calls has the verdict and the effect of one dispatch in which each module is called
  until it answers.
\<close>

text \<open>What happens between two calls of a module: control goes to the application and back.\<close>

definition between :: "(('w, 'd) pam_public \<Rightarrow> ('w, 'd) pam_public) \<Rightarrow> ('w, 'd) pam_public \<Rightarrow> ('w, 'd) pam_public" where
  "between app s = (app (s\<lparr>caller_is := FROM_APP\<rparr>))\<lparr>caller_is := FROM_MODULE\<rparr>"

text \<open>A module that is called up to \<open>n\<close> more times while it does not answer.\<close>

fun answering ::
    "('f, 'w, 'd) platform \<Rightarrow> (('w, 'd) pam_public \<Rightarrow> ('w, 'd) pam_public) \<Rightarrow> nat \<Rightarrow>
     'f \<Rightarrow> 32 word \<Rightarrow> bytes option \<Rightarrow> nat \<Rightarrow> bytes list option \<Rightarrow> ('w, 'd) pam_public \<Rightarrow> int \<times> ('w, 'd) pam_public" where
  "answering e app 0 f flags name n a s = call_module e f flags name n a s"
| "answering e app (Suc m) f flags name n a s =
     (let (r, s1) = call_module e f flags name n a s in
      if r = PAM_INCOMPLETE then answering e app m f flags name n a (between app s1) else (r, s1))"

text \<open>The application: it dispatches again, up to \<open>n\<close> times, while the answer is \<open>PAM_INCOMPLETE\<close>.\<close>

fun converse ::
    "('f, 'w, 'd) platform \<Rightarrow> (('w, 'd) pam_public \<Rightarrow> ('w, 'd) pam_public) \<Rightarrow> nat \<Rightarrow> 32 word \<Rightarrow> nat \<Rightarrow>
     ('f, 'w, 'd) pam_handle \<Rightarrow> (int \<times> ('f, 'w, 'd) pam_handle) option" where
  "converse e app 0 flags choice p = pam_dispatch e flags choice p"
| "converse e app (Suc n) flags choice p =
     (case pam_dispatch e flags choice p of
        None \<Rightarrow> None
      | Some (r, p1) \<Rightarrow>
          if r = PAM_INCOMPLETE then converse e app n flags choice (p1\<lparr>public := app (public p1)\<rparr>) else Some (r, p1))"

text \<open>The application neither poses as a module nor asks for another configuration.\<close>

definition well_behaved :: "(('w, 'd) pam_public \<Rightarrow> ('w, 'd) pam_public) \<Rightarrow> bool" where
  "well_behaved app \<longleftrightarrow> (\<forall>s. caller_is (app s) = caller_is s \<and> handlers_loaded (app s) = handlers_loaded s)"

lemma answering_completes: "completes (\<lambda>f. answering e app m f flags) (\<lambda>f. answering e app (Suc m) f flags)"
proof -
  have "answering e app (Suc m) f flags n k a s = answering e app m f flags n k a s"
    if "fst (answering e app m f flags n k a s) \<noteq> PAM_INCOMPLETE" for f n k a s
    using that
  proof (induction m arbitrary: s)
    case (Suc m)
    obtain r s1 where c: "call_module e f flags n k a s = (r, s1)" by force
    with Suc(2) Suc(1) [of "between app s1"] show ?case by (auto simp del: answering.simps simp: answering.simps(2) [of e app _ f flags n k a s])
  qed (auto split: prod.splits if_splits)
  then show ?thesis by (simp add: completes_def)
qed

lemma answering_first: "completes (\<lambda>f. call_module e f flags) (\<lambda>f. answering e app (Suc m) f flags)"
  by (auto simp: completes_def split: prod.splits)

lemma answering_resumes:
  "resumes (\<lambda>f. call_module e f flags) (\<lambda>f. answering e app m f flags) (between app) (\<lambda>f. answering e app (Suc m) f flags)"
  by (auto simp: resumes_def split: prod.splits)

lemma keeps_answering:
  assumes "keeps_service e" "well_behaved app"
  shows "kept (\<lambda>f. answering e app m f flags) handlers_loaded"
proof -
  have "handlers_loaded (snd (answering e app m f flags n k a s))" if "handlers_loaded s" for f n k a s
    using that
  proof (induction m arbitrary: s)
    case 0
    then show ?case using assms(1) by (simp add: keeps_service_def kept_def)
  next
    case (Suc m)
    have "handlers_loaded (snd (call_module e f flags n k a s))" using assms(1) Suc(2) by (simp add: keeps_service_def kept_def)
    then have "handlers_loaded (between app (snd (call_module e f flags n k a s)))"
      using assms(2) by (simp add: between_def well_behaved_def)
    with Suc assms(1) show ?case by (auto simp: keeps_service_def kept_def split: prod.splits) (metis snd_conv)
  qed
  then show ?thesis by (simp add: kept_def)
qed

subsection \<open>Walks do not read the grantor marks\<close>

abbreviation (input) unmark :: "'f handler \<Rightarrow> 'f handler" where "unmark \<equiv> grantor_update (\<lambda>_. False)"

lemma unmark_dropWhile: "dropWhile (\<lambda>x. P (stack_level x)) (map unmark hs) = map unmark (dropWhile (\<lambda>x. P (stack_level x)) hs)"
  by (induction hs) auto

lemma unmark_jump: "skip_jump l a (map unmark hs) = apsnd (map unmark) (skip_jump l a hs)"
proof (induction l a hs rule: skip_jump.induct)
  case (2 l a h hs)
  then show ?case using unmark_dropWhile [of "\<lambda>n. n > l" hs] by auto
qed simp

lemma unmark_after_action:
  "after_action u d l a r c (map unmark hs) w = map_option (apfst (map unmark)) (after_action u d l a r c hs w)"
  using unmark_dropWhile [of "\<lambda>n. n \<ge> l" hs] unmark_jump [of l a hs]
  by (cases "Option.bind (at (substates w) l) id"; cases "skip_jump l a hs")
    (auto simp: after_action_def Let_def skip_level_def split: prod.splits)

definition unmark_turn :: "('f, 's) turn \<Rightarrow> ('f, 's) turn" where
  "unmark_turn t = (case t of Wait w \<Rightarrow> Wait w | Go hs w \<Rightarrow> Go (map unmark hs) w)"

lemma unmark_module: "module_retval run (unmark h) s = module_retval run h s" "cached_value u (unmark h) r cs = cached_value u h r cs"
  "action_of (unmark h) r c = action_of h r c"
  by (auto simp: module_retval_def cached_value_def action_of_def split: option.splits)

lemma unmark_visit: "visit run u d p (unmark h) (map unmark hs) w = map_option unmark_turn (visit run u d p h hs w)"
  by (auto simp: visit_def unmark_turn_def unmark_module unmark_after_action Let_def split: bind_splits prod.splits)

lemma unmark_walk: "walk_loop run u sk d p (pam_clear_grantors hs) w = walk_loop run u sk d p hs w"
  unfolding pam_clear_grantors_def
proof (induction run u sk d p hs w rule: walk_loop.induct)
  case (2 run u sk d p h hs w)
  then show ?case by (auto simp: unmark_visit unmark_turn_def split: option.splits turn.splits)
qed simp

lemma walk_same_shape:
  "pam_clear_grantors hs = pam_clear_grantors gs \<Longrightarrow> walk_loop run u sk d p hs w = walk_loop run u sk d p gs w"
  by (metis unmark_walk)

subsection \<open>One resumption\<close>

lemma update_stack_twice: "update_stack b k hs (update_stack b k gs s) = update_stack b k hs s"
  by (cases k) (auto simp: update_stack_def)

lemma update_stack_cells: "(update_stack b k hs s)\<lparr>cells := c\<rparr> = update_stack b k hs (s\<lparr>cells := c\<rparr>)"
  by (auto simp: update_stack_def)

lemma store_twice:
  "service (store_walk b k w2 p2) = service (store_walk b k w2 p1)"
  if "service p2 = service (store_walk b k w1 p1)"
  using that by (simp add: store_walk_def update_stack_twice update_stack_cells)

lemma start_walk_platform: "start_walk (e\<lparr>call_module := c\<rparr>) resumed hs p = start_walk e resumed hs p"
  by (simp add: start_walk_def halloc_def malloc_def)

text \<open>The walk behind a call that came to an answer, or to none.\<close>

lemma run_stackE:
  assumes "run_stack e flags choice k u p = Some (r, p1)" "handle_ok p" "choice_stack choice = Some (k, u)"
    "former_choice p = PAM_NOT_STACKED \<or> former_choice p = choice"
  defines "b \<equiv> chosen_other k (service p)" and "q \<equiv> prepare_stack choice k p"
  obtains (empty) "service_stack b k (service q) = []" "r = PAM_MUST_FAIL_CODE"
  | (memory) p2 where "start_walk e (former_choice p \<noteq> PAM_NOT_STACKED) (service_stack b k (service q)) q = (None, p2)"
      "r = PAM_BUF_ERR"
  | (waits) skip w p2 d w1 where "start_walk e (former_choice p \<noteq> PAM_NOT_STACKED) (service_stack b k (service q)) q = (Some (skip, w), p2)"
      "service_stack b k (service q) \<noteq> []"
      "walk_loop (\<lambda>f. call_module e f flags) u skip 0 0 (service_stack b k (service q)) w = Some (Incomplete d w1)"
      "r = PAM_INCOMPLETE" "p1 = leave_stack choice PAM_INCOMPLETE (save_former d w1 (store_walk b k w1 p2))"
  | (answers) skip w p2 w1 where "start_walk e (former_choice p \<noteq> PAM_NOT_STACKED) (service_stack b k (service q)) q = (Some (skip, w), p2)"
      "service_stack b k (service q) \<noteq> []"
      "walk_loop (\<lambda>f. call_module e f flags) u skip 0 0 (service_stack b k (service q)) w = Some (Finished w1)"
      "r = sanity_check w1" "r \<noteq> PAM_INCOMPLETE" "p1 = leave_stack choice r (store_walk b k w1 p2)"
proof -
  let ?hs = "service_stack b k (service q)"
  let ?res = "former_choice p \<noteq> PAM_NOT_STACKED"
  obtain p' where a: "pam_dispatch_aux e flags b k ?res u q = Some (r, p')" "p1 = leave_stack choice r p'"
    using assms(1) by (auto simp: run_stack_def b_def q_def split: option.splits)
  obtain sw p2 where st: "start_walk e ?res ?hs q = (sw, p2)" by force
  show ?thesis
  proof (cases "?hs = []")
    case True
    with a pam_dispatch_aux_eqs(1) [OF True, of e flags ?res u] show ?thesis by (intro empty) auto
  next
    case ne: False
    show ?thesis
    proof (cases sw)
      case None
      with a st pam_dispatch_aux_eqs(2) [OF ne, of e ?res p2 flags u] show ?thesis by (intro memory) auto
    next
      case (Some x)
      then obtain skip w where w: "start_walk e ?res ?hs q = (Some (skip, w), p2)" using st by (cases x) simp
      have "saved_ok ?hs q" if ?res
        using assms(2-4) that by (auto simp: handle_ok_def saved_ok_def prepare_stack_fields b_def q_def)
      then have av: "avoids unfinished w" by (rule start_walk_avoids [OF w])
      obtain t where t: "walk_loop (\<lambda>f. call_module e f flags) u skip 0 0 ?hs w = Some t"
        using a(1) ne w by (cases "walk_loop (\<lambda>f. call_module e f flags) u skip 0 0 ?hs w") (auto simp: pam_dispatch_aux_def Let_def)
      show ?thesis
      proof (cases t)
        case (Incomplete d w1)
        with pam_dispatch_aux_eqs(3) [OF ne w, of flags u d w1] t a show ?thesis by (intro waits [OF w ne]) auto
      next
        case (Finished w1)
        have "sanity_check w1 \<noteq> PAM_INCOMPLETE" using walk_finished [OF t av] Finished finished_sanity by simp
        with pam_dispatch_aux_eqs(4) [OF ne w, of flags u w1] t a Finished show ?thesis by (intro answers [OF w ne]) auto
      qed
    qed
  qed
qed

lemma run_waitsE:
  assumes "run_stack e flags choice k u p = Some (PAM_INCOMPLETE, p1)" "handle_ok p" "choice_stack choice = Some (k, u)"
    "former_choice p = PAM_NOT_STACKED \<or> former_choice p = choice"
  obtains skip w p2 d w1 where
    "start_walk e (former_choice p \<noteq> PAM_NOT_STACKED)
       (service_stack (chosen_other k (service p)) k (service (prepare_stack choice k p))) (prepare_stack choice k p) = (Some (skip, w), p2)"
    "service_stack (chosen_other k (service p)) k (service (prepare_stack choice k p)) \<noteq> []"
    "walk_loop (\<lambda>f. call_module e f flags) u skip 0 0
       (service_stack (chosen_other k (service p)) k (service (prepare_stack choice k p))) w = Some (Incomplete d w1)"
    "p1 = leave_stack choice PAM_INCOMPLETE (save_former d w1 (store_walk (chosen_other k (service p)) k w1 p2))"
proof (rule run_stackE [OF assms], goal_cases)
  case 1
  from 1(3) show ?case by simp
next
  case (2 p2)
  from 2(3) show ?case by simp
next
  case (3 skip w p2 d w1)
  show ?case by (rule that [OF 3(2,3,4,6)])
next
  case (4 skip w p2 w1)
  from 4(6) show ?case by simp
qed

lemma run_answersE:
  assumes "run_stack e flags choice k u p = Some (r, p1)" "r \<noteq> PAM_INCOMPLETE" "handle_ok p" "choice_stack choice = Some (k, u)"
    "former_choice p = choice" "choice \<noteq> PAM_NOT_STACKED" "chosen_other k (service p) = b"
    "service_stack b k (service (prepare_stack choice k p)) = hs" "hs \<noteq> []"
    "start_walk e True hs (prepare_stack choice k p) = (Some (skip, w), p2)"
  obtains w1 where "walk_loop (\<lambda>f. call_module e f flags) u skip 0 0 hs w = Some (Finished w1)"
    "r = sanity_check w1" "p1 = leave_stack choice r (store_walk b k w1 p2)"
proof (rule run_stackE [OF assms(1,3,4)], goal_cases)
  case 1
  then show ?case using assms(5) by simp
next
  case 2
  from assms(8,9) 2(2) show ?case by (simp add: assms(7))
next
  case (3 p2')
  from 3(2) assms(10) show ?case by (simp add: assms(5-8))
next
  case (4 skip' w' p2' d' w1)
  from 4(5) assms(2) show ?case by simp
next
  case (5 skip' w' p2' w1)
  have e: "skip' = skip" "w' = w" "p2' = p2" using 5(2) assms(10) by (simp_all add: assms(5-8))
  show ?case by (rule that [of w1]) (use 5(4,5,7) e in \<open>simp_all only: assms(7,8)\<close>)
qed

text \<open>The handle after an interrupted call, when the application has had its turn.\<close>

lemma interrupted_handle:
  fixes p2 :: "('f, 'w, 'd) pam_handle" and d :: nat and app :: "('w, 'd) pam_public \<Rightarrow> ('w, 'd) pam_public"
  assumes "shape w1 = (pam_clear_grantors (service_stack b k (service p2)), length (cells (service p2)))" "service_ok (service p2)"
    "b = chosen_other k (service p2)" "choice \<noteq> PAM_NOT_STACKED"
  defines "p1 \<equiv> (leave_stack choice PAM_INCOMPLETE (save_former d w1 (store_walk b k w1 p2)))"
  defines "q \<equiv> prepare_stack choice k (p1\<lparr>public := app (public p1)\<rparr>)"
  shows "former_choice (p1\<lparr>public := app (public p1)\<rparr>) = choice"
    "chosen_other k (service (p1\<lparr>public := app (public p1)\<rparr>)) = b"
    "service_stack b k (service q) = w_stack w1" "service q = service (store_walk b k w1 p2)"
    "\<exists>p3. start_walk e True (w_stack w1) q = (Some (d, w1\<lparr>w_public := between app (w_public w1)\<rparr>), p3) \<and> service p3 = service q"
proof -
  let ?a = "p1\<lparr>public := app (public p1)\<rparr>"
  note st = store_walk_ok [OF assms(2,1,3)]
  have s: "service p1 = service (store_walk b k w1 p2)" by (simp add: p1_def leave_stack_fields)
  show fc: "former_choice ?a = choice" by (simp add: p1_def leave_stack_fields)
  show "chosen_other k (service ?a) = b" using st(2) s by simp
  show sq: "service q = service (store_walk b k w1 p2)"
    using fc assms(4) s by (simp add: q_def prepare_stack_fields)
  show "service_stack b k (service q) = w_stack w1" using sq st(3) by simp
  have "public p1 = (w_public w1)\<lparr>caller_is := FROM_APP\<rparr>" by (simp add: p1_def leave_stack_fields)
  then have pub: "public q = between app (w_public w1)" by (simp add: q_def prepare_stack_fields between_def)
  have fm: "former_depth q = d" "former_impression q = impression w1" "former_status q = status w1" "former_substates q = Some (substates w1)"
    by (simp_all add: q_def prepare_stack_fields p1_def leave_stack_fields save_former_def)
  have "cells (service q) = w_cells w1" by (simp add: sq store_walk_def)
  then show "\<exists>p3. start_walk e True (w_stack w1) q = (Some (d, w1\<lparr>w_public := between app (w_public w1)\<rparr>), p3) \<and> service p3 = service q"
    using fm pub by (cases w1) (simp add: start_walk_def)
qed

lemma converse_step:
  assumes ok: "handle_ok p" "keeps_service e" "well_behaved app" "choice_stack choice = Some (k, u)"
      "former_choice p = PAM_NOT_STACKED \<or> former_choice p = choice"
    and first: "run_stack e flags choice k u p = Some (PAM_INCOMPLETE, p1)"
    and again: "run_stack (e\<lparr>call_module := answering e app m\<rparr>) flags choice k u (p1\<lparr>public := app (public p1)\<rparr>) = Some (r, p2)"
    and r: "r \<noteq> PAM_INCOMPLETE"
  shows "\<exists>p3. run_stack (e\<lparr>call_module := answering e app (Suc m)\<rparr>) flags choice k u p = Some (r, p3) \<and>
    public p3 = public p2 \<and> service p3 = service p2"
proof -
  let ?b = "chosen_other k (service p)" and ?q = "prepare_stack choice k p" and ?res = "former_choice p \<noteq> PAM_NOT_STACKED"
  let ?hs = "service_stack ?b k (service ?q)" and ?a = "p1\<lparr>public := app (public p1)\<rparr>"
  let ?e1 = "e\<lparr>call_module := answering e app m\<rparr>" and ?e2 = "e\<lparr>call_module := answering e app (Suc m)\<rparr>"
  have so: "service_ok (service p)" using ok(1) by (simp add: handle_ok_def)
  from run_waitsE [OF first ok(1,4,5)] obtain skip w p3 d w1 where w: "start_walk e ?res ?hs ?q = (Some (skip, w), p3)" "?hs \<noteq> []"
      "walk_loop (\<lambda>f. call_module e f flags) u skip 0 0 ?hs w = Some (Incomplete d w1)"
      "p1 = leave_stack choice PAM_INCOMPLETE (save_former d w1 (store_walk ?b k w1 p3))" .
  have p3: "service p3 = service ?q" "?b = chosen_other k (service p3)" "service_ok (service p3)"
    using start_walk_cases [OF w(1)] prepare_stack_ok [OF so] by simp_all
  have sh: "shape w1 = (pam_clear_grantors (service_stack ?b k (service p3)), length (cells (service p3)))"
    using walk_shape [OF w(3), of "\<lambda>_. True"] start_walk_cases [OF w(1)] p3(1) by (simp add: shape_def kept_def)
  have ch: "choice \<noteq> PAM_NOT_STACKED" using ok(4) by (auto simp: choice_stack_def intro: ccontr)
  note ih = interrupted_handle [OF sh p3(3,2) ch, where d = d and app = app, folded w(4)]
  obtain p4 where p4: "start_walk ?e1 True (w_stack w1) (prepare_stack choice k ?a) =
      (Some (d, w1\<lparr>w_public := between app (w_public w1)\<rparr>), p4)" "service p4 = service (store_walk ?b k w1 p3)"
    using ih(4,5) by metis
  have hs: "pam_clear_grantors (w_stack w1) = pam_clear_grantors ?hs" using sh p3(1) by (simp add: shape_def)
  then have ne: "w_stack w1 \<noteq> []" using w(2) by (metis clear_length(2))
  have "handle_ok ?a"
    using run_stack_ok [OF ok(1,2,4,5), of flags] first ok(3) by (auto simp: handle_ok_def well_behaved_def saved_ok_def)
  from run_answersE [OF again r this ok(4) ih(1) ch ih(2,3) ne p4(1)]
  obtain w2 where w2: "walk_loop (\<lambda>f. answering e app m f flags) u d 0 0 (w_stack w1) (w1\<lparr>w_public := between app (w_public w1)\<rparr>) =
      Some (Finished w2)" "r = sanity_check w2" "p2 = leave_stack choice r (store_walk ?b k w2 p4)"
    by auto
  have "walk_loop (\<lambda>f. answering e app (Suc m) f flags) u skip 0 0 ?hs w = Some (Finished w2)"
    using resumed_walk [OF w(3) _ answering_first answering_completes answering_resumes] w2(1) walk_same_shape [OF hs] by metis
  with w(1,2) have "run_stack ?e2 flags choice k u p = Some (r, leave_stack choice r (store_walk ?b k w2 p3))"
    using pam_dispatch_aux_eqs(4) [of ?b k ?q ?e2 ?res skip w p3 flags u w2] w2(2)
    by (simp add: run_stack_def start_walk_platform del: answering.simps)
  moreover have "service (store_walk ?b k w2 p4) = service (store_walk ?b k w2 p3)" by (rule store_twice [OF p4(2)])
  ultimately show ?thesis using w2(3) by (simp add: leave_stack_fields)
qed

subsection \<open>Any number of resumptions\<close>

lemma run_stack_completes:
  assumes "run_stack e flags choice k u p = Some (r, p1)" "r \<noteq> PAM_INCOMPLETE" "handle_ok p" "choice_stack choice = Some (k, u)"
    "former_choice p = PAM_NOT_STACKED \<or> former_choice p = choice" "completes (\<lambda>f. call_module e f flags) (\<lambda>f. c f flags)"
  shows "run_stack (e\<lparr>call_module := c\<rparr>) flags choice k u p = Some (r, p1)"
proof -
  let ?b = "chosen_other k (service p)" and ?q = "prepare_stack choice k p" and ?res = "former_choice p \<noteq> PAM_NOT_STACKED"
  let ?hs = "service_stack ?b k (service ?q)" and ?e = "e\<lparr>call_module := c\<rparr>"
  obtain p2 where a: "pam_dispatch_aux e flags ?b k ?res u ?q = Some (r, p2)" "p1 = leave_stack choice r p2"
    using assms(1) by (auto simp: run_stack_def split: option.splits)
  have "pam_dispatch_aux ?e flags ?b k ?res u ?q = Some (r, p2)"
  proof (cases "?hs = []")
    case True
    then show ?thesis using a(1) by (simp add: pam_dispatch_aux_eqs(1))
  next
    case False
    obtain sw p3 where st: "start_walk e ?res ?hs ?q = (sw, p3)" by force
    show ?thesis
    proof (cases sw)
      case None
      then show ?thesis
        using a(1) st pam_dispatch_aux_eqs(2) [OF False, of e ?res p3] pam_dispatch_aux_eqs(2) [OF False, of ?e ?res p3]
        by (simp add: start_walk_platform)
    next
      case (Some x)
      then obtain skip w where w: "start_walk e ?res ?hs ?q = (Some (skip, w), p3)" using st by (cases x) simp
      then have w': "start_walk ?e ?res ?hs ?q = (Some (skip, w), p3)" by (simp add: start_walk_platform)
      obtain t where t: "walk_loop (\<lambda>f. call_module e f flags) u skip 0 0 ?hs w = Some t"
        using a(1) False w by (cases "walk_loop (\<lambda>f. call_module e f flags) u skip 0 0 ?hs w") (auto simp: pam_dispatch_aux_def Let_def)
      then obtain w1 where w1: "t = Finished w1"
        using a(1) assms(2) pam_dispatch_aux_eqs(3) [OF False w] by (cases t) auto
      have "walk_loop (\<lambda>f. c f flags) u skip 0 0 ?hs w = Some (Finished w1)"
        using completes_walk [OF t [unfolded w1] assms(6)] .
      then show ?thesis
        using a(1) pam_dispatch_aux_eqs(4) [OF False w t [unfolded w1]] pam_dispatch_aux_eqs(4) [OF False w', of flags u w1] by simp
    qed
  qed
  then show ?thesis using a(2) by (simp add: run_stack_def)
qed

lemma dispatch_run:
  assumes "handle_ok p" "caller_is (public p) \<noteq> FROM_MODULE"
  shows "pam_dispatch e flags choice p =
    (case choice_stack choice of
       None \<Rightarrow> Some (PAM_ABORT, p)
     | Some (k, u) \<Rightarrow> if former_choice p \<noteq> PAM_NOT_STACKED \<and> former_choice p \<noteq> choice then Some (PAM_ABORT, p)
                     else run_stack e flags choice k u p)"
  using assms by (simp add: pam_dispatch_def pam_init_handlers_def handle_ok_def)

lemma answering_0: "e\<lparr>call_module := answering e app 0\<rparr> = e"
proof -
  have "answering e app 0 = call_module e" by (intro ext) simp
  then show ?thesis by simp
qed

theorem converse_one_dispatch:
  assumes "handle_ok p" "keeps_service e" "well_behaved app" "caller_is (public p) \<noteq> FROM_MODULE"
    "converse e app n flags choice p = Some (r, p')" "r \<noteq> PAM_INCOMPLETE"
  shows "\<exists>p''. pam_dispatch (e\<lparr>call_module := answering e app n\<rparr>) flags choice p = Some (r, p'') \<and>
    public p'' = public p' \<and> service p'' = service p'"
  using assms
proof (induction n arbitrary: p)
  case 0
  then show ?case by (simp add: answering_0 del: answering.simps)
next
  case (Suc n)
  let ?e = "e\<lparr>call_module := answering e app (Suc n)\<rparr>"
  note dr = dispatch_run [OF Suc.prems(1,4), of _ flags choice]
  show ?case
  proof (cases "\<exists>k u. choice_stack choice = Some (k, u) \<and> (former_choice p = PAM_NOT_STACKED \<or> former_choice p = choice)")
    case False
    then show ?thesis using Suc.prems(5) by (auto simp: dr split: option.splits if_splits)
  next
    case True
    then obtain k u where k: "choice_stack choice = Some (k, u)" "former_choice p = PAM_NOT_STACKED \<or> former_choice p = choice" by blast
    then have dr': "pam_dispatch e' flags choice p = run_stack e' flags choice k u p" for e' by (auto simp: dr)
    obtain r1 p1 where first: "run_stack e flags choice k u p = Some (r1, p1)" "handle_ok p1"
      using run_stack_ok [OF Suc.prems(1,2) k] by blast
    show ?thesis
    proof (cases "r1 = PAM_INCOMPLETE")
      case False
      then have "r1 = r" "p1 = p'" using Suc.prems(5) first(1) by (simp_all add: dr')
      then show ?thesis
        using run_stack_completes [OF first(1) False Suc.prems(1) k, where c = "answering e app (Suc n)"] answering_first [of e flags app n]
        by (simp add: dr' del: answering.simps)
    next
      case True
      let ?a = "p1\<lparr>public := app (public p1)\<rparr>"
      have "caller_is (public p1) = FROM_APP" "former_choice p1 = choice"
        using first(1) True by (auto simp: run_stack_def leave_stack_fields split: option.splits)
      then have a: "handle_ok ?a" "caller_is (public ?a) \<noteq> FROM_MODULE" "former_choice ?a = choice"
        using first(2) Suc.prems(3) by (auto simp: handle_ok_def well_behaved_def saved_ok_def)
      moreover have "converse e app n flags choice ?a = Some (r, p')" using Suc.prems(5) first(1) True by (simp add: dr')
      ultimately obtain p2 where p2: "pam_dispatch (e\<lparr>call_module := answering e app n\<rparr>) flags choice ?a = Some (r, p2)"
          "public p2 = public p'" "service p2 = service p'"
        using Suc.IH [of ?a] Suc.prems by blast
      then have "run_stack (e\<lparr>call_module := answering e app n\<rparr>) flags choice k u ?a = Some (r, p2)"
        using dispatch_run [OF a(1,2)] k(1) a(3) by simp
      from converse_step [OF Suc.prems(1-3) k first(1) [unfolded True] this Suc.prems(6)] p2 show ?thesis
        by (auto simp: dr' simp del: answering.simps)
    qed
  qed
qed

end
