(* ===== verification/PamTree.thy ===== *)
theory PamTree
  imports PamDispatchThms
begin

text \<open>
  Stacks as trees. A substack is one entry of its parent, and its modules decide among themselves: an
  action that ends a stack ends the substack only, a reset goes back to the state at its entry, and a
  jump counts entries of the same level. The walk over the flat list with its levels implements this.
\<close>

subsection \<open>Nested stacks\<close>

datatype 'f entry = Module "'f handler" | Substack "'f handler" "'f entry list"

fun flat :: "'f entry list \<Rightarrow> 'f handler list" where
  "flat [] = []"
| "flat (Module h # es) = h # flat es"
| "flat (Substack h sub # es) = h # flat sub @ flat es"

fun nested :: "nat \<Rightarrow> 'f entry list \<Rightarrow> bool" where
  "nested l [] \<longleftrightarrow> True"
| "nested l (Module h # es) \<longleftrightarrow>
     stack_level h = l \<and> l < PAM_SUBSTACK_MAX_LEVEL \<and> handler_type h \<noteq> PAM_HT_SUBSTACK \<and> nested l es"
| "nested l (Substack h sub # es) \<longleftrightarrow>
     stack_level h = l \<and> l < PAM_SUBSTACK_MAX_LEVEL \<and> handler_type h = PAM_HT_SUBSTACK \<and> nested (Suc l) sub \<and> nested l es"

definition below :: "nat \<Rightarrow> 'f handler list \<Rightarrow> bool" where
  "below l hs \<longleftrightarrow> hs = [] \<or> stack_level (hd hs) < l"

text \<open>Every stack that the parser builds is a tree.\<close>

lemma levelled_nested:
  fixes hs :: "'f handler list"
  assumes "levelled m hs" "hs \<noteq> [] \<Longrightarrow> stack_level (hd hs) \<le> l"
  shows "\<exists>es rest. hs = flat es @ rest \<and> nested l es \<and> below l rest \<and> (\<exists>m. levelled m rest)"
  using assms
proof (induction "length hs" arbitrary: hs m l rule: less_induct)
  case less
  show ?case
  proof (cases "below l hs")
    case True
    then show ?thesis using less(2) by (intro exI [of _ "[]"] exI [of _ hs]) auto
  next
    case False
    then obtain h gs where h: "hs = h # gs" "stack_level h = l" "l < PAM_SUBSTACK_MAX_LEVEL" "levelled (next_level h) gs"
      using less(2,3) by (cases hs) (auto simp: below_def)
    have cont: "\<exists>es rest. gs' = flat es @ rest \<and> nested l es \<and> below l rest \<and> (\<exists>m. levelled m rest)"
      if "levelled m' gs'" "length gs' < length hs" "gs' \<noteq> [] \<Longrightarrow> stack_level (hd gs') \<le> l" for gs' :: "'f handler list" and m'
      using less(1) [OF that(2,1)] that(3) by blast
    have hd: "gs \<noteq> [] \<Longrightarrow> stack_level (hd gs) \<le> next_level h" using h(4) by (cases gs) auto
    show ?thesis
    proof (cases "handler_type h = PAM_HT_SUBSTACK")
      case False
      then obtain es rest m' where "gs = flat es @ rest" "nested l es" "below l rest" "levelled m' rest"
        using cont [OF h(4)] hd h(1,2) by (auto simp: next_level_def)
      then show ?thesis using h False by (intro exI [of _ "Module h # es"] exI [of _ rest]) auto
    next
      case True
      then obtain sub rest1 m1 where s: "gs = flat sub @ rest1" "nested (Suc l) sub" "below (Suc l) rest1" "levelled m1 rest1"
        using less(1) [OF _ h(4), of "Suc l"] hd h(1,2) by (auto simp: next_level_def)
      have "length rest1 < length hs" "rest1 \<noteq> [] \<Longrightarrow> stack_level (hd rest1) \<le> l" using h(1) s(1,3) by (auto simp: below_def)
      from cont [OF s(4) this] obtain es rest m2 where "rest1 = flat es @ rest" "nested l es" "below l rest" "levelled m2 rest"
        by blast
      then show ?thesis using h True s by (intro exI [of _ "Substack h sub # es"] exI [of _ rest]) auto
    qed
  qed
qed

subsection \<open>The meaning of a tree\<close>

text \<open>The actions of a module among the entries that follow it; \<open>base\<close> is the state when its stack was
  entered. An empty list of entries ends the stack.\<close>

definition tree_action ::
    "freeze \<Rightarrow> nat \<Rightarrow> int \<times> int \<Rightarrow> int \<Rightarrow> int \<Rightarrow> int \<Rightarrow> 'f entry list \<Rightarrow> ('f, 's) walk \<Rightarrow> 'f entry list \<times> ('f, 's) walk" where
  "tree_action u d base a r c es w =
     (if a = ACTION_RESET then (es, w\<lparr>impression := fst base, status := snd base\<rparr>)
      else if a = ACTION_OK then (es, on_ok d r c w)
      else if a = ACTION_DONE then (if impression (on_ok d r c w) = IMP_POSITIVE then [] else es, on_ok d r c w)
      else if a = ACTION_BAD then (es, on_bad r w)
      else if a = ACTION_DIE then ([], on_bad r w)
      else if a = ACTION_IGNORE then (es, w)
      else if a > 0 then
        let w1 = (if u \<noteq> PLEASE_FREEZE then on_cached_jump d r c w else w) in
        if nat a \<le> length es then (drop (nat a) es, w1) else ([], bad_jump w1)
      else (es, bad_jump w))"

datatype ('f, 's) tree_turn = TWait "('f, 's) walk" | TGo "'f entry list" "('f, 's) walk"

definition tree_visit ::
    "('f, 's) runner \<Rightarrow> freeze \<Rightarrow> nat \<Rightarrow> int \<times> int \<Rightarrow> 'f handler \<Rightarrow> 'f entry list \<Rightarrow> ('f, 's) walk \<Rightarrow> ('f, 's) tree_turn option" where
  "tree_visit run u d base h es w =
     (let (retval, s) = module_retval run h (w_public w); w1 = w\<lparr>w_public := s\<rparr> in
      if retval = PAM_INCOMPLETE then Some (TWait w1)
      else do {
        (cached, cs) \<leftarrow> cached_value u h retval (w_cells w1);
        (ret, action) \<leftarrow> action_of h retval cached;
        let (es', w2) = tree_action u d base action ret cached es (w1\<lparr>w_cells := cs\<rparr>);
        Some (TGo es' w2)
      })"

lemma tree_action_size: "tree_action u d base a r c es w = (es', w') \<Longrightarrow> size_list size es' \<le> size_list size es"
proof -
  have "size_list size (drop n es) \<le> size_list size es" for n and es :: "'f entry list"
  proof (induction es arbitrary: n)
    case (Cons x es)
    have "size_list size (drop (n - 1) es) \<le> Suc (size x + size_list size es)" using Cons [of "n - 1"] by linarith
    then show ?case by (cases n) simp_all
  qed simp
  then show "tree_action u d base a r c es w = (es', w') \<Longrightarrow> ?thesis"
    by (auto simp: tree_action_def Let_def split: if_splits)
qed

lemma tree_visit_size: "tree_visit run u d base h es w = Some (TGo es' w') \<Longrightarrow> size_list size es' \<le> size_list size es"
  by (auto simp: tree_visit_def Let_def split: if_splits prod.splits bind_splits dest: tree_action_size)

function tree_walk ::
    "('f, 's) runner \<Rightarrow> freeze \<Rightarrow> int \<times> int \<Rightarrow> nat \<Rightarrow> 'f entry list \<Rightarrow> ('f, 's) walk \<Rightarrow> ('f, 's) stop option" where
  "tree_walk run u base d [] w = Some (Finished w)"
| "tree_walk run u base d (Module h # es) w =
     (case tree_visit run u d base h es w of
        None \<Rightarrow> None
      | Some (TWait w') \<Rightarrow> Some (Incomplete d w')
      | Some (TGo es' w') \<Rightarrow> tree_walk run u base (d + 1 + (length (flat es) - length (flat es'))) es' w')"
| "tree_walk run u base d (Substack h sub # es) w =
     (case tree_walk run u (impression w, status w) (d + 1) sub w of
        None \<Rightarrow> None
      | Some (Incomplete k w') \<Rightarrow> Some (Incomplete k w')
      | Some (Finished w') \<Rightarrow> tree_walk run u base (d + 1 + length (flat sub)) es w')"
  by pat_completeness auto
termination
  by (relation "measure (\<lambda>(_, _, _, _, es, _). size_list size es)") (auto dest: tree_visit_size)

subsection \<open>The flat walk implements the tree\<close>

lemma flat_levels: "nested l es \<Longrightarrow> h \<in> set (flat es) \<Longrightarrow> stack_level h \<ge> l"
  by (induction l es rule: nested.induct) force+

lemma flat_append: "flat (es @ fs) = flat es @ flat fs"
  by (induction es rule: flat.induct) simp_all

lemma skip_level_flat: "nested l es \<Longrightarrow> below l rest \<Longrightarrow> skip_level l (flat es @ rest) = rest"
  using flat_levels [of l es] by (cases rest) (auto simp: skip_level_def below_def dropWhile_append)

lemma dropWhile_flat:
  assumes "nested (Suc l) sub" "hs = [] \<or> stack_level (hd hs) \<le> l"
  shows "dropWhile (\<lambda>x. stack_level x > l) (flat sub @ hs) = hs"
  using flat_levels [OF assms(1)] assms(2) by (cases hs) (auto simp: dropWhile_append Suc_le_eq)

lemma flat_head: "nested l es \<Longrightarrow> below l rest \<Longrightarrow> flat es @ rest = [] \<or> stack_level (hd (flat es @ rest)) \<le> l"
  by (cases "(l, es)" rule: nested.cases) (auto simp: below_def)

lemma skip_jump_flat:
  "nested l es \<Longrightarrow> below l rest \<Longrightarrow> a > 0 \<Longrightarrow>
     skip_jump l a (flat es @ rest) =
       (if nat a \<le> length es then (0, flat (drop (nat a) es) @ rest) else (a - int (length es), rest))"
proof (induction l es arbitrary: a rule: nested.induct)
  case (1 l)
  then show ?case by (cases rest) (auto simp: below_def)
next
  case (2 l h es)
  have d: "dropWhile (\<lambda>x. stack_level x > l) (flat es @ rest) = flat es @ rest"
    using flat_head [of l es rest] 2 by (cases "flat es @ rest") auto
  have z: "skip_jump l 0 (flat es @ rest) = (0, flat es @ rest)" by (cases "flat es @ rest") auto
  show ?case
    using 2 d z by (cases "a = 1") (auto simp: nat_diff_distrib drop_Cons' split: if_splits)
next
  case (3 l h sub es)
  have d: "dropWhile (\<lambda>x. stack_level x > l) (flat sub @ flat es @ rest) = flat es @ rest"
    using 3 flat_head [of l es rest] by (intro dropWhile_flat) auto
  have z: "skip_jump l 0 (flat es @ rest) = (0, flat es @ rest)" by (cases "flat es @ rest") auto
  show ?case
    using 3 d z by (cases "a = 1") (auto simp: nat_diff_distrib drop_Cons' split: if_splits)
qed

lemma nested_drop: "nested l es \<Longrightarrow> nested l (drop n es)"
proof (induction l es arbitrary: n rule: nested.induct)
  case (2 l h es)
  then show ?case by (cases n) auto
next
  case (3 l h sub es)
  then show ?case by (cases n) auto
qed simp

lemma sub_commutes:
  "on_ok d r c (v\<lparr>substates := S\<rparr>) = (on_ok d r c v)\<lparr>substates := S\<rparr>"
  "on_bad r (v\<lparr>substates := S\<rparr>) = (on_bad r v)\<lparr>substates := S\<rparr>"
  "on_cached_jump d r c (v\<lparr>substates := S\<rparr>) = (on_cached_jump d r c v)\<lparr>substates := S\<rparr>"
  "bad_jump (v\<lparr>substates := S\<rparr>) = (bad_jump v)\<lparr>substates := S\<rparr>"
  by (simp_all add: on_ok_def on_bad_def on_cached_jump_def bad_jump_def undecided_def set_grantor_def Let_def)

lemma after_action_tree:
  assumes "nested l es" "below l rest" "at S l = Some (Some base)" "tree_action u d base a r c es v = (es', v')"
  shows "after_action u d l a r c (flat es @ rest) (v\<lparr>substates := S\<rparr>) = Some (flat es' @ rest, v'\<lparr>substates := S\<rparr>) \<and> nested l es'"
proof -
  note skip = skip_level_flat [OF assms(1,2)] skip_jump_flat [OF assms(1,2)]
  have "a = ACTION_RESET \<or> a = ACTION_OK \<or> a = ACTION_DONE \<or> a = ACTION_BAD \<or> a = ACTION_DIE \<or> a = ACTION_IGNORE \<or>
      a > 0 \<or> a < ACTION_RESET" by presburger
  then consider "a = ACTION_RESET" | "a = ACTION_OK" | "a = ACTION_DONE" | "a = ACTION_BAD" | "a = ACTION_DIE" | "a = ACTION_IGNORE"
    | "a > 0" | "a < ACTION_RESET" by blast
  then show ?thesis
  proof cases
    case 7
    then show ?thesis
      using assms(1,4) skip(2) [OF 7] nested_drop [OF assms(1), of "nat a"]
      by (auto simp: tree_action_def after_action_def sub_commutes Let_def split: if_splits prod.splits)
  qed (use assms skip(1) in \<open>auto simp: tree_action_def after_action_def sub_commutes Let_def split: if_splits prod.splits\<close>)
qed

definition implements ::
    "('f, 's) runner \<Rightarrow> freeze \<Rightarrow> nat \<Rightarrow> nat \<Rightarrow> nat \<Rightarrow> substates \<Rightarrow> 'f entry list \<Rightarrow> 'f handler list \<Rightarrow> ('f, 's) walk \<Rightarrow>
     ('f, 's) stop option \<Rightarrow> bool" where
  "implements run u l d p S es rest v t \<longleftrightarrow>
     (case t of
        None \<Rightarrow> walk_loop run u 0 d p (flat es @ rest) (v\<lparr>substates := S\<rparr>) = None
      | Some (Incomplete k v') \<Rightarrow>
          \<exists>S'. walk_loop run u 0 d p (flat es @ rest) (v\<lparr>substates := S\<rparr>) = Some (Incomplete k (v'\<lparr>substates := S'\<rparr>))
      | Some (Finished v') \<Rightarrow>
          \<exists>S' p'. walk_loop run u 0 d p (flat es @ rest) (v\<lparr>substates := S\<rparr>) =
              walk_loop run u 0 (d + length (flat es)) p' rest (v'\<lparr>substates := S'\<rparr>) \<and>
            length S' = PAM_SUBSTACK_MAX_LEVEL \<and> (\<forall>i<l. S' ! i = S ! i) \<and> (p \<ge> l \<longrightarrow> S' ! l = S ! l) \<and>
            (if es = [] then p' = p else p' \<ge> l))"

text \<open>The substack states after the entry into the stack of the handler.\<close>

lemma enter_level_tree:
  assumes "length S = PAM_SUBSTACK_MAX_LEVEL" "l < PAM_SUBSTACK_MAX_LEVEL" "p \<ge> l \<Longrightarrow> S ! l = Some base"
    "p < l \<Longrightarrow> base = (impression v, status v)"
  obtains S1 where "enter_level p l (v\<lparr>substates := S\<rparr>) = Some (v\<lparr>substates := S1\<rparr>)" "length S1 = PAM_SUBSTACK_MAX_LEVEL"
    "S1 ! l = Some base" "\<forall>i<l. S1 ! i = S ! i" "p \<ge> l \<longrightarrow> S1 = S"
proof (cases "p < l")
  case True
  then show ?thesis
    using assms by (intro that [of "S[l := Some base]"]) (auto simp: enter_level_def put_def)
next
  case False
  then show ?thesis using assms by (intro that [of S]) (auto simp: enter_level_def)
qed

lemma visit_tree:
  assumes "nested l (Module h # es)" "below l rest" "length S = PAM_SUBSTACK_MAX_LEVEL" "S ! l = Some base"
    "enter_level p l w = Some (v\<lparr>substates := S\<rparr>)"
  shows "visit run u d p h (flat es @ rest) w =
    (case tree_visit run u d base h es v of
       None \<Rightarrow> None
     | Some (TWait v') \<Rightarrow> Some (Wait (v'\<lparr>substates := S\<rparr>))
     | Some (TGo es' v') \<Rightarrow> Some (Go (flat es' @ rest) (v'\<lparr>substates := S\<rparr>)))"
    "tree_visit run u d base h es v = Some (TGo es' v') \<Longrightarrow> nested l es'"
proof -
  have l: "stack_level h = l" "handler_type h \<noteq> PAM_HT_SUBSTACK" "nested l es" "at S l = Some (Some base)"
    using assms(1,3,4) by auto
  note aa = after_action_tree [OF l(3) assms(2) l(4)]
  have commute: "v\<lparr>substates := S, w_public := s, w_cells := cs\<rparr> = (v\<lparr>w_public := s, w_cells := cs\<rparr>)\<lparr>substates := S\<rparr>" for s cs
    by simp
  obtain r s where r: "module_retval run h (w_public v) = (r, s)" by force
  show "visit run u d p h (flat es @ rest) w =
    (case tree_visit run u d base h es v of
       None \<Rightarrow> None
     | Some (TWait v') \<Rightarrow> Some (Wait (v'\<lparr>substates := S\<rparr>))
     | Some (TGo es' v') \<Rightarrow> Some (Go (flat es' @ rest) (v'\<lparr>substates := S\<rparr>)))"
    using assms(5) l(1,2)
    by (auto simp: visit_def tree_visit_def r Let_def commute split: bind_splits prod.splits option.splits dest: aa)
  show "tree_visit run u d base h es v = Some (TGo es' v') \<Longrightarrow> nested l es'"
    using aa by (fastforce simp: tree_visit_def r Let_def split: bind_splits prod.splits if_splits)
qed

theorem tree_implemented:
  assumes "nested l es" "below l rest" "length S = PAM_SUBSTACK_MAX_LEVEL" "l \<le> Suc p"
    "p \<ge> l \<Longrightarrow> S ! l = Some base" "p < l \<Longrightarrow> base = (impression v, status v)"
  shows "implements run u l d p S es rest v (tree_walk run u base d es v)"
  using assms
proof (induction run u base d es v arbitrary: l p S rest rule: tree_walk.induct)
  case (1 run u base d v)
  then show ?case by (auto simp: implements_def)
next
  case (2 run u base d h es v)
  then have l: "stack_level h = l" "l < PAM_SUBSTACK_MAX_LEVEL" by auto
  obtain S1 where S1: "enter_level p l (v\<lparr>substates := S\<rparr>) = Some (v\<lparr>substates := S1\<rparr>)" "length S1 = PAM_SUBSTACK_MAX_LEVEL"
      "S1 ! l = Some base" "\<forall>i<l. S1 ! i = S ! i" "p \<ge> l \<longrightarrow> S1 = S"
    using enter_level_tree [OF 2(4) l(2) 2(6,7)] by metis
  note vt = visit_tree [OF 2(2,3) S1(2,3,1), of run u d]
  show ?case
  proof (cases "\<exists>es' v'. tree_visit run u d base h es v = Some (TGo es' v')")
    case False
    then show ?thesis using vt(1) by (auto simp: implements_def split: option.splits tree_turn.splits)
  next
    case True
    then obtain es' v' where t: "tree_visit run u d base h es v = Some (TGo es' v')" by blast
    have len: "length (flat es') \<le> length (flat es)"
      using visit_length [of run u d p h "flat es @ rest" "v\<lparr>substates := S\<rparr>" "flat es' @ rest"] vt(1) t by simp
    have "implements run u l (d + 1 + (length (flat es) - length (flat es'))) l S1 es' rest v'
        (tree_walk run u base (d + 1 + (length (flat es) - length (flat es'))) es' v')"
      using 2(1) [OF t refl vt(2) [OF t] 2(3) S1(2)] S1(3) by simp
    moreover have "walk_loop run u 0 d p (flat (Module h # es) @ rest) (v\<lparr>substates := S\<rparr>) =
        walk_loop run u 0 (d + 1 + (length (flat es) - length (flat es'))) l (flat es' @ rest) (v'\<lparr>substates := S1\<rparr>)"
      using vt(1) t l(1) by simp
    ultimately show ?thesis
      using t len S1(4,5) by (auto simp: implements_def split: option.splits stop.splits if_splits) fastforce+
  qed
next
  case (3 run u base d h sub es v)
  then have l: "stack_level h = l" "l < PAM_SUBSTACK_MAX_LEVEL" "handler_type h = PAM_HT_SUBSTACK" "nested (Suc l) sub" "nested l es" by auto
  obtain S1 where S1: "enter_level p l (v\<lparr>substates := S\<rparr>) = Some (v\<lparr>substates := S1\<rparr>)" "length S1 = PAM_SUBSTACK_MAX_LEVEL"
      "S1 ! l = Some base" "\<forall>i<l. S1 ! i = S ! i" "p \<ge> l \<longrightarrow> S1 = S"
    using enter_level_tree [OF 3(5) l(2) 3(7,8)] by metis
  have step: "walk_loop run u 0 d p (flat (Substack h sub # es) @ rest) (v\<lparr>substates := S\<rparr>) =
      walk_loop run u 0 (d + 1) l (flat sub @ flat es @ rest) (v\<lparr>substates := S1\<rparr>)"
    using S1(1) l(1,3) by (simp add: visit_def)
  have "below (Suc l) (flat es @ rest)" using flat_head [OF l(5) 3(4)] by (auto simp: below_def)
  then have i1: "implements run u (Suc l) (d + 1) l S1 sub (flat es @ rest) v (tree_walk run u (impression v, status v) (d + 1) sub v)"
    using 3(1) [OF l(4) _ S1(2)] by simp
  show ?case
  proof (cases "\<exists>v'. tree_walk run u (impression v, status v) (d + 1) sub v = Some (Finished v')")
    case False
    then show ?thesis using i1 step by (auto simp: implements_def split: option.splits stop.splits)
  next
    case True
    then obtain v' where v': "tree_walk run u (impression v, status v) (d + 1) sub v = Some (Finished v')" by blast
    with i1 obtain S2 p2 where S2: "walk_loop run u 0 (d + 1) l (flat sub @ flat es @ rest) (v\<lparr>substates := S1\<rparr>) =
          walk_loop run u 0 (d + 1 + length (flat sub)) p2 (flat es @ rest) (v'\<lparr>substates := S2\<rparr>)"
        "length S2 = PAM_SUBSTACK_MAX_LEVEL" "\<forall>i<Suc l. S2 ! i = S1 ! i" "p2 \<ge> l"
      by (auto simp: implements_def split: if_splits)
    have "implements run u l (d + 1 + length (flat sub)) p2 S2 es rest v' (tree_walk run u base (d + 1 + length (flat sub)) es v')"
      using 3(2) [OF v' refl l(5) 3(4) S2(2)] S2(3,4) S1(3) by simp
    then show ?thesis
      using v' step S2 S1(4,5) by (auto simp: implements_def add.assoc split: option.splits stop.splits if_splits) fastforce+
  qed
qed

text \<open>A fresh walk over a stack of a well-formed service.\<close>

lemma stack_tree:
  assumes "service_ok sv"
  shows "\<exists>es. service_stack b k sv = flat es \<and> nested 0 es \<and>
    (let w = initial_walk (flat es) cs s; flat_walk = walk_loop run u 0 0 0 (flat es) w in
     case tree_walk run u (IMP_UNDEF, PAM_MUST_FAIL_CODE) 0 es w of
       None \<Rightarrow> flat_walk = None
     | Some (Incomplete d v) \<Rightarrow> \<exists>sub. flat_walk = Some (Incomplete d (v\<lparr>substates := sub\<rparr>))
     | Some (Finished v) \<Rightarrow> \<exists>sub. flat_walk = Some (Finished (v\<lparr>substates := sub\<rparr>)))"
proof -
  have l: "levelled 0 (service_stack b k sv)" using assms by (simp add: service_ok_def)
  have "stack_level (hd hs) \<le> 0" if "levelled 0 hs" "hs \<noteq> []" for hs :: "'a handler list" using that by (cases hs) auto
  from levelled_nested [OF l this [OF l]] obtain es rest where e: "service_stack b k sv = flat es @ rest" "nested 0 es" "below 0 rest"
    by blast
  then have r: "rest = []" by (simp add: below_def)
  let ?w = "initial_walk (flat es) cs s"
  have w: "?w\<lparr>substates := fresh_substates\<rparr> = ?w" by (simp add: initial_walk_def)
  have "implements run u 0 0 0 fresh_substates es [] ?w (tree_walk run u (IMP_UNDEF, PAM_MUST_FAIL_CODE) 0 es ?w)"
    by (rule tree_implemented) (use e(2) in \<open>simp_all add: below_def fresh_substates_def\<close>)
  then have "(let flat_walk = walk_loop run u 0 0 0 (flat es) ?w in
     case tree_walk run u (IMP_UNDEF, PAM_MUST_FAIL_CODE) 0 es ?w of
       None \<Rightarrow> flat_walk = None
     | Some (Incomplete d v) \<Rightarrow> \<exists>sub. flat_walk = Some (Incomplete d (v\<lparr>substates := sub\<rparr>))
     | Some (Finished v) \<Rightarrow> \<exists>sub. flat_walk = Some (Finished (v\<lparr>substates := sub\<rparr>)))"
    unfolding implements_def w by (auto simp: Let_def split: option.splits stop.splits)
  then show ?thesis using e(1,2) r by (intro exI [of _ es]) (simp add: Let_def)
qed

end
