(* ===== verification/KeyedStore.thy ===== *)
theory KeyedStore
  imports Main
begin

text \<open>
  The contract that the environment, the module data and the items of a handle share: a state holds at
  most one value for a key, and a change that is carried out affects its key only. A change answers
  \<open>None\<close> when it is refused.
\<close>

fun changes :: "('k \<Rightarrow> 'v option \<Rightarrow> 's \<Rightarrow> 's option) \<Rightarrow> ('k \<times> 'v option) list \<Rightarrow> 's \<Rightarrow> 's option" where
  "changes change [] s = Some s"
| "changes change ((k, v) # cs) s = (case change k v s of None \<Rightarrow> None | Some s' \<Rightarrow> changes change cs s')"

fun latest :: "('k \<times> 'v option) list \<Rightarrow> ('k \<rightharpoonup> 'v) \<Rightarrow> ('k \<rightharpoonup> 'v)" where
  "latest [] m = m"
| "latest ((k, v) # cs) m = latest cs (m(k := v))"

lemma latest_other: "k \<notin> fst ` set cs \<Longrightarrow> latest cs m k = m k"
  by (induction cs m rule: latest.induct) auto

lemma latest_distinct: "distinct (map fst cs) \<Longrightarrow> (k, v) \<in> set cs \<Longrightarrow> latest cs m k = v"
  by (induction cs m rule: latest.induct) (auto simp: latest_other rev_image_eqI)

lemma latest_append: "latest (cs @ ds) m = latest ds (latest cs m)"
  by (induction cs m rule: latest.induct) (simp_all add: fun_upd_def)

locale keyed_store =
  fixes good :: "'s \<Rightarrow> bool" and look :: "'s \<Rightarrow> 'k \<rightharpoonup> 'v" and change :: "'k \<Rightarrow> 'v option \<Rightarrow> 's \<Rightarrow> 's option"
  assumes change_good: "good s \<Longrightarrow> change k v s = Some s' \<Longrightarrow> good s'"
    and look_change: "good s \<Longrightarrow> change k v s = Some s' \<Longrightarrow> look s' = (look s)(k := v)"
begin

lemma changes_look:
  assumes "good s" "changes change cs s = Some s'"
  shows "good s' \<and> look s' = latest cs (look s)"
  using assms
proof (induction cs arbitrary: s)
  case (Cons c cs)
  obtain k v where c: "c = (k, v)" by force
  with Cons(3) obtain s1 where s1: "change k v s = Some s1" "changes change cs s1 = Some s'" by (auto split: option.splits)
  then show ?case using Cons(1) [OF change_good [OF Cons(2) s1(1)] s1(2)] look_change [OF Cons(2) s1(1)] c by (simp add: fun_upd_def)
qed simp

lemma changes_frame: "good s \<Longrightarrow> changes change cs s = Some s' \<Longrightarrow> k \<notin> fst ` set cs \<Longrightarrow> look s' k = look s k"
  using changes_look latest_other by metis

lemma last_change_wins: "good s \<Longrightarrow> changes change (cs @ [(k, v)]) s = Some s' \<Longrightarrow> look s' k = v"
  using changes_look [of s "cs @ [(k, v)]" s'] by (simp add: latest_append)

text \<open>Changes of different keys may be made in any order.\<close>

lemma changes_order:
  assumes "good s" "changes change cs s = Some s1" "changes change ds s = Some s2" "distinct (map fst cs)" "distinct (map fst ds)"
    "set cs = set ds"
  shows "look s1 = look s2"
proof
  fix k
  show "look s1 k = look s2 k"
  proof (cases "k \<in> fst ` set cs")
    case True
    then obtain v where "(k, v) \<in> set cs" by force
    then show ?thesis using assms latest_distinct [of cs k v] latest_distinct [of ds k v] changes_look by metis
  next
    case False
    then show ?thesis using assms changes_frame by metis
  qed
qed

end

end
