(* ===== verification/PamEnv.thy ===== *)
theory PamEnv
  imports PamTypes KeyedStore
begin

text \<open>
  The environment that modules prepare for the session, \<open>pam_env.c\<close>: an array of pointers to strings
  \<open>NAME=value\<close> that grows in chunks, ends with a null pointer and has as many used entries as
  \<open>requested\<close> says. An access outside the array or through a null pointer makes an operation \<open>None\<close>.
\<close>

abbreviation (input) PAM_ENV_CHUNK :: nat where "PAM_ENV_CHUNK \<equiv> 10"
abbreviation (input) EQUALS :: byte where "EQUALS \<equiv> 0x3D"

subsection \<open>Operations\<close>

definition pam_make_env :: "('f, 'w, 'd) platform \<Rightarrow> ('w, 'd) pam_public \<Rightarrow> int \<times> ('w, 'd) pam_public" where
  "pam_make_env e s =
     (case malloc e s of
        (False, s1) \<Rightarrow> (PAM_BUF_ERR, s1\<lparr>pam_env := None\<rparr>)
      | (True, s1) \<Rightarrow>
          (case malloc e s1 of
             (False, s2) \<Rightarrow> (PAM_BUF_ERR, s2\<lparr>pam_env := None\<rparr>)
           | (True, s2) \<Rightarrow>
               (PAM_SUCCESS,
                s2\<lparr>pam_env := Some \<lparr>env_entries = PAM_ENV_CHUNK, env_list = replicate PAM_ENV_CHUNK None,
                                    env_requested = 1\<rparr>\<rparr>)))"

definition pam_drop_env :: "('w, 'd) pam_public \<Rightarrow> ('w, 'd) pam_public" where
  "pam_drop_env s = s\<lparr>pam_env := None\<rparr>"

text \<open>The first \<open>n\<close> bytes of \<open>nv\<close> name the variable of the entry \<open>x\<close>.\<close>

definition env_match :: "bytes \<Rightarrow> nat \<Rightarrow> bytes \<Rightarrow> bool" where
  "env_match nv n x \<longleftrightarrow> take n x = take n nv \<and> n < length x \<and> x ! n = EQUALS"

fun search_from :: "bytes option list \<Rightarrow> bytes \<Rightarrow> nat \<Rightarrow> nat \<Rightarrow> nat option option" where
  "search_from xs nv n 0 = Some None"
| "search_from xs nv n (Suc i) =
     (case at xs i of
        Some (Some x) \<Rightarrow> if env_match nv n x then Some (Some i) else search_from xs nv n i
      | _ \<Rightarrow> None)"

definition pam_search_env :: "pam_environ \<Rightarrow> bytes \<Rightarrow> nat \<Rightarrow> nat option option" where
  "pam_search_env env nv n = search_from (env_list env) nv n (env_requested env - 1)"

definition name_length :: "bytes \<Rightarrow> nat" where
  "name_length nv = length (takeWhile (\<lambda>c. c \<noteq> EQUALS) nv)"

text \<open>Room for one more entry: the array is replaced when it is full. The answer is false when the
  allocation fails.\<close>

definition grow_env :: "('f, 'w, 'd) platform \<Rightarrow> pam_environ \<Rightarrow> ('w, 'd) pam_public \<Rightarrow> (bool \<times> pam_environ \<times> ('w, 'd) pam_public) option" where
  "grow_env e env s =
     (if env_entries env \<le> env_requested env then
        (case malloc e s of
           (False, s1) \<Rightarrow> Some (False, env, s1)
         | (True, s1) \<Rightarrow>
             if env_requested env \<le> length (env_list env) \<and> env_requested env \<le> env_entries env + PAM_ENV_CHUNK then
               Some (True,
                 env\<lparr>env_list := take (env_requested env) (env_list env) @
                        replicate (env_entries env + PAM_ENV_CHUNK - env_requested env) None,
                     env_entries := env_entries env + PAM_ENV_CHUNK\<rparr>, s1)
             else None)
      else Some (True, env, s))"

text \<open>The removal of an entry: \<open>memmove\<close> closes the gap, up to and with the final null pointer.\<close>

definition delete_item :: "nat \<Rightarrow> pam_environ \<Rightarrow> pam_environ option" where
  "delete_item item env =
     (let r = env_requested env - 1; xs = env_list env in
      if item < r \<and> r < length xs then
        Some (env\<lparr>env_requested := r, env_list := take item xs @ take (r - item) (drop (item + 1) xs) @ drop r xs\<rparr>)
      else None)"

text \<open>Storing the string at \<open>item\<close>; when it cannot be copied the entry is removed.\<close>

definition set_item_at ::
    "('f, 'w, 'd) platform \<Rightarrow> bytes \<Rightarrow> nat \<Rightarrow> pam_environ \<Rightarrow> ('w, 'd) pam_public \<Rightarrow> (int \<times> ('w, 'd) pam_public) option" where
  "set_item_at e nv item env s =
     (if item < length (env_list env) then
        (case pam_strdup e (Some nv) s of
           (Some x, s1) \<Rightarrow> Some (PAM_SUCCESS, s1\<lparr>pam_env := Some (env\<lparr>env_list := (env_list env)[item := Some x]\<rparr>)\<rparr>)
         | (None, s1) \<Rightarrow>
             (case delete_item item (env\<lparr>env_list := (env_list env)[item := None]\<rparr>) of
                None \<Rightarrow> None
              | Some env1 \<Rightarrow> Some (PAM_BUF_ERR, s1\<lparr>pam_env := Some env1\<rparr>)))
      else None)"

text \<open>A new variable takes the place of the final null pointer, which moves one entry up.\<close>

definition add_item ::
    "('f, 'w, 'd) platform \<Rightarrow> bytes \<Rightarrow> pam_environ \<Rightarrow> ('w, 'd) pam_public \<Rightarrow> (int \<times> ('w, 'd) pam_public) option" where
  "add_item e nv env s =
     (case grow_env e env s of
        None \<Rightarrow> None
      | Some (False, env1, s1) \<Rightarrow> Some (PAM_BUF_ERR, s1)
      | Some (True, env1, s1) \<Rightarrow>
          if 0 < env_requested env1 \<and> env_requested env1 < length (env_list env1) then
            set_item_at e nv (env_requested env1 - 1)
              (env1\<lparr>env_requested := env_requested env1 + 1, env_list := (env_list env1)[env_requested env1 := None]\<rparr>) s1
          else None)"

definition pam_putenv :: "('f, 'w, 'd) platform \<Rightarrow> bytes option \<Rightarrow> ('w, 'd) pam_public \<Rightarrow> (int \<times> ('w, 'd) pam_public) option" where
  "pam_putenv e name_value s =
     (case name_value of
        None \<Rightarrow> Some (PAM_PERM_DENIED, s)
      | Some nv \<Rightarrow>
          let l2eq = name_length nv in
          if l2eq = 0 then Some (PAM_BAD_ITEM, s)
          else
            (case pam_env s of
               None \<Rightarrow> Some (PAM_ABORT, s)
             | Some env \<Rightarrow>
                 (case pam_search_env env nv l2eq of
                    None \<Rightarrow> None
                  | Some item \<Rightarrow>
                      if l2eq < length nv then
                        (case item of
                           None \<Rightarrow> add_item e nv env s
                         | Some i \<Rightarrow> set_item_at e nv i env s)
                      else
                        (case item of
                           None \<Rightarrow> Some (PAM_BAD_ITEM, s)
                         | Some i \<Rightarrow>
                             (case delete_item i env of
                                None \<Rightarrow> None
                              | Some env1 \<Rightarrow> Some (PAM_SUCCESS, s\<lparr>pam_env := Some env1\<rparr>))))))"

definition pam_getenv :: "bytes option \<Rightarrow> ('w, 'd) pam_public \<Rightarrow> bytes option option" where
  "pam_getenv name s =
     (case name of
        None \<Rightarrow> Some None
      | Some nm \<Rightarrow>
          (case pam_env s of
             None \<Rightarrow> Some None
           | Some env \<Rightarrow>
               (case pam_search_env env nm (length nm) of
                  None \<Rightarrow> None
                | Some None \<Rightarrow> Some None
                | Some (Some i) \<Rightarrow>
                    (case at (env_list env) i of
                       Some (Some x) \<Rightarrow> Some (Some (drop (1 + length nm) x))
                     | _ \<Rightarrow> None))))"

text \<open>\<open>_copy_env\<close> copies the entries from the last to the first; the copy is the list of its strings.\<close>

fun copy_entries ::
    "('f, 'w, 'd) platform \<Rightarrow> bytes option list \<Rightarrow> nat \<Rightarrow> bytes list \<Rightarrow> ('w, 'd) pam_public \<Rightarrow>
     (bytes list option \<times> ('w, 'd) pam_public) option" where
  "copy_entries e xs 0 dump s = Some (Some dump, s)"
| "copy_entries e xs (Suc i) dump s =
     (case at xs i of
        None \<Rightarrow> None
      | Some x \<Rightarrow>
          (case pam_strdup e x s of
             (None, s1) \<Rightarrow> Some (None, s1)
           | (Some b, s1) \<Rightarrow> copy_entries e xs i (b # dump) s1))"

definition copy_env :: "('f, 'w, 'd) platform \<Rightarrow> pam_environ \<Rightarrow> ('w, 'd) pam_public \<Rightarrow> (bytes list option \<times> ('w, 'd) pam_public) option" where
  "copy_env e env s =
     (if env_requested env = 0 then None
      else
        (case malloc e s of
           (False, s1) \<Rightarrow> Some (None, s1)
         | (True, s1) \<Rightarrow> copy_entries e (env_list env) (env_requested env - 1) [] s1))"

definition pam_getenvlist :: "('f, 'w, 'd) platform \<Rightarrow> ('w, 'd) pam_public \<Rightarrow> (bytes list option \<times> ('w, 'd) pam_public) option" where
  "pam_getenvlist e s =
     (case pam_env s of
        None \<Rightarrow> Some (None, s)
      | Some env \<Rightarrow>
          if env_entries env < env_requested env then Some (None, s)
          else if length (env_list env) < env_requested env then None
          else if None \<in> set (take (env_requested env - 1) (env_list env)) then Some (None, s)
          else copy_env e env s)"

subsection \<open>Well-formed environments\<close>

text \<open>The strings of an environment.\<close>

definition strings :: "pam_environ \<Rightarrow> bytes list" where
  "strings env = map the (take (env_requested env - 1) (env_list env))"

definition names :: "bytes list \<Rightarrow> bytes list" where
  "names = map (takeWhile (\<lambda>c. c \<noteq> EQUALS))"

text \<open>An assignment has a name and an equals sign.\<close>

definition assignment :: "bytes \<Rightarrow> bool" where
  "assignment x \<longleftrightarrow> 0 < name_length x \<and> name_length x < length x"

definition env_ok :: "pam_environ \<Rightarrow> bool" where
  "env_ok env \<longleftrightarrow>
     0 < env_requested env \<and> env_requested env \<le> env_entries env \<and> length (env_list env) = env_entries env \<and>
     None \<notin> set (take (env_requested env - 1) (env_list env)) \<and>
     env_list env ! (env_requested env - 1) = None \<and>
     list_all assignment (strings env) \<and> distinct (names (strings env))"

text \<open>What an environment says: a map from names to values.\<close>

definition env_map :: "bytes list \<Rightarrow> bytes \<rightharpoonup> bytes" where
  "env_map xs = map_of (map (\<lambda>x. (takeWhile (\<lambda>c. c \<noteq> EQUALS) x, drop (1 + name_length x) x)) xs)"

lemma name_length_take: "take (name_length x) x = takeWhile (\<lambda>c. c \<noteq> EQUALS) x"
  unfolding name_length_def by (metis takeWhile_eq_take)

lemma assignment_split: "assignment x \<Longrightarrow> x ! name_length x = EQUALS"
  using nth_length_takeWhile [of "\<lambda>c. c \<noteq> EQUALS" x] by (simp add: assignment_def name_length_def)

lemma split_unique:
  assumes "EQUALS \<notin> set (take n x)" "n < length x" "x ! n = EQUALS"
  shows "name_length x = n"
proof -
  have x: "x = take n x @ EQUALS # drop (Suc n) x" using assms(2,3) id_take_nth_drop by fastforce
  have "takeWhile (\<lambda>c. c \<noteq> EQUALS) (take n x @ EQUALS # drop (Suc n) x) = take n x @ takeWhile (\<lambda>c. c \<noteq> EQUALS) (EQUALS # drop (Suc n) x)"
    using assms(1) by (intro takeWhile_append2) auto
  then show ?thesis using x assms(2) by (simp add: name_length_def)
qed

lemma no_equals_name: "EQUALS \<notin> set (take (name_length x) x)"
  by (auto simp: name_length_take dest: set_takeWhileD)

text \<open>An entry matches exactly when the name is that of its assignment.\<close>

lemma env_match_iff:
  assumes "assignment x" "EQUALS \<notin> set (take n nv)" "n \<le> length nv"
  shows "env_match nv n x \<longleftrightarrow> takeWhile (\<lambda>c. c \<noteq> EQUALS) x = take n nv"
proof
  assume m: "env_match nv n x"
  then have "name_length x = n" using split_unique [of n x] assms(2) by (simp add: env_match_def)
  then show "takeWhile (\<lambda>c. c \<noteq> EQUALS) x = take n nv" using m by (simp add: env_match_def flip: name_length_take)
next
  assume t: "takeWhile (\<lambda>c. c \<noteq> EQUALS) x = take n nv"
  then have "name_length x = n" using assms(3) by (simp add: name_length_def)
  then show "env_match nv n x" using t assms(1) assignment_split [OF assms(1)]
    by (auto simp: env_match_def assignment_def name_length_take)
qed

subsection \<open>The array and its strings\<close>

lemma env_okE:
  assumes "env_ok env"
  obtains rest where "env_list env = map Some (strings env) @ None # rest" "env_requested env = length (strings env) + 1"
    "env_entries env = length (env_list env)" "list_all assignment (strings env)" "distinct (names (strings env))"
proof -
  let ?r = "env_requested env - 1" let ?xs = "env_list env"
  have h: "0 < env_requested env" "?r < length ?xs" "None \<notin> set (take ?r ?xs)" "?xs ! ?r = None"
    using assms by (auto simp: env_ok_def)
  have "map Some (strings env) = take ?r ?xs"
    using h(3) unfolding strings_def by (auto intro!: map_idI simp: comp_def) (metis option.collapse)
  moreover have "?xs = take ?r ?xs @ ?xs ! ?r # drop (Suc ?r) ?xs" using h(2) by (rule id_take_nth_drop)
  ultimately have "?xs = map Some (strings env) @ None # drop (Suc ?r) ?xs" using h(4) by simp
  moreover have "env_requested env = length (strings env) + 1" using h(1,2) by (simp add: strings_def)
  ultimately show ?thesis using that assms by (auto simp: env_ok_def)
qed

lemma env_okI:
  assumes "env_list env = map Some ss @ None # rest" "env_requested env = length ss + 1"
    "env_entries env = length (env_list env)" "list_all assignment ss" "distinct (names ss)"
  shows "env_ok env \<and> strings env = ss"
  using assms by (auto simp: env_ok_def strings_def comp_def nth_append)

lemma search_from_list:
  assumes "i \<le> length ss"
  shows "\<exists>r. search_from (map Some ss @ rest) nv n i = Some r \<and>
     (case r of None \<Rightarrow> \<forall>j<i. \<not> env_match nv n (ss ! j) | Some k \<Rightarrow> k < i \<and> env_match nv n (ss ! k))"
  using assms
proof (induction i)
  case 0
  then show ?case by simp
next
  case (Suc i)
  then have a: "at (map Some ss @ rest) i = Some (Some (ss ! i))" by (simp add: nth_append)
  from Suc obtain r where r: "search_from (map Some ss @ rest) nv n i = Some r"
    "case r of None \<Rightarrow> \<forall>j<i. \<not> env_match nv n (ss ! j) | Some k \<Rightarrow> k < i \<and> env_match nv n (ss ! k)" by auto
  show ?case
  proof (cases "env_match nv n (ss ! i)")
    case True
    then show ?thesis using a by simp
  next
    case False
    then show ?thesis using a r by (cases r) (auto simp: less_Suc_eq)
  qed
qed

text \<open>The search in a well-formed environment.\<close>

lemma search_env:
  assumes "env_ok env" "EQUALS \<notin> set (take n nv)" "n \<le> length nv"
  obtains (absent) "pam_search_env env nv n = Some None" "env_map (strings env) (take n nv) = None"
    "take n nv \<notin> set (names (strings env))"
  | (found) i where "pam_search_env env nv n = Some (Some i)" "i < length (strings env)" "names (strings env) ! i = take n nv"
proof -
  let ?ss = "strings env"
  from env_okE [OF assms(1)] obtain rest where r: "env_list env = map Some ?ss @ None # rest"
    "env_requested env = length ?ss + 1" "list_all assignment ?ss" by blast
  have m: "env_match nv n (?ss ! j) \<longleftrightarrow> names ?ss ! j = take n nv" if "j < length ?ss" for j
    using env_match_iff [OF _ assms(2,3), of "?ss ! j"] r(3) that by (simp add: names_def list_all_length)
  from search_from_list [of "length ?ss" ?ss "None # rest" nv n] obtain q where
    q: "pam_search_env env nv n = Some q"
    "case q of None \<Rightarrow> \<forall>j<length ?ss. \<not> env_match nv n (?ss ! j) | Some k \<Rightarrow> k < length ?ss \<and> env_match nv n (?ss ! k)"
    using r by (auto simp: pam_search_env_def)
  show ?thesis
  proof (cases q)
    case None
    then have "take n nv \<notin> set (names ?ss)" using q(2) m by (auto simp: in_set_conv_nth names_def)
    moreover from this have "env_map ?ss (take n nv) = None" by (auto simp: env_map_def map_of_eq_None_iff names_def comp_def)
    ultimately show ?thesis using absent None q(1) by blast
  next
    case (Some i)
    then show ?thesis using found q m by auto
  qed
qed

subsection \<open>Changing an entry\<close>

lemma split_at: "i < length ps \<Longrightarrow> \<exists>as bs. ps = as @ ps ! i # bs \<and> length as = i"
  using id_take_nth_drop [of i ps] by (metis length_take less_imp_le_nat min.absorb2)

lemma map_of_replace:
  assumes "i < length ps" "fst (ps ! i) = k" "distinct (map fst ps)"
  shows "map_of (ps[i := (k, v)]) = (map_of ps)(k \<mapsto> v)"
proof -
  from split_at [OF assms(1)] obtain as bs where a: "ps = as @ ps ! i # bs" "length as = i" by blast
  then obtain v0 where p: "ps = as @ (k, v0) # bs" using assms(2) by (metis prod.collapse)
  then have "k \<notin> fst ` set as" using assms(3) by auto
  then have "map_of as k = None" by (simp add: map_of_eq_None_iff)
  then show ?thesis using p a(2) by (auto simp: list_update_append fun_eq_iff map_add_def split: option.splits)
qed

lemma map_of_remove:
  assumes "i < length ps" "fst (ps ! i) = k" "distinct (map fst ps)"
  shows "map_of (take i ps @ drop (Suc i) ps) = (map_of ps)(k := None)"
proof -
  from split_at [OF assms(1)] obtain as bs where a: "ps = as @ ps ! i # bs" "length as = i" by blast
  then obtain v0 where p: "ps = as @ (k, v0) # bs" using assms(2) by (metis prod.collapse)
  then have "k \<notin> fst ` set as" "k \<notin> fst ` set bs" using assms(3) by auto
  then have "map_of as k = None" "map_of bs k = None" by (simp_all add: map_of_eq_None_iff)
  then show ?thesis using p a(2) by (auto simp: fun_eq_iff map_add_def split: option.splits)
qed

lemma env_map_simps:
  assumes "distinct (names ss)"
  shows "i < length ss \<Longrightarrow> names ss ! i = takeWhile (\<lambda>c. c \<noteq> EQUALS) nv \<Longrightarrow>
      env_map (ss[i := nv]) = (env_map ss)(takeWhile (\<lambda>c. c \<noteq> EQUALS) nv \<mapsto> drop (1 + name_length nv) nv)"
    "i < length ss \<Longrightarrow> names ss ! i = k \<Longrightarrow> env_map (take i ss @ drop (Suc i) ss) = (env_map ss)(k := None)"
    "takeWhile (\<lambda>c. c \<noteq> EQUALS) nv \<notin> set (names ss) \<Longrightarrow>
      env_map (ss @ [nv]) = (env_map ss)(takeWhile (\<lambda>c. c \<noteq> EQUALS) nv \<mapsto> drop (1 + name_length nv) nv)"
proof -
  let ?f = "\<lambda>x. (takeWhile (\<lambda>c. c \<noteq> EQUALS) x, drop (1 + name_length x) x)"
  have d: "distinct (map fst (map ?f ss))" using assms by (simp add: names_def comp_def)
  show "env_map (ss[i := nv]) = (env_map ss)(takeWhile (\<lambda>c. c \<noteq> EQUALS) nv \<mapsto> drop (1 + name_length nv) nv)"
    if "i < length ss" "names ss ! i = takeWhile (\<lambda>c. c \<noteq> EQUALS) nv"
    using map_of_replace [OF _ _ d, of i "takeWhile (\<lambda>c. c \<noteq> EQUALS) nv" "drop (1 + name_length nv) nv"] that
    by (simp add: env_map_def names_def map_update)
  show "env_map (take i ss @ drop (Suc i) ss) = (env_map ss)(k := None)" if "i < length ss" "names ss ! i = k"
    using map_of_remove [OF _ _ d, of i k] that by (simp add: env_map_def names_def take_map drop_map)
  show "env_map (ss @ [nv]) = (env_map ss)(takeWhile (\<lambda>c. c \<noteq> EQUALS) nv \<mapsto> drop (1 + name_length nv) nv)"
    if "takeWhile (\<lambda>c. c \<noteq> EQUALS) nv \<notin> set (names ss)"
  proof -
    have "map_of (map ?f ss) (takeWhile (\<lambda>c. c \<noteq> EQUALS) nv) = None"
      using that by (auto simp: map_of_eq_None_iff names_def)
    then show ?thesis by (auto simp: env_map_def fun_eq_iff map_add_def split: option.splits)
  qed
qed

text \<open>An array with \<open>ss\<close> in its first entries, where the entry \<open>i\<close> may be about to change.\<close>

definition holds :: "pam_environ \<Rightarrow> bytes list \<Rightarrow> nat \<Rightarrow> bool" where
  "holds env ss i \<longleftrightarrow> (\<exists>x rest. env_list env = (map Some ss @ None # rest)[i := x]) \<and> i < length ss \<and>
     env_requested env = length ss + 1 \<and> env_entries env = length (env_list env)"

lemma delete_item_holds:
  assumes "holds env ss i"
  obtains env' where "delete_item i env = Some env'" "\<exists>rest. env_list env' = map Some (take i ss @ drop (Suc i) ss) @ None # rest"
    "env_requested env' = length (take i ss @ drop (Suc i) ss) + 1" "env_entries env' = length (env_list env')"
proof -
  from assms obtain x rest where h: "env_list env = (map Some ss @ None # rest)[i := x]" "i < length ss"
    "env_requested env = length ss + 1" "env_entries env = length (env_list env)" by (auto simp: holds_def)
  let ?xs = "env_list env" let ?ss = "take i ss @ drop (Suc i) ss"
  have t: "take i ?xs = map Some (take i ss)" using h(1,2) by (simp add: take_map)
  have "drop (Suc i) ?xs = map Some (drop (Suc i) ss) @ None # rest" using h(1,2) by (simp add: drop_map)
  then have m: "take (length ss - i) (drop (Suc i) ?xs) = map Some (drop (Suc i) ss) @ [None]" using h(2) by simp
  have d: "drop (length ss) ?xs = None # rest" using h(1,2) by simp
  let ?e = "env\<lparr>env_requested := length ss, env_list := map Some ?ss @ None # None # rest\<rparr>"
  have "delete_item i env = Some ?e" using h t m d by (simp add: delete_item_def Let_def)
  moreover have "length ?ss + 1 = length ss" using h(2) by simp
  ultimately show ?thesis using that [of ?e] h by simp
qed

lemma set_item_at_holds:
  assumes "holds env ss i"
  obtains r env' n where "set_item_at e nv i env s = Some (r, s\<lparr>pam_env := Some env', allocs := n\<rparr>)"
    "env_requested env' = length (if r = PAM_SUCCESS then ss[i := nv] else take i ss @ drop (Suc i) ss) + 1"
    "env_entries env' = length (env_list env')" "r = PAM_SUCCESS \<or> r = PAM_BUF_ERR"
    "\<exists>rest. env_list env' = map Some (if r = PAM_SUCCESS then ss[i := nv] else take i ss @ drop (Suc i) ss) @ None # rest"
proof -
  from assms obtain x rest where h: "env_list env = (map Some ss @ None # rest)[i := x]" "i < length ss"
    "env_requested env = length ss + 1" "env_entries env = length (env_list env)" by (auto simp: holds_def)
  let ?n = "allocs s + 1"
  show ?thesis
  proof (cases "malloc_answer e (allocs s)")
    case True
    let ?e = "env\<lparr>env_list := (env_list env)[i := Some nv]\<rparr>"
    have "set_item_at e nv i env s = Some (PAM_SUCCESS, s\<lparr>pam_env := Some ?e, allocs := ?n\<rparr>)"
      using True h(1,2) by (simp add: set_item_at_def pam_strdup_def malloc_def)
    moreover have "env_list ?e = map Some (ss[i := nv]) @ None # rest"
      using h(1,2) by (simp add: list_update_append map_update)
    ultimately show ?thesis using that [where r = PAM_SUCCESS and env' = ?e and n = ?n] h by simp
  next
    case False
    let ?e = "env\<lparr>env_list := (env_list env)[i := None]\<rparr>"
    have "holds ?e ss i" using h by (auto simp: holds_def)
    then obtain env' where d: "delete_item i ?e = Some env'" "\<exists>rest. env_list env' = map Some (take i ss @ drop (Suc i) ss) @ None # rest"
      "env_requested env' = length (take i ss @ drop (Suc i) ss) + 1" "env_entries env' = length (env_list env')"
      by (rule delete_item_holds)
    have "set_item_at e nv i env s = Some (PAM_BUF_ERR, s\<lparr>pam_env := Some env', allocs := ?n\<rparr>)"
      using False h(1,2) d(1) by (simp add: set_item_at_def pam_strdup_def malloc_def)
    then show ?thesis using that [where r = PAM_BUF_ERR and env' = env' and n = ?n] d by simp
  qed
qed

lemma grow_env_ok:
  assumes "env_list env = map Some ss @ None # rest" "env_requested env = length ss + 1" "env_entries env = length (env_list env)"
  obtains n where "grow_env e env s = Some (False, env, s\<lparr>allocs := n\<rparr>)"
  | env' n x rest' where "grow_env e env s = Some (True, env', s\<lparr>allocs := n\<rparr>)" "env_list env' = map Some ss @ None # x # rest'"
    "env_requested env' = length ss + 1" "env_entries env' = length (env_list env')"
proof (cases "rest = []")
  case True
  show ?thesis
  proof (cases "malloc_answer e (allocs s)")
    case False
    then show ?thesis using that(1) True assms by (simp add: grow_env_def malloc_def)
  next
    case m: True
    let ?e = "env\<lparr>env_list := map Some ss @ None # replicate PAM_ENV_CHUNK None, env_entries := length ss + 1 + PAM_ENV_CHUNK\<rparr>"
    have "grow_env e env s = Some (True, ?e, s\<lparr>allocs := allocs s + 1\<rparr>)"
      using m True assms by (simp add: grow_env_def malloc_def)
    then show ?thesis using that(2) [where env' = ?e and n = "allocs s + 1" and x = None and rest' = "replicate 9 None"] assms by (simp add: numeral_eq_Suc)
  qed
next
  case False
  then obtain x rest' where "rest = x # rest'" by (cases rest) auto
  then show ?thesis using that(2) [where env' = env and n = "allocs s"] assms by (simp add: grow_env_def)
qed

subsection \<open>The contract of \<open>pam_putenv\<close>\<close>

definition has_env :: "('w, 'd) pam_public \<Rightarrow> bool" where
  "has_env s \<longleftrightarrow> (case pam_env s of None \<Rightarrow> False | Some env \<Rightarrow> env_ok env)"

definition env_view :: "('w, 'd) pam_public \<Rightarrow> bytes \<rightharpoonup> bytes" where
  "env_view s = (case pam_env s of None \<Rightarrow> Map.empty | Some env \<Rightarrow> env_map (strings env))"

lemma names_list: "names (ss[i := x]) = (names ss)[i := takeWhile (\<lambda>c. c \<noteq> EQUALS) x]"
  "names (ss @ ts) = names ss @ names ts" "names (take i ss) = take i (names ss)" "names (drop i ss) = drop i (names ss)"
  "names [x] = [takeWhile (\<lambda>c. c \<noteq> EQUALS) x]" "length (names ss) = length ss"
  by (simp_all add: names_def map_update take_map drop_map)

lemma distinct_remove: "distinct xs \<Longrightarrow> distinct (take i xs @ drop (Suc i) xs)"
  using set_take_disj_set_drop_if_distinct [of xs i "Suc i"] by auto

lemma list_all_remove: "list_all P xs \<Longrightarrow> list_all P (take i xs @ drop (Suc i) xs)"
  by (auto simp: list_all_iff dest: in_set_takeD in_set_dropD)

lemma replaced_ok:
  assumes "distinct (names ss)" "list_all assignment ss" "assignment nv" "i < length ss" "names ss ! i = takeWhile (\<lambda>c. c \<noteq> EQUALS) nv"
  shows "distinct (names (ss[i := nv]))" "list_all assignment (ss[i := nv])"
    "distinct (names (take i ss @ drop (Suc i) ss))" "list_all assignment (take i ss @ drop (Suc i) ss)"
proof -
  show "distinct (names (ss[i := nv]))" using assms(1,5) by (metis list_update_id names_list(1))
  show "list_all assignment (ss[i := nv])" using assms(2,3) set_update_subset_insert [of ss i nv] by (auto simp: list_all_iff)
  show "distinct (names (take i ss @ drop (Suc i) ss))" using distinct_remove [OF assms(1), of i] by (simp add: names_list)
  show "list_all assignment (take i ss @ drop (Suc i) ss)" using assms(2) by (rule list_all_remove)
qed

definition put_done ::
    "bytes \<Rightarrow> ('w, 'd) pam_public \<Rightarrow> (int \<times> ('w, 'd) pam_public) option \<Rightarrow> bool" where
  "put_done nv s res \<longleftrightarrow>
     (case res of
        None \<Rightarrow> False
      | Some (r, s') \<Rightarrow>
          has_env s' \<and> (r = PAM_SUCCESS \<or> r = PAM_BUF_ERR) \<and> s'\<lparr>pam_env := pam_env s, allocs := allocs s\<rparr> = s \<and>
          env_view s' = (env_view s)(takeWhile (\<lambda>c. c \<noteq> EQUALS) nv :=
             if r = PAM_SUCCESS then Some (drop (1 + name_length nv) nv) else None))"

lemma put_doneI:
  assumes "res = Some (r, s\<lparr>pam_env := Some env', allocs := n\<rparr>)" "env_ok env'" "r = PAM_SUCCESS \<or> r = PAM_BUF_ERR"
    "env_map (strings env') = (env_view s)(takeWhile (\<lambda>c. c \<noteq> EQUALS) nv :=
       if r = PAM_SUCCESS then Some (drop (1 + name_length nv) nv) else None)"
  shows "put_done nv s res"
  using assms by (simp add: put_done_def has_env_def env_view_def)

lemma replace_done:
  assumes "pam_env s = Some env" "env_ok env" "assignment nv" "i < length (strings env)"
    "names (strings env) ! i = takeWhile (\<lambda>c. c \<noteq> EQUALS) nv"
  shows "put_done nv s (set_item_at e nv i env s)"
proof -
  let ?ss = "strings env"
  from env_okE [OF assms(2)] obtain rest where o: "env_list env = map Some ?ss @ None # rest" "env_requested env = length ?ss + 1"
    "env_entries env = length (env_list env)" "list_all assignment ?ss" "distinct (names ?ss)" by blast
  have "env_list env = (map Some ?ss @ None # rest)[i := Some (?ss ! i)]"
    using o(1) assms(4) by (metis length_map list_update_append1 list_update_id nth_map)
  then have "holds env ?ss i" using o assms(4) unfolding holds_def by blast
  then obtain r env' n where h: "set_item_at e nv i env s = Some (r, s\<lparr>pam_env := Some env', allocs := n\<rparr>)"
    "env_requested env' = length (if r = PAM_SUCCESS then ?ss[i := nv] else take i ?ss @ drop (Suc i) ?ss) + 1"
    "env_entries env' = length (env_list env')" "r = PAM_SUCCESS \<or> r = PAM_BUF_ERR"
    "\<exists>rest. env_list env' = map Some (if r = PAM_SUCCESS then ?ss[i := nv] else take i ?ss @ drop (Suc i) ?ss) @ None # rest"
    by (rule set_item_at_holds)
  note k = replaced_ok [OF o(5,4) assms(3,4,5)]
  have "env_ok env' \<and> strings env' = (if r = PAM_SUCCESS then ?ss[i := nv] else take i ?ss @ drop (Suc i) ?ss)"
    using env_okI [OF _ h(2,3)] h(5) k by (cases "r = PAM_SUCCESS") (simp_all, blast+)
  then show ?thesis
    using put_doneI [OF h(1) _ h(4), of nv] env_map_simps(1,2) [OF o(5) assms(4,5)] assms(1) by (auto simp: env_view_def)
qed

lemma add_done:
  assumes "pam_env s = Some env" "env_ok env" "assignment nv" "takeWhile (\<lambda>c. c \<noteq> EQUALS) nv \<notin> set (names (strings env))"
  shows "put_done nv s (add_item e nv env s)"
proof -
  let ?ss = "strings env" let ?k = "takeWhile (\<lambda>c. c \<noteq> EQUALS) nv"
  from env_okE [OF assms(2)] obtain rest where o: "env_list env = map Some ?ss @ None # rest" "env_requested env = length ?ss + 1"
    "env_entries env = length (env_list env)" "list_all assignment ?ss" "distinct (names ?ss)" by blast
  have nk: "env_view s ?k = None"
    using assms(1,4) by (auto simp: env_view_def env_map_def map_of_eq_None_iff names_def)
  from o(1-3) show ?thesis
  proof (cases rule: grow_env_ok [of _ ?ss, where e = e and s = s])
    case (1 n)
    have "s\<lparr>allocs := n\<rparr> = s\<lparr>pam_env := Some env, allocs := n\<rparr>" using assms(1) by (cases s) simp
    then show ?thesis
      using 1 put_doneI [where res = "add_item e nv env s" and r = PAM_BUF_ERR and s = s and env' = env and n = n and nv = nv]
        assms(1,2) nk by (simp add: add_item_def env_view_def fun_upd_idem)
  next
    case (2 env1 n x rest')
    let ?e = "env1\<lparr>env_requested := length ?ss + 2, env_list := (env_list env1)[length ?ss + 1 := None]\<rparr>"
    have "env_list ?e = (map Some (?ss @ [nv]) @ None # rest')[length ?ss := None]" using 2(2) by (simp add: list_update_append)
    then have "\<exists>x rest. env_list ?e = (map Some (?ss @ [nv]) @ None # rest)[length ?ss := x]" by blast
    then have hd: "holds ?e (?ss @ [nv]) (length ?ss)" unfolding holds_def using 2(2,4) by simp
    have l: "(?ss @ [nv])[length ?ss := nv] = ?ss @ [nv]" "take (length ?ss) (?ss @ [nv]) @ drop (Suc (length ?ss)) (?ss @ [nv]) = ?ss"
      by (simp_all add: list_update_append)
    obtain r env' n' where h: "set_item_at e nv (length ?ss) ?e (s\<lparr>allocs := n\<rparr>) = Some (r, s\<lparr>allocs := n\<rparr>\<lparr>pam_env := Some env', allocs := n'\<rparr>)"
      "env_requested env' = length (if r = PAM_SUCCESS then ?ss @ [nv] else ?ss) + 1"
      "env_entries env' = length (env_list env')" "r = PAM_SUCCESS \<or> r = PAM_BUF_ERR"
      "\<exists>rest. env_list env' = map Some (if r = PAM_SUCCESS then ?ss @ [nv] else ?ss) @ None # rest"
      by (rule set_item_at_holds [OF hd, where nv = nv and e = e and s = "s\<lparr>allocs := n\<rparr>", unfolded l])
    have eq: "add_item e nv env s = Some (r, s\<lparr>pam_env := Some env', allocs := n'\<rparr>)"
      using 2 h(1) by (simp add: add_item_def)
    have "env_ok env' \<and> strings env' = (if r = PAM_SUCCESS then ?ss @ [nv] else ?ss)"
      using env_okI [OF _ h(2,3)] h(5) o(4,5) assms(3,4) by (cases "r = PAM_SUCCESS") (simp_all add: names_list, blast+)
    then show ?thesis
      using put_doneI [OF eq _ h(4), of nv] env_map_simps(3) [OF o(5) assms(4)] assms(1) nk
      by (auto simp: env_view_def fun_upd_idem)
  qed
qed

text \<open>The contract. A call with a null pointer or an empty name changes nothing. An assignment sets the
  variable, or, when memory runs out, leaves it unset. A bare name deletes the variable.\<close>

definition put_spec :: "bytes option \<Rightarrow> int \<Rightarrow> (bytes \<rightharpoonup> bytes) \<Rightarrow> (bytes \<rightharpoonup> bytes) \<Rightarrow> bool" where
  "put_spec name_value r m m' \<longleftrightarrow>
     (case name_value of
        None \<Rightarrow> r = PAM_PERM_DENIED \<and> m' = m
      | Some nv \<Rightarrow>
          let name = takeWhile (\<lambda>c. c \<noteq> EQUALS) nv; value = drop (1 + length name) nv in
          if name = [] then r = PAM_BAD_ITEM \<and> m' = m
          else if name = nv then r = (if m name = None then PAM_BAD_ITEM else PAM_SUCCESS) \<and> m' = m(name := None)
          else r = PAM_SUCCESS \<and> m' = m(name \<mapsto> value) \<or> r = PAM_BUF_ERR \<and> m' = m(name := None))"

lemma env_map_found: "distinct (names ss) \<Longrightarrow> i < length ss \<Longrightarrow> names ss ! i = k \<Longrightarrow> env_map ss k \<noteq> None"
  using nth_mem [of i ss] by (auto simp: env_map_def map_of_eq_None_iff names_def image_image)

lemma delete_done:
  assumes "pam_env s = Some env" "env_ok env" "i < length (strings env)" "names (strings env) ! i = k"
  obtains env' where "delete_item i env = Some env'" "env_ok env'" "env_map (strings env') = (env_view s)(k := None)"
proof -
  let ?ss = "strings env"
  from env_okE [OF assms(2)] obtain rest where o: "env_list env = map Some ?ss @ None # rest" "env_requested env = length ?ss + 1"
    "env_entries env = length (env_list env)" "list_all assignment ?ss" "distinct (names ?ss)" by blast
  have "env_list env = (map Some ?ss @ None # rest)[i := Some (?ss ! i)]"
    using o(1) assms(3) by (metis length_map list_update_append1 list_update_id nth_map)
  then have "holds env ?ss i" using o assms(3) unfolding holds_def by blast
  then obtain env' where d: "delete_item i env = Some env'" "\<exists>rest. env_list env' = map Some (take i ?ss @ drop (Suc i) ?ss) @ None # rest"
    "env_requested env' = length (take i ?ss @ drop (Suc i) ?ss) + 1" "env_entries env' = length (env_list env')"
    by (rule delete_item_holds)
  from d(2) obtain rest' where "env_list env' = map Some (take i ?ss @ drop (Suc i) ?ss) @ None # rest'" by blast
  then have "env_ok env' \<and> strings env' = take i ?ss @ drop (Suc i) ?ss"
    using env_okI [OF _ d(3,4)] o(4,5) distinct_remove [of "names ?ss" i] list_all_remove [of assignment ?ss i]
    by (simp add: names_list)
  then show ?thesis using that [OF d(1)] env_map_simps(2) [OF o(5) assms(3,4)] assms(1) by (simp add: env_view_def)
qed

definition put_result :: "bytes option \<Rightarrow> ('w, 'd) pam_public \<Rightarrow> (int \<times> ('w, 'd) pam_public) option \<Rightarrow> bool" where
  "put_result name_value s res \<longleftrightarrow>
     (case res of
        None \<Rightarrow> False
      | Some (r, s') \<Rightarrow>
          has_env s' \<and> put_spec name_value r (env_view s) (env_view s') \<and> s'\<lparr>pam_env := pam_env s, allocs := allocs s\<rparr> = s)"

lemma put_done_result:
  assumes "put_done nv s res" "0 < name_length nv" "name_length nv < length nv"
  shows "put_result (Some nv) s res"
proof -
  let ?k = "takeWhile (\<lambda>c. c \<noteq> EQUALS) nv"
  have l: "name_length nv = length ?k" by (simp add: name_length_def)
  then have "?k \<noteq> []" "?k \<noteq> nv" using assms(2,3) by (metis less_irrefl list.size(3), metis less_irrefl)
  with l have "?k \<noteq> []" "?k \<noteq> nv" "name_length nv = length ?k" by blast+
  then show ?thesis using assms(1) by (auto simp: put_done_def put_result_def put_spec_def Let_def split: option.splits)
qed

theorem putenv_spec:
  assumes "has_env s"
  shows "put_result name_value s (pam_putenv e name_value s)"
proof (cases "\<exists>nv. name_value = Some nv \<and> name_length nv \<noteq> 0")
  case False
  then show ?thesis using assms
    by (cases name_value) (auto simp: pam_putenv_def put_result_def put_spec_def Let_def name_length_def)
next
  case True
  then obtain nv where nv: "name_value = Some nv" "0 < name_length nv" by auto
  from assms obtain env where env: "pam_env s = Some env" "env_ok env" by (auto simp: has_env_def split: option.splits)
  let ?k = "takeWhile (\<lambda>c. c \<noteq> EQUALS) nv"
  have le: "name_length nv \<le> length nv" by (simp add: name_length_def length_takeWhile_le)
  note eq = pam_putenv_def Let_def nv(1) env(1)
  from env(2) no_equals_name le show ?thesis
  proof (cases rule: search_env [where nv = nv and n = "name_length nv"])
    case absent
    show ?thesis
    proof (cases "name_length nv < length nv")
      case True
      then have "assignment nv" using nv(2) by (simp add: assignment_def)
      then show ?thesis
        using True absent put_done_result [OF add_done [OF env], of nv e] nv(2) by (simp add: eq name_length_take)
    next
      case False
      then have "?k = nv" using le name_length_take [of nv] by simp
      then show ?thesis using False absent assms nv(2)
        by (auto simp: eq put_result_def put_spec_def Let_def name_length_take env_view_def fun_upd_idem)
    qed
  next
    case (found i)
    then have n: "names (strings env) ! i = ?k" by (simp add: name_length_take)
    show ?thesis
    proof (cases "name_length nv < length nv")
      case True
      then have "assignment nv" using nv(2) by (simp add: assignment_def)
      then show ?thesis
        using True found(1) put_done_result [OF replace_done [OF env _ found(2) n], of e] nv(2) by (simp add: eq)
    next
      case False
      then have k: "?k = nv" using le name_length_take [of nv] by simp
      obtain env' where d: "delete_item i env = Some env'" "env_ok env'" "env_map (strings env') = (env_view s)(nv := None)"
        using delete_done [OF env found(2) n] k by metis
      have "env_view s nv \<noteq> None"
        using env_map_found [OF _ found(2) n] env k by (auto simp: env_ok_def env_view_def)
      moreover have "nv \<noteq> []" using nv(2) by (auto simp: name_length_def)
      ultimately show ?thesis using False found(1) d nv(2)
        by (auto simp: eq put_result_def put_spec_def env_view_def has_env_def k simp del: takeWhile_eq_all_conv)
    qed
  qed
qed

text \<open>\<open>pam_getenv\<close> reads the map. (A name with an equals sign in it is looked up as a prefix of an
  assignment, so names are those without one.)\<close>

theorem getenv_spec:
  assumes "has_env s" "EQUALS \<notin> set name"
  shows "pam_getenv (Some name) s = Some (env_view s name)"
proof -
  from assms obtain env where env: "pam_env s = Some env" "env_ok env" by (auto simp: has_env_def split: option.splits)
  have "EQUALS \<notin> set (take (length name) name)" "length name \<le> length name" using assms(2) by simp_all
  with env(2) show ?thesis
  proof (cases rule: search_env [where nv = name and n = "length name"])
    case absent
    then show ?thesis using env(1) by (simp add: pam_getenv_def env_view_def)
  next
    case (found i)
    from env_okE [OF env(2)] obtain rest where o: "env_list env = map Some (strings env) @ None # rest" "distinct (names (strings env))"
      by blast
    let ?x = "strings env ! i"
    have n: "takeWhile (\<lambda>c. c \<noteq> EQUALS) ?x = name" using found by (simp add: names_def)
    have "map_of (map (\<lambda>x. (takeWhile (\<lambda>c. c \<noteq> EQUALS) x, drop (1 + name_length x) x)) (strings env)) name = Some (drop (1 + length name) ?x)"
      using o(2) found(2) n nth_mem [OF found(2)]
      by (intro map_of_is_SomeI) (auto simp: names_def comp_def name_length_def image_iff intro!: bexI [of _ ?x])
    then have "env_view s name = Some (drop (1 + length name) ?x)" using env(1) by (simp add: env_view_def env_map_def)
    then show ?thesis using env(1) found(1,2) o(1) by (simp add: pam_getenv_def nth_append)
  qed
qed

subsection \<open>Creating and listing\<close>

lemma make_env_ok:
  assumes "pam_make_env e s = (PAM_SUCCESS, s')"
  shows "has_env s'" "env_view s' = Map.empty"
  using assms by (auto simp: pam_make_env_def malloc_def has_env_def env_view_def env_ok_def strings_def env_map_def names_def
      simp del: replicate.simps split: bool.splits)

lemma copy_entries_list:
  assumes "i \<le> length ss"
  shows "\<exists>r n. copy_entries e (map Some ss @ rest) i dump s = Some (r, s\<lparr>allocs := n\<rparr>) \<and>
     (case r of None \<Rightarrow> \<exists>m. \<not> malloc_answer e m | Some xs \<Rightarrow> xs = take i ss @ dump)"
  using assms
proof (induction i arbitrary: dump s)
  case 0
  have "s = s\<lparr>allocs := allocs s\<rparr>" by simp
  then show ?case by (intro exI [of _ "Some dump"] exI [of _ "allocs s"]) simp
next
  case (Suc i)
  then have a: "at (map Some ss @ rest) i = Some (Some (ss ! i))" by (simp add: nth_append)
  show ?case
  proof (cases "malloc_answer e (allocs s)")
    case True
    from Suc(1) [of "ss ! i # dump" "s\<lparr>allocs := allocs s + 1\<rparr>"] Suc(2) obtain r n where
      ih: "copy_entries e (map Some ss @ rest) i (ss ! i # dump) (s\<lparr>allocs := allocs s + 1\<rparr>) = Some (r, s\<lparr>allocs := n\<rparr>)"
      "case r of None \<Rightarrow> \<exists>m. \<not> malloc_answer e m | Some xs \<Rightarrow> xs = take i ss @ ss ! i # dump" by auto
    have "take (Suc i) ss = take i ss @ [ss ! i]" using Suc(2) by (simp add: take_Suc_conv_app_nth)
    moreover have "copy_entries e (map Some ss @ rest) (Suc i) dump s = Some (r, s\<lparr>allocs := n\<rparr>)"
      using True a ih(1) by (simp add: pam_strdup_def malloc_def)
    ultimately show ?thesis using ih(2) by (intro exI [of _ r] exI [of _ n]) (simp split: option.splits)
  next
    case False
    then have "copy_entries e (map Some ss @ rest) (Suc i) dump s = Some (None, s\<lparr>allocs := allocs s + 1\<rparr>)"
      using a by (simp add: pam_strdup_def malloc_def)
    then show ?thesis using False by (intro exI [of _ None] exI [of _ "allocs s + 1"]) auto
  qed
qed

theorem getenvlist_spec:
  assumes "has_env s"
  shows "\<exists>r n. pam_getenvlist e s = Some (r, s\<lparr>allocs := n\<rparr>) \<and>
     (case r of None \<Rightarrow> \<exists>m. \<not> malloc_answer e m
      | Some xs \<Rightarrow> env_map xs = env_view s \<and> distinct (names xs) \<and> list_all assignment xs)"
proof -
  from assms obtain env where env: "pam_env s = Some env" "env_ok env" by (auto simp: has_env_def split: option.splits)
  let ?ss = "strings env"
  from env_okE [OF env(2)] obtain rest where o: "env_list env = map Some ?ss @ None # rest" "env_requested env = length ?ss + 1"
    "env_entries env = length (env_list env)" "list_all assignment ?ss" "distinct (names ?ss)" by blast
  have eq: "pam_getenvlist e s = copy_env e env s"
    using env o(1-3) by (auto simp: pam_getenvlist_def env_ok_def)
  show ?thesis
  proof (cases "malloc_answer e (allocs s)")
    case False
    then show ?thesis using eq o(2) by (auto simp: copy_env_def malloc_def)
  next
    case True
    from copy_entries_list [of "length ?ss" ?ss e "None # rest" "[]" "s\<lparr>allocs := allocs s + 1\<rparr>"] obtain r n where
      "copy_env e env s = Some (r, s\<lparr>allocs := n\<rparr>)"
      "case r of None \<Rightarrow> \<exists>m. \<not> malloc_answer e m | Some xs \<Rightarrow> xs = take (length ?ss) ?ss @ []"
      using True o(1,2) by (auto simp: copy_env_def malloc_def)
    then show ?thesis using eq o(4,5) env(1) by (cases r) (auto simp: env_view_def)
  qed
qed

subsection \<open>The environment as a keyed store\<close>

definition change_env :: "('f, 'w, 'd) platform \<Rightarrow> bytes \<Rightarrow> bytes option \<Rightarrow> ('w, 'd) pam_public \<Rightarrow> ('w, 'd) pam_public option" where
  "change_env e name v s =
     (if name = [] \<or> EQUALS \<in> set name then None
      else
        (case pam_putenv e (Some (name @ (case v of None \<Rightarrow> [] | Some x \<Rightarrow> EQUALS # x))) s of
           Some (r, s') \<Rightarrow> if r = PAM_SUCCESS then Some s' else None
         | None \<Rightarrow> None))"

lemma change_env_spec:
  assumes "has_env s" "change_env e name v s = Some s'"
  shows "has_env s' \<and> env_view s' = (env_view s)(name := v)"
proof -
  let ?nv = "name @ (case v of None \<Rightarrow> [] | Some x \<Rightarrow> EQUALS # x)"
  from assms(2) have n: "name \<noteq> []" "EQUALS \<notin> set name" and p: "pam_putenv e (Some ?nv) s = Some (PAM_SUCCESS, s')"
    by (auto simp: change_env_def split: if_splits option.splits)
  have "takeWhile (\<lambda>c. c \<noteq> EQUALS) ?nv = name" using n(2) by (cases v) (auto simp: takeWhile_append)
  moreover have "name = ?nv \<longleftrightarrow> v = None" by (cases v) auto
  moreover have "has_env s'" "put_spec (Some ?nv) PAM_SUCCESS (env_view s) (env_view s')"
    using putenv_spec [OF assms(1), of "Some ?nv" e] by (simp_all only: p put_result_def option.case prod.case)
  ultimately show ?thesis using n(1) by (cases v) (auto simp: put_spec_def Let_def simp del: takeWhile_eq_all_conv split: if_splits)
qed

interpretation env: keyed_store has_env env_view "change_env e"
  by unfold_locales (use change_env_spec in blast)+

text \<open>Two sets of assignments to different variables give the same environment in any order.\<close>

lemma env_order:
  assumes "has_env s" "changes (change_env e) cs s = Some s1" "changes (change_env e) ds s = Some s2"
    "distinct (map fst cs)" "distinct (map fst ds)" "set cs = set ds" "EQUALS \<notin> set name"
  shows "pam_getenv (Some name) s1 = pam_getenv (Some name) s2"
  using env.changes_order [OF assms(1-6)] env.changes_look [OF assms(1,2)] env.changes_look [OF assms(1,3)] getenv_spec assms(7)
  by metis

end
