(* ===== verification/PamItem.thy ===== *)
theory PamItem
  imports PamEnv PamConf
begin

text \<open>
  The items of a handle, \<open>pam_item.c\<close>, and the question for the user name. An undefined access (a null
  pointer that is dereferenced, an item of the wrong kind) makes an operation \<open>None\<close>.
\<close>

abbreviation (input) PAM_SERVICE :: int where "PAM_SERVICE \<equiv> 1"
abbreviation (input) PAM_USER :: int where "PAM_USER \<equiv> 2"
abbreviation (input) PAM_TTY :: int where "PAM_TTY \<equiv> 3"
abbreviation (input) PAM_RHOST :: int where "PAM_RHOST \<equiv> 4"
abbreviation (input) PAM_CONV :: int where "PAM_CONV \<equiv> 5"
abbreviation (input) PAM_AUTHTOK :: int where "PAM_AUTHTOK \<equiv> 6"
abbreviation (input) PAM_OLDAUTHTOK :: int where "PAM_OLDAUTHTOK \<equiv> 7"
abbreviation (input) PAM_RUSER :: int where "PAM_RUSER \<equiv> 8"
abbreviation (input) PAM_USER_PROMPT :: int where "PAM_USER_PROMPT \<equiv> 9"
abbreviation (input) PAM_FAIL_DELAY :: int where "PAM_FAIL_DELAY \<equiv> 10"
abbreviation (input) PAM_XDISPLAY :: int where "PAM_XDISPLAY \<equiv> 11"
abbreviation (input) PAM_XAUTHDATA :: int where "PAM_XAUTHDATA \<equiv> 12"
abbreviation (input) PAM_AUTHTOK_TYPE :: int where "PAM_AUTHTOK_TYPE \<equiv> 13"

text \<open>What an item pointer refers to, and the pointers a caller may pass: the null pointer, the pointer
  the handle itself holds for this item, or a pointer to an object of the caller.\<close>

datatype item = IString bytes | IConv nat | IDelay nat | IXauth xauth_data

datatype item_pointer = Null | Own | Fresh item

subsection \<open>Setting an item\<close>

text \<open>\<open>TRY_SET\<close> on a string: the old value, the pointer given, and the value and return code that result.\<close>

definition try_set ::
    "('f, 'w, 'd) platform \<Rightarrow> bytes option \<Rightarrow> item_pointer \<Rightarrow> ('w, 'd) pam_public \<Rightarrow>
     (int \<times> bytes option \<times> ('w, 'd) pam_public) option" where
  "try_set e old item s =
     (case item of
        Null \<Rightarrow> Some (PAM_SUCCESS, None, s)
      | Own \<Rightarrow> Some (PAM_SUCCESS, old, s)
      | Fresh (IString b) \<Rightarrow>
          (case pam_strdup e (Some b) s of
             (None, s1) \<Rightarrow> Some (PAM_BUF_ERR, old, s1)
           | (Some c, s1) \<Rightarrow> Some (PAM_SUCCESS, Some c, s1))
      | Fresh _ \<Rightarrow> None)"

text \<open>A string item: \<open>TRY_SET\<close> and its early return, then the rest of the case.\<close>

definition set_string ::
    "('f, 'w, 'd) platform \<Rightarrow> bytes option \<Rightarrow> (bytes option \<Rightarrow> ('w, 'd) pam_public \<Rightarrow> ('w, 'd) pam_public) \<Rightarrow>
     (('w, 'd) pam_public \<Rightarrow> ('w, 'd) pam_public) \<Rightarrow> item_pointer \<Rightarrow> ('w, 'd) pam_public \<Rightarrow>
     (int \<times> ('w, 'd) pam_public) option" where
  "set_string e old store after item s =
     (case try_set e old item s of
        None \<Rightarrow> None
      | Some (r, v, s1) \<Rightarrow> if r \<noteq> PAM_SUCCESS then Some (r, s1) else Some (PAM_SUCCESS, after (store v s1)))"

text \<open>\<open>_pam_overwrite\<close> leaves the empty string.\<close>

definition overwrite :: "bytes option \<Rightarrow> bytes option" where
  "overwrite x = map_option (\<lambda>_. []) x"

text \<open>A token: a module may set it, and the old one is erased before the new one is copied.\<close>

definition set_token ::
    "('f, 'w, 'd) platform \<Rightarrow> bytes option \<Rightarrow> (bytes option \<Rightarrow> ('w, 'd) pam_public \<Rightarrow> ('w, 'd) pam_public) \<Rightarrow>
     item_pointer \<Rightarrow> ('w, 'd) pam_public \<Rightarrow> (int \<times> ('w, 'd) pam_public) option" where
  "set_token e old store item s =
     (if caller_is s \<noteq> FROM_MODULE then Some (PAM_BAD_ITEM, s)
      else if item = Own \<or> item = Null \<and> old = None then Some (PAM_SUCCESS, s)
      else set_string e (overwrite old) store id item (store (overwrite old) s))"

definition set_conv :: "('f, 'w, 'd) platform \<Rightarrow> item_pointer \<Rightarrow> ('w, 'd) pam_public \<Rightarrow> (int \<times> ('w, 'd) pam_public) option" where
  "set_conv e item s =
     (case (case item of Own \<Rightarrow> (case conversation s of None \<Rightarrow> Null | Some c \<Rightarrow> Fresh (IConv c)) | _ \<Rightarrow> item) of
        Fresh (IConv c) \<Rightarrow>
          (case malloc e s of
             (False, s1) \<Rightarrow> Some (PAM_BUF_ERR, s1)
           | (True, s1) \<Rightarrow> Some (PAM_SUCCESS, s1\<lparr>conversation := Some c, fail_user := PAM_SUCCESS\<rparr>))
      | Null \<Rightarrow> Some (PAM_PERM_DENIED, s)
      | _ \<Rightarrow> None)"

definition no_xauth :: xauth_data where
  "no_xauth = \<lparr>namelen = 0, xa_name = None, datalen = 0, xa_data = None\<rparr>"

text \<open>\<open>_pam_memdup\<close>. A negative length is a request that no allocator can meet.\<close>

definition pam_memdup ::
    "('f, 'w, 'd) platform \<Rightarrow> bytes option \<Rightarrow> int \<Rightarrow> ('w, 'd) pam_public \<Rightarrow> (bytes option \<times> ('w, 'd) pam_public) option" where
  "pam_memdup e x len s =
     (case x of
        None \<Rightarrow> Some (None, s)
      | Some b \<Rightarrow>
          (case malloc e s of
             (False, s1) \<Rightarrow> Some (None, s1)
           | (True, s1) \<Rightarrow>
               if len < 0 then Some (None, s1)
               else if length b < nat len then None
               else Some (Some (take (nat len) b), s1)))"

definition set_xauth :: "('f, 'w, 'd) platform \<Rightarrow> item_pointer \<Rightarrow> ('w, 'd) pam_public \<Rightarrow> (int \<times> ('w, 'd) pam_public) option" where
  "set_xauth e item s =
     (case item of
        Own \<Rightarrow> Some (PAM_SUCCESS, s)
      | Fresh (IXauth x) \<Rightarrow>
          (case pam_strdup e (xa_name x) s of
             (None, s1) \<Rightarrow> Some (PAM_BUF_ERR, s1\<lparr>xauth := no_xauth\<rparr>)
           | (Some nm, s1) \<Rightarrow>
               (case pam_memdup e (xa_data x) (datalen x) s1 of
                  None \<Rightarrow> None
                | Some (None, s2) \<Rightarrow> Some (PAM_BUF_ERR, s2\<lparr>xauth := no_xauth\<rparr>)
                | Some (Some d, s2) \<Rightarrow> Some (PAM_SUCCESS, s2\<lparr>xauth := x\<lparr>xa_name := Some nm, xa_data := Some d\<rparr>\<rparr>)))
      | _ \<Rightarrow> None)"

text \<open>The service name is put in lower case, which reads it.\<close>

definition set_service :: "('f, 'w, 'd) platform \<Rightarrow> item_pointer \<Rightarrow> ('w, 'd) pam_public \<Rightarrow> (int \<times> ('w, 'd) pam_public) option" where
  "set_service e item s =
     (case try_set e (service_name s) item (s\<lparr>handlers_loaded := False\<rparr>) of
        None \<Rightarrow> None
      | Some (r, v, s1) \<Rightarrow>
          if r \<noteq> PAM_SUCCESS then Some (r, s1)
          else (case v of None \<Rightarrow> None | Some b \<Rightarrow> Some (PAM_SUCCESS, s1\<lparr>service_name := Some (map tolower b)\<rparr>)))"

definition clear_fail_user :: "('w, 'd) pam_public \<Rightarrow> ('w, 'd) pam_public" where
  "clear_fail_user s = s\<lparr>fail_user := PAM_SUCCESS\<rparr>"

definition pam_set_item :: "('f, 'w, 'd) platform \<Rightarrow> int \<Rightarrow> item_pointer \<Rightarrow> ('w, 'd) pam_public \<Rightarrow> (int \<times> ('w, 'd) pam_public) option" where
  "pam_set_item e item_type item s =
     (if item_type = PAM_SERVICE then set_service e item s
      else if item_type = PAM_USER then set_string e (pam_user s) (\<lambda>v. pam_user_update (\<lambda>_. v)) clear_fail_user item s
      else if item_type = PAM_USER_PROMPT then set_string e (user_prompt s) (\<lambda>v. user_prompt_update (\<lambda>_. v)) clear_fail_user item s
      else if item_type = PAM_TTY then set_string e (tty s) (\<lambda>v. tty_update (\<lambda>_. v)) id item s
      else if item_type = PAM_RUSER then set_string e (ruser s) (\<lambda>v. ruser_update (\<lambda>_. v)) id item s
      else if item_type = PAM_RHOST then set_string e (rhost s) (\<lambda>v. rhost_update (\<lambda>_. v)) id item s
      else if item_type = PAM_AUTHTOK then set_token e (authtok s) (\<lambda>v. authtok_update (\<lambda>_. v)) item s
      else if item_type = PAM_OLDAUTHTOK then set_token e (oldauthtok s) (\<lambda>v. oldauthtok_update (\<lambda>_. v)) item s
      else if item_type = PAM_CONV then set_conv e item s
      else if item_type = PAM_FAIL_DELAY then
        (case item of
           Null \<Rightarrow> Some (PAM_SUCCESS, s\<lparr>delay_fn_ptr := None\<rparr>)
         | Own \<Rightarrow> Some (PAM_SUCCESS, s)
         | Fresh (IDelay f) \<Rightarrow> Some (PAM_SUCCESS, s\<lparr>delay_fn_ptr := Some f\<rparr>)
         | _ \<Rightarrow> None)
      else if item_type = PAM_XDISPLAY then set_string e (xdisplay s) (\<lambda>v. xdisplay_update (\<lambda>_. v)) id item s
      else if item_type = PAM_XAUTHDATA then set_xauth e item s
      else if item_type = PAM_AUTHTOK_TYPE then set_string e (authtok_type s) (\<lambda>v. authtok_type_update (\<lambda>_. v)) id item s
      else Some (PAM_BAD_ITEM, s))"

subsection \<open>Reading an item\<close>

definition pam_get_item :: "int \<Rightarrow> bool \<Rightarrow> ('w, 'd) pam_public \<Rightarrow> int \<times> item option" where
  "pam_get_item item_type dest s =
     (if \<not> dest then (PAM_PERM_DENIED, None)
      else if item_type = PAM_SERVICE then (PAM_SUCCESS, map_option IString (service_name s))
      else if item_type = PAM_USER then (PAM_SUCCESS, map_option IString (pam_user s))
      else if item_type = PAM_USER_PROMPT then (PAM_SUCCESS, map_option IString (user_prompt s))
      else if item_type = PAM_TTY then (PAM_SUCCESS, map_option IString (tty s))
      else if item_type = PAM_RUSER then (PAM_SUCCESS, map_option IString (ruser s))
      else if item_type = PAM_RHOST then (PAM_SUCCESS, map_option IString (rhost s))
      else if item_type = PAM_AUTHTOK then
        (if caller_is s = FROM_MODULE then (PAM_SUCCESS, map_option IString (authtok s)) else (PAM_BAD_ITEM, None))
      else if item_type = PAM_OLDAUTHTOK then
        (if caller_is s = FROM_MODULE then (PAM_SUCCESS, map_option IString (oldauthtok s)) else (PAM_BAD_ITEM, None))
      else if item_type = PAM_CONV then (PAM_SUCCESS, map_option IConv (conversation s))
      else if item_type = PAM_FAIL_DELAY then (PAM_SUCCESS, map_option IDelay (delay_fn_ptr s))
      else if item_type = PAM_XDISPLAY then (PAM_SUCCESS, map_option IString (xdisplay s))
      else if item_type = PAM_XAUTHDATA then (PAM_SUCCESS, Some (IXauth (xauth s)))
      else if item_type = PAM_AUTHTOK_TYPE then (PAM_SUCCESS, map_option IString (authtok_type s))
      else (PAM_BAD_ITEM, None))"

subsection \<open>The user name\<close>

definition use_prompt :: "bytes option \<Rightarrow> ('w, 'd) pam_public \<Rightarrow> bytes" where
  "use_prompt prompt s =
     (case prompt of Some b \<Rightarrow> b | None \<Rightarrow> (case user_prompt s of Some b \<Rightarrow> b | None \<Rightarrow> asc ''login:''))"

text \<open>A question that was interrupted may only be asked again with the same prompt.\<close>

definition resume_prompt :: "bytes \<Rightarrow> ('w, 'd) pam_public \<Rightarrow> ('w, 'd) pam_public option" where
  "resume_prompt p s =
     (if want_user s then
        (case former_prompt s of
           None \<Rightarrow> None
         | Some q \<Rightarrow> if q = p then Some (s\<lparr>want_user := False, former_prompt := None\<rparr>) else None)
      else Some s)"

definition conv_code :: "int \<Rightarrow> int" where
  "conv_code r = (if r = PAM_SUCCESS \<or> r = PAM_BUF_ERR \<or> r = PAM_CONV_AGAIN \<or> r = PAM_CONV_ERR then r else PAM_CONV_ERR)"

text \<open>The call of the conversation function and what its answer does.\<close>

definition ask_user ::
    "('f, 'w, 'd) platform \<Rightarrow> nat \<Rightarrow> bytes \<Rightarrow> ('w, 'd) pam_public \<Rightarrow> ((int \<times> bytes option) \<times> ('w, 'd) pam_public) option" where
  "ask_user e c p s =
     (case call_conv e c p (world s) of
        (r0, resp, w) \<Rightarrow>
          let r = conv_code r0; s1 = s\<lparr>world := w\<rparr> in
          if r = PAM_CONV_AGAIN then
            (case pam_strdup e (Some p) s1 of
               (q, s2) \<Rightarrow> Some ((r, None), s2\<lparr>want_user := True, former_prompt := q\<rparr>))
          else if r = PAM_SUCCESS then
            (case resp of
               Some (Some name) \<Rightarrow>
                 (case pam_set_item e PAM_USER (Fresh (IString name)) s1 of
                    None \<Rightarrow> None
                  | Some (r1, s2) \<Rightarrow> Some ((r1, pam_user s2), s2))
             | _ \<Rightarrow> Some ((PAM_CONV_ERR, None), s1\<lparr>fail_user := PAM_CONV_ERR\<rparr>))
          else Some ((r, None), s1\<lparr>fail_user := r\<rparr>))"

definition pam_get_user ::
    "('f, 'w, 'd) platform \<Rightarrow> bool \<Rightarrow> bytes option \<Rightarrow> ('w, 'd) pam_public \<Rightarrow> ((int \<times> bytes option) \<times> ('w, 'd) pam_public) option" where
  "pam_get_user e dest prompt s =
     (if \<not> dest then Some ((PAM_SYSTEM_ERR, None), s)
      else
        (case conversation s of
           None \<Rightarrow> Some ((PAM_SYSTEM_ERR, None), s)
         | Some c \<Rightarrow>
             (case pam_user s of
                Some u \<Rightarrow> Some ((PAM_SUCCESS, Some u), s)
              | None \<Rightarrow>
                  if fail_user s \<noteq> PAM_SUCCESS then Some ((fail_user s, None), s)
                  else
                    (let p = use_prompt prompt s in
                     case resume_prompt p s of
                       None \<Rightarrow> Some ((PAM_ABORT, None), s)
                     | Some s1 \<Rightarrow> ask_user e c p s1))))"

definition pam_sanitize :: "('f, 'w, 'd) platform \<Rightarrow> ('w, 'd) pam_public \<Rightarrow> ('w, 'd) pam_public option" where
  "pam_sanitize e s =
     (case pam_set_item e PAM_AUTHTOK Null (s\<lparr>caller_is := FROM_MODULE\<rparr>) of
        None \<Rightarrow> None
      | Some (r1, s1) \<Rightarrow>
          (case pam_set_item e PAM_OLDAUTHTOK Null s1 of
             None \<Rightarrow> None
           | Some (r2, s2) \<Rightarrow> Some (s2\<lparr>caller_is := caller_is s\<rparr>)))"

subsection \<open>Tokens\<close>

lemma sanitize_clears: "pam_sanitize e s = Some (s\<lparr>authtok := None, oldauthtok := None\<rparr>)"
  by (cases "authtok s"; cases "oldauthtok s")
    (simp_all add: pam_sanitize_def pam_set_item_def set_token_def set_string_def try_set_def overwrite_def)

text \<open>The tokens replaced by others.\<close>

definition with_tokens :: "bytes option \<Rightarrow> bytes option \<Rightarrow> ('w, 'd) pam_public \<Rightarrow> ('w, 'd) pam_public" where
  "with_tokens a b s = s\<lparr>authtok := a, oldauthtok := b\<rparr>"

lemma with_tokens_fields [simp]:
  "caller_is (with_tokens a b s) = caller_is s" "service_name (with_tokens a b s) = service_name s"
  "pam_user (with_tokens a b s) = pam_user s" "user_prompt (with_tokens a b s) = user_prompt s"
  "tty (with_tokens a b s) = tty s" "ruser (with_tokens a b s) = ruser s" "rhost (with_tokens a b s) = rhost s"
  "conversation (with_tokens a b s) = conversation s" "delay_fn_ptr (with_tokens a b s) = delay_fn_ptr s"
  "xdisplay (with_tokens a b s) = xdisplay s" "xauth (with_tokens a b s) = xauth s"
  "authtok_type (with_tokens a b s) = authtok_type s" "allocs (with_tokens a b s) = allocs s"
  by (simp_all add: with_tokens_def)

lemma with_tokens_malloc: "malloc e (with_tokens a b s) = map_prod id (with_tokens a b) (malloc e s)"
  by (simp add: malloc_def with_tokens_def)

lemma with_tokens_strdup: "pam_strdup e x (with_tokens a b s) = map_prod id (with_tokens a b) (pam_strdup e x s)"
  by (simp add: pam_strdup_def with_tokens_malloc split: option.splits prod.splits bool.splits)

lemma with_tokens_try_set: "try_set e x i (with_tokens a b s) = map_option (map_prod id (map_prod id (with_tokens a b))) (try_set e x i s)"
  by (simp add: try_set_def with_tokens_strdup split: item_pointer.splits item.splits prod.splits option.splits)

lemma with_tokens_set_string:
  assumes "\<And>v s. store v (with_tokens a b s) = with_tokens a b (store v s)" "\<And>s. after (with_tokens a b s) = with_tokens a b (after s)"
  shows "set_string e x store after i (with_tokens a b s) = map_option (map_prod id (with_tokens a b)) (set_string e x store after i s)"
  using assms by (simp add: set_string_def with_tokens_try_set split: option.splits prod.splits)

lemma with_tokens_updates:
  "(with_tokens a b s)\<lparr>pam_user := v\<rparr> = with_tokens a b (s\<lparr>pam_user := v\<rparr>)"
  "(with_tokens a b s)\<lparr>user_prompt := v\<rparr> = with_tokens a b (s\<lparr>user_prompt := v\<rparr>)"
  "(with_tokens a b s)\<lparr>tty := v\<rparr> = with_tokens a b (s\<lparr>tty := v\<rparr>)"
  "(with_tokens a b s)\<lparr>ruser := v\<rparr> = with_tokens a b (s\<lparr>ruser := v\<rparr>)"
  "(with_tokens a b s)\<lparr>rhost := v\<rparr> = with_tokens a b (s\<lparr>rhost := v\<rparr>)"
  "(with_tokens a b s)\<lparr>xdisplay := v\<rparr> = with_tokens a b (s\<lparr>xdisplay := v\<rparr>)"
  "(with_tokens a b s)\<lparr>authtok_type := v\<rparr> = with_tokens a b (s\<lparr>authtok_type := v\<rparr>)"
  "(with_tokens a b s)\<lparr>delay_fn_ptr := f\<rparr> = with_tokens a b (s\<lparr>delay_fn_ptr := f\<rparr>)"
  "(with_tokens a b s)\<lparr>conversation := f\<rparr> = with_tokens a b (s\<lparr>conversation := f\<rparr>)"
  "(with_tokens a b s)\<lparr>fail_user := r\<rparr> = with_tokens a b (s\<lparr>fail_user := r\<rparr>)"
  "(with_tokens a b s)\<lparr>xauth := x\<rparr> = with_tokens a b (s\<lparr>xauth := x\<rparr>)"
  "(with_tokens a b s)\<lparr>service_name := v\<rparr> = with_tokens a b (s\<lparr>service_name := v\<rparr>)"
  "(with_tokens a b s)\<lparr>handlers_loaded := l\<rparr> = with_tokens a b (s\<lparr>handlers_loaded := l\<rparr>)"
  by (simp_all add: with_tokens_def)

lemma with_tokens_service:
  "set_service e i (with_tokens a b s) = map_option (map_prod id (with_tokens a b)) (set_service e i s)"
  by (simp add: set_service_def with_tokens_updates with_tokens_try_set split: option.splits prod.splits)

lemma with_tokens_conv: "set_conv e i (with_tokens a b s) = map_option (map_prod id (with_tokens a b)) (set_conv e i s)"
  by (simp add: set_conv_def with_tokens_updates with_tokens_malloc split: option.splits prod.splits item_pointer.splits item.splits bool.splits)

lemma with_tokens_memdup:
  "pam_memdup e x n (with_tokens a b s) = map_option (map_prod id (with_tokens a b)) (pam_memdup e x n s)"
  by (simp add: pam_memdup_def with_tokens_malloc split: option.splits prod.splits bool.splits)

lemma with_tokens_xauth: "set_xauth e i (with_tokens a b s) = map_option (map_prod id (with_tokens a b)) (set_xauth e i s)"
  by (auto simp: set_xauth_def with_tokens_updates with_tokens_strdup with_tokens_memdup split: option.splits prod.splits item_pointer.splits item.splits)

text \<open>The calls of an application neither depend on the tokens nor change them.\<close>

theorem tokens_hidden:
  assumes "caller_is s \<noteq> FROM_MODULE"
  shows "pam_get_item item_type dest (with_tokens a b s) = pam_get_item item_type dest s"
    "pam_set_item e item_type item (with_tokens a b s) = map_option (map_prod id (with_tokens a b)) (pam_set_item e item_type item s)"
  subgoal using assms by (simp add: pam_get_item_def)
  subgoal using assms
    by (simp add: pam_set_item_def set_token_def with_tokens_service with_tokens_conv with_tokens_xauth
        with_tokens_set_string with_tokens_updates clear_fail_user_def split: item_pointer.splits item.splits)
  done

subsection \<open>What a successful call stores\<close>

text \<open>The string items a module can set to any value.\<close>

definition plain_items :: "int list" where
  "plain_items = [PAM_USER, PAM_TTY, PAM_RHOST, PAM_AUTHTOK, PAM_OLDAUTHTOK, PAM_RUSER, PAM_USER_PROMPT, PAM_XDISPLAY, PAM_AUTHTOK_TYPE]"

definition item_view :: "('w, 'd) pam_public \<Rightarrow> int \<rightharpoonup> item" where
  "item_view s k = snd (pam_get_item k True s)"

definition change_item :: "('f, 'w, 'd) platform \<Rightarrow> int \<Rightarrow> item option \<Rightarrow> ('w, 'd) pam_public \<Rightarrow> ('w, 'd) pam_public option" where
  "change_item e k v s =
     (if k \<in> set plain_items then
        (case pam_set_item e k (case v of None \<Rightarrow> Null | Some x \<Rightarrow> Fresh x) s of
           Some (r, s') \<Rightarrow> if r = PAM_SUCCESS then Some s' else None
         | None \<Rightarrow> None)
      else None)"

lemma set_string_success:
  assumes "set_string e old store after (case v of None \<Rightarrow> Null | Some x \<Rightarrow> Fresh x) s = Some (PAM_SUCCESS, s')"
  obtains n where "s' = after (store (map_option (\<lambda>x. case x of IString b \<Rightarrow> b | _ \<Rightarrow> []) v) (s\<lparr>allocs := n\<rparr>))"
    "\<forall>x. v = Some x \<longrightarrow> (\<exists>b. x = IString b)"
proof (cases v)
  case None
  have "s\<lparr>allocs := allocs s\<rparr> = s" by simp
  then show ?thesis using that [of "allocs s"] None assms by (simp add: set_string_def try_set_def)
next
  case (Some x)
  then obtain b where "x = IString b" using assms by (cases x) (auto simp: set_string_def try_set_def)
  then show ?thesis using that [of "allocs s + 1"] Some assms
    by (auto simp: set_string_def try_set_def pam_strdup_def malloc_def split: if_splits option.splits prod.splits bool.splits)
qed

lemma set_token_success:
  assumes "set_token e (get s) store (case v of None \<Rightarrow> Null | Some x \<Rightarrow> Fresh x) s = Some (PAM_SUCCESS, s')" "caller_is s = FROM_MODULE"
    "\<And>a b n s. store a ((store b s)\<lparr>allocs := n\<rparr>) = store a (s\<lparr>allocs := n\<rparr>)" "store (get s) s = s"
  obtains n where "s' = store (map_option (\<lambda>x. case x of IString b \<Rightarrow> b | _ \<Rightarrow> []) v) (s\<lparr>allocs := n\<rparr>)"
    "\<forall>x. v = Some x \<longrightarrow> (\<exists>b. x = IString b)"
proof (cases "v = None \<and> get s = None")
  case True
  have "s\<lparr>allocs := allocs s\<rparr> = s" by simp
  then show ?thesis using that [of "allocs s"] True assms(1,2,4) by (simp add: set_token_def)
next
  case False
  then have "set_string e (overwrite (get s)) store id (case v of None \<Rightarrow> Null | Some x \<Rightarrow> Fresh x) (store (overwrite (get s)) s) = Some (PAM_SUCCESS, s')"
    using assms(1,2) by (auto simp: set_token_def split: if_splits option.splits)
  then show ?thesis using that assms(3) by (auto elim!: set_string_success)
qed

lemma item_strings:
  assumes "\<forall>x. v = Some x \<longrightarrow> (\<exists>b. x = IString b)"
  shows "map_option IString (map_option (\<lambda>x. case x of IString b \<Rightarrow> b | _ \<Rightarrow> []) v) = v"
  using assms by (cases v) auto

lemma plain_item_cases:
  assumes "k \<in> set plain_items"
  obtains "k = PAM_USER" | "k = PAM_TTY" | "k = PAM_RHOST" | "k = PAM_AUTHTOK" | "k = PAM_OLDAUTHTOK" | "k = PAM_RUSER"
    | "k = PAM_USER_PROMPT" | "k = PAM_XDISPLAY" | "k = PAM_AUTHTOK_TYPE"
  using assms by (auto simp: plain_items_def)

lemma change_item_spec:
  assumes "caller_is s = FROM_MODULE" "change_item e k v s = Some s'"
  shows "caller_is s' = FROM_MODULE \<and> item_view s' = (item_view s)(k := v)"
proof -
  from assms(2) have k: "k \<in> set plain_items"
    and c: "pam_set_item e k (case v of None \<Rightarrow> Null | Some x \<Rightarrow> Fresh x) s = Some (PAM_SUCCESS, s')"
    by (auto simp: change_item_def split: if_splits option.splits)
  note get = fun_eq_iff item_view_def pam_get_item_def clear_fail_user_def item_strings
  from k c show ?thesis
    by (cases rule: plain_item_cases)
      (use assms(1) in \<open>auto simp: pam_set_item_def get elim!: set_string_success set_token_success\<close>)
qed

interpretation items: keyed_store "\<lambda>s. caller_is s = FROM_MODULE" item_view "change_item e"
  by unfold_locales (use change_item_spec in blast)+

subsection \<open>The user name is asked for once\<close>

lemma set_user_cases:
  assumes "pam_set_item e PAM_USER (Fresh (IString name)) s = Some (r, s')"
  shows "r = PAM_SUCCESS \<and> pam_user s' = Some name \<and> conversation s' = conversation s \<or> r = PAM_BUF_ERR \<and> pam_user s' = pam_user s"
  using assms by (auto simp: pam_set_item_def set_string_def try_set_def pam_strdup_def malloc_def clear_fail_user_def split: if_splits bool.splits)

theorem get_user_settles:
  assumes "pam_get_user e dest prompt s = Some ((r, u), s')" "r \<notin> {PAM_CONV_AGAIN, PAM_BUF_ERR, PAM_ABORT}"
  shows "pam_get_user e dest prompt' s' = Some ((r, u), s') \<and> (r = PAM_SUCCESS \<longrightarrow> u \<noteq> None \<and> pam_user s' = u)"
proof (cases "dest \<and> conversation s \<noteq> None \<and> pam_user s = None \<and> fail_user s = PAM_SUCCESS")
  case False
  then show ?thesis using assms by (cases "pam_user s") (auto simp: pam_get_user_def split: if_splits option.splits)
next
  case True
  then obtain c where c: "dest" "conversation s = Some c" "pam_user s = None" "fail_user s = PAM_SUCCESS" by auto
  let ?p = "use_prompt prompt s"
  from assms c obtain s1 where s1: "resume_prompt ?p s = Some s1" and a: "ask_user e c ?p s1 = Some ((r, u), s')"
    by (auto simp: pam_get_user_def Let_def split: option.splits)
  have f: "conversation s1 = Some c" "pam_user s1 = None" using s1 c by (auto simp: resume_prompt_def split: if_splits option.splits)
  obtain r0 resp w where cc: "call_conv e c ?p (world s1) = (r0, resp, w)" by (metis prod_cases3)
  show ?thesis
  proof (cases "conv_code r0 = PAM_SUCCESS \<and> (\<exists>name. resp = Some (Some name))")
    case True
    then obtain name where n: "resp = Some (Some name)" "conv_code r0 = PAM_SUCCESS" by blast
    then obtain r1 s2 where s2: "pam_set_item e PAM_USER (Fresh (IString name)) (s1\<lparr>world := w\<rparr>) = Some (r1, s2)"
      "r = r1" "u = pam_user s2" "s' = s2"
      using a by (auto simp: ask_user_def cc split: option.splits)
    then show ?thesis using set_user_cases [OF s2(1)] assms(2) f c(1) by (auto simp: pam_get_user_def)
  next
    case False
    then have "conversation s' = Some c \<and> pam_user s' = None \<and> fail_user s' = r \<and> r \<noteq> PAM_SUCCESS \<and> u = None"
      using a assms(2) f by (auto simp: ask_user_def cc Let_def split: if_splits option.splits prod.splits)
    then show ?thesis using c(1) by (auto simp: pam_get_user_def)
  qed
qed

end
