(* ===== verification/PamData.thy ===== *)
theory PamData
  imports PamTypes KeyedStore "HOL-Library.Multiset"
begin

text \<open>
  The data that modules keep in the handle, \<open>pam_data.c\<close>: a list of named entries, each with a pointer
  and perhaps a cleanup function, which the library calls when the entry is replaced and at the end of
  the transaction.
\<close>

abbreviation (input) PAM_DATA_REPLACE :: "32 word" where "PAM_DATA_REPLACE \<equiv> 0x20000000"

subsection \<open>Operations\<close>

definition pam_locate_data :: "bytes \<Rightarrow> ('w, 'd) pam_public \<Rightarrow> 'd data_entry option" where
  "pam_locate_data name s = find (\<lambda>d. de_name d = name) (module_data s)"

text \<open>The assignment through the pointer to the entry of that name: \<open>None\<close> when it is gone.\<close>

fun assign_entry :: "bytes \<Rightarrow> 'd \<Rightarrow> nat option \<Rightarrow> 'd data_entry list \<Rightarrow> 'd data_entry list option" where
  "assign_entry name data cleanup [] = None"
| "assign_entry name data cleanup (d # ds) =
     (if de_name d = name then Some (d\<lparr>de_data := data, de_cleanup := cleanup\<rparr> # ds)
      else map_option ((#) d) (assign_entry name data cleanup ds))"

definition run_cleanup :: "('f, 'w, 'd) platform \<Rightarrow> 32 word \<Rightarrow> 'd data_entry \<Rightarrow> ('w, 'd) pam_public \<Rightarrow> ('w, 'd) pam_public" where
  "run_cleanup e status d s = (case de_cleanup d of None \<Rightarrow> s | Some c \<Rightarrow> call_cleanup e c (de_data d) status s)"

definition pam_set_data ::
    "('f, 'w, 'd) platform \<Rightarrow> bytes option \<Rightarrow> 'd \<Rightarrow> nat option \<Rightarrow> ('w, 'd) pam_public \<Rightarrow> (int \<times> ('w, 'd) pam_public) option" where
  "pam_set_data e module_data_name data cleanup s =
     (if caller_is s = FROM_APP then Some (PAM_SYSTEM_ERR, s)
      else
        (case module_data_name of
           None \<Rightarrow> Some (PAM_SYSTEM_ERR, s)
         | Some name \<Rightarrow>
             (case pam_locate_data name s of
                Some d \<Rightarrow>
                  (let s1 = run_cleanup e (PAM_DATA_REPLACE OR 0) d s in
                   case assign_entry name data cleanup (module_data s1) of
                     None \<Rightarrow> None
                   | Some ds \<Rightarrow> Some (PAM_SUCCESS, s1\<lparr>module_data := ds\<rparr>))
              | None \<Rightarrow>
                  (case malloc e s of
                     (False, s1) \<Rightarrow> Some (PAM_BUF_ERR, s1)
                   | (True, s1) \<Rightarrow>
                       (case pam_strdup e (Some name) s1 of
                          (None, s2) \<Rightarrow> Some (PAM_BUF_ERR, s2)
                        | (Some tname, s2) \<Rightarrow>
                            Some (PAM_SUCCESS,
                              s2\<lparr>module_data := \<lparr>de_name = tname, de_data = data, de_cleanup = cleanup\<rparr> # module_data s2\<rparr>))))))"

definition pam_get_data :: "bytes option \<Rightarrow> ('w, 'd) pam_public \<Rightarrow> int \<times> 'd option" where
  "pam_get_data module_data_name s =
     (if caller_is s = FROM_APP then (PAM_SYSTEM_ERR, None)
      else
        (case module_data_name of
           None \<Rightarrow> (PAM_SYSTEM_ERR, None)
         | Some name \<Rightarrow>
             (case pam_locate_data name s of
                Some d \<Rightarrow> (PAM_SUCCESS, Some (de_data d))
              | None \<Rightarrow> (PAM_NO_MODULE_DATA, None))))"

text \<open>The loop follows the list it found at the start; the pointer in the handle keeps its value.\<close>

fun free_entries :: "('f, 'w, 'd) platform \<Rightarrow> 32 word \<Rightarrow> 'd data_entry list \<Rightarrow> ('w, 'd) pam_public \<Rightarrow> ('w, 'd) pam_public" where
  "free_entries e status [] s = s"
| "free_entries e status (d # ds) s = free_entries e status ds (run_cleanup e status d s)"

definition pam_free_data :: "('f, 'w, 'd) platform \<Rightarrow> 32 word \<Rightarrow> ('w, 'd) pam_public \<Rightarrow> ('w, 'd) pam_public" where
  "pam_free_data e status s = free_entries e status (module_data s) s"

subsection \<open>The entries as a keyed store\<close>

lemma assign_entry_find:
  "find (\<lambda>d. de_name d = name) ds = Some d \<Longrightarrow>
   \<exists>as bs. ds = as @ d # bs \<and> de_name d = name \<and> name \<notin> de_name ` set as \<and>
     assign_entry name x c ds = Some (as @ d\<lparr>de_data := x, de_cleanup := c\<rparr> # bs)"
proof (induction ds)
  case (Cons a ds)
  show ?case
  proof (cases "de_name a = name")
    case True
    then show ?thesis using Cons(2) by (intro exI [of _ "[]"] exI [of _ ds]) auto
  next
    case False
    then obtain as bs where "ds = as @ d # bs" "de_name d = name" "name \<notin> de_name ` set as"
      "assign_entry name x c ds = Some (as @ d\<lparr>de_data := x, de_cleanup := c\<rparr> # bs)" using Cons by auto
    then show ?thesis using False by (intro exI [of _ "a # as"] exI [of _ bs]) auto
  qed
qed simp

lemma find_none: "find (\<lambda>d. de_name d = name) ds = None \<longleftrightarrow> name \<notin> de_name ` set ds"
  by (induction ds) auto

definition data_view :: "('w, 'd) pam_public \<Rightarrow> bytes \<rightharpoonup> 'd" where
  "data_view s name = map_option de_data (pam_locate_data name s)"

definition plain_data :: "('w, 'd) pam_public \<Rightarrow> bool" where
  "plain_data s \<longleftrightarrow> caller_is s \<noteq> FROM_APP \<and> (\<forall>d\<in>set (module_data s). de_cleanup d = None)"

definition change_data :: "('f, 'w, 'd) platform \<Rightarrow> bytes \<Rightarrow> 'd option \<Rightarrow> ('w, 'd) pam_public \<Rightarrow> ('w, 'd) pam_public option" where
  "change_data e name v s =
     (case v of
        None \<Rightarrow> None
      | Some x \<Rightarrow>
          (case pam_set_data e (Some name) x None s of
             Some (r, s') \<Rightarrow> if r = PAM_SUCCESS then Some s' else None
           | None \<Rightarrow> None))"

lemma find_replaced:
  "de_name d = name \<Longrightarrow> name \<notin> de_name ` set as \<Longrightarrow>
   find (\<lambda>y. de_name y = k) (as @ d\<lparr>de_data := x, de_cleanup := c\<rparr> # bs) =
     (if k = name then Some (d\<lparr>de_data := x, de_cleanup := c\<rparr>) else find (\<lambda>y. de_name y = k) (as @ d # bs))"
  by (induction as) auto

lemma set_data_new:
  assumes "caller_is s \<noteq> FROM_APP" "pam_locate_data name s = None" "pam_set_data e (Some name) x c s = Some (r, s')"
  shows "r = PAM_SUCCESS \<and> (\<exists>n. s' = s\<lparr>allocs := n, module_data := \<lparr>de_name = name, de_data = x, de_cleanup = c\<rparr> # module_data s\<rparr>)
     \<or> r = PAM_BUF_ERR \<and> (\<exists>n. s' = s\<lparr>allocs := n\<rparr>)"
  using assms by (auto simp: pam_set_data_def malloc_def pam_strdup_def split: bool.splits option.splits)

lemma change_data_spec:
  assumes "plain_data s" "change_data e name v s = Some s'"
  shows "plain_data s' \<and> data_view s' = (data_view s)(name := v)"
proof -
  from assms(2) obtain x where v: "v = Some x" and p: "pam_set_data e (Some name) x None s = Some (PAM_SUCCESS, s')"
    by (auto simp: change_data_def split: option.splits if_splits)
  have a: "caller_is s \<noteq> FROM_APP" using assms(1) by (simp add: plain_data_def)
  show ?thesis
  proof (cases "pam_locate_data name s")
    case None
    from set_data_new [OF a None p] obtain n where
      s': "s' = s\<lparr>allocs := n, module_data := \<lparr>de_name = name, de_data = x, de_cleanup = None\<rparr> # module_data s\<rparr>" by auto
    have "data_view s' k = ((data_view s)(name := v)) k" for k
      unfolding s' v by (simp add: data_view_def pam_locate_data_def)
    moreover have "plain_data s'" using assms(1) unfolding s' by (simp add: plain_data_def)
    ultimately show ?thesis by blast
  next
    case (Some d)
    then have f: "find (\<lambda>d. de_name d = name) (module_data s) = Some d" by (simp add: pam_locate_data_def)
    from assign_entry_find [OF f, where x = x and c = None] obtain as bs where
      d: "module_data s = as @ d # bs" "de_name d = name" "name \<notin> de_name ` set as"
      "assign_entry name x None (module_data s) = Some (as @ d\<lparr>de_data := x, de_cleanup := None\<rparr> # bs)"
      by (elim exE conjE)
    then have "de_cleanup d = None" using assms(1) by (simp add: plain_data_def)
    then have s': "s' = s\<lparr>module_data := as @ d\<lparr>de_data := x, de_cleanup := None\<rparr> # bs\<rparr>"
      using p a Some d(4) by (simp add: pam_set_data_def run_cleanup_def)
    have "data_view s' k = ((data_view s)(name := v)) k" for k
      unfolding s' v using find_replaced [OF d(2,3), where k = k and x = x and c = None and bs = bs] d(1) by (simp add: data_view_def pam_locate_data_def)
    moreover have "plain_data s'" using assms(1) d(1) unfolding s' by (simp add: plain_data_def)
    ultimately show ?thesis by blast
  qed
qed

interpretation data: keyed_store plain_data data_view "change_data e"
  by unfold_locales (use change_data_spec in blast)+

subsection \<open>Every registration is cleaned up exactly once\<close>

text \<open>The registrations that still wait for their cleanup.\<close>

definition pending :: "('w, 'd) pam_public \<Rightarrow> (nat \<times> 'd) multiset" where
  "pending s = (\<Sum>d\<in>#mset (module_data s). case de_cleanup d of None \<Rightarrow> {#} | Some c \<Rightarrow> {#(c, de_data d)#})"

text \<open>Requests of modules, and the registrations among them that the library accepted.\<close>

fun set_all ::
    "('f, 'w, 'd) platform \<Rightarrow> (bytes \<times> 'd \<times> nat option) list \<Rightarrow> ('w, 'd) pam_public \<Rightarrow>
     ((nat \<times> 'd) multiset \<times> ('w, 'd) pam_public) option" where
  "set_all e [] s = Some ({#}, s)"
| "set_all e ((name, x, c) # rs) s =
     (case pam_set_data e (Some name) x c s of
        None \<Rightarrow> None
      | Some (r, s1) \<Rightarrow>
          (case set_all e rs s1 of
             None \<Rightarrow> None
           | Some (acc, s2) \<Rightarrow>
               Some ((case c of Some f \<Rightarrow> if r = PAM_SUCCESS then {#(f, x)#} else {#} | None \<Rightarrow> {#}) + acc, s2)))"

text \<open>A log of the cleanup calls in the state of the world. A cleanup function leaves the handle's list
  and its caller flag alone, and the log records each call.\<close>

definition logs_cleanups :: "('f, 'w, 'd) platform \<Rightarrow> ('w \<Rightarrow> (nat \<times> 'd) list) \<Rightarrow> bool" where
  "logs_cleanups e log \<longleftrightarrow>
     (\<forall>c d status s. log (world (call_cleanup e c d status s)) = (c, d) # log (world s) \<and>
        module_data (call_cleanup e c d status s) = module_data s \<and> caller_is (call_cleanup e c d status s) = caller_is s)"

lemma run_cleanup_log:
  assumes "logs_cleanups e log"
  shows "mset (log (world (run_cleanup e st d s))) = mset (log (world s)) + (case de_cleanup d of None \<Rightarrow> {#} | Some c \<Rightarrow> {#(c, de_data d)#})"
    "module_data (run_cleanup e st d s) = module_data s" "caller_is (run_cleanup e st d s) = caller_is s"
  using assms by (simp_all add: run_cleanup_def logs_cleanups_def split: option.splits)

lemma set_data_log:
  assumes "logs_cleanups e log" "caller_is s \<noteq> FROM_APP"
  shows "\<exists>r s'. pam_set_data e (Some name) x c s = Some (r, s') \<and> caller_is s' = caller_is s \<and>
     mset (log (world s')) + pending s' =
       mset (log (world s)) + pending s + (case c of Some f \<Rightarrow> if r = PAM_SUCCESS then {#(f, x)#} else {#} | None \<Rightarrow> {#})"
proof (cases "pam_locate_data name s")
  case None
  have "pam_set_data e (Some name) x c s \<noteq> None"
    using None assms(2) by (simp add: pam_set_data_def malloc_def pam_strdup_def split: bool.splits)
  then obtain r s' where p: "pam_set_data e (Some name) x c s = Some (r, s')" by auto
  from set_data_new [OF assms(2) None p] show ?thesis using p by (auto simp: pending_def split: option.splits)
next
  case (Some d)
  then have f: "find (\<lambda>d. de_name d = name) (module_data s) = Some d" by (simp add: pam_locate_data_def)
  from assign_entry_find [OF f, where x = x and c = c] obtain as bs where d: "module_data s = as @ d # bs"
    "assign_entry name x c (module_data s) = Some (as @ d\<lparr>de_data := x, de_cleanup := c\<rparr> # bs)"
    by (elim exE conjE)
  let ?s1 = "run_cleanup e (PAM_DATA_REPLACE OR 0) d s"
  have "pam_set_data e (Some name) x c s = Some (PAM_SUCCESS, ?s1\<lparr>module_data := as @ d\<lparr>de_data := x, de_cleanup := c\<rparr> # bs\<rparr>)"
    using Some assms(2) d(2) by (simp add: pam_set_data_def Let_def run_cleanup_log(2) [OF assms(1)])
  then show ?thesis using d(1) by (auto simp: run_cleanup_log [OF assms(1)] pending_def split: option.splits)
qed

lemma set_all_log:
  assumes "logs_cleanups e log" "caller_is s \<noteq> FROM_APP"
  shows "\<exists>acc s'. set_all e rs s = Some (acc, s') \<and> mset (log (world s')) + pending s' = mset (log (world s)) + pending s + acc"
  using assms(2)
proof (induction rs arbitrary: s)
  case (Cons q rs)
  obtain name x c where q: "q = (name, x, c)" by (metis prod_cases3)
  from set_data_log [OF assms(1) Cons(2), of name x c] obtain r s1 where
    s1: "pam_set_data e (Some name) x c s = Some (r, s1)" "caller_is s1 = caller_is s"
    "mset (log (world s1)) + pending s1 =
       mset (log (world s)) + pending s + (case c of Some f \<Rightarrow> if r = PAM_SUCCESS then {#(f, x)#} else {#} | None \<Rightarrow> {#})" by blast
  from Cons(1) [of s1] s1(2) Cons(2) obtain acc s2 where "set_all e rs s1 = Some (acc, s2)"
    "mset (log (world s2)) + pending s2 = mset (log (world s1)) + pending s1 + acc" by auto
  then show ?case using q s1(1,3) by (simp add: union_ac)
qed simp

lemma free_entries_log:
  assumes "logs_cleanups e log"
  shows "mset (log (world (free_entries e st ds s))) =
     mset (log (world s)) + (\<Sum>d\<in>#mset ds. case de_cleanup d of None \<Rightarrow> {#} | Some c \<Rightarrow> {#(c, de_data d)#})"
  by (induction ds arbitrary: s) (simp_all add: run_cleanup_log [OF assms] union_ac)

theorem data_cleaned_once:
  assumes "logs_cleanups e log" "caller_is s \<noteq> FROM_APP" "module_data s = []"
  shows "\<exists>acc s'. set_all e rs s = Some (acc, s') \<and>
     mset (log (world (pam_free_data e status s'))) = mset (log (world s)) + acc"
proof -
  from set_all_log [OF assms(1,2)] obtain acc s' where "set_all e rs s = Some (acc, s')"
    "mset (log (world s')) + pending s' = mset (log (world s)) + pending s + acc" by blast
  then show ?thesis using free_entries_log [OF assms(1), of status "module_data s'" s'] assms(3)
    by (simp add: pam_free_data_def pending_def)
qed

end
