(* ===== verification/PamDelay.thy ===== *)
theory PamDelay
  imports Complex_Main PamTypes
begin

text \<open>
  The delay after a failure, \<open>pam_delay.c\<close>. The code computes in \<open>double\<close>: every operation gives the
  exact result rounded by \<open>dbl\<close>. A conversion of a value that does not fit into \<open>unsigned int\<close> is
  undefined and makes the result \<open>None\<close>.
\<close>

subsection \<open>Operations\<close>

definition pam_reset_timer :: "('w, 'd) pam_public \<Rightarrow> ('w, 'd) pam_public" where
  "pam_reset_timer s = s\<lparr>delay_set := False\<rparr>"

definition pam_start_timer :: "('f, 'w, 'd) platform \<Rightarrow> ('w, 'd) pam_public \<Rightarrow> ('w, 'd) pam_public" where
  "pam_start_timer e s = s\<lparr>delay_begin := time_now e (world s)\<rparr>"

definition pam_rand :: "32 word \<Rightarrow> 32 word" where
  "pam_rand seed = 1664525 * seed + 1013904223"

text \<open>The loop adds three pseudo-random numbers below a million.\<close>

fun rand_sum :: "(rat \<Rightarrow> rat) \<Rightarrow> nat \<Rightarrow> 32 word \<Rightarrow> rat \<Rightarrow> rat" where
  "rand_sum dbl 0 seed acc = acc"
| "rand_sum dbl (Suc n) seed acc =
     (let seed' = pam_rand seed in rand_sum dbl n seed' (dbl (acc + of_int (uint ((seed' div 10) mod 1000000)))))"

definition pam_compute_delay :: "(rat \<Rightarrow> rat) \<Rightarrow> 32 word \<Rightarrow> 32 word \<Rightarrow> 32 word option" where
  "pam_compute_delay dbl seed base =
     (let total = rand_sum dbl 3 seed 0;
          factor = dbl (dbl (dbl (total / 3) / 1000000) - 1 / 2);
          ans = dbl (of_int (uint base) * dbl (1 + factor))
      in if -1 < ans \<and> ans < 2 ^ 32 then Some (word_of_int (if ans < 0 then 0 else \<lfloor>ans\<rfloor>)) else None)"

definition pam_await_timer :: "('f, 'w, 'd) platform \<Rightarrow> (rat \<Rightarrow> rat) \<Rightarrow> int \<Rightarrow> ('w, 'd) pam_public \<Rightarrow> ('w, 'd) pam_public option" where
  "pam_await_timer e dbl status s =
     (case pam_compute_delay dbl (word_of_int (delay_begin s)) (delay_usec s) of
        None \<Rightarrow> None
      | Some delay \<Rightarrow>
          Some (pam_reset_timer
            (case delay_fn_ptr s of
               Some f \<Rightarrow> s\<lparr>world := call_delay e f status delay (world s)\<rparr>
             | None \<Rightarrow>
                 if status \<noteq> PAM_SUCCESS \<and> delay_set s \<and> 0 < delay then s\<lparr>world := wait_usec e delay (world s)\<rparr>
                 else s)))"

definition pam_fail_delay :: "32 word \<Rightarrow> ('w, 'd) pam_public \<Rightarrow> int \<times> ('w, 'd) pam_public" where
  "pam_fail_delay usec s =
     (let largest = (if delay_set s then delay_usec s else 0); s1 = s\<lparr>delay_set := True\<rparr>
      in (PAM_SUCCESS, if largest < usec then s1\<lparr>delay_usec := usec\<rparr> else s1))"

subsection \<open>The length of the delay\<close>

text \<open>What the computation needs of the arithmetic of \<open>double\<close>: rounding respects the order and does
  not change a multiple of one half that needs no more than 40 bits.\<close>

definition rounds :: "(rat \<Rightarrow> rat) \<Rightarrow> bool" where
  "rounds dbl \<longleftrightarrow> mono dbl \<and> (\<forall>k::int. \<bar>k\<bar> < 2 ^ 40 \<longrightarrow> dbl (of_int k / 2) = of_int k / 2)"

lemma rounds_half: "rounds dbl \<Longrightarrow> \<bar>k\<bar> < 2 ^ 40 \<Longrightarrow> dbl (of_int k / 2) = of_int k / 2"
  unfolding rounds_def by blast

lemma rounds_between:
  assumes "rounds dbl" "of_int a / 2 \<le> x" "x \<le> of_int b / 2" "\<bar>a\<bar> < 2 ^ 40" "\<bar>b\<bar> < 2 ^ 40"
  shows "of_int a / 2 \<le> dbl x" "dbl x \<le> of_int b / 2"
proof -
  have "mono dbl" using assms(1) by (simp add: rounds_def)
  then show "of_int a / 2 \<le> dbl x" "dbl x \<le> of_int b / 2"
    using rounds_half [OF assms(1,4)] rounds_half [OF assms(1,5)] monoD assms(2,3) by metis+
qed

lemma rounds_int: "rounds dbl \<Longrightarrow> \<bar>k\<bar> < 2 ^ 39 \<Longrightarrow> dbl (of_int k) = of_int k"
  using rounds_half [of dbl "2 * k"] by simp

lemma rand_below: "uint ((seed div 10) mod 1000000 :: 32 word) < 1000000"
  by (simp add: uint_mod)

lemma rand_sum_bounds:
  assumes "rounds dbl" "0 \<le> k" "k + 1000000 * int n < 2 ^ 39"
  shows "\<exists>m. rand_sum dbl n seed (of_int k) = of_int m \<and> k \<le> m \<and> m \<le> k + 999999 * int n"
  using assms(2,3)
proof (induction n arbitrary: seed k)
  case (Suc n)
  let ?s = "pam_rand seed" let ?j = "uint ((pam_rand seed div 10) mod 1000000 :: 32 word)"
  have j: "0 \<le> ?j" "?j < 1000000" using rand_below by simp_all
  have "dbl (of_int k + of_int ?j) = of_int (k + ?j)" using rounds_int [OF assms(1), of "k + ?j"] Suc(2,3) j by (simp del: of_int_uint)
  moreover from Suc(1) [of "k + ?j" ?s] Suc(2,3) j obtain m where
    "rand_sum dbl n ?s (of_int (k + ?j)) = of_int m" "k + ?j \<le> m" "m \<le> k + ?j + 999999 * int n" by auto
  moreover from this(2,3) j have "k \<le> m" "m \<le> k + 999999 * int (Suc n)" by (simp_all only: of_nat_Suc ring_distribs)
  ultimately show ?case by (intro exI [of _ m]) (simp add: Let_def del: of_int_uint)
qed simp

lemma floor_half:
  fixes a :: rat
  assumes "of_int b / 2 \<le> a" "a \<le> of_int (3 * b) / 2" "0 \<le> b" "3 * b < 2 ^ 33"
  shows "0 \<le> a" "a < 2 ^ 32" "b div 2 \<le> \<lfloor>a\<rfloor>" "2 * \<lfloor>a\<rfloor> \<le> 3 * b" "0 \<le> \<lfloor>a\<rfloor>"
proof -
  have "(0 :: rat) \<le> of_int b" using assms(3) by simp
  then show n: "0 \<le> a" using assms(1) by linarith
  then show "0 \<le> \<lfloor>a\<rfloor>" by simp
  have "(of_int (3 * b) :: rat) < of_int (2 ^ 33)" using assms(4) by (simp only: of_int_less_iff)
  then show "a < 2 ^ 32" using assms(2) by simp
  have "(of_int (2 * (b div 2)) :: rat) \<le> of_int b" by (simp only: of_int_le_iff)
  then have "of_int (b div 2) \<le> a" using assms(1) by simp
  then show "b div 2 \<le> \<lfloor>a\<rfloor>" by (simp only: le_floor_iff)
  have "of_int \<lfloor>a\<rfloor> \<le> a" by simp
  then have "of_int (2 * \<lfloor>a\<rfloor>) \<le> (of_int (3 * b) :: rat)" using assms(2) by (simp add: field_simps) linarith
  then show "2 * \<lfloor>a\<rfloor> \<le> 3 * b" by (simp only: of_int_le_iff)
qed

lemma uint_word_of_int_small: "0 \<le> k \<Longrightarrow> k < 2 ^ 32 \<Longrightarrow> uint (word_of_int k :: 32 word) = k"
  by (simp add: uint_word_of_int take_bit_int_eq_self)

theorem delay_bounds:
  assumes "rounds dbl" "3 * uint base < 2 ^ 33"
  shows "\<exists>d. pam_compute_delay dbl seed base = Some d \<and> uint base div 2 \<le> uint d \<and> 2 * uint d \<le> 3 * uint base"
proof -
  from rand_sum_bounds [OF assms(1), of 0 3 seed] obtain m where
    m: "rand_sum dbl 3 seed 0 = of_int m" "0 \<le> m" "m \<le> 2999997" by auto
  let ?b = "uint base"
  let ?t = "dbl (of_int m / 3 :: rat)" let ?u = "dbl (?t / 1000000)" let ?f = "dbl (?u - 1 / 2)" let ?v = "dbl (1 + ?f)"
  let ?a = "dbl (of_int ?b * ?v)"
  have t: "0 \<le> ?t" "?t \<le> 999999" using rounds_between [OF assms(1), of 0 "of_int m / 3" 1999998] m(2,3) by simp_all
  have u: "0 \<le> ?u" "?u \<le> 1" using rounds_between [OF assms(1), of 0 "?t / 1000000" 2] t by simp_all
  have f: "- 1 / 2 \<le> ?f" "?f \<le> 1 / 2" using rounds_between [OF assms(1), of "- 1" "?u - 1 / 2" 1] u by simp_all
  have v: "1 / 2 \<le> ?v" "?v \<le> 3 / 2" using rounds_between [OF assms(1), of 1 "1 + ?f" 3] f by simp_all
  have b: "0 \<le> ?b" "?b < 2 ^ 32" using uint_lt2p [of base] by simp_all
  have m1: "of_int ?b * (1 / 2) \<le> of_int ?b * ?v" "of_int ?b * ?v \<le> of_int ?b * (3 / 2)"
    using v b(1) by (intro mult_left_mono; simp del: of_int_uint)+
  have a: "of_int ?b / 2 \<le> ?a" "?a \<le> of_int (3 * ?b) / 2"
    using rounds_between [OF assms(1), of ?b "of_int ?b * ?v" "3 * ?b"] m1 b assms(2) by (simp_all del: of_int_uint)
  note fl = floor_half [OF a b(1) assms(2)]
  have "\<lfloor>?a\<rfloor> < 2 ^ 32" using fl(2) by (simp only: floor_less_iff of_int_power of_int_numeral)
  have "pam_compute_delay dbl seed base = Some (word_of_int \<lfloor>?a\<rfloor>)"
    using m(1) fl(1,2) by (simp add: pam_compute_delay_def Let_def del: of_int_uint)
  moreover have "uint (word_of_int \<lfloor>?a\<rfloor> :: 32 word) = \<lfloor>?a\<rfloor>"
    using fl(5) \<open>\<lfloor>?a\<rfloor> < 2 ^ 32\<close> by (rule uint_word_of_int_small)
  ultimately show ?thesis using fl(3,4) by (intro exI [of _ "word_of_int \<lfloor>?a\<rfloor>"]) (simp only: simp_thms)
qed

subsection \<open>The largest request\<close>

text \<open>After the timer was reset the largest request counts, provided that the first one is not zero: a
  first request of zero marks the delay as set and leaves the value of an earlier transaction in place.\<close>

definition fail_delays :: "32 word list \<Rightarrow> ('w, 'd) pam_public \<Rightarrow> ('w, 'd) pam_public" where
  "fail_delays us s = fold (\<lambda>u s. snd (pam_fail_delay u s)) us s"

lemma fail_delays_set:
  assumes "delay_set s"
  shows "delay_set (fail_delays us s)" "delay_usec (fail_delays us s) = Max (insert (delay_usec s) (set us))"
proof -
  have "delay_set (fail_delays us s) \<and> delay_usec (fail_delays us s) = Max (insert (delay_usec s) (set us))"
    using assms
  proof (induction us arbitrary: s)
    case Nil
    then show ?case by (simp add: fail_delays_def)
  next
    case (Cons u us)
    let ?s = "snd (pam_fail_delay u s)"
    have s: "delay_set ?s" "delay_usec ?s = max (delay_usec s) u" using Cons(2) by (auto simp: pam_fail_delay_def Let_def max_def)
    have "fail_delays (u # us) s = fail_delays us ?s" by (simp add: fail_delays_def)
    moreover have "Max (insert (max (delay_usec s) u) (set us)) = Max (insert (delay_usec s) (set (u # us)))"
      by (cases "us = []") (simp_all add: max.assoc)
    ultimately show ?case using Cons(1) [OF s(1)] s(2) by simp
  qed
  then show "delay_set (fail_delays us s)" "delay_usec (fail_delays us s) = Max (insert (delay_usec s) (set us))" by simp_all
qed

theorem fail_delay_largest:
  "delay_usec (fail_delays (u # us) (pam_reset_timer s)) = (if u = 0 then Max (insert (delay_usec s) (set us)) else Max (set (u # us)))"
proof -
  let ?s = "snd (pam_fail_delay u (pam_reset_timer s))"
  have st: "fail_delays (u # us) (pam_reset_timer s) = fail_delays us ?s" by (simp add: fail_delays_def)
  have s: "delay_set ?s" "delay_usec ?s = (if u = 0 then delay_usec s else u)"
    by (auto simp: pam_fail_delay_def Let_def pam_reset_timer_def word_gt_0)
  show ?thesis using fail_delays_set(2) [OF s(1), of us] by (simp add: st s(2))
qed

end
