(* ===== verification/PamApi.thy ===== *)
theory PamApi
  imports PamDispatchThms PamItem PamData PamDelay
begin

text \<open>
  The calls of an application: \<open>pam_start.c\<close>, \<open>pam_end.c\<close> and the wrappers of the dispatcher in
  \<open>pam_auth.c\<close>, \<open>pam_account.c\<close>, \<open>pam_session.c\<close> and \<open>pam_password.c\<close>.
\<close>

abbreviation (input) PAM_ESTABLISH_CRED :: "32 word" where "PAM_ESTABLISH_CRED \<equiv> 2"
abbreviation (input) PAM_PRELIM_CHECK :: "32 word" where "PAM_PRELIM_CHECK \<equiv> 0x4000"
abbreviation (input) PAM_UPDATE_AUTHTOK :: "32 word" where "PAM_UPDATE_AUTHTOK \<equiv> 0x2000"

subsection \<open>Starting and ending a transaction\<close>

definition zero_public :: "'w \<Rightarrow> ('w, 'd) pam_public" where
  "zero_public w =
     \<lparr>caller_is = FROM_NOBODY, authtok = None, oldauthtok = None, conversation = None, user_prompt = None,
      service_name = None, pam_user = None, rhost = None, ruser = None, tty = None, xdisplay = None,
      authtok_type = None, xauth = no_xauth, module_data = [], pam_env = None, delay_set = False, delay_usec = 0,
      delay_begin = 0, delay_fn_ptr = None, fail_user = PAM_SUCCESS, want_user = False, former_prompt = None,
      handlers_loaded = False, confdir = None, allocs = 0, world = w\<rparr>"

definition zero_handle :: "('w, 'd) pam_public \<Rightarrow> ('f, 'w, 'd) pam_handle" where
  "zero_handle s =
     \<lparr>public = s,
      service = \<lparr>modules = None, modules_allocated = 0, conf = no_handlers, others = no_handlers, cells = []\<rparr>,
      former_choice = PAM_NOT_STACKED, former_depth = 0, former_impression = 0, former_status = 0,
      former_substates = None, former_update = False, pam_choice = 0\<rparr>"

text \<open>The copies of the three strings and of the conversation structure; false when memory runs out.\<close>

definition copy_arg :: "('f, 'w, 'd) platform \<Rightarrow> bytes option \<Rightarrow> ('w, 'd) pam_public \<Rightarrow> bool \<times> ('w, 'd) pam_public" where
  "copy_arg e x s = (case x of None \<Rightarrow> (True, s) | Some b \<Rightarrow> malloc e s)"

definition start_public ::
    "('f, 'w, 'd) platform \<Rightarrow> bytes \<Rightarrow> bytes option \<Rightarrow> nat \<Rightarrow> bytes option \<Rightarrow> ('w, 'd) pam_public \<Rightarrow>
     int \<times> ('w, 'd) pam_public" where
  "start_public e name user conv dir s =
     (case malloc e (s\<lparr>caller_is := FROM_APP\<rparr>) of
        (False, s1) \<Rightarrow> (PAM_BUF_ERR, s1)
      | (True, s1) \<Rightarrow>
          (case copy_arg e user (s1\<lparr>service_name := Some (map tolower (after_last 47 name))\<rparr>) of
             (False, s2) \<Rightarrow> (PAM_BUF_ERR, s2)
           | (True, s2) \<Rightarrow>
               (case copy_arg e dir (s2\<lparr>pam_user := user\<rparr>) of
                  (False, s3) \<Rightarrow> (PAM_BUF_ERR, s3)
                | (True, s3) \<Rightarrow>
                    (case malloc e (s3\<lparr>confdir := dir\<rparr>) of
                       (False, s4) \<Rightarrow> (PAM_BUF_ERR, s4)
                     | (True, s4) \<Rightarrow>
                         (case pam_make_env e (s4\<lparr>conversation := Some conv, module_data := []\<rparr>) of
                            (r, s5) \<Rightarrow> if r \<noteq> PAM_SUCCESS then (PAM_ABORT, s5) else (PAM_SUCCESS, pam_reset_timer s5))))))"

text \<open>\<open>_pam_start_internal\<close>: the return value and the handle, which is null after an error.\<close>

definition pam_start_internal ::
    "('f, 'w, 'd) platform \<Rightarrow> bytes option \<Rightarrow> bytes option \<Rightarrow> nat option \<Rightarrow> bytes option \<Rightarrow> bool \<Rightarrow> 'w \<Rightarrow>
     (int \<times> ('f, 'w, 'd) pam_handle option) option" where
  "pam_start_internal e svc user conv dir dest w =
     (if \<not> dest then Some (PAM_SYSTEM_ERR, None)
      else
        (case svc of
           None \<Rightarrow> Some (PAM_SYSTEM_ERR, None)
         | Some name \<Rightarrow>
             (case conv of
                None \<Rightarrow> Some (PAM_SYSTEM_ERR, None)
              | Some c \<Rightarrow>
                  (case malloc e (zero_public w) of
                     (False, _) \<Rightarrow> Some (PAM_BUF_ERR, None)
                   | (True, s) \<Rightarrow>
                       (case start_public e name user c dir s of
                          (r, s1) \<Rightarrow>
                            if r \<noteq> PAM_SUCCESS then Some (r, None)
                            else
                              (case pam_init_handlers e (pam_start_handlers (zero_handle s1)) of
                                 None \<Rightarrow> None
                               | Some (r1, pamh) \<Rightarrow>
                                   if r1 \<noteq> PAM_SUCCESS then Some (PAM_ABORT, None) else Some (PAM_SUCCESS, Some pamh)))))))"

definition pam_start_confdir ::
    "('f, 'w, 'd) platform \<Rightarrow> bytes option \<Rightarrow> bytes option \<Rightarrow> nat option \<Rightarrow> bytes option \<Rightarrow> bool \<Rightarrow> 'w \<Rightarrow>
     (int \<times> ('f, 'w, 'd) pam_handle option) option" where
  "pam_start_confdir e svc user conv dir dest w = pam_start_internal e svc user conv dir dest w"

definition pam_start ::
    "('f, 'w, 'd) platform \<Rightarrow> bytes option \<Rightarrow> bytes option \<Rightarrow> nat option \<Rightarrow> bool \<Rightarrow> 'w \<Rightarrow>
     (int \<times> ('f, 'w, 'd) pam_handle option) option" where
  "pam_start e svc user conv dest w = pam_start_internal e svc user conv None dest w"

text \<open>\<open>pam_end\<close>: the return value, the handle that is left, and the world. The cleanup functions of the
  modules run first; then all that the handle owns is released.\<close>

definition pam_end :: "('f, 'w, 'd) platform \<Rightarrow> 32 word \<Rightarrow> ('f, 'w, 'd) pam_handle \<Rightarrow> int \<times> ('f, 'w, 'd) pam_handle option \<times> 'w" where
  "pam_end e pam_status pamh =
     (if caller_is (public pamh) = FROM_MODULE then (PAM_SYSTEM_ERR, Some pamh, world (public pamh))
      else (PAM_SUCCESS, None, world (pam_free_data e pam_status (public pamh))))"

subsection \<open>Requests\<close>

definition sanitize :: "('f, 'w, 'd) platform \<Rightarrow> ('f, 'w, 'd) pam_handle \<Rightarrow> ('f, 'w, 'd) pam_handle option" where
  "sanitize e pamh = map_option (\<lambda>s. pamh\<lparr>public := s\<rparr>) (pam_sanitize e (public pamh))"

definition start_timer :: "('f, 'w, 'd) platform \<Rightarrow> ('f, 'w, 'd) pam_handle \<Rightarrow> ('f, 'w, 'd) pam_handle" where
  "start_timer e pamh = pamh\<lparr>public := pam_start_timer e (public pamh)\<rparr>"

definition await_timer ::
    "('f, 'w, 'd) platform \<Rightarrow> (rat \<Rightarrow> rat) \<Rightarrow> int \<Rightarrow> ('f, 'w, 'd) pam_handle \<Rightarrow> ('f, 'w, 'd) pam_handle option" where
  "await_timer e dbl retval pamh = map_option (\<lambda>s. pamh\<lparr>public := s\<rparr>) (pam_await_timer e dbl retval (public pamh))"

definition pam_authenticate ::
    "('f, 'w, 'd) platform \<Rightarrow> (rat \<Rightarrow> rat) \<Rightarrow> 32 word \<Rightarrow> ('f, 'w, 'd) pam_handle \<Rightarrow> (int \<times> ('f, 'w, 'd) pam_handle) option" where
  "pam_authenticate e dbl flags pamh =
     (if caller_is (public pamh) = FROM_MODULE then Some (PAM_SYSTEM_ERR, pamh)
      else do {
        p1 \<leftarrow> (if former_choice pamh = PAM_NOT_STACKED then map_option (start_timer e) (sanitize e pamh) else Some pamh);
        (retval, p2) \<leftarrow> pam_dispatch e flags PAM_AUTHENTICATE p1;
        if retval \<noteq> PAM_INCOMPLETE then do {
          p3 \<leftarrow> sanitize e p2;
          p4 \<leftarrow> await_timer e dbl retval p3;
          Some (retval, p4)
        } else Some (retval, p2)
      })"

definition pam_setcred ::
    "('f, 'w, 'd) platform \<Rightarrow> 32 word \<Rightarrow> ('f, 'w, 'd) pam_handle \<Rightarrow> (int \<times> ('f, 'w, 'd) pam_handle) option" where
  "pam_setcred e flags pamh =
     (if caller_is (public pamh) = FROM_MODULE then Some (PAM_SYSTEM_ERR, pamh)
      else pam_dispatch e (if flags = 0 then PAM_ESTABLISH_CRED else flags) PAM_SETCRED pamh)"

text \<open>\<open>pam_acct_mgmt\<close>, \<open>pam_open_session\<close> and \<open>pam_close_session\<close>.\<close>

definition pam_acct_mgmt ::
    "('f, 'w, 'd) platform \<Rightarrow> 32 word \<Rightarrow> ('f, 'w, 'd) pam_handle \<Rightarrow> (int \<times> ('f, 'w, 'd) pam_handle) option" where
  "pam_acct_mgmt e flags pamh =
     (if caller_is (public pamh) = FROM_MODULE then Some (PAM_SYSTEM_ERR, pamh) else pam_dispatch e flags PAM_ACCOUNT pamh)"

definition pam_open_session ::
    "('f, 'w, 'd) platform \<Rightarrow> 32 word \<Rightarrow> ('f, 'w, 'd) pam_handle \<Rightarrow> (int \<times> ('f, 'w, 'd) pam_handle) option" where
  "pam_open_session e flags pamh =
     (if caller_is (public pamh) = FROM_MODULE then Some (PAM_SYSTEM_ERR, pamh) else pam_dispatch e flags PAM_OPEN_SESSION pamh)"

definition pam_close_session ::
    "('f, 'w, 'd) platform \<Rightarrow> 32 word \<Rightarrow> ('f, 'w, 'd) pam_handle \<Rightarrow> (int \<times> ('f, 'w, 'd) pam_handle) option" where
  "pam_close_session e flags pamh =
     (if caller_is (public pamh) = FROM_MODULE then Some (PAM_SYSTEM_ERR, pamh) else pam_dispatch e flags PAM_CLOSE_SESSION pamh)"

text \<open>The two passes over the password stack: a check, and the update when the check succeeded.\<close>

definition chauthtok_passes ::
    "('f, 'w, 'd) platform \<Rightarrow> 32 word \<Rightarrow> ('f, 'w, 'd) pam_handle \<Rightarrow> (int \<times> ('f, 'w, 'd) pam_handle) option" where
  "chauthtok_passes e flags pamh = do {
     (retval, p1) \<leftarrow>
       (if former_update pamh then Some (PAM_SUCCESS, pamh) else pam_dispatch e (flags OR PAM_PRELIM_CHECK) PAM_CHAUTHTOK pamh);
     if retval = PAM_SUCCESS then pam_dispatch e (flags OR PAM_UPDATE_AUTHTOK) PAM_CHAUTHTOK (p1\<lparr>former_update := True\<rparr>)
     else Some (retval, p1)
   }"

definition pam_chauthtok ::
    "('f, 'w, 'd) platform \<Rightarrow> (rat \<Rightarrow> rat) \<Rightarrow> 32 word \<Rightarrow> ('f, 'w, 'd) pam_handle \<Rightarrow> (int \<times> ('f, 'w, 'd) pam_handle) option" where
  "pam_chauthtok e dbl flags pamh =
     (if caller_is (public pamh) = FROM_MODULE then Some (PAM_SYSTEM_ERR, pamh)
      else if flags AND (PAM_PRELIM_CHECK OR PAM_UPDATE_AUTHTOK) \<noteq> 0 then Some (PAM_SYSTEM_ERR, pamh)
      else do {
        p1 \<leftarrow> (if former_choice pamh = PAM_NOT_STACKED
               then map_option (\<lambda>p. p\<lparr>former_update := False\<rparr>) (sanitize e (start_timer e pamh)) else Some pamh);
        (retval, p2) \<leftarrow> chauthtok_passes e flags p1;
        if retval \<noteq> PAM_INCOMPLETE then do {
          p3 \<leftarrow> sanitize e p2;
          p4 \<leftarrow> await_timer e dbl retval (p3\<lparr>former_update := False\<rparr>);
          Some (retval, p4)
        } else Some (retval, p2)
      })"

subsection \<open>What modules leave alone\<close>

text \<open>A predicate on the public part that does not depend on the caller flag and the allocation count.\<close>

definition stable :: "(('w, 'd) pam_public \<Rightarrow> bool) \<Rightarrow> bool" where
  "stable P \<longleftrightarrow> (\<forall>s c n. P (s\<lparr>caller_is := c\<rparr>) = P s \<and> P (s\<lparr>allocs := n\<rparr>) = P s)"

lemma halloc_keeps: "halloc e p = (b, p') \<Longrightarrow> stable P \<Longrightarrow> P (public p') = P (public p)"
  by (auto simp: halloc_def malloc_def stable_def)

lemma start_walk_keeps:
  assumes "start_walk e resumed hs p = (sw, p1)" "stable P" "P (public p)"
  shows "P (public p1) \<and> (\<forall>skip w. sw = Some (skip, w) \<longrightarrow> P (w_public w))"
proof (cases resumed)
  case True
  with assms show ?thesis by (auto simp: start_walk_def)
next
  case False
  obtain x p2 where h: "halloc e p = (x, p2)" by force
  with halloc_keeps [OF h assms(2)] assms(1,3) False show ?thesis by (cases x) (auto simp: start_walk_def initial_walk_def)
qed

lemma dispatch_aux_keeps:
  assumes "pam_dispatch_aux e flags b k resumed u p = Some (r, p')" "stable P" "P (public p)"
    "kept (\<lambda>f. call_module e f flags) P"
  shows "P (public p')"
proof (cases "service_stack b k (service p) = []")
  case True
  then show ?thesis using assms(1,3) by (simp add: pam_dispatch_aux_eqs(1))
next
  case False
  obtain sw p1 where st: "start_walk e resumed (service_stack b k (service p)) p = (sw, p1)" by force
  note kp = start_walk_keeps [OF st assms(2,3)]
  show ?thesis
  proof (cases sw)
    case None
    then show ?thesis using assms(1) kp pam_dispatch_aux_eqs(2) [OF False st [unfolded None]] by simp
  next
    case (Some x)
    then obtain skip w where w: "sw = Some (skip, w)" by (cases x) simp
    then obtain t where t: "walk_loop (\<lambda>f. call_module e f flags) u skip 0 0 (service_stack b k (service p)) w = Some t"
      using assms(1) False st by (auto simp: pam_dispatch_aux_def Let_def split: option.splits)
    have "P (w_public (stop_walk t))" using walk_shape [OF t assms(4)] kp w by simp
    then show ?thesis using assms(1) False st w t by (cases t) (auto simp: pam_dispatch_aux_def Let_def)
  qed
qed

theorem dispatch_keeps:
  assumes "pam_dispatch e flags choice p = Some (r, p')" "stable P" "P (public p)"
    "kept (\<lambda>f. call_module e f flags) P" "handlers_loaded (public p)"
  shows "P (public p')"
proof -
  have i: "pam_init_handlers e p = Some (PAM_SUCCESS, p)" using assms(5) by (simp add: pam_init_handlers_def)
  show ?thesis
  proof (cases "p' = p")
    case False
    with assms(1) i obtain k u where "run_stack e flags choice k u p = Some (r, p')"
      by (auto simp: pam_dispatch_def split: if_splits option.splits)
    then obtain p1 where a: "pam_dispatch_aux e flags (chosen_other k (service p)) k (former_choice p \<noteq> PAM_NOT_STACKED) u
        (prepare_stack choice k p) = Some (r, p1)" "p' = leave_stack choice r p1"
      by (auto simp: run_stack_def split: option.splits)
    have "P (public (prepare_stack choice k p))" using assms(2,3) by (simp add: prepare_stack_fields stable_def)
    from dispatch_aux_keeps [OF a(1) assms(2) this assms(4)] show ?thesis
      using a(2) assms(2) by (simp add: leave_stack_fields stable_def)
  qed (use assms(3) in simp)
qed

subsection \<open>Requests return\<close>

text \<open>A public part whose configuration is loaded and whose delay, increased by one half, fits into an
  \<open>unsigned int\<close>; modules that keep it so.\<close>

definition calm :: "('w, 'd) pam_public \<Rightarrow> bool" where
  "calm s \<longleftrightarrow> handlers_loaded s \<and> 3 * uint (delay_usec s) < 2 ^ 33"

definition disciplined :: "('f, 'w, 'd) platform \<Rightarrow> bool" where
  "disciplined e \<longleftrightarrow> keeps_service e \<and> (\<forall>flags. kept (\<lambda>f. call_module e f flags) calm)"

lemma calm_stable: "stable calm"
  by (simp add: stable_def calm_def)

datatype request = Authenticate "32 word" | Setcred "32 word" | Acct_mgmt "32 word" | Open_session "32 word"
  | Close_session "32 word" | Chauthtok "32 word"

fun serve :: "('f, 'w, 'd) platform \<Rightarrow> (rat \<Rightarrow> rat) \<Rightarrow> request \<Rightarrow> ('f, 'w, 'd) pam_handle \<Rightarrow> (int \<times> ('f, 'w, 'd) pam_handle) option" where
  "serve e dbl (Authenticate flags) p = pam_authenticate e dbl flags p"
| "serve e dbl (Setcred flags) p = pam_setcred e flags p"
| "serve e dbl (Acct_mgmt flags) p = pam_acct_mgmt e flags p"
| "serve e dbl (Open_session flags) p = pam_open_session e flags p"
| "serve e dbl (Close_session flags) p = pam_close_session e flags p"
| "serve e dbl (Chauthtok flags) p = pam_chauthtok e dbl flags p"

definition ready_handle :: "('f, 'w, 'd) pam_handle \<Rightarrow> bool" where
  "ready_handle p \<longleftrightarrow> handle_ok p \<and> calm (public p)"

lemma ready_public: "ready_handle p \<Longrightarrow> calm s \<Longrightarrow> ready_handle (p\<lparr>public := s\<rparr>)"
  by (simp add: ready_handle_def handle_ok_def saved_ok_def calm_def)

lemma ready_update [simp]: "ready_handle (p\<lparr>former_update := b\<rparr>) = ready_handle p"
  by (simp add: ready_handle_def handle_ok_def saved_ok_def)

lemma dispatch_ready:
  assumes "ready_handle p" "disciplined e"
  shows "\<exists>r p'. pam_dispatch e flags choice p = Some (r, p') \<and> ready_handle p'"
proof -
  from assms obtain r p' where d: "pam_dispatch e flags choice p = Some (r, p')" "handle_ok p'"
    using pam_dispatch_ok [of p e flags choice] by (auto simp: ready_handle_def disciplined_def)
  moreover have "calm (public p')"
    using dispatch_keeps [OF d(1) calm_stable] assms by (auto simp: ready_handle_def disciplined_def calm_def)
  ultimately show ?thesis by (simp add: ready_handle_def)
qed

lemma sanitize_eq: "sanitize e p = Some (p\<lparr>public := (public p)\<lparr>authtok := None, oldauthtok := None\<rparr>\<rparr>)"
  by (simp add: sanitize_def sanitize_clears)

lemma sanitize_ready: "ready_handle p \<Longrightarrow> \<exists>p'. sanitize e p = Some p' \<and> ready_handle p' \<and> former_choice p' = former_choice p \<and>
    former_update p' = former_update p \<and> authtok (public p') = None \<and> oldauthtok (public p') = None"
  by (auto simp: sanitize_eq ready_handle_def calm_def intro!: ready_public [unfolded ready_handle_def, THEN conjunct1])

lemma start_timer_ready: "ready_handle p \<Longrightarrow> ready_handle (start_timer e p)"
  unfolding start_timer_def by (rule ready_public) (auto simp: ready_handle_def calm_def pam_start_timer_def)

lemma await_timer_ready:
  assumes "ready_handle p" "rounds dbl"
  shows "\<exists>p'. await_timer e dbl r p = Some p' \<and> ready_handle p' \<and> authtok (public p') = authtok (public p) \<and>
    oldauthtok (public p') = oldauthtok (public p)"
proof -
  let ?s = "public p"
  from assms obtain d where d: "pam_compute_delay dbl (word_of_int (delay_begin ?s)) (delay_usec ?s) = Some d"
    using delay_bounds [of dbl "delay_usec ?s"] by (auto simp: ready_handle_def calm_def)
  then obtain s' where s': "pam_await_timer e dbl r ?s = Some s'" by (simp add: pam_await_timer_def)
  then have k: "handlers_loaded s' = handlers_loaded ?s" "delay_usec s' = delay_usec ?s" "authtok s' = authtok ?s"
      "oldauthtok s' = oldauthtok ?s"
    using d by (auto simp: pam_await_timer_def pam_reset_timer_def split: option.splits if_splits)
  then have "calm s'" using assms(1) by (simp add: ready_handle_def calm_def)
  then have "ready_handle (p\<lparr>public := s'\<rparr>)" using assms(1) ready_public by blast
  then show ?thesis using k by (simp add: await_timer_def s')
qed

text \<open>The end of a request that clears the tokens: they are gone when it returns.\<close>

definition tokens_gone :: "('f, 'w, 'd) pam_handle \<Rightarrow> bool" where
  "tokens_gone p \<longleftrightarrow> authtok (public p) = None \<and> oldauthtok (public p) = None"

lemma finish_ready:
  assumes "ready_handle p" "rounds dbl" "f = id \<or> f = former_update_update (\<lambda>_. False)"
  shows "\<exists>p'. Option.bind (sanitize e p) (\<lambda>p3. Option.bind (await_timer e dbl r (f p3)) (\<lambda>p4. Some (r, p4))) = Some (r, p') \<and>
     ready_handle p' \<and> tokens_gone p'"
proof -
  from sanitize_ready [OF assms(1)] obtain p3 where p3: "sanitize e p = Some p3" "ready_handle p3" "tokens_gone p3"
    by (auto simp: tokens_gone_def)
  have "ready_handle (f p3)" "public (f p3) = public p3" using assms(3) p3(2) by auto
  from await_timer_ready [OF this(1) assms(2), of e r] this(2) p3 show ?thesis by (auto simp: tokens_gone_def)
qed

lemma authenticate_ready:
  assumes "ready_handle p" "disciplined e" "rounds dbl"
  shows "\<exists>r p'. pam_authenticate e dbl flags p = Some (r, p') \<and> ready_handle p' \<and>
     (caller_is (public p) \<noteq> FROM_MODULE \<longrightarrow> r \<noteq> PAM_INCOMPLETE \<longrightarrow> tokens_gone p')"
proof (cases "caller_is (public p) = FROM_MODULE")
  case True
  with assms show ?thesis by (simp add: pam_authenticate_def)
next
  case False
  let ?p1 = "if former_choice p = PAM_NOT_STACKED then map_option (start_timer e) (sanitize e p) else Some p"
  obtain p1 where p1: "?p1 = Some p1" "ready_handle p1"
    using sanitize_ready [OF assms(1), of e] start_timer_ready assms(1) by (cases "former_choice p = PAM_NOT_STACKED") auto
  from dispatch_ready [OF p1(2) assms(2)] obtain r p2 where
    d: "pam_dispatch e flags PAM_AUTHENTICATE p1 = Some (r, p2)" "ready_handle p2" by blast
  from finish_ready [OF d(2) assms(3), of id e r] show ?thesis
    using False p1(1) d by (cases "r = PAM_INCOMPLETE") (auto simp: pam_authenticate_def)
qed

lemma passes_ready:
  assumes "ready_handle p" "disciplined e"
  shows "\<exists>r p'. chauthtok_passes e flags p = Some (r, p') \<and> ready_handle p'"
proof -
  let ?first = "if former_update p then Some (PAM_SUCCESS, p) else pam_dispatch e (flags OR PAM_PRELIM_CHECK) PAM_CHAUTHTOK p"
  obtain r p1 where f: "?first = Some (r, p1)" "ready_handle p1"
    using assms dispatch_ready [OF assms, of "flags OR PAM_PRELIM_CHECK" PAM_CHAUTHTOK] by (cases "former_update p") auto
  then show ?thesis
    using dispatch_ready [of "p1\<lparr>former_update := True\<rparr>" e] assms(2) by (cases "r = PAM_SUCCESS") (auto simp: chauthtok_passes_def)
qed

lemma chauthtok_ready:
  assumes "ready_handle p" "disciplined e" "rounds dbl"
  shows "\<exists>r p'. pam_chauthtok e dbl flags p = Some (r, p') \<and> ready_handle p' \<and>
     (caller_is (public p) \<noteq> FROM_MODULE \<longrightarrow> flags AND (PAM_PRELIM_CHECK OR PAM_UPDATE_AUTHTOK) = 0 \<longrightarrow>
      r \<noteq> PAM_INCOMPLETE \<longrightarrow> tokens_gone p')"
proof (cases "caller_is (public p) = FROM_MODULE \<or> flags AND (PAM_PRELIM_CHECK OR PAM_UPDATE_AUTHTOK) \<noteq> 0")
  case True
  then show ?thesis using assms by (auto simp: pam_chauthtok_def)
next
  case False
  let ?p1 = "if former_choice p = PAM_NOT_STACKED then map_option (\<lambda>p. p\<lparr>former_update := False\<rparr>) (sanitize e (start_timer e p)) else Some p"
  obtain p1 where p1: "?p1 = Some p1" "ready_handle p1"
    using sanitize_ready [OF start_timer_ready [OF assms(1)], of e e] assms(1) by (cases "former_choice p = PAM_NOT_STACKED") auto
  from passes_ready [OF p1(2) assms(2)] obtain r p2 where
    d: "chauthtok_passes e flags p1 = Some (r, p2)" "ready_handle p2" by blast
  from finish_ready [OF d(2) assms(3), of "former_update_update (\<lambda>_. False)" e r] show ?thesis
    using False p1(1) d by (cases "r = PAM_INCOMPLETE") (auto simp: pam_chauthtok_def)
qed

theorem serve_ready:
  assumes "ready_handle p" "disciplined e" "rounds dbl"
  shows "\<exists>r p'. serve e dbl rq p = Some (r, p') \<and> ready_handle p'"
proof (cases rq)
  case (Authenticate flags)
  then show ?thesis using authenticate_ready [OF assms, of flags] by auto
next
  case (Chauthtok flags)
  then show ?thesis using chauthtok_ready [OF assms, of flags] by auto
qed (use assms dispatch_ready [OF assms(1,2)] in \<open>auto simp: pam_setcred_def pam_acct_mgmt_def pam_open_session_def pam_close_session_def\<close>)

subsection \<open>Transactions\<close>

text \<open>The states of a handle between \<open>pam_start\<close> and \<open>pam_end\<close>: the application makes requests, and in
  between it may change the public part, as long as it does not ask for another service.\<close>

inductive transaction :: "('f, 'w, 'd) platform \<Rightarrow> (rat \<Rightarrow> rat) \<Rightarrow> ('f, 'w, 'd) pam_handle \<Rightarrow> bool" for e dbl where
  started: "pam_start_internal e svc user conv dir dest w = Some (PAM_SUCCESS, Some p) \<Longrightarrow> transaction e dbl p"
| served: "transaction e dbl p \<Longrightarrow> serve e dbl rq p = Some (r, p') \<Longrightarrow> transaction e dbl p'"
| between: "transaction e dbl p \<Longrightarrow> calm s \<Longrightarrow> transaction e dbl (p\<lparr>public := s\<rparr>)"

lemma init_public:
  assumes "pam_init_handlers e p = Some (PAM_SUCCESS, p')" "\<not> handlers_loaded (public p)"
  shows "(public p')\<lparr>allocs := 0, handlers_loaded := False\<rparr> = (public p)\<lparr>allocs := 0\<rparr>"
  using assms by (rule pam_init_handlers_ok)

definition frame :: "('w, 'd) pam_public \<Rightarrow> 32 word \<times> bool" where
  "frame s = (delay_usec s, handlers_loaded s)"

lemma malloc_frame: "malloc e s = (b, s') \<Longrightarrow> frame s' = frame s"
  by (auto simp: malloc_def frame_def)

lemma start_public_frame:
  assumes "start_public e name user conv dir s = (r, s')"
  shows "frame s' = frame s"
proof -
  have u: "frame (s\<lparr>caller_is := c\<rparr>) = frame s" "frame (s\<lparr>service_name := x\<rparr>) = frame s" "frame (s\<lparr>pam_user := x\<rparr>) = frame s"
    "frame (s\<lparr>confdir := x\<rparr>) = frame s" "frame (s\<lparr>conversation := y, module_data := z\<rparr>) = frame s" "frame (s\<lparr>pam_env := v\<rparr>) = frame s"
    "frame (pam_reset_timer s) = frame s" for s :: "('a, 'b) pam_public" and c x y z v by (simp_all add: frame_def pam_reset_timer_def)
  have m: "pam_make_env e s = (r, s') \<Longrightarrow> frame s' = frame s" for s s' :: "('a, 'b) pam_public" and r
    by (auto simp: pam_make_env_def split: prod.splits bool.splits dest!: malloc_frame) (simp_all add: frame_def)
  have c: "copy_arg e x s = (b, s') \<Longrightarrow> frame s' = frame s" for x b and s s' :: "('a, 'b) pam_public"
    by (auto simp: copy_arg_def split: option.splits dest!: malloc_frame)
  show ?thesis
    using assms by (auto simp: start_public_def u split: prod.splits bool.splits if_splits dest!: malloc_frame c m)
qed

lemma start_handle_fields:
  "\<not> handlers_loaded (public (pam_start_handlers (zero_handle s)))"
  "former_choice (pam_start_handlers (zero_handle s)) = PAM_NOT_STACKED"
  "delay_usec (public (pam_start_handlers (zero_handle s))) = delay_usec s"
  by (simp_all add: pam_start_handlers_def zero_handle_def)

lemma started_ready:
  assumes "pam_start_internal e svc user conv dir dest w = Some (PAM_SUCCESS, Some p)"
  shows "ready_handle p"
proof -
  from assms obtain s0 name c s where
    s0: "malloc e (zero_public w) = (True, s0)" and s: "start_public e name user c dir s0 = (PAM_SUCCESS, s)"
    and i: "pam_init_handlers e (pam_start_handlers (zero_handle s)) = Some (PAM_SUCCESS, p)"
    by (auto simp: pam_start_internal_def split: if_splits option.splits prod.splits bool.splits)
  have "frame s0 = (0, False)" using s0 by (auto simp: malloc_def frame_def zero_public_def)
  then have f: "delay_usec s = 0" using start_public_frame [OF s] by (simp add: frame_def)
  note q = start_handle_fields [of s]
  from arg_cong [OF init_public [OF i q(1)], of delay_usec] have "delay_usec (public p) = 0" using f by (simp add: q(3))
  then show ?thesis using pam_init_handlers_ok [OF i q(1)] by (simp add: ready_handle_def handle_ok_def calm_def q(2))
qed

theorem transaction_ready:
  assumes "transaction e dbl p" "disciplined e" "rounds dbl"
  shows "ready_handle p"
  using assms
proof (induction rule: transaction.induct)
  case (started svc user conv dir dest w p)
  show ?case using started(1) by (rule started_ready)
next
  case (served p rq r p')
  then show ?case using serve_ready [of p e dbl rq] by auto
next
  case (between p s)
  then show ?case using ready_public by blast
qed

end
