(* ===== verification/PamControl.thy ===== *)
theory PamControl
  imports PamMisc
begin

text \<open>
  Control strings: the parser \<open>_pam_parse_control\<close> reads back the assignments that a control string
  spells out, in their order.
\<close>

subsection \<open>Writing a control string\<close>

function digits :: "nat \<Rightarrow> bytes" where
  "digits n = (if n < 10 then [48 + of_nat n] else digits (n div 10) @ [48 + of_nat (n mod 10)])"
  by pat_completeness auto
termination by (relation "measure id") auto

declare digits.simps [simp del]

definition action_text :: "int \<Rightarrow> bytes" where
  "action_text a = (if a \<le> 0 then pam_token_actions ! nat (- a) else digits (nat a))"

definition item_text :: "nat \<times> int \<Rightarrow> bytes" where
  "item_text x = pam_token_returns ! fst x @ 61 # action_text (snd x)"

fun control_text :: "(nat \<times> int) list \<Rightarrow> bytes" where
  "control_text [] = []"
| "control_text [x] = item_text x"
| "control_text (x # y # xs) = item_text x @ 32 # control_text (y # xs)"

text \<open>A return value of the library or the default, and one of the six actions or a jump that an \<open>int\<close> holds.\<close>

definition item_ok :: "nat \<times> int \<Rightarrow> bool" where
  "item_ok x \<longleftrightarrow> fst x \<le> PAM_RETURN_VALUES \<and> ACTION_RESET \<le> snd x \<and> snd x \<le> 0x7FFFFFFF"

text \<open>What the assignments make of a table.\<close>

fun assign_controls :: "(nat \<times> int) list \<Rightarrow> int list \<Rightarrow> int list" where
  "assign_controls [] acts = acts"
| "assign_controls ((ret, act) # xs) acts = assign_controls xs (set_control acts ret act)"

subsection \<open>Reading it\<close>

text \<open>A text that begins a new word, or the end.\<close>

definition word_end :: "byte \<Rightarrow> bytes \<Rightarrow> bool" where
  "word_end c s \<longleftrightarrow> s = [] \<or> hd s = c"

definition prefix_free :: "bytes list \<Rightarrow> bool" where
  "prefix_free ts \<longleftrightarrow> (\<forall>i<length ts. \<forall>j<i. take (length (ts ! j)) (ts ! i) \<noteq> ts ! j)"

lemma find_token_word:
  assumes "prefix_free ts" "i < length ts" "\<forall>t\<in>set ts. c \<notin> set t" "word_end c rest"
  shows "find_token ts (ts ! i @ rest) n = Some (n + i, rest)"
proof -
  have ne: "take (length (ts ! j)) (ts ! i @ rest) \<noteq> ts ! j" if "j < i" for j
  proof
    assume t: "take (length (ts ! j)) (ts ! i @ rest) = ts ! j"
    show False
    proof (cases "length (ts ! j) \<le> length (ts ! i)")
      case True
      then show False using t assms(1,2) that by (auto simp: prefix_free_def)
    next
      case False
      then have "rest \<noteq> []" using arg_cong [OF t, of length] by auto
      then have "(ts ! i @ rest) ! length (ts ! i) = c" using assms(4) by (simp add: word_end_def hd_conv_nth nth_append)
      moreover have "take (length (ts ! j)) (ts ! i @ rest) ! length (ts ! i) = (ts ! i @ rest) ! length (ts ! i)"
        using False by (intro nth_take) simp
      ultimately have "(ts ! j) ! length (ts ! i) = c" by (simp only: t)
      then have "c \<in> set (ts ! j)" using False by (metis not_le nth_mem)
      then show False using assms(2,3) that by (metis less_trans nth_mem)
    qed
  qed
  have "find_token us (ts ! i @ rest) m = Some (m + (i - k), rest)" if "us = drop k ts" "k \<le> i" for us k m
    using that
  proof (induction us arbitrary: k m)
    case Nil
    then show ?case using assms(2) by simp
  next
    case (Cons u us)
    then have u: "u = ts ! k" "us = drop (Suc k) ts" by (metis drop_eq_ConsD)+
    show ?case
    proof (cases "k = i")
      case True
      then show ?thesis using u by simp
    next
      case False
      then have "k < i" using Cons by simp
      then show ?thesis using ne [of k] u Cons(1) [of "Suc k" "m + 1"] by simp
    qed
  qed
  from this [of ts 0 n] show ?thesis by simp
qed

text \<open>The two tables, checked as strings.\<close>

fun starts :: "'a list \<Rightarrow> 'a list \<Rightarrow> bool" where
  "starts [] ys = True"
| "starts (x # xs) [] = False"
| "starts (x # xs) (y # ys) = (x = y \<and> starts xs ys)"

fun first_words :: "'a list list \<Rightarrow> bool" where
  "first_words [] = True"
| "first_words (t # ts) = (list_all (\<lambda>u. \<not> starts t u) ts \<and> first_words ts)"

lemma starts_take: "starts xs ys \<longleftrightarrow> take (length xs) ys = xs"
  by (induction xs ys rule: starts.induct) auto

lemma first_words_nth: "first_words ts \<Longrightarrow> i < length ts \<Longrightarrow> j < i \<Longrightarrow> \<not> starts (ts ! j) (ts ! i)"
proof (induction ts arbitrary: i j)
  case (Cons t ts)
  then obtain i' where "i = Suc i'" by (cases i) auto
  then show ?case using Cons by (cases j) (auto simp: list_all_length)
qed simp

lemma asc_starts: "starts (asc s) (asc t) \<longleftrightarrow> starts s t"
  by (induction s t rule: starts.induct) (auto simp: asc_def of_char_byte)

lemma prefix_free_asc: "first_words ss \<Longrightarrow> prefix_free (map asc ss)"
  unfolding prefix_free_def starts_take [symmetric] using first_words_nth [of ss] by (simp add: asc_starts)

lemma token_tables:
  "prefix_free pam_token_returns" "\<forall>t\<in>set pam_token_returns. 61 \<notin> set t" "length pam_token_returns = 33"
  "prefix_free pam_token_actions" "\<forall>t\<in>set pam_token_actions. 32 \<notin> set t" "length pam_token_actions = 6"
  "\<forall>t\<in>set pam_token_actions. t \<noteq> [] \<and> \<not> isdigit (hd t) \<and> \<not> isspace (hd t)" "\<forall>t\<in>set pam_token_returns. t \<noteq> [] \<and> \<not> isspace (hd t)"
  subgoal unfolding pam_token_returns_def by (rule prefix_free_asc) code_simp
  subgoal by (simp add: pam_token_returns_def)
  subgoal by (simp add: pam_token_returns_def)
  subgoal unfolding pam_token_actions_def by (rule prefix_free_asc) code_simp
  subgoal by (simp add: pam_token_actions_def)
  subgoal by (simp add: pam_token_actions_def)
  subgoal by (simp add: pam_token_actions_def isspace_def isdigit_def)
  subgoal by (simp add: pam_token_returns_def isspace_def)
  done

lemma digit_byte:
  assumes "k < 10"
  shows "isdigit (48 + of_nat k)" "uint (48 + of_nat k :: byte) = 48 + int k"
proof -
  have u: "unat (48 + of_nat k :: byte) = 48 + k" using assms by (simp add: unat_word_ariths unat_of_nat)
  then show "isdigit (48 + of_nat k)" using assms by (simp add: isdigit_def word_le_nat_alt)
  show "uint (48 + of_nat k :: byte) = 48 + int k" using u by (metis int_plus of_nat_numeral uint_nat)
qed

lemma jump_digits: "int n \<le> 0x7FFFFFFF \<Longrightarrow> jump_number 0 (digits n @ rest) = jump_number (int n) rest"
proof (induction n arbitrary: rest rule: digits.induct)
  case (1 n)
  show ?case
  proof (cases "n < 10")
    case True
    then show ?thesis using digit_byte [OF True] 1(2) by (subst digits.simps) simp
  next
    case False
    have l: "int (n div 10) \<le> 0x7FFFFFFF" using 1(2) by linarith
    have "int (n div 10) * 10 + int (n mod 10) = int n" by presburger
    then show ?thesis
      using False 1(1) [OF False l, of "(48 + of_nat (n mod 10)) # rest"] digit_byte [of "n mod 10"] 1(2)
      by (subst digits.simps) (simp add: Let_def)
  qed
qed

lemma digits_hd: "digits n \<noteq> [] \<and> isdigit (hd (digits n))"
proof (induction n rule: digits.induct)
  case (1 n)
  then show ?case by (cases "n < 10") (subst (1 2) digits.simps, simp add: digit_byte)+
qed

lemma find_action_digit: "isdigit (hd s) \<Longrightarrow> s \<noteq> [] \<Longrightarrow> find_token pam_token_actions s i = None"
proof -
  assume s: "isdigit (hd s)" "s \<noteq> []"
  have "find_token ts s i = None" if "\<forall>t\<in>set ts. t \<noteq> [] \<and> \<not> isdigit (hd t)" for ts i
    using that
  proof (induction ts arbitrary: i)
    case (Cons t ts)
    have "take (length t) s \<noteq> t" using Cons(2) s by (metis hd_take length_greater_0_conv list.set_intros(1))
    then show ?case using Cons by simp
  qed simp
  then show ?thesis using token_tables(7) by blast
qed

lemma control_action_text:
  assumes "ACTION_RESET \<le> a" "a \<le> 0x7FFFFFFF" "word_end 32 rest"
  shows "control_action (action_text a @ rest) = Some (Some (a, rest))"
proof (cases "a \<le> 0")
  case True
  then have "nat (- a) < length pam_token_actions" using assms(1) by (simp add: token_tables(6))
  from find_token_word [OF token_tables(4) this token_tables(5) assms(3), of 0] show ?thesis
    using True by (simp add: control_action_def action_text_def)
next
  case False
  have "jump_number a rest = Some (a, rest)"
    using assms(3) by (cases rest) (auto simp: word_end_def isdigit_def)
  moreover have "jump_number 0 (digits (nat a) @ rest) = jump_number a rest" using jump_digits [of "nat a"] False assms(2) by simp
  ultimately show ?thesis
    using False digits_hd [of "nat a"] find_action_digit [of "digits (nat a) @ rest" 0] by (simp add: control_action_def action_text_def)
qed

lemma action_text_hd: "ACTION_RESET \<le> a \<Longrightarrow> action_text a \<noteq> [] \<and> \<not> isspace (hd (action_text a))"
proof (cases "a \<le> 0")
  case True
  assume "ACTION_RESET \<le> a"
  then have "pam_token_actions ! nat (- a) \<in> set pam_token_actions" using True by (intro nth_mem) (simp add: token_tables(6))
  then show ?thesis using True token_tables(7) by (simp add: action_text_def)
next
  case False
  then show ?thesis using digits_hd [of "nat a"] by (auto simp: action_text_def isdigit_def isspace_def)
qed

lemma dropWhile_hd: "s \<noteq> [] \<Longrightarrow> \<not> P (hd s) \<Longrightarrow> dropWhile P (s @ t) = s @ t"
  by (cases s) auto

lemma parse_item_text:
  assumes "item_ok x" "word_end 32 rest"
  shows "parse_control_item (item_text x @ rest) = Some (Control_set (fst x) (snd x) rest)"
proof -
  obtain i a where x: "x = (i, a)" by force
  with assms(1) have i: "i < length pam_token_returns" and a: "ACTION_RESET \<le> a" "a \<le> 0x7FFFFFFF"
    by (simp_all add: item_ok_def token_tables(3))
  let ?t = "61 # action_text a @ rest"
  have "word_end 61 ?t" by (simp add: word_end_def)
  from find_token_word [OF token_tables(1) i token_tables(2) this, of 0]
  have f: "find_token pam_token_returns (item_text x @ rest) 0 = Some (i, ?t)" by (simp add: item_text_def x)
  have "\<not> isspace 61" by (simp add: isspace_def)
  moreover have "dropWhile isspace (action_text a @ rest) = action_text a @ rest" using action_text_hd [OF a(1)] dropWhile_hd by blast
  ultimately show ?thesis
    using f control_action_text [OF a assms(2)] action_text_hd [OF a(1)] x by (simp add: parse_control_item_def del: dropWhile_eq_Nil_conv)
qed

lemma item_text_hd: "item_ok x \<Longrightarrow> item_text x \<noteq> [] \<and> \<not> isspace (hd (item_text x))"
proof -
  assume "item_ok x"
  then have "pam_token_returns ! fst x \<in> set pam_token_returns" by (intro nth_mem) (simp add: token_tables(3) item_ok_def)
  then show ?thesis using token_tables(8) by (simp add: item_text_def hd_append)
qed

theorem parse_control_text: "\<forall>x\<in>set xs. item_ok x \<Longrightarrow> pam_parse_control acts (control_text xs) = Some (assign_controls xs acts)"
proof (induction xs arbitrary: acts rule: control_text.induct)
  case 1
  then show ?case by (simp add: pam_parse_control.simps)
next
  case (2 x)
  then have h: "item_text x \<noteq> []" "\<not> isspace (hd (item_text x))" using item_text_hd by auto
  then obtain c cs where cs: "item_text x = c # cs" by (cases "item_text x") auto
  have "parse_control_item (item_text x) = Some (Control_set (fst x) (snd x) [])"
    using parse_item_text [of x "[]"] 2 by (simp add: word_end_def)
  then show ?case using cs h by (cases x) (simp add: pam_parse_control.simps [of acts] pam_parse_control.simps [of _ "[]"])
next
  case (3 x y xs)
  let ?r = "32 # control_text (y # xs)"
  have h: "item_text x \<noteq> []" "\<not> isspace (hd (item_text x))" using item_text_hd 3(2) by auto
  then obtain c cs where cs: "item_text x = c # cs" by (cases "item_text x") auto
  have "parse_control_item (item_text x @ ?r) = Some (Control_set (fst x) (snd x) ?r)"
    using parse_item_text [of x ?r] 3(2) by (simp add: word_end_def)
  moreover have "pam_parse_control a ?r = pam_parse_control a (control_text (y # xs))" for a
    by (simp add: pam_parse_control.simps [of a] isspace_def)
  ultimately show ?case
    using cs h 3 by (cases x) (simp add: pam_parse_control.simps [of acts "c # cs @ ?r"])
qed

subsection \<open>Whole tables\<close>

text \<open>A table written out value by value.\<close>

definition table_text :: "int list \<Rightarrow> bytes" where
  "table_text acts = control_text (enumerate 0 acts)"

lemma assign_controls_append: "assign_controls (xs @ ys) a = assign_controls ys (assign_controls xs a)"
  by (induction xs a rule: assign_controls.induct) auto

lemma assign_enumerate:
  "length pre + length acts \<le> PAM_RETURN_VALUES \<Longrightarrow> length rest = length acts \<Longrightarrow>
   assign_controls (enumerate (length pre) acts) (pre @ rest @ post) = pre @ acts @ post"
proof (induction acts arbitrary: pre rest)
  case (Cons a acts)
  then obtain r rest' where r: "rest = r # rest'" "length rest' = length acts" by (cases rest) auto
  have "set_control (pre @ rest @ post) (length pre) a = (pre @ [a]) @ rest' @ post"
    using Cons(2) r by (simp add: set_control_def list_update_append)
  then show ?case using Cons(1) [of "pre @ [a]" rest'] Cons(2) r by simp
qed simp

theorem parse_table_text:
  assumes "length acts = PAM_RETURN_VALUES" "\<forall>a\<in>set acts. ACTION_RESET \<le> a \<and> a \<le> 0x7FFFFFFF" "length old = PAM_RETURN_VALUES"
  shows "pam_parse_control old (table_text acts) = Some acts"
proof -
  have "\<forall>x\<in>set (enumerate 0 acts). item_ok x"
    using assms(1,2) by (auto simp: item_ok_def in_set_enumerate_eq)
  from parse_control_text [OF this, of old] show ?thesis
    using assign_enumerate [of "[]" acts old "[]"] assms(1,3) by (simp add: table_text_def)
qed

end
