(* ===== verification/PamKeywords.thy ===== *)
theory PamKeywords
  imports PamDispatchThms PamControl
begin

text \<open>
  The four keywords of a control field. What the administrator's guide says of them is stated without
  reference to the walk: which modules of a stack are called, and what the application gets. The
  walk over a stack of such modules computes it.
\<close>

datatype keyword = Required | Requisite | Sufficient | Optional

text \<open>The action tables that the parser installs for them.\<close>

fun keyword_table :: "keyword \<Rightarrow> int list" where
  "keyword_table Required = keyword_actions ACTION_OK True ACTION_BAD"
| "keyword_table Requisite = keyword_actions ACTION_OK True ACTION_DIE"
| "keyword_table Sufficient = keyword_actions ACTION_DONE False ACTION_IGNORE"
| "keyword_table Optional = keyword_actions ACTION_OK False ACTION_IGNORE"

subsection \<open>What the keywords mean\<close>

definition valid_code :: "int \<Rightarrow> bool" where
  "valid_code r \<longleftrightarrow> 0 \<le> r \<and> r < int PAM_RETURN_VALUES"

definition grants :: "int \<Rightarrow> bool" where
  "grants r \<longleftrightarrow> r = PAM_SUCCESS \<or> r = PAM_NEW_AUTHTOK_REQD"

text \<open>A module refuses when it is required or requisite and neither grants nor asks to be ignored, or when
  its return value is not one of the library.\<close>

definition refuses :: "keyword \<Rightarrow> int \<Rightarrow> bool" where
  "refuses kw r \<longleftrightarrow> \<not> valid_code r \<or> (kw = Required \<or> kw = Requisite) \<and> \<not> grants r \<and> r \<noteq> PAM_IGNORE"

definition refusal :: "int \<Rightarrow> int" where
  "refusal r = (if valid_code r then r else PAM_PERM_DENIED)"

text \<open>The modules that are called: a requisite module that refuses is the last one, and so is a sufficient
  module that grants when no module before it has refused.\<close>

fun executed :: "bool \<Rightarrow> (keyword \<times> int) list \<Rightarrow> (keyword \<times> int) list" where
  "executed failed [] = []"
| "executed failed ((kw, r) # xs) =
     (kw, r) #
     (if kw = Requisite \<and> valid_code r \<and> refuses kw r \<or> kw = Sufficient \<and> grants r \<and> \<not> failed then []
      else executed (failed \<or> refuses kw r) xs)"

text \<open>The answer: the first refusal; without one, a request for a new token if there is one; success if a
  module granted; and a denial when no module had an opinion.\<close>

definition answer :: "(keyword \<times> int) list \<Rightarrow> int" where
  "answer ys =
     (case find (\<lambda>(kw, r). refuses kw r) ys of
        Some (kw, r) \<Rightarrow> refusal r
      | None \<Rightarrow>
          if PAM_NEW_AUTHTOK_REQD \<in> snd ` set ys then PAM_NEW_AUTHTOK_REQD
          else if PAM_SUCCESS \<in> snd ` set ys then PAM_SUCCESS
          else PAM_PERM_DENIED)"

definition verdict :: "(keyword \<times> int) list \<Rightarrow> int" where
  "verdict xs = answer (executed False xs)"

subsection \<open>The walk\<close>

lemma keyword_actions_nth:
  assumes "n < PAM_RETURN_VALUES" "good \<noteq> ACTION_UNDEF"
  shows "keyword_actions good ign d ! n =
    (if n = 0 \<or> n = 12 then good else if ign \<and> n = 25 then ACTION_IGNORE else d)"
  using assms by (simp add: keyword_actions_def Let_def pam_set_default_control_def nth_list_update)

text \<open>The impression and the status after modules that did not end the walk.\<close>

definition opinion :: "(keyword \<times> int) list \<Rightarrow> int" where
  "opinion ys =
     (if find (\<lambda>(kw, r). refuses kw r) ys \<noteq> None then IMP_NEGATIVE
      else if \<exists>r\<in>snd ` set ys. grants r then IMP_POSITIVE else IMP_UNDEF)"

definition called :: "nat \<Rightarrow> keyword \<times> 'f \<Rightarrow> 'f handler \<Rightarrow> bool" where
  "called n kf h \<longleftrightarrow> (handler_type h = PAM_HT_MODULE \<or> handler_type h = PAM_HT_SILENT_MODULE) \<and> func h = Some (snd kf) \<and>
     actions h = keyword_table (fst kf) \<and> stack_level h = 0 \<and> cached_retval h < n"

lemma called_grantor [simp]: "called n kf (grantor_update g h) = called n kf h"
  by (simp add: called_def)

lemma keyword_action:
  assumes "called n (kw, f) h" "r \<noteq> PAM_INCOMPLETE"
  shows "action_of h r r = Some (if \<not> valid_code r then (PAM_PERM_DENIED, ACTION_BAD)
    else (r, if grants r then (if kw = Sufficient then ACTION_DONE else ACTION_OK)
             else if refuses kw r then (if kw = Requisite then ACTION_DIE else ACTION_BAD) else ACTION_IGNORE))"
proof (cases "valid_code r")
  case False
  then show ?thesis by (auto simp: action_of_def valid_code_def)
next
  case True
  then have n: "nat r < PAM_RETURN_VALUES" "nat r = 0 \<longleftrightarrow> r = 0" "nat r = 12 \<longleftrightarrow> r = 12" "nat r = 25 \<longleftrightarrow> r = 25"
    by (auto simp: valid_code_def)
  have "action_of h r r = Some (r, keyword_table kw ! nat r)"
    using True assms(1) n(1) by (cases kw) (auto simp: action_of_def valid_code_def called_def at_def)
  moreover have "keyword_table kw ! nat r = (if grants r then (if kw = Sufficient then ACTION_DONE else ACTION_OK)
             else if refuses kw r then (if kw = Requisite then ACTION_DIE else ACTION_BAD) else ACTION_IGNORE)"
    using True n by (cases kw) (auto simp: keyword_actions_nth grants_def refuses_def)
  ultimately show ?thesis using True by simp
qed

lemma find_snoc: "find P (ys @ [y]) = (case find P ys of None \<Rightarrow> if P y then Some y else None | Some z \<Rightarrow> Some z)"
  by (induction ys) auto

text \<open>One more module.\<close>

lemma answer_snoc:
  "answer (ys @ [(kw, r)]) =
     (if opinion ys = IMP_NEGATIVE then answer ys
      else if refuses kw r then refusal r
      else if grants r \<and> (opinion ys = IMP_UNDEF \<or> answer ys = PAM_SUCCESS) then r
      else answer ys)"
  by (cases "find (\<lambda>(kw, r). refuses kw r) ys") (auto simp: answer_def opinion_def find_snoc grants_def split: option.splits)

lemma opinion_snoc:
  "opinion (ys @ [(kw, r)]) =
     (if opinion ys = IMP_NEGATIVE \<or> refuses kw r then IMP_NEGATIVE else if grants r then IMP_POSITIVE else opinion ys)"
  by (cases "find (\<lambda>(kw, r). refuses kw r) ys") (auto simp: opinion_def find_snoc split: option.splits)

lemma opinion_cases: "opinion ys = IMP_NEGATIVE \<or> opinion ys = IMP_POSITIVE \<or> opinion ys = IMP_UNDEF"
  by (simp add: opinion_def)

lemma grants_valid: "grants r \<Longrightarrow> valid_code r \<and> \<not> refuses kw r \<and> r \<noteq> PAM_IGNORE"
  by (auto simp: grants_def valid_code_def refuses_def)

lemma refuses_not_ignore: "refuses kw r \<Longrightarrow> refusal r \<noteq> PAM_IGNORE"
  by (auto simp: refuses_def refusal_def valid_code_def)

lemma after_keyword:
  assumes "action_of h r r = Some (ret, a)" "called n (kw, f) h" "r \<noteq> PAM_INCOMPLETE"
    "impression w = opinion ys" "status w = answer ys"
  obtains w' where "after_action PLEASE_FREEZE d 0 a ret r hs w =
      Some (if kw = Requisite \<and> valid_code r \<and> refuses kw r \<or> kw = Sufficient \<and> grants r \<and> opinion ys \<noteq> IMP_NEGATIVE then [] else hs, w')"
    "impression w' = opinion (ys @ [(kw, r)])" "status w' = answer (ys @ [(kw, r)])" "w_cells w' = w_cells w"
proof -
  have sl: "skip_level 0 hs = []" by (simp add: skip_level_def)
  note act = keyword_action [OF assms(2,3)]
  consider "grants r" | "refuses kw r" "\<not> grants r" | "\<not> refuses kw r" "\<not> grants r" by blast
  then show ?thesis
  proof cases
    case 1
    then have ra: "ret = r" "a = (if kw = Sufficient then ACTION_DONE else ACTION_OK)" using act assms(1) grants_valid [of r] by auto
    have o: "impression (on_ok d r r w) = opinion (ys @ [(kw, r)])" "status (on_ok d r r w) = answer (ys @ [(kw, r)])"
        "w_cells (on_ok d r r w) = w_cells w" "impression (on_ok d r r w) = IMP_POSITIVE \<longleftrightarrow> opinion ys \<noteq> IMP_NEGATIVE"
      using assms(4,5) 1 grants_valid [OF 1, of kw] opinion_cases [of ys]
      by (auto simp: on_ok_def undecided_def Let_def set_grantor_def opinion_snoc answer_snoc)
    show ?thesis
      by (rule that [of "on_ok d r r w"]) (use ra o sl 1 grants_valid [OF 1, of kw] in \<open>auto simp: after_action_def Let_def\<close>)
  next
    case 2
    then have ra: "ret = refusal r" "a = (if kw = Requisite \<and> valid_code r then ACTION_DIE else ACTION_BAD)"
      using act assms(1) by (auto simp: refusal_def split: if_splits)
    have o: "impression (on_bad (refusal r) w) = opinion (ys @ [(kw, r)])" "status (on_bad (refusal r) w) = answer (ys @ [(kw, r)])"
        "w_cells (on_bad (refusal r) w) = w_cells w"
      using assms(4,5) 2 refuses_not_ignore [OF 2(1)] by (auto simp: on_bad_def opinion_snoc answer_snoc)
    show ?thesis
      by (rule that [of "on_bad (refusal r) w"]) (use ra o sl 2 in \<open>auto simp: after_action_def\<close>)
  next
    case 3
    then have ra: "ret = r" "a = ACTION_IGNORE" using act assms(1) by (auto simp: refuses_def split: if_splits)
    show ?thesis
      by (rule that [of w]) (use ra 3 assms(4,5) in \<open>auto simp: after_action_def opinion_snoc answer_snoc\<close>)
  qed
qed

lemma visit_keyword:
  assumes h: "called (length (w_cells w)) (kw, f) h" and r: "run f (mod_name h) (argc h) (argv h) (w_public w) = (r, s)" "r \<noteq> PAM_INCOMPLETE"
    and w: "impression w = opinion ys" "status w = answer ys"
  obtains w' where "visit run PLEASE_FREEZE d 0 h hs w =
      Some (Go (if kw = Requisite \<and> valid_code r \<and> refuses kw r \<or> kw = Sufficient \<and> grants r \<and> opinion ys \<noteq> IMP_NEGATIVE then [] else hs) w')"
    "impression w' = opinion (ys @ [(kw, r)])" "status w' = answer (ys @ [(kw, r)])" "length (w_cells w') = length (w_cells w)"
proof -
  have m: "module_retval run h (w_public w) = (r, s)" using h r(1) by (auto simp: module_retval_def called_def)
  have c: "cached_value PLEASE_FREEZE h r (w_cells w) = Some (r, (w_cells w)[cached_retval h := r])"
    using h by (simp add: cached_value_def put_def called_def)
  have nk: "handler_type h \<noteq> PAM_HT_SUBSTACK" "stack_level h = 0" using h by (auto simp: called_def)
  let ?w = "w\<lparr>w_public := s, w_cells := (w_cells w)[cached_retval h := r]\<rparr>"
  obtain ret a where a: "action_of h r r = Some (ret, a)" using keyword_action [OF h r(2)] by (metis surj_pair)
  have "impression ?w = opinion ys" "status ?w = answer ys" using w by simp_all
  from after_keyword [OF a h r(2) this, of d hs] obtain w' where w':
    "after_action PLEASE_FREEZE d 0 a ret r hs ?w =
      Some (if kw = Requisite \<and> valid_code r \<and> refuses kw r \<or> kw = Sufficient \<and> grants r \<and> opinion ys \<noteq> IMP_NEGATIVE then [] else hs, w')"
    "impression w' = opinion (ys @ [(kw, r)])" "status w' = answer (ys @ [(kw, r)])" "w_cells w' = w_cells ?w" by blast
  show ?thesis by (rule that [OF _ w'(2,3)]) (use m c a w' nk r(2) in \<open>simp_all add: visit_def enter_level_def\<close>)
qed

text \<open>A runner whose modules return fixed values, whatever they do to the state.\<close>

definition returns :: "('f, 's) runner \<Rightarrow> ('f \<Rightarrow> int) \<Rightarrow> bool" where
  "returns run ret \<longleftrightarrow> (\<forall>f n k a s. fst (run f n k a s) = ret f)"

lemma walk_keywords:
  assumes "returns run ret" "list_all2 (called (length (w_cells w))) kfs hs" "\<forall>(kw, f)\<in>set kfs. ret f \<noteq> PAM_INCOMPLETE"
    "impression w = opinion ys" "status w = answer ys"
  shows "\<exists>w'. walk_loop run PLEASE_FREEZE 0 d 0 hs w = Some (Finished w') \<and>
    (let zs = ys @ executed (opinion ys = IMP_NEGATIVE) (map (\<lambda>(kw, f). (kw, ret f)) kfs) in
     impression w' = opinion zs \<and> status w' = answer zs)"
  using assms(2-)
proof (induction kfs arbitrary: hs w ys d)
  case Nil
  then show ?case by simp
next
  case (Cons kf kfs)
  obtain kw f where kf: "kf = (kw, f)" by force
  from Cons(2) obtain h hs' where hs: "hs = h # hs'" "called (length (w_cells w)) (kw, f) h"
      "list_all2 (called (length (w_cells w))) kfs hs'" by (auto simp: list_all2_Cons1 kf)
  obtain s where r: "run f (mod_name h) (argc h) (argv h) (w_public w) = (ret f, s)"
    using assms(1) by (metis returns_def surjective_pairing)
  let ?stop = "kw = Requisite \<and> valid_code (ret f) \<and> refuses kw (ret f) \<or> kw = Sufficient \<and> grants (ret f) \<and> opinion ys \<noteq> IMP_NEGATIVE"
  have ni: "ret f \<noteq> PAM_INCOMPLETE" using Cons(3) kf by auto
  from visit_keyword [OF hs(2), where run = run, OF r ni Cons(4,5), of d hs'] obtain w' where v:
    "visit run PLEASE_FREEZE d 0 h hs' w = Some (Go (if ?stop then [] else hs') w')"
    "impression w' = opinion (ys @ [(kw, ret f)])" "status w' = answer (ys @ [(kw, ret f)])"
    "length (w_cells w') = length (w_cells w)" by blast
  have sl: "stack_level h = 0" using hs(2) by (simp add: called_def)
  show ?case
  proof (cases ?stop)
    case True
    then show ?thesis using hs(1) v kf sl by (auto simp: Let_def)
  next
    case False
    let ?ys = "ys @ [(kw, ret f)]"
    have neg: "(opinion ?ys = IMP_NEGATIVE) = (opinion ys = IMP_NEGATIVE \<or> refuses kw (ret f))"
      using opinion_cases [of ys] by (auto simp: opinion_snoc)
    have "list_all2 (called (length (w_cells w'))) kfs hs'" using hs(3) v(4) by simp
    from Cons(1) [OF this _ v(2,3), of "d + 1"] Cons(3) kf obtain w'' where
      "walk_loop run PLEASE_FREEZE 0 (d + 1) 0 hs' w' = Some (Finished w'')"
      "let zs = ?ys @ executed (opinion ?ys = IMP_NEGATIVE) (map (\<lambda>(kw, f). (kw, ret f)) kfs) in impression w'' = opinion zs \<and> status w'' = answer zs"
      by auto
    then show ?thesis using False hs(1) v(1) kf sl neg by (auto simp: Let_def)
  qed
qed

lemma answer_sane: "answer ys = PAM_SUCCESS \<Longrightarrow> opinion ys = IMP_POSITIVE"
proof (cases "find (\<lambda>(kw, r). refuses kw r) ys")
  case (Some kr)
  then obtain kw r where "kr = (kw, r)" "refuses kw r" by (auto simp: find_Some_iff)
  then have "answer ys = refusal r" "refusal r \<noteq> PAM_SUCCESS"
    using Some by (auto simp: answer_def refusal_def refuses_def grants_def)
  then show "answer ys = PAM_SUCCESS \<Longrightarrow> opinion ys = IMP_POSITIVE" by simp
qed (force simp: answer_def opinion_def grants_def split: if_splits)

theorem dispatch_verdict:
  assumes "handlers_loaded (public p)" "former_choice p = PAM_NOT_STACKED" "caller_is (public p) \<noteq> FROM_MODULE"
    "choice_stack choice = Some (k, PLEASE_FREEZE)" "malloc_answer e (allocs (public p))"
    "list_all2 (called (length (cells (service p)))) kfs (service_stack (chosen_other k (service p)) k (service p))" "kfs \<noteq> []"
    "returns (\<lambda>f. call_module e f flags) ret" "\<forall>(kw, f)\<in>set kfs. ret f \<noteq> PAM_INCOMPLETE"
  shows "\<exists>p'. pam_dispatch e flags choice p = Some (verdict (map (\<lambda>(kw, f). (kw, ret f)) kfs), p')"
proof -
  let ?run = "\<lambda>f. call_module e f flags" let ?b = "chosen_other k (service p)" let ?q = "prepare_stack choice k p"
  let ?hs = "service_stack ?b k (service ?q)"
  have hs: "?hs = pam_clear_grantors (service_stack ?b k (service p))" and cs: "cells (service ?q) = cells (service p)"
    using assms(2) by (simp_all add: prepare_stack_fields)
  have l2: "list_all2 (called (length (cells (service p)))) kfs ?hs"
    using assms(6) unfolding hs pam_clear_grantors_def by (simp add: list_all2_map2)
  then have ne: "?hs \<noteq> []" using assms(7) by auto
  obtain s p1 where st: "start_walk e False ?hs ?q = (Some (0, initial_walk ?hs (cells (service p)) s), p1)"
    using assms(5) cs by (auto simp: start_walk_def halloc_def malloc_def prepare_stack_fields)
  let ?w = "initial_walk ?hs (cells (service p)) s"
  have w: "impression ?w = opinion []" "status ?w = answer []" "w_cells ?w = cells (service p)"
    by (simp_all add: initial_walk_def opinion_def answer_def)
  have l3: "list_all2 (called (length (w_cells ?w))) kfs ?hs" using l2 by (simp only: w(3))
  from walk_keywords [OF assms(8) l3 assms(9) w(1,2), of 0] obtain w' where
    w': "walk_loop ?run PLEASE_FREEZE 0 0 0 ?hs ?w = Some (Finished w')"
    "impression w' = opinion (executed False (map (\<lambda>(kw, f). (kw, ret f)) kfs))" "status w' = verdict (map (\<lambda>(kw, f). (kw, ret f)) kfs)"
    by (auto simp: Let_def opinion_def verdict_def)
  have "sanity_check w' = verdict (map (\<lambda>(kw, f). (kw, ret f)) kfs)"
    using w'(2,3) answer_sane [of "executed False (map (\<lambda>(kw, f). (kw, ret f)) kfs)"] by (auto simp: sanity_check_def verdict_def)
  then have "pam_dispatch_aux e flags ?b k False PLEASE_FREEZE ?q = Some (verdict (map (\<lambda>(kw, f). (kw, ret f)) kfs), store_walk ?b k w' p1)"
    using pam_dispatch_aux_eqs(4) [OF ne st w'(1)] by simp
  then show ?thesis using assms(1-4) by (auto simp: pam_dispatch_def pam_init_handlers_def run_stack_def)
qed

subsection \<open>Keywords and control strings\<close>

text \<open>The guide defines each keyword by a control string; the parser makes the same table of both.\<close>

fun keyword_items :: "keyword \<Rightarrow> (nat \<times> int) list" where
  "keyword_items Required = [(0, ACTION_OK), (12, ACTION_OK), (25, ACTION_IGNORE), (32, ACTION_BAD)]"
| "keyword_items Requisite = [(0, ACTION_OK), (12, ACTION_OK), (25, ACTION_IGNORE), (32, ACTION_DIE)]"
| "keyword_items Sufficient = [(0, ACTION_DONE), (12, ACTION_DONE), (32, ACTION_IGNORE)]"
| "keyword_items Optional = [(0, ACTION_OK), (12, ACTION_OK), (32, ACTION_IGNORE)]"

fun keyword_name :: "keyword \<Rightarrow> bytes" where
  "keyword_name Required = asc ''required''"
| "keyword_name Requisite = asc ''requisite''"
| "keyword_name Sufficient = asc ''sufficient''"
| "keyword_name Optional = asc ''optional''"

lemma strcaseeq_length: "strcaseeq a b \<Longrightarrow> length a = length b"
  unfolding strcaseeq_def by (rule map_eq_imp_length_eq)

lemma keyword_names: "parse_control_field (Some (keyword_name kw)) = Some (Control_actions (keyword_table kw))"
  by (cases kw; simp only: keyword_name.simps keyword_table.simps; code_simp)

lemma set_default_done: "ACTION_UNDEF \<notin> set a \<Longrightarrow> pam_set_default_control a d = a"
  by (auto simp: pam_set_default_control_def intro!: map_idI)

lemma keyword_texts:
  "control_text (keyword_items Required) = asc ''success=ok new_authtok_reqd=ok ignore=ignore default=bad''"
  "control_text (keyword_items Requisite) = asc ''success=ok new_authtok_reqd=ok ignore=ignore default=die''"
  "control_text (keyword_items Sufficient) = asc ''success=done new_authtok_reqd=done default=ignore''"
  "control_text (keyword_items Optional) = asc ''success=ok new_authtok_reqd=ok default=ignore''"
  by (simp_all add: item_text_def action_text_def pam_token_returns_def pam_token_actions_def)

lemma keyword_items_table: "assign_controls (keyword_items kw) undef_actions = keyword_table kw"
  by (cases kw; simp only: keyword_items.simps keyword_table.simps; code_simp)

lemma parse_keyword_text: "pam_parse_control undef_actions (control_text (keyword_items kw)) = Some (keyword_table kw)"
proof -
  have "\<forall>x\<in>set (keyword_items kw). item_ok x" by (cases kw) (simp_all add: item_ok_def)
  from parse_control_text [OF this, of undef_actions] show ?thesis by (simp only: keyword_items_table)
qed

theorem keyword_strings:
  "parse_control_field (Some (control_text (keyword_items kw))) = parse_control_field (Some (keyword_name kw))"
proof -
  have u: "ACTION_UNDEF \<notin> set (keyword_table kw)" by (cases kw; simp only: keyword_table.simps; code_simp)
  have l: "10 < length (control_text (keyword_items kw))" by (cases kw) (simp_all only: keyword_texts length_asc, simp_all)
  have n: "\<not> strcaseeq (asc w) (control_text (keyword_items kw))" if "length w \<le> 10" for w
    using l that strcaseeq_length [of "asc w"] by auto
  have "parse_control_field (Some (control_text (keyword_items kw))) = Some (Control_actions (keyword_table kw))"
    using parse_keyword_text [of kw] set_default_done [OF u] by (simp add: parse_control_field_def n del: asc_Cons)
  then show ?thesis by (simp only: keyword_names)
qed

end
