(* ===== verification/PamLines.thy ===== *)
theory PamLines
  imports PamConf
begin

text \<open>
  Lines and words of the configuration: when \<open>_pam_assemble_line\<close> returns, and the bounds of the block
  that \<open>_pam_mkargv\<close> fills.
\<close>

subsection \<open>Reading a line\<close>

text \<open>With room for the terminator only, \<open>fgets\<close> reads nothing and the loop turns forever.\<close>

lemma assemble_stuck:
  assumes "length pre = buf_len - 1" "0 < buf_len"
  shows "assemble_loop buf_len pre used f = None"
proof (rule ccontr)
  assume "assemble_loop buf_len pre used f \<noteq> None"
  then obtain r where "assemble_loop buf_len pre used f = Some r" by auto
  moreover have "length pre \<noteq> buf_len - 1 \<or> buf_len = 0" if "assemble_loop buf_len pre used f = Some r" for buf_len pre used f r
  proof (rule assemble_loop.raw_induct [OF _ that, where P = "\<lambda>b pre used f r. length pre \<noteq> b - 1 \<or> b = 0"])
    fix rec b pre used and f :: bytes and r :: "int \<times> bytes \<times> bytes"
    assume ih: "\<And>b pre used f r. rec b pre used f = Some r \<Longrightarrow> length pre \<noteq> b - 1 \<or> b = 0"
      and eq: "(if b \<le> length pre then Some (- 1, pre, f)
        else case fgets (b - length pre) f of
          None \<Rightarrow> Some (if used \<noteq> 0 then - 1 else 0, pre, f)
        | Some (chunk, f') \<Rightarrow>
            (case classify_chunk chunk of
               Chunk_blank \<Rightarrow> rec b pre used f'
             | Chunk_more t n \<Rightarrow> rec b (pre @ t) (used + n) f'
             | Chunk_end t n \<Rightarrow> Some (int (used + n), pre @ t, f'))) = Some r"
    show "length pre \<noteq> b - 1 \<or> b = 0"
    proof (rule ccontr)
      assume "\<not> (length pre \<noteq> b - 1 \<or> b = 0)"
      then have "b - length pre = 1" "\<not> b \<le> length pre" by linarith+
      then have "rec b pre used f = Some r" using eq by (simp add: fgets_def)
      with ih show False using \<open>\<not> (length pre \<noteq> b - 1 \<or> b = 0)\<close> by blast
    qed
  qed
  ultimately show False using assms by fastforce
qed

lemma strip_end_ne: "s \<noteq> [] \<Longrightarrow> \<not> is_blank (hd s) \<Longrightarrow> strip_end s \<noteq> []"
  by (cases s) (auto simp: strip_end_def dropWhile_append)

lemma strip_end_sub: "set (strip_end s) \<subseteq> set s" "length (strip_end s) \<le> length s"
  using length_dropWhile_le [of is_blank "rev s"] by (auto simp: strip_end_def dest: set_dropWhileD)

lemma chunk_moreE:
  assumes "classify_chunk c = Chunk_more t n"
  obtains lead os where "lead = takeWhile is_blank (cstr c)" "os = dropWhile is_blank (cstr c)" "os \<noteq> []"
    "last (strip_end os) = 92" "t = lead @ butlast (strip_end os) @ [32]"
  using assms that [OF refl refl] unfolding classify_chunk_def Let_def by (simp split: if_splits)

lemma chunk_text:
  assumes "classify_chunk c = Chunk_more t n"
  shows "length t \<le> length c \<and> 92 \<in> set c"
proof -
  obtain lead os where
    os: "lead = takeWhile is_blank (cstr c)" "os = dropWhile is_blank (cstr c)" "os \<noteq> []"
    "last (strip_end os) = 92" "t = lead @ butlast (strip_end os) @ [32]" by (rule chunk_moreE [OF assms])
  have "\<not> is_blank (hd os)" using os(3) unfolding os(2) by (rule hd_dropWhile)
  then have ne: "strip_end os \<noteq> []" by (rule strip_end_ne [OF os(3)])
  have "set os \<subseteq> set (cstr c)" unfolding os(2) by (intro subsetI) (rule set_dropWhileD)
  moreover have "set (cstr c) \<subseteq> set c" unfolding cstr_def by (intro subsetI) (rule set_takeWhileD [THEN conjunct1])
  ultimately have "set os \<subseteq> set c" by (rule subset_trans)
  then have m: "92 \<in> set c" using os(4) last_in_set [OF ne] strip_end_sub(1) [of os] by (metis subsetD)
  have "length lead + length os = length (cstr c)" unfolding os(1,2) by (rule word_split_length)
  moreover have "length (cstr c) \<le> length c" unfolding cstr_def by (rule length_takeWhile_le)
  moreover have "length t = length lead + length (strip_end os)" using os(5) ne by simp
  ultimately show ?thesis using m strip_end_sub(2) [of os] by linarith
qed

lemma line_prefix: "10 \<in> set k \<Longrightarrow> \<exists>r. k = (takeWhile (\<lambda>b. b \<noteq> 10) k @ [10]) @ r" for k :: bytes
proof -
  assume "10 \<in> set k"
  then obtain ys zs where k: "k = ys @ 10 # zs" "10 \<notin> set ys" using split_list_first by metis
  then have "takeWhile (\<lambda>b. b \<noteq> 10) k = ys" by (auto simp: takeWhile_append)
  then show ?thesis using k(1) by simp
qed

lemma fgets_chunk:
  assumes "fgets n f = Some (c, f')" "1 < n"
  shows "c \<noteq> [] \<and> f = c @ f'"
proof -
  let ?k = "take (n - 1) f"
  have f: "f \<noteq> []" "c = (if 10 \<in> set ?k then takeWhile (\<lambda>b. b \<noteq> 10) ?k @ [10] else ?k)" "f' = drop (length c) f"
    using assms by (auto simp: fgets_def Let_def split: if_splits)
  obtain r where "?k = c @ r"
    using line_prefix [of ?k] f(2) by (cases "10 \<in> set ?k") auto
  then have "take (length c) f = c" by (metis append_eq_conv_conj append_take_drop_id append_assoc)
  moreover have "c \<noteq> []" using f(1,2) assms(2) by (cases f) (auto split: if_splits)
  ultimately show ?thesis using f(3) by (metis append_take_drop_id)
qed

lemma assemble_returns:
  assumes "length pre + length f < buf_len - 1 \<or> 92 \<notin> set f \<and> length pre < buf_len - 1" "1 < buf_len"
  shows "assemble_loop buf_len pre used f \<noteq> None"
  using assms(1)
proof (induction f arbitrary: pre used rule: measure_induct_rule [of length])
  case (less f)
  have r: "1 < buf_len - length pre" using less(2) by linarith
  show ?case
  proof (cases "fgets (buf_len - length pre) f")
    case None
    then show ?thesis using r by (subst assemble_loop.simps) simp
  next
    case (Some cf)
    obtain c f' where cf: "cf = (c, f')" by force
    then have g: "fgets (buf_len - length pre) f = Some (c, f')" using Some by simp
    note ch = fgets_chunk [OF g r]
    then have lt: "length f' < length f" by simp
    show ?thesis
    proof (cases "classify_chunk c")
      case Chunk_blank
      moreover have "assemble_loop buf_len pre used f' \<noteq> None" using less(1) [OF lt, of pre used] less(2) lt ch by auto
      ultimately show ?thesis using g r by (subst assemble_loop.simps) auto
    next
      case (Chunk_more t n)
      note tx = chunk_text [OF Chunk_more]
      have "assemble_loop buf_len (pre @ t) (used + n) f' \<noteq> None"
        using less(1) [OF lt, of "pre @ t" "used + n"] less(2) ch tx by auto
      then show ?thesis using g r Chunk_more by (subst assemble_loop.simps) auto
    next
      case (Chunk_end t n)
      then show ?thesis using g r by (subst assemble_loop.simps) auto
    qed
  qed
qed

theorem assemble_line_returns: "length f < BUF_SIZE - 1 \<or> 92 \<notin> set f \<Longrightarrow> \<exists>r. pam_assemble_line f = Some r"
  using assemble_returns [of "[]" f BUF_SIZE 0] by (auto simp: pam_assemble_line_def)

text \<open>A line whose continuation backslash is the last byte that fits into the buffer.\<close>

definition plain_byte :: "byte \<Rightarrow> bool" where
  "plain_byte b \<longleftrightarrow> b \<noteq> 0 \<and> b \<noteq> 9 \<and> b \<noteq> 10 \<and> b \<noteq> 32 \<and> b \<noteq> 35"

lemma classify_plain:
  assumes "list_all plain_byte t" "t \<noteq> []"
  shows "classify_chunk (t @ [92]) = Chunk_more (t @ [32]) (length t + 1)"
proof -
  have "plain_byte 92" by (simp add: plain_byte_def)
  then have p: "list_all plain_byte (t @ [92])" using assms(1) by simp
  have "\<not> plain_byte 0" "\<not> plain_byte 35" by (simp_all add: plain_byte_def)
  then have n: "0 \<notin> set (t @ [92])" "35 \<notin> set (t @ [92])" using p unfolding list_all_iff by metis+
  then have "cstr (t @ [92]) = t @ [92]" by (intro cstr_id)
  moreover obtain b bs where "t = b # bs" "plain_byte b" using assms by (cases t) auto
  then have "takeWhile is_blank (t @ [92]) = []" "dropWhile is_blank (t @ [92]) = t @ [92]" "hd (t @ [92]) \<noteq> 35"
    by (simp_all add: plain_byte_def)
  moreover note n(2)
  moreover have "strip_end (t @ [92]) = t @ [92]" by (simp add: strip_end_def)
  ultimately show ?thesis by (simp add: classify_chunk_def)
qed

theorem assemble_line_hangs:
  assumes "length t = BUF_SIZE - 2" "list_all plain_byte t"
  shows "pam_assemble_line (t @ 92 # f) = None"
proof -
  have k: "take 1023 (t @ 92 # f) = t @ [92]" "drop 1023 (t @ 92 # f) = f" using assms(1) by simp_all
  have "\<not> plain_byte 10" by (simp add: plain_byte_def)
  then have "10 \<notin> set (t @ [92])" using assms(2) unfolding list_all_iff by auto
  moreover have "length (t @ [92]) = 1023" using assms(1) by simp
  ultimately have g: "fgets 1024 (t @ 92 # f) = Some (t @ [92], f)" using k by (simp add: fgets_def Let_def)
  have "t \<noteq> []" using assms(1) by auto
  then have c: "classify_chunk (t @ [92]) = Chunk_more (t @ [32]) (length t + 1)" using classify_plain [OF assms(2)] by blast
  have "assemble_loop 1024 (t @ [32]) (length t + 1) f = None" using assms(1) by (intro assemble_stuck) simp_all
  then have "assemble_loop 1024 [] 0 (t @ 92 # f) = None" using g c by (subst assemble_loop.simps) simp
  then show ?thesis by (simp add: pam_assemble_line_def)
qed

subsection \<open>Argument vectors\<close>

text \<open>The words of a text of length \<open>l\<close> are at most \<open>l\<close>, and with their terminators they take at most
  \<open>l + 1\<close> bytes.\<close>

lemma tokens_fit:
  assumes "s \<noteq> []"
  shows "length (tokens (Some s)) \<le> length s \<and> sum_list (map (\<lambda>t. length t + 1) (tokens (Some s))) \<le> length s + 1"
  using assms
proof (induction s rule: measure_induct_rule [of length])
  case (less s)
  obtain w n where w: "pam_StrTok s blanks = (w, n)" by force
  show ?case
  proof (cases w)
    case None
    then show ?thesis using w by (simp add: tokens.simps [of "Some s"] StrTok_next_def)
  next
    case (Some t)
    note len = pam_StrTok_length [of s blanks t n, OF w [unfolded Some]]
    show ?thesis
    proof (cases n)
      case None
      then have "tokens (Some s) = [t]"
        using w Some by (simp add: tokens.simps [of "Some s"] tokens.simps [of None] StrTok_next_def)
      then show ?thesis using len None less(2) by (cases s) auto
    next
      case r: (Some r)
      have ne: "r \<noteq> []" using w Some r by (auto simp: pam_StrTok_def Let_def split: list.splits if_splits prod.splits)
      have "tokens (Some s) = t # tokens (Some r)" using w Some r by (simp add: tokens.simps [of "Some s"] StrTok_next_def)
      then show ?thesis using less(1) [OF _ ne] len r by fastforce
    qed
  qed
qed

text \<open>The pointers and the strings that \<open>_pam_mkargv\<close> stores lie inside the block it allocates: the
  pointers in the first \<open>8 * l\<close> bytes, the strings behind them.\<close>

theorem mkargv_bounds:
  assumes "pam_mkargv e s p = ((argvlen, n, Some args), p')"
  shows "n = length args \<and> n \<le> length s \<and> 8 * length s + sum_list (map (\<lambda>t. length t + 1) args) \<le> argvlen"
proof -
  have "s \<noteq> []" "argvlen = (length s + 1) * 9" "n = length (tokens (Some s))" "args = tokens (Some s)"
    using assms by (auto simp: pam_mkargv_def Let_def split: if_splits prod.splits bool.splits)
  then show ?thesis using tokens_fit [of s] by simp
qed

end
