(* ===== verification/PamGrant.thy ===== *)
theory PamGrant
  imports PamDispatchThms
begin

text \<open>
  Who granted a request. \<open>_pam_dispatch_aux\<close> marks the handlers whose success counted (\<open>grantor\<close>, for the
  audit trail). A run that ends in success has a grantor, and every grantor was called in that run and
  returned success.
\<close>

subsection \<open>The calls of a walk\<close>

text \<open>The positions of the modules that a walk calls, with their return values.\<close>

definition call_of :: "('f, 's) runner \<Rightarrow> nat \<Rightarrow> 'f handler \<Rightarrow> 's \<Rightarrow> (nat \<times> int) list" where
  "call_of run d h s = (if handler_type h = PAM_HT_SUBSTACK then [] else [(d, fst (module_retval run h s))])"

function walk_calls :: "('f, 's) runner \<Rightarrow> freeze \<Rightarrow> nat \<Rightarrow> nat \<Rightarrow> nat \<Rightarrow> 'f handler list \<Rightarrow> ('f, 's) walk \<Rightarrow> (nat \<times> int) list" where
  "walk_calls run u skip d p [] w = []"
| "walk_calls run u skip d p (h # hs) w =
     (if d < skip then walk_calls run u skip (d + 1) (stack_level h) hs w
      else call_of run d h (w_public w) @
        (case visit run u d p h hs w of
           Some (Go hs' w') \<Rightarrow> walk_calls run u skip (d + 1 + (length hs - length hs')) (stack_level h) hs' w'
         | _ \<Rightarrow> []))"
  by pat_completeness auto
termination
  by (relation "measure (\<lambda>(_, _, _, _, _, hs, _). length hs)") (auto dest: visit_length)

subsection \<open>Marks\<close>

definition marked :: "('f, 's) walk \<Rightarrow> nat \<Rightarrow> bool" where
  "marked w i \<longleftrightarrow> i < length (w_stack w) \<and> grantor (w_stack w ! i)"

text \<open>A success so far, in the walk or saved for a substack, has a grantor.\<close>

definition vouched :: "('f, 's) walk \<Rightarrow> bool" where
  "vouched w \<longleftrightarrow> (\<exists>i. marked w i) \<or> avoids {(IMP_POSITIVE, PAM_SUCCESS)} w"

lemma set_grantor_marked: "d < length (w_stack w) \<Longrightarrow> marked (set_grantor d w) i \<longleftrightarrow> i = d \<or> marked w i"
  by (auto simp: marked_def set_grantor_def nth_list_update)

lemma marked_fields [simp]:
  "marked (w\<lparr>impression := a\<rparr>) = marked w" "marked (w\<lparr>status := a\<rparr>) = marked w" "marked (w\<lparr>substates := b\<rparr>) = marked w"
  "marked (w\<lparr>w_cells := c\<rparr>) = marked w" "marked (w\<lparr>w_public := s\<rparr>) = marked w"
  by (auto simp: marked_def)

text \<open>A step of the walk at position \<open>d\<close> whose module returned \<open>r\<close>.\<close>

definition fair_step :: "nat \<Rightarrow> int \<Rightarrow> ('f, 's) walk \<Rightarrow> ('f, 's) walk \<Rightarrow> bool" where
  "fair_step d r w w' \<longleftrightarrow> length (w_stack w') = length (w_stack w) \<and>
     (\<forall>i. marked w' i \<longrightarrow> marked w i \<or> i = d \<and> r = PAM_SUCCESS) \<and> (vouched w \<longrightarrow> vouched w')"

lemma fair_trans: "fair_step d r w w' \<Longrightarrow> fair_step d r w' w'' \<Longrightarrow> fair_step d r w w''"
  unfolding fair_step_def by auto

lemma fair_refl [simp]: "fair_step d r w w"
  by (simp add: fair_step_def)

lemma fair_grantor: "d < length (w_stack w) \<Longrightarrow> fair_step d PAM_SUCCESS w (set_grantor d w)"
  by (auto simp: fair_step_def set_grantor_marked vouched_def)

lemma fair_verdict:
  assumes "(i, s) \<noteq> (IMP_POSITIVE, PAM_SUCCESS) \<or> (\<exists>j. marked w j) \<or> Some (i, s) \<in> set (substates w)"
  shows "fair_step d r w (w\<lparr>impression := i, status := s\<rparr>)"
  using assms by (auto simp: fair_step_def vouched_def avoids_def)

lemma fair_on_ok:
  assumes "d < length (w_stack w)"
  shows "fair_step d r w (on_ok d r c w)"
proof (cases "r = PAM_SUCCESS")
  case True
  let ?w1 = "if undecided w \<and> (r \<noteq> PAM_IGNORE \<or> c = r) then w\<lparr>impression := IMP_POSITIVE, status := r\<rparr> else w"
  show ?thesis
  proof (cases "impression ?w1 = IMP_POSITIVE")
    case pos: True
    then have e: "on_ok d r c w = set_grantor d ?w1"
      using True by (cases "undecided w \<and> (r \<noteq> PAM_IGNORE \<or> c = r)") (simp_all add: on_ok_def Let_def)
    have "marked (set_grantor d ?w1) i \<longleftrightarrow> i = d \<or> marked w i" for i
      using assms set_grantor_marked [of d ?w1 i] by (cases "undecided w \<and> (r \<noteq> PAM_IGNORE \<or> c = r)") simp_all
    then show ?thesis unfolding e fair_step_def vouched_def using True by auto
  next
    case False
    then show ?thesis using True by (auto simp: on_ok_def Let_def split: if_splits)
  qed
next
  case False
  then show ?thesis using fair_verdict [of IMP_POSITIVE r w d r] by (auto simp: on_ok_def Let_def)
qed

lemma fair_cached_jump:
  assumes "d < length (w_stack w)" "vouched w"
  shows "fair_step d r w (on_cached_jump d r c w)"
proof (cases "r = PAM_SUCCESS \<and> impression w = IMP_UNDEF")
  case True
  then have "on_cached_jump d r c w = (set_grantor d w)\<lparr>impression := IMP_POSITIVE, status := r\<rparr>"
    by (simp add: on_cached_jump_def undecided_def)
  then show ?thesis
    using fair_trans [OF fair_grantor [OF assms(1)] fair_verdict] True set_grantor_marked [OF assms(1)] by auto
next
  case False
  then have "on_cached_jump d r c w = w \<or> on_cached_jump d r c w = w\<lparr>impression := IMP_POSITIVE, status := r\<rparr>"
    by (auto simp: on_cached_jump_def)
  moreover have "\<exists>j. marked w j" if "undecided w" "r = PAM_SUCCESS"
    using that False assms(2) by (auto simp: undecided_def vouched_def avoids_def)
  moreover have "on_cached_jump d r c w = w" if "\<not> undecided w" using that by (simp add: on_cached_jump_def)
  ultimately show ?thesis using fair_verdict [of IMP_POSITIVE r w d r] by (cases "undecided w") auto
qed

lemma fair_bad: "fair_step d r w (on_bad r' w)" "fair_step d r w (bad_jump w)"
  using fair_verdict [of IMP_NEGATIVE _ w d r] by (auto simp: on_bad_def bad_jump_def)

lemma fair_action:
  assumes "after_action u d l a r c hs w = Some (hs', w')" "d < length (w_stack w)" "vouched w"
  shows "fair_step d r w w'"
proof -
  note j = fair_cached_jump [OF assms(2,3), of r c]
  note f = fair_on_ok [OF assms(2), of r c] fair_bad [of d r w] j fair_trans [OF j fair_bad(2)]
  have "fair_step d r w (w\<lparr>impression := i, status := s\<rparr>)" if "Some (i, s) \<in> set (substates w)" for i s
    using that fair_verdict by blast
  then show ?thesis
    using assms(1) f by (auto simp: after_action_def Let_def at_def split: if_splits prod.splits bind_splits dest: nth_mem)
qed

lemma enter_level_fair: "enter_level p l w = Some w' \<Longrightarrow> w_stack w' = w_stack w \<and> w_public w' = w_public w \<and> fair_step d r w w'"
  using enter_level_avoids [of "{(IMP_POSITIVE, PAM_SUCCESS)}" w p l w']
  by (auto simp: enter_level_def fair_step_def vouched_def split: if_splits)

lemma fair_frame: "vouched w \<Longrightarrow> vouched (w\<lparr>w_public := s\<rparr>)" "vouched w \<Longrightarrow> vouched (w\<lparr>w_public := s, w_cells := cs\<rparr>)"
  by (simp_all add: vouched_def avoids_def)

text \<open>One turn: new marks belong to the module that was called, and they mean that it returned success.\<close>

lemma visit_fair:
  assumes "visit run u d p h hs w = Some t" "vouched w" "d < length (w_stack w)"
  shows "vouched (turn_walk t) \<and> length (w_stack (turn_walk t)) = length (w_stack w) \<and>
    (\<forall>i. marked (turn_walk t) i \<longrightarrow> marked w i \<or> (i, PAM_SUCCESS) \<in> set (call_of run d h (w_public w)))"
proof (cases t)
  case (Wait w')
  then obtain w1 s where "enter_level p (stack_level h) w = Some w1" "w' = w1\<lparr>w_public := s\<rparr>"
    using assms(1) by (auto elim!: visit_WaitE)
  with Wait enter_level_fair [of p "stack_level h" w w1 d 1] assms(2) fair_frame(1) [of w1 s] show ?thesis
    by (simp add: fair_step_def)
next
  case (Go hs' w')
  with assms(1) have "visit run u d p h hs w = Some (Go hs' w')" by simp
  then show ?thesis
  proof (cases rule: visit_GoE)
    case substack
    then show ?thesis using Go assms(2) enter_level_fair [of p "stack_level h" w w' d 1] by (simp add: fair_step_def)
  next
    case (called w1 r s c cs ret a)
    note e = enter_level_fair [OF called(1), of d 1]
    let ?v = "w1\<lparr>w_public := s, w_cells := cs\<rparr>"
    have "vouched w1" using e assms(2) by (auto simp: fair_step_def)
    then have v: "vouched ?v" by (rule fair_frame)
    have "fair_step d ret ?v w'" by (rule fair_action [OF called(7) _ v]) (use e assms(3) in simp)
    moreover have "ret = PAM_SUCCESS \<Longrightarrow> (d, PAM_SUCCESS) \<in> set (call_of run d h (w_public w))"
      using called(2,3,6) e action_of_ret [OF called(6)] by (auto simp: call_of_def)
    ultimately show ?thesis using Go e v by (auto simp: fair_step_def)
  qed
qed

lemma walk_fair:
  "walk_loop run u sk d p hs w = Some t \<Longrightarrow> vouched w \<Longrightarrow> d + length hs \<le> length (w_stack w) \<Longrightarrow>
     vouched (stop_walk t) \<and> (\<forall>i. marked (stop_walk t) i \<longrightarrow> marked w i \<or> (i, PAM_SUCCESS) \<in> set (walk_calls run u sk d p hs w))"
proof (induction run u sk d p hs w rule: walk_loop.induct)
  case (2 run u sk d p h hs w)
  show ?case
  proof (cases "d < sk")
    case True
    with 2 show ?thesis by simp
  next
    case False
    with 2(3) obtain v where v: "visit run u d p h hs w = Some v" by (auto split: option.splits)
    have "d < length (w_stack w)" using 2(5) by simp
    note f = visit_fair [OF v 2(4) this]
    show ?thesis
    proof (cases v)
      case (Wait w')
      then show ?thesis using 2(3) False v f by auto
    next
      case (Go hs' w')
      with v have l: "length hs' \<le> length hs" by (auto dest: visit_length)
      have "d + 1 + (length hs - length hs') + length hs' \<le> length (w_stack w')" using 2(5) f Go l by simp
      from 2(2) [OF False v Go _ _ this] 2(3) False v Go f show ?thesis by auto
    qed
  qed
qed auto

subsection \<open>Dispatched requests\<close>

text \<open>The calls that a fresh request makes.\<close>

definition dispatch_calls :: "('f, 'w, 'd) platform \<Rightarrow> 32 word \<Rightarrow> nat \<Rightarrow> ('f, 'w, 'd) pam_handle \<Rightarrow> (nat \<times> int) list" where
  "dispatch_calls e flags choice p =
     (case choice_stack choice of
        None \<Rightarrow> []
      | Some (k, u) \<Rightarrow>
          let q = prepare_stack choice k p; hs = service_stack (chosen_other k (service p)) k (service q) in
          walk_calls (\<lambda>f. call_module e f flags) u 0 0 0 hs (initial_walk hs (cells (service q)) (snd (malloc e (public q)))))"

definition grantors :: "nat \<Rightarrow> ('f, 'w, 'd) pam_handle \<Rightarrow> ('f, 'w, 'd) pam_handle \<Rightarrow> nat set" where
  "grantors choice p p' =
     (case choice_stack choice of
        None \<Rightarrow> {}
      | Some (k, u) \<Rightarrow>
          let hs = service_stack (chosen_other k (service p)) k (service p') in {i. i < length hs \<and> grantor (hs ! i)})"

lemma halloc_parts: "halloc e p = (b, p1) \<Longrightarrow> service p1 = service p \<and> public p1 = snd (malloc e (public p))"
  by (auto simp: halloc_def malloc_def)

lemma start_fresh:
  assumes "start_walk e False hs p = (Some (skip, w), p1)"
  shows "skip = 0" "w = initial_walk hs (cells (service p)) (snd (malloc e (public p)))"
proof -
  obtain b p2 where h: "halloc e p = (b, p2)" by force
  then have "(if b then Some (0, initial_walk hs (cells (service p2)) (public p2)) else None) = Some (skip, w)"
    using assms by (cases b) (clarsimp simp: start_walk_def)+
  then show "skip = 0" "w = initial_walk hs (cells (service p)) (snd (malloc e (public p)))"
    using halloc_parts [OF h] by (simp_all split: if_splits)
qed

lemma initial_vouched: "vouched (initial_walk hs cs s)"
  using initial_avoids [of "{(IMP_POSITIVE, PAM_SUCCESS)}" hs cs s] by (simp add: vouched_def)

lemma granted_walk:
  assumes "service_stack b k (service p) \<noteq> []" "start_walk e False (service_stack b k (service p)) p = (Some (skip, w), p2)"
    "pam_dispatch_aux e flags b k False u p = Some (PAM_SUCCESS, p1)"
  shows "\<exists>w'. walk_loop (\<lambda>f. call_module e f flags) u skip 0 0 (service_stack b k (service p)) w = Some (Finished w') \<and>
    sanity_check w' = PAM_SUCCESS \<and> p1 = store_walk b k w' p2"
  using assms by (simp add: pam_dispatch_aux_def Let_def split: option.splits stop.splits)

theorem success_granted:
  assumes "pam_dispatch e flags choice p = Some (PAM_SUCCESS, p')" "former_choice p = PAM_NOT_STACKED" "handlers_loaded (public p)"
  shows "grantors choice p p' \<noteq> {} \<and> (\<forall>i\<in>grantors choice p p'. (i, PAM_SUCCESS) \<in> set (dispatch_calls e flags choice p))"
proof -
  have "pam_init_handlers e p = Some (PAM_SUCCESS, p)" using assms(3) by (simp add: pam_init_handlers_def)
  with assms(1,2) obtain k u where k: "choice_stack choice = Some (k, u)" "run_stack e flags choice k u p = Some (PAM_SUCCESS, p')"
    by (auto simp: pam_dispatch_def split: if_splits option.splits)
  let ?b = "chosen_other k (service p)"
  let ?q = "prepare_stack choice k p"
  let ?run = "\<lambda>f. call_module e f flags"
  let ?hs = "service_stack ?b k (service ?q)"
  let ?w = "initial_walk ?hs (cells (service ?q)) (snd (malloc e (public ?q)))"
  from k(2) assms(2) obtain p1 where a: "pam_dispatch_aux e flags ?b k False u ?q = Some (PAM_SUCCESS, p1)" "service p' = service p1"
    by (auto simp: run_stack_def leave_stack_fields split: option.splits)
  obtain sw p2 where st: "start_walk e False ?hs ?q = (sw, p2)" by force
  have ne: "?hs \<noteq> []" using a(1) pam_dispatch_aux_eqs(1) by fastforce
  obtain skip w where w: "sw = Some (skip, w)"
    using a(1) pam_dispatch_aux_eqs(2) [OF ne] st by (cases sw) fastforce+
  note fr = start_fresh [OF st [unfolded w]]
  obtain w' where w': "walk_loop ?run u 0 0 0 ?hs ?w = Some (Finished w')" "sanity_check w' = PAM_SUCCESS"
      "p1 = store_walk ?b k w' p2"
    by (rule exE [OF granted_walk [OF ne st [unfolded w fr] a(1)]]) (elim conjE, rule that)
  have g: "grantors choice p p' = {i. marked w' i}"
    using a(2) w'(3) k(1) by (simp add: grantors_def marked_def store_walk_def service_stack_update Let_def)
  have n: "\<not> marked ?w i" for i
    using assms(2) by (simp add: marked_def initial_walk_def prepare_stack_fields service_stack_update pam_clear_grantors_def)
  have len: "0 + length ?hs \<le> length (w_stack ?w)" by (simp add: initial_walk_def)
  have c: "dispatch_calls e flags choice p = walk_calls ?run u 0 0 0 ?hs ?w" using k(1) by (simp add: dispatch_calls_def Let_def)
  note f = walk_fair [OF w'(1) initial_vouched len]
  have "\<exists>i. marked w' i" using conjunct1 [OF f] w'(2) by (auto simp: vouched_def avoids_def sanity_check_def split: if_splits)
  moreover have "\<forall>i. marked w' i \<longrightarrow> (i, PAM_SUCCESS) \<in> set (walk_calls ?run u 0 0 0 ?hs ?w)"
    using conjunct2 [OF f] by (simp only: n stop_walk.simps simp_thms)
  ultimately show ?thesis unfolding g c by blast
qed

end
