(* ===== verification/PamExamples.thy ===== *)
theory PamExamples
  imports PamApi PamKeywords PamTree PamResume PamLines
begin

text \<open>
  A concrete setting for the theorems on the PAM library: a platform with one configuration file, modules
  with fixed answers, cleanup functions that log their calls, and a handle with two modules.
\<close>

declare assemble_loop.simps [code]

subsection \<open>Platform\<close>

definition desk :: "(nat, (nat \<times> nat) list, nat) platform" where
  "desk =
     \<lparr>malloc_answer = (\<lambda>_. True), nofile = 8,
      fopen = (\<lambda>_ path. if path = asc ''/etc/pam.d/l'' then Some (asc ''auth required /m'') else None),
      is_dir = (\<lambda>_ _. True), dlopen = (\<lambda>_ _. Some 1), dlsym = (\<lambda>_ _. Some 0), default_module_path = [], pam_isa = [],
      call_module = (\<lambda>f _ _ _ _ s. (int f, s)),
      call_cleanup = (\<lambda>c d _ s. s\<lparr>world := (c, d) # world s\<rparr>),
      call_conv = (\<lambda>_ _ w. (PAM_SUCCESS, Some (Some (asc ''root'')), w)),
      call_delay = (\<lambda>_ _ _ w. w), wait_usec = (\<lambda>_ w. w), time_now = (\<lambda>_. 0)\<rparr>"

lemma desk_fields [simp]:
  "malloc_answer desk n" "call_module desk f flags nm n a s = (int f, s)"
  "call_cleanup desk c d st s = s\<lparr>world := (c, d) # world s\<rparr>"
  by (simp_all add: desk_def)

lemma desk_disciplined: "disciplined desk"
  by (simp add: disciplined_def keeps_service_def kept_def)

lemma desk_logs: "logs_cleanups desk id"
  by (simp add: logs_cleanups_def)

lemma id_rounds: "rounds id"
  by (simp add: rounds_def mono_def)

subsection \<open>A handle with two modules\<close>

definition desk_handler :: "keyword \<Rightarrow> nat \<Rightarrow> nat \<Rightarrow> nat handler" where
  "desk_handler kw f n =
     \<lparr>handler_type = PAM_HT_MODULE, func = Some f, actions = keyword_table kw, cached_retval = n, cached_retval_p = n,
      argc = 0, argv = None, mod_name = None, stack_level = 0, grantor = False\<rparr>"

definition desk_public :: "((nat \<times> nat) list, nat) pam_public" where
  "desk_public = (zero_public [])\<lparr>handlers_loaded := True, caller_is := FROM_APP, conversation := Some 0\<rparr>"

text \<open>A required module that succeeds, and a module with the keyword and the answer given.\<close>

definition desk_handle :: "keyword \<Rightarrow> nat \<Rightarrow> (nat, (nat \<times> nat) list, nat) pam_handle" where
  "desk_handle kw f =
     (zero_handle desk_public)
       \<lparr>service := \<lparr>modules = Some [], modules_allocated = 4,
          conf = no_handlers\<lparr>authenticate := [desk_handler Required 0 0, desk_handler kw f 1]\<rparr>,
          others = no_handlers, cells = [INVALID_RETVAL, INVALID_RETVAL]\<rparr>\<rparr>"

lemma no_handlers_stack [simp]: "get_stack k no_handlers = []"
  by (cases k) (simp_all add: no_handlers_def)

lemma desk_stack: "service_stack b k (service (desk_handle kw f)) =
    (if \<not> b \<and> k = S_authenticate then [desk_handler Required 0 0, desk_handler kw f 1] else [])"
  by (cases k) (simp_all add: desk_handle_def service_stack_def no_handlers_def)

lemma keyword_table_length: "length (keyword_table kw) = PAM_RETURN_VALUES"
  by (cases kw) (simp_all add: keyword_actions_def Let_def pam_set_default_control_def)

lemma desk_handle_fields:
  "former_choice (desk_handle kw f) = PAM_NOT_STACKED" "public (desk_handle kw f) = desk_public"
  "cells (service (desk_handle kw f)) = [INVALID_RETVAL, INVALID_RETVAL]"
  by (simp_all add: desk_handle_def zero_handle_def)

lemma desk_public_fields [simp]:
  "handlers_loaded desk_public" "caller_is desk_public = FROM_APP" "module_data desk_public = []"
  by (simp_all add: desk_public_def zero_public_def)

lemma desk_service_ok: "service_ok (service (desk_handle kw f))"
  by (simp add: service_ok_def desk_stack desk_handle_fields keyword_table_length desk_handler_def handler_ok_def next_level_def)

lemma desk_handle_ok: "handle_ok (desk_handle kw f)"
  by (simp add: handle_ok_def desk_handle_fields desk_service_ok)

lemma desk_chosen: "\<not> chosen_other S_authenticate (service (desk_handle kw f))"
  by (simp add: chosen_other_def desk_handle_def)

text \<open>The request of the application succeeds.\<close>

lemma desk_dispatch: "\<exists>p'. pam_dispatch desk 0 PAM_AUTHENTICATE (desk_handle Optional 7) = Some (PAM_SUCCESS, p')"
proof -
  have "map_option fst (pam_dispatch desk 0 PAM_AUTHENTICATE (desk_handle Optional 7)) = Some PAM_SUCCESS" by code_simp
  then show ?thesis by auto
qed

subsection \<open>A module that answers at the second call\<close>

definition slow_desk :: "(nat, (nat \<times> nat) list, nat) platform" where
  "slow_desk = desk\<lparr>call_module := (\<lambda>f _ _ _ _ s.
     if world s = [] then (PAM_INCOMPLETE, s\<lparr>world := [(0, 0)]\<rparr>) else (int f, s))\<rparr>"

lemma slow_keeps: "keeps_service slow_desk"
  by (simp add: slow_desk_def keeps_service_def kept_def)

lemma id_well_behaved: "well_behaved id"
  by (simp add: well_behaved_def)

lemma slow_converse: "\<exists>p'. converse slow_desk id 1 0 PAM_AUTHENTICATE (desk_handle Optional 7) = Some (PAM_SUCCESS, p')"
proof -
  have "map_option fst (converse slow_desk id 1 0 PAM_AUTHENTICATE (desk_handle Optional 7)) = Some PAM_SUCCESS" by code_simp
  then show ?thesis by auto
qed

subsection \<open>Reading a configuration\<close>

lemma desk_start: "\<exists>p. pam_start_internal desk (Some (asc ''l'')) None (Some 0) None True [] = Some (PAM_SUCCESS, Some p) \<and>
    caller_is (public p) \<noteq> FROM_MODULE"
proof -
  have "(case pam_start_internal desk (Some (asc ''l'')) None (Some 0) None True [] of
      Some (r, Some p) \<Rightarrow> r = PAM_SUCCESS \<and> caller_is (public p) \<noteq> FROM_MODULE | _ \<Rightarrow> False)" by code_simp
  then show ?thesis by (auto split: option.splits)
qed

lemma desk_transaction: "\<exists>p. transaction desk id p \<and> caller_is (public p) \<noteq> FROM_MODULE"
  using desk_start by (blast intro: transaction.started)

definition fresh_handle :: "(nat, (nat \<times> nat) list, nat) pam_handle" where
  "fresh_handle = zero_handle ((zero_public [])\<lparr>service_name := Some (asc ''l'')\<rparr>)"

lemma desk_init: "\<exists>p. pam_init_handlers desk fresh_handle = Some (PAM_SUCCESS, p) \<and> authenticate (conf (service p)) \<noteq> []"
proof -
  have "(case pam_init_handlers desk fresh_handle of
      Some (r, p) \<Rightarrow> r = PAM_SUCCESS \<and> authenticate (conf (service p)) \<noteq> [] | None \<Rightarrow> False)" by code_simp
  then show ?thesis by (auto split: option.splits)
qed

subsection \<open>An environment\<close>

definition env_public :: "((nat \<times> nat) list, nat) pam_public" where
  "env_public = desk_public\<lparr>pam_env := Some \<lparr>env_entries = 10, env_list = replicate 10 None, env_requested = 1\<rparr>\<rparr>"

lemma env_public_ok: "has_env env_public"
  by (simp add: has_env_def env_public_def env_ok_def strings_def names_def)

end
