(* ===== verification/B64.thy ===== *)
theory B64
  imports Prelude "HOL-Library.Monad_Syntax"
begin

text \<open>
  Base64, \<^verbatim>\<open>src/libubox/base64.c\<close>. A target buffer is the list of its bytes. No result means that the code
  writes outside the buffer, reads outside the alphabet, or that the assertion on the target size fails
  (\<^verbatim>\<open>assert.h\<close> of libubox keeps assertions enabled).
\<close>

subsection \<open>Memory and alphabet\<close>

definition Base64 :: bytes where
  "Base64 = asc ''ABCDEFGHIJKLMNOPQRSTUVWXYZabcdefghijklmnopqrstuvwxyz0123456789+/''"

definition Pad64 :: byte where
  "Pad64 = 61"

definition b64_write :: "bytes \<Rightarrow> nat \<Rightarrow> byte \<Rightarrow> bytes option" where
  "b64_write buf i v = (if i < length buf then Some (buf[i := v]) else None)"

fun b64_store :: "bytes \<Rightarrow> nat \<Rightarrow> bytes \<Rightarrow> bytes option" where
  "b64_store buf i [] = Some buf"
| "b64_store buf i (x # xs) = Option.bind (b64_write buf i x) (\<lambda>b. b64_store b (i + 1) xs)"

text \<open>\<open>Base64[output]\<close>: the array has 65 elements, the last one is the terminator.\<close>

definition b64_char :: "byte \<Rightarrow> byte option" where
  "b64_char x = (if unat x < 64 then Some (Base64 ! unat x) else if unat x = 64 then Some 0 else None)"

text \<open>\<open>strchr(Base64, ch)\<close> for a byte other than the terminator, as an index.\<close>

definition b64_pos :: "byte \<Rightarrow> nat option" where
  "b64_pos ch = (if ch \<in> set Base64 then Some (length (takeWhile (\<lambda>x. x \<noteq> ch) Base64)) else None)"

definition b64_space :: "byte \<Rightarrow> bool" where
  "b64_space ch \<longleftrightarrow> ch = 32 \<or> 9 \<le> ch \<and> ch \<le> 13"

text \<open>The conversion of a \<open>size_t\<close> to the return type \<open>int\<close>.\<close>

definition to_cint :: "nat \<Rightarrow> int" where
  "to_cint n = sint (of_nat n :: 32 word)"

subsection \<open>Encoding\<close>

definition output0 :: "byte \<Rightarrow> byte" where
  "output0 a = to_byte (drop_bit 2 (uint a))"

definition output1 :: "byte \<Rightarrow> byte \<Rightarrow> byte" where
  "output1 a b = to_byte (push_bit 4 (uint a AND 0x03) + drop_bit 4 (uint b))"

definition output2 :: "byte \<Rightarrow> byte \<Rightarrow> byte" where
  "output2 b c = to_byte (push_bit 2 (uint b AND 0x0F) + drop_bit 6 (uint c))"

definition output3 :: "byte \<Rightarrow> byte" where
  "output3 c = to_byte (uint c AND 0x3F)"

definition b64_terminate :: "bytes \<Rightarrow> nat \<Rightarrow> (int \<times> bytes) option" where
  "b64_terminate buf datalength =
     (if datalength \<ge> length buf then Some (-1, buf)
      else map_option (Pair (to_cint datalength)) (b64_write buf datalength 0))"

text \<open>The one or two bytes that are left; \<open>b\<close> is zero when there is only one.\<close>

definition b64_pad :: "nat \<Rightarrow> byte \<Rightarrow> byte \<Rightarrow> bytes \<Rightarrow> nat \<Rightarrow> (int \<times> bytes) option" where
  "b64_pad srclength a b buf datalength =
     (if datalength + 4 > length buf then Some (-1, buf)
      else do {
        c0 \<leftarrow> b64_char (output0 a);
        c1 \<leftarrow> b64_char (output1 a b);
        c2 \<leftarrow> (if srclength = 1 then Some Pad64 else b64_char (output2 b 0));
        buf' \<leftarrow> b64_store buf datalength [c0, c1, c2, Pad64];
        b64_terminate buf' (datalength + 4)
      })"

fun b64_encode_loop :: "bytes \<Rightarrow> bytes \<Rightarrow> nat \<Rightarrow> (int \<times> bytes) option" where
  "b64_encode_loop [] buf datalength = b64_terminate buf datalength"
| "b64_encode_loop [a] buf datalength = b64_pad 1 a 0 buf datalength"
| "b64_encode_loop [a, b] buf datalength = b64_pad 2 a b buf datalength"
| "b64_encode_loop (a # b # c # src) buf datalength =
     (if datalength + 4 > length buf then Some (-1, buf)
      else do {
        c0 \<leftarrow> b64_char (output0 a);
        c1 \<leftarrow> b64_char (output1 a b);
        c2 \<leftarrow> b64_char (output2 b c);
        c3 \<leftarrow> b64_char (output3 c);
        buf' \<leftarrow> b64_store buf datalength [c0, c1, c2, c3];
        b64_encode_loop src buf' (datalength + 4)
      })"

definition b64_encode :: "bytes \<Rightarrow> bytes \<Rightarrow> (int \<times> bytes) option" where
  "b64_encode src dest = (if dest = [] then None else b64_encode_loop src dest 0)"

subsection \<open>Decoding\<close>

text \<open>One digit of the text, at \<open>pos\<close> in the alphabet: the state and the index after it.\<close>

datatype b64_step = Digit_fail bytes | Digit_ok nat nat bytes

text \<open>The bits that go into the next byte: stored when there is room, and otherwise required to be zero.\<close>

definition b64_next :: "nat \<Rightarrow> byte \<Rightarrow> nat \<Rightarrow> bytes \<Rightarrow> b64_step option" where
  "b64_next state nextbyte tarindex buf =
     (if tarindex + 1 < length buf then map_option (Digit_ok state (tarindex + 1)) (b64_write buf (tarindex + 1) nextbyte)
      else if nextbyte \<noteq> 0 then Some (Digit_fail buf)
      else Some (Digit_ok state (tarindex + 1) buf))"

definition b64_digit :: "nat \<Rightarrow> nat \<Rightarrow> nat \<Rightarrow> bytes \<Rightarrow> b64_step option" where
  "b64_digit state pos tarindex buf =
     (if tarindex \<ge> length buf then Some (Digit_fail buf)
      else if state = 0 then map_option (Digit_ok 1 tarindex) (b64_write buf tarindex (to_byte (push_bit 2 (int pos))))
      else if state = 1 then
        Option.bind (b64_write buf tarindex (buf ! tarindex OR to_byte (drop_bit 4 (int pos))))
          (b64_next 2 (to_byte (push_bit 4 (int pos AND 0x0F))) tarindex)
      else if state = 2 then
        Option.bind (b64_write buf tarindex (buf ! tarindex OR to_byte (drop_bit 2 (int pos))))
          (b64_next 3 (to_byte (push_bit 6 (int pos AND 0x03))) tarindex)
      else map_option (Digit_ok 0 (tarindex + 1)) (b64_write buf tarindex (buf ! tarindex OR to_byte (int pos))))"

text \<open>The loop over the text: failure, or the byte that ended it, the text after it, state, index and buffer.\<close>

datatype b64_scan = Scan_fail bytes | Scan_end byte bytes nat nat bytes

fun b64_decode_loop :: "bytes \<Rightarrow> nat \<Rightarrow> nat \<Rightarrow> bytes \<Rightarrow> b64_scan option" where
  "b64_decode_loop [] state tarindex buf = Some (Scan_end 0 [] state tarindex buf)"
| "b64_decode_loop (ch # src) state tarindex buf =
     (if b64_space ch then b64_decode_loop src state tarindex buf
      else if ch = Pad64 then Some (Scan_end ch src state tarindex buf)
      else
        (case b64_pos ch of
           None \<Rightarrow> Some (Scan_fail buf)
         | Some pos \<Rightarrow>
             (case b64_digit state pos tarindex buf of
                None \<Rightarrow> None
              | Some (Digit_fail b) \<Rightarrow> Some (Scan_fail b)
              | Some (Digit_ok state' tarindex' b) \<Rightarrow> b64_decode_loop src state' tarindex' b)))"

text \<open>What follows the first padding character, in the states 2 and 3.\<close>

definition b64_padding :: "nat \<Rightarrow> bytes \<Rightarrow> bool" where
  "b64_padding state src \<longleftrightarrow>
     (if state = 2
      then (case dropWhile b64_space src of [] \<Rightarrow> False | ch # rest \<Rightarrow> ch = Pad64 \<and> list_all b64_space rest)
      else list_all b64_space src)"

definition b64_decoded :: "nat \<Rightarrow> bytes \<Rightarrow> int \<times> bytes" where
  "b64_decoded tarindex buf = (to_cint tarindex, if tarindex < length buf then buf[tarindex := 0] else buf)"

definition b64_finish :: "byte \<Rightarrow> bytes \<Rightarrow> nat \<Rightarrow> nat \<Rightarrow> bytes \<Rightarrow> int \<times> bytes" where
  "b64_finish ch src state tarindex buf =
     (if ch = Pad64 then
        if state < 2 \<or> \<not> b64_padding state src \<or> tarindex < length buf \<and> buf ! tarindex \<noteq> 0 then (-1, buf)
        else b64_decoded tarindex buf
      else if state \<noteq> 0 then (-1, buf)
      else b64_decoded tarindex buf)"

definition b64_decode :: "bytes \<Rightarrow> bytes \<Rightarrow> (int \<times> bytes) option" where
  "b64_decode src dest =
     (if dest = [] then None
      else
        (case b64_decode_loop (cstr src) 0 0 dest of
           None \<Rightarrow> None
         | Some (Scan_fail b) \<Rightarrow> Some (-1, b)
         | Some (Scan_end ch rest state tarindex b) \<Rightarrow> Some (b64_finish ch rest state tarindex b)))"

end
