(* ===== verification/B64Thms.thy ===== *)
theory B64Thms
  imports B64
begin

text \<open>
  Base64 as the standard defines it: 24-bit groups cut into four digits, with padding. The encoder writes
  this text, and the decoder accepts exactly these texts, with white space anywhere, and gives back the
  bytes. Neither writes outside the target.
\<close>

subsection \<open>Specification\<close>

definition digit :: "nat \<Rightarrow> byte" where
  "digit v = Base64 ! v"

definition b64_group :: "byte \<Rightarrow> byte \<Rightarrow> byte \<Rightarrow> nat" where
  "b64_group a b c = unat a * 65536 + unat b * 256 + unat c"

fun b64_text :: "bytes \<Rightarrow> bytes" where
  "b64_text [] = []"
| "b64_text [a] = (let n = b64_group a 0 0 in [digit (n div 262144), digit (n div 4096 mod 64), Pad64, Pad64])"
| "b64_text [a, b] =
     (let n = b64_group a b 0 in [digit (n div 262144), digit (n div 4096 mod 64), digit (n div 64 mod 64), Pad64])"
| "b64_text (a # b # c # src) =
     (let n = b64_group a b c in
      digit (n div 262144) # digit (n div 4096 mod 64) # digit (n div 64 mod 64) # digit (n mod 64) # b64_text src)"

lemma length_b64_text: "length (b64_text src) = (length src + 2) div 3 * 4"
proof (induction src rule: b64_text.induct)
  case (4 a b c src)
  have "(5 + length src) div 3 = (length src + 2) div 3 + 1" by presburger
  with 4 show ?case by (simp add: Let_def)
qed (simp_all add: Let_def)

subsection \<open>The alphabet\<close>

lemma Base64_length [simp]: "length Base64 = 64"
  by (simp add: Base64_def del: asc_Cons)

lemma Base64_distinct: "distinct Base64"
proof -
  have "distinct ''ABCDEFGHIJKLMNOPQRSTUVWXYZabcdefghijklmnopqrstuvwxyz0123456789+/''" by code_simp
  then show ?thesis unfolding Base64_def asc_def by (rule distinct_map [THEN iffD2, OF conjI]) (simp only: inj_on_def of_char_byte simp_thms ball_simps, blast)
qed

lemma Base64_plain: "list_all (\<lambda>x. x \<noteq> Pad64 \<and> x \<noteq> 0 \<and> \<not> b64_space x) Base64"
  by code_simp

lemma length_takeWhile_nth: "distinct xs \<Longrightarrow> k < length xs \<Longrightarrow> length (takeWhile (\<lambda>x. x \<noteq> xs ! k) xs) = k"
proof (induction xs arbitrary: k)
  case (Cons x xs)
  then show ?case by (cases k) (auto simp: nth_eq_iff_index_eq)
qed simp

lemma pos_digit [simp]: "v < 64 \<Longrightarrow> b64_pos (digit v) = Some v"
  by (simp add: b64_pos_def digit_def length_takeWhile_nth [OF Base64_distinct])

lemma posD: "b64_pos c = Some v \<Longrightarrow> v < 64 \<and> c = digit v"
proof -
  assume a: "b64_pos c = Some v"
  then have "c \<in> set Base64" by (simp add: b64_pos_def split: if_splits)
  then obtain k where k: "k < 64" "c = digit k" by (auto simp: in_set_conv_nth digit_def)
  then show ?thesis using a by simp
qed

lemma digit_plain [simp]:
  assumes "v < 64"
  shows "digit v \<noteq> Pad64" "digit v \<noteq> 0" "\<not> b64_space (digit v)"
  using Base64_plain assms by (auto simp: list_all_iff digit_def)

lemma char_digit [simp]: "unat x < 64 \<Longrightarrow> b64_char x = Some (digit (unat x))"
  by (simp add: b64_char_def digit_def)

subsection \<open>Encoding\<close>

lemma low_digits: "k < d \<Longrightarrow> (k + x * d) mod (e * d) = x mod e * d + k" for x k d e :: nat
proof -
  assume k: "k < d"
  show ?thesis
  proof (cases "e = 0")
    case False
    have "x * d mod (e * d) = x mod e * d" by (rule mod_mult_mult2)
    then have m: "(k + x * d) mod (e * d) = (k + x mod e * d) mod (e * d)" by (metis mod_add_right_eq)
    have "x mod e + 1 \<le> e" using False by (simp add: Suc_leI)
    then have "(x mod e + 1) * d \<le> e * d" by (rule mult_le_mono1)
    then have "k + x mod e * d < e * d" using k by (simp add: algebra_simps)
    then show ?thesis using m by simp
  qed simp
qed

lemma shifted_digits: "(x * (d * m) + y) div d = y div d + x * m" if "0 < d" for x y d m :: nat
  using that div_mult_self1 [of d y "x * m"] by (simp add: ac_simps)

lemma b64_group_digits:
  "b64_group a b c div 262144 = unat a div 4" "b64_group a b c div 4096 mod 64 = unat a mod 4 * 16 + unat b div 16"
  "b64_group a b c div 64 mod 64 = unat b mod 16 * 4 + unat c div 64" "b64_group a b c mod 64 = unat c mod 64"
proof -
  have r: "unat x < 256" for x :: byte using unsigned_less [of x, where ?'a = nat] by simp
  have g: "b64_group a b c = (unat a * 256 + unat b) * 256 + unat c" by (simp add: b64_group_def)
  have n1: "b64_group a b c div 256 = unat a * 256 + unat b" using r [of c] by (simp add: g)
  have n2: "b64_group a b c div 65536 = unat a" using n1 r [of b] div_mult2_eq [of "b64_group a b c" 256 256] by simp
  show "b64_group a b c div 262144 = unat a div 4" using n2 div_mult2_eq [of "b64_group a b c" 65536 4] by simp
  show "b64_group a b c div 4096 mod 64 = unat a mod 4 * 16 + unat b div 16"
    using n1 div_mult2_eq [of "b64_group a b c" 256 16] shifted_digits [of 16 "unat a" 16 "unat b"] low_digits [of "unat b div 16" 16 "unat a" 4] r [of b]
    by (simp add: less_mult_imp_div_less)
  have "(unat a * 256 + unat b) mod 16 = unat b mod 16" using mod_mult_self2 [of "unat b" 16 "unat a * 16"] by (simp add: ac_simps)
  then show "b64_group a b c div 64 mod 64 = unat b mod 16 * 4 + unat c div 64" unfolding g
    using shifted_digits [of 64 "unat a * 256 + unat b" 4 "unat c"] low_digits [of "unat c div 64" 4 "unat a * 256 + unat b" 16] r [of c]
    by (simp add: less_mult_imp_div_less del: distrib_right_numeral distrib_left_numeral add_mult_distrib)
  show "b64_group a b c mod 64 = unat c mod 64"
    unfolding g using mod_mult_self2 [of "unat c" 64 "(unat a * 256 + unat b) * 4"] by (simp add: ac_simps)
qed

lemma unat_to_byte: "0 \<le> x \<Longrightarrow> x < 256 \<Longrightarrow> unat (to_byte x) = nat x"
  by (simp add: unat_eq_nat_uint uint_to_byte)

lemma and_3: "(x::int) AND 3 = x mod 4"
  using take_bit_eq_mask [of 2 x] by (simp add: take_bit_eq_mod mask_eq_exp_minus_1)

lemma unat_outputs:
  "unat (output0 a) = unat a div 4" "unat (output1 a b) = unat a mod 4 * 16 + unat b div 16"
  "unat (output2 b c) = unat b mod 16 * 4 + unat c div 64" "unat (output3 c) = unat c mod 64"
proof -
  have r: "unat x < 256" for x :: byte using unsigned_less [of x, where ?'a = nat] by simp
  have u: "uint x = int (unat x)" for x :: byte by simp
  have n: "to_byte (int k) = of_nat k" for k by (simp add: to_byte_def)
  have t: "unat (of_nat k :: byte) = k" if "k < 256" for k using that by (simp add: unat_of_nat)
  have l: "unat b div 16 < 16" "unat c div 64 < 4" using r [of b] r [of c] by (simp_all add: less_mult_imp_div_less)
  have e: "output0 a = of_nat (unat a div 4)" "output1 a b = of_nat (unat a mod 4 * 16 + unat b div 16)"
    "output2 b c = of_nat (unat b mod 16 * 4 + unat c div 64)" "output3 c = of_nat (unat c mod 64)"
    unfolding output0_def output1_def output2_def output3_def u and_3 and_mask_int drop_bit_eq_div push_bit_int n [symmetric]
    by (simp_all add: zdiv_int zmod_int)
  have f: "unat a mod 4 < 4" "unat b mod 16 < 16" "unat c mod 64 < 64" by simp_all
  show "unat (output0 a) = unat a div 4" "unat (output1 a b) = unat a mod 4 * 16 + unat b div 16"
    "unat (output2 b c) = unat b mod 16 * 4 + unat c div 64" "unat (output3 c) = unat c mod 64"
    unfolding e by (rule t, use f l r [of a] in linarith)+
qed

lemma outputs_less: "unat (output0 a) < 64" "unat (output1 a b) < 64" "unat (output2 b c) < 64" "unat (output3 c) < 64"
proof -
  have r: "unat x < 256" for x :: byte using unsigned_less [of x, where ?'a = nat] by simp
  have l: "unat a div 4 < 64" "unat b div 16 < 16" "unat c div 64 < 4"
    using r [of a] r [of b] r [of c] by (simp_all add: less_mult_imp_div_less)
  have "unat a mod 4 < 4" "unat b mod 16 < 16" by simp_all
  then show "unat (output0 a) < 64" "unat (output1 a b) < 64" "unat (output2 b c) < 64" "unat (output3 c) < 64"
    unfolding unat_outputs using l by linarith+
qed

lemma output_chars:
  "b64_char (output0 a) = Some (digit (b64_group a b c div 262144))" "b64_char (output1 a b) = Some (digit (b64_group a b c div 4096 mod 64))"
  "b64_char (output2 b c) = Some (digit (b64_group a b c div 64 mod 64))" "b64_char (output3 c) = Some (digit (b64_group a b c mod 64))"
  using outputs_less by (simp_all add: unat_outputs b64_group_digits)

lemma store_append: "length xs \<le> length rest \<Longrightarrow> b64_store (pre @ rest) (length pre) xs = Some (pre @ xs @ drop (length xs) rest)"
proof (induction xs arbitrary: pre rest)
  case (Cons x xs)
  then obtain y ys where r: "rest = y # ys" by (cases rest) auto
  have "b64_store ((pre @ [x]) @ ys) (length (pre @ [x])) xs = Some ((pre @ [x]) @ xs @ drop (length xs) ys)"
    by (rule Cons(1)) (use Cons(2) r in simp)
  then show ?case by (simp add: r b64_write_def list_update_append)
qed simp

definition refused :: "(int \<times> bytes) option \<Rightarrow> bool" where
  "refused r \<longleftrightarrow> (\<exists>out. r = Some (-1, out))"

text \<open>The encoder writes the text behind what it has written, with a terminator, or refuses.\<close>

definition encoded :: "bytes \<Rightarrow> bytes \<Rightarrow> bytes \<Rightarrow> (int \<times> bytes) option \<Rightarrow> bool" where
  "encoded pre rest text r \<longleftrightarrow>
     (if length text < length rest
      then r = Some (to_cint (length pre + length text), pre @ text @ 0 # drop (length text + 1) rest)
      else refused r)"

lemma terminate_encoded: "encoded pre rest [] (b64_terminate (pre @ rest) (length pre))"
  by (cases rest) (simp_all add: encoded_def b64_terminate_def refused_def b64_write_def list_update_append)

lemma encoded_Cons:
  assumes "encoded (pre @ xs) (drop (length xs) rest) text r" "length xs \<le> length rest"
  shows "encoded pre rest (xs @ text) r"
  using assms by (auto simp: encoded_def drop_drop add.commute add.left_commute)

lemma encoded_short: "length rest < length text \<Longrightarrow> refused r \<Longrightarrow> encoded pre rest text r"
  by (simp add: encoded_def)

lemma encoded_store:
  assumes "length t = 4" "4 \<le> length rest" "\<And>pre' rest'. length pre' = length pre + 4 \<Longrightarrow> encoded pre' rest' text (k (pre' @ rest') (length pre + 4))"
  shows "encoded pre rest (t @ text) (Option.bind (b64_store (pre @ rest) (length pre) t) (\<lambda>b. k b (length pre + 4)))"
proof -
  have "b64_store (pre @ rest) (length pre) t = Some ((pre @ t) @ drop 4 rest)"
    using store_append [of t rest pre] assms(1,2) by simp
  moreover have "encoded pre rest (t @ text) (k ((pre @ t) @ drop 4 rest) (length pre + 4))"
    by (rule encoded_Cons) (use assms(1,2) assms(3) [of "pre @ t" "drop 4 rest"] in simp_all)
  ultimately show ?thesis by simp
qed

lemma pad_text:
  assumes "4 \<le> length rest"
  shows "encoded pre rest (b64_text [a]) (b64_pad 1 a 0 (pre @ rest) (length pre))"
    "encoded pre rest (b64_text [a, b]) (b64_pad 2 a b (pre @ rest) (length pre))"
proof -
  have t: "length pre' = length pre + 4 \<Longrightarrow> encoded pre' rest' [] (b64_terminate (pre' @ rest') (length pre + 4))" for pre' rest' :: bytes
    using terminate_encoded [of pre' rest'] by simp
  note s = encoded_store [where k = b64_terminate, OF _ assms t]
  show "encoded pre rest (b64_text [a]) (b64_pad 1 a 0 (pre @ rest) (length pre))"
    using s [of "b64_text [a]"] assms
    by (simp add: b64_pad_def Let_def output_chars(1) [where b = 0 and c = 0] output_chars(2) [where c = 0] del: b64_store.simps)
  show "encoded pre rest (b64_text [a, b]) (b64_pad 2 a b (pre @ rest) (length pre))"
    using s [of "b64_text [a, b]"] assms
    by (simp add: b64_pad_def Let_def output_chars(1) [where b = b and c = 0] output_chars(2) [where c = 0] output_chars(3) [where a = a]
        del: b64_store.simps)
qed

lemma encode_loop_text: "encoded pre rest (b64_text src) (b64_encode_loop src (pre @ rest) (length pre))"
proof (induction src arbitrary: pre rest rule: b64_text.induct)
  case 1
  show ?case using terminate_encoded by simp
next
  case (2 a)
  show ?case
    using pad_text(1) [of rest pre a] by (cases "4 \<le> length rest") (simp_all add: encoded_short refused_def b64_pad_def Let_def)
next
  case (3 a b)
  show ?case
    using pad_text(2) [of rest pre a b] by (cases "4 \<le> length rest") (simp_all add: encoded_short refused_def b64_pad_def Let_def)
next
  case (4 a b c src)
  let ?n = "b64_group a b c"
  let ?t = "[digit (?n div 262144), digit (?n div 4096 mod 64), digit (?n div 64 mod 64), digit (?n mod 64)]"
  have ih: "length pre' = length pre + 4 \<Longrightarrow> encoded pre' rest' (b64_text src) (b64_encode_loop src (pre' @ rest') (length pre + 4))"
    for pre' rest' :: bytes using 4 [OF refl, of pre' rest'] by simp
  show ?case
  proof (cases "4 \<le> length rest")
    case True
    from encoded_store [where k = "b64_encode_loop src", OF _ True ih, of ?t] show ?thesis
      using True by (simp add: Let_def output_chars(1) [where a = a and b = b and c = c] output_chars(2) [where c = c] output_chars(3) [where a = a]
          output_chars(4) [where a = a and b = b] del: b64_store.simps)
  qed (simp add: encoded_short refused_def Let_def)
qed

theorem encode_text: "dest \<noteq> [] \<Longrightarrow> encoded [] dest (b64_text src) (b64_encode src dest)"
  using encode_loop_text [of "[]" dest src] by (simp add: b64_encode_def)

subsection \<open>Reading a text\<close>

definition byte1 :: "nat \<Rightarrow> nat \<Rightarrow> byte" where "byte1 v0 v1 = of_nat (v0 * 4 + v1 div 16)"
definition byte2 :: "nat \<Rightarrow> nat \<Rightarrow> byte" where "byte2 v1 v2 = of_nat (v1 mod 16 * 16 + v2 div 4)"
definition byte3 :: "nat \<Rightarrow> nat \<Rightarrow> byte" where "byte3 v2 v3 = of_nat (v2 mod 4 * 64 + v3)"

fun b64_read :: "bytes \<Rightarrow> bytes option" where
  "b64_read (c0 # c1 # c2 # c3 # cs) = do {
     v0 \<leftarrow> b64_pos c0;
     v1 \<leftarrow> b64_pos c1;
     if c2 = Pad64 then if c3 = Pad64 \<and> cs = [] \<and> v1 mod 16 = 0 then Some [byte1 v0 v1] else None
     else do {
       v2 \<leftarrow> b64_pos c2;
       if c3 = Pad64 then if cs = [] \<and> v2 mod 4 = 0 then Some [byte1 v0 v1, byte2 v1 v2] else None
       else do {
         v3 \<leftarrow> b64_pos c3;
         ys \<leftarrow> b64_read cs;
         Some (byte1 v0 v1 # byte2 v1 v2 # byte3 v2 v3 # ys)
       }
     }
   }"
| "b64_read cs = (if cs = [] then Some [] else None)"

lemma unat_bytes:
  assumes "v0 < 64" "v1 < 64" "v2 < 64" "v3 < 64"
  shows "unat (byte1 v0 v1) = v0 * 4 + v1 div 16" "unat (byte2 v1 v2) = v1 mod 16 * 16 + v2 div 4" "unat (byte3 v2 v3) = v2 mod 4 * 64 + v3"
proof -
  have t: "unat (of_nat k :: byte) = k" if "k < 256" for k using that by (simp add: unat_of_nat)
  have "v1 div 16 < 4" "v2 div 4 < 16" "v1 mod 16 < 16" "v2 mod 4 < 4" using assms by (simp_all add: less_mult_imp_div_less)
  note f = this assms
  show "unat (byte1 v0 v1) = v0 * 4 + v1 div 16" "unat (byte2 v1 v2) = v1 mod 16 * 16 + v2 div 4" "unat (byte3 v2 v3) = v2 mod 4 * 64 + v3"
    unfolding byte1_def byte2_def byte3_def by (rule t, use f in linarith)+
qed

text \<open>The digits of the bytes, and the bytes of the digits.\<close>

lemma divmod_join: "k < d \<Longrightarrow> (x * d + k) div d = x" "k < d \<Longrightarrow> (x * d + k) mod d = k" for x k d :: nat
  by simp_all

lemma digits_bytes:
  assumes "v0 < 64" "v1 < 64" "v2 < 64" "v3 < 64"
  shows "unat (byte1 v0 v1) div 4 = v0" "unat (byte1 v0 v1) mod 4 * 16 + unat (byte2 v1 v2) div 16 = v1"
    "unat (byte2 v1 v2) mod 16 * 4 + unat (byte3 v2 v3) div 64 = v2" "unat (byte3 v2 v3) mod 64 = v3"
    "v1 mod 16 = 0 \<Longrightarrow> unat (byte1 v0 v1) mod 4 * 16 = v1" "v2 mod 4 = 0 \<Longrightarrow> unat (byte2 v1 v2) mod 16 * 4 = v2"
proof -
  have l: "v1 div 16 < 4" "v2 div 4 < 16" "v1 mod 16 < 16" "v2 mod 4 < 4" using assms by (simp_all add: less_mult_imp_div_less)
  note u = unat_bytes [OF assms]
  have m: "v1 div 16 * 16 + v1 mod 16 = v1" "v2 div 4 * 4 + v2 mod 4 = v2" by simp_all
  show "unat (byte1 v0 v1) div 4 = v0" "unat (byte3 v2 v3) mod 64 = v3"
    "unat (byte1 v0 v1) mod 4 * 16 + unat (byte2 v1 v2) div 16 = v1"
    "unat (byte2 v1 v2) mod 16 * 4 + unat (byte3 v2 v3) div 64 = v2"
    "v1 mod 16 = 0 \<Longrightarrow> unat (byte1 v0 v1) mod 4 * 16 = v1" "v2 mod 4 = 0 \<Longrightarrow> unat (byte2 v1 v2) mod 16 * 4 = v2"
    unfolding u using l m assms by (simp_all add: divmod_join)
qed

lemma bytes_digits:
  "byte1 (unat a div 4) (unat a mod 4 * 16 + unat b div 16) = a"
  "byte2 (unat a mod 4 * 16 + unat b div 16) (unat b mod 16 * 4 + unat c div 64) = b"
  "byte3 (unat b mod 16 * 4 + unat c div 64) (unat c mod 64) = c"
proof -
  have r: "unat x < 256" for x :: byte using unsigned_less [of x, where ?'a = nat] by simp
  have l: "unat b div 16 < 16" "unat c div 64 < 4" using r [of b] r [of c] by (simp_all add: less_mult_imp_div_less)
  have w: "of_nat (unat x) = x" for x :: byte by simp
  have "unat a div 4 * 4 + (unat a mod 4 * 16 + unat b div 16) div 16 = unat a"
    "(unat a mod 4 * 16 + unat b div 16) mod 16 * 16 + (unat b mod 16 * 4 + unat c div 64) div 4 = unat b"
    "(unat b mod 16 * 4 + unat c div 64) mod 4 * 64 + unat c mod 64 = unat c"
    using l by (simp_all add: divmod_join)
  then show "byte1 (unat a div 4) (unat a mod 4 * 16 + unat b div 16) = a"
    "byte2 (unat a mod 4 * 16 + unat b div 16) (unat b mod 16 * 4 + unat c div 64) = b"
    "byte3 (unat b mod 16 * 4 + unat c div 64) (unat c mod 64) = c"
    unfolding byte1_def byte2_def byte3_def using w by simp_all
qed

lemma digit_values_less:
  "unat a div 4 < 64" "unat a mod 4 * 16 + unat b div 16 < 64" "unat b mod 16 * 4 + unat c div 64 < 64" "unat c mod 64 < 64"
  for a b c :: byte
  using outputs_less [of a] outputs_less(2) [of a b] outputs_less(3) [of b c] by (simp_all add: unat_outputs)

lemma pad_values_less: "unat a mod 4 * 16 < 64" "unat b mod 16 * 4 < 64" for a b :: byte
  using digit_values_less(2) [of a 0] digit_values_less(3) [of b 0] by simp_all

lemma read_text: "b64_read (b64_text ys) = Some ys"
proof (induction ys rule: b64_text.induct)
  case (2 a)
  show ?case using digit_values_less(1) [of a] pad_values_less(1) [of a] bytes_digits(1) [of a 0] by (simp add: b64_group_digits Let_def)
next
  case (3 a b)
  show ?case
    using digit_values_less [of a] digit_values_less(2) [of a b] pad_values_less(2) [of b] bytes_digits(1) [of a b] bytes_digits(2) [of a b 0]
    by (simp add: b64_group_digits Let_def)
next
  case (4 a b c ys)
  then have "b64_read (b64_text ys) = Some ys" by blast
  then show ?case
    using digit_values_less [of a] digit_values_less(2) [of a b] digit_values_less(3) [of b c] bytes_digits(1) [of a b] bytes_digits(2) [of a b c]
      bytes_digits(3) [of b c] by (simp add: b64_group_digits Let_def)
qed simp

lemma text_read: "b64_read cs = Some ys \<Longrightarrow> b64_text ys = cs"
proof (induction cs arbitrary: ys rule: b64_read.induct)
  case (1 c0 c1 c2 c3 cs)
  from 1(2) obtain v0 v1 where v: "b64_pos c0 = Some v0" "b64_pos c1 = Some v1" by (auto split: bind_splits)
  note d = posD [OF v(1)] posD [OF v(2)]
  note p = 1(2) [unfolded b64_read.simps v bind.bind_lunit]
  show ?case
  proof (cases "c2 = Pad64")
    case True
    with p have "c3 = Pad64" "cs = []" "v1 mod 16 = 0" "ys = [byte1 v0 v1]" by (auto split: if_splits)
    then show ?thesis using d True digits_bytes(1,5) [of v0 v1 0 0] by (simp add: b64_group_digits Let_def)
  next
    case False
    with p obtain v2 where v2: "b64_pos c2 = Some v2" by (auto split: bind_splits)
    note d2 = posD [OF v2]
    show ?thesis
    proof (cases "c3 = Pad64")
      case True
      with p False v2 have "cs = []" "v2 mod 4 = 0" "ys = [byte1 v0 v1, byte2 v1 v2]" by (auto split: if_splits)
      then show ?thesis using d d2 True digits_bytes [of v0 v1 v2 0] by (simp add: b64_group_digits Let_def)
    next
      case f3: False
      with p False v2 obtain v3 zs where v3: "b64_pos c3 = Some v3" "b64_read cs = Some zs" "ys = byte1 v0 v1 # byte2 v1 v2 # byte3 v2 v3 # zs"
        by (auto split: bind_splits)
      have "b64_text zs = cs" by (rule 1(1) [OF v False v2 f3 v3(1,2)])
      then show ?thesis using d d2 posD [OF v3(1)] v3(3) digits_bytes [of v0 v1 v2 v3] by (simp add: b64_group_digits Let_def)
    qed
  qed
qed (auto split: if_splits)

lemma read_iff: "b64_read cs = Some ys \<longleftrightarrow> cs = b64_text ys"
  using read_text text_read by auto

subsection \<open>Decoding\<close>

text \<open>The decoder from a state on.\<close>

definition b64_run :: "nat \<Rightarrow> bytes \<Rightarrow> nat \<Rightarrow> bytes \<Rightarrow> (int \<times> bytes) option" where
  "b64_run state src tarindex buf =
     (case b64_decode_loop src state tarindex buf of
        None \<Rightarrow> None
      | Some (Scan_fail b) \<Rightarrow> Some (-1, b)
      | Some (Scan_end ch rest state' tarindex' b) \<Rightarrow> Some (b64_finish ch rest state' tarindex' b))"

lemma or_low: "n < 2 ^ k \<Longrightarrow> (m * 2 ^ k) OR n = m * 2 ^ k + n" for m n :: nat
proof -
  assume "n < 2 ^ k"
  then have "take_bit k n = n" by (simp add: take_bit_nat_eq_self)
  moreover have "push_bit k m AND take_bit k n = 0" by (rule bit_eqI) (auto simp: bit_simps)
  ultimately show ?thesis using disjunctive_add_eq_or [of "push_bit k m" n] by (simp add: push_bit_eq_mult)
qed

lemma or_byte: "n < 2 ^ k \<Longrightarrow> (of_nat (m * 2 ^ k) :: byte) OR of_nat n = of_nat (m * 2 ^ k + n)"
  using or_low [of n k m] by (simp only: of_nat_or_eq [symmetric])

lemma digit_bits:
  "to_byte (push_bit 2 (int v)) = of_nat (v * 4)" "to_byte (drop_bit 4 (int v)) = of_nat (v div 16)"
  "to_byte (push_bit 4 (int v AND 0x0F)) = of_nat (v mod 16 * 16)" "to_byte (drop_bit 2 (int v)) = of_nat (v div 4)"
  "to_byte (push_bit 6 (int v AND 0x03)) = of_nat (v mod 4 * 64)" "to_byte (int v) = of_nat v"
proof -
  have n: "to_byte (int k) = of_nat k" for k by (simp add: to_byte_def)
  show "to_byte (push_bit 2 (int v)) = of_nat (v * 4)" "to_byte (drop_bit 4 (int v)) = of_nat (v div 16)"
    "to_byte (push_bit 4 (int v AND 0x0F)) = of_nat (v mod 16 * 16)" "to_byte (drop_bit 2 (int v)) = of_nat (v div 4)"
    "to_byte (push_bit 6 (int v AND 0x03)) = of_nat (v mod 4 * 64)" "to_byte (int v) = of_nat v"
    unfolding and_3 and_mask_int drop_bit_eq_div push_bit_int n [symmetric] by (simp_all add: zdiv_int zmod_int)
qed

lemma next_bits: "(of_nat (v mod 16 * 16) :: byte) = 0 \<longleftrightarrow> v mod 16 = 0" "(of_nat (v mod 4 * 64) :: byte) = 0 \<longleftrightarrow> v mod 4 = 0"
proof -
  have t: "(of_nat k :: byte) = 0 \<longleftrightarrow> k = 0" if "k < 256" for k using that dvd_imp_le [of 256 k] by (auto simp: word_of_nat_eq_0_iff)
  have "v mod 16 < 16" "v mod 4 < 4" by simp_all
  then have l: "v mod 16 * 16 < 256" "v mod 4 * 64 < 256" by linarith+
  show "(of_nat (v mod 16 * 16) :: byte) = 0 \<longleftrightarrow> v mod 16 = 0" "(of_nat (v mod 4 * 64) :: byte) = 0 \<longleftrightarrow> v mod 4 = 0"
    using t [OF l(1)] t [OF l(2)] by simp_all
qed

lemma b64_digit_nat:
  "b64_digit state v t buf =
     (if t \<ge> length buf then Some (Digit_fail buf)
      else if state = 0 then map_option (Digit_ok 1 t) (b64_write buf t (of_nat (v * 4)))
      else if state = 1 then
        Option.bind (b64_write buf t (buf ! t OR of_nat (v div 16))) (b64_next 2 (of_nat (v mod 16 * 16)) t)
      else if state = 2 then
        Option.bind (b64_write buf t (buf ! t OR of_nat (v div 4))) (b64_next 3 (of_nat (v mod 4 * 64)) t)
      else map_option (Digit_ok 0 (t + 1)) (b64_write buf t (buf ! t OR of_nat v)))"
  by (simp only: b64_digit_def digit_bits)

lemma run_end: "b64_run state [] t buf = Some (if state \<noteq> 0 then (-1, buf) else b64_decoded t buf)"
  "b64_run state (Pad64 # cs) t buf = Some (b64_finish Pad64 cs state t buf)"
  by (simp_all add: b64_run_def b64_finish_def Pad64_def b64_space_def)

lemma run_bad:
  assumes "\<not> b64_space c" "b64_pos c = None" "state < 2 \<or> c \<noteq> Pad64"
  shows "refused (b64_run state (c # cs) t buf)"
  using assms run_end(2) [of state cs t buf]
  by (cases "c = Pad64") (auto simp: refused_def b64_finish_def b64_run_def)

lemma run_digit:
  assumes "v < 64"
  shows "b64_run state (digit v # cs) t buf =
    (case b64_digit state v t buf of
       None \<Rightarrow> None | Some (Digit_fail b) \<Rightarrow> Some (-1, b) | Some (Digit_ok state' t' b) \<Rightarrow> b64_run state' cs t' b)"
  using assms by (simp add: b64_run_def split: option.splits b64_step.splits)

lemma run_full: "v < 64 \<Longrightarrow> length buf \<le> t \<Longrightarrow> refused (b64_run state (digit v # cs) t buf)"
  by (simp add: run_digit b64_digit_nat refused_def)

lemma run_digit0: "v < 64 \<Longrightarrow> length pre = t \<Longrightarrow> b64_run 0 (digit v # cs) t (pre @ x # r) = b64_run 1 cs t (pre @ of_nat (v * 4) # r)"
  by (simp add: run_digit b64_digit_nat b64_write_def list_update_append del: of_nat_mult)

lemma run_digit3: "v < 64 \<Longrightarrow> length pre = t \<Longrightarrow> b64_run 3 (digit v # cs) t (pre @ x # r) = b64_run 0 cs (t + 1) (pre @ (x OR of_nat v) # r)"
  by (simp add: run_digit b64_digit_nat b64_write_def list_update_append nth_append)

lemma run_digit1:
  assumes "v < 64" "length pre = t"
  shows "b64_run 1 (digit v # cs) t (pre @ x # y # r) =
      b64_run 2 cs (t + 1) (pre @ (x OR of_nat (v div 16)) # of_nat (v mod 16 * 16) # r)"
    "b64_run 1 (digit v # cs) t (pre @ [x]) =
      (if v mod 16 = 0 then b64_run 2 cs (t + 1) (pre @ [x OR of_nat (v div 16)]) else Some (-1, pre @ [x OR of_nat (v div 16)]))"
  using assms
  by (simp_all add: run_digit b64_digit_nat b64_next_def b64_write_def next_bits list_update_append nth_append del: of_nat_mult)

lemma run_digit2:
  assumes "v < 64" "length pre = t"
  shows "b64_run 2 (digit v # cs) t (pre @ x # y # r) =
      b64_run 3 cs (t + 1) (pre @ (x OR of_nat (v div 4)) # of_nat (v mod 4 * 64) # r)"
    "b64_run 2 (digit v # cs) t (pre @ [x]) =
      (if v mod 4 = 0 then b64_run 3 cs (t + 1) (pre @ [x OR of_nat (v div 4)]) else Some (-1, pre @ [x OR of_nat (v div 4)]))"
  using assms
  by (simp_all add: run_digit b64_digit_nat b64_next_def b64_write_def next_bits list_update_append nth_append del: of_nat_mult)

lemma byte_ors:
  "v1 < 64 \<Longrightarrow> (of_nat (v0 * 4) :: byte) OR of_nat (v1 div 16) = byte1 v0 v1"
  "v2 < 64 \<Longrightarrow> (of_nat (v1 mod 16 * 16) :: byte) OR of_nat (v2 div 4) = byte2 v1 v2"
  "v3 < 64 \<Longrightarrow> (of_nat (v2 mod 4 * 64) :: byte) OR of_nat v3 = byte3 v2 v3"
  using or_byte [of "v1 div 16" 2 v0] or_byte [of "v2 div 4" 4 "v1 mod 16"] or_byte [of v3 6 "v2 mod 4"]
  by (simp_all add: byte1_def byte2_def byte3_def less_mult_imp_div_less)

text \<open>The first two digits of a group.\<close>

lemma run_two:
  assumes "v0 < 64" "v1 < 64" "length pre = t"
  shows "b64_run 0 (digit v0 # digit v1 # cs) t (pre @ x # y # r) = b64_run 2 cs (t + 1) (pre @ byte1 v0 v1 # of_nat (v1 mod 16 * 16) # r)"
    "v1 mod 16 = 0 \<Longrightarrow> b64_run 0 (digit v0 # digit v1 # cs) t (pre @ [x]) = b64_run 2 cs (t + 1) (pre @ [byte1 v0 v1])"
    "v1 mod 16 \<noteq> 0 \<Longrightarrow> refused (b64_run 0 (digit v0 # digit v1 # cs) t (pre @ [x]))"
    "refused (b64_run 0 (digit v0 # cs) t pre)"
  using assms run_full [of v0 pre t 0 cs]
  by (simp_all add: run_digit0 run_digit1 byte_ors refused_def del: of_nat_mult One_nat_def)

text \<open>The result of decoding into the rest of the buffer: the bytes and a terminator if there is room, or a
  refusal when the text is wrong or too long.\<close>

fun zero_first :: "bytes \<Rightarrow> bytes" where
  "zero_first [] = []"
| "zero_first (x # xs) = 0 # xs"

definition outcome :: "bytes \<Rightarrow> bytes \<Rightarrow> bytes option \<Rightarrow> (int \<times> bytes) option \<Rightarrow> bool" where
  "outcome pre rest read r \<longleftrightarrow>
     (case read of
        Some ys \<Rightarrow>
          if length ys \<le> length rest
          then r = Some (to_cint (length pre + length ys), pre @ ys @ zero_first (drop (length ys) rest))
          else refused r
      | None \<Rightarrow> refused r)"

lemma outcome_Cons: "outcome (pre @ [b]) rest read r \<Longrightarrow> outcome pre (x # rest) (map_option (Cons b) read) r"
  by (cases read) (auto simp: outcome_def)

lemma outcome_refused: "refused r \<Longrightarrow> (\<And>ys. read = Some ys \<Longrightarrow> length rest < length ys) \<Longrightarrow> outcome pre rest read r"
  by (cases read) (auto simp: outcome_def)

lemma outcome_None [simp]: "outcome pre rest None r \<longleftrightarrow> refused r"
  by (simp add: outcome_def)

lemma outcome_Nil: "outcome pre (x # rest) (Some []) (Some (b64_decoded (length pre) (pre @ y # rest)))"
  "outcome pre [] (Some []) (Some (b64_decoded (length pre) pre))"
  by (simp_all add: outcome_def b64_decoded_def list_update_append)

definition no_spaces :: "bytes \<Rightarrow> bool" where
  "no_spaces cs \<longleftrightarrow> list_all (\<lambda>c. \<not> b64_space c) cs"

lemma no_spaces_simps [simp]: "no_spaces []" "no_spaces (c # cs) \<longleftrightarrow> \<not> b64_space c \<and> no_spaces cs"
  by (simp_all add: no_spaces_def)

lemma no_spaces_blank: "no_spaces cs \<Longrightarrow> list_all b64_space cs \<longleftrightarrow> cs = []"
  by (cases cs) (auto simp: no_spaces_def)

lemma run_pads:
  assumes "no_spaces cs"
  shows "b64_run 2 (Pad64 # cs) t buf =
      Some (if cs = [Pad64] \<and> (t < length buf \<longrightarrow> buf ! t = 0) then b64_decoded t buf else (-1, buf))"
    "b64_run 3 (Pad64 # cs) t buf =
      Some (if cs = [] \<and> (t < length buf \<longrightarrow> buf ! t = 0) then b64_decoded t buf else (-1, buf))"
proof -
  have "b64_padding 2 cs \<longleftrightarrow> cs = [Pad64]" "b64_padding 3 cs \<longleftrightarrow> cs = []"
    using assms by (cases cs; auto simp: b64_padding_def no_spaces_blank)+
  then show "b64_run 2 (Pad64 # cs) t buf =
      Some (if cs = [Pad64] \<and> (t < length buf \<longrightarrow> buf ! t = 0) then b64_decoded t buf else (-1, buf))"
    "b64_run 3 (Pad64 # cs) t buf =
      Some (if cs = [] \<and> (t < length buf \<longrightarrow> buf ! t = 0) then b64_decoded t buf else (-1, buf))"
    unfolding run_end(2) by (auto simp: b64_finish_def)
qed

text \<open>Reading from the third and from the fourth digit of a group on.\<close>

definition read3 :: "nat \<Rightarrow> byte \<Rightarrow> bytes \<Rightarrow> bytes option" where
  "read3 v2 c3 cs =
     (if c3 = Pad64 then if cs = [] \<and> v2 mod 4 = 0 then Some [] else None
      else Option.bind (b64_pos c3) (\<lambda>v3. map_option (Cons (byte3 v2 v3)) (b64_read cs)))"

definition read2 :: "nat \<Rightarrow> byte \<Rightarrow> byte \<Rightarrow> bytes \<Rightarrow> bytes option" where
  "read2 v1 c2 c3 cs =
     (if c2 = Pad64 then if c3 = Pad64 \<and> cs = [] \<and> v1 mod 16 = 0 then Some [] else None
      else Option.bind (b64_pos c2) (\<lambda>v2. map_option (Cons (byte2 v1 v2)) (read3 v2 c3 cs)))"

lemma read_group: "b64_read (c0 # c1 # c2 # c3 # cs) =
    Option.bind (b64_pos c0) (\<lambda>v0. Option.bind (b64_pos c1) (\<lambda>v1. map_option (Cons (byte1 v0 v1)) (read2 v1 c2 c3 cs)))"
  by (auto simp: read2_def read3_def split: bind_splits)

lemma run_state3:
  assumes "no_spaces (c3 # cs)" "v2 < 64"
    and ih: "\<And>pre rest. outcome pre rest (b64_read cs) (b64_run 0 cs (length pre) (pre @ rest))"
  shows "outcome pre (w # r) (read3 v2 c3 cs) (b64_run 3 (c3 # cs) (length pre) (pre @ of_nat (v2 mod 4 * 64) # r))"
    "v2 mod 4 = 0 \<Longrightarrow> outcome pre [] (read3 v2 c3 cs) (b64_run 3 (c3 # cs) (length pre) pre)"
proof -
  show "outcome pre (w # r) (read3 v2 c3 cs) (b64_run 3 (c3 # cs) (length pre) (pre @ of_nat (v2 mod 4 * 64) # r))"
  proof (cases "c3 = Pad64")
    case True
    then show ?thesis
      using assms(1) outcome_Nil(1) [of pre w r]
      by (auto simp: read3_def run_pads next_bits nth_append refused_def simp del: of_nat_mult)
  next
    case False
    show ?thesis
    proof (cases "b64_pos c3")
      case None
      then show ?thesis using False assms(1) run_bad [of c3 3] by (simp add: read3_def)
    next
      case (Some v3)
      note d = posD [OF Some]
      have "outcome (pre @ [byte3 v2 v3]) r (b64_read cs) (b64_run 0 cs (length pre + 1) (pre @ byte3 v2 v3 # r))"
        using ih [of "pre @ [byte3 v2 v3]" r] by simp
      from outcome_Cons [OF this] show ?thesis
        using d Some False run_digit3 [of v3 pre "length pre" cs "of_nat (v2 mod 4 * 64)" r] byte_ors(3) [of v3 v2]
        by (simp add: read3_def del: of_nat_mult)
    qed
  qed
  show "outcome pre [] (read3 v2 c3 cs) (b64_run 3 (c3 # cs) (length pre) pre)" if "v2 mod 4 = 0"
  proof (cases "c3 = Pad64")
    case True
    then show ?thesis using assms(1) that outcome_Nil(2) [of pre] by (auto simp: read3_def run_pads refused_def)
  next
    case False
    show ?thesis
    proof (cases "b64_pos c3")
      case None
      then show ?thesis using False assms(1) run_bad [of c3 3] by (simp add: read3_def)
    next
      case (Some v3)
      then show ?thesis using False posD [OF Some] run_full [of v3 pre "length pre" 3 cs] by (auto intro!: outcome_refused simp: read3_def)
    qed
  qed
qed

lemma read3_long: "read3 v2 c3 cs = Some ys \<Longrightarrow> v2 mod 4 \<noteq> 0 \<Longrightarrow> ys \<noteq> []"
  by (auto simp: read3_def split: if_splits bind_splits)

lemma run_state2:
  assumes "no_spaces (c2 # c3 # cs)" "v1 < 64"
    and ih: "\<And>pre rest. outcome pre rest (b64_read cs) (b64_run 0 cs (length pre) (pre @ rest))"
  shows "outcome pre (w # r) (read2 v1 c2 c3 cs) (b64_run 2 (c2 # c3 # cs) (length pre) (pre @ of_nat (v1 mod 16 * 16) # r))"
    "v1 mod 16 = 0 \<Longrightarrow> outcome pre [] (read2 v1 c2 c3 cs) (b64_run 2 (c2 # c3 # cs) (length pre) pre)"
proof -
  have n: "no_spaces (c3 # cs)" using assms(1) by simp
  show "outcome pre (w # r) (read2 v1 c2 c3 cs) (b64_run 2 (c2 # c3 # cs) (length pre) (pre @ of_nat (v1 mod 16 * 16) # r))"
  proof (cases "c2 = Pad64")
    case True
    then show ?thesis
      using n outcome_Nil(1) [of pre w r]
      by (auto simp: read2_def run_pads(1) next_bits nth_append refused_def simp del: of_nat_mult)
  next
    case False
    show ?thesis
    proof (cases "b64_pos c2")
      case None
      then show ?thesis using False assms(1) run_bad [of c2 2] by (simp add: read2_def)
    next
      case (Some v2)
      note d = posD [OF Some]
      let ?b = "byte2 v1 v2"
      have p: "read2 v1 c2 c3 cs = map_option (Cons ?b) (read3 v2 c3 cs)" using False Some by (simp add: read2_def)
      show ?thesis
      proof (cases r)
        case Nil
        show ?thesis
        proof (cases "v2 mod 4 = 0")
          case True
          have "outcome (pre @ [?b]) [] (read3 v2 c3 cs) (b64_run 3 (c3 # cs) (length pre + 1) (pre @ [?b]))"
            using run_state3(2) [OF n _ ih True, of "pre @ [?b]"] d by simp
          from outcome_Cons [OF this] show ?thesis
            unfolding p using d True Nil byte_ors(2) [of v2 v1] run_digit2(2) [of v2 pre "length pre" "c3 # cs" "of_nat (v1 mod 16 * 16)"]
            by (simp del: of_nat_mult)
        next
          case nz: False
          have "refused (b64_run 2 (c2 # c3 # cs) (length pre) (pre @ of_nat (v1 mod 16 * 16) # r))"
            using d nz Nil run_digit2(2) [of v2 pre "length pre" "c3 # cs" "of_nat (v1 mod 16 * 16)"] by (simp add: refused_def del: of_nat_mult)
          then show ?thesis by (rule outcome_refused) (use Nil p read3_long [OF _ nz] in \<open>auto simp: neq_Nil_conv\<close>)
        qed
      next
        case (Cons z r')
        have "outcome (pre @ [?b]) (z # r') (read3 v2 c3 cs) (b64_run 3 (c3 # cs) (length pre + 1) (pre @ ?b # of_nat (v2 mod 4 * 64) # r'))"
          using run_state3(1) [OF n _ ih, of v2 "pre @ [?b]" z r'] d by (simp del: of_nat_mult)
        from outcome_Cons [OF this] show ?thesis
          unfolding p using d Cons byte_ors(2) [of v2 v1] run_digit2(1) [of v2 pre "length pre" "c3 # cs" "of_nat (v1 mod 16 * 16)" z r']
          by (simp del: of_nat_mult)
      qed
    qed
  qed
  show "outcome pre [] (read2 v1 c2 c3 cs) (b64_run 2 (c2 # c3 # cs) (length pre) pre)" if "v1 mod 16 = 0"
  proof (cases "c2 = Pad64")
    case True
    then show ?thesis using n that outcome_Nil(2) [of pre] by (auto simp: read2_def run_pads(1) refused_def)
  next
    case False
    show ?thesis
    proof (cases "b64_pos c2")
      case None
      then show ?thesis using False assms(1) run_bad [of c2 2] by (simp add: read2_def)
    next
      case (Some v2)
      then show ?thesis using False posD [OF Some] run_full [of v2 pre "length pre" 2] by (auto intro!: outcome_refused simp: read2_def)
    qed
  qed
qed

lemma read2_long: "read2 v1 c2 c3 cs = Some ys \<Longrightarrow> v1 mod 16 \<noteq> 0 \<Longrightarrow> ys \<noteq> []"
  by (auto simp: read2_def split: if_splits bind_splits)

lemma run_group:
  assumes "no_spaces (c0 # c1 # c2 # c3 # cs)"
    and ih: "\<And>pre rest. outcome pre rest (b64_read cs) (b64_run 0 cs (length pre) (pre @ rest))"
  shows "outcome pre rest (b64_read (c0 # c1 # c2 # c3 # cs)) (b64_run 0 (c0 # c1 # c2 # c3 # cs) (length pre) (pre @ rest))"
proof (cases "b64_pos c0")
  case None
  then show ?thesis using assms(1) run_bad [of c0 0] by (simp add: read_group del: b64_read.simps)
next
  case v0: (Some v0)
  note d0 = posD [OF v0]
  have n: "no_spaces (c2 # c3 # cs)" using assms(1) by simp
  show ?thesis
  proof (cases "b64_pos c1")
    case None
    have "refused (b64_run 0 (c0 # c1 # c2 # c3 # cs) (length pre) (pre @ rest))"
    proof (cases rest)
      case Nil
      then show ?thesis using d0 run_full [of v0 pre "length pre" 0] by simp
    next
      case (Cons x r)
      then show ?thesis using d0 run_digit0 [of v0 pre "length pre"] None assms(1) run_bad [of c1 1] by simp
    qed
    then show ?thesis using None v0 by (simp add: read_group del: b64_read.simps)
  next
    case v1: (Some v1)
    note d1 = posD [OF v1]
    let ?b = "byte1 v0 v1"
    have p: "b64_read (c0 # c1 # c2 # c3 # cs) = map_option (Cons ?b) (read2 v1 c2 c3 cs)" using v0 v1 by (simp add: read_group del: b64_read.simps)
    note two = run_two [of v0 v1 pre "length pre" "c2 # c3 # cs"]
    consider (none) "rest = []" | (full) x where "rest = [x]" "v1 mod 16 \<noteq> 0" | (one) x where "rest = [x]" "v1 mod 16 = 0"
      | (more) x y r where "rest = x # y # r" by (cases rest; cases "tl rest"; cases "v1 mod 16 = 0") auto
    then show ?thesis
    proof cases
      case none
      then show ?thesis unfolding p using d0 run_full [of v0 pre "length pre" 0] by (auto intro!: outcome_refused)
    next
      case full
      then show ?thesis unfolding p using d0 d1 two(3) [of x] read2_long [OF _ full(2), of c2 c3 cs]
        by (auto intro!: outcome_refused simp: neq_Nil_conv)
    next
      case one
      have "outcome (pre @ [?b]) [] (read2 v1 c2 c3 cs) (b64_run 2 (c2 # c3 # cs) (length pre + 1) (pre @ [?b]))"
        using run_state2(2) [OF n _ ih one(2), of "pre @ [?b]"] d1 by simp
      from outcome_Cons [OF this, of x] show ?thesis unfolding p using one d0 d1 two(2) [of x] by simp
    next
      case more
      have "outcome (pre @ [?b]) (y # r) (read2 v1 c2 c3 cs)
          (b64_run 2 (c2 # c3 # cs) (length pre + 1) (pre @ ?b # of_nat (v1 mod 16 * 16) # r))"
        using run_state2(1) [OF n _ ih, of v1 "pre @ [?b]" y r] d1 by (simp del: of_nat_mult)
      from outcome_Cons [OF this, of x] show ?thesis unfolding p using more d0 d1 two(1) [of x y r] by (simp del: of_nat_mult)
    qed
  qed
qed

text \<open>Fewer than four characters are never a text.\<close>

lemma refused_simps [simp]: "refused (Some (-1, b))" "\<not> refused None"
  by (simp_all add: refused_def)

lemma run_one_short: "no_spaces [c] \<Longrightarrow> refused (b64_run 0 [c] (length pre) (pre @ rest))"
proof (cases "b64_pos c")
  case (Some v)
  then show ?thesis
    using posD [OF Some] run_full [of v pre "length pre" 0 "[]"] run_digit0 [of v pre "length pre" "[]"]
    by (cases rest) (auto simp: run_end)
qed (simp add: run_bad)

lemma run_short:
  assumes "no_spaces (c0 # c1 # cs)" "length cs \<le> 1"
  shows "refused (b64_run 0 (c0 # c1 # cs) (length pre) (pre @ rest))"
proof (cases "b64_pos c0")
  case None
  then show ?thesis using assms by (simp add: run_bad)
next
  case v0: (Some v0)
  note d0 = posD [OF v0]
  show ?thesis
  proof (cases rest)
    case Nil
    then show ?thesis using d0 run_full [of v0 pre "length pre" 0] by simp
  next
    case (Cons x r)
    then have e: "b64_run 0 (c0 # c1 # cs) (length pre) (pre @ rest) = b64_run 1 (c1 # cs) (length pre) (pre @ of_nat (v0 * 4) # r)"
      using d0 run_digit0 [of v0 pre "length pre"] by simp
    show ?thesis
    proof (cases "b64_pos c1")
      case None
      then show ?thesis unfolding e using assms(1) by (simp add: run_bad)
    next
      case v1: (Some v1)
      have s: "refused (b64_run 2 cs t buf)" for t buf
      proof (cases cs)
        case (Cons c2 cs')
        then have c: "cs = [c2]" "\<not> b64_space c2" using assms by (cases cs'; simp)+
        show ?thesis
        proof (cases "b64_pos c2")
          case None
          then show ?thesis using c run_pads(1) [of "[]" t buf] run_bad [of c2 2] by (cases "c2 = Pad64") auto
        next
          case (Some v2)
          then show ?thesis
            using c posD [OF Some] by (auto simp: run_digit b64_digit_nat b64_next_def b64_write_def run_end simp del: of_nat_mult)
        qed
      qed (simp add: run_end)
      then show ?thesis
        unfolding e using posD [OF v1] run_digit1 [of v1 pre "length pre" cs "of_nat (v0 * 4)"] by (cases r) (auto simp del: of_nat_mult)
    qed
  qed
qed

lemma run_text: "no_spaces cs \<Longrightarrow> outcome pre rest (b64_read cs) (b64_run 0 cs (length pre) (pre @ rest))"
proof (induction "length cs" arbitrary: cs pre rest rule: less_induct)
  case less
  consider "cs = []" | c0 where "cs = [c0]" | c0 c1 ds where "cs = c0 # c1 # ds" "length ds \<le> 1"
    | c0 c1 c2 c3 ds where "cs = c0 # c1 # c2 # c3 # ds"
    by (cases cs; cases "tl cs"; cases "tl (tl cs)"; cases "tl (tl (tl cs))") auto
  then show ?case
  proof cases
    case 1
    then show ?thesis using outcome_Nil [of pre] by (cases rest) (simp_all add: run_end)
  next
    case 2
    then show ?thesis using less(2) run_one_short by simp
  next
    case 3
    then have "b64_read cs = None" by (cases ds; cases "tl ds") auto
    then show ?thesis using less(2) 3 run_short by simp
  next
    case (4 c0 c1 c2 c3 ds)
    have "outcome pre rest (b64_read ds) (b64_run 0 ds (length pre) (pre @ rest))" for pre rest
      by (rule less(1)) (use 4 less(2) in simp_all)
    then show ?thesis unfolding 4 using less(2) [unfolded 4] by (rule run_group [rotated])
  qed
qed

subsection \<open>White space\<close>

text \<open>White space is skipped everywhere: the decoder behaves as on the text without it.\<close>

definition strip :: "bytes \<Rightarrow> bytes" where
  "strip cs = filter (\<lambda>c. \<not> b64_space c) cs"

lemma strip_no_spaces [simp]: "no_spaces (strip cs)"
  by (simp add: no_spaces_def strip_def list_all_iff)

lemma strip_blank: "list_all b64_space (strip cs) \<longleftrightarrow> list_all b64_space cs"
  by (auto simp: strip_def list_all_iff)

lemma padding_strip: "b64_padding state (strip cs) \<longleftrightarrow> b64_padding state cs"
proof -
  have "(case dropWhile b64_space (strip cs) of [] \<Rightarrow> False | ch # rest \<Rightarrow> ch = Pad64 \<and> list_all b64_space rest) \<longleftrightarrow>
    (case dropWhile b64_space cs of [] \<Rightarrow> False | ch # rest \<Rightarrow> ch = Pad64 \<and> list_all b64_space rest)"
  proof (induction cs)
    case (Cons c cs)
    then show ?case using strip_blank [of cs] by (simp add: strip_def)
  qed (simp add: strip_def)
  then show ?thesis using strip_blank [of cs] by (simp add: b64_padding_def)
qed

lemma run_strip: "b64_run state (strip cs) t buf = b64_run state cs t buf"
proof (induction cs arbitrary: state t buf)
  case (Cons c cs)
  show ?case
  proof (cases "b64_space c \<or> c = Pad64 \<or> b64_pos c = None")
    case True
    then consider "b64_space c" | "\<not> b64_space c" "c = Pad64" | "\<not> b64_space c" "c \<noteq> Pad64" "b64_pos c = None"
      by (cases "b64_space c"; cases "c = Pad64") auto
    then show ?thesis
    proof cases
      case 1
      then show ?thesis using Cons by (simp add: strip_def b64_run_def)
    next
      case 2
      then have "strip (c # cs) = Pad64 # strip cs" by (simp add: strip_def)
      then show ?thesis using 2 by (simp add: run_end b64_finish_def padding_strip)
    next
      case 3
      then show ?thesis by (simp add: strip_def b64_run_def)
    qed
  next
    case False
    then obtain v where v: "b64_pos c = Some v" "\<not> b64_space c" by auto
    then have "strip (c # cs) = digit v # strip cs" using posD [OF v(1)] by (simp add: strip_def)
    then show ?thesis using Cons posD [OF v(1)] by (simp add: run_digit split: option.splits b64_step.splits)
  qed
qed (simp add: strip_def)

text \<open>The decoder accepts exactly the texts of the standard that fit, with white space anywhere.\<close>

theorem decode_outcome: "dest \<noteq> [] \<Longrightarrow> outcome [] dest (b64_read (strip (cstr src))) (b64_decode src dest)"
proof -
  assume "dest \<noteq> []"
  then have "b64_decode src dest = b64_run 0 (cstr src) 0 dest"
    by (simp add: b64_decode_def b64_run_def split: option.splits b64_scan.splits)
  then show ?thesis using run_text [of "strip (cstr src)" "[]" dest] run_strip [of 0 "cstr src" 0 dest] by simp
qed

theorem decode_exact:
  assumes "dest \<noteq> []"
  shows "strip (cstr src) = b64_text ys \<Longrightarrow> length ys \<le> length dest \<Longrightarrow>
      b64_decode src dest = Some (to_cint (length ys), ys @ zero_first (drop (length ys) dest))"
    "(\<nexists>ys. strip (cstr src) = b64_text ys \<and> length ys \<le> length dest) \<Longrightarrow> refused (b64_decode src dest)"
proof -
  note o = decode_outcome [OF assms, of src]
  show "strip (cstr src) = b64_text ys \<Longrightarrow> length ys \<le> length dest \<Longrightarrow>
      b64_decode src dest = Some (to_cint (length ys), ys @ zero_first (drop (length ys) dest))"
    using o by (simp add: read_text outcome_def)
  show "refused (b64_decode src dest)" if n: "\<nexists>ys. strip (cstr src) = b64_text ys \<and> length ys \<le> length dest"
  proof (cases "b64_read (strip (cstr src))")
    case (Some ys)
    then show ?thesis using o n text_read [OF Some] by (auto simp: outcome_def split: if_splits)
  qed (use o in simp)
qed

text \<open>Texts have neither white space nor a terminator.\<close>

lemma text_plain: "list_all (\<lambda>c. c \<noteq> 0 \<and> \<not> b64_space c) (b64_text ys)"
proof (induction ys rule: b64_text.induct)
  case (2 a)
  then show ?case using digit_values_less(1) [of a] pad_values_less(1) [of a] by (simp add: b64_group_digits Let_def Pad64_def b64_space_def [of 61])
next
  case (3 a b)
  then show ?case using digit_values_less [of a] digit_values_less(2) [of a b] pad_values_less(2) [of b]
    by (simp add: b64_group_digits Let_def Pad64_def b64_space_def [of 61])
next
  case (4 a b c ys)
  then have "list_all (\<lambda>c. c \<noteq> 0 \<and> \<not> b64_space c) (b64_text ys)" by blast
  then show ?case using digit_values_less [of a] digit_values_less(2) [of a b] digit_values_less(3) [of b c]
    by (simp add: b64_group_digits Let_def)
qed simp

lemma text_stripped: "strip (cstr (b64_text ys @ 0 # rest)) = b64_text ys"
proof -
  have "0 \<notin> set (b64_text ys)" "strip (b64_text ys) = b64_text ys"
    using text_plain [of ys] by (auto simp: list_all_iff strip_def)
  then show ?thesis using cstr_id [of "b64_text ys"] by (simp add: cstr_def takeWhile_tail)
qed

theorem decode_encode:
  assumes "length (b64_text src) < length dest" "length src \<le> length out" "out \<noteq> []" "length dest < 2 ^ 31"
  shows "\<exists>text. b64_encode src dest = Some (int (length (b64_text src)), text) \<and> text = b64_text src @ 0 # drop (length (b64_text src) + 1) dest \<and>
    b64_decode text out = Some (int (length src), src @ zero_first (drop (length src) out))"
proof -
  have c: "to_cint n = int n" if "n < 2 ^ 31" for n
    using that by (simp add: to_cint_def signed_take_bit_int_eq_self sint_uint uint_nat unat_of_nat signed_take_bit_eq_if_positive)
  have "length src \<le> length (b64_text src)" by (simp add: length_b64_text)
  then have "to_cint (length (b64_text src)) = int (length (b64_text src))" "to_cint (length src) = int (length src)"
    using assms(1,4) by (auto intro!: c)
  moreover have "dest \<noteq> []" using assms(1) by auto
  ultimately show ?thesis
    using encode_text [of dest src] assms(1) decode_exact(1) [OF assms(3) text_stripped assms(2)] by (auto simp: encoded_def)
qed

end
