(* ===== verification/Spec2Isabelle.thy ===== *)
theory Spec2Isabelle
  imports Examples PackSafe Session PamResume PamTree PamFrozen PamApi PamKeywords PamLines PamGrant PamExamples B64Thms
begin

text \<open>
  Verification of libraries of the repository: the JSON library jansson (\<open>src/jansson/src\<close>), the core of
  Linux-PAM, \<open>libpam\<close> (\<open>src/linux-pam/libpam\<close>), and the base64 codec of libubox
  (\<open>src/libubox/base64.c\<close>). The repository is a collection of C libraries for small devices that do not
  call each other; these carry parsing, memory ownership and authentication.

  \<^bold>\<open>Conventions.\<close> Bytes are \<open>8 word\<close>, C strings are byte lists without their terminator, \<open>size_t\<close> and
  \<open>unsigned int\<close> are words; an \<open>int\<close> that cannot overflow is a HOL integer. C functions keep their names
  (a leading underscore is dropped). What the C standard leaves undefined (an access outside a block, a
  null pointer that is followed, the use of freed memory, a signed overflow) is a missing result: \<open>None\<close>,
  \<open>Fault\<close> or a fault value, never an arbitrary value. The C library, the allocator, the files, the loaded
  modules and the callbacks of the application are parameters (\<open>jenv\<close> for jansson, \<open>platform\<close> for PAM);
  the allocator may refuse any single request.

  \<^bold>\<open>Jansson, data and text.\<close> \<open>Prelude\<close> has the shared vocabulary. \<open>Utf\<close> is \<open>utf.c\<close> with a specification of
  UTF-8. \<open>Strbuffer\<close> is \<open>strbuffer.c\<close> and \<open>memory.c\<close>, \<open>Strconv\<close> is \<open>strconv.c\<close>, \<open>JsonData\<close> has JSON trees,
  flags and \<open>error.c\<close>. \<open>Lexer\<close> (stream, push-back, tokens) and \<open>Loader\<close> (the parser, \<open>json_loads\<close>,
  \<open>json_loadb\<close>; the locale \<open>byte_source\<close> for the input callbacks) are \<open>load.c\<close>; \<open>LoadTermination\<close> shows
  that loading returns; \<open>ParseFuel\<close>, \<open>LexView\<close>, \<open>StringText\<close>, \<open>TokenText\<close>, \<open>ParseText\<close> read back what the
  encoder writes. \<open>Dump\<close> is \<open>dump.c\<close>; \<open>DumpSpec\<close> states the text of a tree and proves the encoder once for
  the locale \<open>dump_sink\<close>, which \<open>DumpThms\<close> interprets for the two sinks; \<open>RoundTrip\<close> joins both directions.

  \<^bold>\<open>Jansson, values.\<close> \<open>Lookup3\<close> is \<open>lookup3.h\<close> with its three alignment paths; \<open>Ring\<close>, \<open>Hashtable\<close> and
  \<open>HashtableInv\<close> are \<open>hashtable.c\<close> with the invariant of its ring and buckets; \<open>OrderedTable\<close> states its
  contract as the locale \<open>ordered_table\<close> and interprets it. \<open>JsonHeap\<close> has the heap of \<open>json_t\<close> nodes,
  \<open>Refcount\<close> the counts and \<open>json_delete\<close>, \<open>JsonArray\<close> the element tables, \<open>Value\<close> the operations of
  \<open>value.c\<close>, \<open>ValueThms\<close>, \<open>UpdateThms\<close>, \<open>EqualThms\<close>, \<open>DeepCopy\<close> what they do and that the counts stay exact.
  \<open>Pack\<close> and \<open>Unpack\<close> are \<open>pack_unpack.c\<close>, with \<open>PackThms\<close> and \<open>PackSafe\<close>. \<open>Session\<close> is the step relation
  of a program that uses the library. \<open>Examples\<close> has concrete inputs.

  \<^bold>\<open>PAM, model.\<close> \<open>PamTypes\<close> has the structures of \<open>pam_private.h\<close>: a handle is its \<open>public\<close> part (items,
  environment, module data, delay), the \<open>service\<close> with its stacks of handlers, and the state of an
  interrupted run. \<open>PamMisc\<close> is \<open>pam_misc.c\<close> and \<open>pam_tokens.h\<close>; \<open>PamConf\<close> is \<open>pam_handlers.c\<close>: lines, fields,
  modules, handlers, include and substack, \<open>_pam_init_handlers\<close>. \<open>PamWalk\<close> and \<open>PamDispatch\<close> are
  \<open>pam_dispatch.c\<close>. \<open>PamEnv\<close>, \<open>PamItem\<close>, \<open>PamData\<close>, \<open>PamDelay\<close> are the files of those names. \<open>PamApi\<close> has
  \<open>pam_start.c\<close>, \<open>pam_end.c\<close>, \<open>pam_auth.c\<close>, \<open>pam_account.c\<close>, \<open>pam_session.c\<close> and \<open>pam_password.c\<close>. An
  application calls \<open>pam_start\<close>, which reads the configuration; each request goes through \<open>_pam_dispatch\<close>,
  which walks a stack and calls the modules, which call back into items, data and environment.

  \<^bold>\<open>PAM, theorems.\<close> \<open>PamLevels\<close> and \<open>PamConfThms\<close>: whatever the files hold, the stacks are well-formed, and a
  walk over such a stack never reads an unwritten state. \<open>PamDispatchThms\<close>: every dispatch returns and keeps
  the handle well-formed. \<open>PamGrant\<close>: a success has a grantor that was called and succeeded. \<open>PamKeywords\<close>: the
  documented meaning of the keywords is what the walk computes. \<open>PamTree\<close>: the flat walk implements nested
  stacks. \<open>PamWalkThms\<close> and \<open>PamResume\<close>: interruption is transparent. \<open>PamFrozen\<close>: \<open>pam_setcred\<close> follows the
  chain of \<open>pam_authenticate\<close>. \<open>PamControl\<close>: control strings are read as written. \<open>PamLines\<close>: when a line is
  read completely, and the bounds of argument vectors. \<open>KeyedStore\<close> is the locale that environment, items
  and module data share (a change affects its key only; changes of distinct keys commute); each interprets
  it. \<open>PamApi\<close> has the step relation \<open>transaction\<close> from \<open>pam_start\<close> on, with its invariant. \<open>PamExamples\<close> has
  a platform with a configuration file and a handle.

  \<^bold>\<open>Base64.\<close> \<open>B64\<close> is \<open>base64.c\<close> on target buffers; \<open>B64Thms\<close> states the text of the standard, shows that the
  encoder writes it, that the decoder accepts exactly these texts, and that neither leaves its buffer.

  \<^bold>\<open>Fuel and bounds.\<close> Loading has fuel \<open>12 n + 20\<close> for \<open>n\<close> bytes, more than the tokens need, as
  \<open>LoadTermination\<close> proves. Packing has \<open>2 |fmt| + 5\<close>, shown enough in \<open>PackThms\<close>. Deep copies recurse at most
  once per node of the heap because of the loop check. Equality has no loop check in the code; its fuel is
  any number above the size of the trees. Reading a configuration line is a \<open>partial_function\<close>, because the
  code may loop forever; nested includes are bounded by the file descriptors \<open>nofile\<close>, as in the code, which
  keeps every file open while it reads an included one. All other loops are structural or have a measure.

  \<^bold>\<open>What the theorems assume of parameters.\<close> Modules keep the loaded service (\<open>keeps_service\<close>) and ask for
  delays below \<open>2 ^ 33 / 3\<close> microseconds (\<open>disciplined\<close>); \<open>dbl\<close> rounds monotonically and is exact on small
  half-integers (\<open>rounds\<close>), as every rounding mode of \<open>double\<close> is.

  \<^bold>\<open>Not modelled.\<close> Of jansson: file descriptors and streams as sources and sinks of text, the entropy of
  the hash seed (a parameter), \<open>json_object_update_recursive\<close>, threads. Of libpam: the build options
  (audit, prelude, static modules, locking, vendor directories, both configurations), log messages,
  message texts, \<open>pam_vprompt\<close>, \<open>pam_get_authtok\<close> and the \<open>pam_modutil\<close> helpers, which are calls to the system;
  the memory blocks behind strings are not addressed, so that leaks and the wiping of freed tokens are
  not visible. The modules of PAM and the other libraries of the repository (the rest of libubox, ubus, uci, ixml,
  xmldb, the CGI libraries, nku, traffic) are not modelled: they are chiefly sockets, files, processes and
  devices.
\<close>

section \<open>Properties\<close>

text \<open>
  C1. Nobody is let in without a module saying so. When a fresh request of an application ends in
  \<open>PAM_SUCCESS\<close>, the stack that was walked has at least one grantor, and every grantor is the
  position of a module that was called in this run and returned \<open>PAM_SUCCESS\<close>.
\<close>

theorem pam_success_granted:
  assumes "pam_dispatch e flags choice p = Some (PAM_SUCCESS, p')" "former_choice p = PAM_NOT_STACKED"
    and "handlers_loaded (public p)"
  shows "grantors choice p p' \<noteq> {} \<and> grantors choice p p' \<subseteq> {i. (i, PAM_SUCCESS) \<in> set (dispatch_calls e flags choice p)}"
  using success_granted [OF assms] by blast

theorem pam_success_granted_witness:
  "\<exists>p'. pam_dispatch desk 0 PAM_AUTHENTICATE (desk_handle Optional 7) = Some (PAM_SUCCESS, p') \<and>
     grantors PAM_AUTHENTICATE (desk_handle Optional 7) p' \<noteq> {}"
proof -
  obtain p' where p': "pam_dispatch desk 0 PAM_AUTHENTICATE (desk_handle Optional 7) = Some (PAM_SUCCESS, p')"
    using desk_dispatch by blast
  with pam_success_granted [OF p'] show ?thesis by (simp add: desk_handle_fields)
qed





text \<open>
  C4. The keywords of the administrator's guide. On a stack of modules configured with \<open>required\<close>,
  \<open>requisite\<close>, \<open>sufficient\<close> and \<open>optional\<close>, whose functions return fixed codes, the dispatcher returns
  the \<open>verdict\<close> of the list of keywords and codes: the first refusal among the modules executed, else a
  request for a new token, else success when a module granted, else a denial.
\<close>

theorem pam_dispatch_verdict:
  assumes "handlers_loaded (public p)" "former_choice p = PAM_NOT_STACKED" "caller_is (public p) \<noteq> FROM_MODULE"
    and "choice_stack choice = Some (k, PLEASE_FREEZE)" "malloc_answer e (allocs (public p))"
    and "list_all2 (called (length (cells (service p)))) kfs (service_stack (chosen_other k (service p)) k (service p))" "kfs \<noteq> []"
    and "returns (\<lambda>f. call_module e f flags) ret" "\<forall>(kw, f)\<in>set kfs. ret f \<noteq> PAM_INCOMPLETE"
  shows "\<exists>p'. pam_dispatch e flags choice p = Some (verdict (map (\<lambda>(kw, f). (kw, ret f)) kfs), p')"
  by (rule dispatch_verdict [OF assms])

theorem pam_dispatch_verdict_witness:
  "(\<exists>p'. pam_dispatch desk 0 PAM_AUTHENTICATE (desk_handle Sufficient 7) = Some (PAM_SUCCESS, p')) \<and>
   (\<exists>p'. pam_dispatch desk 0 PAM_AUTHENTICATE (desk_handle Required 7) = Some (7, p'))"
proof -
  have d: "\<exists>p'. pam_dispatch desk 0 PAM_AUTHENTICATE (desk_handle kw 7) = Some (verdict [(Required, 0), (kw, 7)], p')" for kw
    using pam_dispatch_verdict [of "desk_handle kw 7" PAM_AUTHENTICATE S_authenticate desk "[(Required, 0), (kw, 7)]" 0 int]
    by (simp add: desk_handle_fields choice_stack_def desk_chosen desk_stack called_def desk_handler_def returns_def)
  have "verdict [(Required, 0), (Sufficient, 7)] = 0" "verdict [(Required, 0), (Required, 7)] = 7" by code_simp+
  then show ?thesis using d [of Sufficient] d [of Required] by simp
qed






text \<open>
  C8. Interruption is transparent: dispatching again and again while the answer is \<open>PAM_INCOMPLETE\<close>, with
  the application acting in between, gives the same final answer, public state and service as a
  single dispatch on modules that wait for the application by themselves.
\<close>

theorem pam_resume_transparent:
  assumes "handle_ok p" "keeps_service e" "well_behaved app" "caller_is (public p) \<noteq> FROM_MODULE"
    and "converse e app n flags choice p = Some (r, p')" "r \<noteq> PAM_INCOMPLETE"
  shows "\<exists>p''. pam_dispatch (e\<lparr>call_module := answering e app n\<rparr>) flags choice p = Some (r, p'') \<and>
    public p'' = public p' \<and> service p'' = service p'"
  by (rule converse_one_dispatch [OF assms])

theorem pam_resume_transparent_witness:
  "\<exists>p' p''. converse slow_desk id 1 0 PAM_AUTHENTICATE (desk_handle Optional 7) = Some (PAM_SUCCESS, p') \<and>
     pam_dispatch (slow_desk\<lparr>call_module := answering slow_desk id 1\<rparr>) 0 PAM_AUTHENTICATE (desk_handle Optional 7) =
       Some (PAM_SUCCESS, p'') \<and> service p'' = service p'"
proof -
  obtain p' where c: "converse slow_desk id 1 0 PAM_AUTHENTICATE (desk_handle Optional 7) = Some (PAM_SUCCESS, p')"
    using slow_converse by blast
  have m: "caller_is (public (desk_handle Optional 7)) \<noteq> FROM_MODULE" by (simp add: desk_handle_fields)
  from pam_resume_transparent [OF desk_handle_ok slow_keeps id_well_behaved m c] c show ?thesis by auto
qed

text \<open>
  C9. Packing is safe on every format, right or wrong. Let the caller hold a reference to each value it passes. Unless an argument has
  the wrong type, the call returns, with no access to freed memory on any path; it may take over passed references
  (with \<open>o\<close>), never others, and the counts are exact for the result and what the caller still holds, also after errors midway.
\<close>

theorem json_pack_safe:
  assumes "sound e h (E + held ap)"
    "size (refs h) + size E + size (held ap) + length (case_option [] cstr fmt) + 4 < 2 ^ 64"
  shows "json_vpack_ex e m h error flags fmt ap = BadArg \<or>
    (\<exists>v err h' E'. json_vpack_ex e m h error flags fmt ap = Done (v, err, h') \<and>
      E \<subseteq># E' \<and> E' \<subseteq># E + held ap \<and> sound e h' (E' + opt v))"
  using json_vpack_ex_sound [OF assms, of m error flags] by (cases "json_vpack_ex e m h error flags fmt ap") auto

theorem json_pack_safe_witness:
  "json_vpack_ex ex_env ex_malloc ex_heap None 0 (Some (asc ''[oO]'')) [AJson 6, AJson 4] = BadArg \<or>
    (\<exists>v err h' E'. json_vpack_ex ex_env ex_malloc ex_heap None 0 (Some (asc ''[oO]'')) [AJson 6, AJson 4] = Done (v, err, h') \<and>
      {#5, 8#} \<subseteq># E' \<and> E' \<subseteq># {#5, 8#} + held [AJson 6, AJson 4 :: nat arg] \<and> sound ex_env h' (E' + opt v))"
proof -
  have s: "sound ex_env ex_heap ({#5, 8#} + held [AJson 6, AJson 4 :: nat arg])" using ex_sound by (simp add: add_mset_commute)
  have l: "length (cstr (asc ''[oO]'')) = 4" by code_simp
  have "size (refs ex_heap) + size {#5, 8 :: addr#} + size (held [AJson 6, AJson 4 :: nat arg]) +
      length (case_option [] cstr (Some (asc ''[oO]''))) + 4 < 2 ^ 64"
    unfolding ex_load option.case l by simp
  then show ?thesis by (rule json_pack_safe [OF s])
qed

text \<open>
  C10. The hash table refines an association list in insertion order. For every sequence of stores and
  deletions, with any hash function and any allocator: the invariant of the buckets is kept through rehashing,
  the contents are those the list operations give, and values are conserved, so none is
  released twice or lost.
\<close>

theorem hashtable_run_refines:
  assumes "ht_inv hs ht" "run_table (hashtable_set hs mem) (hashtable_del hs) ops ht = (rs, vs, ht')"
  shows "ht_inv hs ht' \<and> entries ht' = run_assoc ops rs (entries ht) \<and>
    mset vs + vals (entries ht') = mset (stored ops rs) + vals (entries ht)"
  by (rule hash.run_refines [OF assms])

theorem hashtable_run_refines_witness:
  "\<exists>rs vs ht'. run_table (hashtable_set (env_hash ex_env) (env_mem ex_env)) (hashtable_del (env_hash ex_env))
       [TDel (asc ''k''), TSet (asc ''m'') 5] ex_table1 = (rs, vs, ht') \<and> ht_inv (env_hash ex_env) ht' \<and>
     entries ht' = run_assoc [TDel (asc ''k''), TSet (asc ''m'') 5] rs [(asc ''k'', 7)]"
proof -
  let ?r = "run_table (hashtable_set (env_hash ex_env) (env_mem ex_env)) (hashtable_del (env_hash ex_env))
       [TDel (asc ''k''), TSet (asc ''m'') 5] ex_table1"
  obtain rs vs ht' where r: "?r = (rs, vs, ht')" by (metis prod_cases3)
  from hashtable_run_refines [OF ex_table1_ok(1) r] r show ?thesis by (auto simp: ex_table1_ok)
qed

text \<open>
  C11. Substacks are nested stacks. Every stack of a well-formed service is the flattening of a tree of
  modules and substacks, and the walk over the flat list, with its level counters, skips and array of
  saved states, stops where and with what the recursive walk over the tree does, in which a substack is
  run as a stack of its own.
\<close>

theorem pam_walk_tree:
  assumes "service_ok sv"
  shows "\<exists>es. service_stack b k sv = flat es \<and> nested 0 es \<and>
    (let w = initial_walk (flat es) cs s; flat_walk = walk_loop run u 0 0 0 (flat es) w in
     case tree_walk run u (IMP_UNDEF, PAM_MUST_FAIL_CODE) 0 es w of
       None \<Rightarrow> flat_walk = None
     | Some (Incomplete d v) \<Rightarrow> \<exists>sub. flat_walk = Some (Incomplete d (v\<lparr>substates := sub\<rparr>))
     | Some (Finished v) \<Rightarrow> \<exists>sub. flat_walk = Some (Finished (v\<lparr>substates := sub\<rparr>)))"
  by (rule stack_tree [OF assms])

theorem pam_walk_tree_witness:
  "\<exists>es. service_stack False S_authenticate (service (desk_handle Sufficient 7)) = flat es \<and> nested 0 es \<and> flat es \<noteq> []"
  using pam_walk_tree [OF desk_service_ok, of False S_authenticate Sufficient 7 "[]" "()" "\<lambda>_ _ _ _ s. (0, s)" PLEASE_FREEZE]
  by (auto simp: desk_stack)







text \<open>
  C15. The parser builds well-formed stacks from any text. When \<open>_pam_init_handlers\<close> succeeds, every handler
  has an action for every return value and cells that exist, levels stay below
  \<open>PAM_SUBSTACK_MAX_LEVEL\<close> and rise only into a substack; the rest of the handle is as before.
\<close>

theorem pam_init_handlers_type:
  assumes "pam_init_handlers e p = Some (PAM_SUCCESS, p')" "\<not> handlers_loaded (public p)"
  shows "service_ok (service p') \<and> handlers_loaded (public p') \<and> former_choice p' = former_choice p \<and>
    (public p')\<lparr>allocs := 0, handlers_loaded := False\<rparr> = (public p)\<lparr>allocs := 0\<rparr>"
  using pam_init_handlers_ok [OF assms] by blast

theorem pam_init_handlers_type_witness:
  "\<exists>p. pam_init_handlers desk fresh_handle = Some (PAM_SUCCESS, p) \<and> authenticate (conf (service p)) \<noteq> [] \<and> service_ok (service p)"
proof -
  obtain p where p: "pam_init_handlers desk fresh_handle = Some (PAM_SUCCESS, p)" "authenticate (conf (service p)) \<noteq> []"
    using desk_init by blast
  have "\<not> handlers_loaded (public fresh_handle)" by (simp add: fresh_handle_def zero_handle_def zero_public_def)
  from pam_init_handlers_type [OF p(1) this] p show ?thesis by blast
qed

text \<open>
  C16. The environment implements a map from names to values. \<open>pam_putenv\<close> meets its contract \<open>put_spec\<close> on
  every argument and whatever the allocator answers, leaves the rest of the handle alone and keeps the
  list well-formed; \<open>pam_getenv\<close> of a name then reads the new map.
\<close>

theorem pam_putenv_contract:
  assumes "has_env s" "EQUALS \<notin> set name"
  shows "\<exists>r s'. pam_putenv e name_value s = Some (r, s') \<and> has_env s' \<and>
    put_spec name_value r (env_view s) (env_view s') \<and> s'\<lparr>pam_env := pam_env s, allocs := allocs s\<rparr> = s \<and>
    pam_getenv (Some name) s' = Some (env_view s' name)"
proof -
  obtain r s' where p: "pam_putenv e name_value s = Some (r, s')" "has_env s'"
      "put_spec name_value r (env_view s) (env_view s')" "s'\<lparr>pam_env := pam_env s, allocs := allocs s\<rparr> = s"
    using putenv_spec [OF assms(1), of name_value e] by (auto simp: put_result_def split: option.splits)
  then show ?thesis using getenv_spec [OF p(2) assms(2)] by blast
qed

theorem pam_putenv_contract_witness:
  "\<exists>r s'. pam_putenv desk (Some (asc ''A=1'')) env_public = Some (r, s') \<and>
     put_spec (Some (asc ''A=1'')) r (env_view env_public) (env_view s') \<and> pam_getenv (Some [65]) s' = Some (env_view s' [65])"
  using pam_putenv_contract [OF env_public_ok, of "[65]" desk "Some (asc ''A=1'')"] by auto

text \<open>
  C17. Applications cannot observe the tokens: what \<open>pam_get_item\<close> returns does not depend on them, and
  \<open>pam_set_item\<close> neither changes them nor behaves differently because of them.
\<close>

theorem pam_tokens_hidden:
  assumes "caller_is s \<noteq> FROM_MODULE"
  shows "pam_get_item item_type dest (with_tokens a b s) = pam_get_item item_type dest s \<and>
    pam_set_item e item_type item (with_tokens a b s) = map_option (map_prod id (with_tokens a b)) (pam_set_item e item_type item s)"
  using tokens_hidden [OF assms] by blast

theorem pam_tokens_hidden_witness:
  "pam_get_item PAM_AUTHTOK True (with_tokens (Some [1]) (Some [2]) desk_public) = pam_get_item PAM_AUTHTOK True desk_public"
  using pam_tokens_hidden [where s = desk_public and e = desk and item = Null] by (rule conjunct1) simp

text \<open>
  C18. Module data are cleaned up exactly once: after any sequence of \<open>pam_set_data\<close> calls of modules and the
  final \<open>_pam_free_data\<close>, the log of cleanup calls has grown by exactly the accepted registrations.
\<close>

theorem pam_data_cleaned_once:
  assumes "logs_cleanups e cleanup_log" "caller_is s \<noteq> FROM_APP" "module_data s = []"
  shows "\<exists>acc s'. set_all e rs s = Some (acc, s') \<and>
    mset (cleanup_log (world (pam_free_data e pam_status s'))) = mset (cleanup_log (world s)) + acc"
  by (rule data_cleaned_once [OF assms])

theorem pam_data_cleaned_once_witness:
  "\<exists>acc s'. set_all desk [([120], 5, Some 1), ([120], 6, Some 2)] (desk_public\<lparr>caller_is := FROM_MODULE\<rparr>) = Some (acc, s') \<and>
     mset (world (pam_free_data desk 0 s')) = mset (world desk_public) + acc"
  using pam_data_cleaned_once [OF desk_logs, of "desk_public\<lparr>caller_is := FROM_MODULE\<rparr>" "[([120], 5, Some 1), ([120], 6, Some 2)]" 0]
  by (simp del: set_all.simps)

text \<open>
  C19. Base64 in both directions: into a target with room for text and terminator, \<open>b64_encode\<close> writes the
  text of the standard and returns its length, and \<open>b64_decode\<close> of the result returns the bytes and
  their number, already when the target holds just the bytes.
\<close>

theorem b64_roundtrip:
  assumes "length (b64_text src) < length dest" "length src \<le> length target" "target \<noteq> []" "length dest < 2 ^ 31"
  shows "\<exists>text. b64_encode src dest = Some (int (length (b64_text src)), text) \<and> text = b64_text src @ 0 # drop (length (b64_text src) + 1) dest \<and>
    b64_decode text target = Some (int (length src), src @ zero_first (drop (length src) target))"
  by (rule decode_encode [OF assms])

theorem b64_roundtrip_witness:
  "\<exists>text. b64_encode [1, 2, 3, 4] (replicate 9 0) = Some (8, text) \<and> b64_decode text (replicate 4 9) = Some (4, [1, 2, 3, 4])"
proof -
  have l: "length (b64_text [1, 2, 3, 4]) = 8" by (simp add: length_b64_text del: b64_text.simps)
  show ?thesis
    using b64_roundtrip [of "[1, 2, 3, 4]" "replicate 9 0" "replicate 4 9", unfolded l] by (auto simp del: b64_text.simps)
qed

text \<open>
  C20. The decoder decides: on every C string and every nonempty target, either the text without its white
  space is the base64 text of some bytes that fit, and exactly these are stored, with a terminator
  where there is room; or there are no such bytes, and -1 is returned. There is no third case, so
  nothing is ever written outside the target.
\<close>

theorem b64_decode_exact:
  assumes "dest \<noteq> []"
  shows "(\<exists>ys. strip (cstr src) = b64_text ys \<and> length ys \<le> length dest \<and>
      b64_decode src dest = Some (to_cint (length ys), ys @ zero_first (drop (length ys) dest))) \<or>
    (\<nexists>ys. strip (cstr src) = b64_text ys \<and> length ys \<le> length dest) \<and> (\<exists>buf. b64_decode src dest = Some (-1, buf))"
  using decode_exact [OF assms, of src] unfolding refused_def by blast

theorem b64_decode_exact_witness: "b64_decode (asc ''QU I='') [9, 9, 9] = Some (2, [65, 66, 0])"
proof -
  have t: "strip (cstr (asc ''QU I='')) = b64_text [65, 66]"
    by (simp add: strip_def cstr_def b64_space_def Let_def b64_group_digits digit_def Base64_def Pad64_def)
  have l: "length [65, 66 :: byte] \<le> length [9, 9, 9 :: byte]" by simp
  from b64_decode_exact [of "[9, 9, 9]" "asc ''QU I=''", unfolded t] l obtain ys where
    ys: "b64_text [65, 66] = b64_text ys" "b64_decode (asc ''QU I='') [9, 9, 9] = Some (to_cint (length ys), ys @ zero_first (drop (length ys) [9, 9, 9]))"
    by blast
  have "ys = [65, 66]" using read_text [of ys] read_text [of "[65, 66]"] unfolding ys(1) by (simp only: option.inject)
  moreover have "to_cint (length [65, 66 :: byte]) = 2" by code_simp
  ultimately show ?thesis using ys(2) by (simp del: asc_Cons)
qed

text \<open>
  C21. Control strings can say everything and are read as written: for every table of actions and jumps,
  \<open>_pam_parse_control\<close> makes the same table of its text.
\<close>

theorem pam_control_roundtrip:
  assumes "length acts = PAM_RETURN_VALUES" "\<forall>a\<in>set acts. ACTION_RESET \<le> a \<and> a \<le> 0x7FFFFFFF" "length old = PAM_RETURN_VALUES"
  shows "pam_parse_control old (table_text acts) = Some acts"
  by (rule parse_table_text [OF assms])

theorem pam_control_roundtrip_witness:
  "pam_parse_control (replicate 32 ACTION_UNDEF) (table_text (replicate 31 ACTION_OK @ [12])) = Some (replicate 31 ACTION_OK @ [12])"
  by (rule pam_control_roundtrip) simp_all

text \<open>
  C22. The keywords are abbreviations: the parser makes of each keyword the table it makes of the control
  string that the manual page gives for it, e.g. \<open>success=ok new_authtok_reqd=ok ignore=ignore default=bad\<close>
  for \<open>required\<close>.
\<close>

theorem pam_keyword_strings:
  "parse_control_field (Some (control_text (keyword_items kw))) = parse_control_field (Some (keyword_name kw))"
  by (rule keyword_strings)

text \<open>
  C23. Storing in an object. The call takes over the caller's reference to the value on every path, reports 0
  or -1, refuses a key that is not UTF-8, and afterwards a lookup finds the new value under the key
  (when the call reported 0) and what was there before under every other key.
\<close>

theorem json_object_set_get:
  assumes "sound e h (add_mset v E)" "a \<in># E" "node_at h a = Some (NObject ht)"
  shows "\<exists>r h'. json_object_setn_new e h (Some a) (Some k) (Some v) = Some (r, h') \<and> sound e h' E \<and> edits h h' a \<and>
    (r = 0 \<or> r = -1) \<and> (\<not> valid_utf8 k \<longrightarrow> r = -1) \<and>
    (\<forall>k'. json_object_getn e h' (Some a) (Some k') =
       (if r = 0 \<and> k' = k then Some (Some v) else json_object_getn e h (Some a) (Some k')))"
proof (cases "utf8_check_string k (length k)")
  case True
  obtain r h' ht' where s: "json_object_setn_new_nocheck e h (Some a) (Some k) (Some v) = Some (r, h')" "sound e h' E" "edits h h' a"
      "r = 0 \<or> r = -1" "node_at h' a = Some (NObject ht')" "entries ht' = (if r = 0 then obj_set k v (entries ht) else entries ht)"
    using json_object_setn_new_nocheck_sound [OF assms(1,2), of k] assms(3) by auto
  have "json_object_getn e h' (Some a) (Some k') =
      (if r = 0 \<and> k' = k then Some (Some v) else json_object_getn e h (Some a) (Some k'))" for k'
    using json_object_getn_entries [OF s(2,5)] json_object_getn_entries [OF assms(1,3)] s(6) by (simp add: obj_set_map_of)
  then show ?thesis using True s(1-4) by (simp add: utf8_checked_set utf8_check_string_valid)
next
  case False
  obtain h' where r: "refuse h (Some v) = Some (-1, h')" "sound e h' E" "shrinks h h'" using refuse_sound [OF assms(1)] by blast
  have n: "node_at h' a = Some (NObject ht)" by (rule sound_kept [OF r(3,2) assms(2,3)])
  show ?thesis
    using False r shrinks_edits [OF r(3)] json_object_getn_entries [OF r(2) n] json_object_getn_entries [OF assms(1,3)]
    by (simp add: utf8_checked_set)
qed

theorem json_object_set_get_witness:
  "\<exists>r h'. json_object_setn_new ex_env ex_heap (Some 8) (Some (asc ''z'')) (Some 6) = Some (r, h') \<and>
     sound ex_env h' {#4, 5, 8#} \<and> json_object_getn ex_env h' (Some 8) (Some (asc ''k'')) = Some (Some 7)"
proof -
  obtain r h' where h': "json_object_setn_new ex_env ex_heap (Some 8) (Some (asc ''z'')) (Some 6) = Some (r, h')"
      "sound ex_env h' {#4, 5, 8#}"
      "json_object_getn ex_env h' (Some 8) (Some (asc ''k'')) = json_object_getn ex_env ex_heap (Some 8) (Some (asc ''k''))"
    using json_object_set_get [OF ex_sound6 _ ex_nodes(6), of "asc ''z''"] by auto
  then show ?thesis using json_object_getn_entries [OF ex_sound ex_nodes(6)] by (simp add: ex_table1_ok)
qed

text \<open>
  C24. Updating an object from another one: on success the target maps every key of the source as the source
  does and every other key as before; existing keys keep their place, new ones follow in the
  source's order. When memory runs out midway the counts are still exact.
\<close>

theorem json_object_update_entries:
  assumes "sound e h E" "a \<in># E" "b \<in># E" "a \<noteq> b" "node_at h a = Some (NObject t)" "node_at h b = Some (NObject u)"
    "size (refs h + E) + ht_size u + 2 < 2 ^ 64"
  shows "\<exists>r h' t'. json_object_update e h (Some a) (Some b) = Some (r, h') \<and> sound e h' E \<and> edits h h' a \<and> (r = 0 \<or> r = -1) \<and>
    node_at h' a = Some (NObject t') \<and>
    (r = 0 \<longrightarrow> entries t' = foldl (\<lambda>kvs p. obj_set (fst p) (snd p) kvs) (entries t) (entries u) \<and>
       map_of (entries t') = map_of (entries t) ++ map_of (entries u))"
  by (rule json_object_update_sound [OF assms])

theorem json_object_update_entries_witness:
  "\<exists>r h'. json_object_update ex_env ex_heap (Some 5) (Some 8) = Some (r, h') \<and> sound ex_env h' {#4, 5, 6, 8#} \<and> (r = 0 \<or> r = -1)"
proof -
  have "size (refs ex_heap + {#4, 5, 6, 8#}) + ht_size ex_table1 + 2 < 2 ^ 64"
    using ex_load ex_table1_size by simp
  from json_object_update_entries [OF ex_sound _ _ _ ex_nodes(3,6) this] show ?thesis by auto
qed

text \<open>
  C25. Replacing an element, removing one, and clearing: exactly the element at the index is replaced or taken out, an index outside the
  array is reported by -1 and changes nothing, and dropped elements are released.
\<close>

theorem json_array_edit_elems:
  assumes "sound e h (add_mset v E)" "a \<in># E" "node_at h a = Some (NArray arr)"
  shows "(\<exists>r h' arr'. json_array_set_new h (Some a) index (Some v) = Some (r, h') \<and> sound e h' E \<and> edits h h' a \<and>
      r = (if a \<noteq> v \<and> unat index < length (elems arr) then 0 else -1) \<and> node_at h' a = Some (NArray arr') \<and>
      elems arr' = (if r = 0 then (elems arr)[unat index := v] else elems arr)) \<and>
    (\<exists>r h' arr'. json_array_remove h (Some a) index = Some (r, h') \<and> sound e h' (add_mset v E) \<and> edits h h' a \<and>
      r = (if unat index < length (elems arr) then 0 else -1) \<and> node_at h' a = Some (NArray arr') \<and>
      elems arr' = (if r = 0 then take (unat index) (elems arr) @ drop (unat index + 1) (elems arr) else elems arr)) \<and>
    (\<exists>h' arr'. json_array_clear h (Some a) = Some (0, h') \<and> sound e h' (add_mset v E) \<and> edits h h' a \<and>
      node_at h' a = Some (NArray arr') \<and> elems arr' = [])"
proof -
  have a: "a \<in># add_mset v E" using assms(2) by simp
  show ?thesis
    using json_array_set_new_sound [OF assms, of index] json_array_remove_sound [OF assms(1) a assms(3), of index]
      json_array_clear_sound [OF assms(1) a assms(3)] by blast
qed

theorem json_array_edit_elems_witness:
  "\<exists>h' arr'. json_array_set_new ex_heap (Some 4) 0 (Some 6) = Some (0, h') \<and> sound ex_env h' {#4, 5, 8#} \<and>
     node_at h' 4 = Some (NArray arr') \<and> elems arr' = [6]"
  using json_array_edit_elems [OF ex_sound6 _ ex_nodes(2), of 0] by (auto simp: ex_elems)

text \<open>
  C26. Deep copying returns on every structure, circular ones included. When it yields a value, that value represents the tree of the original and consists of
  new cells and static values only, so later changes to one do not show in the other; when it fails, the partial
  copy has been released: the counts are exact for the references the caller had.
\<close>

theorem json_deep_copy_correct:
  assumes "sound e h E" "a \<in># E"
  shows "\<exists>r h'. json_deep_copy e h (Some a) = Some (r, h') \<and> sound e h' (E + opt r) \<and> keeps (length h) h h' \<and>
    (\<forall>b. r = Some b \<longrightarrow> (\<exists>j. repr h a j \<and> copy_of (length h) h' b j \<and> repr h' b j \<and> repr h' a j))"
proof -
  obtain r h' where c: "json_deep_copy e h (Some a) = Some (r, h')" "sound e h' (E + opt r)" "keeps (length h) h h'"
      "\<forall>b. r = Some b \<longrightarrow> (\<exists>j. repr h a j \<and> copy_of (length h) h' b j)"
    using json_deep_copy_sound [OF assms] by blast
  have "a \<in># E + opt r" using assms(2) by simp
  with c repr_kept [OF _ assms c(2) _ c(3)] copy_of_repr show ?thesis by blast
qed

theorem json_deep_copy_correct_witness:
  "\<exists>r h'. json_deep_copy ex_env ex_heap (Some 8) = Some (r, h') \<and> sound ex_env h' ({#4, 5, 6, 8#} + opt r)"
  using json_deep_copy_correct [OF ex_sound, of 8] by auto

text \<open>
  C27. Equality of finite values: given more steps than the tree has nodes, \<open>json_equal\<close> returns, and its answer is the structural
  equality of the two trees, in which objects are compared as maps and reals by the platform's comparison.
\<close>

theorem json_equal_decides:
  assumes "sound e h E" "singletons h" "repr h a j" "repr h b k" "\<forall>r\<in>set_json j. c_real_eq e r r" "size j < fuel"
  shows "json_equal e h fuel (Some a) (Some b) = Some (jeq e j k)"
  by (rule json_equal_tree [OF soundD(2) [OF assms(1)] assms(2-6)])

theorem json_equal_decides_witness:
  "json_equal ex_env ex_heap 10 (Some 4) (Some 8) = Some False \<and> json_equal ex_env ex_heap 10 (Some 8) (Some 8) = Some True"
proof -
  have "size (JArray [JInteger 7 :: nat json]) < 10" "size (JObject [(asc ''k'', JInteger 9 :: nat json)]) < 10" by simp_all
  with json_equal_decides [OF ex_sound ex_singletons ex_repr(1) ex_repr(2), of 10]
    json_equal_decides [OF ex_sound ex_singletons ex_repr(2) ex_repr(2), of 10]
  show ?thesis by (simp add: jeq.simps)
qed





text \<open>
  C30. Validation is exact: \<open>utf8_check_string\<close> accepts a byte string if and only if it is the concatenation of the
  shortest-form encodings of Unicode scalar values.
\<close>

theorem utf8_check_string_exact:
  "utf8_check_string bs (length bs) \<longleftrightarrow> (\<exists>cs. list_all scalar cs \<and> bs = enc_all cs)"
  by (simp add: utf8_check_string_valid valid_utf8_def)

text \<open>
  C31. The optimised hash agrees with the bytewise one. Whatever the alignment of the key and the byte order of the machine, the reads of 32 and of
  16 bits, including those that reach beyond the key and are masked, give the hash of the bytewise
  loop, and memory behind the key does not matter.
\<close>

theorem hashlittle_paths_agree:
  assumes "\<forall>i<length key. m i = key ! i"
  shows "hashlittle le addr m (length key) seed = hashlittle False 1 (\<lambda>i. if i < length key then key ! i else 0) (length key) seed \<and>
    ucast (hashlittle le addr m (length key) seed) = hash_str seed key"
  using hashlittle_cong [of "length key" m "\<lambda>i. if i < length key then key ! i else 0"] hashlittle_hash_str [OF assms] assms by simp

theorem hashlittle_paths_agree_witness:
  "hashlittle True 4 (\<lambda>i. of_nat i) (length [0 :: byte, 1]) 7 =
     hashlittle False 1 (\<lambda>i. if i < length [0 :: byte, 1] then [0, 1] ! i else 0) (length [0 :: byte, 1]) 7"
  by (rule hashlittle_paths_agree [THEN conjunct1]) (simp add: less_Suc_eq)

text \<open>
  C32. \<open>pam_get_user\<close> settles: after an answer other than \<open>PAM_CONV_AGAIN\<close>, \<open>PAM_BUF_ERR\<close> and \<open>PAM_ABORT\<close>,
  every further call, with any prompt, returns the same code and name and leaves the handle as it is; a
  success comes with a name, which is the item \<open>PAM_USER\<close>.
\<close>

theorem pam_get_user_settles:
  assumes "pam_get_user e dest prompt s = Some ((r, user), s')" "r \<notin> {PAM_CONV_AGAIN, PAM_BUF_ERR, PAM_ABORT}"
  shows "pam_get_user e dest prompt' s' = Some ((r, user), s') \<and> (r = PAM_SUCCESS \<longrightarrow> user \<noteq> None \<and> pam_user s' = user)"
  by (rule get_user_settles [OF assms])

theorem pam_get_user_settles_witness:
  "\<exists>s'. pam_get_user desk True None desk_public = Some ((PAM_SUCCESS, Some (asc ''root'')), s') \<and>
     pam_get_user desk True (Some [63]) s' = Some ((PAM_SUCCESS, Some (asc ''root'')), s')"
proof -
  have "map_option fst (pam_get_user desk True None desk_public) = Some (PAM_SUCCESS, Some (asc ''root''))" by code_simp
  then obtain s' where s': "pam_get_user desk True None desk_public = Some ((PAM_SUCCESS, Some (asc ''root'')), s')" by auto
  from pam_get_user_settles [OF s', of "Some [63]"] s' show ?thesis by simp
qed

text \<open>
  C33. The growing buffer: appending keeps the invariant and adds exactly the given bytes, or fails with -1 and leaves the
  buffer as it was, also when the computation of the new size would wrap around; popping takes the last byte off, and gives 0 on an
  empty buffer; clearing empties it.
\<close>

theorem strbuffer_operations:
  assumes "malloc_ok m" "sb_inv sb" "unat sz \<le> length data" "strbuffer_append_bytes m sb data sz = (r, sb')"
  shows "sb_inv sb' \<and> (r = 0 \<and> sb_contents sb' = sb_contents sb @ take (unat sz) data \<or> r = -1 \<and> sb' = sb) \<and>
    sb_inv (snd (strbuffer_pop sb)) \<and> sb_contents (snd (strbuffer_pop sb)) = butlast (sb_contents sb) \<and>
    fst (strbuffer_pop sb) = (if sb_contents sb = [] then 0 else last (sb_contents sb)) \<and>
    sb_inv (strbuffer_clear sb) \<and> sb_contents (strbuffer_clear sb) = []"
proof -
  have "sb_inv sb' \<and> (r = 0 \<and> sb_contents sb' = sb_contents sb @ take (unat sz) data \<or> r = -1 \<and> sb' = sb)"
    using strbuffer_append_bytes_ok [OF assms(1-3)] strbuffer_append_bytes_fail [OF assms(4)] assms(2,4)
    by (cases "r = 0") auto
  moreover have "fst (strbuffer_pop sb) = (if sb_contents sb = [] then 0 else last (sb_contents sb))"
    using strbuffer_pop_ok [OF assms(2)] by (metis fst_conv)
  ultimately show ?thesis using strbuffer_pop_ok [OF assms(2)] strbuffer_clear_inv [OF assms(2)] by blast
qed

theorem strbuffer_operations_witness:
  "sb_contents (snd (strbuffer_append_bytes ex_malloc \<lparr>sb_value = Some [65, 0], sb_length = 1, sb_size = 2\<rparr> [66, 67] 2)) = [65, 66, 67]"
proof -
  have i: "sb_inv \<lparr>sb_value = Some [65, 0], sb_length = 1, sb_size = 2\<rparr>" by (simp add: sb_inv_def)
  have a: "fst (strbuffer_append_bytes ex_malloc \<lparr>sb_value = Some [65, 0], sb_length = 1, sb_size = 2\<rparr> [66, 67] 2) = 0" by code_simp
  have m: "malloc_ok ex_malloc" using ex_malloc_total by (simp add: malloc_total_def)
  from strbuffer_operations [OF m i _ surjective_pairing, of 2 "[66, 67]"] a show ?thesis by (simp add: sb_contents_def)
qed

text \<open>
  C34. Packing and unpacking return for every format string: no malformed or truncated format keeps the loops of the packer or
  unpacker running, and the depth of the recursion is bounded by the length of the format.
\<close>

theorem json_pack_unpack_return:
  "json_vpack_ex e m h error flags fmt ap \<noteq> Stuck \<and> json_vunpack_ex e m h jroot error flags fmt ap \<noteq> Stuck"
  using json_vpack_ex_returns json_vunpack_ex_returns by blast

text \<open>
  C35. Unpacking reports what goes wrong and only reads. Its status is 0 or -1; with -1 the error record, if given, carries a message; no value
  in the heap changes; and with \<open>JSON_VALIDATE_ONLY\<close> nothing is stored in the caller's variables and no reference is taken.
\<close>

theorem json_unpack_reports:
  assumes "json_vunpack_ex e m h jroot error flags fmt ap = Done (r, err, h', outs)"
  shows "(r = 0 \<or> r = -1 \<and> reported err) \<and> (\<forall>a. node_at h' a = node_at h a) \<and>
    (flag flags JSON_VALIDATE_ONLY \<longrightarrow> outs = [] \<and> h' = h)"
  by (rule json_vunpack_ex_reads [OF assms])

theorem json_unpack_reports_witness:
  "\<exists>err. json_vunpack_ex ex_env ex_malloc ex_small (Some 4) (Some ex_err) 0 (Some (asc ''[s]'')) [ATarget 1] = Done (-1, err, ex_small, []) \<and>
     reported err"
proof -
  let ?r = "json_vunpack_ex ex_env ex_malloc ex_small (Some 4) (Some ex_err) 0 (Some (asc ''[s]'')) [ATarget 1]"
  have "(case ?r of Done (r, err, h, outs) \<Rightarrow> r = -1 \<and> h = ex_small \<and> outs = [] | _ \<Rightarrow> False)" by code_simp
  then obtain err where d: "?r = Done (-1, err, ex_small, [])" by (auto split: run.splits)
  with json_unpack_reports [OF d] show ?thesis by simp
qed

text \<open>
  C36. With memory, storing succeeds: as long as the allocator grants every request, the table has fewer than 2^58
  buckets and the key is shorter than 4 GiB, no overflow guard is triggered and the result is 0.
\<close>

theorem hashtable_set_returns_0:
  assumes "\<forall>n. mem n" "ht_order ht < 58" "length key < 2 ^ 32"
  shows "\<exists>t old. hashtable_set hs mem ht key v = (0, t, old)"
  by (rule hashtable_set_succeeds [OF assms])

theorem hashtable_set_returns_0_witness:
  "\<exists>t old. hashtable_set (\<lambda>_. 0) (\<lambda>_. True) \<lparr>ht_size = 0, ht_buckets = [(None, None)], ht_order = 0, ht_list = [], ht_ordered = [],
     ht_pairs = []\<rparr> (asc ''k'') (5 :: nat) = (0, t, old)"
  by (rule hashtable_set_returns_0) simp_all

text \<open>
  C37. The random delay stays within one half of the request, and the conversion back to an integer is
  defined, for every seed and every request below \<open>2 ^ 33 / 3\<close> microseconds.
\<close>

theorem pam_delay_bounds:
  assumes "rounds dbl" "3 * uint base < 2 ^ 33"
  shows "\<exists>d. pam_compute_delay dbl seed base = Some d \<and> uint base div 2 \<le> uint d \<and> 2 * uint d \<le> 3 * uint base"
  by (rule delay_bounds [OF assms])

theorem pam_delay_bounds_witness:
  "\<exists>d. pam_compute_delay id 1 2000000 = Some d \<and> 1000000 \<le> uint d \<and> uint d \<le> 3000000"
  using pam_delay_bounds [OF id_rounds, of 2000000 1] by auto





text \<open>
  C40. A line that never ends: when the continuation backslash is the last byte that fits into the buffer,
  one byte is left for the rest, \<open>fgets\<close> returns the empty string again and again, and the function does
  not return, whatever follows in the file.
\<close>

theorem pam_assemble_line_hangs:
  assumes "length t = BUF_SIZE - 2" "list_all plain_byte t"
  shows "pam_assemble_line (t @ 92 # f) = None"
  by (rule assemble_line_hangs [OF assms])

theorem pam_assemble_line_hangs_witness:
  "pam_assemble_line (replicate 1022 97 @ [92, 10, 97]) = None"
  by (rule pam_assemble_line_hangs) (simp_all add: list_all_iff plain_byte_def)

subsection \<open>Further properties\<close>

text \<open>
  The same for caller-supplied buffers: when \<open>json_dumpb\<close> has room it reports a number of bytes within
  the buffer, and \<open>json_loadb\<close> on exactly these bytes gives the tree back.
\<close>

theorem json_dumpb_loadb_roundtrip:
  assumes "repr h a j" "dumpable libc m f j" "\<not> flag f JSON_EMBED" "flag f JSON_ENCODE_ANY \<or> container j"
    "sz \<le> length buf" "length (jtext libc f 0 j) \<le> sz"
    "loadable libc f g j" "\<not> flag g JSON_DECODE_INT_AS_REAL" "fits JSON_PARSER_MAX_DEPTH j"
    "flag g JSON_DECODE_ANY \<or> container j"
  shows "\<exists>n buf' err'. json_dumpb libc m h a buf sz f = (n, buf') \<and> n \<le> sz \<and>
    json_loadb libc (Some buf') n g err = Some (Some (canon f j), err')"
  by (rule json_dumpb_loadb [OF assms])

theorem json_dumpb_loadb_roundtrip_witness:
  "\<exists>n buf' err'. json_dumpb ex_env ex_malloc ex_heap 8 (replicate 10 0) 10 JSON_COMPACT = (n, buf') \<and> n \<le> 10 \<and>
    json_loadb ex_env (Some buf') n 0 None = Some (Some (canon JSON_COMPACT ex_doc), err')"
proof -
  have f: "\<not> flag JSON_COMPACT JSON_EMBED" "\<not> flag 0 JSON_DECODE_INT_AS_REAL" by code_simp+
  show ?thesis
    by (rule json_dumpb_loadb_roundtrip [OF ex_doc_repr ex_doc_dumpable f(1) _ _ _ ex_doc_loadable(1) f(2) ex_doc_loadable(2)])
      (simp_all add: ex_doc_loadable(3) ex_doc_text)
qed

text \<open>
  Reference counting is safe. In a heap whose counts are exact for the caller's references (\<open>sound\<close>),
  giving up one reference, with all the deletions that follow, faults nowhere, restores exact
  counts for the remaining references, and leaves every value that is still referenced as it was.
\<close>

theorem json_decref_safe:
  assumes "sound e h (add_mset v E)"
  shows "\<exists>h'. json_decref h (Some v) = Some h' \<and> sound e h' E \<and> (\<forall>b. b \<in># E \<longrightarrow> node_at h' b = node_at h b)"
proof -
  obtain h' where h': "json_decref h (Some v) = Some h'" "sound e h' E" "shrinks h h'"
    using json_decref_sound [OF assms] by blast
  then have "b \<in># E \<Longrightarrow> node_at h' b = node_at h b" for b
    using sound_live [of e h' E b] shrinks_node [of h h' b] by auto
  with h' show ?thesis by blast
qed

theorem json_decref_safe_witness:
  "\<exists>h'. json_decref ex_heap (Some 6) = Some h' \<and> sound ex_env h' {#4, 5, 8#} \<and>
     (\<forall>b. b \<in># {#4, 5, 8#} \<longrightarrow> node_at h' b = node_at ex_heap b)"
  by (rule json_decref_safe [OF ex_sound6])

text \<open>
  Deleting from an object: the call reports 0 exactly when the key was present, the key is gone
  afterwards, the other pairs keep their order, and the reference to the value is released.
\<close>

theorem json_object_del_entries:
  assumes "sound e h E" "a \<in># E" "node_at h a = Some (NObject ht)"
  shows "\<exists>h' ht'. json_object_deln e h (Some a) (Some k) = Some (if k \<in> fst ` set (entries ht) then 0 else -1, h') \<and>
    sound e h' E \<and> edits h h' a \<and> node_at h' a = Some (NObject ht') \<and> entries ht' = filter (\<lambda>p. fst p \<noteq> k) (entries ht)"
  by (rule json_object_deln_sound [OF assms])

theorem json_object_del_entries_witness:
  "\<exists>h' ht'. json_object_deln ex_env ex_heap (Some 8) (Some (asc ''k'')) = Some (0, h') \<and>
     sound ex_env h' {#4, 5, 6, 8#} \<and> node_at h' 8 = Some (NObject ht') \<and> entries ht' = []"
  using json_object_del_entries [OF ex_sound _ ex_nodes(6), of "asc ''k''"] by (auto simp: ex_table1_ok)

text \<open>
  The two partial updates: \<open>json_object_update_existing\<close> keeps the keys of the target exactly;
  \<open>json_object_update_missing\<close> keeps all its pairs and appends pairs of the source only. Both report success and keep the
  counts exact.
\<close>

theorem json_object_update_partial:
  assumes "sound e h E" "a \<in># E" "b \<in># E" "a \<noteq> b" "node_at h a = Some (NObject t)" "node_at h b = Some (NObject u)"
    "size (refs h + E) + ht_size u + 2 < 2 ^ 64"
  shows "(\<exists>h' t'. json_object_update_existing e h (Some a) (Some b) = Some (0, h') \<and> sound e h' E \<and>
      node_at h' a = Some (NObject t') \<and> map fst (entries t') = map fst (entries t)) \<and>
    (\<exists>h' t' extra. json_object_update_missing e h (Some a) (Some b) = Some (0, h') \<and> sound e h' E \<and>
      node_at h' a = Some (NObject t') \<and> entries t' = entries t @ extra \<and> set extra \<subseteq> set (entries u))"
  using update_some_sound [OF assms, of True] update_some_sound [OF assms, of False]
  by (auto simp: json_object_update_existing_def json_object_update_missing_def)

theorem json_object_update_partial_witness:
  "\<exists>h' t' extra. json_object_update_missing ex_env ex_heap (Some 5) (Some 8) = Some (0, h') \<and> sound ex_env h' {#4, 5, 6, 8#} \<and>
     node_at h' 5 = Some (NObject t') \<and> entries t' = extra \<and> set extra \<subseteq> {(asc ''k'', 7)}"
proof -
  have "size (refs ex_heap + {#4, 5, 6, 8#}) + ht_size ex_table1 + 2 < 2 ^ 64"
    using ex_load ex_table1_size by simp
  from json_object_update_partial [OF ex_sound _ _ _ ex_nodes(3,6) this] show ?thesis
    by (auto simp: ex_table0_ok ex_table1_ok)
qed

text \<open>
  Adding to an array. Appending puts the value at the end, inserting at an index up to the size shifts the later
  elements by one; a larger index is refused. On failure the elements are as before, and the reference to
  the value is released. The size grows without overflow.
\<close>

theorem json_array_add_elems:
  assumes "sound e h (add_mset v E)" "a \<in># E" "node_at h a = Some (NArray arr)"
  shows "(\<exists>r h' arr'. json_array_append_new e h (Some a) (Some v) = Some (r, h') \<and> sound e h' E \<and> edits h h' a \<and>
      (r = 0 \<or> r = -1) \<and> node_at h' a = Some (NArray arr') \<and> elems arr' = (if r = 0 then elems arr @ [v] else elems arr)) \<and>
    (\<exists>r h' arr'. json_array_insert_new e h (Some a) index (Some v) = Some (r, h') \<and> sound e h' E \<and> edits h h' a \<and>
      (r = 0 \<or> r = -1) \<and> (unat index > length (elems arr) \<longrightarrow> r = -1) \<and> node_at h' a = Some (NArray arr') \<and>
      elems arr' = (if r = 0 then take (unat index) (elems arr) @ v # drop (unat index) (elems arr) else elems arr))"
  using json_array_append_new_sound [OF assms] json_array_insert_new_sound [OF assms, of index] by blast

theorem json_array_add_elems_witness:
  "\<exists>r h' arr'. json_array_insert_new ex_env ex_heap (Some 4) 5 (Some 6) = Some (r, h') \<and> sound ex_env h' {#4, 5, 8#} \<and>
     r = -1 \<and> node_at h' 4 = Some (NArray arr') \<and> elems arr' = [3]"
  using json_array_add_elems [OF ex_sound6 _ ex_nodes(2), of 5] by (auto simp: ex_elems)

text \<open>
  Extending an array by another one, possibly by itself: all elements of the other are appended in order and
  referenced once more, or the call reports -1 and the array is unchanged.
\<close>

theorem json_array_extend_elems:
  assumes "sound e h E" "node_at h a = Some (NArray arr)" "node_at h b = Some (NArray other)"
    "size (refs h + E) + length (elems other) + 2 < 2 ^ 64"
  shows "\<exists>r h' arr'. json_array_extend e h (Some a) (Some b) = Some (r, h') \<and> sound e h' E \<and> edits h h' a \<and>
    (r = 0 \<or> r = -1) \<and> node_at h' a = Some (NArray arr') \<and>
    elems arr' = (if r = 0 then elems arr @ elems other else elems arr)"
  by (rule json_array_extend_sound [OF assms])

theorem json_array_extend_elems_witness:
  "\<exists>r h' arr'. json_array_extend ex_env ex_heap (Some 4) (Some 4) = Some (r, h') \<and> sound ex_env h' {#4, 5, 6, 8#} \<and>
     node_at h' 4 = Some (NArray arr') \<and> elems arr' = (if r = 0 then [3, 3] else [3])"
proof -
  have "size (refs ex_heap + {#4, 5, 6, 8#}) + length (elems ex_array) + 2 < 2 ^ 64"
    using ex_load by (simp add: ex_elems)
  from json_array_extend_elems [OF ex_sound ex_nodes(2) ex_nodes(2) this] obtain r h' arr' where
    "json_array_extend ex_env ex_heap (Some 4) (Some 4) = Some (r, h')" "sound ex_env h' {#4, 5, 6, 8#}"
    "node_at h' 4 = Some (NArray arr')" "elems arr' = (if r = 0 then elems ex_array @ elems ex_array else elems ex_array)"
    by blast
  then show ?thesis unfolding ex_elems by auto
qed

text \<open>
  Lookup after store: a store that reports 0 is found under its key, and the lookups of all other
  keys give what they gave before, even when the store doubled the table. A store that fails reports -1 and
  changes no lookup.
\<close>

theorem hashtable_get_set:
  assumes "ht_inv hs ht" "hashtable_set hs mem ht k v = (r, ht', old)"
  shows "(r = 0 \<or> r = -1) \<and> hashtable_get hs ht' k' = (if r = 0 \<and> k' = k then Some v else hashtable_get hs ht k')"
  using hash.set_law [OF assms] hash.get_law [OF assms(1)] by (auto simp: hash.get_law obj_set_map_of)

theorem hashtable_get_set_witness:
  "hashtable_get (env_hash ex_env) ex_table1 (asc ''k'') = Some 7"
  using hashtable_get_set [OF ex_table0_ok(1) ex_set, of "asc ''k''"] by simp

text \<open>
  Iteration visits every pair exactly once, in insertion order, and stops: following \<open>hashtable_iter_next\<close>
  from \<open>hashtable_iter\<close> for as many steps as there are pairs collects the contents.
\<close>

theorem hashtable_iteration:
  assumes "ht_inv hs ht"
  shows "iter_collect ht (ht_size ht) (hashtable_iter ht) = entries ht \<and> distinct (map fst (entries ht))"
  using hashtable_iter_entries [OF assms] entries_distinct [OF assms] by simp

theorem hashtable_iteration_witness:
  "iter_collect ex_table1 1 (hashtable_iter ex_table1) = [(asc ''k'', 7)]"
  using hashtable_iteration [OF ex_table1_ok(1)] by (simp add: ex_table1_ok ex_table1_size)

text \<open>
  A deep copy compares equal to the original, on a platform whose comparison of reals is reflexive.
\<close>

theorem json_deep_copy_equal:
  assumes "sound e h E" "a \<in># E" "json_deep_copy e h (Some a) = Some (Some b, h')" "singletons h'" "\<forall>r. c_real_eq e r r"
  shows "\<exists>fuel. json_equal e h' fuel (Some a) (Some b) = Some True"
  by (rule deep_copy_equal [OF assms])

theorem json_deep_copy_equal_witness:
  "\<exists>fuel. json_equal ex_env (snd (the (json_deep_copy ex_env ex_small (Some 4)))) fuel (Some 4) (Some 5) = Some True"
proof -
  have c: "json_deep_copy ex_env ex_small (Some 4) = Some (Some 5, snd (the (json_deep_copy ex_env ex_small (Some 4))))"
    by code_simp
  have s: "singletons (snd (the (json_deep_copy ex_env ex_small (Some 4))))" by code_simp
  show ?thesis by (rule json_deep_copy_equal [OF ex_small_sound _ c s]) simp_all
qed

text \<open>
  Encoding then iterating returns the code point: for every scalar value, whatever follows it in the text, \<open>utf8_iterate\<close>
  gives the value back and advances by the length of its encoding.
\<close>

theorem utf8_encode_iterate:
  assumes "scalar c"
  shows "\<exists>b. utf8_encode c = Some b \<and> utf8_iterate (b @ rest) (length b + length rest) = Some (length b, Some c)"
proof -
  have "utf8_encode c = Some (enc c)" using assms by (intro utf8_encode_enc) (auto simp: scalar_def)
  with utf8_iterate_enc [OF assms, of "length (enc c) + length rest" rest] show ?thesis by simp
qed

theorem utf8_encode_iterate_witness:
  "\<exists>b. utf8_encode 0x20AC = Some b \<and> utf8_iterate (b @ [65]) (length b + 1) = Some (length b, Some 0x20AC)"
  using utf8_encode_iterate [of "0x20AC" "[65]"] by (simp add: scalar_def)

text \<open>
  Error records stay within their arrays: the source has fewer than 80 bytes, a new message at most 158, and once a message is set later
  errors do not overwrite it.
\<close>

theorem json_error_bounded:
  "length (err_source (jsonp_error_set_source e s)) < JSON_ERROR_SOURCE_LENGTH \<and>
   (case jsonp_error_vset (Some e) l c p code msg of
      Some e' \<Rightarrow> (if err_text e \<noteq> [] then e' = e else length (err_text e') \<le> JSON_ERROR_TEXT_LENGTH - 2 \<and> err_code e' = code)
    | None \<Rightarrow> False)"
  using jsonp_error_set_source_length [of e s] by (auto simp: jsonp_error_vset_def)

text \<open>
  What cannot be encoded cannot be stored: creating or setting a string that is not UTF-8, or a real that is NaN or infinite, is refused
  and leaves the heap as it was.
\<close>

theorem json_values_validated:
  "(\<not> valid_utf8 s \<longrightarrow> json_stringn e h (Some s) = (None, h) \<and> json_string_setn e h (Some a) (Some s) = Some (-1, h)) \<and>
    (c_isnan e x \<or> c_isinf e x \<longrightarrow> json_real e h x = (None, h) \<and>
      (node_at h b = Some n \<longrightarrow> json_real_set e h (Some b) x = Some (-1, h)))"
  by (auto simp: json_stringn_def json_string_setn_def utf8_check_string_valid json_real_def json_real_set_def as_real_def split: node.splits)

theorem json_values_validated_witness: "json_stringn ex_env ex_heap (Some [0xFF]) = (None, ex_heap)"
proof -
  have "\<not> valid_utf8 [0xFF]" unfolding utf8_check_string_valid [symmetric] by code_simp
  then show ?thesis using json_values_validated [of "[0xFF]" ex_env ex_heap] by blast
qed

text \<open>
  A defect of the input stream: its one-byte lookahead cannot hold a NUL. The invalid document \<open>[1 NUL ]\<close> is accepted, because the NUL that
  ends the number is pushed back and then taken for an exhausted buffer, so that the byte behind it is read instead.
\<close>

theorem json_loadb_skips_nul:
  "json_loadb ex_env (Some [91, 49, 0, 93]) 4 0 None = Some (Some (JArray [JInteger 1]), None) \<and>
   (\<exists>err. json_loadb ex_env (Some [91, 0, 93]) 3 0 None = Some (None, err))"
proof
  show "json_loadb ex_env (Some [91, 49, 0, 93]) 4 0 None = Some (Some (JArray [JInteger 1]), None)" by code_simp
  have "json_loadb ex_env (Some [91, 0, 93]) 3 0 None = Some (None, None)" by code_simp
  then show "\<exists>err. json_loadb ex_env (Some [91, 0, 93]) 3 0 None = Some (None, err)" ..
qed

text \<open>
  A defect of the encoder: while a string value that is not UTF-8 makes encoding fail, the result of writing a key is ignored. An object
  whose key is the single byte 0xFF is written with an unterminated key, and the call reports success.
\<close>

theorem json_dumpb_ignores_key_error:
  assumes "node_at h a = Some (NObject ht)" "entries ht = [([0xFF], b)]" "node_at h b = Some NNull"
  shows "json_dumpb libc m h a (replicate 9 0) 9 JSON_COMPACT = (8, [123, 34, 58, 110, 117, 108, 108, 125, 0])"
proof -
  have f: "FLAGS_TO_INDENT (clear_embed JSON_COMPACT) = 0" "flag (clear_embed JSON_COMPACT) JSON_COMPACT" "\<not> flag JSON_COMPACT JSON_EMBED"
    "\<not> flag (clear_embed JSON_COMPACT) JSON_SORT_KEYS" "dump_scan (clear_embed JSON_COMPACT) [0xFF] = None"
    by code_simp+
  have "a \<noteq> b" using assms(1,3) by auto
  show ?thesis
    using assms f \<open>a \<noteq> b\<close>
    by (simp add: json_dumpb_def json_dump_callback_def do_dump.simps jsonp_loop_check_def bracket_def andThen_def dump_to_buffer_def memcpy_at_def
        dump_indent_def keys_alloc_fails_def order_pairs_def dump_string_def dump_string_loop.simps dump_sep_def numeral_eq_Suc)
qed

theorem json_dumpb_ignores_key_error_witness:
  "json_dumpb ex_env ex_malloc ex_badkey 3 (replicate 9 0) 9 JSON_COMPACT = (8, [123, 34, 58, 110, 117, 108, 108, 125, 0])"
  by (rule json_dumpb_ignores_key_error [OF ex_badkey_node ex_badkey_entries ex_badkey_null])

text \<open>
  A defect of the shallow copy: the result of each append is ignored. With an allocator that grants at most 64 bytes, copying an array of nine elements yields
  an array of eight, where the documentation promises NULL.
\<close>

theorem json_copy_drops_elements:
  "map_option (\<lambda>(r, h). json_array_size h r) (json_copy (ex_env\<lparr>env_mem := \<lambda>n. n \<le> 64\<rparr>) ex_nine (Some 3)) = Some (Some 8) \<and>
   json_array_size ex_nine (Some 3) = Some 9"
  by (intro conjI) code_simp+

text \<open>
  No value after an error: when packing starts without an error and one is noted on the way, at any depth, the result is NULL. So it is enough that
  \<open>json_vpack_ex\<close> tests the value, as the comment there says.
\<close>

theorem pack_no_value_after_error:
  assumes "\<not> errs p" "pack e m n p = Done (v, p')" "errs p'"
  shows "v = None"
  using pack_errors [OF assms(1), of e m n] assms(2,3) by simp

theorem pack_no_value_after_error_witness:
  "\<exists>p'. pack ex_env ex_malloc 9 ex_pack = Done (None, p') \<and> errs p'"
proof -
  have n: "\<not> errs ex_pack" by code_simp
  have "(case pack ex_env ex_malloc 9 ex_pack of Done (v, p') \<Rightarrow> errs p' | _ \<Rightarrow> False)" by code_simp
  then obtain v p' where r: "pack ex_env ex_malloc 9 ex_pack = Done (v, p')" "errs p'" by (auto split: run.splits)
  from pack_no_value_after_error [OF n r] r show ?thesis by simp
qed

text \<open>
  A defect of validation: with \<open>JSON_VALIDATE_ONLY\<close> the unpacker does not consume the \<open>%\<close> that may follow \<open>s\<close>. The format
  \<open>s%\<close>, which unpacks a string and its length, is rejected as garbage when it is only validated against the same string.
\<close>

theorem json_unpack_validate_rejects_length:
  "json_unpack_ex ex_env ex_malloc ex_string (Some 3) None 0 (Some (asc ''s%'')) [ATarget 1, ATarget 2] =
     Done (0, None, ex_string, [(1, OStr (asc ''x'')), (2, OLen 1)]) \<and>
   json_unpack_ex ex_env ex_malloc ex_string (Some 3) None JSON_VALIDATE_ONLY (Some (asc ''s%'')) [] = Done (-1, None, ex_string, [])"
  by (intro conjI) code_simp+

text \<open>
  A defect of error reporting: the message of the first error is kept, but every later error still overwrites the source. Packing the
  truncated format \<open>[o\<close> with a null argument reports the text \<open>NULL object\<close>, an error of the arguments, with the source \<open><format>\<close>.
\<close>

theorem json_pack_mixes_errors:
  "(case json_pack_ex ex_env ex_malloc ex_string (Some ex_err) 0 (Some (asc ''[o'')) [ANull] of
      Done (v, Some err, h) \<Rightarrow> v = None \<and> err_text err = asc ''NULL object'' \<and> err_source err = asc ''<format>''
    | _ \<Rightarrow> False)"
  by code_simp

text \<open>
  The copy of the environment: \<open>pam_getenvlist\<close> always returns; it returns either the list of all
  assignments, with distinct names, or a null pointer, which means that the allocator refused.
\<close>

theorem pam_getenvlist_copies:
  assumes "has_env s"
  shows "\<exists>r n. pam_getenvlist e s = Some (r, s\<lparr>allocs := n\<rparr>) \<and>
    (case r of None \<Rightarrow> \<exists>m. \<not> malloc_answer e m
     | Some xs \<Rightarrow> env_map xs = env_view s \<and> distinct (names xs) \<and> list_all assignment xs)"
  by (rule getenvlist_spec [OF assms])

theorem pam_getenvlist_copies_witness:
  "\<exists>xs n. pam_getenvlist desk env_public = Some (Some xs, env_public\<lparr>allocs := n\<rparr>) \<and> env_map xs = env_view env_public"
proof -
  obtain r n where r: "pam_getenvlist desk env_public = Some (r, env_public\<lparr>allocs := n\<rparr>)"
      "case r of None \<Rightarrow> \<exists>m. \<not> malloc_answer desk m | Some xs \<Rightarrow> env_map xs = env_view env_public \<and> distinct (names xs) \<and> list_all assignment xs"
    using pam_getenvlist_copies [OF env_public_ok, of desk] by blast
  then obtain xs where "r = Some xs" by (cases r) auto
  with r show ?thesis by auto
qed

text \<open>
  The failure delay after a reset: the largest request counts; but when the first request is zero, the
  delay left from before the reset takes part in the comparison.
\<close>

theorem pam_fail_delay_largest:
  "delay_usec (fail_delays (u # us) (pam_reset_timer s)) = (if u = 0 then Max (insert (delay_usec s) (set us)) else Max (set (u # us)))"
  by (rule fail_delay_largest)

end
